(* ===== verification/Prelude.thy ===== *)
theory Prelude
  imports Main "HOL-Library.Signed_Division"
begin

unbundle bit_operations_syntax

text \<open>
  Shared vocabulary of the development: the fixed-width integers of the C++ code, the
  errors it throws, results as sums, and the generic facts on these that the components use.

  A C++ integer of width \<open>w\<close> is a HOL \<open>int\<close> (or \<open>nat\<close> where the code uses it as a
  plain count) together with the wrap-around written out: \<open>i64\<close> and \<open>i32\<close> reduce into the
  two's complement range, \<open>u64\<close> and \<open>u32\<close> reduce modulo the power of two. Signed overflow
  is undefined in C++; the model takes the two's complement result the supported
  platforms compute, and the theorems say for which inputs no reduction happens at all.
\<close>

named_theorems int_width \<open>facts that remove a wrap-around from a value known to be in range\<close>
named_theorems err_simps \<open>rewriting of error results\<close>

subsection \<open>Fixed-width integers\<close>

definition i64 :: "int \<Rightarrow> int" where
  "i64 x = (x + 2 ^ 63) mod 2 ^ 64 - 2 ^ 63"

definition u64 :: "int \<Rightarrow> int" where
  "u64 x = x mod 2 ^ 64"

definition i32 :: "int \<Rightarrow> int" where
  "i32 x = (x + 2 ^ 31) mod 2 ^ 32 - 2 ^ 31"

definition u32 :: "int \<Rightarrow> int" where
  "u32 x = x mod 2 ^ 32"

definition is_i64 :: "int \<Rightarrow> bool" where
  "is_i64 x \<longleftrightarrow> - (2 ^ 63) \<le> x \<and> x < 2 ^ 63"

definition is_i32 :: "int \<Rightarrow> bool" where
  "is_i32 x \<longleftrightarrow> - (2 ^ 31) \<le> x \<and> x < 2 ^ 31"

abbreviation INT64_MAX :: int where
  "INT64_MAX \<equiv> 9223372036854775807"

lemma i64_id [int_width]: "\<bar>x\<bar> \<le> INT64_MAX \<Longrightarrow> i64 x = x"
  by (simp add: i64_def)

lemma i64_in_range: "is_i64 x \<Longrightarrow> i64 x = x"
  by (simp add: i64_def is_i64_def)

lemma is_i64_i64 [simp]: "is_i64 (i64 x)"
  by (simp add: i64_def is_i64_def)

lemma i64_bounds: "- (2 ^ 63) \<le> i64 x \<and> i64 x < 2 ^ 63"
  using is_i64_i64 [of x] by (simp add: is_i64_def)

lemma u64_id [int_width]: "0 \<le> x \<Longrightarrow> x < 2 ^ 64 \<Longrightarrow> u64 x = x"
  by (simp add: u64_def)

lemma i32_id [int_width]: "\<bar>x\<bar> < 2 ^ 31 \<Longrightarrow> i32 x = x"
  by (simp add: i32_def)

lemma i32_mod [simp]: "0 < k \<Longrightarrow> k \<le> 2 ^ 31 \<Longrightarrow> i32 (x mod k) = x mod k"
  using pos_mod_bound [of k x] pos_mod_sign [of k x] by (intro i32_id) linarith

lemma u32_id [int_width]: "0 \<le> x \<Longrightarrow> x < 2 ^ 32 \<Longrightarrow> u32 x = x"
  by (simp add: u32_def)

lemma u32_bounds: "0 \<le> u32 x \<and> u32 x < 2 ^ 32"
  by (simp add: u32_def)

lemma u64_bounds: "0 \<le> u64 x \<and> u64 x < 2 ^ 64"
  by (simp add: u64_def)

lemma zdiv_self_le: "0 \<le> a \<Longrightarrow> 0 < g \<Longrightarrow> a div g \<le> (a::int)"
  using zdiv_mono2 [of a 1 g] by simp

lemma le_zdiv_iff:
  fixes a b n :: int
  assumes "0 < b"
  shows "n \<le> a div b \<longleftrightarrow> n * b \<le> a"
proof -
  have a: "a = (a div b) * b + a mod b" by simp
  have m: "0 \<le> a mod b" "a mod b < b" using assms by simp_all
  show ?thesis
  proof
    assume "n \<le> a div b"
    then have "n * b \<le> (a div b) * b" using assms by (simp add: mult_right_mono)
    with a m show "n * b \<le> a" by linarith
  next
    assume "n * b \<le> a"
    with a m have "n * b < (a div b + 1) * b" unfolding distrib_right by linarith
    then have "n < a div b + 1" using assms by (simp only: mult_less_cancel_right_pos)
    then show "n \<le> a div b" by simp
  qed
qed

text \<open>The integer division of C++ truncates towards zero: \<open>sdiv\<close> and \<open>smod\<close>.\<close>

lemma sdiv_nonneg: "0 \<le> a \<Longrightarrow> 0 < b \<Longrightarrow> (a::int) sdiv b = a div b"
  by (simp add: signed_divide_int_def sgn_if)

lemma sdiv_neg: "a < 0 \<Longrightarrow> 0 < b \<Longrightarrow> (a::int) sdiv b = - ((- a) div b)"
  by (simp add: signed_divide_int_def sgn_if)

lemma smod_nonneg: "0 \<le> a \<Longrightarrow> 0 < b \<Longrightarrow> (a::int) smod b = a mod b"
  by (simp add: signed_modulo_int_def sgn_if)

lemma smod_neg: "a < 0 \<Longrightarrow> 0 < b \<Longrightarrow> (a::int) smod b = - ((- a) mod b)"
  by (simp add: signed_modulo_int_def sgn_if)

text \<open>The lowest digit of a number in a mixed radix, and the rest.\<close>

lemma digit_split:
  fixes x y b :: int
  assumes "0 \<le> x" "x < b"
  shows "(x + b * y) mod b = x" and "(x + b * y) div b = y"
  using assms by simp_all

subsection \<open>Errors\<close>

text \<open>
  The exception classes of \<open>lib/error.hpp\<close>, with the identifier an error is tagged with.
  \<open>Assertion\<close> stands for a violated \<open>REQUIRE\<close>, \<open>ASSERT\<close> or \<open>ENSURE\<close>, which halts a
  debug build.
\<close>

datatype error_class = Logic | Fatal | State | Invalid | Config | External | Assertion

datatype lumiera_error = Err error_class string

type_synonym 'a result = "lumiera_error + 'a"

definition bind_result :: "'a result \<Rightarrow> ('a \<Rightarrow> 'b result) \<Rightarrow> 'b result" where
  "bind_result r f = (case r of Inl e \<Rightarrow> Inl e | Inr x \<Rightarrow> f x)"

lemma bind_result_simps [simp, err_simps]:
  "bind_result (Inl e) f = Inl e"
  "bind_result (Inr x) f = f x"
  by (simp_all add: bind_result_def)

lemma bind_result_Inl_iff: "bind_result r f = Inl e \<longleftrightarrow> r = Inl e \<or> (\<exists>x. r = Inr x \<and> f x = Inl e)"
  by (cases r) simp_all

lemma bind_result_Inr_iff [err_simps]:
  "bind_result r f = Inr y \<longleftrightarrow> (\<exists>x. r = Inr x \<and> f x = Inr y)"
  by (cases r) auto

lemma bind_result_assoc: "bind_result (bind_result r f) g = bind_result r (\<lambda>x. bind_result (f x) g)"
  by (cases r) auto

lemma bind_result_cong [fundef_cong]:
  "r = r' \<Longrightarrow> (\<And>x. r' = Inr x \<Longrightarrow> f x = f' x) \<Longrightarrow> bind_result r f = bind_result r' f'"
  by (cases r') auto

text \<open>The symbol for an undefined value.\<close>

definition BOTTOM :: string where
  "BOTTOM = [CHR 0xE2, CHR 0x9F, CHR 0x82]"

definition require :: "bool \<Rightarrow> string \<Rightarrow> unit result" where
  "require b msg = (if b then Inr () else Inl (Err Assertion msg))"

text \<open>
  A computation with loops that need not end: \<open>None\<close> stands for not returning.
\<close>

type_synonym 'a partial_result = "'a result option"

definition bind_partial :: "'a partial_result \<Rightarrow> ('a \<Rightarrow> 'b partial_result) \<Rightarrow> 'b partial_result" where
  "bind_partial r f = (case r of None \<Rightarrow> None | Some (Inl e) \<Rightarrow> Some (Inl e) | Some (Inr x) \<Rightarrow> f x)"

lemma bind_partial_simps [simp, err_simps]:
  "bind_partial None f = None"
  "bind_partial (Some (Inl e)) f = Some (Inl e)"
  "bind_partial (Some (Inr x)) f = f x"
  by (simp_all add: bind_partial_def)

lemma bind_partial_Inr_iff [err_simps]:
  "bind_partial r f = Some (Inr y) \<longleftrightarrow> (\<exists>x. r = Some (Inr x) \<and> f x = Some (Inr y))"
  by (auto simp: bind_partial_def split: option.splits sum.splits)

text \<open>
  The depth-first order of a forest given by its children function: every element, followed by
  all that grows from its children, and then by its siblings. There is no such list where the
  expansion does not end.
\<close>

inductive preorder :: "('a \<Rightarrow> 'a list) \<Rightarrow> 'a list \<Rightarrow> 'a list \<Rightarrow> bool" for kids where
  preorder_Nil: "preorder kids [] []"
| preorder_Cons: "preorder kids (kids x) below \<Longrightarrow> preorder kids xs out \<Longrightarrow> preorder kids (x # xs) (x # below @ out)"

inductive_simps preorder_simps [simp]: "preorder kids [] out" "preorder kids (x # xs) out"

inductive_cases preorder_NilE: "preorder kids xs []"

end
