(* ===== verification/IntUtil.thy ===== *)
theory IntUtil
  imports Prelude
begin

unbundle bit_operations_syntax

text \<open>
  The integer helpers of \<open>lib/util.hpp\<close>, \<open>lib/util-quant.hpp\<close> and \<open>lib/rational.hpp\<close>:
  limiting, division that rounds towards the next smaller integer, the integral binary
  logarithm and the overflow guard built on it. The lemmas relate each to the mathematical
  function it stands for. Division by zero traps in C++; every fact on a division assumes a
  divisor different from zero.
\<close>

subsection \<open>Limits\<close>

definition limited :: "int \<Rightarrow> int \<Rightarrow> int \<Rightarrow> int" where
  "limited lowerBound val upperBound =
     (let m = (if val < lowerBound then lowerBound else val)
      in if upperBound < m then upperBound else m)"

definition isLimited :: "int \<Rightarrow> int \<Rightarrow> int \<Rightarrow> bool" where
  "isLimited lowerBound val upperBound \<longleftrightarrow> lowerBound \<le> val \<and> val \<le> upperBound"

definition positiveDiff :: "int \<Rightarrow> int \<Rightarrow> int" where
  "positiveDiff newVal refVal = (if newVal > refVal then newVal - refVal else 0)"

definition isPow2 :: "int \<Rightarrow> bool" where
  "isPow2 n \<longleftrightarrow> n > 0 \<and> (n AND (n - 1)) = 0"

lemma limited_isLimited: "lo \<le> hi \<Longrightarrow> isLimited lo (limited lo x hi) hi"
  by (simp add: limited_def isLimited_def Let_def)

lemma limited_idem: "isLimited lo x hi \<Longrightarrow> limited lo x hi = x"
  by (simp add: limited_def isLimited_def Let_def)

subsection \<open>Division rounding down\<close>

record IDiv =
  quot :: int
  rem :: int

definition iDiv :: "int \<Rightarrow> int \<Rightarrow> IDiv" where
  "iDiv num den = \<lparr>quot = num sdiv den, rem = num - (num sdiv den) * den\<rparr>"

definition floordiv :: "int \<Rightarrow> int \<Rightarrow> int" where
  "floordiv num den =
     (if 0 < (num XOR den) then num sdiv den
      else let res = iDiv num den
           in if rem res \<noteq> 0 then quot res - 1 else quot res)"

definition floorwrap :: "int \<Rightarrow> int \<Rightarrow> IDiv" where
  "floorwrap num den =
     (let res = iDiv num den
      in if 0 > (num XOR den) \<and> rem res \<noteq> 0
         then \<lparr>quot = quot res - 1, rem = den - (- rem res)\<rparr>
         else res)"

lemma XOR_neg_iff: "(a XOR b < (0::int)) \<longleftrightarrow> ((a < 0) \<noteq> (b < 0))"
  by (simp add: xor_negative_int_iff)

lemma XOR_zero_iff: "(a XOR b = (0::int)) \<longleftrightarrow> a = b"
proof
  assume "a XOR b = 0"
  then have "(a XOR b) XOR b = 0 XOR b" by simp
  then show "a = b" by (simp add: xor.assoc)
qed simp

lemma XOR_pos_iff: "(0 < a XOR (b::int)) \<longleftrightarrow> ((a < 0) = (b < 0)) \<and> a \<noteq> b"
  using XOR_neg_iff [of a b] XOR_zero_iff [of a b] by linarith

lemma neg_div_floor:
  fixes a b :: int
  assumes "a < 0" "0 < b"
  shows "a div b = (if (- a) mod b = 0 then - ((- a) div b) else - ((- a) div b) - 1)"
  using assms zdiv_zminus1_eq_if [of b "- a"] by simp

lemma sdiv_pos_den:
  fixes num den :: int
  assumes "0 < den"
  shows "num sdiv den = (if num < 0 \<and> num - (num sdiv den) * den \<noteq> 0 then num div den + 1 else num div den)"
proof (cases "num < 0")
  case True
  have m: "num - (num sdiv den) * den = - ((- num) mod den)"
    using True assms by (simp add: sdiv_neg minus_div_mult_eq_mod [symmetric])
  show ?thesis
    using True assms neg_div_floor [of num den] m by (simp add: sdiv_neg)
next
  case False
  then show ?thesis using assms by (simp add: sdiv_nonneg)
qed

lemma floordiv_pos: "0 < den \<Longrightarrow> floordiv num den = num div den"
proof (cases "num < 0")
  case True
  assume d: "0 < den"
  show ?thesis
    using True d sdiv_pos_den [OF d, of num]
    by (auto simp: floordiv_def iDiv_def XOR_pos_iff Let_def)
next
  case False
  assume d: "0 < den"
  show ?thesis
    using False d by (auto simp: floordiv_def iDiv_def XOR_pos_iff Let_def sdiv_nonneg)
qed

lemma floorwrap_pos:
  assumes "0 < den"
  shows "floorwrap num den = \<lparr>quot = num div den, rem = num mod den\<rparr>"
proof -
  have neg: "num XOR den < 0 \<longleftrightarrow> num < 0" using assms by (simp add: XOR_neg_iff)
  show ?thesis
  proof (cases "num < 0 \<and> num - (num sdiv den) * den \<noteq> 0")
    case True
    then have "num sdiv den = num div den + 1" using sdiv_pos_den [OF assms, of num] by simp
    with True neg show ?thesis
      by (simp add: floorwrap_def iDiv_def Let_def algebra_simps minus_div_mult_eq_mod [symmetric])
  next
    case False
    then have "num sdiv den = num div den" using sdiv_pos_den [OF assms, of num] by auto
    with False neg show ?thesis
      by (auto simp: floorwrap_def iDiv_def Let_def minus_div_mult_eq_mod)
  qed
qed

subsection \<open>Integral binary logarithm\<close>

text \<open>The state of the unrolled loop is the pair of \<open>logB\<close> and the remaining number.\<close>

definition remove_power :: "nat \<Rightarrow> int \<times> int \<Rightarrow> int \<times> int" where
  "remove_power pow s =
     (case s of (logB, num) \<Rightarrow>
        if pow > 63 then (logB, num)
        else if num \<ge> push_bit pow 1 then (logB + int pow, drop_bit pow num)
        else (logB, num))"

definition ilog2 :: "int \<Rightarrow> int" where
  "ilog2 num =
     (if num \<le> 0 then - 1
      else fst (remove_power 1 (remove_power 2 (remove_power 4 (remove_power 8
             (remove_power 16 (remove_power 32 (0, num))))))))"

definition can_represent_Product :: "int \<Rightarrow> int \<Rightarrow> bool" where
  "can_represent_Product a b \<longleftrightarrow> ilog2 (i64 \<bar>a\<bar>) + 1 + ilog2 (i64 \<bar>b\<bar>) + 1 < 63"

text \<open>
  After the step for \<open>2 ^ k\<close> the remaining number is below \<open>2 ^ (2 ^ k)\<close> and the number
  looked at lies in the grid cell the logarithm found so far denotes.
\<close>

definition log_split :: "int \<Rightarrow> nat \<Rightarrow> int \<times> int \<Rightarrow> bool" where
  "log_split n b s \<longleftrightarrow>
     (case s of (l, r) \<Rightarrow> 0 \<le> l \<and> 0 < r \<and> r < 2 ^ b \<and> r * 2 ^ nat l \<le> n \<and> n < (r + 1) * 2 ^ nat l)"

lemma remove_power_log_split:
  assumes "log_split n (p + p) s" "p \<le> 63"
  shows "log_split n p (remove_power p s)"
proof -
  obtain l r where s: "s = (l, r)" by (cases s)
  from assms(1) have b: "0 \<le> l" "0 < r" "r < 2 ^ (p + p)" "r * 2 ^ nat l \<le> n" "n < (r + 1) * 2 ^ nat l"
    by (auto simp: log_split_def s)
  show ?thesis
  proof (cases "r \<ge> 2 ^ p")
    case False
    then show ?thesis using b assms(2) by (simp add: remove_power_def s log_split_def)
  next
    case True
    define q where "q = r div 2 ^ p"
    have split: "r = q * 2 ^ p + r mod 2 ^ p" unfolding q_def by (rule div_mult_mod_eq [symmetric])
    have m: "0 \<le> r mod 2 ^ p" "r mod 2 ^ p < 2 ^ p" by simp_all
    have q1: "q * 2 ^ p \<le> r" using split m by linarith
    have q2: "r + 1 \<le> (q + 1) * 2 ^ p" using split m unfolding distrib_right by linarith
    have q0: "0 < q" using True unfolding q_def by (simp add: pos_imp_zdiv_pos_iff)
    have qlt: "q < 2 ^ p"
    proof -
      have "q * 2 ^ p < 2 ^ p * 2 ^ p" using q1 b(3) unfolding power_add by linarith
      then show ?thesis by simp
    qed
    have e: "nat (l + int p) = p + nat l" using b(1) by simp
    have "q * 2 ^ (p + nat l) \<le> r * 2 ^ nat l"
      using mult_right_mono [OF q1, of "2 ^ nat l"] by (simp add: power_add mult.assoc)
    moreover have "(r + 1) * 2 ^ nat l \<le> (q + 1) * 2 ^ (p + nat l)"
      using mult_right_mono [OF q2, of "2 ^ nat l"] by (simp add: power_add mult.assoc)
    ultimately show ?thesis
      using True b q0 qlt assms(2) e
      by (simp add: remove_power_def s log_split_def drop_bit_eq_div q_def [symmetric])
  qed
qed

lemma remove_power_chain:
  "log_split n q s \<Longrightarrow> q = p + p \<Longrightarrow> p \<le> 63 \<Longrightarrow> log_split n p (remove_power p s)"
  using remove_power_log_split by blast

lemma ilog2_range:
  assumes "0 < n" "n < 2 ^ 63"
  shows "0 \<le> ilog2 n \<and> 2 ^ nat (ilog2 n) \<le> n \<and> n < 2 ^ (nat (ilog2 n) + 1)"
proof -
  have start: "log_split n 64 (0, n)" using assms by (simp add: log_split_def)
  have "log_split n 1 (remove_power 1 (remove_power 2 (remove_power 4 (remove_power 8
             (remove_power 16 (remove_power 32 (0, n)))))))"
    by (rule remove_power_chain [OF remove_power_chain [OF remove_power_chain
          [OF remove_power_chain [OF remove_power_chain [OF remove_power_chain [OF start]]]]]])
      simp_all
  then obtain l r where e: "remove_power 1 (remove_power 2 (remove_power 4 (remove_power 8
             (remove_power 16 (remove_power 32 (0, n)))))) = (l, r)"
      and b: "0 \<le> l" "0 < r" "r < 2 ^ 1" "r * 2 ^ nat l \<le> n" "n < (r + 1) * 2 ^ nat l"
    by (auto simp: log_split_def split: prod.splits)
  from b(2,3) have "r = 1" by simp
  with b have "2 ^ nat l \<le> n" "n < 2 ^ (nat l + 1)" by simp_all
  moreover have "ilog2 n = l" using e assms(1) by (simp add: ilog2_def)
  ultimately show ?thesis using b(1) by simp
qed

lemma ilog2_nonpos [simp]: "n \<le> 0 \<Longrightarrow> ilog2 n = - 1"
  by (simp add: ilog2_def)

subsection \<open>Properties\<close>

text \<open>For a positive divisor, the division that takes one of the two adjusted roundings of the
  machine's truncating division yields quotient and remainder of the Euclidean division, for
  negative dividends too.\<close>

theorem floor_division:
  assumes "0 < den"
  shows "floordiv num den = num div den \<and> floorwrap num den = \<lparr>quot = num div den, rem = num mod den\<rparr>"
  using floordiv_pos [OF assms] floorwrap_pos [OF assms] by blast

theorem floor_division_witness: "floordiv (- 7) 3 = - 3 \<and> rem (floorwrap (- 7) 3) = 2"
  using floor_division [of 3 "- 7"] by simp

text \<open>The unrolled bisection computes the integral binary logarithm of every positive 64 bit
  number.\<close>

theorem ilog2_correct:
  assumes "0 < n" "n < 2 ^ 63"
  shows "0 \<le> ilog2 n \<and> 2 ^ nat (ilog2 n) \<le> n \<and> n < 2 ^ (nat (ilog2 n) + 1)"
  using assms by (rule ilog2_range)

theorem ilog2_correct_witness: "0 \<le> ilog2 1000 \<and> 2 ^ nat (ilog2 1000) \<le> (1000::int)"
  using ilog2_correct [of 1000] by simp

lemma ilog2_upper:
  assumes "\<bar>a\<bar> \<le> INT64_MAX"
  shows "\<bar>a\<bar> < 2 ^ nat (ilog2 \<bar>a\<bar> + 1)" and "- 1 \<le> ilog2 \<bar>a\<bar>"
proof -
  show "\<bar>a\<bar> < 2 ^ nat (ilog2 \<bar>a\<bar> + 1)"
  proof (cases "a = 0")
    case False
    then have "0 \<le> ilog2 \<bar>a\<bar>" "\<bar>a\<bar> < 2 ^ (nat (ilog2 \<bar>a\<bar>) + 1)" using ilog2_range [of "\<bar>a\<bar>"] assms by auto
    then show ?thesis by (simp add: nat_add_distrib)
  qed simp
  show "- 1 \<le> ilog2 \<bar>a\<bar>" using ilog2_range [of "\<bar>a\<bar>"] assms by (cases "a = 0") auto
qed

text \<open>When \<open>can_represent_Product\<close> admits two numbers, their product is far from overflow: it
  is below two to the power of 62 in magnitude.\<close>

theorem product_representable:
  assumes "\<bar>a\<bar> \<le> INT64_MAX" "\<bar>b\<bar> \<le> INT64_MAX" "can_represent_Product a b"
  shows "\<bar>a * b\<bar> < 2 ^ 62"
proof -
  let ?x = "nat (ilog2 \<bar>a\<bar> + 1)" and ?y = "nat (ilog2 \<bar>b\<bar> + 1)"
  have "ilog2 \<bar>a\<bar> + 1 + (ilog2 \<bar>b\<bar> + 1) \<le> 62"
    using assms by (simp add: can_represent_Product_def i64_id)
  then have xy: "?x + ?y \<le> 62" using ilog2_upper(2) [OF assms(1)] ilog2_upper(2) [OF assms(2)] by linarith
  have "\<bar>a * b\<bar> < 2 ^ ?x * 2 ^ ?y"
    unfolding abs_mult using ilog2_upper(1) [OF assms(1)] ilog2_upper(1) [OF assms(2)]
    by (intro mult_strict_mono') auto
  also have "\<dots> = 2 ^ (?x + ?y)" by (simp add: power_add)
  also have "\<dots> \<le> (2::int) ^ 62" by (rule power_increasing [OF xy]) simp
  finally show ?thesis .
qed

theorem product_representable_witness: "can_represent_Product 3000000 (- 1000000) \<and> \<bar>3000000 * (- 1000000 :: int)\<bar> < 2 ^ 62"
proof -
  have c: "can_represent_Product 3000000 (- 1000000)" by code_simp
  show ?thesis using product_representable [OF _ _ c] c by simp
qed

end
