(* ===== verification/TimeValue.thy ===== *)
theory TimeValue
  imports IntUtil
begin

unbundle bit_operations_syntax

text \<open>
  The time entities of \<open>lib/time/timevalue.hpp\<close> and their implementation in
  \<open>lib/time/time.cpp\<close>. All of \<open>TimeValue\<close>, \<open>TimeVar\<close>, \<open>Time\<close>, \<open>Offset\<close> and \<open>Duration\<close>
  consist of one field, the raw 64-bit micro tick count \<open>t_\<close>; the model takes that raw
  number for the object and one function for each constructor, so that it is visible which
  constructors limit the value and which only copy it. A \<open>TimeSpan\<close> is a record of
  start point and duration, a \<open>FrameRate\<close> a reduced fraction.
\<close>

type_synonym gavl_time_t = int

definition TIME_SCALE :: int where
  "TIME_SCALE = 1000000"

definition Time_MAX :: gavl_time_t where
  "Time_MAX = INT64_MAX div 30"

definition Time_MIN :: gavl_time_t where
  "Time_MIN = - Time_MAX"

definition Duration_MAX :: gavl_time_t where
  "Duration_MAX = i64 (Time_MAX - Time_MIN)"

lemma time_limits:
  "Time_MAX = 307445734561825860"
  "Time_MIN = - 307445734561825860"
  "Duration_MAX = 614891469123651720"
  by (simp_all add: Time_MAX_def Time_MIN_def Duration_MAX_def int_width)

subsection \<open>Limiting a raw value\<close>

definition symmetricLimit :: "gavl_time_t \<Rightarrow> gavl_time_t \<Rightarrow> gavl_time_t" where
  "symmetricLimit raw lim =
     (if raw > lim then lim else if i64 (- raw) > lim then i64 (- lim) else raw)"

definition limitedTime :: "gavl_time_t \<Rightarrow> gavl_time_t" where
  "limitedTime raw = symmetricLimit raw Time_MAX"

definition limitedDelta :: "gavl_time_t \<Rightarrow> gavl_time_t \<Rightarrow> gavl_time_t" where
  "limitedDelta origin target =
     (let (o', t') = (if 0 > (origin XOR target)
                      then (symmetricLimit origin Duration_MAX, symmetricLimit target Duration_MAX)
                      else (origin, target));
          res = i64 (t' - o')
      in symmetricLimit res Duration_MAX)"

definition TimeValue_raw :: "gavl_time_t \<Rightarrow> gavl_time_t" where
  "TimeValue_raw val = limitedTime val"

definition isRegular :: "gavl_time_t \<Rightarrow> bool" where
  "isRegular t \<longleftrightarrow> Time_MIN < t \<and> t < Time_MAX"

text \<open>The mathematical operation a limiter stands for.\<close>

definition clamp :: "int \<Rightarrow> int \<Rightarrow> int" where
  "clamp lim x = (if x > lim then lim else if x < - lim then - lim else x)"

lemma clamp_bounds: "0 \<le> lim \<Longrightarrow> - lim \<le> clamp lim x \<and> clamp lim x \<le> lim"
  by (simp add: clamp_def)

lemma clamp_id: "\<bar>x\<bar> \<le> lim \<Longrightarrow> clamp lim x = x"
  by (auto simp: clamp_def)

lemma symmetricLimit_clamp:
  "\<bar>raw\<bar> \<le> INT64_MAX \<Longrightarrow> 0 \<le> lim \<Longrightarrow> lim \<le> INT64_MAX \<Longrightarrow> symmetricLimit raw lim = clamp lim raw"
  by (auto simp: symmetricLimit_def clamp_def int_width)

lemma limitedTime_clamp: "\<bar>raw\<bar> \<le> INT64_MAX \<Longrightarrow> limitedTime raw = clamp Time_MAX raw"
  by (simp add: limitedTime_def symmetricLimit_clamp time_limits)

lemma limitedTime_id [simp]: "Time_MIN \<le> raw \<Longrightarrow> raw \<le> Time_MAX \<Longrightarrow> limitedTime raw = raw"
  by (simp add: limitedTime_clamp clamp_def time_limits)

lemma limitedTime_bounds:
  "\<bar>raw\<bar> \<le> INT64_MAX \<Longrightarrow> Time_MIN \<le> limitedTime raw \<and> limitedTime raw \<le> Time_MAX"
  by (simp add: limitedTime_clamp clamp_def time_limits)

lemma limitedTime_mono:
  "\<bar>a\<bar> \<le> INT64_MAX \<Longrightarrow> \<bar>b\<bar> \<le> INT64_MAX \<Longrightarrow> a \<le> b \<Longrightarrow> limitedTime a \<le> limitedTime b"
  by (auto simp: limitedTime_clamp clamp_def time_limits)

lemma limitedDelta_clamp:
  assumes "\<bar>origin\<bar> \<le> INT64_MAX" "\<bar>target\<bar> \<le> INT64_MAX"
  shows "limitedDelta origin target = clamp Duration_MAX (target - origin)"
proof (cases "(origin < 0) \<noteq> (target < 0)")
  case True
  then have lim: "limitedDelta origin target =
      symmetricLimit (i64 (clamp Duration_MAX target - clamp Duration_MAX origin)) Duration_MAX"
    using assms by (auto simp: limitedDelta_def Let_def XOR_neg_iff symmetricLimit_clamp time_limits)
  have "\<bar>clamp Duration_MAX target - clamp Duration_MAX origin\<bar> \<le> INT64_MAX"
    by (auto simp: clamp_def time_limits)
  with lim have "limitedDelta origin target =
      clamp Duration_MAX (clamp Duration_MAX target - clamp Duration_MAX origin)"
    by (simp add: int_width symmetricLimit_clamp time_limits)
  with True show ?thesis by (auto simp: clamp_def time_limits)
next
  case False
  then have "\<bar>target - origin\<bar> \<le> INT64_MAX" using assms by arith
  with False show ?thesis
    by (simp add: limitedDelta_def Let_def XOR_neg_iff int_width symmetricLimit_clamp time_limits)
qed

subsection \<open>Mutable time variable and time points\<close>

definition TimeVar_plus :: "gavl_time_t \<Rightarrow> gavl_time_t \<Rightarrow> gavl_time_t" where
  "TimeVar_plus t tx = i64 (t + tx)"

definition TimeVar_minus :: "gavl_time_t \<Rightarrow> gavl_time_t \<Rightarrow> gavl_time_t" where
  "TimeVar_minus t tx = i64 (t - tx)"

definition TimeVar_times :: "gavl_time_t \<Rightarrow> int \<Rightarrow> gavl_time_t" where
  "TimeVar_times t factor = i64 (t * factor)"

definition TimeVar_neg :: "gavl_time_t \<Rightarrow> gavl_time_t" where
  "TimeVar_neg t = TimeVar_times t (- 1)"

text \<open>A \<open>Time\<close> built from a calculated \<open>TimeVar\<close> copies the raw value, without a limit.\<close>

definition Time_of_var :: "gavl_time_t \<Rightarrow> gavl_time_t" where
  "Time_of_var calcResult = calcResult"

definition Time_plus :: "gavl_time_t \<Rightarrow> gavl_time_t \<Rightarrow> gavl_time_t" where
  "Time_plus t tval = TimeVar_plus t tval"

definition Time_minus :: "gavl_time_t \<Rightarrow> gavl_time_t \<Rightarrow> gavl_time_t" where
  "Time_minus t tval = TimeVar_minus t tval"

definition Time_neg :: "gavl_time_t \<Rightarrow> gavl_time_t" where
  "Time_neg t = TimeVar_neg t"

subsection \<open>Offsets\<close>

definition Offset_of :: "gavl_time_t \<Rightarrow> gavl_time_t" where
  "Offset_of distance = symmetricLimit distance Duration_MAX"

definition Offset_between :: "gavl_time_t \<Rightarrow> gavl_time_t \<Rightarrow> gavl_time_t" where
  "Offset_between origin target = limitedDelta origin target"

definition Offset_plus :: "gavl_time_t \<Rightarrow> gavl_time_t \<Rightarrow> gavl_time_t" where
  "Offset_plus start toChain = Offset_of (TimeVar_plus start toChain)"

definition Offset_minus :: "gavl_time_t \<Rightarrow> gavl_time_t \<Rightarrow> gavl_time_t" where
  "Offset_minus start toSubtract = Offset_of (TimeVar_minus start toSubtract)"

definition Offset_times :: "int \<Rightarrow> gavl_time_t \<Rightarrow> gavl_time_t" where
  "Offset_times factor ofs = Offset_of (TimeVar_times ofs factor)"

definition Offset_neg :: "gavl_time_t \<Rightarrow> gavl_time_t" where
  "Offset_neg ofs = Offset_times (- 1) ofs"

definition is_Offset :: "gavl_time_t \<Rightarrow> bool" where
  "is_Offset x \<longleftrightarrow> \<bar>x\<bar> \<le> Duration_MAX"

lemma is_Offset_i64: "is_Offset x \<Longrightarrow> \<bar>x\<bar> \<le> 614891469123651720"
  by (simp add: is_Offset_def time_limits)

lemma Offset_of_clamp: "\<bar>x\<bar> \<le> INT64_MAX \<Longrightarrow> Offset_of x = clamp Duration_MAX x"
  by (simp add: Offset_of_def symmetricLimit_clamp time_limits)

lemma is_Offset_Offset_of: "\<bar>x\<bar> \<le> INT64_MAX \<Longrightarrow> is_Offset (Offset_of x)"
  by (auto simp: Offset_of_clamp is_Offset_def clamp_def time_limits)

lemma Offset_of_id [simp]: "is_Offset x \<Longrightarrow> Offset_of x = x"
  by (auto simp: Offset_of_clamp is_Offset_def clamp_def time_limits)

lemma Offset_plus_clamp:
  "is_Offset a \<Longrightarrow> is_Offset b \<Longrightarrow> Offset_plus a b = clamp Duration_MAX (a + b)"
  by (auto simp: Offset_plus_def TimeVar_plus_def is_Offset_def int_width Offset_of_clamp time_limits)

lemma Offset_minus_clamp:
  "is_Offset a \<Longrightarrow> is_Offset b \<Longrightarrow> Offset_minus a b = clamp Duration_MAX (a - b)"
  by (auto simp: Offset_minus_def TimeVar_minus_def is_Offset_def int_width Offset_of_clamp time_limits)

lemma Offset_times_clamp:
  "\<bar>ofs * k\<bar> \<le> INT64_MAX \<Longrightarrow> Offset_times k ofs = clamp Duration_MAX (ofs * k)"
  by (simp add: Offset_times_def TimeVar_times_def int_width Offset_of_clamp)

lemma Offset_neg_minus: "is_Offset a \<Longrightarrow> Offset_neg a = - a"
  by (auto simp: Offset_neg_def Offset_times_def TimeVar_times_def is_Offset_def int_width
      Offset_of_clamp clamp_def time_limits)

subsection \<open>Durations\<close>

definition Duration_of :: "gavl_time_t \<Rightarrow> gavl_time_t" where
  "Duration_of distance = i64 \<bar>distance\<bar>"

definition Duration_of_time :: "gavl_time_t \<Rightarrow> gavl_time_t" where
  "Duration_of_time timeSpec = Duration_of (Offset_of timeSpec)"

definition Duration_NIL :: gavl_time_t where
  "Duration_NIL = 0"

definition Duration_copy :: "gavl_time_t \<Rightarrow> gavl_time_t result" where
  "Duration_copy d = (if d \<ge> 0 then Inr d else Inl (Err Assertion ''Copy rejected: negative Duration''))"

definition Duration_plus :: "gavl_time_t \<Rightarrow> gavl_time_t \<Rightarrow> gavl_time_t" where
  "Duration_plus base toAdd = Duration_of (Offset_plus (Offset_of base) (Offset_of toAdd))"

definition Duration_minus :: "gavl_time_t \<Rightarrow> gavl_time_t \<Rightarrow> gavl_time_t" where
  "Duration_minus base toRemove =
     (if base > toRemove then Duration_of (Offset_minus (Offset_of base) (Offset_of toRemove))
      else Duration_NIL)"

definition Duration_times :: "int \<Rightarrow> gavl_time_t \<Rightarrow> gavl_time_t" where
  "Duration_times factor dur = Offset_times factor (Offset_of dur)"

definition Duration_neg :: "gavl_time_t \<Rightarrow> gavl_time_t" where
  "Duration_neg dur = Duration_times (- 1) dur"

definition is_Duration :: "gavl_time_t \<Rightarrow> bool" where
  "is_Duration x \<longleftrightarrow> 0 \<le> x \<and> x \<le> Duration_MAX"

lemma is_Duration_is_Offset: "is_Duration x \<Longrightarrow> is_Offset x"
  by (simp add: is_Duration_def is_Offset_def)

lemma Duration_of_abs: "is_Offset x \<Longrightarrow> Duration_of x = \<bar>x\<bar>"
  by (simp add: Duration_of_def is_Offset_def int_width time_limits)

lemma is_Duration_of: "is_Offset x \<Longrightarrow> is_Duration (Duration_of x)"
  by (simp add: Duration_of_abs is_Duration_def is_Offset_def)

lemma Duration_plus_sat:
  "is_Duration a \<Longrightarrow> is_Duration b \<Longrightarrow> Duration_plus a b = min Duration_MAX (a + b)"
  by (auto simp: Duration_plus_def Offset_plus_clamp is_Duration_is_Offset is_Duration_def
      Duration_of_def clamp_def int_width time_limits)

lemma Duration_minus_sat:
  "is_Duration a \<Longrightarrow> is_Duration b \<Longrightarrow> Duration_minus a b = max 0 (a - b)"
  by (auto simp: Duration_minus_def Duration_NIL_def Offset_minus_clamp is_Duration_is_Offset
      is_Duration_def Duration_of_def clamp_def int_width time_limits)

subsection \<open>Time spans\<close>

record TimeSpan =
  span_start :: gavl_time_t
  span_dur :: gavl_time_t

definition TimeSpan_dur :: "gavl_time_t \<Rightarrow> gavl_time_t \<Rightarrow> TimeSpan" where
  "TimeSpan_dur start len = \<lparr>span_start = start, span_dur = len\<rparr>"

definition TimeSpan_points :: "gavl_time_t \<Rightarrow> gavl_time_t \<Rightarrow> TimeSpan" where
  "TimeSpan_points start end =
     \<lparr>span_start = (if start \<le> end then start else end),
      span_dur = Duration_of (Offset_between start end)\<rparr>"

definition TimeSpan_offset :: "gavl_time_t \<Rightarrow> gavl_time_t \<Rightarrow> TimeSpan" where
  "TimeSpan_offset start reference_distance =
     TimeSpan_points start (Time_plus start reference_distance)"

definition span_end :: "TimeSpan \<Rightarrow> gavl_time_t" where
  "span_end s = Time_of_var (TimeVar_plus (span_start s) (span_dur s))"

definition span_contains :: "TimeSpan \<Rightarrow> gavl_time_t \<Rightarrow> bool" where
  "span_contains s tp \<longleftrightarrow> span_start s \<le> tp \<and> tp < span_end s"

definition span_eq :: "TimeSpan \<Rightarrow> TimeSpan \<Rightarrow> bool" where
  "span_eq t1 t2 \<longleftrightarrow> span_start t1 = span_start t2 \<and> span_dur t1 = span_dur t2"

definition span_less :: "TimeSpan \<Rightarrow> TimeSpan \<Rightarrow> bool" where
  "span_less t1 t2 \<longleftrightarrow> span_start t1 < span_start t2
     \<or> (span_start t1 = span_start t2 \<and> span_dur t1 < span_dur t2)"

definition conform :: "TimeSpan \<Rightarrow> TimeSpan" where
  "conform s =
     (let extension = Offset_of (span_dur s);
          start = TimeValue_raw (span_start s)
      in if Offset_plus (Offset_of start) extension > Time_MAX
         then TimeSpan_points (Time_minus Time_MAX extension) Time_MAX
         else TimeSpan_offset start extension)"

text \<open>A span all of whose parts lie within the time domain.\<close>

definition span_in_domain :: "TimeSpan \<Rightarrow> bool" where
  "span_in_domain s \<longleftrightarrow> Time_MIN \<le> span_start s \<and> 0 \<le> span_dur s \<and> span_end s \<le> Time_MAX
     \<and> span_end s = span_start s + span_dur s"

lemma span_end_eq:
  "\<bar>span_start s\<bar> \<le> Time_MAX \<Longrightarrow> is_Duration (span_dur s) \<Longrightarrow> span_end s = span_start s + span_dur s"
  using i64_id [of "span_start s + span_dur s"]
  by (simp add: span_end_def Time_of_var_def TimeVar_plus_def is_Duration_def time_limits abs_le_iff)

lemma Offset_between_exact:
  "\<bar>a\<bar> \<le> INT64_MAX \<Longrightarrow> \<bar>b\<bar> \<le> INT64_MAX \<Longrightarrow> \<bar>b - a\<bar> \<le> Duration_MAX \<Longrightarrow> Offset_between a b = b - a"
  by (simp add: Offset_between_def limitedDelta_clamp clamp_id)

lemma TimeSpan_points_ordered:
  assumes "a \<le> b" "\<bar>a\<bar> \<le> INT64_MAX" "\<bar>b\<bar> \<le> INT64_MAX" "b - a \<le> Duration_MAX"
  shows "TimeSpan_points a b = \<lparr>span_start = a, span_dur = b - a\<rparr>"
  using assms
  by (simp add: TimeSpan_points_def Offset_between_exact Duration_of_abs is_Offset_def)

lemma conform_eq:
  assumes "\<bar>span_start s\<bar> \<le> INT64_MAX" "is_Duration (span_dur s)"
  shows "conform s =
     \<lparr>span_start = min (clamp Time_MAX (span_start s)) (Time_MAX - span_dur s), span_dur = span_dur s\<rparr>"
proof -
  define st where "st = clamp Time_MAX (span_start s)"
  define d where "d = span_dur s"
  have st: "TimeValue_raw (span_start s) = st"
    using assms(1) by (simp add: TimeValue_raw_def limitedTime_clamp st_def)
  have stb: "\<bar>st\<bar> \<le> 307445734561825860" by (auto simp: st_def clamp_def time_limits)
  have db: "0 \<le> d" "d \<le> 614891469123651720"
    using assms(2) by (simp_all add: d_def is_Duration_def time_limits)
  have io: "is_Offset st" "is_Offset d"
    using stb db by (auto simp: is_Offset_def time_limits)
  have cmp: "Offset_plus st d > Time_MAX \<longleftrightarrow> st + d > Time_MAX"
    using io stb db by (simp add: Offset_plus_clamp clamp_def time_limits)
  show ?thesis
  proof (cases "st + d > Time_MAX")
    case True
    then have "conform s = TimeSpan_points (Time_MAX - d) Time_MAX"
      using cmp io db by (simp add: conform_def st d_def [symmetric] Let_def Time_minus_def
          TimeVar_minus_def int_width time_limits)
    then show ?thesis
      using True db
      by (simp add: TimeSpan_points_ordered time_limits d_def [symmetric] st_def [unfolded time_limits, symmetric])
  next
    case False
    then have "conform s = TimeSpan_points st (st + d)"
      using cmp io stb db by (simp add: conform_def st d_def [symmetric] Let_def TimeSpan_offset_def
          Time_plus_def TimeVar_plus_def int_width time_limits)
    then show ?thesis
      using False stb db
      by (simp add: TimeSpan_points_ordered time_limits d_def [symmetric] st_def [unfolded time_limits, symmetric])
  qed
qed

subsection \<open>Frame rates\<close>

text \<open>
  \<open>boost::rational<uint>\<close>: numerator and denominator are kept reduced. A zero denominator makes
  the library throw; \<open>__ensure_nonzero\<close> rejects the zero rate.
\<close>

record FrameRate =
  fr_num :: int
  fr_den :: int

definition ensure_nonzero :: "int \<Rightarrow> int result" where
  "ensure_nonzero n = (if n = 0 then Inl (Err Logic ''BOTTOM_VALUE'') else Inr n)"

definition FrameRate_of :: "int \<Rightarrow> int \<Rightarrow> FrameRate result" where
  "FrameRate_of num denom =
     bind_result (ensure_nonzero num) (\<lambda>num.
       if denom = 0 then Inl (Err External ''bad_rational'')
       else Inr \<lparr>fr_num = num div gcd num denom, fr_den = denom div gcd num denom\<rparr>)"

definition FrameRate_PAL :: FrameRate where
  "FrameRate_PAL = \<lparr>fr_num = 25, fr_den = 1\<rparr>"

definition FrameRate_NTSC :: FrameRate where
  "FrameRate_NTSC = \<lparr>fr_num = 30000, fr_den = 1001\<rparr>"

definition is_FrameRate :: "FrameRate \<Rightarrow> bool" where
  "is_FrameRate fps \<longleftrightarrow> 0 < fr_num fps \<and> fr_num fps < 2 ^ 32 \<and> 0 < fr_den fps \<and> fr_den fps < 2 ^ 32
     \<and> coprime (fr_num fps) (fr_den fps)"

definition lumiera_framecount_to_time :: "int \<Rightarrow> FrameRate \<Rightarrow> gavl_time_t" where
  "lumiera_framecount_to_time frameCount fps =
     (let a = u64 (TIME_SCALE * frameCount);
          g = gcd a (fr_num fps);
          num = u64 ((a div g) * fr_den fps);
          den = fr_num fps div g
      in i64 num sdiv i64 den)"

definition Offset_frames :: "int \<Rightarrow> FrameRate \<Rightarrow> gavl_time_t" where
  "Offset_frames count fps =
     (if count \<noteq> 0
      then i64 ((if count < 0 then - 1 else 1) * lumiera_framecount_to_time (i64 \<bar>count\<bar>) fps)
      else Duration_NIL)"

definition Duration_frames :: "int \<Rightarrow> FrameRate \<Rightarrow> gavl_time_t" where
  "Duration_frames count fps = Duration_of (Offset_frames count fps)"

definition FrameRate_duration :: "FrameRate \<Rightarrow> gavl_time_t result" where
  "FrameRate_duration fps =
     (if fr_num fps = 0 then Inl (Err Logic ''BOTTOM_VALUE'') else Inr (Duration_frames 1 fps))"

lemma FrameRate_of_is_FrameRate:
  assumes "FrameRate_of n d = Inr fps" "0 \<le> n" "n < 2 ^ 32" "0 \<le> d" "d < 2 ^ 32"
  shows "is_FrameRate fps"
proof -
  have nz: "n \<noteq> 0" "d \<noteq> 0" and fps: "fps = \<lparr>fr_num = n div gcd n d, fr_den = d div gcd n d\<rparr>"
    using assms(1) by (auto simp: FrameRate_of_def ensure_nonzero_def split: if_splits)
  have pos: "0 < n" "0 < d" using nz assms by auto
  have g: "0 < gcd n d" using nz by simp
  have le: "n div gcd n d \<le> n" "d div gcd n d \<le> d"
    using pos g by (simp_all add: zdiv_self_le)
  have "0 < n div gcd n d" "0 < d div gcd n d"
    using pos g by (simp_all add: pos_imp_zdiv_pos_iff zdvd_imp_le)
  moreover have "coprime (n div gcd n d) (d div gcd n d)"
    using nz by (simp add: div_gcd_coprime)
  ultimately show ?thesis using le assms by (simp add: is_FrameRate_def fps)
qed

lemma div_reduced:
  fixes a b d g :: int
  assumes "0 < g" "g dvd a" "g dvd b"
  shows "((a div g) * d) div (b div g) = (a * d) div b"
proof -
  obtain x y where xy: "a = g * x" "b = g * y" using assms by (auto elim!: dvdE)
  then show ?thesis using assms(1) by (simp add: mult.assoc)
qed

lemma NTSC_is_FrameRate: "is_FrameRate FrameRate_NTSC"
proof -
  have "coprime (30000::int) 1001"
  proof (rule coprimeI)
    fix d :: int assume "d dvd 30000" "d dvd 1001"
    then have "d dvd 30000 * (367) + 1001 * -10999" by (intro dvd_add dvd_mult2)
    then show "d dvd 1" by simp
  qed
  then show ?thesis by (simp add: is_FrameRate_def FrameRate_NTSC_def)
qed

lemma framecount_to_time_floor:
  assumes "is_FrameRate fps" "0 \<le> n" "TIME_SCALE * n * fr_den fps \<le> INT64_MAX"
  shows "lumiera_framecount_to_time n fps = (TIME_SCALE * n * fr_den fps) div fr_num fps"
proof -
  define a where "a = TIME_SCALE * n"
  have d: "0 < fr_den fps" "0 < fr_num fps" "fr_num fps < 2 ^ 32"
    using assms(1) by (simp_all add: is_FrameRate_def)
  have a0: "0 \<le> a" using assms(2) by (simp add: a_def TIME_SCALE_def)
  have ale: "a \<le> a * fr_den fps" using a0 d by (simp add: mult_le_cancel_left1)
  have a64: "u64 a = a" using assms(3) a0 ale by (intro u64_id) (simp_all add: a_def)
  define g where "g = gcd a (fr_num fps)"
  have g: "0 < g" using d by (simp add: g_def)
  have "a div g \<le> a" using a0 g by (simp add: zdiv_self_le)
  then have up: "(a div g) * fr_den fps \<le> a * fr_den fps" using d by (simp add: mult_right_mono)
  have lo: "0 \<le> (a div g) * fr_den fps" using a0 g d by (simp add: pos_imp_zdiv_nonneg_iff)
  have n64: "u64 ((a div g) * fr_den fps) = (a div g) * fr_den fps"
    "i64 ((a div g) * fr_den fps) = (a div g) * fr_den fps"
    using up lo assms(3) by (simp_all add: u64_id i64_id a_def)
  have dle: "fr_num fps div g \<le> fr_num fps" using d g by (simp add: zdiv_self_le)
  have dpos: "0 < fr_num fps div g"
    using d g by (simp add: pos_imp_zdiv_pos_iff zdvd_imp_le g_def)
  have "lumiera_framecount_to_time n fps = ((a div g) * fr_den fps) div (fr_num fps div g)"
    using n64 a64 dle dpos lo d
    by (simp add: lumiera_framecount_to_time_def Let_def a_def [symmetric] g_def [symmetric]
        i64_id sdiv_nonneg)
  also have "\<dots> = (a * fr_den fps) div fr_num fps"
    using g by (intro div_reduced) (simp_all add: g_def)
  finally show ?thesis by (simp add: a_def)
qed

subsection \<open>Properties\<close>

text \<open>Building a time value from any raw tick count but the most negative one saturates: the
  result is the nearest value of the time domain, so values in the domain are kept and the order
  of values is kept.\<close>

theorem time_value_saturates:
  assumes "\<bar>a\<bar> \<le> INT64_MAX" "\<bar>b\<bar> \<le> INT64_MAX"
  shows "Time_MIN \<le> TimeValue_raw a \<and> TimeValue_raw a \<le> Time_MAX
    \<and> (TimeValue_raw a = a \<longleftrightarrow> Time_MIN \<le> a \<and> a \<le> Time_MAX)
    \<and> (a \<le> b \<longrightarrow> TimeValue_raw a \<le> TimeValue_raw b)"
  using assms by (auto simp: TimeValue_raw_def limitedTime_clamp clamp_def time_limits)

theorem time_value_saturates_witness:
  "TimeValue_raw 9000000000000000000 \<le> Time_MAX \<and> TimeValue_raw (- 5) = - 5"
  using time_value_saturates [of 9000000000000000000 0] time_value_saturates [of "- 5" 0]
  by (simp add: time_limits)

text \<open>The offset between any two raw time points is their difference, limited to the largest
  duration; the subtraction in 64 bit never yields a wrapped result.\<close>

theorem offset_between_saturates:
  assumes "\<bar>origin\<bar> \<le> INT64_MAX" "\<bar>target\<bar> \<le> INT64_MAX"
  shows "Offset_between origin target = max (- Duration_MAX) (min Duration_MAX (target - origin))"
  unfolding Offset_between_def limitedDelta_clamp [OF assms] by (auto simp: clamp_def time_limits)

theorem offset_between_saturates_witness:
  "Offset_between (- 9000000000000000000) 9000000000000000000 = Duration_MAX"
  using offset_between_saturates [of "- 9000000000000000000" 9000000000000000000]
  by (simp add: time_limits)

text \<open>Addition and subtraction of offsets and of durations compute the mathematical result
  limited to the domain: durations never become negative and subtraction stops at zero.\<close>

theorem duration_arithmetic:
  assumes "is_Duration a" "is_Duration b" "is_Offset x" "is_Offset y"
  shows "Duration_plus a b = min Duration_MAX (a + b) \<and> Duration_minus a b = max 0 (a - b)
    \<and> Offset_plus x y = max (- Duration_MAX) (min Duration_MAX (x + y))
    \<and> Offset_minus x y = max (- Duration_MAX) (min Duration_MAX (x - y))"
  using assms by (auto simp: Duration_plus_sat Duration_minus_sat Offset_plus_clamp Offset_minus_clamp
      clamp_def time_limits)

theorem duration_arithmetic_witness:
  "Duration_plus Duration_MAX 7 = Duration_MAX \<and> Duration_minus 3 7 = 0"
  using duration_arithmetic [of Duration_MAX 7 0 0] duration_arithmetic [of 3 7 0 0]
  by (simp add: is_Duration_def is_Offset_def time_limits)

text \<open>\<open>conform\<close> moves a time span into the time domain without changing its duration, and
  leaves a span that is already inside as it is.\<close>

theorem conform_into_domain:
  assumes "\<bar>span_start s\<bar> \<le> INT64_MAX" "is_Duration (span_dur s)"
  shows "span_in_domain (conform s) \<and> span_dur (conform s) = span_dur s
    \<and> (span_in_domain s \<longrightarrow> conform s = s)"
proof -
  have d: "0 \<le> span_dur s" "span_dur s \<le> 614891469123651720" using assms(2) by (auto simp: is_Duration_def time_limits)
  have r: "\<bar>span_start (conform s)\<bar> \<le> Time_MAX" "span_dur (conform s) = span_dur s"
    using d by (auto simp: conform_eq [OF assms] clamp_def time_limits)
  then have e: "span_end (conform s) = span_start (conform s) + span_dur s"
    using span_end_eq [of "conform s"] assms(2) by simp
  have "conform s = s" if "span_in_domain s"
    using that by (intro TimeSpan.equality) (auto simp: conform_eq [OF assms] clamp_def time_limits span_in_domain_def)
  then show ?thesis using d r e by (auto simp: span_in_domain_def conform_eq [OF assms] clamp_def time_limits)
qed

theorem conform_into_domain_witness:
  "span_in_domain (conform \<lparr>span_start = 307445734561825000, span_dur = 1000\<rparr>)"
  using conform_into_domain [of "\<lparr>span_start = 307445734561825000, span_dur = 1000\<rparr>"]
  by (simp add: is_Duration_def time_limits)

text \<open>The time of the start of frame \<open>n\<close> at a frame rate is the exact quotient, rounded down
  to the micro-tick, as long as the product of ticks, frames and denominator fits 64 bit.\<close>

theorem frame_start_floor:
  assumes "is_FrameRate fps" "0 \<le> n" "TIME_SCALE * n * fr_den fps \<le> INT64_MAX"
  shows "lumiera_framecount_to_time n fps = (TIME_SCALE * n * fr_den fps) div fr_num fps"
  using assms by (rule framecount_to_time_floor)

theorem frame_start_floor_witness:
  "lumiera_framecount_to_time 1000 FrameRate_NTSC = 33366666"
proof -
  have n: "fr_num FrameRate_NTSC = 30000" "fr_den FrameRate_NTSC = 1001"
    by (simp_all add: FrameRate_NTSC_def)
  show ?thesis using frame_start_floor [OF NTSC_is_FrameRate, of 1000] n by (simp add: TIME_SCALE_def)
qed

end
