(* ===== verification/Quantiser.thy ===== *)
theory Quantiser
  imports TimeValue
begin

text \<open>
  Alignment of time values to a grid: the C functions at the end of \<open>lib/time/time.cpp\<close> and the
  classes \<open>Quantiser\<close> and \<open>FixedFrameQuantiser\<close> of \<open>lib/time/quantiser.cpp\<close>. The locale
  \<open>time_grid\<close> states what the users of the Grid interface rely on; the fixed frame
  quantiser is shown to provide it. The last part holds the conversions of raw time values
  to hours, minutes, seconds and frames, with the NTSC drop-frame encoding.
\<close>

subsection \<open>Basic frame quantisation\<close>

definition calculate_quantisation :: "gavl_time_t \<Rightarrow> gavl_time_t \<Rightarrow> gavl_time_t \<Rightarrow> int" where
  "calculate_quantisation time origin grid = floordiv (i64 (time - origin)) grid"

definition calculate_quantisation_fps :: "gavl_time_t \<Rightarrow> gavl_time_t \<Rightarrow> int \<Rightarrow> int \<Rightarrow> int result" where
  "calculate_quantisation_fps time origin framerate framerate_divisor =
     (if framerate = 0 \<or> framerate_divisor = 0 then Inl (Err Assertion ''REQUIRE'')
      else let limit_num = INT64_MAX sdiv framerate;
               limit_den = INT64_MAX sdiv framerate_divisor;
               microScale = TIME_SCALE
           in if i64 \<bar>time\<bar> < limit_num \<and> microScale < limit_den
              then Inr (floordiv (i64 (i64 (time - origin) * framerate)) (i64 (microScale * framerate_divisor)))
              else let frameDuration = microScale sdiv framerate
                   in if frameDuration = 0 then Inl (Err Fatal ''SIGFPE'')
                      else Inr (calculate_quantisation time origin frameDuration))"

definition lumiera_quantise_frames :: "gavl_time_t \<Rightarrow> gavl_time_t \<Rightarrow> gavl_time_t \<Rightarrow> int" where
  "lumiera_quantise_frames time origin grid = calculate_quantisation time origin grid"

definition lumiera_quantise_frames_fps :: "gavl_time_t \<Rightarrow> gavl_time_t \<Rightarrow> int \<Rightarrow> int result" where
  "lumiera_quantise_frames_fps time origin framerate = calculate_quantisation_fps time origin framerate 1"

definition lumiera_quantise_time :: "gavl_time_t \<Rightarrow> gavl_time_t \<Rightarrow> gavl_time_t \<Rightarrow> gavl_time_t" where
  "lumiera_quantise_time time origin grid =
     (let count = calculate_quantisation time origin grid in i64 (count * grid))"

definition lumiera_time_of_gridpoint :: "int \<Rightarrow> gavl_time_t \<Rightarrow> gavl_time_t \<Rightarrow> gavl_time_t" where
  "lumiera_time_of_gridpoint nr origin grid = (let offset = i64 (nr * grid) in i64 (origin + offset))"

lemma calculate_quantisation_floor:
  "\<bar>time\<bar> \<le> Time_MAX \<Longrightarrow> \<bar>origin\<bar> \<le> Time_MAX \<Longrightarrow> 0 < grid
   \<Longrightarrow> calculate_quantisation time origin grid = (time - origin) div grid"
  by (simp add: calculate_quantisation_def floordiv_pos i64_id time_limits)

lemma calculate_quantisation_fps_floor:
  assumes "0 < framerate" "0 < divisor" "divisor * TIME_SCALE < INT64_MAX - divisor"
    "(\<bar>time\<bar> + \<bar>origin\<bar> + 1) * framerate \<le> INT64_MAX"
  shows "calculate_quantisation_fps time origin framerate divisor =
    Inr (((time - origin) * framerate) div (TIME_SCALE * divisor))"
proof -
  have "\<bar>time - origin\<bar> * framerate \<le> (\<bar>time\<bar> + \<bar>origin\<bar> + 1) * framerate"
    using assms(1) by (intro mult_right_mono) auto
  moreover have "\<bar>(time - origin) * framerate\<bar> = \<bar>time - origin\<bar> * framerate"
    using assms(1) by (simp add: abs_mult)
  ultimately have prod: "\<bar>(time - origin) * framerate\<bar> \<le> INT64_MAX"
    using assms(4) by linarith
  have le1: "x \<le> x * framerate" if "0 \<le> x" for x :: int
    using assms(1) that by (simp add: mult_le_cancel_left1)
  have dif: "\<bar>time - origin\<bar> \<le> INT64_MAX"
    using prod le1 [of "\<bar>time - origin\<bar>"] assms(1) by (simp add: abs_mult)
  have "(\<bar>time\<bar> + 1) * framerate \<le> (\<bar>time\<bar> + \<bar>origin\<bar> + 1) * framerate"
    using assms(1) by (intro mult_right_mono) auto
  then have tf: "(\<bar>time\<bar> + 1) * framerate \<le> INT64_MAX" using assms(4) by linarith
  then have "\<bar>time\<bar> + 1 \<le> INT64_MAX div framerate"
    using assms(1) zdiv_mono1 [of "(\<bar>time\<bar> + 1) * framerate" INT64_MAX framerate] by simp
  moreover have "i64 \<bar>time\<bar> = \<bar>time\<bar>"
    using le1 [of "\<bar>time\<bar> + 1"] tf by (intro i64_id) linarith
  ultimately have lnum: "i64 \<bar>time\<bar> < INT64_MAX sdiv framerate"
    using assms(1) by (simp add: sdiv_nonneg)
  have "(TIME_SCALE + 1) * divisor \<le> INT64_MAX" using assms(3) by (simp add: algebra_simps)
  then have "TIME_SCALE + 1 \<le> INT64_MAX div divisor"
    using assms(2) zdiv_mono1 [of "(TIME_SCALE + 1) * divisor" INT64_MAX divisor] by simp
  then have lden: "TIME_SCALE < INT64_MAX sdiv divisor"
    using assms(2) by (simp add: sdiv_nonneg)
  have den: "i64 (TIME_SCALE * divisor) = TIME_SCALE * divisor" "0 < TIME_SCALE * divisor"
    using assms(2,3) by (simp_all add: i64_id TIME_SCALE_def)
  show ?thesis
    using assms(1,2) lnum lden den prod dif
    by (simp add: calculate_quantisation_fps_def Let_def i64_id floordiv_pos)
qed

subsection \<open>The grid interface\<close>

text \<open>
  \<open>valid t\<close> are the times the grid covers, \<open>on_grid n\<close> the grid intervals whose start point
  can be represented. The law \<open>timeOf_le_iff\<close> says that \<open>gridPoint\<close> is the number of the
  interval that contains the time.
\<close>

locale time_grid =
  fixes grid_point :: "gavl_time_t \<Rightarrow> int"
    and time_of :: "int \<Rightarrow> gavl_time_t"
    and valid :: "gavl_time_t \<Rightarrow> bool"
    and on_grid :: "int \<Rightarrow> bool"
  assumes on_grid_point: "valid t \<Longrightarrow> on_grid (grid_point t)"
    and time_of_le_iff: "valid t \<Longrightarrow> on_grid n \<Longrightarrow> time_of n \<le> t \<longleftrightarrow> n \<le> grid_point t"
    and time_of_strict: "on_grid m \<Longrightarrow> on_grid n \<Longrightarrow> m < n \<Longrightarrow> time_of m < time_of n"
begin

lemma grid_point_below: "valid t \<Longrightarrow> time_of (grid_point t) \<le> t"
  by (simp add: time_of_le_iff on_grid_point)

lemma next_point_above: "valid t \<Longrightarrow> on_grid (grid_point t + 1) \<Longrightarrow> t < time_of (grid_point t + 1)"
  using time_of_le_iff [of t "grid_point t + 1"] by simp

lemma grid_point_time_of:
  assumes "on_grid n" "valid (time_of n)"
  shows "grid_point (time_of n) = n"
proof (rule antisym)
  show "n \<le> grid_point (time_of n)" using assms time_of_le_iff [of "time_of n" n] by simp
  show "grid_point (time_of n) \<le> n"
  proof (rule ccontr)
    assume "\<not> grid_point (time_of n) \<le> n"
    then have "time_of n < time_of (grid_point (time_of n))"
      using assms by (intro time_of_strict) (auto intro: on_grid_point)
    with grid_point_below [OF assms(2)] show False by simp
  qed
qed

lemma materialise_idem:
  "valid t \<Longrightarrow> valid (time_of (grid_point t))
   \<Longrightarrow> time_of (grid_point (time_of (grid_point t))) = time_of (grid_point t)"
  by (simp add: grid_point_time_of on_grid_point)

lemma grid_point_mono: "valid s \<Longrightarrow> valid t \<Longrightarrow> s \<le> t \<Longrightarrow> grid_point s \<le> grid_point t"
  using time_of_le_iff [of t "grid_point s"] grid_point_below [of s] on_grid_point [of s] by auto

end

subsection \<open>The quantiser with a constant frame grid\<close>

record FixedFrameQuantiser =
  ffq_origin :: gavl_time_t
  ffq_raster :: gavl_time_t

definition FixedFrameQuantiser_fps :: "FrameRate \<Rightarrow> gavl_time_t \<Rightarrow> FixedFrameQuantiser result" where
  "FixedFrameQuantiser_fps frames_per_second referencePoint =
     bind_result (FrameRate_duration frames_per_second) (\<lambda>d.
     bind_result (ensure_nonzero d) (\<lambda>d. Inr \<lparr>ffq_origin = referencePoint, ffq_raster = d\<rparr>))"

definition FixedFrameQuantiser_dur :: "gavl_time_t \<Rightarrow> gavl_time_t \<Rightarrow> FixedFrameQuantiser result" where
  "FixedFrameQuantiser_dur frame_duration referencePoint =
     bind_result (ensure_nonzero frame_duration) (\<lambda>d. Inr \<lparr>ffq_origin = referencePoint, ffq_raster = d\<rparr>)"

definition gridPoint :: "FixedFrameQuantiser \<Rightarrow> gavl_time_t \<Rightarrow> int" where
  "gridPoint q rawTime = lumiera_quantise_frames rawTime (ffq_origin q) (ffq_raster q)"

definition gridLocal :: "FixedFrameQuantiser \<Rightarrow> gavl_time_t \<Rightarrow> gavl_time_t" where
  "gridLocal q rawTime = TimeValue_raw (lumiera_quantise_time rawTime (ffq_origin q) (ffq_raster q))"

definition timeOf :: "FixedFrameQuantiser \<Rightarrow> int \<Rightarrow> gavl_time_t" where
  "timeOf q gridPt = TimeValue_raw (lumiera_time_of_gridpoint gridPt (ffq_origin q) (ffq_raster q))"

definition materialise :: "FixedFrameQuantiser \<Rightarrow> gavl_time_t \<Rightarrow> gavl_time_t" where
  "materialise q raw = timeOf q (gridPoint q raw)"

definition quantiser_ok :: "FixedFrameQuantiser \<Rightarrow> bool" where
  "quantiser_ok q \<longleftrightarrow> \<bar>ffq_origin q\<bar> \<le> Time_MAX \<and> 0 < ffq_raster q \<and> ffq_raster q \<le> Duration_MAX"

definition grid_covers :: "FixedFrameQuantiser \<Rightarrow> gavl_time_t \<Rightarrow> bool" where
  "grid_covers q t \<longleftrightarrow> quantiser_ok q \<and> Time_MIN + ffq_raster q \<le> t \<and> t \<le> Time_MAX"

definition on_frame_grid :: "FixedFrameQuantiser \<Rightarrow> int \<Rightarrow> bool" where
  "on_frame_grid q n \<longleftrightarrow> quantiser_ok q \<and> \<bar>ffq_origin q + n * ffq_raster q\<bar> \<le> Time_MAX"

lemma gridPoint_floor:
  "quantiser_ok q \<Longrightarrow> \<bar>t\<bar> \<le> Time_MAX \<Longrightarrow> gridPoint q t = (t - ffq_origin q) div ffq_raster q"
  by (simp add: gridPoint_def lumiera_quantise_frames_def calculate_quantisation_floor quantiser_ok_def)

lemma timeOf_exact:
  assumes "on_frame_grid q n"
  shows "timeOf q n = ffq_origin q + n * ffq_raster q"
proof -
  have b: "\<bar>ffq_origin q + n * ffq_raster q\<bar> \<le> 307445734561825860" "\<bar>ffq_origin q\<bar> \<le> 307445734561825860"
    using assms by (simp_all add: on_frame_grid_def quantiser_ok_def time_limits)
  then have "\<bar>n * ffq_raster q\<bar> \<le> INT64_MAX" by linarith
  with b show ?thesis
    by (simp add: timeOf_def TimeValue_raw_def lumiera_time_of_gridpoint_def Let_def i64_id
        limitedTime_clamp clamp_id time_limits)
qed

lemma grid_covers_abs: "grid_covers q t \<Longrightarrow> \<bar>t\<bar> \<le> Time_MAX"
  by (auto simp: grid_covers_def quantiser_ok_def time_limits)

lemma grid_interval:
  assumes "grid_covers q t"
  shows "ffq_origin q + gridPoint q t * ffq_raster q \<le> t" "t - ffq_raster q < ffq_origin q + gridPoint q t * ffq_raster q"
proof -
  have r: "0 < ffq_raster q" and g: "gridPoint q t = (t - ffq_origin q) div ffq_raster q"
    using assms gridPoint_floor [OF _ grid_covers_abs [OF assms]]
    by (simp_all add: grid_covers_def quantiser_ok_def)
  have "t - ffq_origin q = gridPoint q t * ffq_raster q + (t - ffq_origin q) mod ffq_raster q"
    by (simp add: g)
  moreover have "0 \<le> (t - ffq_origin q) mod ffq_raster q" "(t - ffq_origin q) mod ffq_raster q < ffq_raster q"
    using r by simp_all
  ultimately show "ffq_origin q + gridPoint q t * ffq_raster q \<le> t"
    "t - ffq_raster q < ffq_origin q + gridPoint q t * ffq_raster q" by linarith+
qed

lemma grid_covers_on_grid: "grid_covers q t \<Longrightarrow> on_frame_grid q (gridPoint q t)"
  using grid_interval [of q t] by (auto simp: grid_covers_def on_frame_grid_def time_limits)

interpretation ffq: time_grid "gridPoint q" "timeOf q" "grid_covers q" "on_frame_grid q" for q
proof unfold_locales
  fix t assume "grid_covers q t"
  then show "on_frame_grid q (gridPoint q t)" by (rule grid_covers_on_grid)
next
  fix t n assume t: "grid_covers q t" and n: "on_frame_grid q n"
  have r: "0 < ffq_raster q" using t by (simp add: grid_covers_def quantiser_ok_def)
  have "gridPoint q t = (t - ffq_origin q) div ffq_raster q"
    using t by (intro gridPoint_floor) (auto simp: grid_covers_def grid_covers_abs)
  then have "n \<le> gridPoint q t \<longleftrightarrow> n * ffq_raster q \<le> t - ffq_origin q"
    using r by (simp add: le_zdiv_iff)
  then show "timeOf q n \<le> t \<longleftrightarrow> n \<le> gridPoint q t" by (simp add: timeOf_exact [OF n]) linarith
next
  fix m n assume m: "on_frame_grid q m" and n: "on_frame_grid q n" and "m < n"
  moreover from m have "0 < ffq_raster q" by (simp add: on_frame_grid_def quantiser_ok_def)
  ultimately show "timeOf q m < timeOf q n" by (simp add: timeOf_exact)
qed

lemma FixedFrameQuantiser_dur_ok:
  "FixedFrameQuantiser_dur d org = Inr q \<Longrightarrow> is_Duration d \<Longrightarrow> \<bar>org\<bar> \<le> Time_MAX \<Longrightarrow> quantiser_ok q"
  by (auto simp: FixedFrameQuantiser_dur_def ensure_nonzero_def quantiser_ok_def is_Duration_def
      split: if_splits)

subsection \<open>Properties\<close>

text \<open>Quantising a time to the frame grid yields the start of the frame that contains it: at or
  before the time, less than one frame away, and quantising the result again changes nothing.\<close>

theorem materialise_on_grid:
  assumes "grid_covers q t"
  shows "materialise q t \<le> t \<and> t < materialise q t + ffq_raster q
    \<and> (grid_covers q (materialise q t) \<longrightarrow> materialise q (materialise q t) = materialise q t)"
proof -
  have m: "materialise q t = ffq_origin q + gridPoint q t * ffq_raster q"
    by (simp add: materialise_def timeOf_exact [OF grid_covers_on_grid [OF assms]])
  have "materialise q (materialise q t) = materialise q t" if "grid_covers q (materialise q t)"
    using ffq.materialise_idem [OF assms] that by (simp add: materialise_def)
  then show ?thesis using grid_interval [OF assms] m by simp
qed

theorem materialise_on_grid_witness:
  "materialise \<lparr>ffq_origin = 10, ffq_raster = 40000\<rparr> 100000 = 80010"
proof -
  let ?q = "\<lparr>ffq_origin = 10, ffq_raster = 40000\<rparr>"
  have c: "grid_covers ?q 100000" by (simp add: grid_covers_def quantiser_ok_def time_limits)
  then have g: "gridPoint ?q 100000 = 2"
    using gridPoint_floor [of ?q 100000] by (simp add: grid_covers_def quantiser_ok_def time_limits)
  have "timeOf ?q 2 = 80010" using timeOf_exact [of ?q 2] by (simp add: on_frame_grid_def quantiser_ok_def time_limits)
  then show ?thesis using materialise_on_grid [OF c] g by (simp add: materialise_def)
qed

text \<open>Grid points and times of the frame grid are inverse to each other: the frame number of the
  start of frame \<open>n\<close> is \<open>n\<close>, and later times never get smaller frame numbers.\<close>

theorem grid_roundtrip:
  assumes "on_frame_grid q n" "grid_covers q (timeOf q n)" "grid_covers q s" "grid_covers q t"
  shows "gridPoint q (timeOf q n) = n \<and> (s \<le> t \<longrightarrow> gridPoint q s \<le> gridPoint q t)"
  using ffq.grid_point_time_of [OF assms(1,2)] ffq.grid_point_mono [OF assms(3,4)] by blast

theorem grid_roundtrip_witness:
  "gridPoint \<lparr>ffq_origin = 0, ffq_raster = 40000\<rparr> (timeOf \<lparr>ffq_origin = 0, ffq_raster = 40000\<rparr> 25) = 25"
proof -
  let ?q = "\<lparr>ffq_origin = 0, ffq_raster = 40000\<rparr>"
  have o: "on_frame_grid ?q 25" by (simp add: on_frame_grid_def quantiser_ok_def time_limits)
  have c: "grid_covers ?q (timeOf ?q 25)" "grid_covers ?q 0"
    by (simp_all add: timeOf_exact [OF o]) (simp_all add: grid_covers_def quantiser_ok_def time_limits)
  show ?thesis using grid_roundtrip [OF o c(1) c(2) c(2)] by simp
qed

text \<open>Quantisation by a rational frame rate is exact rounding down, as long as the product of
  time and frame rate fits 64 bit.\<close>

theorem quantise_fps_floor:
  assumes "0 < framerate" "0 < divisor" "divisor * TIME_SCALE < INT64_MAX - divisor"
    "(\<bar>time\<bar> + \<bar>origin\<bar> + 1) * framerate \<le> INT64_MAX"
  shows "calculate_quantisation_fps time origin framerate divisor =
    Inr (((time - origin) * framerate) div (TIME_SCALE * divisor))"
  using assms by (rule calculate_quantisation_fps_floor)

theorem quantise_fps_floor_witness: "calculate_quantisation_fps 1000000 0 30000 1001 = Inr 29"
  using quantise_fps_floor [of 30000 1001 1000000 0] by (simp add: TIME_SCALE_def)

end
