(* ===== verification/TimeFields.thy ===== *)
theory TimeFields
  imports Quantiser
begin

text \<open>
  The C functions of \<open>lib/time/time.cpp\<close> that compose a raw time value from hours, minutes,
  seconds and milliseconds and take it apart again, and the NTSC drop-frame encoding.
  Unsigned operands multiply at 32 bit before they are added to the 64-bit sum, as written
  in the source.
\<close>

definition TIME_SCALE_MS :: int where
  "TIME_SCALE_MS = TIME_SCALE sdiv 1000"

lemma TIME_SCALE_MS_1000: "TIME_SCALE_MS = 1000"
  by (simp add: TIME_SCALE_MS_def TIME_SCALE_def sdiv_nonneg)

definition lumiera_build_time :: "int \<Rightarrow> int \<Rightarrow> int \<Rightarrow> int \<Rightarrow> gavl_time_t" where
  "lumiera_build_time millis secs mins hours =
     (let time = i64 (i64 (i64 (millis + u32 (1000 * secs)) + u32 (1000 * 60 * mins))
                      + u32 (1000 * 60 * 60 * hours))
      in i64 (time * TIME_SCALE_MS))"

definition lumiera_build_time_fps :: "int \<Rightarrow> int \<Rightarrow> int \<Rightarrow> int \<Rightarrow> int \<Rightarrow> gavl_time_t result" where
  "lumiera_build_time_fps fps frames secs mins hours =
     (if fps = 0 then Inl (Err Fatal ''SIGFPE'')
      else let time = i64 (i64 (i64 (i64 (1000 * frames) sdiv fps + u32 (1000 * secs)) + u32 (1000 * 60 * mins))
                      + u32 (1000 * 60 * 60 * hours))
           in Inr (i64 (time * TIME_SCALE_MS)))"

definition Time_hms :: "int \<Rightarrow> int \<Rightarrow> int \<Rightarrow> int \<Rightarrow> gavl_time_t" where
  "Time_hms millis secs mins hours = TimeValue_raw (lumiera_build_time millis secs mins hours)"

definition lumiera_time_hours :: "gavl_time_t \<Rightarrow> int" where
  "lumiera_time_hours time = i32 ((((time sdiv TIME_SCALE_MS) sdiv 1000) sdiv 60) sdiv 60)"

definition lumiera_time_minutes :: "gavl_time_t \<Rightarrow> int" where
  "lumiera_time_minutes time = i32 ((((time sdiv TIME_SCALE_MS) sdiv 1000) sdiv 60) smod 60)"

definition lumiera_time_seconds :: "gavl_time_t \<Rightarrow> int" where
  "lumiera_time_seconds time = i32 (((time sdiv TIME_SCALE_MS) sdiv 1000) smod 60)"

definition lumiera_time_millis :: "gavl_time_t \<Rightarrow> int" where
  "lumiera_time_millis time = i32 ((time sdiv TIME_SCALE_MS) smod 1000)"

definition lumiera_time_frames :: "gavl_time_t \<Rightarrow> int \<Rightarrow> int result" where
  "lumiera_time_frames time fps =
     (if fps < 2 ^ 31 - 1
      then Inr (floordiv (i32 (lumiera_time_millis time * i32 fps)) (i32 TIME_SCALE_MS))
      else Inl (Err Assertion ''REQUIRE''))"

lemma build_time_exact:
  assumes "0 \<le> ms" "ms < 1000" "0 \<le> s" "s < 60" "0 \<le> m" "m < 60" "0 \<le> h" "h \<le> 1193"
  shows "lumiera_build_time ms s m h = (((h * 60 + m) * 60 + s) * 1000 + ms) * 1000"
  using assms by (simp add: lumiera_build_time_def Let_def int_width TIME_SCALE_MS_1000)

lemmas time_field_defs = lumiera_time_hours_def lumiera_time_minutes_def lumiera_time_seconds_def
  lumiera_time_millis_def TIME_SCALE_MS_1000

lemma time_fields_nonneg:
  assumes "0 \<le> t" "t \<le> Time_MAX"
  shows "lumiera_time_millis t = t div 1000 mod 1000"
    and "lumiera_time_seconds t = t div 1000000 mod 60"
    and "lumiera_time_minutes t = t div 60000000 mod 60"
    and "lumiera_time_hours t = t div 3600000000"
proof -
  have d: "0 \<le> t div 1000" "0 \<le> t div 1000000" "0 \<le> t div 60000000" "0 \<le> t div 3600000000"
    using assms by (simp_all add: pos_imp_zdiv_nonneg_iff)
  have e1: "t sdiv 1000 = t div 1000" using assms by (intro sdiv_nonneg) simp_all
  have e2: "(t div 1000) sdiv 1000 = t div 1000000" using sdiv_nonneg [OF d(1), of 1000] by simp
  have e3: "(t div 1000000) sdiv 60 = t div 60000000" using sdiv_nonneg [OF d(2), of 60] by simp
  have e4: "(t div 60000000) sdiv 60 = t div 3600000000" using sdiv_nonneg [OF d(3), of 60] by simp
  have i: "i32 (x mod 60) = x mod 60" "i32 (x mod 1000) = x mod 1000" for x
    using i32_mod [of 60 x] i32_mod [of 1000 x] by simp_all
  show "lumiera_time_millis t = t div 1000 mod 1000"
    using smod_nonneg [OF d(1), of 1000] by (simp add: time_field_defs e1 i)
  show "lumiera_time_seconds t = t div 1000000 mod 60"
    using smod_nonneg [OF d(2), of 60] by (simp only: time_field_defs e1 e2) (simp add: i)
  show "lumiera_time_minutes t = t div 60000000 mod 60"
    using smod_nonneg [OF d(3), of 60] by (simp only: time_field_defs e1 e2 e3) (simp add: i)
  have "t div 3600000000 < 2 ^ 31" using assms(2) by (simp add: time_limits)
  then have "i32 (t div 3600000000) = t div 3600000000" using d(4) by (intro i32_id) simp
  then show "lumiera_time_hours t = t div 3600000000"
    by (simp only: time_field_defs e1 e2 e3 e4)
qed

subsection \<open>NTSC drop-frame\<close>

definition FRAMES_PER_10min :: int where
  "FRAMES_PER_10min = (10 * 60 * 30000) sdiv 1001"

definition FRAMES_PER_1min :: int where
  "FRAMES_PER_1min = (1 * 60 * 30000) sdiv 1001"

definition DISCREPANCY :: int where
  "DISCREPANCY = u32 ((1 * 60 * 30) - FRAMES_PER_1min)"

lemma drop_frame_constants:
  "FRAMES_PER_10min = 17982" "FRAMES_PER_1min = 1798" "DISCREPANCY = 2"
  by (simp_all add: FRAMES_PER_10min_def FRAMES_PER_1min_def DISCREPANCY_def sdiv_nonneg int_width)

definition calculate_drop_frame_number :: "gavl_time_t \<Rightarrow> int result" where
  "calculate_drop_frame_number time =
     bind_result (calculate_quantisation_fps time 0 30000 1001) (\<lambda>frameNr.
       let tenMinFrames = iDiv frameNr FRAMES_PER_10min;
           remainingMinutes = (rem tenMinFrames - DISCREPANCY) sdiv FRAMES_PER_1min;
           dropIncidents = (10 - 1) * quot tenMinFrames + remainingMinutes
       in Inr (frameNr + 2 * dropIncidents))"

definition lumiera_time_ntsc_drop_frames :: "gavl_time_t \<Rightarrow> int result" where
  "lumiera_time_ntsc_drop_frames time =
     bind_result (calculate_drop_frame_number time) (\<lambda>n. Inr (i32 (n smod 30)))"

definition lumiera_time_ntsc_drop_seconds :: "gavl_time_t \<Rightarrow> int result" where
  "lumiera_time_ntsc_drop_seconds time =
     bind_result (calculate_drop_frame_number time) (\<lambda>n. Inr (i32 ((n sdiv 30) smod 60)))"

definition lumiera_time_ntsc_drop_minutes :: "gavl_time_t \<Rightarrow> int result" where
  "lumiera_time_ntsc_drop_minutes time =
     bind_result (calculate_drop_frame_number time) (\<lambda>n. Inr (i32 (((n sdiv 30) sdiv 60) smod 60)))"

definition lumiera_time_ntsc_drop_hours :: "gavl_time_t \<Rightarrow> int result" where
  "lumiera_time_ntsc_drop_hours time =
     bind_result (calculate_drop_frame_number time) (\<lambda>n. Inr (i32 ((((n sdiv 30) sdiv 60) sdiv 60) smod 24)))"

definition lumiera_build_time_ntsc_drop :: "int \<Rightarrow> int \<Rightarrow> int \<Rightarrow> int \<Rightarrow> gavl_time_t" where
  "lumiera_build_time_ntsc_drop frames secs mins hours =
     (let total_mins = u32 (60 * hours + mins);
          total_frames = u64 (u32 (30 * 60 * 60 * hours + 30 * 60 * mins + 30 * secs + frames)
                              - 2 * (total_mins - total_mins div 10));
          result = lumiera_framecount_to_time total_frames FrameRate_NTSC
      in if 0 \<noteq> result then i64 (result + 1) else result)"

text \<open>
  The drop-frame labels: at every full minute but each tenth, the labels of frames 0 and 1
  are left out. \<open>ntsc_nominal\<close> counts labels, \<open>ntsc_real\<close> the frames that pass.
\<close>

definition valid_drop_label :: "int \<Rightarrow> int \<Rightarrow> int \<Rightarrow> int \<Rightarrow> bool" where
  "valid_drop_label frames secs mins hours \<longleftrightarrow>
     0 \<le> frames \<and> frames < 30 \<and> 0 \<le> secs \<and> secs < 60 \<and> 0 \<le> mins \<and> mins < 60 \<and> 0 \<le> hours \<and> hours < 24
     \<and> (secs = 0 \<and> mins mod 10 \<noteq> 0 \<longrightarrow> 2 \<le> frames)"

definition ntsc_nominal :: "int \<Rightarrow> int \<Rightarrow> int \<Rightarrow> int \<Rightarrow> int" where
  "ntsc_nominal frames secs mins hours = ((hours * 60 + mins) * 60 + secs) * 30 + frames"

definition ntsc_real :: "int \<Rightarrow> int \<Rightarrow> int \<Rightarrow> int \<Rightarrow> int" where
  "ntsc_real frames secs mins hours =
     ntsc_nominal frames secs mins hours - 2 * (hours * 60 + mins - (hours * 60 + mins) div 10)"

lemma ntsc_decompose:
  assumes "valid_drop_label f s m h"
  obtains q j x where "0 \<le> q" "q < 144" "0 \<le> j" "j < 10" "0 \<le> x" "x < 1800" "j = 0 \<or> 2 \<le> x"
    "ntsc_nominal f s m h = 18000 * q + 1800 * j + x" "ntsc_real f s m h = 17982 * q + (1798 * j + x)"
proof -
  define M where "M = h * 60 + m"
  define q where "q = M div 10"
  define j where "j = M mod 10"
  define x where "x = s * 30 + f"
  have M: "0 \<le> M" "M < 1440" "M = 10 * q + j"
    using assms by (simp_all add: valid_drop_label_def M_def q_def j_def)
  have v: "0 \<le> x" "x < 1800" using assms by (auto simp: valid_drop_label_def x_def)
  have j: "0 \<le> j" "j < 10" by (simp_all add: j_def)
  have q: "0 \<le> q" "q < 144" using M j by linarith+
  have "h * 60 + m = m + 10 * (6 * h)" by simp
  then have "j = m mod 10" unfolding j_def M_def by (simp only: mod_mult_self2)
  then have jx: "j = 0 \<or> 2 \<le> x" using assms by (cases "s = 0") (auto simp: valid_drop_label_def x_def)
  have nom: "ntsc_nominal f s m h = 1800 * M + x" by (simp add: ntsc_nominal_def M_def x_def)
  have real: "ntsc_real f s m h = ntsc_nominal f s m h - 2 * (M - q)"
    by (simp add: ntsc_real_def M_def q_def)
  show thesis
  proof (rule that [of q j x])
    show "ntsc_nominal f s m h = 18000 * q + 1800 * j + x" using nom M(3) by simp
    show "ntsc_real f s m h = 17982 * q + (1798 * j + x)" using nom real M(3) by simp
  qed (use q j v jx in simp_all)
qed

lemma ntsc_real_bounds:
  "valid_drop_label f s m h \<Longrightarrow> 0 \<le> ntsc_real f s m h \<and> ntsc_real f s m h < 2589408"
  by (erule ntsc_decompose) auto

text \<open>The number of labels dropped is recovered from the real frame number alone.\<close>

lemma ntsc_labels_recovered:
  assumes "valid_drop_label f s m h"
  shows "ntsc_real f s m h
      + 2 * (9 * (ntsc_real f s m h div 17982) + (ntsc_real f s m h mod 17982 - 2) sdiv 1798)
      = ntsc_nominal f s m h"
proof -
  from assms obtain q j x where v: "0 \<le> q" "q < 144" "0 \<le> j" "j < 10" "0 \<le> x" "x < 1800"
    and j0: "j = 0 \<or> 2 \<le> x"
    and nom: "ntsc_nominal f s m h = 18000 * q + 1800 * j + x"
    and real: "ntsc_real f s m h = 17982 * q + (1798 * j + x)"
    by (rule ntsc_decompose)
  have lt: "1798 * j + x < 17982" "0 \<le> 1798 * j + x" using v by auto
  have dm: "ntsc_real f s m h div 17982 = q" "ntsc_real f s m h mod 17982 = 1798 * j + x"
    using lt by (simp_all add: real)
  have "(1798 * j + x - 2) sdiv 1798 = j"
  proof (cases "1798 * j + x - 2 < 0")
    case True
    then have "j = 0" "- (1798 * j + x - 2) div 1798 = 0" using v by auto
    with True show ?thesis by (simp add: sdiv_neg)
  next
    case False
    then have "(1798 * j + x - 2) div 1798 = j" using v j0 by auto
    with False show ?thesis by (simp add: sdiv_nonneg)
  qed
  then show ?thesis by (simp add: dm) (simp add: real nom)
qed

lemma build_ntsc_drop_time:
  assumes "valid_drop_label f s m h"
  defines "n \<equiv> ntsc_real f s m h"
  shows "lumiera_build_time_ntsc_drop f s m h =
    (if n = 0 then 0 else (TIME_SCALE * n * 1001) div 30000 + 1)"
proof -
  have n: "0 \<le> n" "n < 2589408" using ntsc_real_bounds [OF assms(1)] by (simp_all add: n_def)
  have u: "u32 (60 * h + m) = h * 60 + m"
    "u32 (30 * 60 * 60 * h + 30 * 60 * m + 30 * s + f) = ntsc_nominal f s m h"
    using assms(1) by (simp_all add: valid_drop_label_def u32_id ntsc_nominal_def)
  have tot: "u64 (ntsc_nominal f s m h - 2 * (h * 60 + m - (h * 60 + m) div 10)) = n"
    using n by (simp add: n_def ntsc_real_def u64_id)
  have t: "lumiera_framecount_to_time n FrameRate_NTSC = (TIME_SCALE * n * 1001) div 30000"
    using framecount_to_time_floor [OF NTSC_is_FrameRate n(1)] n
    by (simp add: FrameRate_NTSC_def TIME_SCALE_def)
  have small: "0 \<le> (TIME_SCALE * n * 1001) div 30000" "(TIME_SCALE * n * 1001) div 30000 < 2 ^ 62"
    using n by (simp_all add: TIME_SCALE_def)
  have pos: "n \<noteq> 0 \<Longrightarrow> 0 < (TIME_SCALE * n * 1001) div 30000"
    using n by (simp add: TIME_SCALE_def pos_imp_zdiv_pos_iff)
  show ?thesis
    unfolding lumiera_build_time_ntsc_drop_def Let_def u tot t
    using pos small by (cases "n = 0") (auto simp: i64_id)
qed

lemma drop_frame_number_of_build:
  assumes "valid_drop_label f s m h"
  shows "calculate_drop_frame_number (lumiera_build_time_ntsc_drop f s m h) = Inr (ntsc_nominal f s m h)"
proof -
  define n where "n = ntsc_real f s m h"
  define t where "t = lumiera_build_time_ntsc_drop f s m h"
  have n: "0 \<le> n" "n < 2589408" using ntsc_real_bounds [OF assms] by (simp_all add: n_def)
  have t: "t = (if n = 0 then 0 else (TIME_SCALE * n * 1001) div 30000 + 1)"
    using build_ntsc_drop_time [OF assms] by (simp add: t_def n_def)
  have tb: "0 \<le> t" "t < 100000000000" using n by (auto simp: t TIME_SCALE_def)
  have "(t * 30000) div (TIME_SCALE * 1001) = n" using n by (simp add: t TIME_SCALE_def) arith
  then have "calculate_quantisation_fps t 0 30000 1001 = Inr n"
    using calculate_quantisation_fps_floor [of 30000 1001 t 0] tb by (simp add: TIME_SCALE_def)
  then show ?thesis
    using ntsc_labels_recovered [OF assms] n
    by (simp add: calculate_drop_frame_number_def iDiv_def Let_def drop_frame_constants t_def [symmetric]
        n_def [symmetric] sdiv_nonneg minus_div_mult_eq_mod)
qed

subsection \<open>Properties\<close>

text \<open>Building a time from milliseconds, seconds, minutes and hours and reading the fields back
  gives the same numbers, for up to 1193 hours (where the 32 bit sum of milliseconds ends).\<close>

theorem build_time_roundtrip:
  assumes "0 \<le> ms" "ms < 1000" "0 \<le> s" "s < 60" "0 \<le> m" "m < 60" "0 \<le> h" "h \<le> 1193"
  defines "t \<equiv> lumiera_build_time ms s m h"
  shows "lumiera_time_millis t = ms \<and> lumiera_time_seconds t = s
    \<and> lumiera_time_minutes t = m \<and> lumiera_time_hours t = h"
proof -
  have t: "t = (((h * 60 + m) * 60 + s) * 1000 + ms) * 1000"
    unfolding t_def by (rule build_time_exact) (use assms in auto)
  have r: "0 \<le> t" "t \<le> Time_MAX" using assms(1-8) by (auto simp: t time_limits)
  have d: "t div 1000 = ms + 1000 * (s + 60 * (m + 60 * h))"
    "t div 1000000 = s + 60 * (m + 60 * h)" "t div 60000000 = m + 60 * h" "t div 3600000000 = h"
    using assms(1-8) by (simp_all add: t)
  show ?thesis
    unfolding time_fields_nonneg [OF r] d
    using digit_split(1) [of ms 1000] digit_split(1) [of s 60] digit_split(1) [of m 60] assms(1-8) by blast
qed

theorem build_time_roundtrip_witness: "lumiera_time_minutes (lumiera_build_time 555 5 7 2) = 7"
  using build_time_roundtrip [of 555 5 7 2] by simp

text \<open>C40: Every NTSC drop-frame label within a day survives the round trip: the time built from
  the label yields the same frame, second, minute and hour again.\<close>

theorem drop_frame_roundtrip:
  assumes "valid_drop_label f s m h"
  defines "t \<equiv> lumiera_build_time_ntsc_drop f s m h"
  shows "lumiera_time_ntsc_drop_frames t = Inr f \<and> lumiera_time_ntsc_drop_seconds t = Inr s
    \<and> lumiera_time_ntsc_drop_minutes t = Inr m \<and> lumiera_time_ntsc_drop_hours t = Inr h"
proof -
  have v: "0 \<le> f" "f < 30" "0 \<le> s" "s < 60" "0 \<le> m" "m < 60" "0 \<le> h" "h < 24"
    using assms(1) by (auto simp: valid_drop_label_def)
  define N where "N = ntsc_nominal f s m h"
  have N: "N = ((h * 60 + m) * 60 + s) * 30 + f" by (simp add: N_def ntsc_nominal_def)
  have c: "calculate_drop_frame_number t = Inr N"
    using drop_frame_number_of_build [OF assms(1)] by (simp add: t_def N_def)
  have Nd: "N = f + 30 * (s + 60 * (m + 60 * h))" by (simp add: N)
  have d: "N mod 30 = f" "N div 30 = s + 60 * (m + 60 * h)" "(s + 60 * (m + 60 * h)) div 60 = m + 60 * h"
    "(s + 60 * (m + 60 * h)) mod 60 = s" "(m + 60 * h) div 60 = h" "(m + 60 * h) mod 60 = m"
    unfolding Nd by (rule digit_split [OF v(1,2)] digit_split [OF v(3,4)] digit_split [OF v(5,6)])+
  have n: "0 \<le> N" "0 \<le> s + 60 * (m + 60 * h)" "0 \<le> m + 60 * h" using v by (simp_all add: N)
  have q: "N sdiv 30 = s + 60 * (m + 60 * h)" "(s + 60 * (m + 60 * h)) sdiv 60 = m + 60 * h" "(m + 60 * h) sdiv 60 = h"
    "N smod 30 = f" "(s + 60 * (m + 60 * h)) smod 60 = s" "(m + 60 * h) smod 60 = m" "h smod 24 = h"
    using n v by (simp_all only: sdiv_nonneg smod_nonneg d zero_less_numeral) simp
  have w: "i32 f = f" "i32 s = s" "i32 m = m" "i32 h = h" using v by (simp_all add: i32_id)
  show ?thesis
    by (simp only: lumiera_time_ntsc_drop_frames_def lumiera_time_ntsc_drop_seconds_def
        lumiera_time_ntsc_drop_minutes_def lumiera_time_ntsc_drop_hours_def c bind_result_simps q w simp_thms)
qed

theorem drop_frame_roundtrip_witness: "lumiera_time_ntsc_drop_frames (lumiera_build_time_ntsc_drop 2 0 1 0) = Inr 2"
  using drop_frame_roundtrip [of 2 0 1 0] by (simp add: valid_drop_label_def)

end
