(* ===== verification/Timecode.thy ===== *)
theory Timecode
  imports TimeFields
begin

text \<open>
  Timecode formats of \<open>lib/time/timecode.cpp\<close>: the frame count and the SMPTE timecode. Each
  field of an SMPTE timecode is a \<open>Digxel\<close> whose assignment runs a normalisation functor;
  overflow of one field is added to the next, and a negative hour field flips the
  orientation of the whole value, which assigns the fields anew. These functors call each
  other; the model gives the assignment a fuel parameter, and \<open>None\<close> means that the fuel ran
  out. The lemmas show that a fuel of 8 is enough for every normalised timecode, and that
  an assignment changes the frame count the timecode denotes by exactly the change made to
  that one field.
\<close>

record SmpteTC =
  tc_fps :: int
  tc_hours :: int
  tc_mins :: int
  tc_secs :: int
  tc_frames :: int
  tc_sgn :: int

definition storeSign :: "int \<Rightarrow> int" where
  "storeSign val = (if val < 0 then - 1 else 1)"

text \<open>The fields as \<open>invertOrientation\<close> computes them: hours, minutes, seconds, frames.\<close>

definition flipped_fields :: "SmpteTC \<Rightarrow> int \<times> int \<times> int \<times> int" where
  "flipped_fields tc =
     (let fr = i32 (tc_fps tc);
          f = i32 (fr - tc_frames tc);
          s = i32 (60 - tc_secs tc);
          m = i32 (60 - tc_mins tc);
          h = i32 (- tc_hours tc);
          (f, s) = (if f < fr then (f, s - 1) else (f - fr, s));
          (s, m) = (if s < 60 then (s, m - 1) else (s - 60, m));
          (m, h) = (if m < 60 then (m, h - 1) else (m - 60, h))
      in (h, m, s, f))"

text \<open>
  \<open>asg\<close> is the assignment operator of the fields, passed in to close the recursion below.
\<close>

datatype digxel = Hours | Mins | Secs | Frames

type_synonym assignment = "digxel \<Rightarrow> SmpteTC \<Rightarrow> int \<Rightarrow> SmpteTC option"

definition invertOrientation :: "assignment \<Rightarrow> SmpteTC \<Rightarrow> SmpteTC option" where
  "invertOrientation asg tc =
     (case flipped_fields tc of (h, m, s, f) \<Rightarrow>
        let tc1 = tc\<lparr>tc_sgn := storeSign (- 1 * tc_sgn tc), tc_hours := h\<rparr>
        in Option.bind (asg Mins tc1 m) (\<lambda>tc2.
           Option.bind (asg Secs tc2 s) (\<lambda>tc3. asg Frames tc3 f)))"

definition applyRangeLimitStrategy :: "assignment \<Rightarrow> SmpteTC \<Rightarrow> SmpteTC option" where
  "applyRangeLimitStrategy asg tc = (if tc_hours tc < 0 then invertOrientation asg tc else Some tc)"

definition wrapFrames :: "assignment \<Rightarrow> SmpteTC \<Rightarrow> int \<Rightarrow> SmpteTC option" where
  "wrapFrames asg tc rawFrames =
     (let w = floorwrap rawFrames (i32 (tc_fps tc)); tc' = tc\<lparr>tc_frames := rem w\<rparr>
      in asg Secs tc' (i32 (tc_secs tc' + quot w)))"

definition wrapSeconds :: "assignment \<Rightarrow> SmpteTC \<Rightarrow> int \<Rightarrow> SmpteTC option" where
  "wrapSeconds asg tc rawSecs =
     (let w = floorwrap rawSecs 60; tc' = tc\<lparr>tc_secs := rem w\<rparr>
      in asg Mins tc' (i32 (tc_mins tc' + quot w)))"

definition wrapMinutes :: "assignment \<Rightarrow> SmpteTC \<Rightarrow> int \<Rightarrow> SmpteTC option" where
  "wrapMinutes asg tc rawMins =
     (let w = floorwrap rawMins 60; tc' = tc\<lparr>tc_mins := rem w\<rparr>
      in asg Hours tc' (i32 (tc_hours tc' + quot w)))"

definition wrapHours :: "assignment \<Rightarrow> SmpteTC \<Rightarrow> int \<Rightarrow> SmpteTC option" where
  "wrapHours asg tc rawHours = applyRangeLimitStrategy asg (tc\<lparr>tc_hours := rawHours\<rparr>)"

definition digxel_value :: "digxel \<Rightarrow> SmpteTC \<Rightarrow> int" where
  "digxel_value d tc =
     (case d of Hours \<Rightarrow> tc_hours tc | Mins \<Rightarrow> tc_mins tc | Secs \<Rightarrow> tc_secs tc | Frames \<Rightarrow> tc_frames tc)"

text \<open>\<open>Digxel::operator=\<close> with the functor \<open>setupComponentNormalisation\<close> has installed.\<close>

primrec assign :: "nat \<Rightarrow> assignment" where
  "assign 0 = (\<lambda>d tc n. None)"
| "assign (Suc k) = (\<lambda>d tc n.
     if n = digxel_value d tc then Some tc
     else case d of Hours \<Rightarrow> wrapHours (assign k) tc n | Mins \<Rightarrow> wrapMinutes (assign k) tc n
          | Secs \<Rightarrow> wrapSeconds (assign k) tc n | Frames \<Rightarrow> wrapFrames (assign k) tc n)"

definition smpte_fuel :: nat where
  "smpte_fuel = 8"

definition smpte_clear :: "SmpteTC \<Rightarrow> SmpteTC" where
  "smpte_clear tc = tc\<lparr>tc_frames := 0, tc_secs := 0, tc_mins := 0, tc_hours := 0, tc_sgn := 1\<rparr>"

text \<open>\<open>Smpte::rebuild\<close>: the 64-bit grid number is converted to the \<open>int\<close> of the frames field.\<close>

definition smpte_rebuild :: "SmpteTC \<Rightarrow> (gavl_time_t \<Rightarrow> int) \<Rightarrow> gavl_time_t \<Rightarrow> SmpteTC option" where
  "smpte_rebuild tc grid_point rawTime = assign smpte_fuel Frames (smpte_clear tc) (i32 (grid_point rawTime))"

definition smpte_evaluate :: "SmpteTC \<Rightarrow> (int \<Rightarrow> gavl_time_t) \<Rightarrow> gavl_time_t" where
  "smpte_evaluate tc time_of =
     (let frameRate = tc_fps tc;
          n0 = tc_frames tc;
          n1 = i64 (n0 + i64 (tc_secs tc * frameRate));
          n2 = i64 (n1 + i64 (i64 (tc_mins tc * frameRate) * 60));
          n3 = i64 (n2 + i64 (i64 (i64 (tc_hours tc * frameRate) * 60) * 60))
      in time_of (i64 (tc_sgn tc * n3)))"

definition smpte_getFramerate :: "(gavl_time_t \<Rightarrow> int) \<Rightarrow> gavl_time_t \<Rightarrow> int result" where
  "smpte_getFramerate grid_point rawTime =
     (let refCnt = grid_point rawTime;
          newCnt = grid_point (Time_plus (Time_hms 0 1 0 0) rawTime);
          effectiveFrames = i64 (newCnt - refCnt)
      in if 1000 > effectiveFrames \<and> 0 < effectiveFrames then Inr (u32 effectiveFrames)
         else Inl (Err Assertion ''ENSURE''))"

definition smpte_increment :: "SmpteTC \<Rightarrow> SmpteTC option" where
  "smpte_increment tc = assign smpte_fuel Frames tc (i32 (tc_frames tc + tc_sgn tc))"

definition smpte_decrement :: "SmpteTC \<Rightarrow> SmpteTC option" where
  "smpte_decrement tc = assign smpte_fuel Frames tc (i32 (tc_frames tc - tc_sgn tc))"

text \<open>A frame count is the plain grid number.\<close>

definition frames_rebuild :: "(gavl_time_t \<Rightarrow> int) \<Rightarrow> gavl_time_t \<Rightarrow> int" where
  "frames_rebuild grid_point rawTime = grid_point rawTime"

definition frames_evaluate :: "int \<Rightarrow> (int \<Rightarrow> gavl_time_t) \<Rightarrow> gavl_time_t" where
  "frames_evaluate frameNr time_of = time_of frameNr"

subsection \<open>Normalised timecodes and the count they denote\<close>

definition smpte_norm :: "SmpteTC \<Rightarrow> bool" where
  "smpte_norm tc \<longleftrightarrow> 0 < tc_fps tc \<and> tc_fps tc < 1000 \<and> 0 \<le> tc_frames tc \<and> tc_frames tc < tc_fps tc
     \<and> 0 \<le> tc_secs tc \<and> tc_secs tc < 60 \<and> 0 \<le> tc_mins tc \<and> tc_mins tc < 60
     \<and> 0 \<le> tc_hours tc \<and> tc_hours tc \<le> 2 ^ 30 \<and> (tc_sgn tc = 1 \<or> tc_sgn tc = - 1)"

definition smpte_count :: "SmpteTC \<Rightarrow> int" where
  "smpte_count tc =
     tc_sgn tc * (((tc_hours tc * 60 + tc_mins tc) * 60 + tc_secs tc) * tc_fps tc + tc_frames tc)"

lemma assign_unfold:
  "0 < k \<Longrightarrow> assign k Hours tc n =
     (if n = tc_hours tc then Some tc
      else if n < 0 then invertOrientation (assign (k - 1)) (tc\<lparr>tc_hours := n\<rparr>) else Some (tc\<lparr>tc_hours := n\<rparr>))"
  "0 < k \<Longrightarrow> assign k Mins tc n =
     (if n = tc_mins tc then Some tc
      else assign (k - 1) Hours (tc\<lparr>tc_mins := n mod 60\<rparr>) (i32 (tc_hours tc + n div 60)))"
  "0 < k \<Longrightarrow> assign k Secs tc n =
     (if n = tc_secs tc then Some tc
      else assign (k - 1) Mins (tc\<lparr>tc_secs := n mod 60\<rparr>) (i32 (tc_mins tc + n div 60)))"
  "0 < k \<Longrightarrow> 0 < i32 (tc_fps tc) \<Longrightarrow> assign k Frames tc n =
     (if n = tc_frames tc then Some tc
      else assign (k - 1) Secs (tc\<lparr>tc_frames := n mod i32 (tc_fps tc)\<rparr>)
             (i32 (tc_secs tc + n div i32 (tc_fps tc))))"
  by (cases k; simp add: digxel_value_def wrapHours_def applyRangeLimitStrategy_def wrapMinutes_def
      wrapSeconds_def wrapFrames_def floorwrap_pos Let_def)+

lemma assign_in_range:
  "2 \<le> k \<Longrightarrow> 0 \<le> n \<Longrightarrow> n < 60 \<Longrightarrow> \<bar>tc_hours tc\<bar> < 2 ^ 31 \<Longrightarrow> assign k Mins tc n = Some (tc\<lparr>tc_mins := n\<rparr>)"
  "2 \<le> k \<Longrightarrow> 0 \<le> n \<Longrightarrow> n < 60 \<Longrightarrow> \<bar>tc_mins tc\<bar> < 2 ^ 31 \<Longrightarrow> assign k Secs tc n = Some (tc\<lparr>tc_secs := n\<rparr>)"
  "2 \<le> k \<Longrightarrow> 0 \<le> n \<Longrightarrow> n < tc_fps tc \<Longrightarrow> tc_fps tc < 1000 \<Longrightarrow> \<bar>tc_secs tc\<bar> < 2 ^ 31
   \<Longrightarrow> assign k Frames tc n = Some (tc\<lparr>tc_frames := n\<rparr>)"
  by (simp_all add: assign_unfold i32_id)

text \<open>Flipping a timecode with negative hours gives the normalised fields of the opposite count.\<close>

lemma flipped_fields_range:
  assumes "smpte_norm (tc\<lparr>tc_hours := 0\<rparr>)" "tc_hours tc < 0" "- (2 ^ 30) \<le> tc_hours tc"
    "flipped_fields tc = (h, m, s, f)"
  shows "0 \<le> f \<and> f < tc_fps tc" "0 \<le> s \<and> s < 60" "0 \<le> m \<and> m < 60" "0 \<le> h \<and> h \<le> 2 ^ 30"
    "((h * 60 + m) * 60 + s) * tc_fps tc + f =
      - (((tc_hours tc * 60 + tc_mins tc) * 60 + tc_secs tc) * tc_fps tc + tc_frames tc)"
proof -
  define S where "S = (tc_hours tc * 60 + tc_mins tc) * 60 + tc_secs tc"
  have f: "f = (if tc_frames tc = 0 then 0 else tc_fps tc - tc_frames tc)"
    using assms by (auto simp: flipped_fields_def smpte_norm_def Let_def i32_id split: if_splits)
  have hms: "(h * 60 + m) * 60 + s = - S - (if tc_frames tc = 0 then 0 else 1)"
    using assms by (auto simp: flipped_fields_def smpte_norm_def Let_def i32_id S_def split: if_splits)
  show "0 \<le> f \<and> f < tc_fps tc" "0 \<le> s \<and> s < 60" "0 \<le> m \<and> m < 60" "0 \<le> h \<and> h \<le> 2 ^ 30"
    using assms by (auto simp: flipped_fields_def smpte_norm_def Let_def i32_id split: if_splits)
  show "((h * 60 + m) * 60 + s) * tc_fps tc + f =
      - (((tc_hours tc * 60 + tc_mins tc) * 60 + tc_secs tc) * tc_fps tc + tc_frames tc)"
    unfolding hms S_def [symmetric] f by (simp add: algebra_simps)
qed

lemma div60_bounds: "\<bar>n\<bar> \<le> 2147483648 \<Longrightarrow> - 67108864 \<le> n div 60 \<and> n div 60 \<le> (67108864::int)"
  by linarith

lemma div_pos_bounds:
  fixes n d b :: int
  assumes "\<bar>n\<bar> \<le> b" "0 < d"
  shows "\<bar>n div d\<bar> \<le> b"
proof -
  have "- b \<le> n div d"
  proof -
    have "- b * d \<le> - b * 1" using assms by (intro mult_left_mono_neg) auto
    then show ?thesis using assms by (simp add: le_zdiv_iff)
  qed
  moreover have "n div d \<le> b"
  proof (cases "0 \<le> n")
    case True
    then show ?thesis using zdiv_self_le [of n d] assms by linarith
  next
    case False
    then have "n div d < 0" using assms(2) by (simp add: div_neg_pos_less0)
    then show ?thesis using assms(1) by linarith
  qed
  ultimately show ?thesis by (simp add: abs_le_iff)
qed

lemma invertOrientation_count:
  assumes n: "smpte_norm (tc\<lparr>tc_hours := 0\<rparr>)" and h: "tc_hours tc < 0" "- (2 ^ 30) \<le> tc_hours tc" and k: "2 \<le> k"
  shows "\<exists>tc'. invertOrientation (assign k) tc = Some tc' \<and> smpte_norm tc' \<and> tc_fps tc' = tc_fps tc
     \<and> smpte_count tc' = smpte_count tc"
proof -
  obtain h' m s f where ff: "flipped_fields tc = (h', m, s, f)" by (cases "flipped_fields tc") auto
  note r = flipped_fields_range [OF n h ff]
  let ?tc1 = "tc\<lparr>tc_sgn := storeSign (- 1 * tc_sgn tc), tc_hours := h'\<rparr>"
  have fps: "tc_fps tc < 1000" using n by (simp add: smpte_norm_def)
  have "assign k Mins ?tc1 m = Some (?tc1\<lparr>tc_mins := m\<rparr>)"
    using k r by (intro assign_in_range) auto
  moreover have "assign k Secs (?tc1\<lparr>tc_mins := m\<rparr>) s = Some (?tc1\<lparr>tc_mins := m, tc_secs := s\<rparr>)"
    using k r by (simp add: assign_in_range)
  moreover have "assign k Frames (?tc1\<lparr>tc_mins := m, tc_secs := s\<rparr>) f
      = Some (?tc1\<lparr>tc_mins := m, tc_secs := s, tc_frames := f\<rparr>)"
    using k r fps by (simp add: assign_in_range)
  ultimately have inv: "invertOrientation (assign k) tc
      = Some (?tc1\<lparr>tc_mins := m, tc_secs := s, tc_frames := f\<rparr>)"
    by (simp add: invertOrientation_def ff Let_def)
  have "smpte_norm (?tc1\<lparr>tc_mins := m, tc_secs := s, tc_frames := f\<rparr>)"
    using n r by (auto simp: smpte_norm_def storeSign_def)
  moreover have "smpte_count (?tc1\<lparr>tc_mins := m, tc_secs := s, tc_frames := f\<rparr>) = smpte_count tc"
    using n r(5) by (auto simp: smpte_norm_def smpte_count_def storeSign_def)
  ultimately show ?thesis using inv by auto
qed

text \<open>
  What an assignment to a field does to a normalised timecode: it terminates, keeps the
  timecode normalised and changes the count as if the one field had been replaced.
\<close>

definition assign_spec :: "SmpteTC option \<Rightarrow> SmpteTC \<Rightarrow> bool" where
  "assign_spec res raw \<longleftrightarrow> (\<exists>tc'. res = Some tc' \<and> smpte_norm tc' \<and> tc_fps tc' = tc_fps raw
     \<and> smpte_count tc' = smpte_count raw)"

lemma assign_hours:
  assumes "smpte_norm tc" "\<bar>h\<bar> \<le> 2 ^ 30" "3 \<le> k"
  shows "assign_spec (assign k Hours tc h) (tc\<lparr>tc_hours := h\<rparr>)"
proof (cases "h < 0")
  case True
  have "smpte_norm (tc\<lparr>tc_hours := h, tc_hours := 0\<rparr>)" using assms(1) by (simp add: smpte_norm_def)
  then have "assign_spec (invertOrientation (assign (k - 1)) (tc\<lparr>tc_hours := h\<rparr>)) (tc\<lparr>tc_hours := h\<rparr>)"
    using invertOrientation_count [of "tc\<lparr>tc_hours := h\<rparr>" "k - 1"] True assms
    by (simp add: assign_spec_def)
  moreover have "assign k Hours tc h = invertOrientation (assign (k - 1)) (tc\<lparr>tc_hours := h\<rparr>)"
    using True assms by (auto simp: assign_unfold smpte_norm_def)
  ultimately show ?thesis by simp
next
  case False
  then have "assign k Hours tc h = Some (tc\<lparr>tc_hours := h\<rparr>)"
    using assms by (simp add: assign_unfold)
  with False assms show ?thesis by (auto simp: smpte_norm_def assign_spec_def)
qed

lemma assign_spec_trans:
  "assign_spec r a \<Longrightarrow> tc_fps a = tc_fps b \<Longrightarrow> smpte_count a = smpte_count b \<Longrightarrow> assign_spec r b"
  by (simp add: assign_spec_def)

lemma assign_spec_refl: "smpte_norm tc \<Longrightarrow> assign_spec (Some tc) tc"
  by (simp add: assign_spec_def)

lemma assign_mins:
  assumes "smpte_norm tc" "\<bar>n\<bar> \<le> 2 ^ 31" "tc_hours tc \<le> 2 ^ 20" "4 \<le> k"
  shows "assign_spec (assign k Mins tc n) (tc\<lparr>tc_mins := n\<rparr>)"
proof (cases "n = tc_mins tc")
  case True
  then show ?thesis using assms by (simp add: assign_unfold assign_spec_refl)
next
  case False
  have q: "- (2 ^ 26) \<le> n div 60" "n div 60 \<le> 2 ^ 26" using assms(2) div60_bounds [of n] by simp_all
  have h: "\<bar>tc_hours tc + n div 60\<bar> \<le> 2 ^ 30" using q assms(1,3) by (auto simp: smpte_norm_def)
  then have i: "i32 (tc_hours tc + n div 60) = tc_hours tc + n div 60" by (intro i32_id) simp
  have norm: "smpte_norm (tc\<lparr>tc_mins := n mod 60\<rparr>)" using assms(1) by (simp add: smpte_norm_def)
  have "assign_spec (assign (k - 1) Hours (tc\<lparr>tc_mins := n mod 60\<rparr>) (tc_hours tc + n div 60))
      (tc\<lparr>tc_mins := n mod 60, tc_hours := tc_hours tc + n div 60\<rparr>)"
    using assign_hours [OF norm h] assms(4) by simp
  then have "assign_spec (assign k Mins tc n) (tc\<lparr>tc_mins := n mod 60, tc_hours := tc_hours tc + n div 60\<rparr>)"
    using False assms(4) i by (simp add: assign_unfold)
  moreover have "(tc_hours tc + n div 60) * 60 + n mod 60 = tc_hours tc * 60 + n" by simp
  ultimately show ?thesis
    by (elim assign_spec_trans) (simp_all add: smpte_count_def)
qed

lemma assign_secs:
  assumes "smpte_norm tc" "\<bar>n\<bar> \<le> 2 ^ 31" "tc_hours tc \<le> 2 ^ 20" "5 \<le> k"
  shows "assign_spec (assign k Secs tc n) (tc\<lparr>tc_secs := n\<rparr>)"
proof (cases "n = tc_secs tc")
  case True
  then show ?thesis using assms by (simp add: assign_unfold assign_spec_refl)
next
  case False
  have q: "- (2 ^ 26) \<le> n div 60" "n div 60 \<le> 2 ^ 26" using assms(2) div60_bounds [of n] by simp_all
  have m: "\<bar>tc_mins tc + n div 60\<bar> \<le> 2 ^ 30" using q assms(1) by (auto simp: smpte_norm_def)
  then have i: "i32 (tc_mins tc + n div 60) = tc_mins tc + n div 60" by (intro i32_id) simp
  have norm: "smpte_norm (tc\<lparr>tc_secs := n mod 60\<rparr>)" using assms(1) by (simp add: smpte_norm_def)
  have "assign_spec (assign (k - 1) Mins (tc\<lparr>tc_secs := n mod 60\<rparr>) (tc_mins tc + n div 60))
      (tc\<lparr>tc_secs := n mod 60, tc_mins := tc_mins tc + n div 60\<rparr>)"
    using assign_mins [OF norm, of "tc_mins tc + n div 60" "k - 1"] m assms(3,4) by simp
  then have "assign_spec (assign k Secs tc n) (tc\<lparr>tc_secs := n mod 60, tc_mins := tc_mins tc + n div 60\<rparr>)"
    using False assms(4) i by (simp add: assign_unfold)
  moreover have "(tc_hours tc * 60 + (tc_mins tc + n div 60)) * 60 + n mod 60
      = (tc_hours tc * 60 + tc_mins tc) * 60 + n" by simp
  ultimately show ?thesis
    by (elim assign_spec_trans) (simp_all add: smpte_count_def)
qed

lemma assign_frames:
  assumes "smpte_norm tc" "\<bar>n\<bar> \<le> 2 ^ 30" "tc_hours tc \<le> 2 ^ 20" "6 \<le> k"
  shows "assign_spec (assign k Frames tc n) (tc\<lparr>tc_frames := n\<rparr>)"
proof (cases "n = tc_frames tc")
  case True
  then show ?thesis using assms assign_unfold(4) [of k tc n]
    by (simp add: assign_spec_refl smpte_norm_def i32_id)
next
  case False
  define fps where "fps = tc_fps tc"
  have fps: "0 < fps" "i32 (tc_fps tc) = fps" using assms(1) by (simp_all add: fps_def smpte_norm_def i32_id)
  have s: "0 \<le> tc_secs tc" "tc_secs tc < 60" using assms(1) by (simp_all add: smpte_norm_def)
  have q: "\<bar>n div fps\<bar> \<le> 2 ^ 30" using assms(2) fps(1) by (rule div_pos_bounds)
  have b: "\<bar>tc_secs tc + n div fps\<bar> \<le> 2 ^ 31" using q s by simp
  have i: "i32 (tc_secs tc + n div fps) = tc_secs tc + n div fps" using q s by (intro i32_id) simp
  have norm: "smpte_norm (tc\<lparr>tc_frames := n mod fps\<rparr>)"
    using assms(1) fps by (simp add: smpte_norm_def fps_def)
  have "assign_spec (assign (k - 1) Secs (tc\<lparr>tc_frames := n mod fps\<rparr>) (tc_secs tc + n div fps))
      (tc\<lparr>tc_frames := n mod fps, tc_secs := tc_secs tc + n div fps\<rparr>)"
    using assign_secs [OF norm b] assms(3,4) by simp
  then have "assign_spec (assign k Frames tc n) (tc\<lparr>tc_frames := n mod fps, tc_secs := tc_secs tc + n div fps\<rparr>)"
    using False assms(4) i fps by (simp add: assign_unfold)
  moreover have "(x + n div fps) * fps + n mod fps = x * fps + n" for x
    by (simp add: distrib_right)
  then have "smpte_count (tc\<lparr>tc_frames := n mod fps, tc_secs := tc_secs tc + n div fps\<rparr>)
      = smpte_count (tc\<lparr>tc_frames := n\<rparr>)"
    by (simp add: smpte_count_def fps_def [symmetric] add.assoc [symmetric])
  ultimately show ?thesis by (elim assign_spec_trans) simp_all
qed

subsection \<open>Consequences for the timecode operations\<close>

lemma smpte_clear_norm:
  "0 < tc_fps tc \<Longrightarrow> tc_fps tc < 1000 \<Longrightarrow> smpte_norm (smpte_clear tc) \<and> smpte_count (smpte_clear tc) = 0"
  by (simp add: smpte_norm_def smpte_count_def smpte_clear_def)

lemma smpte_rebuild_count:
  assumes "0 < tc_fps tc" "tc_fps tc < 1000" "\<bar>grid_point t\<bar> \<le> 2 ^ 30"
  shows "\<exists>tc'. smpte_rebuild tc grid_point t = Some tc' \<and> smpte_norm tc' \<and> tc_fps tc' = tc_fps tc
     \<and> smpte_count tc' = grid_point t"
proof -
  have norm: "smpte_norm (smpte_clear tc)" using smpte_clear_norm [OF assms(1,2)] by simp
  have i: "i32 (grid_point t) = grid_point t" using assms(3) by (intro i32_id) simp
  have "assign_spec (assign smpte_fuel Frames (smpte_clear tc) (grid_point t))
      ((smpte_clear tc)\<lparr>tc_frames := grid_point t\<rparr>)"
    using assign_frames [OF norm assms(3)] by (simp add: smpte_clear_def smpte_fuel_def)
  then show ?thesis
    by (simp add: smpte_rebuild_def i assign_spec_def smpte_count_def smpte_clear_def)
qed

lemma smpte_evaluate_count:
  assumes "smpte_norm tc"
  shows "smpte_evaluate tc time_of = time_of (smpte_count tc)"
proof -
  have fps: "0 < tc_fps tc" "tc_fps tc < 1000" and f: "0 \<le> tc_frames tc" "tc_frames tc < tc_fps tc"
    and s: "0 \<le> tc_secs tc" "tc_secs tc < 60" and m: "0 \<le> tc_mins tc" "tc_mins tc < 60"
    and h: "0 \<le> tc_hours tc" "tc_hours tc \<le> 2 ^ 30" and sg: "tc_sgn tc = 1 \<or> tc_sgn tc = - 1"
    using assms by (simp_all add: smpte_norm_def)
  have sb: "0 \<le> tc_secs tc * tc_fps tc" "tc_secs tc * tc_fps tc \<le> 60 * 1000"
    using s fps mult_mono [of "tc_secs tc" 60 "tc_fps tc" 1000] by simp_all
  have mb: "0 \<le> tc_mins tc * tc_fps tc" "tc_mins tc * tc_fps tc \<le> 60 * 1000"
    using m fps mult_mono [of "tc_mins tc" 60 "tc_fps tc" 1000] by simp_all
  have hb: "0 \<le> tc_hours tc * tc_fps tc" "tc_hours tc * tc_fps tc \<le> 2 ^ 30 * 1000"
    using h fps mult_mono [of "tc_hours tc" "2 ^ 30" "tc_fps tc" 1000] by simp_all
  define x where "x = tc_frames tc + tc_secs tc * tc_fps tc + tc_mins tc * tc_fps tc * 60
      + tc_hours tc * tc_fps tc * 60 * 60"
  have xb: "0 \<le> x" "x < 2 ^ 62" using sb mb hb f fps by (simp_all add: x_def)
  have "smpte_evaluate tc time_of = time_of (i64 (tc_sgn tc * x))"
    using sb mb hb f fps by (simp add: smpte_evaluate_def Let_def i64_id x_def)
  also have "i64 (tc_sgn tc * x) = tc_sgn tc * x" using xb sg by (intro i64_id) auto
  also have "tc_sgn tc * x = smpte_count tc" by (simp add: smpte_count_def x_def algebra_simps)
  finally show ?thesis .
qed

subsection \<open>Properties\<close>

definition set_field :: "digxel \<Rightarrow> int \<Rightarrow> SmpteTC \<Rightarrow> SmpteTC" where
  "set_field d n tc = (case d of Hours \<Rightarrow> tc\<lparr>tc_hours := n\<rparr> | Mins \<Rightarrow> tc\<lparr>tc_mins := n\<rparr>
     | Secs \<Rightarrow> tc\<lparr>tc_secs := n\<rparr> | Frames \<Rightarrow> tc\<lparr>tc_frames := n\<rparr>)"

text \<open>C39: Assigning any number to one field of a normalised timecode ends, with all fields back in
  their range, and the timecode denotes the count one gets by replacing that one field: overflow
  is carried to the higher fields, and a negative result flips the sign.\<close>

theorem field_assignment_normalises:
  assumes "smpte_norm tc" "\<bar>n\<bar> \<le> 2 ^ 30" "tc_hours tc \<le> 2 ^ 20"
  shows "\<exists>tc'. assign smpte_fuel d tc n = Some tc' \<and> smpte_norm tc' \<and> tc_fps tc' = tc_fps tc
    \<and> smpte_count tc' = smpte_count (set_field d n tc)"
  using assms assign_hours [OF assms(1), of n smpte_fuel] assign_mins [OF assms(1), of n smpte_fuel]
    assign_secs [OF assms(1), of n smpte_fuel] assign_frames [OF assms(1), of n smpte_fuel]
  by (cases d) (auto simp: assign_spec_def set_field_def smpte_fuel_def)

theorem field_assignment_normalises_witness:
  "\<exists>tc'. assign smpte_fuel Secs \<lparr>tc_fps = 25, tc_hours = 0, tc_mins = 0, tc_secs = 2, tc_frames = 3, tc_sgn = 1\<rparr> (- 1)
    = Some tc' \<and> smpte_count tc' = - 22"
  using field_assignment_normalises
    [of "\<lparr>tc_fps = 25, tc_hours = 0, tc_mins = 0, tc_secs = 2, tc_frames = 3, tc_sgn = 1\<rparr>" "- 1" Secs]
  by (auto simp: smpte_norm_def smpte_count_def set_field_def)

text \<open>Rebuilding a timecode from a time and evaluating it gives the time quantised to the grid;
  the timecode in between is normalised.\<close>

theorem smpte_roundtrip:
  assumes "0 < tc_fps tc" "tc_fps tc < 1000" "\<bar>gridPoint q t\<bar> \<le> 2 ^ 30"
  shows "\<exists>tc'. smpte_rebuild tc (gridPoint q) t = Some tc' \<and> smpte_norm tc'
    \<and> smpte_evaluate tc' (timeOf q) = materialise q t"
  using smpte_rebuild_count [OF assms(1,2), of "gridPoint q" t] assms(3)
  by (auto simp: smpte_evaluate_count materialise_def)

theorem smpte_roundtrip_witness:
  "\<exists>tc'. smpte_rebuild \<lparr>tc_fps = 25, tc_hours = 0, tc_mins = 0, tc_secs = 0, tc_frames = 0, tc_sgn = 1\<rparr>
      (gridPoint \<lparr>ffq_origin = 0, ffq_raster = 40000\<rparr>) 100000 = Some tc'
    \<and> smpte_evaluate tc' (timeOf \<lparr>ffq_origin = 0, ffq_raster = 40000\<rparr>)
      = materialise \<lparr>ffq_origin = 0, ffq_raster = 40000\<rparr> 100000"
proof -
  have "gridPoint \<lparr>ffq_origin = 0, ffq_raster = 40000\<rparr> 100000 = 2"
    using gridPoint_floor [of "\<lparr>ffq_origin = 0, ffq_raster = 40000\<rparr>" 100000]
    by (simp add: quantiser_ok_def time_limits)
  then show ?thesis
    using smpte_roundtrip [of "\<lparr>tc_fps = 25, tc_hours = 0, tc_mins = 0, tc_secs = 0, tc_frames = 0, tc_sgn = 1\<rparr>"
        "\<lparr>ffq_origin = 0, ffq_raster = 40000\<rparr>" 100000]
    by auto
qed

text \<open>The increment moves a timecode to the next frame and the decrement to the previous one,
  across all field limits and across zero.\<close>

theorem smpte_step:
  assumes "smpte_norm tc" "tc_hours tc \<le> 2 ^ 20"
  shows "(\<exists>tc'. smpte_increment tc = Some tc' \<and> smpte_norm tc' \<and> smpte_count tc' = smpte_count tc + 1)
    \<and> (\<exists>tc'. smpte_decrement tc = Some tc' \<and> smpte_norm tc' \<and> smpte_count tc' = smpte_count tc - 1)"
proof -
  have sgn: "tc_sgn tc = 1 \<or> tc_sgn tc = - 1" and f: "0 \<le> tc_frames tc" "tc_frames tc < 1000"
    using assms(1) by (auto simp: smpte_norm_def)
  have i: "i32 (tc_frames tc + tc_sgn tc) = tc_frames tc + tc_sgn tc"
    "i32 (tc_frames tc - tc_sgn tc) = tc_frames tc - tc_sgn tc" using sgn f by (auto simp: i32_id)
  have "assign_spec (assign smpte_fuel Frames tc n) (tc\<lparr>tc_frames := n\<rparr>)" if "\<bar>n\<bar> \<le> 1000" for n
    by (rule assign_frames [OF assms(1) _ assms(2)]) (use that in \<open>simp_all add: smpte_fuel_def\<close>)
  then have a: "assign_spec (smpte_increment tc) (tc\<lparr>tc_frames := tc_frames tc + tc_sgn tc\<rparr>)"
    "assign_spec (smpte_decrement tc) (tc\<lparr>tc_frames := tc_frames tc - tc_sgn tc\<rparr>)"
    unfolding smpte_increment_def smpte_decrement_def i using sgn f by auto
  have "smpte_count (tc\<lparr>tc_frames := tc_frames tc + tc_sgn tc\<rparr>) = smpte_count tc + 1"
    "smpte_count (tc\<lparr>tc_frames := tc_frames tc - tc_sgn tc\<rparr>) = smpte_count tc - 1"
    using sgn by (auto simp: smpte_count_def)
  with a show ?thesis by (auto simp: assign_spec_def)
qed

theorem smpte_step_witness:
  "\<exists>tc'. smpte_decrement \<lparr>tc_fps = 25, tc_hours = 0, tc_mins = 0, tc_secs = 0, tc_frames = 0, tc_sgn = 1\<rparr> = Some tc'
    \<and> smpte_count tc' = - 1"
proof -
  let ?tc = "\<lparr>tc_fps = 25, tc_hours = 0, tc_mins = 0, tc_secs = 0, tc_frames = 0, tc_sgn = 1\<rparr>"
  have "smpte_norm ?tc" "tc_hours ?tc \<le> 2 ^ 20" "smpte_count ?tc = 0" by (simp_all add: smpte_norm_def smpte_count_def)
  then show ?thesis using smpte_step [of ?tc] by auto
qed

end
