(* ===== verification/ActivityLang.thy ===== *)
theory ActivityLang
  imports TimeFields
begin

text \<open>
  Render activities: the records of \<open>vault/gear/activity.hpp\<close>, their activation and dispatch,
  and the execution of chains in \<open>vault/gear/activity-lang.hpp\<close>. Activities are linked by
  pointers and changed in place, so the model has an explicit store: a list of records, an
  address being a position. The execution context a chain is run with (post, work, done,
  tick, clock), the job functors and the hooks are operations of the record \<open>exe\<close>; the locale
  \<open>exec_context\<close> states that they may extend the store and change activity data but neither
  relink nor retype an activity.
\<close>

subsection \<open>Activity records\<close>

datatype Proc = PASS | SKIP | WAIT | KICK | HALT

datatype Verb = INVOKE | WORKSTART | WORKSTOP | NOTIFY | GATE | POST | FEED | HOOK | TICK

type_synonym addr = nat
type_synonym functor_id = nat
type_synonym hook_id = nat

text \<open>The union \<open>ArgumentData\<close>, tagged by the member in use.\<close>

datatype ArgumentData =
    Feed int int
  | Timing gavl_time_t nat
  | Callback "hook_id option" nat
  | Condition int gavl_time_t
  | TimeWindow gavl_time_t gavl_time_t
  | Invocation "functor_id option" gavl_time_t
  | Notification "addr option" gavl_time_t

record Activity =
  verb :: Verb
  next_act :: "addr option"
  act_data :: ArgumentData

text \<open>Reading an \<open>Instant\<close> builds a \<open>TimeValue\<close>, which limits it to the time domain.\<close>

definition instant_time :: "gavl_time_t \<Rightarrow> gavl_time_t" where
  "instant_time microTick = TimeValue_raw microTick"

definition defaultArg :: "Verb \<Rightarrow> ArgumentData" where
  "defaultArg v =
     (case v of INVOKE \<Rightarrow> Invocation None Time_MIN
      | WORKSTART \<Rightarrow> Timing Time_MAX 0
      | WORKSTOP \<Rightarrow> Timing Time_MAX 0
      | NOTIFY \<Rightarrow> Notification None 0
      | GATE \<Rightarrow> Condition 1 Time_MAX
      | POST \<Rightarrow> TimeWindow Time_MIN Time_MAX
      | FEED \<Rightarrow> Feed 0 0
      | HOOK \<Rightarrow> Callback None 0
      | TICK \<Rightarrow> Feed 0 0)"

definition Activity_verb :: "Verb \<Rightarrow> Activity" where
  "Activity_verb v = \<lparr>verb = v, next_act = None, act_data = defaultArg v\<rparr>"

definition Activity_feed :: "int \<Rightarrow> int \<Rightarrow> Activity" where
  "Activity_feed o1 o2 = (Activity_verb FEED)\<lparr>act_data := Feed o1 o2\<rparr>"

definition Activity_invoke :: "functor_id \<Rightarrow> gavl_time_t \<Rightarrow> addr \<Rightarrow> Activity" where
  "Activity_invoke job nominalTime feed =
     (Activity_verb INVOKE)\<lparr>act_data := Invocation (Some job) nominalTime, next_act := Some feed\<rparr>"

definition Activity_notify :: "addr option \<Rightarrow> gavl_time_t \<Rightarrow> Activity" where
  "Activity_notify target limitWhen = (Activity_verb NOTIFY)\<lparr>act_data := Notification target limitWhen\<rparr>"

definition Activity_gate :: "int \<Rightarrow> gavl_time_t \<Rightarrow> Activity" where
  "Activity_gate expectNotifications dl =
     (Activity_verb GATE)\<lparr>act_data := Condition expectNotifications dl\<rparr>"

definition Activity_post :: "gavl_time_t \<Rightarrow> gavl_time_t \<Rightarrow> addr option \<Rightarrow> Activity" where
  "Activity_post start after followUp =
     \<lparr>verb = POST, next_act = followUp, act_data = TimeWindow start after\<rparr>"

definition Activity_hook :: "hook_id \<Rightarrow> nat \<Rightarrow> Activity" where
  "Activity_hook callback arg = (Activity_verb HOOK)\<lparr>act_data := Callback (Some callback) arg\<rparr>"

definition showVerb :: "Verb \<Rightarrow> string" where
  "showVerb v = (case v of INVOKE \<Rightarrow> ''INVOKE'' | WORKSTART \<Rightarrow> ''WORKSTART'' | WORKSTOP \<Rightarrow> ''WORKSTOP''
     | NOTIFY \<Rightarrow> ''NOTIFY'' | GATE \<Rightarrow> ''GATE'' | POST \<Rightarrow> ''POST'' | FEED \<Rightarrow> ''FEED'' | HOOK \<Rightarrow> ''HOOK''
     | TICK \<Rightarrow> ''TICK'')"

subsection \<open>The gate condition\<close>

fun isDead :: "ArgumentData \<Rightarrow> gavl_time_t \<Rightarrow> bool" where
  "isDead (Condition rest dead) now \<longleftrightarrow> instant_time dead \<le> now"
| "isDead _ now \<longleftrightarrow> False"

fun isHold :: "ArgumentData \<Rightarrow> bool" where
  "isHold (Condition rest dead) \<longleftrightarrow> rest > 0"
| "isHold _ \<longleftrightarrow> False"

definition isFree :: "ArgumentData \<Rightarrow> gavl_time_t \<Rightarrow> bool" where
  "isFree c now \<longleftrightarrow> \<not> (isHold c \<or> isDead c now)"

fun lockPermanently :: "ArgumentData \<Rightarrow> ArgumentData" where
  "lockPermanently (Condition rest dead) = Condition rest Time_MIN"
| "lockPermanently d = d"

definition constrainedStart :: "Activity \<Rightarrow> gavl_time_t \<Rightarrow> gavl_time_t" where
  "constrainedStart act start =
     (case (verb act, act_data act) of (POST, TimeWindow life dead) \<Rightarrow> max start (instant_time life) | _ \<Rightarrow> start)"

definition constrainedDeath :: "Activity \<Rightarrow> gavl_time_t \<Rightarrow> gavl_time_t" where
  "constrainedDeath act death =
     (case (verb act, act_data act) of (POST, TimeWindow life dead) \<Rightarrow> min death (instant_time dead) | _ \<Rightarrow> death)"

text \<open>A notification received by a gate: the verdict, and the gate's data afterwards.\<close>

definition receiveGateNotification :: "ArgumentData \<Rightarrow> gavl_time_t \<Rightarrow> (Proc \<times> ArgumentData) result" where
  "receiveGateNotification d now =
     (case d of Condition rest dead \<Rightarrow>
        if rest > 0
        then let d' = Condition (rest - 1) dead
             in if isFree d' now then Inr (PASS, lockPermanently d') else Inr (SKIP, d')
        else Inr (SKIP, d)
      | _ \<Rightarrow> Inl (Err Assertion ''GATE == verb''))"

definition checkGate :: "ArgumentData \<Rightarrow> gavl_time_t \<Rightarrow> Proc result" where
  "checkGate d now =
     (case d of Condition rest dead \<Rightarrow>
        if isDead d now then Inr SKIP else if isHold d then Inr SKIP else Inr PASS
      | _ \<Rightarrow> Inl (Err Assertion ''GATE == verb''))"

text \<open>The verdicts of a gate on a sequence of notifications, given by their times.\<close>

fun notify_all :: "ArgumentData \<Rightarrow> gavl_time_t list \<Rightarrow> Proc list result" where
  "notify_all d [] = Inr []"
| "notify_all d (t # ts) =
     bind_result (receiveGateNotification d t) (\<lambda>(p, d').
       bind_result (notify_all d' ts) (\<lambda>ps. Inr (p # ps)))"

lemma locked_gate_skips:
  "Time_MIN \<le> now \<Longrightarrow> checkGate (Condition rest Time_MIN) now = Inr SKIP"
  by (simp add: checkGate_def instant_time_def TimeValue_raw_def time_limits)

lemma notify_all_empty_gate:
  "rest \<le> 0 \<Longrightarrow> notify_all (Condition rest dead) ts = Inr (replicate (length ts) SKIP)"
  by (induction ts) (auto simp: receiveGateNotification_def)

lemma notify_all_open:
  assumes "\<forall>t \<in> set ts. t < instant_time dead"
  shows "notify_all (Condition (int (Suc k)) dead) ts
    = Inr (take (length ts) (replicate k SKIP @ [PASS] @ replicate (length ts - Suc k) SKIP))"
  using assms
proof (induction ts arbitrary: k)
  case Nil
  then show ?case by simp
next
  case (Cons t ts)
  show ?case
  proof (cases k)
    case 0
    have "isFree (Condition 0 dead) t" using Cons.prems by (simp add: isFree_def)
    then have "receiveGateNotification (Condition (int (Suc k)) dead) t = Inr (PASS, Condition 0 Time_MIN)"
      by (simp add: receiveGateNotification_def 0)
    then show ?thesis by (simp add: notify_all_empty_gate 0)
  next
    case (Suc j)
    have "receiveGateNotification (Condition (int (Suc k)) dead) t = Inr (SKIP, Condition (int (Suc j)) dead)"
      by (simp add: receiveGateNotification_def Suc isFree_def Let_def)
    then show ?thesis using Cons.IH [of j] Cons.prems by (simp add: Suc)
  qed
qed

lemma count_list_replicate_other: "x \<noteq> y \<Longrightarrow> count_list (replicate n x) y = 0"
  by (induction n) auto

text \<open>Whatever the times are, a gate lets at most one of its notifications pass.\<close>

lemma notify_all_at_most_once:
  "notify_all (Condition rest dead) ts = Inr ps \<Longrightarrow> count_list ps PASS \<le> 1"
proof (induction ts arbitrary: rest ps)
  case Nil
  then show ?case by simp
next
  case (Cons t ts)
  show ?case
  proof (cases "rest > 0 \<and> isFree (Condition (rest - 1) dead) t")
    case True
    then have "rest - 1 \<le> 0" by (simp add: isFree_def)
    then show ?thesis using Cons.prems True
      by (auto simp: receiveGateNotification_def notify_all_empty_gate bind_result_Inr_iff
          count_list_replicate_other)
  next
    case False
    then obtain r' where "receiveGateNotification (Condition rest dead) t = Inr (SKIP, Condition r' dead)"
      by (cases "rest > 0") (auto simp: receiveGateNotification_def Let_def)
    then show ?thesis using Cons by (auto simp: bind_result_Inr_iff)
  qed
qed

subsection \<open>The store and the execution context\<close>

record 's world =
  w_heap :: "Activity list"
  w_ext :: 's

definition deref :: "'s world \<Rightarrow> addr \<Rightarrow> Activity result" where
  "deref w a = (if a < length (w_heap w) then Inr (w_heap w ! a) else Inl (Err Fatal ''dangling pointer''))"

definition store :: "'s world \<Rightarrow> addr \<Rightarrow> Activity \<Rightarrow> 's world" where
  "store w a act = w\<lparr>w_heap := (w_heap w)[a := act]\<rparr>"

definition alloc :: "'s world \<Rightarrow> Activity \<Rightarrow> addr \<times> 's world" where
  "alloc w act = (length (w_heap w), w\<lparr>w_heap := w_heap w @ [act]\<rparr>)"

record job_param =
  nominalTime :: gavl_time_t
  invoKey :: "int \<times> int"

type_synonym 's step = "'s world \<Rightarrow> (Proc \<times> 's world) result"

record 's exe =
  ex_post :: "gavl_time_t \<Rightarrow> gavl_time_t \<Rightarrow> addr \<Rightarrow> 's step"
  ex_work :: "gavl_time_t \<Rightarrow> nat \<Rightarrow> 's world \<Rightarrow> 's world result"
  ex_done :: "gavl_time_t \<Rightarrow> nat \<Rightarrow> 's world \<Rightarrow> 's world result"
  ex_tick :: "gavl_time_t \<Rightarrow> 's step"
  ex_clock :: "'s \<Rightarrow> gavl_time_t \<times> 's"
  ex_job :: "functor_id \<Rightarrow> job_param \<Rightarrow> 's world \<Rightarrow> bool \<times> Activity list \<times> 's"
  ex_hook_activation :: "hook_id \<Rightarrow> gavl_time_t \<Rightarrow> 's \<Rightarrow> Proc \<times> 's"
  ex_hook_notify :: "hook_id \<Rightarrow> gavl_time_t \<Rightarrow> 's \<Rightarrow> Proc \<times> 's"
  ex_hook_deadline :: "hook_id \<Rightarrow> gavl_time_t"

definition getSchedTime :: "'s exe \<Rightarrow> 's world \<Rightarrow> gavl_time_t \<times> 's world" where
  "getSchedTime ex w = (case ex_clock ex (w_ext w) of (t, s) \<Rightarrow> (t, w\<lparr>w_ext := s\<rparr>))"

subsection \<open>Activation of a single activity\<close>

text \<open>
  \<open>ex_job\<close> answers whether the job threw (the exception is logged and turned into \<open>HALT\<close>), the
  activities the job allocated, and the external state afterwards.
\<close>

definition next_feed :: "'s world \<Rightarrow> Activity \<Rightarrow> Activity result" where
  "next_feed w act =
     bind_result (case next_act act of None \<Rightarrow> Inl (Err Assertion ''next'') | Some a \<Rightarrow> deref w a) (\<lambda>feed.
     bind_result (require (verb feed = FEED) ''next->verb == FEED'') (\<lambda>_. Inr feed))"

definition invocation_data :: "Activity \<Rightarrow> (functor_id \<times> gavl_time_t) result" where
  "invocation_data act =
     (case act_data act of Invocation (Some task) time \<Rightarrow> Inr (task, time)
      | _ \<Rightarrow> Inl (Err Assertion ''data.invocation.task''))"

definition feed_data :: "Activity \<Rightarrow> (int \<times> int) result" where
  "feed_data act = (case act_data act of Feed one two \<Rightarrow> Inr (one, two) | _ \<Rightarrow> Inl (Err Assertion ''data.feed''))"

definition invokeFunktor :: "'s exe \<Rightarrow> Activity \<Rightarrow> 's step" where
  "invokeFunktor ex act w =
     bind_result (next_feed w act) (\<lambda>feed1.
     bind_result (next_feed w feed1) (\<lambda>feed2.
     bind_result (invocation_data act) (\<lambda>(task, time).
     bind_result (feed_data feed1) (\<lambda>key.
       let r = ex_job ex task \<lparr>nominalTime = instant_time time, invoKey = key\<rparr> w
       in Inr (if fst r then HALT else PASS,
               w\<lparr>w_heap := w_heap w @ fst (snd r), w_ext := snd (snd r)\<rparr>)))))"

definition signalStart :: "'s exe \<Rightarrow> Activity \<Rightarrow> gavl_time_t \<Rightarrow> 's step" where
  "signalStart ex act now w =
     (case act_data act of
        Timing inst quality \<Rightarrow> bind_result (ex_work ex now quality w) (\<lambda>w'. Inr (PASS, w'))
      | _ \<Rightarrow> Inl (Err Assertion ''timing data''))"

definition signalStop :: "'s exe \<Rightarrow> Activity \<Rightarrow> gavl_time_t \<Rightarrow> 's step" where
  "signalStop ex act now w =
     (case act_data act of
        Timing inst quality \<Rightarrow> bind_result (ex_done ex now quality w) (\<lambda>w'. Inr (PASS, w'))
      | _ \<Rightarrow> Inl (Err Assertion ''timing data''))"

definition postSelf :: "'s exe \<Rightarrow> addr \<Rightarrow> Activity \<Rightarrow> gavl_time_t \<Rightarrow> 's step" where
  "postSelf ex a act now w =
     bind_result (require (next_act act \<noteq> None) ''next'') (\<lambda>_.
       (case (verb act, act_data act) of
          (POST, TimeWindow life dead) \<Rightarrow> ex_post ex (instant_time life) (instant_time dead) a w
        | _ \<Rightarrow> ex_post ex now Time_MAX a w))"

definition postNotify :: "'s exe \<Rightarrow> Activity \<Rightarrow> gavl_time_t \<Rightarrow> 's step" where
  "postNotify ex act now w =
     (case act_data act of
        Notification (Some target) timing \<Rightarrow>
          bind_result (deref w target) (\<lambda>tgt.
            (case (verb tgt, act_data tgt) of
               (GATE, Condition rest dead) \<Rightarrow> ex_post ex (instant_time timing) (instant_time dead) target w
             | (HOOK, Callback (Some hook) arg) \<Rightarrow>
                 ex_post ex (instant_time timing) (ex_hook_deadline ex hook) target w
             | (HOOK, _) \<Rightarrow> Inl (Err Assertion ''not target->is(HOOK) or target->data.callback.hook'')
             | _ \<Rightarrow> ex_post ex now Time_MAX target w))
      | _ \<Rightarrow> Inl (Err Assertion ''target''))"

definition callHook :: "'s exe \<Rightarrow> Activity \<Rightarrow> gavl_time_t \<Rightarrow> 's step" where
  "callHook ex act now w =
     (case act_data act of
        Callback (Some hook) arg \<Rightarrow>
          (case ex_hook_activation ex hook now (w_ext w) of (p, s) \<Rightarrow> Inr (p, w\<lparr>w_ext := s\<rparr>))
      | _ \<Rightarrow> Inr (PASS, w))"

definition notifyHook :: "'s exe \<Rightarrow> Activity \<Rightarrow> gavl_time_t \<Rightarrow> 's step" where
  "notifyHook ex act now w =
     (case act_data act of
        Callback (Some hook) arg \<Rightarrow>
          (case ex_hook_notify ex hook now (w_ext w) of (p, s) \<Rightarrow> Inr (p, w\<lparr>w_ext := s\<rparr>))
      | _ \<Rightarrow> Inr (PASS, w))"

definition activate :: "'s exe \<Rightarrow> addr \<Rightarrow> gavl_time_t \<Rightarrow> 's step" where
  "activate ex a now w =
     bind_result (deref w a) (\<lambda>act.
       (case verb act of
          INVOKE \<Rightarrow> invokeFunktor ex act w
        | WORKSTART \<Rightarrow> signalStart ex act now w
        | WORKSTOP \<Rightarrow> signalStop ex act now w
        | NOTIFY \<Rightarrow> postNotify ex act now w
        | POST \<Rightarrow> postSelf ex a act now w
        | GATE \<Rightarrow> bind_result (checkGate (act_data act) now) (\<lambda>p. Inr (p, w))
        | FEED \<Rightarrow> Inr (PASS, w)
        | HOOK \<Rightarrow> callHook ex act now w
        | TICK \<Rightarrow> ex_tick ex now w))"

definition dispatch :: "'s exe \<Rightarrow> addr \<Rightarrow> gavl_time_t \<Rightarrow> 's step" where
  "dispatch ex a now w =
     bind_result (deref w a) (\<lambda>act.
       (case verb act of
          POST \<Rightarrow> Inr (PASS, w)
        | FEED \<Rightarrow> Inr (PASS, w)
        | GATE \<Rightarrow> bind_result (receiveGateNotification (act_data act) now) (\<lambda>(p, d).
                    Inr (p, store w a (act\<lparr>act_data := d\<rparr>)))
        | HOOK \<Rightarrow> notifyHook ex act now w
        | _ \<Rightarrow> activate ex a now w))"

subsection \<open>Execution of chains\<close>

partial_function (option) activateLoop ::
  "'s exe \<Rightarrow> addr option \<Rightarrow> Proc \<Rightarrow> 's world \<Rightarrow> (Proc \<times> 's world) result option" where
  "activateLoop ex chain res w =
     (case chain of
        None \<Rightarrow> Some (Inr (res, w))
      | Some a \<Rightarrow>
          if res \<noteq> PASS then Some (Inr (res, w))
          else case getSchedTime ex w of (now, w1) \<Rightarrow>
               (case activate ex a now w1 of
                  Inl e \<Rightarrow> Some (Inl e)
                | Inr (res', w2) \<Rightarrow>
                    (case deref w2 a of
                       Inl e \<Rightarrow> Some (Inl e)
                     | Inr act \<Rightarrow> activateLoop ex (next_act act) res' w2)))"

definition skip_handled :: "Proc \<Rightarrow> Proc" where
  "skip_handled p = (if p = SKIP then PASS else p)"

lemma skip_handled_neq [simp]: "skip_handled p \<noteq> SKIP"
  by (simp add: skip_handled_def)

definition activateChain :: "'s exe \<Rightarrow> addr option \<Rightarrow> 's world \<Rightarrow> (Proc \<times> 's world) result option" where
  "activateChain ex chain w =
     map_option (map_sum id (map_prod skip_handled id)) (activateLoop ex chain PASS w)"

definition dispatchChain :: "'s exe \<Rightarrow> addr option \<Rightarrow> 's world \<Rightarrow> (Proc \<times> 's world) result option" where
  "dispatchChain ex chain w =
     (case chain of
        None \<Rightarrow> Some (Inr (PASS, w))
      | Some a \<Rightarrow>
          (case getSchedTime ex w of (now, w1) \<Rightarrow>
             (case dispatch ex a now w1 of
                Inl e \<Rightarrow> Some (Inl e)
              | Inr (res, w2) \<Rightarrow>
                  if res = PASS
                  then (case deref w2 a of Inl e \<Rightarrow> Some (Inl e) | Inr act \<Rightarrow> activateChain ex (next_act act) w2)
                  else Some (Inr (skip_handled res, w2)))))"

text \<open>
  What a context may do to the store: append activities and change the data of existing
  ones, but neither relink nor retype them.
\<close>

definition heap_ext :: "'s world \<Rightarrow> 's world \<Rightarrow> bool" where
  "heap_ext w w' \<longleftrightarrow> length (w_heap w) \<le> length (w_heap w') \<and>
     (\<forall>a < length (w_heap w). verb (w_heap w' ! a) = verb (w_heap w ! a)
        \<and> next_act (w_heap w' ! a) = next_act (w_heap w ! a))"

lemma heap_ext_refl [simp]: "heap_ext w w"
  by (simp add: heap_ext_def)

lemma heap_ext_trans: "heap_ext w w' \<Longrightarrow> heap_ext w' w'' \<Longrightarrow> heap_ext w w''"
  by (auto simp: heap_ext_def)

lemma heap_ext_same_heap: "w_heap w' = w_heap w \<Longrightarrow> heap_ext w w'"
  by (simp add: heap_ext_def)

lemma heap_ext_append: "w_heap w' = w_heap w @ as \<Longrightarrow> heap_ext w w'"
  by (simp add: heap_ext_def nth_append)

lemma heap_ext_store_data: "deref w a = Inr act \<Longrightarrow> heap_ext w (store w a (act\<lparr>act_data := d\<rparr>))"
  by (auto simp: heap_ext_def store_def deref_def nth_list_update split: if_splits)

text \<open>The addresses of a chain, in order; a chain is finite and ends in a null pointer.\<close>

fun chain_path :: "'s world \<Rightarrow> addr option \<Rightarrow> addr list \<Rightarrow> bool" where
  "chain_path w None as \<longleftrightarrow> as = []"
| "chain_path w (Some a) [] \<longleftrightarrow> False"
| "chain_path w (Some a) (b # bs) \<longleftrightarrow> a = b \<and> a < length (w_heap w) \<and> chain_path w (next_act (w_heap w ! a)) bs"

lemma chain_path_Some: "chain_path w (Some a) as \<Longrightarrow> \<exists>bs. as = a # bs \<and> a < length (w_heap w)
    \<and> chain_path w (next_act (w_heap w ! a)) bs"
  by (cases as) auto

lemma chain_path_ext: "heap_ext w w' \<Longrightarrow> chain_path w c as \<Longrightarrow> chain_path w' c as"
proof (induction as arbitrary: c)
  case Nil
  then show ?case by (cases c) auto
next
  case (Cons b bs)
  then show ?case by (cases c) (auto simp: heap_ext_def)
qed

locale exec_context =
  fixes ex :: "'s exe"
  assumes post_ext: "ex_post ex t d a w = Inr (p, w') \<Longrightarrow> heap_ext w w'"
    and work_ext: "ex_work ex t n w = Inr w' \<Longrightarrow> heap_ext w w'"
    and done_ext: "ex_done ex t n w = Inr w' \<Longrightarrow> heap_ext w w'"
    and tick_ext: "ex_tick ex t w = Inr (p, w') \<Longrightarrow> heap_ext w w'"
begin

lemmas context_ext = post_ext work_ext done_ext tick_ext

lemma clock_ext: "getSchedTime ex w = (t, w') \<Longrightarrow> heap_ext w w'"
  by (auto simp: getSchedTime_def heap_ext_same_heap split: prod.splits)

lemma invoke_ext: "invokeFunktor ex act w = Inr (p, w') \<Longrightarrow> heap_ext w w'"
  by (auto simp: invokeFunktor_def bind_result_Inr_iff heap_ext_append Let_def)

lemma signal_ext:
  "signalStart ex act now w = Inr (p, w') \<Longrightarrow> heap_ext w w'"
  "signalStop ex act now w = Inr (p, w') \<Longrightarrow> heap_ext w w'"
  by (auto simp: signalStart_def signalStop_def bind_result_Inr_iff
      split: ArgumentData.splits dest: work_ext done_ext)

lemma postSelf_ext: "postSelf ex a act now w = Inr (p, w') \<Longrightarrow> heap_ext w w'"
  by (auto simp: postSelf_def bind_result_Inr_iff
      split: ArgumentData.splits Verb.splits dest: post_ext)

lemma postNotify_ext: "postNotify ex act now w = Inr (p, w') \<Longrightarrow> heap_ext w w'"
  by (auto simp: postNotify_def bind_result_Inr_iff
      split: ArgumentData.splits Verb.splits option.splits dest: post_ext)

lemma hook_ext:
  "callHook ex act now w = Inr (p, w') \<Longrightarrow> heap_ext w w'"
  "notifyHook ex act now w = Inr (p, w') \<Longrightarrow> heap_ext w w'"
  by (auto simp: callHook_def notifyHook_def heap_ext_same_heap
      split: ArgumentData.splits option.splits prod.splits)

lemma activate_ext:
  assumes "activate ex a now w = Inr (p, w')"
  shows "heap_ext w w'"
proof -
  obtain act where act: "deref w a = Inr act" using assms by (auto simp: activate_def bind_result_Inr_iff)
  show ?thesis
    using assms
    by (cases "verb act") (auto simp: activate_def act bind_result_Inr_iff
        intro: invoke_ext signal_ext postSelf_ext postNotify_ext hook_ext tick_ext)
qed

lemma dispatch_ext:
  assumes "dispatch ex a now w = Inr (p, w')"
  shows "heap_ext w w'"
proof -
  obtain act where act: "deref w a = Inr act" using assms by (auto simp: dispatch_def bind_result_Inr_iff)
  show ?thesis
    using assms
    by (cases "verb act") (auto simp: dispatch_def act bind_result_Inr_iff
        intro: heap_ext_store_data [OF act] activate_ext hook_ext)
qed

text \<open>Running a finite chain returns, and leaves all links as they were.\<close>

lemma activateLoop_returns:
  "chain_path w c as \<Longrightarrow> \<exists>r. activateLoop ex c res w = Some r
     \<and> (\<forall>p w'. r = Inr (p, w') \<longrightarrow> heap_ext w w')"
proof (induction as arbitrary: c res w)
  case Nil
  then have "c = None" by (cases c) auto
  then show ?case by (simp add: activateLoop.simps)
next
  case (Cons b bs)
  then obtain a where c: "c = Some a" by (cases c) auto
  with Cons.prems have b: "b = a" "a < length (w_heap w)" and
    path: "chain_path w (next_act (w_heap w ! a)) bs" by auto
  show ?case
  proof (cases "res = PASS")
    case False
    then show ?thesis by (simp add: c activateLoop.simps)
  next
    case True
    obtain now w1 where t: "getSchedTime ex w = (now, w1)" by (cases "getSchedTime ex w") auto
    have e1: "heap_ext w w1" using t by (rule clock_ext)
    show ?thesis
    proof (cases "activate ex a now w1")
      case (Inl e)
      then show ?thesis using True t by (simp add: c activateLoop.simps [of ex "Some a"])
    next
      case (Inr r)
      obtain res' w2 where r: "r = (res', w2)" by (cases r) auto
      have e2: "heap_ext w w2" using e1 activate_ext [of a now w1 res' w2] Inr r heap_ext_trans by blast
      then have d: "deref w2 a = Inr (w_heap w2 ! a)" and n: "next_act (w_heap w2 ! a) = next_act (w_heap w ! a)"
        using b by (auto simp: heap_ext_def deref_def)
      have "chain_path w2 (next_act (w_heap w ! a)) bs" using chain_path_ext [OF e2 path] .
      from Cons.IH [OF this, of res'] obtain r' where
        r': "activateLoop ex (next_act (w_heap w ! a)) res' w2 = Some r'"
        and ext: "\<forall>p w'. r' = Inr (p, w') \<longrightarrow> heap_ext w2 w'" by blast
      have "activateLoop ex c res w = Some r'"
        using True t Inr r d n r' by (simp add: c activateLoop.simps [of ex "Some a"])
      then show ?thesis using ext e2 heap_ext_trans by blast
    qed
  qed
qed

lemma activateChain_returns:
  assumes "chain_path w c as"
  shows "\<exists>r. activateChain ex c w = Some r
     \<and> (\<forall>p w'. r = Inr (p, w') \<longrightarrow> p \<noteq> SKIP \<and> heap_ext w w')"
proof -
  from activateLoop_returns [OF assms, of PASS] obtain r where
    r: "activateLoop ex c PASS w = Some r" and ext: "\<forall>p w'. r = Inr (p, w') \<longrightarrow> heap_ext w w'" by blast
  show ?thesis
    using r ext by (cases r) (auto simp: activateChain_def)
qed

lemma dispatchChain_returns:
  assumes "chain_path w c as"
  shows "\<exists>r. dispatchChain ex c w = Some r
     \<and> (\<forall>p w'. r = Inr (p, w') \<longrightarrow> p \<noteq> SKIP \<and> heap_ext w w')"
proof (cases c)
  case None
  then show ?thesis by (simp add: dispatchChain_def)
next
  case (Some a)
  obtain bs where path: "a < length (w_heap w)" "chain_path w (next_act (w_heap w ! a)) bs"
    using assms chain_path_Some [of w a as] Some by auto
  obtain now w1 where t: "getSchedTime ex w = (now, w1)" by (cases "getSchedTime ex w") auto
  have e1: "heap_ext w w1" using t by (rule clock_ext)
  show ?thesis
  proof (cases "dispatch ex a now w1")
    case (Inl e)
    then show ?thesis using t by (simp add: Some dispatchChain_def)
  next
    case (Inr r)
    obtain res w2 where r: "r = (res, w2)" by (cases r) auto
    have e2: "heap_ext w w2" using e1 dispatch_ext [of a now w1 res w2] Inr r heap_ext_trans by blast
    then have d: "deref w2 a = Inr (w_heap w2 ! a)" and n: "next_act (w_heap w2 ! a) = next_act (w_heap w ! a)"
      using path by (auto simp: heap_ext_def deref_def)
    have "chain_path w2 (next_act (w_heap w2 ! a)) bs" using chain_path_ext [OF e2 path(2)] n by simp
    from activateChain_returns [OF this] obtain r' where
      r': "activateChain ex (next_act (w_heap w2 ! a)) w2 = Some r'"
      and ext: "\<forall>p w'. r' = Inr (p, w') \<longrightarrow> p \<noteq> SKIP \<and> heap_ext w2 w'" by blast
    show ?thesis
      using t Inr r d r' ext e2 heap_ext_trans
      by (cases "res = PASS") (fastforce simp: Some dispatchChain_def)+
  qed
qed

end

subsection \<open>Properties\<close>

text \<open>A gate lets at most one of any sequence of notifications pass, whenever they arrive; a
  chain behind a gate is thus activated at most once by notifications.\<close>

theorem gate_passes_at_most_once:
  assumes "notify_all (Condition rest dead) ts = Inr ps"
  shows "count_list ps PASS \<le> 1"
  using assms by (rule notify_all_at_most_once)

theorem gate_passes_at_most_once_witness:
  "\<exists>ps. notify_all (Condition 2 100) [1, 2, 3] = Inr ps \<and> count_list ps PASS \<le> 1"
proof -
  have "notify_all (Condition 2 100) [1, 2, 3] = Inr [SKIP, PASS, SKIP]" by code_simp
  then show ?thesis using gate_passes_at_most_once by blast
qed

text \<open>With all notifications before the deadline, a gate waiting for \<open>k + 1\<close> of them passes
  exactly the last one expected and skips every other.\<close>

theorem gate_opens_at_last_notification:
  assumes "\<forall>t \<in> set ts. t < instant_time dead" "k < length ts"
  shows "notify_all (Condition (int k + 1) dead) ts
    = Inr (replicate k SKIP @ [PASS] @ replicate (length ts - Suc k) SKIP)"
  using notify_all_open [OF assms(1), of k] assms(2) by (simp add: add.commute)

theorem gate_opens_at_last_notification_witness:
  "notify_all (Condition 2 100) [1, 2, 3] = Inr [SKIP, PASS, SKIP]"
proof -
  have "instant_time 100 = 100" by code_simp
  then show ?thesis using gate_opens_at_last_notification [of "[1, 2, 3]" 100 1] by (simp add: numeral_eq_Suc)
qed

end
