(* ===== verification/ActivityTerm.thy ===== *)
theory ActivityTerm
  imports ActivityLang
begin

text \<open>
  The builder for activity chains, \<open>vault/gear/activity-term.hpp\<close>, and the factory functions of
  \<open>ActivityLang\<close> in \<open>vault/gear/activity-lang.hpp\<close>. A term holds addresses of activities in the
  store; the allocator appends new records. Chains are rewired in place, so the lemmas here
  describe how the list of addresses of a chain changes. \<open>findTail\<close> follows links; its fuel is
  the size of the store, which no finite chain exceeds.
\<close>

subsection \<open>Changes of single activities\<close>

definition incDependencies :: "'s world \<Rightarrow> addr \<Rightarrow> 's world result" where
  "incDependencies w g =
     bind_result (deref w g) (\<lambda>act.
     bind_result (require (verb act = GATE) ''is (GATE)'') (\<lambda>_.
       case act_data act of
         Condition rest dead \<Rightarrow> Inr (store w g (act\<lparr>act_data := Condition (i32 (rest + 1)) dead\<rparr>))
       | _ \<Rightarrow> Inl (Err Assertion ''data.condition'')))"

definition setNotificationTarget :: "'s world \<Rightarrow> addr \<Rightarrow> addr option \<Rightarrow> gavl_time_t \<Rightarrow> 's world result" where
  "setNotificationTarget w a target limitStart =
     bind_result (deref w a) (\<lambda>act.
     bind_result (require (verb act = NOTIFY) ''is (NOTIFY)'') (\<lambda>_.
       Inr (store w a (act\<lparr>act_data := Notification target limitStart\<rparr>))))"

definition insert_after :: "'s world \<Rightarrow> addr \<Rightarrow> addr \<Rightarrow> 's world result" where
  "insert_after w anchor target =
     bind_result (deref w anchor) (\<lambda>an.
     bind_result (deref w target) (\<lambda>tg.
       let w1 = store w target (tg\<lparr>next_act := next_act an\<rparr>)
       in bind_result (deref w1 anchor) (\<lambda>an1. Inr (store w1 anchor (an1\<lparr>next_act := Some target\<rparr>)))))"

primrec find_tail :: "nat \<Rightarrow> 's world \<Rightarrow> addr \<Rightarrow> addr result" where
  "find_tail 0 w a = Inl (Err Fatal ''endless chain'')"
| "find_tail (Suc n) w a =
     bind_result (deref w a) (\<lambda>act. case next_act act of None \<Rightarrow> Inr a | Some b \<Rightarrow> find_tail n w b)"

definition findTail :: "'s world \<Rightarrow> addr \<Rightarrow> addr result" where
  "findTail w a = find_tail (length (w_heap w)) w a"

subsection \<open>The term and its wiring\<close>

datatype Template = CALC_JOB | LOAD_JOB | META_JOB

record Term =
  t_invoke :: "addr option"
  t_post :: "addr option"
  t_gate :: "addr option"
  t_callback :: "addr option"

record Job =
  job_functor :: functor_id
  job_nominal :: gavl_time_t
  job_key :: "int \<times> int"

definition the_addr :: "addr option \<Rightarrow> addr result" where
  "the_addr p = (case p of None \<Rightarrow> Inl (Err Assertion ''null pointer'') | Some a \<Rightarrow> Inr a)"

definition setupInvocation :: "Job \<Rightarrow> 's world \<Rightarrow> addr \<times> 's world" where
  "setupInvocation job w =
     (let (feed1, w1) = alloc w (Activity_feed (fst (job_key job)) (snd (job_key job)));
          (feed2, w2) = alloc w1 (Activity_verb FEED);
          w3 = w2\<lparr>w_heap := (w_heap w2)[feed1 := (w_heap w2 ! feed1)\<lparr>next_act := Some feed2\<rparr>]\<rparr>
      in alloc w3 (Activity_invoke (job_functor job) (TimeValue_raw (job_nominal job)) feed1))"

definition setupPost :: "gavl_time_t \<Rightarrow> gavl_time_t \<Rightarrow> addr \<Rightarrow> 's world \<Rightarrow> addr \<times> 's world" where
  "setupPost start dead followUp w = alloc w (Activity_post start dead (Some followUp))"

definition post_window :: "'s world \<Rightarrow> Term \<Rightarrow> (addr \<times> gavl_time_t \<times> gavl_time_t) result" where
  "post_window w t =
     bind_result (the_addr (t_post t)) (\<lambda>p.
     bind_result (deref w p) (\<lambda>act.
       case act_data act of TimeWindow life dead \<Rightarrow> Inr (p, instant_time life, instant_time dead)
       | _ \<Rightarrow> Inl (Err Assertion ''data.timeWindow'')))"

definition setupGate :: "Term \<Rightarrow> 's world \<Rightarrow> (Term \<times> 's world) result" where
  "setupGate t w =
     (if t_gate t \<noteq> None then Inr (t, w)
      else bind_result (post_window w t) (\<lambda>pw.
             let g = fst (alloc w (Activity_gate 0 (snd (snd pw))));
                 w1 = snd (alloc w (Activity_gate 0 (snd (snd pw))))
             in bind_result (insert_after w1 (fst pw) g) (\<lambda>w2. Inr (t\<lparr>t_gate := Some g\<rparr>, w2))))"

definition insertWorkBracket :: "Term \<Rightarrow> 's world \<Rightarrow> 's world result" where
  "insertWorkBracket t w =
     (let st = fst (alloc w (Activity_verb WORKSTART));
          w1 = snd (alloc w (Activity_verb WORKSTART));
          sp = fst (alloc w1 (Activity_verb WORKSTOP));
          w2 = snd (alloc w1 (Activity_verb WORKSTOP))
      in bind_result (the_addr (if t_gate t \<noteq> None then t_gate t else t_post t)) (\<lambda>anchor.
         bind_result (insert_after w2 anchor st) (\<lambda>w3.
         bind_result (deref w3 st) (\<lambda>s.
         bind_result (the_addr (next_act s)) (\<lambda>n.
         bind_result (findTail w3 n) (\<lambda>tl. insert_after w3 tl sp))))))"

definition severAsyncChain :: "Term \<Rightarrow> 's world \<Rightarrow> (Term \<times> 's world) result" where
  "severAsyncChain t w =
     (if t_callback t \<noteq> None then Inr (t, w)
      else bind_result (the_addr (t_invoke t)) (\<lambda>i.
           bind_result (deref w i) (\<lambda>inv.
           bind_result (the_addr (next_act inv)) (\<lambda>f1.
           bind_result (deref w f1) (\<lambda>feed1.
           bind_result (the_addr (next_act feed1)) (\<lambda>c.
           bind_result (deref w c) (\<lambda>cut.
           bind_result (require (verb cut = FEED) ''cut.is (FEED)'') (\<lambda>_.
           bind_result (require (next_act cut \<noteq> None) ''callback'') (\<lambda>_.
             Inr (t\<lparr>t_callback := next_act cut\<rparr>, store w c (cut\<lparr>next_act := None\<rparr>)))))))))))"

definition configureTemplate :: "Template \<Rightarrow> Term \<Rightarrow> 's world \<Rightarrow> (Term \<times> 's world) result" where
  "configureTemplate kind t w =
     (case kind of
        CALC_JOB \<Rightarrow> bind_result (setupGate t w) (\<lambda>r.
                      bind_result (insertWorkBracket (fst r) (snd r)) (\<lambda>w2. Inr (fst r, w2)))
      | LOAD_JOB \<Rightarrow> bind_result (insertWorkBracket t w) (severAsyncChain t)
      | META_JOB \<Rightarrow> Inr (t, w))"

definition Term_create :: "Template \<Rightarrow> gavl_time_t \<Rightarrow> gavl_time_t \<Rightarrow> Job \<Rightarrow> 's world \<Rightarrow> (Term \<times> 's world) result" where
  "Term_create kind start dead job w =
     (let i = fst (setupInvocation job w); w1 = snd (setupInvocation job w);
          p = fst (setupPost start dead i w1); w2 = snd (setupPost start dead i w1)
      in configureTemplate kind \<lparr>t_invoke = Some i, t_post = Some p, t_gate = None, t_callback = None\<rparr> w2)"

definition Term_post :: "Term \<Rightarrow> addr result" where
  "Term_post t = the_addr (t_post t)"

definition Term_callback :: "Term \<Rightarrow> addr result" where
  "Term_callback t = the_addr (t_callback t)"

definition notification_start :: "'s world \<Rightarrow> Term \<Rightarrow> bool \<Rightarrow> gavl_time_t result" where
  "notification_start w t unlimitedTime =
     (if unlimitedTime then Inr Time_MIN
      else bind_result (post_window w t) (\<lambda>pw. Inr (fst (snd pw))))"

definition expectNotification :: "Term \<Rightarrow> addr \<Rightarrow> bool \<Rightarrow> 's world \<Rightarrow> (Term \<times> 's world) result" where
  "expectNotification t notificationSrc unlimitedTime w =
     bind_result (deref w notificationSrc) (\<lambda>src.
     bind_result (require (verb src = NOTIFY) ''notificationSrc.is (NOTIFY)'') (\<lambda>_.
     bind_result (setupGate t w) (\<lambda>r.
     bind_result (the_addr (t_gate (fst r))) (\<lambda>g.
     bind_result (incDependencies (snd r) g) (\<lambda>w2.
     bind_result (notification_start w2 (fst r) unlimitedTime) (\<lambda>trigger.
     bind_result (setNotificationTarget w2 notificationSrc (Some g) trigger) (\<lambda>w3.
       Inr (fst r, w3))))))))"

definition appendNotificationTo :: "Term \<Rightarrow> Term \<Rightarrow> bool \<Rightarrow> 's world \<Rightarrow> (Term \<times> 's world) result" where
  "appendNotificationTo t targetTerm unlimitedTime w =
     (let success = fst (alloc w (Activity_verb NOTIFY)); w1 = snd (alloc w (Activity_verb NOTIFY))
      in bind_result (the_addr (if t_callback t \<noteq> None then t_callback t else t_invoke t)) (\<lambda>from.
         bind_result (findTail w1 from) (\<lambda>tl.
         bind_result (insert_after w1 tl success) (\<lambda>w2.
           expectNotification targetTerm success unlimitedTime w2))))"

definition requireDirectActivation :: "Term \<Rightarrow> 's world \<Rightarrow> (Term \<times> 's world) result" where
  "requireDirectActivation t w =
     (let trigger = fst (alloc w (Activity_verb NOTIFY)); w1 = snd (alloc w (Activity_verb NOTIFY))
      in bind_result (expectNotification t trigger False w1) (\<lambda>r.
         bind_result (the_addr (t_post (fst r))) (\<lambda>p.
         bind_result (insert_after (snd r) p trigger) (\<lambda>w3. Inr (fst r, w3)))))"

definition buildCalculationJob :: "Job \<Rightarrow> gavl_time_t \<Rightarrow> gavl_time_t \<Rightarrow> 's world \<Rightarrow> (Term \<times> 's world) result" where
  "buildCalculationJob job start deadline w = Term_create CALC_JOB start deadline job w"

definition buildAsyncLoadJob :: "Job \<Rightarrow> gavl_time_t \<Rightarrow> gavl_time_t \<Rightarrow> 's world \<Rightarrow> (Term \<times> 's world) result" where
  "buildAsyncLoadJob job start deadline w = Term_create LOAD_JOB start deadline job w"

definition buildMetaJob :: "Job \<Rightarrow> gavl_time_t \<Rightarrow> gavl_time_t \<Rightarrow> 's world \<Rightarrow> (Term \<times> 's world) result" where
  "buildMetaJob job start deadline w = Term_create META_JOB start deadline job w"

subsection \<open>Chains as lists of addresses\<close>

lemma deref_ok [simp]: "a < length (w_heap w) \<Longrightarrow> deref w a = Inr (w_heap w ! a)"
  by (simp add: deref_def)

lemma deref_eq_Inr: "deref w a = Inr act \<longleftrightarrow> a < length (w_heap w) \<and> act = w_heap w ! a"
  by (auto simp: deref_def)

lemma chain_path_bound: "chain_path w c as \<Longrightarrow> set as \<subseteq> {..<length (w_heap w)}"
proof (induction as arbitrary: c)
  case (Cons b bs)
  then show ?case by (cases c) auto
qed simp

lemma chain_path_unique: "chain_path w c as \<Longrightarrow> chain_path w c bs \<Longrightarrow> as = bs"
proof (induction as arbitrary: c bs)
  case Nil
  then show ?case by (cases c) auto
next
  case (Cons x xs)
  then show ?case by (cases c; cases bs) auto
qed

text \<open>The suffix of a chain starting at any of its members is a chain again.\<close>

lemma chain_path_suffix: "chain_path w c (xs @ a # ys) \<Longrightarrow> chain_path w (Some a) (a # ys)"
proof (induction xs arbitrary: c)
  case Nil
  then show ?case by (cases c) auto
next
  case (Cons x xs)
  then show ?case by (cases c) auto
qed

text \<open>A chain never visits an activity twice; otherwise it would be endless.\<close>

lemma chain_path_distinct: "chain_path w c as \<Longrightarrow> distinct as"
proof (induction as arbitrary: c)
  case (Cons b bs)
  then obtain p: "c = Some b" "chain_path w (next_act (w_heap w ! b)) bs" by (cases c) auto
  have "b \<notin> set bs"
  proof
    assume "b \<in> set bs"
    then obtain xs ys where bs: "bs = xs @ b # ys" by (auto simp: in_set_conv_decomp)
    have "chain_path w (Some b) (b # ys)" using chain_path_suffix p(2) bs by blast
    with Cons.prems p(1) have "b # ys = b # bs" using chain_path_unique by blast
    then show False using bs by simp
  qed
  then show ?case using Cons.IH [OF p(2)] by simp
qed simp

lemma chain_path_length: "chain_path w c as \<Longrightarrow> length as \<le> length (w_heap w)"
proof -
  assume p: "chain_path w c as"
  have "length as = card (set as)" using chain_path_distinct [OF p] by (simp add: distinct_card)
  also have "\<dots> \<le> card {..<length (w_heap w)}" by (rule card_mono) (use chain_path_bound [OF p] in auto)
  finally show ?thesis by simp
qed

lemma chain_path_last: "chain_path w c as \<Longrightarrow> as \<noteq> [] \<Longrightarrow> next_act (w_heap w ! last as) = None"
proof (induction as arbitrary: c)
  case (Cons b bs)
  then obtain p: "c = Some b" "chain_path w (next_act (w_heap w ! b)) bs" by (cases c) auto
  show ?case
  proof (cases "bs = []")
    case True
    then show ?thesis using p by (cases "next_act (w_heap w ! b)") auto
  next
    case False
    then show ?thesis using Cons.IH [OF p(2)] by simp
  qed
qed simp

lemma find_tail_path: "chain_path w (Some a) as \<Longrightarrow> length as \<le> n \<Longrightarrow> find_tail n w a = Inr (last as)"
proof (induction n arbitrary: a as)
  case 0
  then show ?case by (cases as) auto
next
  case (Suc n)
  then obtain bs where bs: "as = a # bs" "a < length (w_heap w)"
    "chain_path w (next_act (w_heap w ! a)) bs" using chain_path_Some by blast
  show ?case
  proof (cases "next_act (w_heap w ! a)")
    case None
    then show ?thesis using bs by simp
  next
    case (Some b)
    then have "bs \<noteq> []" using bs by auto
    then show ?thesis using Suc bs Some by simp
  qed
qed

lemma findTail_path: "chain_path w (Some a) as \<Longrightarrow> findTail w a = Inr (last as)"
  by (simp add: findTail_def find_tail_path chain_path_length)

text \<open>A chain depends only on the links of its members.\<close>

lemma chain_path_cong:
  assumes "\<forall>a \<in> set as. next_act (w_heap w' ! a) = next_act (w_heap w ! a)"
    and "length (w_heap w) \<le> length (w_heap w')" and "chain_path w c as"
  shows "chain_path w' c as"
  using assms
proof (induction as arbitrary: c)
  case Nil
  then show ?case by (cases c) auto
next
  case (Cons b bs)
  then show ?case by (cases c) auto
qed

lemma insert_after_ok:
  assumes "anchor < length (w_heap w)" "target < length (w_heap w)" "anchor \<noteq> target"
  shows "insert_after w anchor target = Inr (w\<lparr>w_heap := (w_heap w)
      [target := (w_heap w ! target)\<lparr>next_act := next_act (w_heap w ! anchor)\<rparr>,
       anchor := (w_heap w ! anchor)\<lparr>next_act := Some target\<rparr>]\<rparr>)"
  using assms by (simp add: insert_after_def store_def Let_def)

lemma insert_path:
  assumes "chain_path w c (xs @ a # ys)" and "t < length (w_heap w)" and "t \<notin> set (xs @ a # ys)"
    and "insert_after w a t = Inr w'"
  shows "chain_path w' c (xs @ a # t # ys)"
proof -
  have d: "distinct (xs @ a # ys)" using assms(1) by (rule chain_path_distinct)
  have a: "a < length (w_heap w)" using chain_path_bound [OF assms(1)] by auto
  have w': "w' = w\<lparr>w_heap := (w_heap w)
      [t := (w_heap w ! t)\<lparr>next_act := next_act (w_heap w ! a)\<rparr>,
       a := (w_heap w ! a)\<lparr>next_act := Some t\<rparr>]\<rparr>"
    using insert_after_ok [of a w t] assms a by auto
  have same: "next_act (w_heap w' ! b) = next_act (w_heap w ! b)" if "b \<noteq> a" "b \<noteq> t" for b
    using that by (simp add: w')
  have tail: "chain_path w (next_act (w_heap w ! a)) ys"
    using chain_path_suffix [OF assms(1)] by simp
  have "\<forall>b \<in> set ys. next_act (w_heap w' ! b) = next_act (w_heap w ! b)"
  proof
    fix b assume "b \<in> set ys"
    then have "b \<noteq> a" "b \<noteq> t" using d assms(3) by auto
    then show "next_act (w_heap w' ! b) = next_act (w_heap w ! b)" by (rule same)
  qed
  then have "chain_path w' (next_act (w_heap w ! a)) ys"
    by (rule chain_path_cong [OF _ _ tail]) (simp add: w')
  then have ins: "chain_path w' (Some a) (a # t # ys)" using a assms(2,3) by (auto simp: w' nth_list_update)
  have "chain_path w' c (ps @ a # t # ys)" if "chain_path w c (ps @ a # ys)" "distinct (ps @ a # ys)" "t \<notin> set ps" for ps c
    using that
  proof (induction ps arbitrary: c)
    case Nil
    then have "c = Some a" by (cases c) auto
    then show ?case using ins by simp
  next
    case (Cons p ps)
    then obtain q: "c = Some p" "p < length (w_heap w)" "chain_path w (next_act (w_heap w ! p)) (ps @ a # ys)"
      by (cases c) auto
    then show ?case using Cons same [of p] by (auto simp: w')
  qed
  then show ?thesis using assms d by simp
qed

subsection \<open>The three wirings\<close>

text \<open>A term is built on fresh records behind the existing ones; \<open>n\<close> is the former size of the store.\<close>

definition verbs :: "'s world \<Rightarrow> addr list \<Rightarrow> Verb list" where
  "verbs w as = map (\<lambda>a. verb (w_heap w ! a)) as"

lemmas term_defs = Term_create_def setupInvocation_def setupPost_def configureTemplate_def setupGate_def
  insertWorkBracket_def severAsyncChain_def post_window_def the_addr_def Term_post_def Term_callback_def
  alloc_def store_def deref_def require_def insert_after_def findTail_def
  Activity_feed_def Activity_verb_def Activity_invoke_def Activity_post_def Activity_gate_def defaultArg_def

lemma buildMetaJob_eq:
  "buildMetaJob job start dead w = (let n = length (w_heap w) in
     Inr (\<lparr>t_invoke = Some (n + 2), t_post = Some (n + 3), t_gate = None, t_callback = None\<rparr>,
          w\<lparr>w_heap := w_heap w @
            [\<lparr>verb = FEED, next_act = Some (n + 1), act_data = Feed (fst (job_key job)) (snd (job_key job))\<rparr>,
             \<lparr>verb = FEED, next_act = None, act_data = Feed 0 0\<rparr>,
             \<lparr>verb = INVOKE, next_act = Some n,
               act_data = Invocation (Some (job_functor job)) (TimeValue_raw (job_nominal job))\<rparr>,
             \<lparr>verb = POST, next_act = Some (n + 2), act_data = TimeWindow start dead\<rparr>]\<rparr>))"
  unfolding buildMetaJob_def
  by (simp add: term_defs nth_append list_update_append Let_def)

lemma buildCalculationJob_eq:
  "buildCalculationJob job start dead w = (let n = length (w_heap w) in
     Inr (\<lparr>t_invoke = Some (n + 2), t_post = Some (n + 3), t_gate = Some (n + 4), t_callback = None\<rparr>,
          w\<lparr>w_heap := w_heap w @
            [\<lparr>verb = FEED, next_act = Some (n + 1), act_data = Feed (fst (job_key job)) (snd (job_key job))\<rparr>,
             \<lparr>verb = FEED, next_act = Some (n + 6), act_data = Feed 0 0\<rparr>,
             \<lparr>verb = INVOKE, next_act = Some n,
               act_data = Invocation (Some (job_functor job)) (TimeValue_raw (job_nominal job))\<rparr>,
             \<lparr>verb = POST, next_act = Some (n + 4), act_data = TimeWindow start dead\<rparr>,
             \<lparr>verb = GATE, next_act = Some (n + 5), act_data = Condition 0 (instant_time dead)\<rparr>,
             \<lparr>verb = WORKSTART, next_act = Some (n + 2), act_data = Timing Time_MAX 0\<rparr>,
             \<lparr>verb = WORKSTOP, next_act = None, act_data = Timing Time_MAX 0\<rparr>]\<rparr>))"
  unfolding buildCalculationJob_def
  by (simp add: term_defs nth_append list_update_append Let_def)

lemma buildAsyncLoadJob_eq:
  "buildAsyncLoadJob job start dead w = (let n = length (w_heap w) in
     Inr (\<lparr>t_invoke = Some (n + 2), t_post = Some (n + 3), t_gate = None, t_callback = Some (n + 5)\<rparr>,
          w\<lparr>w_heap := w_heap w @
            [\<lparr>verb = FEED, next_act = Some (n + 1), act_data = Feed (fst (job_key job)) (snd (job_key job))\<rparr>,
             \<lparr>verb = FEED, next_act = None, act_data = Feed 0 0\<rparr>,
             \<lparr>verb = INVOKE, next_act = Some n,
               act_data = Invocation (Some (job_functor job)) (TimeValue_raw (job_nominal job))\<rparr>,
             \<lparr>verb = POST, next_act = Some (n + 4), act_data = TimeWindow start dead\<rparr>,
             \<lparr>verb = WORKSTART, next_act = Some (n + 2), act_data = Timing Time_MAX 0\<rparr>,
             \<lparr>verb = WORKSTOP, next_act = None, act_data = Timing Time_MAX 0\<rparr>]\<rparr>))"
  unfolding buildAsyncLoadJob_def
  by (simp add: term_defs nth_append list_update_append Let_def)

subsection \<open>Dependencies between terms\<close>

text \<open>A term whose gate is set up, with the gate's count and the planned start.\<close>

definition gated_term :: "'s world \<Rightarrow> Term \<Rightarrow> addr \<Rightarrow> int \<Rightarrow> gavl_time_t \<Rightarrow> gavl_time_t \<Rightarrow> bool" where
  "gated_term w t g rest dead start \<longleftrightarrow> t_gate t = Some g \<and> g < length (w_heap w)
     \<and> verb (w_heap w ! g) = GATE \<and> act_data (w_heap w ! g) = Condition rest dead
     \<and> (\<exists>p life d. t_post t = Some p \<and> p < length (w_heap w) \<and> p \<noteq> g
          \<and> act_data (w_heap w ! p) = TimeWindow life d \<and> start = instant_time life)"

text \<open>The address a term's follow-up actions are appended to.\<close>

definition term_end :: "Term \<Rightarrow> addr option" where
  "term_end t = (if t_callback t \<noteq> None then t_callback t else t_invoke t)"

lemma expectNotification_ok:
  assumes "gated_term w t g rest dead start" and "s < length (w_heap w)" and "verb (w_heap w ! s) = NOTIFY"
    and "is_i32 (rest + 1)"
  shows "expectNotification t s False w = Inr (t, w\<lparr>w_heap := (w_heap w)
     [g := (w_heap w ! g)\<lparr>act_data := Condition (rest + 1) dead\<rparr>,
      s := (w_heap w ! s)\<lparr>act_data := Notification (Some g) start\<rparr>]\<rparr>)"
proof -
  have gs: "g \<noteq> s" using assms by (auto simp: gated_term_def)
  have inc: "i32 (rest + 1) = rest + 1" using assms(4) by (simp add: is_i32_def i32_def)
  show ?thesis using assms(1,2,3) gs inc
    by (auto simp: expectNotification_def gated_term_def setupGate_def the_addr_def require_def
        incDependencies_def notification_start_def post_window_def setNotificationTarget_def store_def)
qed

lemma appendNotificationTo_ok:
  assumes "gated_term w t2 g rest dead start" and "chain_path w (term_end t) as" and "as \<noteq> []"
    and "g \<notin> set as" and "is_i32 (rest + 1)"
  defines "s \<equiv> length (w_heap w)"
  shows "appendNotificationTo t t2 False w = Inr (t2, w\<lparr>w_heap :=
     (w_heap w)[last as := (w_heap w ! last as)\<lparr>next_act := Some s\<rparr>,
                g := (w_heap w ! g)\<lparr>act_data := Condition (rest + 1) dead\<rparr>]
     @ [\<lparr>verb = NOTIFY, next_act = None, act_data = Notification (Some g) start\<rparr>]\<rparr>)"
proof -
  let ?n = "Activity_verb NOTIFY"
  let ?w1 = "w\<lparr>w_heap := w_heap w @ [?n]\<rparr>"
  let ?l = "last as"
  obtain f where f: "term_end t = Some f" using assms(2,3) by (cases "term_end t") auto
  have bound: "set as \<subseteq> {..<length (w_heap w)}" using assms(2) by (rule chain_path_bound)
  then have l: "?l < length (w_heap w)" using last_in_set [OF assms(3)] by auto
  have gl: "g \<noteq> ?l" using assms(3,4) by auto
  have e1: "heap_ext w ?w1" by (simp add: heap_ext_def nth_append)
  have tail: "findTail ?w1 f = Inr ?l"
    using chain_path_ext [OF e1 assms(2)] f by (intro findTail_path) simp
  have nl: "next_act (w_heap w ! ?l) = None" using chain_path_last assms(2,3) by blast
  let ?w2 = "w\<lparr>w_heap := (w_heap w)[?l := (w_heap w ! ?l)\<lparr>next_act := Some s\<rparr>] @ [?n]\<rparr>"
  have ins: "insert_after ?w1 ?l s = Inr ?w2"
    using insert_after_ok [of ?l ?w1 s] l nl
    by (simp add: s_def nth_append list_update_append Activity_verb_def)
  have gated: "gated_term ?w2 t2 g rest dead start"
    using assms(1) gl l
    by (auto simp: gated_term_def nth_append nth_list_update split: if_splits)
  have ex: "expectNotification t2 s False ?w2 = Inr (t2, ?w2\<lparr>w_heap := (w_heap ?w2)
     [g := (w_heap ?w2 ! g)\<lparr>act_data := Condition (rest + 1) dead\<rparr>,
      s := (w_heap ?w2 ! s)\<lparr>act_data := Notification (Some g) start\<rparr>]\<rparr>)"
    by (rule expectNotification_ok [OF gated _ _ assms(5)]) (simp_all add: s_def nth_append Activity_verb_def)
  have g: "g < length (w_heap w)" using assms(1) by (simp add: gated_term_def)
  have start_at: "bind_result (the_addr (if t_callback t \<noteq> None then t_callback t else t_invoke t)) F = F f" for F
    using f by (simp add: term_end_def the_addr_def)
  show ?thesis
    unfolding appendNotificationTo_def alloc_def Let_def fst_conv snd_conv start_at tail bind_result_simps
      s_def [symmetric] ins ex
    using g gl l by (simp add: s_def nth_append list_update_append Activity_verb_def)
qed

subsection \<open>Properties\<close>

text \<open>C38: The three factory functions wire the chains the activity language prescribes: a calculation
  job is POST, GATE, WORKSTART, INVOKE, FEED, FEED, WORKSTOP; a meta job has neither gate nor work
  bracket; an asynchronous load job ends after its FEEDs, with WORKSTOP as separate re-entrance
  point. Existing activities are left untouched.\<close>

theorem job_wiring:
  fixes w :: "'s world"
  shows "(\<exists>t w' as. buildCalculationJob job start dead w = Inr (t, w') \<and> chain_path w' (t_post t) as
      \<and> verbs w' as = [POST, GATE, WORKSTART, INVOKE, FEED, FEED, WORKSTOP] \<and> t_callback t = None
      \<and> take (length (w_heap w)) (w_heap w') = w_heap w)
    \<and> (\<exists>t w' as. buildMetaJob job start dead w = Inr (t, w') \<and> chain_path w' (t_post t) as
      \<and> verbs w' as = [POST, INVOKE, FEED, FEED]
      \<and> take (length (w_heap w)) (w_heap w') = w_heap w)
    \<and> (\<exists>t w' as c. buildAsyncLoadJob job start dead w = Inr (t, w') \<and> chain_path w' (t_post t) as
      \<and> verbs w' as = [POST, WORKSTART, INVOKE, FEED, FEED]
      \<and> t_callback t = Some c \<and> chain_path w' (t_callback t) [c] \<and> verbs w' [c] = [WORKSTOP]
      \<and> take (length (w_heap w)) (w_heap w') = w_heap w)"
proof (intro conjI)
  let ?n = "length (w_heap w)"
  show "\<exists>t w' as. buildCalculationJob job start dead w = Inr (t, w') \<and> chain_path w' (t_post t) as
      \<and> verbs w' as = [POST, GATE, WORKSTART, INVOKE, FEED, FEED, WORKSTOP] \<and> t_callback t = None
      \<and> take (length (w_heap w)) (w_heap w') = w_heap w"
    by (intro exI [where x = "[?n + 3, ?n + 4, ?n + 5, ?n + 2, ?n, ?n + 1, ?n + 6]"] exI)
      (auto simp: buildCalculationJob_eq verbs_def nth_append Let_def)
  show "\<exists>t w' as. buildMetaJob job start dead w = Inr (t, w') \<and> chain_path w' (t_post t) as
      \<and> verbs w' as = [POST, INVOKE, FEED, FEED]
      \<and> take (length (w_heap w)) (w_heap w') = w_heap w"
    by (intro exI [where x = "[?n + 3, ?n + 2, ?n, ?n + 1]"] exI)
      (auto simp: buildMetaJob_eq verbs_def nth_append Let_def)
  show "\<exists>t w' as c. buildAsyncLoadJob job start dead w = Inr (t, w') \<and> chain_path w' (t_post t) as
      \<and> verbs w' as = [POST, WORKSTART, INVOKE, FEED, FEED]
      \<and> t_callback t = Some c \<and> chain_path w' (t_callback t) [c] \<and> verbs w' [c] = [WORKSTOP]
      \<and> take (length (w_heap w)) (w_heap w') = w_heap w"
    by (intro exI [where x = "[?n + 3, ?n + 4, ?n + 2, ?n, ?n + 1]"] exI [where x = "?n + 5"] exI)
      (auto simp: buildAsyncLoadJob_eq verbs_def nth_append Let_def)
qed

lemma chain_path_snoc:
  assumes "chain_path w c as" "as \<noteq> []" "length (w_heap w) \<le> length (w_heap w')"
    and "\<forall>a \<in> set as. a \<noteq> last as \<longrightarrow> next_act (w_heap w' ! a) = next_act (w_heap w ! a)"
    and "next_act (w_heap w' ! last as) = Some s" "s < length (w_heap w')" "next_act (w_heap w' ! s) = None"
  shows "chain_path w' c (as @ [s])"
  using assms
proof (induction as arbitrary: c)
  case (Cons b bs)
  then obtain p: "c = Some b" "b < length (w_heap w)" "chain_path w (next_act (w_heap w ! b)) bs" by (cases c) auto
  show ?case
  proof (cases "bs = []")
    case True
    then show ?thesis using Cons.prems p by simp
  next
    case False
    have "b \<notin> set bs" using chain_path_distinct [OF Cons.prems(1)] by simp
    then have "b \<noteq> last bs" using last_in_set [OF False] by metis
    then have "next_act (w_heap w' ! b) = next_act (w_heap w ! b)" using Cons.prems(4) False by simp
    moreover have "chain_path w' (next_act (w_heap w ! b)) (bs @ [s])"
      by (rule Cons.IH [OF p(3) False Cons.prems(3)]) (use Cons.prems False in auto)
    ultimately show ?thesis using p Cons.prems(3) by simp
  qed
qed simp

text \<open>Making one term notify another appends a NOTIFY to the first term's chain, aimed at the
  second term's gate and timed at its planned start, and raises the gate's count by one: the
  gate then holds back the second chain at any time.\<close>

theorem notification_links_terms:
  assumes "gated_term w t2 g rest dead start" and "chain_path w (term_end t) as" and "as \<noteq> []"
    and "g \<notin> set as" and "0 \<le> rest" "rest < 2 ^ 31 - 1"
  shows "\<exists>w' s. appendNotificationTo t t2 False w = Inr (t2, w') \<and> chain_path w' (term_end t) (as @ [s])
    \<and> verb (w_heap w' ! s) = NOTIFY \<and> act_data (w_heap w' ! s) = Notification (Some g) start
    \<and> act_data (w_heap w' ! g) = Condition (rest + 1) dead
    \<and> (\<forall>now. checkGate (act_data (w_heap w' ! g)) now = Inr SKIP)"
proof -
  let ?s = "length (w_heap w)"
  let ?w' = "w\<lparr>w_heap :=
     (w_heap w)[last as := (w_heap w ! last as)\<lparr>next_act := Some ?s\<rparr>,
                g := (w_heap w ! g)\<lparr>act_data := Condition (rest + 1) dead\<rparr>]
     @ [\<lparr>verb = NOTIFY, next_act = None, act_data = Notification (Some g) start\<rparr>]\<rparr>"
  have a: "appendNotificationTo t t2 False w = Inr (t2, ?w')"
    by (rule appendNotificationTo_ok [OF assms(1-4)]) (use assms(5,6) in \<open>simp add: is_i32_def\<close>)
  have b: "set as \<subseteq> {..<?s}" "last as \<in> set as" using chain_path_bound [OF assms(2)] assms(3) by simp_all
  have g: "g < ?s" "g \<noteq> last as" using assms(1,4) b(2) by (auto simp: gated_term_def)
  have "chain_path ?w' (term_end t) (as @ [?s])"
    by (rule chain_path_snoc [OF assms(2,3)]) (use b g assms(4) in \<open>auto simp: nth_append nth_list_update\<close>)
  then show ?thesis using a g assms(5)
    by (intro exI [where x = ?w'] exI [where x = ?s])
      (auto simp: nth_append nth_list_update checkGate_def)
qed

theorem notification_links_terms_witness:
  "\<exists>t1 w1 t2 w2 w3. buildCalculationJob \<lparr>job_functor = 0, job_nominal = 7, job_key = (1, 2)\<rparr> 100 900
        \<lparr>w_heap = [], w_ext = ()\<rparr> = Inr (t1, w1)
    \<and> buildCalculationJob \<lparr>job_functor = 1, job_nominal = 9, job_key = (3, 4)\<rparr> 200 900 w1 = Inr (t2, w2)
    \<and> appendNotificationTo t1 t2 False w2 = Inr (t2, w3)
    \<and> checkGate (act_data (w_heap w3 ! 11)) 500 = Inr SKIP"
proof -
  let ?w0 = "\<lparr>w_heap = [], w_ext = ()\<rparr>"
  obtain t1 w1 where b1: "buildCalculationJob \<lparr>job_functor = 0, job_nominal = 7, job_key = (1, 2)\<rparr> 100 900 ?w0 = Inr (t1, w1)"
    by (auto simp: buildCalculationJob_eq Let_def)
  obtain t2 w2 where b2: "buildCalculationJob \<lparr>job_functor = 1, job_nominal = 9, job_key = (3, 4)\<rparr> 200 900 w1 = Inr (t2, w2)"
    by (auto simp: buildCalculationJob_eq Let_def)
  note e1 = b1 [unfolded buildCalculationJob_eq Let_def, simplified]
  note d1 = e1 [THEN conjunct1, symmetric] e1 [THEN conjunct2, symmetric]
  have l1: "length (w_heap w1) = 7" by (simp add: d1)
  note e2 = b2 [unfolded buildCalculationJob_eq Let_def l1, simplified]
  note d2 = e2 [THEN conjunct1, symmetric] e2 [THEN conjunct2, symmetric]
  have g: "gated_term w2 t2 11 0 (instant_time 900) (instant_time 200)"
    by (simp add: gated_term_def d2 d1 instant_time_def)
  have c: "chain_path w2 (term_end t1) [2, 0, 1, 6]"
    by (simp add: term_end_def d1 d2 numeral_eq_Suc)
  show ?thesis using b1 b2 notification_links_terms [OF g c] by fastforce
qed

end
