(* ===== verification/SchedulerInvocation.thy ===== *)
theory SchedulerInvocation
  imports ActivityTerm "HOL-Library.Multiset"
begin

text \<open>
  Scheduler Layer-1, \<open>vault/gear/scheduler-invocation.hpp\<close>: the entrance queue, the queue
  ordered by start time and the set of allowed manifestations. The locale \<open>prio_queue\<close> states
  what is relied on of a priority queue; it is interpreted on the list ordered by \<open>starting\<close>
  that stands for \<open>std::priority_queue\<close> here. Among events of equal start time the library
  promises no order and no lemma relies on one.
\<close>

subsection \<open>Activation events\<close>

record ActivationEvent =
  ev_activity :: "addr option"
  starting :: gavl_time_t
  deadline :: gavl_time_t
  manifestation :: int
  isCompulsory :: bool

definition emptyEvent :: ActivationEvent where
  "emptyEvent = \<lparr>ev_activity = None, starting = Time_MIN, deadline = Time_MAX, manifestation = 0, isCompulsory = False\<rparr>"

definition ActivationEvent_of ::
  "addr \<Rightarrow> Activity \<Rightarrow> gavl_time_t \<Rightarrow> gavl_time_t \<Rightarrow> int \<Rightarrow> bool \<Rightarrow> ActivationEvent" where
  "ActivationEvent_of a act when dead manID compulsory =
     \<lparr>ev_activity = Some a, starting = constrainedStart act when, deadline = constrainedDeath act dead,
      manifestation = manID, isCompulsory = compulsory\<rparr>"

definition event_less :: "ActivationEvent \<Rightarrow> ActivationEvent \<Rightarrow> bool" where
  "event_less e o1 \<longleftrightarrow> starting e > starting o1"

definition startTime :: "ActivationEvent \<Rightarrow> gavl_time_t" where
  "startTime e = TimeValue_raw (starting e)"

definition deathTime :: "ActivationEvent \<Rightarrow> gavl_time_t" where
  "deathTime e = TimeValue_raw (deadline e)"

definition refineTo :: "ActivationEvent \<Rightarrow> addr \<Rightarrow> Activity \<Rightarrow> gavl_time_t \<Rightarrow> gavl_time_t \<Rightarrow> ActivationEvent" where
  "refineTo e chain act when dead =
     e\<lparr>ev_activity := Some chain,
       starting := constrainedStart act (if isRegular when then when else startTime e),
       deadline := constrainedDeath act (if isRegular dead then dead else deathTime e)\<rparr>"

subsection \<open>The priority queue\<close>

text \<open>Insertion behind all events that are not later.\<close>

fun pq_push :: "ActivationEvent \<Rightarrow> ActivationEvent list \<Rightarrow> ActivationEvent list" where
  "pq_push e [] = [e]"
| "pq_push e (x # xs) = (if event_less x e then e # x # xs else x # pq_push e xs)"

definition pq_top :: "ActivationEvent list \<Rightarrow> ActivationEvent" where
  "pq_top q = hd q"

definition pq_pop :: "ActivationEvent list \<Rightarrow> ActivationEvent list" where
  "pq_pop q = tl q"

definition pq_ordered :: "ActivationEvent list \<Rightarrow> bool" where
  "pq_ordered q = sorted (map starting q)"

locale prio_queue =
  fixes key :: "'a \<Rightarrow> 'k::linorder"
    and empty :: 'q
    and push :: "'a \<Rightarrow> 'q \<Rightarrow> 'q"
    and top :: "'q \<Rightarrow> 'a"
    and pop :: "'q \<Rightarrow> 'q"
    and elems :: "'q \<Rightarrow> 'a multiset"
    and ok :: "'q \<Rightarrow> bool"
  assumes ok_empty: "ok empty"
    and elems_empty: "elems empty = {#}"
    and ok_push: "ok q \<Longrightarrow> ok (push x q)"
    and elems_push: "ok q \<Longrightarrow> elems (push x q) = add_mset x (elems q)"
    and top_least: "ok q \<Longrightarrow> y \<in># elems q \<Longrightarrow> key (top q) \<le> key y"
    and top_in: "ok q \<Longrightarrow> elems q \<noteq> {#} \<Longrightarrow> top q \<in># elems q"
    and ok_pop: "ok q \<Longrightarrow> elems q \<noteq> {#} \<Longrightarrow> ok (pop q)"
    and elems_pop: "ok q \<Longrightarrow> elems q \<noteq> {#} \<Longrightarrow> elems (pop q) = elems q - {#top q#}"
begin

primrec drain :: "nat \<Rightarrow> 'q \<Rightarrow> 'a list" where
  "drain 0 q = []"
| "drain (Suc n) q = top q # drain n (pop q)"

lemma ok_fold_push: "ok q \<Longrightarrow> ok (fold push xs q)"
  by (induction xs arbitrary: q) (auto simp: ok_push)

lemma elems_fold_push: "ok q \<Longrightarrow> elems (fold push xs q) = elems q + mset xs"
  by (induction xs arbitrary: q) (auto simp: ok_push elems_push)

lemma size_pop: "ok q \<Longrightarrow> elems q \<noteq> {#} \<Longrightarrow> Suc (size (elems (pop q))) = size (elems q)"
  by (simp add: elems_pop size_Diff_singleton top_in) (metis Suc_pred nonempty_has_size)

lemma drain_elems: "ok q \<Longrightarrow> n = size (elems q) \<Longrightarrow> mset (drain n q) = elems q"
proof (induction n arbitrary: q)
  case (Suc n)
  then have ne: "elems q \<noteq> {#}" by auto
  then have n: "ok (pop q)" "n = size (elems (pop q))" using Suc.prems size_pop [of q] ok_pop by auto
  show ?case using ne Suc.prems(1) by (simp add: Suc.IH [OF n] elems_pop top_in)
qed simp

lemma drain_sorted: "ok q \<Longrightarrow> n = size (elems q) \<Longrightarrow> sorted (map key (drain n q))"
proof (induction n arbitrary: q)
  case (Suc n)
  then have ne: "elems q \<noteq> {#}" by auto
  then have n: "ok (pop q)" "n = size (elems (pop q))" using Suc.prems size_pop [of q] ok_pop by auto
  have "\<forall>y \<in># elems (pop q). key (top q) \<le> key y"
    using Suc.prems ne by (auto simp: elems_pop intro: top_least dest: in_diffD)
  moreover have "set (drain n (pop q)) = set_mset (elems (pop q))"
    using arg_cong [OF drain_elems [OF n], of set_mset] by simp
  ultimately show ?case using Suc.IH [OF n] by simp
qed simp

end

lemma pq_push_mset [simp]: "mset (pq_push e q) = add_mset e (mset q)"
  by (induction q) auto

lemma pq_push_set [simp]: "set (pq_push e q) = insert e (set q)"
  by (induction q) auto

lemma pq_push_ordered: "pq_ordered q \<Longrightarrow> pq_ordered (pq_push e q)"
  by (induction q) (auto simp: pq_ordered_def event_less_def)

interpretation pq: prio_queue starting "[]" pq_push pq_top pq_pop mset pq_ordered
proof
  fix q :: "ActivationEvent list" and y
  assume "pq_ordered q" "y \<in># mset q"
  then show "starting (pq_top q) \<le> starting y"
    by (cases q) (auto simp: pq_ordered_def pq_top_def)
next
  fix q :: "ActivationEvent list"
  assume "pq_ordered q" "mset q \<noteq> {#}"
  then show "pq_top q \<in># mset q" "pq_ordered (pq_pop q)" "mset (pq_pop q) = mset q - {#pq_top q#}"
    by (cases q; simp add: pq_ordered_def pq_top_def pq_pop_def)+
qed (simp_all add: pq_ordered_def pq_push_ordered [unfolded pq_ordered_def])

subsection \<open>Layer-1 operations\<close>

record Layer1 =
  instruct_queue :: "ActivationEvent list"
  priority :: "ActivationEvent list"
  allowed :: "int set"

definition Layer1_init :: Layer1 where
  "Layer1_init = \<lparr>instruct_queue = [], priority = [], allowed = {}\<rparr>"

definition discardSchedule :: "Layer1 \<Rightarrow> Layer1" where
  "discardSchedule l = l\<lparr>instruct_queue := [], priority := []\<rparr>"

text \<open>The entrance queue allocates a node; \<open>memory\<close> tells whether that succeeds.\<close>

definition instruct :: "bool \<Rightarrow> ActivationEvent \<Rightarrow> Layer1 \<Rightarrow> Layer1 result" where
  "instruct memory e l =
     (if memory then Inr (l\<lparr>instruct_queue := instruct_queue l @ [e]\<rparr>)
      else Inl (Err Fatal ''Scheduler entrance: memory allocation failed''))"

fun feed_queue :: "ActivationEvent list \<Rightarrow> ActivationEvent list \<Rightarrow> ActivationEvent list" where
  "feed_queue [] q = q"
| "feed_queue (e # es) q = feed_queue es (pq_push e q)"

definition feedPrioritisation :: "Layer1 \<Rightarrow> Layer1" where
  "feedPrioritisation l = l\<lparr>instruct_queue := [], priority := feed_queue (instruct_queue l) (priority l)\<rparr>"

definition feedPrioritisation_event :: "ActivationEvent \<Rightarrow> Layer1 \<Rightarrow> Layer1" where
  "feedPrioritisation_event e l = l\<lparr>priority := pq_push e (priority l)\<rparr>"

definition peekHead :: "Layer1 \<Rightarrow> ActivationEvent" where
  "peekHead l = (if priority l = [] then emptyEvent else pq_top (priority l))"

definition pullHead :: "Layer1 \<Rightarrow> ActivationEvent \<times> Layer1" where
  "pullHead l =
     (let head = peekHead l
      in (head, if ev_activity head \<noteq> None then l\<lparr>priority := pq_pop (priority l)\<rparr> else l))"

definition activate_id :: "int \<Rightarrow> Layer1 \<Rightarrow> Layer1" where
  "activate_id manID l = (if manID \<noteq> 0 then l\<lparr>allowed := insert manID (allowed l)\<rparr> else l)"

definition drop_id :: "int \<Rightarrow> Layer1 \<Rightarrow> Layer1" where
  "drop_id manID l = l\<lparr>allowed := allowed l - {manID}\<rparr>"

definition waterLevel :: "gavl_time_t \<Rightarrow> int" where
  "waterLevel t = t"

definition isDue :: "Layer1 \<Rightarrow> gavl_time_t \<Rightarrow> bool" where
  "isDue l now \<longleftrightarrow> priority l \<noteq> [] \<and> starting (pq_top (priority l)) \<le> waterLevel now"

definition isMissed :: "Layer1 \<Rightarrow> gavl_time_t \<Rightarrow> bool" where
  "isMissed l now \<longleftrightarrow> priority l \<noteq> [] \<and> waterLevel now > deadline (pq_top (priority l))"

definition isActivated :: "Layer1 \<Rightarrow> int \<Rightarrow> bool" where
  "isActivated l manID \<longleftrightarrow> manID = 0 \<or> manID \<in> allowed l"

definition isOutdated :: "Layer1 \<Rightarrow> gavl_time_t \<Rightarrow> bool" where
  "isOutdated l now \<longleftrightarrow> isMissed l now
     \<or> (priority l \<noteq> [] \<and> \<not> isActivated l (manifestation (pq_top (priority l))))"

definition isOutOfTime :: "Layer1 \<Rightarrow> gavl_time_t \<Rightarrow> bool" where
  "isOutOfTime l now \<longleftrightarrow> isMissed l now
     \<and> (priority l \<noteq> [] \<and> isCompulsory (pq_top (priority l))
        \<and> isActivated l (manifestation (pq_top (priority l))))"

definition hasPendingInput :: "Layer1 \<Rightarrow> bool" where
  "hasPendingInput l \<longleftrightarrow> instruct_queue l \<noteq> []"

definition layer1_empty :: "Layer1 \<Rightarrow> bool" where
  "layer1_empty l \<longleftrightarrow> instruct_queue l = [] \<and> priority l = []"

definition headTime :: "Layer1 \<Rightarrow> gavl_time_t" where
  "headTime l = (if priority l = [] then Time_MAX else TimeValue_raw (starting (pq_top (priority l))))"

subsection \<open>Order of retrieval\<close>

text \<open>
  The state invariant: the queue is ordered and every event in it points to an activity.
\<close>

definition layer1_ok :: "Layer1 \<Rightarrow> bool" where
  "layer1_ok l \<longleftrightarrow> pq_ordered (priority l)
     \<and> (\<forall>e \<in> set (instruct_queue l) \<union> set (priority l). ev_activity e \<noteq> None)"

definition layer1_events :: "Layer1 \<Rightarrow> ActivationEvent multiset" where
  "layer1_events l = mset (instruct_queue l) + mset (priority l)"

primrec pull_all :: "nat \<Rightarrow> Layer1 \<Rightarrow> ActivationEvent list" where
  "pull_all 0 l = []"
| "pull_all (Suc n) l = fst (pullHead l) # pull_all n (snd (pullHead l))"

lemma feed_queue_fold: "feed_queue es q = fold pq_push es q"
  by (induction es arbitrary: q) auto

lemma feedPrioritisation_events:
  "layer1_ok l \<Longrightarrow> mset (priority (feedPrioritisation l)) = layer1_events l"
  by (simp add: feedPrioritisation_def feed_queue_fold layer1_ok_def layer1_events_def pq.elems_fold_push)

lemma feedPrioritisation_ok: "layer1_ok l \<Longrightarrow> layer1_ok (feedPrioritisation l)"
  using arg_cong [OF feedPrioritisation_events, of l set_mset]
  by (auto simp: layer1_ok_def layer1_events_def feedPrioritisation_def feed_queue_fold pq.ok_fold_push)

lemma feedPrioritisation_event_ok:
  "layer1_ok l \<Longrightarrow> ev_activity e \<noteq> None \<Longrightarrow> layer1_ok (feedPrioritisation_event e l)"
  by (auto simp: layer1_ok_def feedPrioritisation_event_def pq_push_ordered)

lemma instruct_ok:
  "layer1_ok l \<Longrightarrow> ev_activity e \<noteq> None \<Longrightarrow> instruct m e l = Inr l' \<Longrightarrow> layer1_ok l'"
  by (auto simp: layer1_ok_def instruct_def split: if_splits)

lemma pullHead_ok: "layer1_ok l \<Longrightarrow> layer1_ok (snd (pullHead l))"
  by (cases "priority l")
    (auto simp: layer1_ok_def pullHead_def peekHead_def pq_pop_def pq_ordered_def Let_def)

lemma layer1_ok_others [simp]:
  "layer1_ok Layer1_init" "layer1_ok (discardSchedule l)"
  "layer1_ok (activate_id m l) = layer1_ok l" "layer1_ok (drop_id m l) = layer1_ok l"
  by (auto simp: layer1_ok_def Layer1_init_def discardSchedule_def activate_id_def drop_id_def pq_ordered_def)

lemma pullHead_head:
  assumes "layer1_ok l" "priority l \<noteq> []"
  shows "pullHead l = (pq_top (priority l), l\<lparr>priority := pq_pop (priority l)\<rparr>)"
  using assms by (cases "priority l") (auto simp: pullHead_def peekHead_def layer1_ok_def pq_top_def Let_def)

lemma pullHead_least:
  assumes "layer1_ok l" "e \<in> set (priority l)"
  shows "starting (fst (pullHead l)) \<le> starting e"
  using assms pullHead_head [OF assms(1)] pq.top_least [of "priority l" e]
  by (cases "priority l") (auto simp: layer1_ok_def)

lemma pull_all_drain:
  "layer1_ok l \<Longrightarrow> n = length (priority l) \<Longrightarrow> pull_all n l = pq.drain n (priority l)"
proof (induction n arbitrary: l)
  case (Suc n)
  then have ne: "priority l \<noteq> []" by auto
  have p: "pullHead l = (pq_top (priority l), l\<lparr>priority := pq_pop (priority l)\<rparr>)"
    by (rule pullHead_head [OF Suc.prems(1) ne])
  then have ok: "layer1_ok (l\<lparr>priority := pq_pop (priority l)\<rparr>)" using pullHead_ok [OF Suc.prems(1)] by simp
  have "n = length (priority (l\<lparr>priority := pq_pop (priority l)\<rparr>))"
    using Suc.prems(2) by (simp add: pq_pop_def)
  from Suc.IH [OF ok this] show ?case by (simp add: p)
qed simp

text \<open>Picking up all input and pulling everything delivers each event once, by start time.\<close>

lemma pull_all_schedule:
  assumes "layer1_ok l"
  defines "es \<equiv> pull_all (size (layer1_events l)) (feedPrioritisation l)"
  shows "mset es = layer1_events l" and "sorted (map starting es)"
proof -
  let ?l = "feedPrioritisation l"
  have ok: "layer1_ok ?l" by (rule feedPrioritisation_ok [OF assms(1)])
  have m: "mset (priority ?l) = layer1_events l" by (rule feedPrioritisation_events [OF assms(1)])
  then have n: "size (layer1_events l) = length (priority ?l)" using size_mset by metis
  have es: "es = pq.drain (length (priority ?l)) (priority ?l)"
    unfolding es_def n by (rule pull_all_drain [OF ok refl])
  have o: "pq_ordered (priority ?l)" "length (priority ?l) = size (mset (priority ?l))"
    using ok by (simp_all add: layer1_ok_def)
  show "mset es = layer1_events l" unfolding es m [symmetric] by (rule pq.drain_elems [OF o])
  show "sorted (map starting es)" unfolding es by (rule pq.drain_sorted [OF o])
qed

subsection \<open>Properties\<close>

text \<open>C8: After picking up the entrance queue, pulling the heads one by one delivers every event that
  was passed in or was waiting exactly once, ordered by start time.\<close>

theorem schedule_delivery:
  assumes "layer1_ok l"
  shows "mset (pull_all (size (layer1_events l)) (feedPrioritisation l)) = layer1_events l
    \<and> sorted (map starting (pull_all (size (layer1_events l)) (feedPrioritisation l)))"
  using pull_all_schedule [OF assms] by blast

definition sample_event :: "addr \<Rightarrow> gavl_time_t \<Rightarrow> ActivationEvent" where
  "sample_event a t = \<lparr>ev_activity = Some a, starting = t, deadline = 900, manifestation = 0, isCompulsory = False\<rparr>"

theorem schedule_delivery_witness:
  "sorted (map starting (pull_all 2 (feedPrioritisation (Layer1_init\<lparr>instruct_queue := [sample_event 1 50, sample_event 2 20]\<rparr>))))"
  using schedule_delivery [of "Layer1_init\<lparr>instruct_queue := [sample_event 1 50, sample_event 2 20]\<rparr>"]
  by (simp add: layer1_ok_def layer1_events_def Layer1_init_def sample_event_def pq_ordered_def numeral_eq_Suc)

text \<open>Every operation of Layer-1 keeps its invariant: the priority queue is ordered and no entry
  lacks an activity.\<close>

theorem layer1_invariant:
  assumes "layer1_ok l" "ev_activity e \<noteq> None"
  shows "layer1_ok (feedPrioritisation l) \<and> layer1_ok (feedPrioritisation_event e l)
    \<and> layer1_ok (snd (pullHead l)) \<and> layer1_ok (discardSchedule l)
    \<and> layer1_ok (activate_id m l) \<and> layer1_ok (drop_id m l)
    \<and> (\<forall>l'. instruct mem e l = Inr l' \<longrightarrow> layer1_ok l')"
  using assms by (simp add: feedPrioritisation_ok feedPrioritisation_event_ok pullHead_ok instruct_ok)

theorem layer1_invariant_witness: "layer1_ok (feedPrioritisation_event (sample_event 1 50) Layer1_init)"
  using layer1_invariant [of Layer1_init "sample_event 1 50"] by (simp add: sample_event_def)

end
