(* ===== verification/LoadController.thy ===== *)
theory LoadController
  imports TimeValue IntUtil
begin

text \<open>
  The load controller, \<open>vault/gear/load-controller.hpp\<close>: classification of a worker's capacity by
  the distance to the next scheduled event, and the randomised delay for capacity that is not
  needed at once. The moving average of the lag is computed in floating point by the code; the
  state's field \<open>lc_average\<close> is that filter, a function of the sample and the old average.
\<close>

subsection \<open>Configuration and state\<close>

definition SLEEP_HORIZON :: gavl_time_t where "SLEEP_HORIZON = Duration_of_time (TimeValue_raw 20000)"
definition WORK_HORIZON :: gavl_time_t where "WORK_HORIZON = Duration_of_time (TimeValue_raw 5000)"
definition NEAR_HORIZON :: gavl_time_t where "NEAR_HORIZON = Duration_of_time (TimeValue_raw 50)"
definition STANDARD_LAG :: gavl_time_t where "STANDARD_LAG = Duration_of_time (TimeValue_raw 200)"

lemma Duration_raw_small: "0 \<le> x \<Longrightarrow> x \<le> 100000 \<Longrightarrow> Duration_of_time (TimeValue_raw x) = x"
  by (simp add: Duration_of_time_def Duration_of_def Offset_of_def TimeValue_raw_def symmetricLimit_def
      limitedTime_def time_limits int_width)

lemma horizons [simp]:
  "SLEEP_HORIZON = 20000" "WORK_HORIZON = 5000" "NEAR_HORIZON = 50" "STANDARD_LAG = 200"
  by (simp_all add: SLEEP_HORIZON_def WORK_HORIZON_def NEAR_HORIZON_def STANDARD_LAG_def Duration_raw_small)

record LoadCtl =
  tendedHead :: gavl_time_t
  sampledLag :: int
  lc_average :: "gavl_time_t \<Rightarrow> int \<Rightarrow> int"

definition LoadCtl_init :: "(gavl_time_t \<Rightarrow> int \<Rightarrow> int) \<Rightarrow> LoadCtl" where
  "LoadCtl_init avg = \<lparr>tendedHead = Time_MIN, sampledLag = 0, lc_average = avg\<rparr>"

datatype Capacity = DISPATCH | TENDNEXT | SPINTIME | NEARTIME | WORKTIME | IDLEWAIT

definition capacity_rank :: "Capacity \<Rightarrow> nat" where
  "capacity_rank c = (case c of DISPATCH \<Rightarrow> 0 | TENDNEXT \<Rightarrow> 1 | SPINTIME \<Rightarrow> 2 | NEARTIME \<Rightarrow> 3
     | WORKTIME \<Rightarrow> 4 | IDLEWAIT \<Rightarrow> 5)"

instantiation Capacity :: linorder
begin

definition less_eq_Capacity :: "Capacity \<Rightarrow> Capacity \<Rightarrow> bool" where
  "less_eq_Capacity a b \<longleftrightarrow> capacity_rank a \<le> capacity_rank b"

definition less_Capacity :: "Capacity \<Rightarrow> Capacity \<Rightarrow> bool" where
  "less_Capacity a b \<longleftrightarrow> capacity_rank a < capacity_rank b"

instance
  by standard
    (auto simp: less_eq_Capacity_def less_Capacity_def capacity_rank_def split: Capacity.splits)

end

lemmas capacity_order = less_eq_Capacity_def less_Capacity_def capacity_rank_def

subsection \<open>Sampling and work force scaling\<close>

definition lag_sample :: "gavl_time_t \<Rightarrow> gavl_time_t \<Rightarrow> gavl_time_t" where
  "lag_sample head now =
     (let v = Time_minus now (if isRegular head then head else now); lo = Offset_neg SLEEP_HORIZON
      in if v < lo then lo else if WORK_HORIZON < v then WORK_HORIZON else v)"

definition markLagSample :: "gavl_time_t \<Rightarrow> gavl_time_t \<Rightarrow> LoadCtl \<Rightarrow> LoadCtl" where
  "markLagSample head now l = l\<lparr>sampledLag := lc_average l (lag_sample head now) (sampledLag l)\<rparr>"

definition averageLag :: "LoadCtl \<Rightarrow> int" where
  "averageLag l = sampledLag l"

definition setCurrentAverageLag :: "int \<Rightarrow> LoadCtl \<Rightarrow> int \<times> LoadCtl" where
  "setCurrentAverageLag lag l = (sampledLag l, l\<lparr>sampledLag := lag\<rparr>)"

text \<open>The number of steps the work force shall be scaled up; 0 stands for no request.\<close>

definition updateState :: "LoadCtl \<Rightarrow> nat" where
  "updateState l =
     (if averageLag l > WORK_HORIZON then 4 else if averageLag l > 2 * STANDARD_LAG then 1 else 0)"

definition ensureCapacity :: "gavl_time_t \<Rightarrow> LoadCtl \<Rightarrow> nat" where
  "ensureCapacity startHorizon l =
     (if startHorizon > Offset_times 2 SLEEP_HORIZON then 0
      else if averageLag l > 2 * STANDARD_LAG then 1 else 0)"

definition tendedNext :: "LoadCtl \<Rightarrow> gavl_time_t \<Rightarrow> bool" where
  "tendedNext l nextHead \<longleftrightarrow> \<not> isRegular nextHead \<or> nextHead = tendedHead l"

definition tendNext :: "gavl_time_t \<Rightarrow> LoadCtl \<Rightarrow> LoadCtl" where
  "tendNext nextHead l = l\<lparr>tendedHead := nextHead\<rparr>"

subsection \<open>Classification of capacity\<close>

definition classifyTimeHorizon :: "gavl_time_t \<Rightarrow> Capacity" where
  "classifyTimeHorizon off =
     (if off > SLEEP_HORIZON then IDLEWAIT
      else if off > WORK_HORIZON then WORKTIME
      else if off > NEAR_HORIZON then NEARTIME
      else if off > 0 then SPINTIME
      else DISPATCH)"

definition markOutgoingCapacity :: "gavl_time_t \<Rightarrow> gavl_time_t \<Rightarrow> LoadCtl \<Rightarrow> Capacity" where
  "markOutgoingCapacity head now l =
     (let horizon = classifyTimeHorizon (Offset_of (Time_minus head now))
      in if horizon > SPINTIME \<and> \<not> tendedNext l head then TENDNEXT
         else if horizon = IDLEWAIT then WORKTIME else horizon)"

definition markIncomingCapacity :: "gavl_time_t \<Rightarrow> gavl_time_t \<Rightarrow> LoadCtl \<Rightarrow> Capacity \<times> LoadCtl" where
  "markIncomingCapacity head now l =
     (let l' = markLagSample head now l
      in (if classifyTimeHorizon (Offset_of (Time_minus head now)) > NEARTIME then IDLEWAIT
          else markOutgoingCapacity head now l', l'))"

subsection \<open>Scattered delays\<close>

definition time_hash :: "gavl_time_t \<Rightarrow> int" where
  "time_hash t = (let x = u64 t in or (u64 (push_bit 32 x)) (drop_bit 32 x))"

definition scatter :: "gavl_time_t \<Rightarrow> gavl_time_t \<Rightarrow> gavl_time_t" where
  "scatter now horizon = TimeValue_raw (time_hash now mod u64 horizon)"

definition scatteredDelayTime :: "gavl_time_t \<Rightarrow> Capacity \<Rightarrow> LoadCtl \<Rightarrow> gavl_time_t" where
  "scatteredDelayTime now capacity l =
     (let headDistance = max (TimeVar_minus (tendedHead l) now) 0
      in case capacity of
           DISPATCH \<Rightarrow> 0
         | SPINTIME \<Rightarrow> 0
         | TENDNEXT \<Rightarrow> Offset_of headDistance
         | NEARTIME \<Rightarrow> Offset_of (TimeVar_plus headDistance
             (scatter now (Duration_of (Offset_of (limited NEAR_HORIZON headDistance WORK_HORIZON)))))
         | _ \<Rightarrow> Offset_of (TimeVar_plus headDistance (scatter now SLEEP_HORIZON)))"

subsection \<open>Lemmas\<close>

lemma classify_mono: "off \<le> off' \<Longrightarrow> classifyTimeHorizon off \<le> classifyTimeHorizon off'"
  by (simp add: classifyTimeHorizon_def capacity_order)

lemma classify_DISPATCH: "classifyTimeHorizon off = DISPATCH \<longleftrightarrow> off \<le> 0"
  by (simp add: classifyTimeHorizon_def)

lemma lag_sample_bounds: "- 20000 \<le> lag_sample head now \<and> lag_sample head now \<le> 5000"
proof -
  have "Offset_neg SLEEP_HORIZON = - 20000" by code_simp
  then show ?thesis by (simp add: lag_sample_def Let_def)
qed

lemma outgoing_cases:
  "markOutgoingCapacity head now l \<noteq> IDLEWAIT"
  "markOutgoingCapacity head now l = TENDNEXT \<Longrightarrow> \<not> tendedNext l head"
  "markOutgoingCapacity head now l = DISPATCH \<longleftrightarrow> Offset_of (Time_minus head now) \<le> 0"
  by (auto simp: markOutgoingCapacity_def Let_def classifyTimeHorizon_def capacity_order split: if_splits)

lemma tendNext_tended [simp]: "tendedNext (tendNext h l) h"
  by (simp add: tendedNext_def tendNext_def)

lemma time_hash_range: "0 \<le> time_hash t"
  by (simp add: time_hash_def Let_def u64_def)

lemma scatter_bounds:
  assumes "0 < h" "h \<le> Time_MAX"
  shows "0 \<le> scatter now h \<and> scatter now h < h"
proof -
  have h: "u64 h = h" using assms by (simp add: u64_id time_limits)
  have m: "0 \<le> time_hash now mod h" "time_hash now mod h < h" using assms by simp_all
  then have "TimeValue_raw (time_hash now mod h) = time_hash now mod h"
    unfolding TimeValue_raw_def using assms(2) by (intro limitedTime_id; unfold time_limits; linarith)
  then show ?thesis using m by (simp add: scatter_def h)
qed

text \<open>Idle capacity is moved behind the tended head, by less than the horizon of its class.\<close>

lemma scatteredDelay_bounds:
  assumes "\<bar>tendedHead l\<bar> \<le> Time_MAX" and "0 \<le> now" "now \<le> Time_MAX" and "capacity > SPINTIME"
  defines "d \<equiv> max (tendedHead l - now) 0"
  shows "d \<le> scatteredDelayTime now capacity l \<and>
    scatteredDelayTime now capacity l < d + (if capacity = NEARTIME then 5000 else 20000)"
proof -
  have d: "0 \<le> d" "d \<le> 307445734561825860" using assms by (auto simp: time_limits)
  have "TimeVar_minus (tendedHead l) now = tendedHead l - now"
    unfolding TimeVar_minus_def using assms by (intro i64_id) (auto simp: time_limits)
  then have hd: "max (TimeVar_minus (tendedHead l) now) 0 = d" by (simp add: d_def)
  have plus: "Offset_of (TimeVar_plus d x) = d + x" if "0 \<le> x" "x < 20000" for x
    using d that by (simp add: TimeVar_plus_def i64_id Offset_of_def symmetricLimit_def time_limits)
  define h where "h = limited 50 d 5000"
  have h: "50 \<le> h" "h \<le> 5000" by (auto simp: h_def limited_def)
  then have dur: "Duration_of (Offset_of h) = h"
    by (simp add: Duration_of_def Offset_of_def symmetricLimit_def time_limits i64_id)
  have near: "0 \<le> scatter now h" "scatter now h < 5000" using scatter_bounds [of h now] h by (auto simp: time_limits)
  have far: "0 \<le> scatter now 20000" "scatter now 20000 < 20000"
    using scatter_bounds [of 20000 now] by (auto simp: time_limits)
  show ?thesis
    using assms(4) near far plus [OF near(1)] plus [OF far]
    by (cases capacity) (simp_all add: capacity_order scatteredDelayTime_def Let_def hd dur h_def [symmetric])
qed

subsection \<open>Properties\<close>

text \<open>Capacity that is not needed now is put to sleep until after the next tended head, and by
  less than the horizon of its class behind it: 5 ms near the head, 20 ms otherwise.\<close>

theorem scattered_delay_window:
  assumes "\<bar>tendedHead l\<bar> \<le> Time_MAX" and "0 \<le> now" "now \<le> Time_MAX" and "capacity > SPINTIME"
  shows "max (tendedHead l - now) 0 \<le> scatteredDelayTime now capacity l \<and>
    scatteredDelayTime now capacity l < max (tendedHead l - now) 0 + (if capacity = NEARTIME then 5000 else 20000)"
  using scatteredDelay_bounds [OF assms] by blast

theorem scattered_delay_window_witness:
  "scatteredDelayTime 1000 WORKTIME ((LoadCtl_init (\<lambda>_ a. a))\<lparr>tendedHead := 1500\<rparr>) < 20500"
  using scattered_delay_window [of "(LoadCtl_init (\<lambda>_ a. a))\<lparr>tendedHead := 1500\<rparr>" 1000 WORKTIME]
  by (simp add: LoadCtl_init_def time_limits capacity_order)

text \<open>The classes of the time horizon are ordered as the distance is, work already due is
  dispatched at once and only then, a head already tended for attracts no further capacity, and a
  worker returning from work is never told to go idle.\<close>

theorem capacity_classification:
  shows "(off \<le> off' \<longrightarrow> classifyTimeHorizon off \<le> classifyTimeHorizon off')
    \<and> (classifyTimeHorizon off = DISPATCH \<longleftrightarrow> off \<le> 0)
    \<and> markOutgoingCapacity head now l \<noteq> IDLEWAIT
    \<and> (tendedNext l head \<longrightarrow> markOutgoingCapacity head now l \<noteq> TENDNEXT)
    \<and> fst (markIncomingCapacity head now l) \<noteq> WORKTIME"
proof -
  have "fst (markIncomingCapacity head now l) \<noteq> WORKTIME"
    by (auto simp: markIncomingCapacity_def markOutgoingCapacity_def Let_def capacity_order split: Capacity.splits)
  then show ?thesis using classify_mono classify_DISPATCH outgoing_cases by blast
qed

theorem capacity_classification_witness:
  "classifyTimeHorizon (- 5) = DISPATCH \<and> classifyTimeHorizon 60 \<le> classifyTimeHorizon 6000"
  using capacity_classification [of "- 5" 6000] capacity_classification [of 60 6000] by simp

end
