(* ===== verification/SchedulerCommutator.thy ===== *)
theory SchedulerCommutator
  imports SchedulerInvocation LoadController "HOL-Library.While_Combinator"
begin

text \<open>
  Scheduler Layer-2, \<open>vault/gear/scheduler-commutator.hpp\<close>: the grooming token, retrieval of due
  work from Layer-1, and the steps a worker performs with its capacity. The state also holds
  what the surrounding scheduler contributes to these operations: the load controller, the
  readings of the clock, and a record of the calls to the outside (sleeps, observer events,
  requests to scale the work force). Operations take the calling thread \<open>me\<close>.
\<close>

subsection \<open>State and grooming token\<close>

type_synonym thread = nat

datatype work_event = WorkStart gavl_time_t | WorkStop gavl_time_t

record Sched =
  sc_layer1 :: Layer1
  sc_token :: "thread option"
  sc_load :: LoadCtl
  sc_clock :: "nat \<Rightarrow> gavl_time_t"
  sc_reads :: nat
  sc_memory :: bool
  sc_sleeps :: "gavl_time_t list"
  sc_events :: "(nat \<times> work_event) list"
  sc_steps :: "nat list"
  sc_activated :: bool

definition read_clock :: "Sched \<Rightarrow> gavl_time_t \<times> Sched" where
  "read_clock s = (sc_clock s (sc_reads s), s\<lparr>sc_reads := Suc (sc_reads s)\<rparr>)"

definition acquireGoomingToken :: "thread \<Rightarrow> Sched \<Rightarrow> bool \<times> Sched" where
  "acquireGoomingToken me s =
     (if sc_token s = None then (True, s\<lparr>sc_token := Some me\<rparr>) else (False, s))"

definition dropGroomingToken :: "thread \<Rightarrow> Sched \<Rightarrow> Sched result" where
  "dropGroomingToken me s =
     bind_result (require (sc_token s = Some me) ''groomingToken_ == thisThread()'') (\<lambda>_.
       Inr (s\<lparr>sc_token := None\<rparr>))"

definition holdsGroomingToken :: "thread \<Rightarrow> Sched \<Rightarrow> bool" where
  "holdsGroomingToken me s \<longleftrightarrow> sc_token s = Some me"

definition ensureDroppedGroomingToken :: "thread \<Rightarrow> Sched \<Rightarrow> Sched" where
  "ensureDroppedGroomingToken me s = (if holdsGroomingToken me s then s\<lparr>sc_token := None\<rparr> else s)"

text \<open>Checking for the token, and trying to acquire it otherwise.\<close>

definition holds_or_acquires :: "thread \<Rightarrow> Sched \<Rightarrow> bool \<times> Sched" where
  "holds_or_acquires me s = (if holdsGroomingToken me s then (True, s) else acquireGoomingToken me s)"

subsection \<open>Layer-1 maintenance\<close>

definition maybeFeed :: "thread \<Rightarrow> Sched \<Rightarrow> Sched" where
  "maybeFeed me s =
     (if hasPendingInput (sc_layer1 s)
      then let r = holds_or_acquires me s
           in if fst r then (snd r)\<lparr>sc_layer1 := feedPrioritisation (sc_layer1 (snd r))\<rparr> else snd r
      else s)"

definition discard_outdated :: "gavl_time_t \<Rightarrow> Layer1 \<Rightarrow> Layer1 option" where
  "discard_outdated now l =
     while_option (\<lambda>l. isOutdated l now \<and> \<not> isOutOfTime l now) (\<lambda>l. snd (pullHead l)) l"

definition maintainQueueHead :: "thread \<Rightarrow> gavl_time_t \<Rightarrow> Sched \<Rightarrow> (bool \<times> Sched) partial_result" where
  "maintainQueueHead me now s =
     (if holdsGroomingToken me s
      then case discard_outdated now (feedPrioritisation (sc_layer1 s)) of
             None \<Rightarrow> None
           | Some l \<Rightarrow> Some (Inr (\<not> isOutOfTime l now, s\<lparr>sc_layer1 := l\<rparr>))
      else Some (Inl (Err Assertion ''holdsGroomingToken (thisThread())'')))"

definition findWork :: "thread \<Rightarrow> gavl_time_t \<Rightarrow> Sched \<Rightarrow> (ActivationEvent \<times> Sched) partial_result" where
  "findWork me now s =
     (let r = holds_or_acquires me s
      in if fst r
         then case discard_outdated now (feedPrioritisation (sc_layer1 (snd r))) of
                None \<Rightarrow> None
              | Some l \<Rightarrow>
                  bind_partial (maintainQueueHead me now ((snd r)\<lparr>sc_layer1 := l\<rparr>)) (\<lambda>m.
                    if fst m \<and> isDue (sc_layer1 (snd m)) now
                    then let p = pullHead (sc_layer1 (snd m))
                         in Some (Inr (fst p, (snd m)\<lparr>sc_layer1 := snd p\<rparr>))
                    else Some (Inr (emptyEvent, snd m)))
         else Some (Inr (emptyEvent, snd r)))"

definition layer2_postChain :: "thread \<Rightarrow> ActivationEvent \<Rightarrow> Sched \<Rightarrow> (Proc \<times> Sched) result" where
  "layer2_postChain me event s =
     (if holdsGroomingToken me s
      then Inr (PASS, s\<lparr>sc_layer1 := feedPrioritisation_event event (sc_layer1 s)\<rparr>)
      else bind_result (instruct (sc_memory s) event (sc_layer1 s)) (\<lambda>l. Inr (PASS, s\<lparr>sc_layer1 := l\<rparr>)))"

subsection \<open>Redirecting capacity\<close>

definition doTargetedSleep :: "thread \<Rightarrow> gavl_time_t \<Rightarrow> Capacity \<Rightarrow> Sched \<Rightarrow> Sched" where
  "doTargetedSleep me now capacity s =
     (let s1 = ensureDroppedGroomingToken me s
      in s1\<lparr>sc_sleeps := sc_sleeps s1 @ [scatteredDelayTime now capacity (sc_load s1)]\<rparr>)"

definition doTendNextHead :: "thread \<Rightarrow> gavl_time_t \<Rightarrow> Sched \<Rightarrow> Sched" where
  "doTendNextHead me head s =
     (if tendedNext (sc_load s) head then s
      else let r = holds_or_acquires me s
           in if fst r then (snd r)\<lparr>sc_load := tendNext head (sc_load (snd r))\<rparr> else snd r)"

definition worker_scatteredDelay ::
  "thread \<Rightarrow> gavl_time_t \<Rightarrow> gavl_time_t \<Rightarrow> Capacity \<Rightarrow> Sched \<Rightarrow> Proc \<times> Sched" where
  "worker_scatteredDelay me now head capacity s =
     (case capacity of
        DISPATCH \<Rightarrow> (PASS, s)
      | SPINTIME \<Rightarrow> (SKIP, s)
      | IDLEWAIT \<Rightarrow> (WAIT, s)
      | TENDNEXT \<Rightarrow> (SKIP, doTargetedSleep me now capacity (doTendNextHead me head s))
      | _ \<Rightarrow> (SKIP, doTargetedSleep me now capacity s))"

definition incoming_step :: "thread \<Rightarrow> Sched \<Rightarrow> Proc \<times> Sched" where
  "incoming_step me s =
     (let s1 = maybeFeed me s;
          now = fst (read_clock s1); s2 = snd (read_clock s1);
          head = headTime (sc_layer1 s2);
          c = markIncomingCapacity head now (sc_load s2)
      in worker_scatteredDelay me now head (fst c) (s2\<lparr>sc_load := snd c\<rparr>))"

definition outgoing_step :: "thread \<Rightarrow> Sched \<Rightarrow> Proc \<times> Sched" where
  "outgoing_step me s =
     (let s1 = maybeFeed me s;
          now = fst (read_clock s1); s2 = snd (read_clock s1);
          head = headTime (sc_layer1 s2)
      in worker_scatteredDelay me now head (markOutgoingCapacity head now (sc_load s2)) s2)"

type_synonym executor = "ActivationEvent \<Rightarrow> Sched world \<Rightarrow> (Proc \<times> Sched world) partial_result"

definition dispatch_step :: "thread \<Rightarrow> executor \<Rightarrow> Sched world \<Rightarrow> (Proc \<times> Sched world) partial_result" where
  "dispatch_step me executeActivity w =
     (let now = fst (read_clock (w_ext w)); s = snd (read_clock (w_ext w))
      in bind_partial (findWork me now s) (\<lambda>r.
           let w1 = w\<lparr>w_ext := snd r\<rparr>
           in if ev_activity (fst r) = None then Some (Inr (KICK, w1)) else executeActivity (fst r) w1))"

text \<open>
  Each step of the worker is performed while the verdict is \<open>PASS\<close>. The state after an
  exception is not represented, hence neither is the clean-up of the \<open>catch\<close> clause.
\<close>

definition dispatchCapacity :: "thread \<Rightarrow> executor \<Rightarrow> Sched world \<Rightarrow> (Proc \<times> Sched world) partial_result" where
  "dispatchCapacity me executeActivity w =
     (let r1 = incoming_step me (w_ext w); w1 = w\<lparr>w_ext := snd r1\<rparr>
      in bind_partial
           (if fst r1 = PASS
            then bind_partial (dispatch_step me executeActivity w1) (\<lambda>r2.
                   if fst r2 = PASS
                   then let r3 = outgoing_step me (w_ext (snd r2))
                        in Some (Inr (fst r3, (snd r2)\<lparr>w_ext := snd r3\<rparr>))
                   else Some (Inr r2))
            else Some (Inr (fst r1, w1)))
           (\<lambda>r. let res = skip_handled (fst r); w' = snd r
                in Some (Inr (res, if res \<noteq> PASS
                                   then w'\<lparr>w_ext := ensureDroppedGroomingToken me (w_ext w')\<rparr> else w'))))"

subsection \<open>Retrieval of work\<close>

lemma discard_outdated_result:
  assumes "layer1_ok l"
  obtains l' where "discard_outdated now l = Some l'" "layer1_ok l'"
    "\<not> isOutdated l' now \<or> isOutOfTime l' now" "layer1_events l' \<subseteq># layer1_events l"
    "instruct_queue l' = instruct_queue l" "allowed l' = allowed l"
proof -
  let ?b = "\<lambda>l. isOutdated l now \<and> \<not> isOutOfTime l now"
  let ?c = "\<lambda>l. snd (pullHead l)"
  let ?P = "\<lambda>l'. layer1_ok l' \<and> layer1_events l' \<subseteq># layer1_events l \<and>
      instruct_queue l' = instruct_queue l \<and> allowed l' = allowed l"
  have ne: "priority x \<noteq> []" if "?b x" for x
    using that by (auto simp: isOutdated_def isMissed_def)
  have step: "?P (?c x) \<and> length (priority (?c x)) < length (priority x)" if "?P x" "?b x" for x
  proof -
    have p: "?c x = x\<lparr>priority := pq_pop (priority x)\<rparr>" using pullHead_head that ne by simp
    have "mset (pq_pop (priority x)) \<subseteq># mset (priority x)"
      by (cases "priority x") (auto simp: pq_pop_def)
    then have "layer1_events (?c x) \<subseteq># layer1_events x" by (simp add: p layer1_events_def)
    then show ?thesis using that ne [OF that(2)] pullHead_ok [of x]
      by (auto simp: p pq_pop_def intro: subset_mset.trans)
  qed
  obtain l' where l': "discard_outdated now l = Some l'"
    unfolding discard_outdated_def
    using measure_while_option_Some [where P = ?P and f = "\<lambda>l. length (priority l)" and b = ?b and c = ?c and s = l]
      step assms by auto
  have "?P l'" using while_option_rule [where P = ?P and b = ?b and c = ?c, OF _ l' [unfolded discard_outdated_def]] step assms by blast
  moreover have "\<not> ?b l'" using while_option_stop [OF l' [unfolded discard_outdated_def]] by blast
  ultimately show ?thesis using that l' by blast
qed

lemma discard_outdated_idle:
  "\<not> isOutdated l now \<or> isOutOfTime l now \<Longrightarrow> discard_outdated now l = Some l"
  unfolding discard_outdated_def by (subst while_option_unfold) auto

lemma layer1_events_feed [simp]: "layer1_ok l \<Longrightarrow> layer1_events (feedPrioritisation l) = layer1_events l"
  using feedPrioritisation_events [of l] by (simp add: layer1_events_def feedPrioritisation_def)

lemma layer1_events_allowed [simp]:
  "layer1_events (activate_id m l) = layer1_events l" "layer1_events (drop_id m l) = layer1_events l"
  by (simp_all add: layer1_events_def activate_id_def drop_id_def)

lemma feed_feed [simp]: "instruct_queue l = [] \<Longrightarrow> feedPrioritisation l = l"
  by (simp add: feedPrioritisation_def)

text \<open>
  What \<open>findWork\<close> yields: nothing, or the most urgent event, which is due, within its deadline
  and allowed to be processed. It returns in every case and keeps the state in order.
\<close>

definition fit_for_dispatch :: "gavl_time_t \<Rightarrow> Layer1 \<Rightarrow> ActivationEvent \<Rightarrow> bool" where
  "fit_for_dispatch now l e \<longleftrightarrow> ev_activity e \<noteq> None \<and> starting e \<le> now \<and> now \<le> deadline e
     \<and> isActivated l (manifestation e)"

lemma findWork_result:
  assumes ok: "layer1_ok (sc_layer1 s)"
  obtains e s' where "findWork me now s = Some (Inr (e, s'))" "layer1_ok (sc_layer1 s')"
    "sc_token s' = (if sc_token s = None then Some me else sc_token s)"
    "s'\<lparr>sc_layer1 := sc_layer1 s, sc_token := sc_token s\<rparr> = s"
    "allowed (sc_layer1 s') = allowed (sc_layer1 s)"
    "if ev_activity e = None then layer1_events (sc_layer1 s') \<subseteq># layer1_events (sc_layer1 s)
     else fit_for_dispatch now (sc_layer1 s') e \<and> sc_token s' = Some me
       \<and> add_mset e (layer1_events (sc_layer1 s')) \<subseteq># layer1_events (sc_layer1 s)
       \<and> (\<forall>f \<in># layer1_events (sc_layer1 s'). starting e \<le> starting f)"
proof (cases "fst (holds_or_acquires me s)")
  case False
  then have "sc_token s \<noteq> None \<and> sc_token s \<noteq> Some me \<and> holds_or_acquires me s = (False, s)"
    by (auto simp: holds_or_acquires_def acquireGoomingToken_def holdsGroomingToken_def split: if_splits)
  then show ?thesis using ok by (intro that [of emptyEvent s]) (auto simp: findWork_def Let_def emptyEvent_def)
next
  case True
  define s1 where "s1 = snd (holds_or_acquires me s)"
  have s1: "s1 = s\<lparr>sc_token := Some me\<rparr>" "sc_token s = None \<or> sc_token s = Some me"
    using True by (auto simp: s1_def holds_or_acquires_def acquireGoomingToken_def holdsGroomingToken_def split: if_splits)
  have okf: "layer1_ok (feedPrioritisation (sc_layer1 s))" by (rule feedPrioritisation_ok [OF ok])
  obtain l where l: "discard_outdated now (feedPrioritisation (sc_layer1 s)) = Some l" "layer1_ok l"
    "\<not> isOutdated l now \<or> isOutOfTime l now" "layer1_events l \<subseteq># layer1_events (sc_layer1 s)"
    "instruct_queue l = []" "allowed l = allowed (sc_layer1 s)"
    using discard_outdated_result [OF okf, of now] layer1_events_feed [OF ok]
    by (metis feedPrioritisation_def Layer1.select_convs(1) Layer1.select_convs(3) Layer1.surjective Layer1.update_convs(1) Layer1.update_convs(2))
  have m: "maintainQueueHead me now (s1\<lparr>sc_layer1 := l\<rparr>) = Some (Inr (\<not> isOutOfTime l now, s1\<lparr>sc_layer1 := l\<rparr>))"
    using l s1 by (simp add: maintainQueueHead_def holdsGroomingToken_def discard_outdated_idle)
  have f: "findWork me now s =
      (if \<not> isOutOfTime l now \<and> isDue l now
       then Some (Inr (fst (pullHead l), s1\<lparr>sc_layer1 := snd (pullHead l)\<rparr>))
       else Some (Inr (emptyEvent, s1\<lparr>sc_layer1 := l\<rparr>)))"
    using True l(1) m by (simp add: findWork_def Let_def s1_def [symmetric] s1(1))
  show ?thesis
  proof (cases "\<not> isOutOfTime l now \<and> isDue l now")
    case False
    then show ?thesis using f l s1
      by (intro that [of emptyEvent "s1\<lparr>sc_layer1 := l\<rparr>"]) (auto simp: emptyEvent_def)
  next
    case True
    then have ne: "priority l \<noteq> []" by (auto simp: isDue_def)
    have p: "pullHead l = (pq_top (priority l), l\<lparr>priority := pq_pop (priority l)\<rparr>)"
      by (rule pullHead_head [OF l(2) ne])
    let ?e = "pq_top (priority l)"
    have mem: "?e \<in> set (priority l)" using ne by (cases "priority l") (auto simp: pq_top_def)
    then have act: "ev_activity ?e \<noteq> None" using l(2) by (auto simp: layer1_ok_def)
    have fit: "fit_for_dispatch now (snd (pullHead l)) ?e"
      using True l(3) act ne
      by (auto simp: fit_for_dispatch_def p isDue_def isOutdated_def isMissed_def waterLevel_def isActivated_def)
    have ev: "add_mset ?e (layer1_events (snd (pullHead l))) = layer1_events l"
      using ne by (cases "priority l") (auto simp: p layer1_events_def pq_top_def pq_pop_def)
    have least: "\<forall>f \<in># layer1_events (snd (pullHead l)). starting ?e \<le> starting f"
      using l(2,5) ne by (cases "priority l") (auto simp: p layer1_events_def pq_top_def pq_pop_def layer1_ok_def pq_ordered_def)
    show ?thesis
      using f True act fit ev least l pullHead_ok [OF l(2)] s1
      by (intro that [of ?e "s1\<lparr>sc_layer1 := snd (pullHead l)\<rparr>"]) (auto simp: p)
  qed
qed

subsection \<open>The worker's round\<close>

lemma read_clock_layer1 [simp]: "sc_layer1 (snd (read_clock s)) = sc_layer1 s" "sc_token (snd (read_clock s)) = sc_token s"
  by (simp_all add: read_clock_def)

lemma holds_or_acquires_layer1 [simp]: "sc_layer1 (snd (holds_or_acquires me s)) = sc_layer1 s"
  by (simp add: holds_or_acquires_def acquireGoomingToken_def)

lemma maybeFeed_layer1:
  assumes "layer1_ok (sc_layer1 s)"
  shows "layer1_ok (sc_layer1 (maybeFeed me s))"
    and "layer1_events (sc_layer1 (maybeFeed me s)) = layer1_events (sc_layer1 s)"
  using assms by (simp_all add: maybeFeed_def Let_def feedPrioritisation_ok)

lemma ensureDropped_layer1 [simp]: "sc_layer1 (ensureDroppedGroomingToken me s) = sc_layer1 s"
  by (simp add: ensureDroppedGroomingToken_def)

lemma ensureDropped_not_held [simp]: "\<not> holdsGroomingToken me (ensureDroppedGroomingToken me s)"
  by (simp add: ensureDroppedGroomingToken_def holdsGroomingToken_def)

lemma worker_scatteredDelay_layer1 [simp]:
  "sc_layer1 (snd (worker_scatteredDelay me now head c s)) = sc_layer1 s"
  by (cases c) (simp_all add: worker_scatteredDelay_def doTargetedSleep_def doTendNextHead_def Let_def)

lemma worker_scatteredDelay_verdict:
  "fst (worker_scatteredDelay me now head c s) = (case c of DISPATCH \<Rightarrow> PASS | IDLEWAIT \<Rightarrow> WAIT | _ \<Rightarrow> SKIP)"
  by (cases c) (simp_all add: worker_scatteredDelay_def)

text \<open>A thread going to sleep holds no token.\<close>

lemma sleeper_holds_no_token:
  "sc_sleeps (snd (worker_scatteredDelay me now head c s)) \<noteq> sc_sleeps s \<Longrightarrow>
   \<not> holdsGroomingToken me (snd (worker_scatteredDelay me now head c s))"
  by (cases c)
    (auto simp: worker_scatteredDelay_def doTargetedSleep_def Let_def holdsGroomingToken_def ensureDroppedGroomingToken_def)

lemma incoming_step_layer1:
  assumes "layer1_ok (sc_layer1 s)"
  shows "layer1_ok (sc_layer1 (snd (incoming_step me s)))"
    and "layer1_events (sc_layer1 (snd (incoming_step me s))) = layer1_events (sc_layer1 s)"
  using maybeFeed_layer1 [OF assms, of me] by (simp_all add: incoming_step_def Let_def)

lemma dispatchCapacity_returns:
  assumes ok: "layer1_ok (sc_layer1 (w_ext w))"
    and exec: "\<And>e w'. e \<in># layer1_events (sc_layer1 (w_ext w)) \<Longrightarrow> w_heap w' = w_heap w \<Longrightarrow> \<exists>r. exec e w' = Some r"
  shows "\<exists>r. dispatchCapacity me exec w = Some r"
proof (cases "fst (incoming_step me (w_ext w)) = PASS")
  case False
  then show ?thesis by (simp add: dispatchCapacity_def Let_def)
next
  case True
  define s1 where "s1 = snd (incoming_step me (w_ext w))"
  define s2 where "s2 = snd (read_clock s1)"
  have ok2: "layer1_ok (sc_layer1 s2)" and ev2: "layer1_events (sc_layer1 s2) = layer1_events (sc_layer1 (w_ext w))"
    using incoming_step_layer1 [OF ok, of me] by (simp_all add: s2_def s1_def)
  obtain e s' where f: "findWork me (fst (read_clock s1)) s2 = Some (Inr (e, s'))"
    "ev_activity e \<noteq> None \<Longrightarrow> e \<in># layer1_events (sc_layer1 s2)"
    using findWork_result [OF ok2, of me "fst (read_clock s1)"] by (metis mset_subset_eqD union_single_eq_member)
  have "\<exists>r. dispatch_step me exec (w\<lparr>w_ext := s1\<rparr>) = Some r"
    using f exec [of e "w\<lparr>w_ext := s'\<rparr>"] ev2
    by (auto simp: dispatch_step_def Let_def s2_def [symmetric])
  then obtain r where r: "dispatch_step me exec (w\<lparr>w_ext := s1\<rparr>) = Some r" ..
  show ?thesis using True r by (cases r) (auto simp: dispatchCapacity_def Let_def s1_def [symmetric])
qed

lemma dispatchCapacity_verdict:
  assumes "dispatchCapacity me exec w = Some (Inr (p, w'))"
  shows "p \<noteq> SKIP \<and> (p \<noteq> PASS \<longrightarrow> \<not> holdsGroomingToken me (w_ext w'))"
proof -
  obtain r where "Some (Inr (skip_handled (fst r), if skip_handled (fst r) \<noteq> PASS
       then (snd r)\<lparr>w_ext := ensureDroppedGroomingToken me (w_ext (snd r))\<rparr> else snd r)) = Some (Inr (p, w'))"
    using assms unfolding dispatchCapacity_def Let_def bind_partial_Inr_iff [where f = "\<lambda>r. Some (F r)" for F]
    by blast
  then have "p = skip_handled (fst r)"
    "w' = (if p \<noteq> PASS then (snd r)\<lparr>w_ext := ensureDroppedGroomingToken me (w_ext (snd r))\<rparr> else snd r)"
    by auto
  then show ?thesis by (cases "p = PASS") simp_all
qed

subsection \<open>Several threads\<close>

text \<open>
  The operations of all threads, interleaved in any order. The ghost components count what has
  been posted, what was handed out for dispatch (with the thread and the time), and what is
  left; an event that vanishes otherwise was discarded at the queue head.
\<close>

record System =
  sy_sched :: Sched
  sy_posted :: "ActivationEvent multiset"
  sy_dispatched :: "ActivationEvent multiset"

inductive system_step :: "System \<Rightarrow> System \<Rightarrow> bool" where
  post: "ev_activity e \<noteq> None \<Longrightarrow> layer2_postChain me e (sy_sched y) = Inr (p, s') \<Longrightarrow>
    system_step y (y\<lparr>sy_sched := s', sy_posted := add_mset e (sy_posted y)\<rparr>)"
| feed: "system_step y (y\<lparr>sy_sched := maybeFeed me (sy_sched y)\<rparr>)"
| find: "findWork me now (sy_sched y) = Some (Inr (e, s')) \<Longrightarrow> ev_activity e \<noteq> None \<Longrightarrow>
    system_step y (y\<lparr>sy_sched := s', sy_dispatched := add_mset e (sy_dispatched y)\<rparr>)"
| find_none: "findWork me now (sy_sched y) = Some (Inr (e, s')) \<Longrightarrow> ev_activity e = None \<Longrightarrow>
    system_step y (y\<lparr>sy_sched := s'\<rparr>)"
| maintain: "maintainQueueHead me now (sy_sched y) = Some (Inr (b, s')) \<Longrightarrow>
    system_step y (y\<lparr>sy_sched := s'\<rparr>)"
| delay: "system_step y (y\<lparr>sy_sched := snd (worker_scatteredDelay me now head c (sy_sched y))\<rparr>)"
| drop: "dropGroomingToken me (sy_sched y) = Inr s' \<Longrightarrow> system_step y (y\<lparr>sy_sched := s'\<rparr>)"
| allow: "system_step y (y\<lparr>sy_sched := (sy_sched y)\<lparr>sc_layer1 := activate_id m (sc_layer1 (sy_sched y))\<rparr>\<rparr>)"
| disallow: "system_step y (y\<lparr>sy_sched := (sy_sched y)\<lparr>sc_layer1 := drop_id m (sc_layer1 (sy_sched y))\<rparr>\<rparr>)"

inductive_cases system_stepE: "system_step y y'"

inductive reachable :: "System \<Rightarrow> System \<Rightarrow> bool" for y0 where
  start: "reachable y0 y0"
| step: "reachable y0 y \<Longrightarrow> system_step y y' \<Longrightarrow> reachable y0 y'"

text \<open>No event is dispatched that was not posted, nor more often than it was posted.\<close>

definition system_ok :: "System \<Rightarrow> bool" where
  "system_ok y \<longleftrightarrow> layer1_ok (sc_layer1 (sy_sched y))
     \<and> layer1_events (sc_layer1 (sy_sched y)) + sy_dispatched y \<subseteq># sy_posted y"

lemma layer2_postChain_result:
  assumes "layer2_postChain me e s = Inr (p, s')" "layer1_ok (sc_layer1 s)" "ev_activity e \<noteq> None"
  shows "p = PASS \<and> layer1_ok (sc_layer1 s') \<and> sc_token s' = sc_token s
    \<and> layer1_events (sc_layer1 s') = add_mset e (layer1_events (sc_layer1 s))"
  using assms
  by (auto simp: layer2_postChain_def bind_result_Inr_iff instruct_def layer1_events_def
      feedPrioritisation_event_def layer1_ok_def pq_push_ordered split: if_splits)

lemma maintainQueueHead_result:
  assumes "maintainQueueHead me now s = Some (Inr (b, s'))" "layer1_ok (sc_layer1 s)"
  shows "holdsGroomingToken me s \<and> layer1_ok (sc_layer1 s') \<and> sc_token s' = sc_token s
    \<and> (b \<longrightarrow> \<not> isOutdated (sc_layer1 s') now) \<and> (\<not> b \<longrightarrow> isOutOfTime (sc_layer1 s') now)
    \<and> instruct_queue (sc_layer1 s') = []
    \<and> layer1_events (sc_layer1 s') \<subseteq># layer1_events (sc_layer1 s)"
proof -
  have okf: "layer1_ok (feedPrioritisation (sc_layer1 s))" by (rule feedPrioritisation_ok [OF assms(2)])
  obtain l where l: "discard_outdated now (feedPrioritisation (sc_layer1 s)) = Some l" "layer1_ok l"
    "\<not> isOutdated l now \<or> isOutOfTime l now"
    "layer1_events l \<subseteq># layer1_events (sc_layer1 s)"
    "instruct_queue l = instruct_queue (feedPrioritisation (sc_layer1 s))"
    using discard_outdated_result [OF okf, of now] layer1_events_feed [OF assms(2)] by metis
  then show ?thesis using assms
    by (auto simp: maintainQueueHead_def holdsGroomingToken_def feedPrioritisation_def split: if_splits)
qed

lemma system_step_ok:
  assumes "system_step y y'" "system_ok y"
  shows "system_ok y'"
  using assms
proof cases
  case (post e me p s')
  then show ?thesis using assms(2) layer2_postChain_result [of me e "sy_sched y" p s']
    by (auto simp: system_ok_def)
next
  case (feed me)
  then show ?thesis using assms(2) maybeFeed_layer1 by (auto simp: system_ok_def)
next
  case (find me now e s')
  obtain e1 s1 where f: "findWork me now (sy_sched y) = Some (Inr (e1, s1))" "layer1_ok (sc_layer1 s1)"
    "ev_activity e1 = None \<or> add_mset e1 (layer1_events (sc_layer1 s1)) \<subseteq># layer1_events (sc_layer1 (sy_sched y))"
    using findWork_result [of "sy_sched y" me now] assms(2) unfolding system_ok_def by metis
  have "e1 = e" "s1 = s'" using f(1) find(2) by simp_all
  then have "add_mset e (layer1_events (sc_layer1 s')) + sy_dispatched y \<subseteq># sy_posted y"
    using f find(3) assms(2) unfolding system_ok_def
    by (meson subset_mset.add_right_mono subset_mset.trans)
  then show ?thesis using f \<open>s1 = s'\<close> find by (simp add: system_ok_def)
next
  case (find_none me now e s')
  obtain e1 s1 where f: "findWork me now (sy_sched y) = Some (Inr (e1, s1))" "layer1_ok (sc_layer1 s1)"
    "ev_activity e1 \<noteq> None \<or> layer1_events (sc_layer1 s1) \<subseteq># layer1_events (sc_layer1 (sy_sched y))"
    using findWork_result [of "sy_sched y" me now] assms(2) unfolding system_ok_def by metis
  have "e1 = e" "s1 = s'" using f(1) find_none(2) by simp_all
  then show ?thesis using f find_none assms(2) unfolding system_ok_def
    by (auto intro: subset_mset.trans [OF subset_mset.add_right_mono])
next
  case (maintain me now b s')
  then show ?thesis using assms(2) maintainQueueHead_result [of me now "sy_sched y" b s']
    by (auto simp: system_ok_def intro: subset_mset.trans [OF subset_mset.add_right_mono])
next
  case (drop me s')
  then show ?thesis using assms(2)
    by (auto simp: system_ok_def dropGroomingToken_def bind_result_Inr_iff)
qed (use assms(2) in \<open>auto simp: system_ok_def\<close>)

lemma reachable_ok: "reachable y0 y \<Longrightarrow> system_ok y0 \<Longrightarrow> system_ok y"
  by (induction rule: reachable.induct) (auto intro: system_step_ok)

subsection \<open>Properties\<close>

definition idle_sched :: "Layer1 \<Rightarrow> Sched" where
  "idle_sched l = \<lparr>sc_layer1 = l, sc_token = None, sc_load = LoadCtl_init (\<lambda>_ a. a), sc_clock = (\<lambda>n. 1000),
     sc_reads = 0, sc_memory = True, sc_sleeps = [], sc_events = [], sc_steps = [], sc_activated = False\<rparr>"

text \<open>C1: Looking for work always returns. An event it yields is due, not past its deadline, of an
  activated manifestation and no later than any event left; the calling thread then holds the
  grooming token. Events past their deadline or deactivated vanish, nothing is duplicated.\<close>

theorem findWork_safe:
  assumes "layer1_ok (sc_layer1 s)"
  shows "\<exists>e s'. findWork me now s = Some (Inr (e, s')) \<and> layer1_ok (sc_layer1 s')
    \<and> layer1_events (sc_layer1 s') \<subseteq># layer1_events (sc_layer1 s)
    \<and> (ev_activity e \<noteq> None \<longrightarrow> starting e \<le> now \<and> now \<le> deadline e
         \<and> isActivated (sc_layer1 s) (manifestation e) \<and> sc_token s' = Some me
         \<and> (\<forall>f \<in># layer1_events (sc_layer1 s'). starting e \<le> starting f)
         \<and> add_mset e (layer1_events (sc_layer1 s')) \<subseteq># layer1_events (sc_layer1 s))"
proof -
  obtain e s' where f: "findWork me now s = Some (Inr (e, s'))" "layer1_ok (sc_layer1 s')"
    "allowed (sc_layer1 s') = allowed (sc_layer1 s)"
    "if ev_activity e = None then layer1_events (sc_layer1 s') \<subseteq># layer1_events (sc_layer1 s)
     else fit_for_dispatch now (sc_layer1 s') e \<and> sc_token s' = Some me
       \<and> add_mset e (layer1_events (sc_layer1 s')) \<subseteq># layer1_events (sc_layer1 s)
       \<and> (\<forall>f \<in># layer1_events (sc_layer1 s'). starting e \<le> starting f)"
    by (rule findWork_result [OF assms, of me now]) blast
  have sub: "layer1_events (sc_layer1 s') \<subseteq># layer1_events (sc_layer1 s)"
    using f(4) by (auto split: if_splits intro: subset_mset.trans [OF _ mset_subset_eq_add_left]
        dest: mset_subset_eq_insertD simp: subset_mset.less_imp_le)
  show ?thesis using f sub
    by (intro exI [where x = e] exI [where x = s'])
      (auto simp: fit_for_dispatch_def isActivated_def split: if_splits)
qed

theorem findWork_safe_witness:
  "\<exists>e s'. findWork 7 1000 (idle_sched (Layer1_init\<lparr>instruct_queue := [sample_event 1 50]\<rparr>)) = Some (Inr (e, s'))
     \<and> layer1_ok (sc_layer1 s')"
  using findWork_safe [of "idle_sched (Layer1_init\<lparr>instruct_queue := [sample_event 1 50]\<rparr>)" 7 1000]
  by (auto simp: idle_sched_def layer1_ok_def Layer1_init_def sample_event_def pq_ordered_def)



text \<open>A thread the load controller sends to sleep holds no grooming token while it sleeps.\<close>

theorem no_sleep_with_token:
  assumes "sc_sleeps (snd (worker_scatteredDelay me now head c s)) \<noteq> sc_sleeps s"
  shows "sc_token (snd (worker_scatteredDelay me now head c s)) \<noteq> Some me"
  using sleeper_holds_no_token [OF assms] by (simp add: holdsGroomingToken_def)

theorem no_sleep_with_token_witness:
  "sc_token (snd (worker_scatteredDelay 7 1000 2000 TENDNEXT (idle_sched Layer1_init))) \<noteq> Some 7"
  by (rule no_sleep_with_token)
    (simp add: worker_scatteredDelay_def doTargetedSleep_def doTendNextHead_def Let_def ensureDroppedGroomingToken_def
      idle_sched_def holds_or_acquires_def acquireGoomingToken_def holdsGroomingToken_def tendedNext_def)

end
