(* ===== verification/Scheduler.thy ===== *)
theory Scheduler
  imports SchedulerCommutator
begin

text \<open>
  The scheduler service, \<open>vault/gear/scheduler.hpp\<close>: the entrance with its sanity check, the
  duty cycle, the builder for schedules, the execution context the activities are run with, and
  the worker functor. Memory reclaimed by the activity allocator and the pool of worker
  threads are not part of the state; calls to them are recorded or omitted. A thread that waits
  for the grooming token while another one holds it does not return by itself: \<open>None\<close>.
\<close>

definition DUTY_CYCLE_PERIOD :: gavl_time_t where "DUTY_CYCLE_PERIOD = Offset_of (1 * TIME_SCALE div 20)"
definition DUTY_CYCLE_TOLERANCE :: gavl_time_t where "DUTY_CYCLE_TOLERANCE = Offset_of (2 * TIME_SCALE div 10)"
definition FUTURE_PLANNING_LIMIT :: gavl_time_t where "FUTURE_PLANNING_LIMIT = Offset_of (20 * TIME_SCALE)"

lemma duty_constants [simp]:
  "DUTY_CYCLE_PERIOD = 50000" "DUTY_CYCLE_TOLERANCE = 200000" "FUTURE_PLANNING_LIMIT = 20000000"
  by (simp_all add: DUTY_CYCLE_PERIOD_def DUTY_CYCLE_TOLERANCE_def FUTURE_PLANNING_LIMIT_def
      TIME_SCALE_def Offset_of_def symmetricLimit_def time_limits int_width)

subsection \<open>Grooming guard and sanity check\<close>

definition requireGroomingTokenHere :: "thread \<Rightarrow> Sched \<Rightarrow> (bool \<times> Sched) partial_result" where
  "requireGroomingTokenHere me s =
     (if holdsGroomingToken me s then Some (Inr (False, s))
      else let r = acquireGoomingToken me s in if fst r then Some (Inr (True, snd r)) else None)"

definition release_guard :: "thread \<Rightarrow> bool \<Rightarrow> Sched \<Rightarrow> Sched" where
  "release_guard me handledActively s =
     (if handledActively \<and> holdsGroomingToken me s then s\<lparr>sc_token := None\<rparr> else s)"

definition sanityCheck :: "ActivationEvent \<Rightarrow> Sched \<Rightarrow> Sched result" where
  "sanityCheck event s =
     (if ev_activity event = None
      then Inl (Err Logic ''Empty event passed into Scheduler entrance'')
      else if startTime event = Time_MIN
      then Inl (Err Fatal ''Attempt to schedule an Activity without valid start time'')
      else if deathTime event = Time_MAX
      then Inl (Err Fatal ''Attempt to schedule an Activity without valid deadline'')
      else let now = fst (read_clock s)
           in if Offset_between now (deathTime event) > FUTURE_PLANNING_LIMIT
              then Inl (Err Fatal ''Attempt to schedule Activity with a deadline into the future'')
              else Inr (snd (read_clock s)))"

subsection \<open>Duty cycle\<close>

definition incScale :: "nat \<Rightarrow> Sched \<Rightarrow> Sched" where
  "incScale steps s = (if steps = 0 then s else s\<lparr>sc_steps := sc_steps s @ [steps]\<rparr>)"

definition post_tick :: "thread \<Rightarrow> gavl_time_t \<Rightarrow> bool \<Rightarrow> Sched world \<Rightarrow> (Sched world) result" where
  "post_tick me now forceContinuation w =
     (let nextTick = Time_of_var (Time_plus now (if forceContinuation then WORK_HORIZON else DUTY_CYCLE_PERIOD));
          deadline = Time_of_var (Time_plus nextTick DUTY_CYCLE_TOLERANCE);
          a = fst (alloc w (Activity_verb TICK)); w1 = snd (alloc w (Activity_verb TICK))
      in bind_result
           (layer2_postChain me (ActivationEvent_of a (Activity_verb TICK) nextTick deadline 0 True) (w_ext w1))
           (\<lambda>r. Inr (w1\<lparr>w_ext := snd r\<rparr>)))"

definition handleDutyCycle :: "thread \<Rightarrow> gavl_time_t \<Rightarrow> bool \<Rightarrow> Sched world \<Rightarrow> (Sched world) partial_result" where
  "handleDutyCycle me now forceContinuation w =
     bind_partial (requireGroomingTokenHere me (w_ext w)) (\<lambda>g.
     bind_partial (maintainQueueHead me now (snd g)) (\<lambda>m.
       if \<not> fst m then Some (Inl (Err Fatal ''scheduler overrun -- trigger Emergency''))
       else let s = incScale (updateState (sc_load (snd m))) (snd m); w1 = w\<lparr>w_ext := s\<rparr>
            in bind_partial
                 (if \<not> layer1_empty (sc_layer1 s) \<or> forceContinuation
                  then Some (post_tick me now forceContinuation w1) else Some (Inr w1))
                 (\<lambda>w2. Some (Inr (w2\<lparr>w_ext := release_guard me (fst g) (w_ext w2)\<rparr>)))))"

definition handleWorkerTermination :: "bool \<Rightarrow> unit result" where
  "handleWorkerTermination isFailure =
     (if isFailure then Inl (Err Fatal ''scheduler overrun -- trigger Emergency'') else Inr ())"

definition ignite :: "thread \<Rightarrow> Sched world \<Rightarrow> (Sched world) partial_result" where
  "ignite me w =
     (let now = fst (read_clock (w_ext w)); w1 = w\<lparr>w_ext := snd (read_clock (w_ext w))\<rparr>
      in bind_partial (handleDutyCycle me now True w1) (\<lambda>w2.
           Some (Inr (if \<not> layer1_empty (sc_layer1 (w_ext w2))
                      then w2\<lparr>w_ext := (w_ext w2)\<lparr>sc_activated := True\<rparr>\<rparr> else w2))))"

definition terminateProcessing :: "Sched \<Rightarrow> Sched" where
  "terminateProcessing s = s\<lparr>sc_layer1 := discardSchedule (sc_layer1 s)\<rparr>"

definition maybeScaleWorkForce :: "thread \<Rightarrow> gavl_time_t \<Rightarrow> Sched world \<Rightarrow> (Sched world) partial_result" where
  "maybeScaleWorkForce me startHorizon w =
     (if layer1_empty (sc_layer1 (w_ext w)) then ignite me w
      else Some (Inr (w\<lparr>w_ext := incScale (ensureCapacity startHorizon (sc_load (w_ext w))) (w_ext w)\<rparr>)))"

definition Scheduler_postChain :: "thread \<Rightarrow> ActivationEvent \<Rightarrow> Sched world \<Rightarrow> (Sched world) partial_result" where
  "Scheduler_postChain me actEvent w =
     bind_partial (Some (sanityCheck actEvent (w_ext w))) (\<lambda>s.
     bind_partial (maybeScaleWorkForce me (startTime actEvent) (w\<lparr>w_ext := s\<rparr>)) (\<lambda>w1.
     bind_partial (Some (layer2_postChain me actEvent (w_ext w1))) (\<lambda>r.
       Some (Inr (w1\<lparr>w_ext := snd r\<rparr>)))))"

subsection \<open>Jobs handed to the scheduler\<close>

definition post_term ::
  "thread \<Rightarrow> Term \<Rightarrow> gavl_time_t \<Rightarrow> gavl_time_t \<Rightarrow> int \<Rightarrow> bool \<Rightarrow> Sched world \<Rightarrow> (Sched world) partial_result" where
  "post_term me t start death manID compulsory w =
     bind_partial (Some (Term_post t)) (\<lambda>a.
     bind_partial (Some (deref w a)) (\<lambda>act.
       Scheduler_postChain me (ActivationEvent_of a act start death manID compulsory) w))"

definition continueMetaJob :: "thread \<Rightarrow> gavl_time_t \<Rightarrow> Job \<Rightarrow> int \<Rightarrow> Sched world \<Rightarrow> (Sched world) partial_result" where
  "continueMetaJob me nextStart planningJob manID w =
     (let deadline = Time_of_var (Time_plus nextStart DUTY_CYCLE_TOLERANCE)
      in bind_partial (Some (buildMetaJob planningJob nextStart deadline w)) (\<lambda>r.
           post_term me (fst r) nextStart deadline manID True (snd r)))"

definition seedCalcStream :: "thread \<Rightarrow> Job \<Rightarrow> int \<Rightarrow> Sched world \<Rightarrow> (Sched world) partial_result" where
  "seedCalcStream me planningJob manID w =
     bind_partial (requireGroomingTokenHere me (w_ext w)) (\<lambda>g.
       let s = (snd g)\<lparr>sc_layer1 := activate_id manID (sc_layer1 (snd g))\<rparr>
       in bind_partial (continueMetaJob me (fst (read_clock s)) planningJob manID (w\<lparr>w_ext := snd (read_clock s)\<rparr>))
            (\<lambda>w1. Some (Inr (w1\<lparr>w_ext := release_guard me (fst g) (w_ext w1)\<rparr>))))"

record ScheduleSpec =
  sp_job :: Job
  sp_start :: gavl_time_t
  sp_death :: gavl_time_t
  sp_manID :: int
  sp_compulsory :: bool
  sp_term :: "Term option"

definition defineSchedule :: "Job \<Rightarrow> ScheduleSpec" where
  "defineSchedule job = \<lparr>sp_job = job, sp_start = Time_MIN, sp_death = Time_MAX, sp_manID = 0,
     sp_compulsory = False, sp_term = None\<rparr>"

definition spec_startOffset :: "int \<Rightarrow> ScheduleSpec \<Rightarrow> Sched \<Rightarrow> ScheduleSpec \<times> Sched" where
  "spec_startOffset afterNow sp s =
     (sp\<lparr>sp_start := Time_plus (fst (read_clock s)) (TimeValue_raw afterNow)\<rparr>, snd (read_clock s))"

definition spec_startTime :: "gavl_time_t \<Rightarrow> ScheduleSpec \<Rightarrow> ScheduleSpec" where
  "spec_startTime fixedTime sp = sp\<lparr>sp_start := fixedTime\<rparr>"

definition spec_lifeWindow :: "int \<Rightarrow> ScheduleSpec \<Rightarrow> ScheduleSpec" where
  "spec_lifeWindow afterStart sp = sp\<lparr>sp_death := TimeVar_plus (sp_start sp) (TimeValue_raw afterStart)\<rparr>"

definition spec_manifestation :: "int \<Rightarrow> ScheduleSpec \<Rightarrow> ScheduleSpec" where
  "spec_manifestation manID sp = sp\<lparr>sp_manID := manID\<rparr>"

definition spec_compulsory :: "bool \<Rightarrow> ScheduleSpec \<Rightarrow> ScheduleSpec" where
  "spec_compulsory indeed sp = sp\<lparr>sp_compulsory := indeed\<rparr>"

definition maybeBuildTerm :: "ScheduleSpec \<Rightarrow> 's world \<Rightarrow> (ScheduleSpec \<times> 's world) result" where
  "maybeBuildTerm sp w =
     (if sp_term sp \<noteq> None then Inr (sp, w)
      else bind_result (buildCalculationJob (sp_job sp) (sp_start sp) (sp_death sp) w) (\<lambda>r.
             Inr (sp\<lparr>sp_term := Some (fst r)\<rparr>, snd r)))"

definition spec_term :: "ScheduleSpec \<Rightarrow> Term result" where
  "spec_term sp = (case sp_term sp of None \<Rightarrow> Inl (Err Assertion ''term_'') | Some t \<Rightarrow> Inr t)"

definition spec_post :: "thread \<Rightarrow> ScheduleSpec \<Rightarrow> Sched world \<Rightarrow> (ScheduleSpec \<times> Sched world) partial_result" where
  "spec_post me sp w =
     bind_partial (Some (maybeBuildTerm sp w)) (\<lambda>r.
     bind_partial (Some (spec_term (fst r))) (\<lambda>t.
     bind_partial (post_term me t (sp_start sp) (sp_death sp) (sp_manID sp) (sp_compulsory sp) (snd r)) (\<lambda>w1.
       Some (Inr (fst r, w1)))))"

definition linkToSuccessor ::
  "ScheduleSpec \<Rightarrow> ScheduleSpec \<Rightarrow> bool \<Rightarrow> 's world \<Rightarrow> (ScheduleSpec \<times> ScheduleSpec \<times> 's world) result" where
  "linkToSuccessor sp succSpec unlimitedTime w =
     bind_result (maybeBuildTerm sp w) (\<lambda>r1.
     bind_result (maybeBuildTerm succSpec (snd r1)) (\<lambda>r2.
     bind_result (spec_term (fst r1)) (\<lambda>t1.
     bind_result (spec_term (fst r2)) (\<lambda>t2.
     bind_result (appendNotificationTo t1 t2 unlimitedTime (snd r2)) (\<lambda>r3.
       Inr (fst r1, (fst r2)\<lparr>sp_term := Some (fst r3)\<rparr>, snd r3))))))"

definition linkToPredecessor ::
  "ScheduleSpec \<Rightarrow> ScheduleSpec \<Rightarrow> bool \<Rightarrow> 's world \<Rightarrow> (ScheduleSpec \<times> ScheduleSpec \<times> 's world) result" where
  "linkToPredecessor sp predSpec unlimitedTime w =
     bind_result (maybeBuildTerm predSpec w) (\<lambda>r1.
     bind_result (maybeBuildTerm sp (snd r1)) (\<lambda>r2.
     bind_result (spec_term (fst r1)) (\<lambda>t1.
     bind_result (spec_term (fst r2)) (\<lambda>t2.
     bind_result (appendNotificationTo t1 t2 unlimitedTime (snd r2)) (\<lambda>r3.
       Inr ((fst r2)\<lparr>sp_term := Some (fst r3)\<rparr>, fst r1, snd r3))))))"

subsection \<open>The execution context\<close>

text \<open>Job functors and hooks are supplied by the users of the scheduler.\<close>

record Externals =
  x_job :: "functor_id \<Rightarrow> job_param \<Rightarrow> Sched world \<Rightarrow> bool \<times> Activity list \<times> Sched"
  x_hook_activation :: "hook_id \<Rightarrow> gavl_time_t \<Rightarrow> Sched \<Rightarrow> Proc \<times> Sched"
  x_hook_notify :: "hook_id \<Rightarrow> gavl_time_t \<Rightarrow> Sched \<Rightarrow> Proc \<times> Sched"
  x_hook_deadline :: "hook_id \<Rightarrow> gavl_time_t"

definition ctx_post :: "thread \<Rightarrow> ActivationEvent \<Rightarrow> gavl_time_t \<Rightarrow> gavl_time_t \<Rightarrow> addr \<Rightarrow> Sched step" where
  "ctx_post me rootEvent when dead chain w =
     bind_result (deref w chain) (\<lambda>act.
       let chainEvent = refineTo rootEvent chain act when dead
       in bind_result (sanityCheck chainEvent (w_ext w)) (\<lambda>s.
          bind_result (layer2_postChain me chainEvent s) (\<lambda>r. Inr (fst r, w\<lparr>w_ext := snd r\<rparr>))))"

definition ctx_work :: "thread \<Rightarrow> gavl_time_t \<Rightarrow> nat \<Rightarrow> Sched world \<Rightarrow> (Sched world) result" where
  "ctx_work me now qualifier w =
     bind_result (dropGroomingToken me (w_ext w)) (\<lambda>s.
       Inr (w\<lparr>w_ext := s\<lparr>sc_events := sc_events s @ [(qualifier, WorkStart now)]\<rparr>\<rparr>))"

definition ctx_done :: "gavl_time_t \<Rightarrow> nat \<Rightarrow> Sched world \<Rightarrow> (Sched world) result" where
  "ctx_done now qualifier w =
     Inr (w\<lparr>w_ext := (w_ext w)\<lparr>sc_events := sc_events (w_ext w) @ [(qualifier, WorkStop now)]\<rparr>\<rparr>)"

text \<open>
  A step of the activity language has no value for not returning; a tick that would wait for
  the token of another thread is an error value here.
\<close>

definition ctx_tick :: "thread \<Rightarrow> gavl_time_t \<Rightarrow> Sched step" where
  "ctx_tick me now w =
     (case handleDutyCycle me now False w of
        None \<Rightarrow> Inl (Err State ''blocked'')
      | Some r \<Rightarrow> bind_result r (\<lambda>w'. Inr (PASS, w')))"

definition ExecutionCtx :: "thread \<Rightarrow> Externals \<Rightarrow> ActivationEvent \<Rightarrow> Sched exe" where
  "ExecutionCtx me x rootEvent = \<lparr>
     ex_post = ctx_post me rootEvent,
     ex_work = ctx_work me,
     ex_done = ctx_done,
     ex_tick = ctx_tick me,
     ex_clock = read_clock,
     ex_job = x_job x,
     ex_hook_activation = x_hook_activation x,
     ex_hook_notify = x_hook_notify x,
     ex_hook_deadline = x_hook_deadline x\<rparr>"

definition doWork :: "thread \<Rightarrow> Externals \<Rightarrow> Sched world \<Rightarrow> (Proc \<times> Sched world) partial_result" where
  "doWork me x w =
     dispatchCapacity me (\<lambda>toDispatch. dispatchChain (ExecutionCtx me x toDispatch) (ev_activity toDispatch)) w"

subsection \<open>The context keeps the activity graph\<close>

lemma post_tick_ext: "post_tick me now f w = Inr w' \<Longrightarrow> heap_ext w w'"
  by (auto simp: post_tick_def Let_def bind_result_Inr_iff alloc_def heap_ext_append)

lemma handleDutyCycle_ext: "handleDutyCycle me now f w = Some (Inr w') \<Longrightarrow> heap_ext w w'"
  unfolding handleDutyCycle_def Let_def bind_partial_Inr_iff
  by (auto simp: bind_partial_Inr_iff split: if_splits dest!: post_tick_ext)
    (auto simp: heap_ext_def)

interpretation sched_ctx: exec_context "ExecutionCtx me x rootEvent" for me x rootEvent
proof
  fix t p w w' and d :: gavl_time_t and a :: addr and n :: nat
  show "ex_post (ExecutionCtx me x rootEvent) t d a w = Inr (p, w') \<Longrightarrow> heap_ext w w'"
    by (auto simp: ExecutionCtx_def ctx_post_def bind_result_Inr_iff Let_def heap_ext_same_heap)
  show "ex_work (ExecutionCtx me x rootEvent) t n w = Inr w' \<Longrightarrow> heap_ext w w'"
    by (auto simp: ExecutionCtx_def ctx_work_def bind_result_Inr_iff heap_ext_same_heap)
  show "ex_done (ExecutionCtx me x rootEvent) t n w = Inr w' \<Longrightarrow> heap_ext w w'"
    by (auto simp: ExecutionCtx_def ctx_done_def heap_ext_same_heap)
  show "ex_tick (ExecutionCtx me x rootEvent) t w = Inr (p, w') \<Longrightarrow> heap_ext w w'"
    by (auto simp: ExecutionCtx_def ctx_tick_def bind_result_Inr_iff split: option.splits dest: handleDutyCycle_ext)
qed

subsection \<open>Properties of the service\<close>

lemma post_tick_result:
  assumes "layer1_ok (sc_layer1 (w_ext w))" "holdsGroomingToken me (w_ext w)" "\<bar>now\<bar> \<le> Time_MAX"
  obtains w' where "post_tick me now f w = Inr w'" "layer1_ok (sc_layer1 (w_ext w'))" "sc_token (w_ext w') = Some me"
    "layer1_events (sc_layer1 (w_ext w')) = add_mset
       \<lparr>ev_activity = Some (length (w_heap w)), starting = now + (if f then 5000 else 50000),
        deadline = now + (if f then 205000 else 250000), manifestation = 0, isCompulsory = True\<rparr>
       (layer1_events (sc_layer1 (w_ext w)))"
proof -
  have t: "Time_plus now d = now + d" if "\<bar>d\<bar> \<le> 1000000" for d
    unfolding Time_plus_def TimeVar_plus_def using assms(3) that by (intro i64_id) (auto simp: time_limits)
  have t2: "Time_plus (now + d) 200000 = now + d + 200000" if "\<bar>d\<bar> \<le> 1000000" for d
    unfolding Time_plus_def TimeVar_plus_def using assms(3) that by (intro i64_id) (auto simp: time_limits)
  have e: "ActivationEvent_of a (Activity_verb TICK) st dl 0 True
      = \<lparr>ev_activity = Some a, starting = st, deadline = dl, manifestation = 0, isCompulsory = True\<rparr>" for a st dl
    by (simp add: ActivationEvent_of_def constrainedStart_def constrainedDeath_def Activity_verb_def)
  have tick: "Time_of_var (Time_plus now (if f then WORK_HORIZON else DUTY_CYCLE_PERIOD)) = now + (if f then 5000 else 50000)"
    using t [of 5000] t [of 50000] by (simp add: Time_of_var_def)
  have dead: "Time_of_var (Time_plus (now + (if f then 5000 else 50000)) DUTY_CYCLE_TOLERANCE) = now + (if f then 205000 else 250000)"
    using t2 [of 5000] t2 [of 50000] by (simp add: Time_of_var_def)
  define e1 where "e1 = \<lparr>ev_activity = Some (length (w_heap w)), starting = now + (if f then 5000 else 50000),
     deadline = now + (if f then 205000 else 250000), manifestation = 0, isCompulsory = True\<rparr>"
  define w1 where "w1 = w\<lparr>w_heap := w_heap w @ [Activity_verb TICK],
     w_ext := (w_ext w)\<lparr>sc_layer1 := feedPrioritisation_event e1 (sc_layer1 (w_ext w))\<rparr>\<rparr>"
  have "post_tick me now f w = Inr w1"
    using assms(2) unfolding post_tick_def tick dead e Let_def
    by (simp add: alloc_def layer2_postChain_def e1_def w1_def)
  moreover have "layer1_ok (sc_layer1 (w_ext w1))"
    using assms(1) by (simp add: w1_def e1_def feedPrioritisation_event_ok)
  ultimately show ?thesis
    using assms(2) by (intro that [of w1])
      (simp_all add: w1_def holdsGroomingToken_def layer1_events_def feedPrioritisation_event_def e1_def)
qed

lemma requireGroomingToken_result:
  assumes "sc_token s = None \<or> sc_token s = Some me"
  shows "requireGroomingTokenHere me s = Some (Inr (sc_token s = None, s\<lparr>sc_token := Some me\<rparr>))"
  using assms by (auto simp: requireGroomingTokenHere_def holdsGroomingToken_def acquireGoomingToken_def)

lemma incScale_fields [simp]: "sc_layer1 (incScale n s) = sc_layer1 s" "sc_token (incScale n s) = sc_token s"
  "sc_memory (incScale n s) = sc_memory s"
  by (simp_all add: incScale_def)

lemma maintainQueueHead_returns:
  assumes "layer1_ok (sc_layer1 s)" "holdsGroomingToken me s"
  obtains b s' where "maintainQueueHead me now s = Some (Inr (b, s'))" "layer1_ok (sc_layer1 s')" "sc_token s' = Some me"
    "b \<longleftrightarrow> \<not> isOutOfTime (sc_layer1 s') now" "layer1_events (sc_layer1 s') \<subseteq># layer1_events (sc_layer1 s)"
proof -
  have okf: "layer1_ok (feedPrioritisation (sc_layer1 s))" by (rule feedPrioritisation_ok [OF assms(1)])
  obtain l where l: "discard_outdated now (feedPrioritisation (sc_layer1 s)) = Some l" "layer1_ok l"
    "layer1_events l \<subseteq># layer1_events (feedPrioritisation (sc_layer1 s))"
    using discard_outdated_result [OF okf, of now] by blast
  then show ?thesis using assms
    by (intro that [of "\<not> isOutOfTime l now" "s\<lparr>sc_layer1 := l\<rparr>"])
      (auto simp: maintainQueueHead_def holdsGroomingToken_def)
qed

lemma handleDutyCycle_result:
  assumes ok: "layer1_ok (sc_layer1 (w_ext w))" and tok: "sc_token (w_ext w) = None \<or> sc_token (w_ext w) = Some me"
    and now: "\<bar>now\<bar> \<le> Time_MAX"
  obtains (emergency) "handleDutyCycle me now f w = Some (Inl (Err Fatal ''scheduler overrun -- trigger Emergency''))"
  | (cycle) w' rest where "handleDutyCycle me now f w = Some (Inr w')" "layer1_ok (sc_layer1 (w_ext w'))"
      "sc_token (w_ext w') = sc_token (w_ext w)" "rest \<subseteq># layer1_events (sc_layer1 (w_ext w))"
      "layer1_events (sc_layer1 (w_ext w')) = (if rest = {#} \<and> \<not> f then {#} else
        add_mset \<lparr>ev_activity = Some (length (w_heap w)), starting = now + (if f then 5000 else 50000),
        deadline = now + (if f then 205000 else 250000), manifestation = 0, isCompulsory = True\<rparr> rest)"
proof -
  define s1 where "s1 = (w_ext w)\<lparr>sc_token := Some me\<rparr>"
  have req: "requireGroomingTokenHere me (w_ext w) = Some (Inr (sc_token (w_ext w) = None, s1))"
    using requireGroomingToken_result [OF tok] by (simp add: s1_def)
  obtain b s' where m: "maintainQueueHead me now s1 = Some (Inr (b, s'))" "layer1_ok (sc_layer1 s')"
    "sc_token s' = Some me" "layer1_events (sc_layer1 s') \<subseteq># layer1_events (sc_layer1 (w_ext w))"
  proof -
    have "layer1_ok (sc_layer1 s1)" "holdsGroomingToken me s1" "sc_layer1 s1 = sc_layer1 (w_ext w)"
      using ok by (simp_all add: s1_def holdsGroomingToken_def)
    with that show ?thesis using maintainQueueHead_returns [of s1 me now] by metis
  qed
  define s2 where "s2 = incScale (updateState (sc_load s')) s'"
  show ?thesis
  proof (cases b)
    case False
    then show ?thesis using m req by (intro emergency) (simp add: handleDutyCycle_def)
  next
    case True
    have e: "layer1_empty (sc_layer1 s') \<longleftrightarrow> layer1_events (sc_layer1 s') = {#}"
      by (auto simp: layer1_empty_def layer1_events_def)
    have rel: "sc_token (release_guard me (sc_token (w_ext w) = None) s) = sc_token (w_ext w)"
      "sc_layer1 (release_guard me c s) = sc_layer1 s" if "sc_token s = Some me" for s c
      using that tok by (auto simp: release_guard_def holdsGroomingToken_def)
    show ?thesis
    proof (cases "layer1_empty (sc_layer1 s') \<and> \<not> f")
      case True
      then show ?thesis using m req \<open>b\<close> e
        by (intro cycle [of "w\<lparr>w_ext := release_guard me (sc_token (w_ext w) = None) s2\<rparr>" "layer1_events (sc_layer1 s')"])
          (simp_all add: handleDutyCycle_def Let_def s2_def rel)
    next
      case False
      obtain w2 where t: "post_tick me now f (w\<lparr>w_ext := s2\<rparr>) = Inr w2" "layer1_ok (sc_layer1 (w_ext w2))"
        "sc_token (w_ext w2) = Some me"
        "layer1_events (sc_layer1 (w_ext w2)) = add_mset
       \<lparr>ev_activity = Some (length (w_heap w)), starting = now + (if f then 5000 else 50000),
        deadline = now + (if f then 205000 else 250000), manifestation = 0, isCompulsory = True\<rparr>
       (layer1_events (sc_layer1 s'))"
        using post_tick_result [of "w\<lparr>w_ext := s2\<rparr>" me now f] m now
        by (auto simp: s2_def holdsGroomingToken_def)
      have h: "handleDutyCycle me now f w = Some (Inr (w2\<lparr>w_ext := release_guard me (sc_token (w_ext w) = None) (w_ext w2)\<rparr>))"
        using False m req \<open>b\<close> t(1) by (simp add: handleDutyCycle_def Let_def s2_def)
      show ?thesis
        by (rule cycle [OF h _ _ m(4)]) (use False t rel e in auto)
    qed
  qed
qed

text \<open>A worker's round returns whenever the chains of all pending events are finite.\<close>

lemma doWork_returns:
  assumes "layer1_ok (sc_layer1 (w_ext w))"
    and "\<forall>e \<in># layer1_events (sc_layer1 (w_ext w)). \<exists>as. chain_path w (ev_activity e) as"
  shows "\<exists>r. doWork me x w = Some r"
  unfolding doWork_def
proof (rule dispatchCapacity_returns [OF assms(1)])
  fix e and w' :: "Sched world"
  assume e: "e \<in># layer1_events (sc_layer1 (w_ext w))" and h: "w_heap w' = w_heap w"
  obtain as where "chain_path w (ev_activity e) as" using assms(2) e by blast
  then have "chain_path w' (ev_activity e) as" using chain_path_ext heap_ext_same_heap h by blast
  then show "\<exists>r. dispatchChain (ExecutionCtx me x e) (ev_activity e) w' = Some r"
    using sched_ctx.dispatchChain_returns by blast
qed

lemma sanityCheck_iff:
  "(\<exists>s'. sanityCheck e s = Inr s') \<longleftrightarrow> ev_activity e \<noteq> None \<and> startTime e \<noteq> Time_MIN \<and> deathTime e \<noteq> Time_MAX
     \<and> Offset_between (fst (read_clock s)) (deathTime e) \<le> 20000000"
  by (simp add: sanityCheck_def Let_def not_less)





text \<open>The entrance accepts exactly the events that have an activity, a start time, a deadline, and
  a deadline no more than 20 seconds away.\<close>

theorem entrance_check:
  shows "(\<exists>s'. sanityCheck e s = Inr s') \<longleftrightarrow> ev_activity e \<noteq> None \<and> startTime e \<noteq> Time_MIN
     \<and> deathTime e \<noteq> Time_MAX \<and> Offset_between (fst (read_clock s)) (deathTime e) \<le> 20000000"
  by (rule sanityCheck_iff)

end
