(* ===== verification/ExtentFamily.thy ===== *)
theory ExtentFamily
  imports Prelude
begin

text \<open>
  The pool of memory extents, \<open>vault/mem/extent-family.hpp\<close>: an array of storage extents used
  cyclically between two positions, which grows in the middle when it is wrapped around. An
  extent is represented by its address, a number; \<open>ef_fresh\<close> is the next address the heap hands
  out. The locale \<open>extent_pool\<close> is the contract as a queue of extents; the lemmas of the block
  allocator rest on it.
\<close>

type_synonym extent = nat

record ExtFam =
  ef_slots :: "extent list"
  ef_start :: nat
  ef_after :: nat
  ef_fresh :: extent
  ef_extent_size :: nat

definition EXCESS_ALLOC :: nat where
  "EXCESS_ALLOC = 5"

definition ALLOC_SAFETY_LIMIT :: nat where
  "ALLOC_SAFETY_LIMIT = 8 * 1024 * 1024 * 1024"

definition fresh_extents :: "nat \<Rightarrow> ExtFam \<Rightarrow> extent list" where
  "fresh_extents cnt ef = [ef_fresh ef ..< ef_fresh ef + cnt]"

definition ExtFam_init :: "nat \<Rightarrow> nat \<Rightarrow> ExtFam" where
  "ExtFam_init initialCnt extent_size =
     \<lparr>ef_slots = [0..<initialCnt], ef_start = 0, ef_after = 0, ef_fresh = initialCnt, ef_extent_size = extent_size\<rparr>"

definition slotCnt :: "ExtFam \<Rightarrow> nat" where
  "slotCnt ef = length (ef_slots ef)"

definition isWrapped :: "ExtFam \<Rightarrow> bool" where
  "isWrapped ef \<longleftrightarrow> ef_after ef < ef_start ef"

definition ef_empty :: "ExtFam \<Rightarrow> bool" where
  "ef_empty ef \<longleftrightarrow> ef_start ef = ef_after ef"

definition activeSlotCnt :: "ExtFam \<Rightarrow> nat" where
  "activeSlotCnt ef =
     (if \<not> isWrapped ef then ef_after ef - ef_start ef
      else (ef_after ef - 0) + (slotCnt ef - ef_start ef))"

definition freeSlotCnt :: "ExtFam \<Rightarrow> nat" where
  "freeSlotCnt ef = slotCnt ef - activeSlotCnt ef"

definition canAccomodate :: "nat \<Rightarrow> ExtFam \<Rightarrow> bool" where
  "canAccomodate addCnt ef \<longleftrightarrow> addCnt < freeSlotCnt ef"

definition incWrap :: "ExtFam \<Rightarrow> nat \<Rightarrow> nat \<Rightarrow> nat" where
  "incWrap ef idx inc = (idx + inc) mod slotCnt ef"

definition isValidPos :: "ExtFam \<Rightarrow> nat \<Rightarrow> bool" where
  "isValidPos ef idx \<longleftrightarrow>
     (if isWrapped ef then (ef_start ef \<le> idx \<and> idx < slotCnt ef) \<or> idx < ef_after ef
      else ef_start ef \<le> idx \<and> idx < ef_after ef)"

definition matchPos :: "ExtFam \<Rightarrow> nat \<Rightarrow> extent \<Rightarrow> bool" where
  "matchPos ef idx address \<longleftrightarrow> ef_slots ef ! idx = address"

definition sanityCheckAllocSize :: "nat \<Rightarrow> ExtFam \<Rightarrow> unit result" where
  "sanityCheckAllocSize addCnt ef =
     (if (slotCnt ef + addCnt) * ef_extent_size ef > ALLOC_SAFETY_LIMIT
      then Inl (Err Fatal ''Raw allocation exceeds safety limit'') else Inr ())"

text \<open>\<open>std::rotate\<close> on the range from \<open>first\<close> to the end: the part from \<open>mid\<close> on comes first.\<close>

definition std_rotate :: "nat \<Rightarrow> nat \<Rightarrow> 'a list \<Rightarrow> 'a list" where
  "std_rotate first mid xs = take first xs @ drop mid xs @ take (mid - first) (drop first xs)"

definition grow_slots :: "nat \<Rightarrow> ExtFam \<Rightarrow> ExtFam" where
  "grow_slots addSiz ef =
     (let oldSiz = slotCnt ef;
          ef1 = ef\<lparr>ef_slots := ef_slots ef @ fresh_extents addSiz ef, ef_fresh := ef_fresh ef + addSiz\<rparr>
      in if isWrapped ef1
         then ef1\<lparr>ef_slots := std_rotate (ef_start ef1) oldSiz (ef_slots ef1), ef_start := ef_start ef1 + addSiz\<rparr>
         else ef1)"

definition openNew :: "nat \<Rightarrow> ExtFam \<Rightarrow> ExtFam result" where
  "openNew cnt ef =
     bind_result
       (if \<not> canAccomodate cnt ef
        then let addSiz = cnt - freeSlotCnt ef + EXCESS_ALLOC
             in bind_result (sanityCheckAllocSize addSiz ef) (\<lambda>_. Inr (grow_slots addSiz ef))
        else Inr ef)
       (\<lambda>ef1. Inr (ef1\<lparr>ef_after := incWrap ef1 (ef_after ef1) cnt\<rparr>))"

definition dropOld :: "nat \<Rightarrow> ExtFam \<Rightarrow> ExtFam result" where
  "dropOld cnt ef =
     (if cnt \<le> activeSlotCnt ef then Inr (ef\<lparr>ef_start := incWrap ef (ef_start ef) cnt\<rparr>)
      else Inl (Err Assertion ''cnt <= activeSlotCnt()''))"

definition last_pos :: "ExtFam \<Rightarrow> nat" where
  "last_pos ef = incWrap ef (ef_after ef) (slotCnt ef - 1)"

definition last_extent :: "ExtFam \<Rightarrow> extent result" where
  "last_extent ef = (if ef_empty ef then Inl (Err Assertion ''not empty()'') else Inr (ef_slots ef ! last_pos ef))"

text \<open>The state core of iteration over the extents: an index, and its steps.\<close>

definition link_checkPoint :: "ExtFam \<Rightarrow> nat \<Rightarrow> bool" where
  "link_checkPoint ef index \<longleftrightarrow> index \<noteq> ef_after ef"

definition link_next :: "ExtFam \<Rightarrow> nat \<Rightarrow> nat" where
  "link_next ef index = incWrap ef index 1"

definition link_expandAlloc :: "nat \<Rightarrow> nat \<Rightarrow> ExtFam \<Rightarrow> (nat \<times> ExtFam) result" where
  "link_expandAlloc index cnt ef =
     bind_result (openNew cnt ef) (\<lambda>ef1.
       Inr (if index \<ge> ef_start ef then index + (ef_start ef1 - ef_start ef) else index, ef1))"

primrec validate_from :: "nat \<Rightarrow> ExtFam \<Rightarrow> extent \<Rightarrow> nat \<Rightarrow> nat result" where
  "validate_from 0 ef known index = Inl (Err Logic ''Unable to fix-up an iterator after Extent allocation'')"
| "validate_from (Suc n) ef known index =
     (if matchPos ef index known then Inr index else validate_from n ef known (link_next ef index))"

definition validatePos :: "ExtFam \<Rightarrow> extent \<Rightarrow> nat \<Rightarrow> nat result" where
  "validatePos ef known index = validate_from (slotCnt ef) ef known index"

primrec iterate_extents :: "nat \<Rightarrow> ExtFam \<Rightarrow> nat \<Rightarrow> extent list" where
  "iterate_extents 0 ef index = []"
| "iterate_extents (Suc n) ef index =
     (if link_checkPoint ef index then ef_slots ef ! index # iterate_extents n ef (link_next ef index) else [])"

subsection \<open>The pool as a queue\<close>

definition active_extents :: "ExtFam \<Rightarrow> extent list" where
  "active_extents ef =
     (if isWrapped ef then drop (ef_start ef) (ef_slots ef) @ take (ef_after ef) (ef_slots ef)
      else take (ef_after ef - ef_start ef) (drop (ef_start ef) (ef_slots ef)))"

definition ef_ok :: "ExtFam \<Rightarrow> bool" where
  "ef_ok ef \<longleftrightarrow> ef_start ef < slotCnt ef \<and> ef_after ef < slotCnt ef \<and> distinct (ef_slots ef)
     \<and> (\<forall>x \<in> set (ef_slots ef). x < ef_fresh ef)"

locale extent_pool =
  fixes ok :: "'p \<Rightarrow> bool"
    and active :: "'p \<Rightarrow> 'x list"
    and open_new :: "nat \<Rightarrow> 'p \<Rightarrow> 'p result"
    and drop_old :: "nat \<Rightarrow> 'p \<Rightarrow> 'p result"
  assumes active_distinct: "ok p \<Longrightarrow> distinct (active p)"
    and open_new_active: "ok p \<Longrightarrow> open_new n p = Inr p' \<Longrightarrow>
      ok p' \<and> (\<exists>xs. active p' = active p @ xs \<and> length xs = n)"
    and drop_old_active: "ok p \<Longrightarrow> n \<le> length (active p) \<Longrightarrow>
      \<exists>p'. drop_old n p = Inr p' \<and> ok p' \<and> active p' = drop n (active p)"
begin

text \<open>What is active stays active when extents are opened; new ones are different from it.\<close>

lemma open_new_fresh:
  assumes "ok p" "open_new n p = Inr p'"
  shows "set (active p) \<subseteq> set (active p')" "\<exists>xs. active p' = active p @ xs \<and> length xs = n \<and> set xs \<inter> set (active p) = {}"
proof -
  obtain xs where xs: "ok p'" "active p' = active p @ xs" "length xs = n" using open_new_active [OF assms] by blast
  show "set (active p) \<subseteq> set (active p')" using xs by simp
  have "distinct (active p @ xs)" using active_distinct [OF xs(1)] xs(2) by simp
  then show "\<exists>xs. active p' = active p @ xs \<and> length xs = n \<and> set xs \<inter> set (active p) = {}" using xs by auto
qed

lemma drop_old_kept:
  assumes "ok p" "n \<le> length (active p)" "i \<ge> n" "i < length (active p)" "drop_old n p = Inr p'"
  shows "active p ! i \<in> set (active p')"
  using drop_old_active [OF assms(1,2)] assms(3-5)
  by (auto simp: in_set_conv_nth intro!: exI [where x = "i - n"])

end

lemma fresh_extents_props [simp]: "length (fresh_extents n ef) = n" "distinct (fresh_extents n ef)"
  "set (fresh_extents n ef) = {ef_fresh ef ..< ef_fresh ef + n}"
  by (simp_all add: fresh_extents_def)

lemma activeSlotCnt_length: "ef_ok ef \<Longrightarrow> activeSlotCnt ef = length (active_extents ef)"
  by (auto simp: activeSlotCnt_def active_extents_def ef_ok_def slotCnt_def isWrapped_def)

lemma activeSlotCnt_less: "ef_ok ef \<Longrightarrow> activeSlotCnt ef < slotCnt ef"
  by (auto simp: activeSlotCnt_def ef_ok_def isWrapped_def)

lemma grow_slots_ok:
  assumes "ef_ok ef"
  shows "ef_ok (grow_slots n ef)" and "active_extents (grow_slots n ef) = active_extents ef"
    and "activeSlotCnt (grow_slots n ef) = activeSlotCnt ef" and "slotCnt (grow_slots n ef) = slotCnt ef + n"
    and "ef_extent_size (grow_slots n ef) = ef_extent_size ef"
proof -
  have d: "distinct (take k (ef_slots ef) @ fresh_extents n ef @ drop k (ef_slots ef))" for k
  proof -
    have "distinct (take k (ef_slots ef) @ drop k (ef_slots ef))" using assms by (simp add: ef_ok_def)
    moreover have "set (take k (ef_slots ef)) \<subseteq> {..<ef_fresh ef}" "set (drop k (ef_slots ef)) \<subseteq> {..<ef_fresh ef}"
      using assms by (auto simp: ef_ok_def dest: in_set_takeD in_set_dropD)
    ultimately show ?thesis unfolding distinct_append set_append fresh_extents_props by fastforce
  qed
  show "ef_ok (grow_slots n ef)"
    using assms d [of "ef_start ef"] d [of "length (ef_slots ef)"]
    by (fastforce simp: grow_slots_def Let_def ef_ok_def slotCnt_def isWrapped_def std_rotate_def
        dest: in_set_takeD in_set_dropD)
  show "active_extents (grow_slots n ef) = active_extents ef"
    using assms by (auto simp: grow_slots_def Let_def ef_ok_def slotCnt_def isWrapped_def std_rotate_def active_extents_def)
  show "activeSlotCnt (grow_slots n ef) = activeSlotCnt ef" "slotCnt (grow_slots n ef) = slotCnt ef + n"
    using assms by (auto simp: grow_slots_def Let_def ef_ok_def slotCnt_def isWrapped_def std_rotate_def activeSlotCnt_def)
  show "ef_extent_size (grow_slots n ef) = ef_extent_size ef" by (simp add: grow_slots_def Let_def)
qed

lemma advance_ok:
  assumes "ef_ok ef" "canAccomodate n ef"
  shows "ef_ok (ef\<lparr>ef_after := incWrap ef (ef_after ef) n\<rparr>)
    \<and> (\<exists>xs. active_extents (ef\<lparr>ef_after := incWrap ef (ef_after ef) n\<rparr>) = active_extents ef @ xs \<and> length xs = n)"
proof -
  let ?n = "slotCnt ef" and ?S = "ef_slots ef" and ?a = "ef_after ef" and ?s = "ef_start ef"
  let ?ef = "ef\<lparr>ef_after := incWrap ef ?a n\<rparr>"
  have b: "?s < ?n" "?a < ?n" "activeSlotCnt ef + n < ?n" "length ?S = ?n"
    using assms by (auto simp: ef_ok_def canAccomodate_def freeSlotCnt_def slotCnt_def)
  then have n: "0 < ?n" by simp
  have ok: "ef_ok ?ef" using assms(1) n by (simp add: ef_ok_def slotCnt_def incWrap_def)
  consider (wrapped) "?a < ?s" | (room) "?s \<le> ?a" "?a + n < ?n" | (turn) "?s \<le> ?a" "?n \<le> ?a + n" by linarith
  then have "\<exists>xs. active_extents ?ef = active_extents ef @ xs \<and> length xs = n"
  proof cases
    case wrapped
    then have w: "?a + n < ?s" using b by (simp add: activeSlotCnt_def isWrapped_def)
    then have i: "incWrap ef ?a n = ?a + n" using b by (simp add: incWrap_def)
    show ?thesis using wrapped w b
      by (intro exI [where x = "take n (drop ?a ?S)"])
        (simp add: active_extents_def isWrapped_def i take_add)
  next
    case room
    then have i: "incWrap ef ?a n = ?a + n" by (simp add: incWrap_def)
    have e: "?a + n - ?s = (?a - ?s) + n" using room by simp
    have "active_extents ?ef = take (?a + n - ?s) (drop ?s ?S)" using room by (simp add: active_extents_def isWrapped_def i)
    also have "\<dots> = active_extents ef @ take n (drop ?a ?S)"
      unfolding e take_add using room by (simp add: active_extents_def isWrapped_def)
    finally show ?thesis using room b by (intro exI [where x = "take n (drop ?a ?S)"]) simp
  next
    case turn
    then have i: "incWrap ef ?a n = ?a + n - ?n" using b by (simp add: incWrap_def mod_if)
    have w: "?a + n - ?n < ?s" using turn b by (simp add: activeSlotCnt_def isWrapped_def)
    have d: "drop ?s ?S = take (?a - ?s) (drop ?s ?S) @ drop ?a ?S"
      using turn by (metis append_take_drop_id drop_drop le_add_diff_inverse2)
    show ?thesis using turn w b
      by (intro exI [where x = "drop ?a ?S @ take (?a + n - ?n) ?S"])
        (simp add: active_extents_def isWrapped_def i, subst d, simp)
  qed
  with ok show ?thesis by blast
qed

lemma openNew_result:
  assumes "ef_ok ef" "openNew n ef = Inr ef'"
  shows "ef_ok ef'" "\<exists>xs. active_extents ef' = active_extents ef @ xs \<and> length xs = n"
    "ef_extent_size ef' = ef_extent_size ef"
proof -
  let ?g = "grow_slots (n - freeSlotCnt ef + EXCESS_ALLOC) ef"
  have g: "canAccomodate n ?g"
    using grow_slots_ok [OF assms(1)] activeSlotCnt_less [OF assms(1)]
    by (simp add: canAccomodate_def freeSlotCnt_def EXCESS_ALLOC_def)
  define ef1 where "ef1 = (if canAccomodate n ef then ef else ?g)"
  have ef1: "ef1 = ef \<or> ef1 = ?g" "canAccomodate n ef1" using g by (simp_all add: ef1_def)
  have ef': "ef' = ef1\<lparr>ef_after := incWrap ef1 (ef_after ef1) n\<rparr>"
  proof (cases "canAccomodate n ef")
    case True
    then show ?thesis using assms(2) by (simp add: openNew_def ef1_def)
  next
    case False
    have "sanityCheckAllocSize (n - freeSlotCnt ef + EXCESS_ALLOC) ef = Inr ()"
      using assms(2) False
      by (cases "sanityCheckAllocSize (n - freeSlotCnt ef + EXCESS_ALLOC) ef") (simp_all add: openNew_def Let_def)
    then show ?thesis using assms(2) False unfolding openNew_def Let_def ef1_def by simp
  qed
  have ok1: "ef_ok ef1" "active_extents ef1 = active_extents ef" "ef_extent_size ef1 = ef_extent_size ef"
    using ef1(1) grow_slots_ok [OF assms(1)] assms(1) by auto
  note adv = advance_ok [OF ok1(1) ef1(2), folded ef']
  show "ef_ok ef'" using adv by (rule conjunct1)
  show "\<exists>xs. active_extents ef' = active_extents ef @ xs \<and> length xs = n"
    using adv unfolding ok1(2) by (rule conjunct2)
  show "ef_extent_size ef' = ef_extent_size ef" unfolding ef' using ok1(3) by simp
qed

lemma dropOld_result:
  assumes "ef_ok ef" "n \<le> length (active_extents ef)"
  shows "\<exists>ef'. dropOld n ef = Inr ef' \<and> ef_ok ef' \<and> active_extents ef' = drop n (active_extents ef)"
proof -
  let ?n = "slotCnt ef" and ?S = "ef_slots ef" and ?a = "ef_after ef" and ?s = "ef_start ef"
  let ?ef = "ef\<lparr>ef_start := incWrap ef ?s n\<rparr>"
  have cnt: "n \<le> activeSlotCnt ef" unfolding activeSlotCnt_length [OF assms(1)] by (rule assms(2))
  have b: "?s < ?n" "?a < ?n" "length ?S = ?n" using assms by (auto simp: ef_ok_def slotCnt_def)
  have "incWrap ef ?s n < ?n" using b(1) by (simp add: incWrap_def)
  then have ok: "ef_ok ?ef" using assms(1) by (simp add: ef_ok_def slotCnt_def)
  consider (plain) "?s \<le> ?a" | (wrapped) "?a < ?s" "?s + n < ?n" | (turn) "?a < ?s" "?n \<le> ?s + n" by linarith
  then have "active_extents ?ef = drop n (active_extents ef)"
  proof cases
    case plain
    then have "n \<le> ?a - ?s" using cnt by (simp add: activeSlotCnt_def isWrapped_def)
    then have "?s + n \<le> ?a" using plain by simp
    then show ?thesis using plain b
      by (simp add: active_extents_def isWrapped_def incWrap_def drop_take ac_simps)
  next
    case wrapped
    then show ?thesis using b by (simp add: active_extents_def isWrapped_def incWrap_def ac_simps)
  next
    case turn
    have "n < ?n" using cnt activeSlotCnt_less [OF assms(1)] by linarith
    then have "?s + n - ?n < ?n" using b(1) by linarith
    then have i: "incWrap ef ?s n = ?s + n - ?n" using turn(2) by (simp add: incWrap_def le_mod_geq)
    have "n \<le> ?a + (?n - ?s)" using turn(1) cnt by (simp add: activeSlotCnt_def isWrapped_def)
    then have le: "?s + n - ?n \<le> ?a" using b(1) by linarith
    have "drop n (drop ?s ?S @ take ?a ?S) = drop (?s + n - ?n) (take ?a ?S)"
      using turn(2) b(1,3) by (simp add: ac_simps)
    then show ?thesis using turn(1) le by (simp add: active_extents_def isWrapped_def i drop_take)
  qed
  with ok cnt show ?thesis by (simp add: dropOld_def)
qed

interpretation exfam: extent_pool ef_ok active_extents openNew dropOld
proof
  fix p n p'
  show "ef_ok p \<Longrightarrow> distinct (active_extents p)"
  proof -
    assume ok: "ef_ok p"
    then have d: "distinct (take k (ef_slots p) @ drop k (ef_slots p))" for k by (simp add: ef_ok_def)
    show "distinct (active_extents p)"
    proof (cases "isWrapped p")
      case True
      have "set (take (ef_after p) (ef_slots p)) \<subseteq> set (take (ef_start p) (ef_slots p))"
        using True by (intro set_take_subset_set_take) (simp add: isWrapped_def)
      moreover have "set (take (ef_start p) (ef_slots p)) \<inter> set (drop (ef_start p) (ef_slots p)) = {}"
        using d [of "ef_start p"] unfolding distinct_append by blast
      ultimately show ?thesis using True ok by (auto simp: active_extents_def ef_ok_def)
    next
      case False
      then show ?thesis using d [of "ef_start p"] by (simp add: active_extents_def)
    qed
  qed
  show "ef_ok p \<Longrightarrow> openNew n p = Inr p' \<Longrightarrow> ef_ok p' \<and> (\<exists>xs. active_extents p' = active_extents p @ xs \<and> length xs = n)"
    using openNew_result by blast
  show "ef_ok p \<Longrightarrow> n \<le> length (active_extents p) \<Longrightarrow>
      \<exists>p'. dropOld n p = Inr p' \<and> ef_ok p' \<and> active_extents p' = drop n (active_extents p)"
    by (rule dropOld_result)
qed

subsection \<open>Positions and iteration\<close>

lemma incWrap_start_after: "ef_ok ef \<Longrightarrow> incWrap ef (ef_start ef) (activeSlotCnt ef) = ef_after ef"
  by (auto simp: ef_ok_def incWrap_def activeSlotCnt_def isWrapped_def le_mod_geq)

lemma incWrap_add: "incWrap ef (incWrap ef i m) n = incWrap ef i (m + n)"
  by (simp add: incWrap_def mod_add_left_eq add.assoc)

lemma incWrap_bound: "ef_ok ef \<Longrightarrow> incWrap ef i k < slotCnt ef"
  by (simp add: ef_ok_def incWrap_def)

lemma incWrap_inj:
  assumes "m < slotCnt ef" "n < slotCnt ef" "incWrap ef i m = incWrap ef i n"
  shows "m = n"
proof -
  have main: "m = n" if mn: "m \<le> n" and "n < slotCnt ef" "incWrap ef i m = incWrap ef i n" for m n
  proof -
    have "(i + m) mod slotCnt ef = (i + n) mod slotCnt ef" using that(3) by (simp add: incWrap_def)
    then have "slotCnt ef dvd (i + n) - (i + m)" using mn by (metis add_le_cancel_left mod_eq_dvd_iff_nat)
    then have "slotCnt ef dvd n - m" by simp
    then show ?thesis using mn that(2) by (metis dvd_imp_le le_antisym diff_is_0_eq le_less_trans diff_le_self not_gr_zero not_le)
  qed
  show ?thesis using main [of m n] main [of n m] assms by (cases "m \<le> n") auto
qed

lemma active_nth:
  assumes "ef_ok ef" "k < length (active_extents ef)"
  shows "active_extents ef ! k = ef_slots ef ! incWrap ef (ef_start ef) k"
proof (cases "isWrapped ef")
  case False
  then show ?thesis using assms by (auto simp: active_extents_def ef_ok_def incWrap_def isWrapped_def slotCnt_def)
next
  case w: True
  show ?thesis
  proof (cases "ef_start ef + k < slotCnt ef")
    case True
    then show ?thesis using w assms by (auto simp: active_extents_def incWrap_def slotCnt_def nth_append)
  next
    case False
    have "ef_start ef + k - slotCnt ef < slotCnt ef"
      using assms(2) activeSlotCnt_less [OF assms(1)] activeSlotCnt_length [OF assms(1)] assms(1)
      unfolding ef_ok_def by linarith
    then have i: "incWrap ef (ef_start ef) k = ef_start ef + k - slotCnt ef"
      using False by (simp add: incWrap_def le_mod_geq)
    have "k - (slotCnt ef - ef_start ef) = ef_start ef + k - slotCnt ef" using assms(1) by (auto simp: ef_ok_def)
    then show ?thesis using w False assms unfolding i
      by (auto simp: active_extents_def slotCnt_def nth_append ef_ok_def)
  qed
qed

text \<open>Iterating with the state core visits the active extents from the oldest to the latest.\<close>

lemma iterate_from:
  assumes "ef_ok ef" "k + n = length (active_extents ef)"
  shows "iterate_extents (Suc n) ef (incWrap ef (ef_start ef) k) = drop k (active_extents ef)"
  using assms(2)
proof (induction n arbitrary: k)
  case 0
  then have "incWrap ef (ef_start ef) k = ef_after ef"
    using incWrap_start_after [OF assms(1)] activeSlotCnt_length [OF assms(1)] by simp
  then show ?case using 0 by (simp add: link_checkPoint_def)
next
  case (Suc n)
  have len: "length (active_extents ef) < slotCnt ef"
    using activeSlotCnt_less [OF assms(1)] activeSlotCnt_length [OF assms(1)] by simp
  have "incWrap ef (ef_start ef) k \<noteq> ef_after ef"
  proof
    assume "incWrap ef (ef_start ef) k = ef_after ef"
    then have "k = activeSlotCnt ef"
      using incWrap_inj [of k ef "activeSlotCnt ef" "ef_start ef"] incWrap_start_after [OF assms(1)]
        len Suc.prems activeSlotCnt_length [OF assms(1)] by simp
    then show False using Suc.prems activeSlotCnt_length [OF assms(1)] by simp
  qed
  moreover have "iterate_extents (Suc n) ef (link_next ef (incWrap ef (ef_start ef) k)) = drop (Suc k) (active_extents ef)"
    using Suc.IH [of "Suc k"] Suc.prems by (simp add: link_next_def incWrap_add)
  moreover have "drop k (active_extents ef) = ef_slots ef ! incWrap ef (ef_start ef) k # drop (Suc k) (active_extents ef)"
    using Suc.prems active_nth [OF assms(1), of k] by (simp add: Cons_nth_drop_Suc [symmetric])
  ultimately show ?case by (simp add: link_checkPoint_def)
qed

lemma iterate_active:
  assumes "ef_ok ef"
  shows "iterate_extents (slotCnt ef) ef (ef_start ef) = active_extents ef"
proof -
  have z: "incWrap ef (ef_start ef) 0 = ef_start ef" using assms by (simp add: ef_ok_def incWrap_def)
  have mono: "iterate_extents (m + d) ef i = iterate_extents m ef i" if "length (iterate_extents m ef i) < m" for m d i
    using that by (induction m arbitrary: i) (auto split: if_splits)
  have base: "iterate_extents (Suc (length (active_extents ef))) ef (ef_start ef) = active_extents ef"
    using iterate_from [OF assms, of 0 "length (active_extents ef)"] z by simp
  have "Suc (length (active_extents ef)) \<le> slotCnt ef"
    using activeSlotCnt_less [OF assms] activeSlotCnt_length [OF assms] by simp
  then obtain d where "slotCnt ef = Suc (length (active_extents ef)) + d" using le_Suc_ex by blast
  then show ?thesis using mono [of "Suc (length (active_extents ef))" "ef_start ef" d] base by simp
qed

lemma validate_from_finds:
  "validate_from n ef known i = Inr j \<Longrightarrow> ef_slots ef ! j = known"
  by (induction n arbitrary: i) (auto simp: matchPos_def split: if_splits)

lemma last_extent_active:
  assumes "ef_ok ef" "active_extents ef \<noteq> []"
  shows "last_extent ef = Inr (last (active_extents ef))"
proof -
  let ?c = "length (active_extents ef)"
  have c: "0 < ?c" "activeSlotCnt ef = ?c" "?c < slotCnt ef"
    using assms activeSlotCnt_length [OF assms(1)] activeSlotCnt_less [OF assms(1)] by auto
  have "last_pos ef = incWrap ef (ef_start ef) (?c + (slotCnt ef - 1))"
    unfolding last_pos_def incWrap_start_after [OF assms(1), symmetric] incWrap_add c(2) ..
  also have "\<dots> = incWrap ef (ef_start ef) (?c - 1)"
  proof -
    have "ef_start ef + (?c + (slotCnt ef - 1)) = (ef_start ef + (?c - 1)) + slotCnt ef" using c by linarith
    then show ?thesis unfolding incWrap_def by (simp only: mod_add_self2)
  qed
  finally have "ef_slots ef ! last_pos ef = last (active_extents ef)"
    using active_nth [OF assms(1), of "?c - 1"] c by (simp add: last_conv_nth assms(2))
  moreover have "\<not> ef_empty ef"
    using c by (auto simp: ef_empty_def activeSlotCnt_def isWrapped_def)
  ultimately show ?thesis by (simp add: last_extent_def)
qed

text \<open>Re-synchronising an iterator finds every extent that is still in the pool.\<close>

lemma validate_from_total:
  assumes "ef_ok ef" "d < n" "ef_slots ef ! ((i + d) mod slotCnt ef) = known" "i < slotCnt ef"
  shows "\<exists>j. validate_from n ef known i = Inr j \<and> j < slotCnt ef \<and> ef_slots ef ! j = known"
  using assms(2-)
proof (induction n arbitrary: i d)
  case (Suc n)
  show ?case
  proof (cases "ef_slots ef ! i = known")
    case True
    then show ?thesis using Suc.prems by (simp add: matchPos_def)
  next
    case False
    then obtain d' where d': "d = Suc d'" using Suc.prems by (cases d) auto
    have "(link_next ef i + d') mod slotCnt ef = (i + d) mod slotCnt ef"
      by (simp add: link_next_def incWrap_def d' mod_add_left_eq)
    then show ?thesis
      using Suc.IH [of d' "link_next ef i"] Suc.prems False assms(1) incWrap_bound [OF assms(1), of i 1]
      by (simp add: matchPos_def d' link_next_def)
  qed
qed simp

lemma validatePos_active:
  assumes "ef_ok ef" "k < length (active_extents ef)" "i < slotCnt ef"
  shows "validatePos ef (active_extents ef ! k) i = Inr (incWrap ef (ef_start ef) k)"
proof -
  let ?N = "slotCnt ef" and ?p = "incWrap ef (ef_start ef) k"
  have p: "?p < ?N" by (rule incWrap_bound [OF assms(1)])
  have "\<exists>d < ?N. (i + d) mod ?N = ?p"
  proof (cases "i \<le> ?p")
    case True
    then show ?thesis using p by (intro exI [where x = "?p - i"]) simp
  next
    case False
    then have "i + (?N - i + ?p) = ?p + ?N" using assms(3) by simp
    then show ?thesis using p False assms(3) by (intro exI [where x = "?N - i + ?p"]) simp
  qed
  then obtain d where d: "d < ?N" "(i + d) mod ?N = ?p" by blast
  have e: "ef_slots ef ! ?p = active_extents ef ! k" using active_nth [OF assms(1,2)] by simp
  obtain j where j: "validate_from ?N ef (active_extents ef ! k) i = Inr j" "j < ?N" "ef_slots ef ! j = ef_slots ef ! ?p"
    using validate_from_total [OF assms(1) d(1), of i] d(2) e assms(3) by auto
  have "j = ?p" using j(2,3) p assms(1) by (simp add: ef_ok_def slotCnt_def nth_eq_iff_index_eq)
  then show ?thesis using j(1) by (simp add: validatePos_def)
qed

text \<open>The end position becomes the first of the newly opened extents, even if storage is moved.\<close>

lemma expandAlloc_at_end:
  assumes "ef_ok ef" "link_expandAlloc (ef_after ef) n ef = Inr (i, ef')"
  shows "i = incWrap ef' (ef_start ef') (length (active_extents ef))" "openNew n ef = Inr ef'"
proof -
  obtain ef1 where o: "openNew n ef = Inr ef1"
    and i: "i = (if ef_after ef \<ge> ef_start ef then ef_after ef + (ef_start ef1 - ef_start ef) else ef_after ef)" "ef' = ef1"
    using assms(2) by (auto simp: link_expandAlloc_def bind_result_Inr_iff)
  show "openNew n ef = Inr ef'" using o i(2) by simp
  define g where "g = (if canAccomodate n ef then ef else grow_slots (n - freeSlotCnt ef + EXCESS_ALLOC) ef)"
  have g: "ef_ok g" "activeSlotCnt g = activeSlotCnt ef" "ef_after g = ef_after ef"
    "isWrapped ef \<or> ef_start g = ef_start ef"
    using assms(1) grow_slots_ok [OF assms(1)] by (auto simp: g_def grow_slots_def Let_def isWrapped_def)
  have e1: "ef1 = g\<lparr>ef_after := incWrap g (ef_after g) n\<rparr>"
  proof (cases "canAccomodate n ef")
    case True
    then show ?thesis using o by (simp add: openNew_def g_def)
  next
    case False
    then show ?thesis using o
      by (cases "sanityCheckAllocSize (n - freeSlotCnt ef + EXCESS_ALLOC) ef") (simp_all add: openNew_def Let_def g_def)
  qed
  have "i = ef_after ef" using i g(4) by (auto simp: e1 isWrapped_def)
  also have "\<dots> = incWrap g (ef_start g) (activeSlotCnt g)" using incWrap_start_after [OF g(1)] g(3) by simp
  also have "\<dots> = incWrap ef' (ef_start ef') (length (active_extents ef))"
    unfolding i(2) e1 g(2) activeSlotCnt_length [OF assms(1)] by (simp add: incWrap_def slotCnt_def)
  finally show "i = incWrap ef' (ef_start ef') (length (active_extents ef))" .
qed

subsection \<open>Properties\<close>

text \<open>C37: the pool of extents behaves as a queue, although its storage is used cyclically and grows
  in the middle. Opening extents stops at the safety limit, or appends distinct new ones behind the
  active ones; iteration then visits all of them in order, the last of them is found from the end
  position, and any number of the oldest can be dropped.\<close>

theorem extent_pool_queue:
  assumes "ef_ok ef"
  shows "case openNew n ef of
      Inl x \<Rightarrow> x = Err Fatal ''Raw allocation exceeds safety limit''
    | Inr ef' \<Rightarrow> \<exists>xs. length xs = n \<and> distinct (active_extents ef @ xs)
        \<and> iterate_extents (slotCnt ef') ef' (ef_start ef') = active_extents ef @ xs
        \<and> (active_extents ef @ xs \<noteq> [] \<longrightarrow> last_extent ef' = Inr (last (active_extents ef @ xs)))
        \<and> (\<forall>m \<le> length (active_extents ef @ xs). \<exists>ef''. dropOld m ef' = Inr ef'' \<and> ef_ok ef''
             \<and> iterate_extents (slotCnt ef'') ef'' (ef_start ef'') = drop m (active_extents ef @ xs))"
proof (cases "openNew n ef")
  case (Inl x)
  then show ?thesis
    by (auto simp: openNew_def Let_def sanityCheckAllocSize_def split: if_splits)
next
  case (Inr ef')
  obtain xs where xs: "ef_ok ef'" "active_extents ef' = active_extents ef @ xs" "length xs = n"
    using exfam.open_new_active [OF assms Inr] by blast
  have drop: "\<exists>ef''. dropOld m ef' = Inr ef'' \<and> ef_ok ef''
      \<and> iterate_extents (slotCnt ef'') ef'' (ef_start ef'') = drop m (active_extents ef')"
    if "m \<le> length (active_extents ef')" for m
    using exfam.drop_old_active [OF xs(1) that] iterate_active by auto
  show ?thesis
    using exfam.active_distinct [OF xs(1)] iterate_active [OF xs(1)] last_extent_active [OF xs(1)] drop
    unfolding Inr xs(2) sum.case by (intro exI [where x = xs]) (use xs(3) in simp)
qed

text \<open>A pool of four extents, wrapped around, has to grow by five to open two more.\<close>

theorem extent_pool_queue_witness:
  "case openNew 2 \<lparr>ef_slots = [0, 1, 2, 3], ef_start = 3, ef_after = 1, ef_fresh = 4, ef_extent_size = 1\<rparr> of
     Inl x \<Rightarrow> False
   | Inr ef' \<Rightarrow> iterate_extents (slotCnt ef') ef' (ef_start ef') = [3, 0, 1, 2]
       \<and> (\<exists>ef''. dropOld 3 ef' = Inr ef'' \<and> iterate_extents (slotCnt ef'') ef'' (ef_start ef'') = [2])"
proof -
  let ?ef = "\<lparr>ef_slots = [0, 1, 2, 3], ef_start = 3, ef_after = 1, ef_fresh = 4, ef_extent_size = 1\<rparr>"
  let ?ef' = "\<lparr>ef_slots = [0, 1, 2, 4, 5, 6, 7, 8, 3], ef_start = 8, ef_after = 3, ef_fresh = 9, ef_extent_size = 1\<rparr>"
  have o: "openNew 2 ?ef = Inr ?ef'"
    by (simp add: openNew_def canAccomodate_def freeSlotCnt_def activeSlotCnt_def isWrapped_def slotCnt_def
        sanityCheckAllocSize_def EXCESS_ALLOC_def ALLOC_SAFETY_LIMIT_def grow_slots_def Let_def fresh_extents_def
        std_rotate_def incWrap_def)
  have a: "active_extents ?ef = [3, 0]" by (simp add: active_extents_def isWrapped_def)
  have i: "iterate_extents (slotCnt ?ef') ?ef' 8 = [3, 0, 1, 2]"
    by (simp add: slotCnt_def link_checkPoint_def link_next_def incWrap_def)
  have ok: "ef_ok ?ef" by (simp add: ef_ok_def slotCnt_def)
  have st: "ef_start ?ef' = 8" by simp
  obtain xs where xs: "iterate_extents (slotCnt ?ef') ?ef' 8 = [3, 0] @ xs"
    "\<forall>m \<le> length ([3, 0] @ xs). \<exists>ef''. dropOld m ?ef' = Inr ef'' \<and> ef_ok ef''
       \<and> iterate_extents (slotCnt ef'') ef'' (ef_start ef'') = drop m ([3, 0] @ xs)"
    using extent_pool_queue [OF ok, of 2] unfolding o a sum.case st by blast
  have "xs = [1, 2]" using xs(1) unfolding i by simp
  moreover have "(3::nat) \<le> length ([3, 0] @ [1, 2 :: nat])" by simp
  ultimately have "\<exists>ef''. dropOld 3 ?ef' = Inr ef'' \<and> iterate_extents (slotCnt ef'') ef'' (ef_start ef'') = drop 3 [3, 0, 1, 2]"
    using xs(2) by (metis append_Cons append_Nil)
  then show ?thesis unfolding o sum.case st i by simp
qed

end
