(* ===== verification/BlockFlow.thy ===== *)
theory BlockFlow
  imports ExtentFamily ActivityLang
begin

text \<open>
  The allocation scheme for activities, \<open>vault/gear/block-flow.hpp\<close>: epochs with a common
  deadline, each filling one extent of the pool. An epoch is identified by its extent; its
  administrative record is the gate in the first slot. The epoch step is regulated in floating
  point; the fields \<open>bf_overflow\<close> and \<open>bf_underflow\<close> stand for the two adjustments, functions
  of the step (and of length and fill of a discarded epoch) to micro-ticks. The lemmas show that
  storage handed out lives up to the requested deadline.
\<close>

subsection \<open>Configuration\<close>

record BlockConfig =
  EPOCH_SIZ :: nat
  DUTY_CYCLE :: gavl_time_t
  INITIAL_STREAMS :: nat
  ACTIVITIES_PER_FRAME :: nat
  REFERENCE_FPS :: nat
  OVERLOAD_LIMIT :: nat

definition DefaultConfig :: BlockConfig where
  "DefaultConfig = \<lparr>EPOCH_SIZ = 100, DUTY_CYCLE = TIME_SCALE, INITIAL_STREAMS = 2,
     ACTIVITIES_PER_FRAME = 10, REFERENCE_FPS = 25, OVERLOAD_LIMIT = 60\<rparr>"

definition RenderConfig :: BlockConfig where
  "RenderConfig = DefaultConfig\<lparr>EPOCH_SIZ := 500, INITIAL_STREAMS := 5\<rparr>"

definition framesPerEpoch :: "BlockConfig \<Rightarrow> nat" where
  "framesPerEpoch c = EPOCH_SIZ c div ACTIVITIES_PER_FRAME c"

definition initialFrameRate :: "BlockConfig \<Rightarrow> nat" where
  "initialFrameRate c = INITIAL_STREAMS c * REFERENCE_FPS c"

definition initialEpochStep :: "BlockConfig \<Rightarrow> gavl_time_t" where
  "initialEpochStep c = Duration_of_time (TimeValue_raw (int (framesPerEpoch c) * TIME_SCALE div int (initialFrameRate c)))"

definition initialEpochCnt :: "BlockConfig \<Rightarrow> nat" where
  "initialEpochCnt c = nat (max (2 * DUTY_CYCLE c div initialEpochStep c) 2)"

definition averageEpochs :: "BlockConfig \<Rightarrow> nat" where
  "averageEpochs c = max (initialEpochCnt c) 6"

definition timeStep_cutOff :: "BlockConfig \<Rightarrow> gavl_time_t" where
  "timeStep_cutOff c = Duration_of_time (TimeValue_raw (initialEpochStep c div int (OVERLOAD_LIMIT c)))"

definition BLOCK_EXPAND_SAFETY_LIMIT :: int where
  "BLOCK_EXPAND_SAFETY_LIMIT = 3000"

subsection \<open>Epochs\<close>

record EpochGate =
  eg_rest :: int
  eg_dead :: gavl_time_t
  eg_next :: nat

definition EpochGate_init :: "BlockConfig \<Rightarrow> EpochGate" where
  "EpochGate_init c = \<lparr>eg_rest = 0, eg_dead = Time_MIN, eg_next = 0 + (EPOCH_SIZ c - 1)\<rparr>"

definition epoch_deadline :: "EpochGate \<Rightarrow> gavl_time_t" where
  "epoch_deadline g = instant_time (eg_dead g)"

definition gate_isAlive :: "gavl_time_t \<Rightarrow> EpochGate \<Rightarrow> bool" where
  "gate_isAlive dl g \<longleftrightarrow> isHold (Condition (eg_rest g) (eg_dead g)) \<or> \<not> isDead (Condition (eg_rest g) (eg_dead g)) dl"

definition filledSlots :: "BlockConfig \<Rightarrow> EpochGate \<Rightarrow> nat" where
  "filledSlots c g = (EPOCH_SIZ c - 1) - eg_next g"

definition hasFreeSlot :: "EpochGate \<Rightarrow> bool" where
  "hasFreeSlot g \<longleftrightarrow> eg_next g > 0"

definition claimNextSlot :: "EpochGate \<Rightarrow> (nat \<times> EpochGate) result" where
  "claimNextSlot g =
     (if hasFreeSlot g then Inr (eg_next g, g\<lparr>eg_next := eg_next g - 1\<rparr>)
      else Inl (Err Assertion ''hasFreeSlot()''))"

subsection \<open>The allocator\<close>

record BlockFlow =
  bf_conf :: BlockConfig
  bf_alloc :: ExtFam
  bf_epochs :: "extent \<Rightarrow> EpochGate"
  bf_step :: gavl_time_t
  bf_past :: gavl_time_t
  bf_overflow :: "gavl_time_t \<Rightarrow> int"
  bf_underflow :: "gavl_time_t \<Rightarrow> gavl_time_t \<Rightarrow> nat \<Rightarrow> int"

record EpochIter =
  it_index :: nat
  it_curr :: "extent option"

definition BlockFlow_init ::
  "BlockConfig \<Rightarrow> nat \<Rightarrow> (gavl_time_t \<Rightarrow> int) \<Rightarrow> (gavl_time_t \<Rightarrow> gavl_time_t \<Rightarrow> nat \<Rightarrow> int) \<Rightarrow> BlockFlow" where
  "BlockFlow_init c extent_size on_over on_under =
     \<lparr>bf_conf = c, bf_alloc = ExtFam_init (initialEpochCnt c) extent_size, bf_epochs = (\<lambda>_. EpochGate_init c),
      bf_step = initialEpochStep c, bf_past = Time_MIN, bf_overflow = on_over, bf_underflow = on_under\<rparr>"

definition setup_epoch :: "extent \<Rightarrow> gavl_time_t \<Rightarrow> BlockFlow \<Rightarrow> BlockFlow" where
  "setup_epoch e dl bf =
     bf\<lparr>bf_epochs := (bf_epochs bf)(e := (EpochGate_init (bf_conf bf))\<lparr>eg_dead := dl\<rparr>)\<rparr>"

definition accessEpoch :: "BlockFlow \<Rightarrow> nat \<Rightarrow> extent option" where
  "accessEpoch bf index =
     (if link_checkPoint (bf_alloc bf) index then Some (ef_slots (bf_alloc bf) ! index) else None)"

definition epoch_iter :: "BlockFlow \<Rightarrow> nat \<Rightarrow> EpochIter" where
  "epoch_iter bf index = \<lparr>it_index = index, it_curr = accessEpoch bf index\<rparr>"

definition epoch_iterNext :: "BlockFlow \<Rightarrow> EpochIter \<Rightarrow> EpochIter result" where
  "epoch_iterNext bf h =
     (case it_curr h of
        None \<Rightarrow> Inl (Err Assertion ''iterator exhausted'')
      | Some e \<Rightarrow> bind_result (validatePos (bf_alloc bf) e (it_index h)) (\<lambda>i.
          Inr (epoch_iter bf (link_next (bf_alloc bf) i))))"

definition epoch_expandAlloc :: "nat \<Rightarrow> BlockFlow \<Rightarrow> EpochIter \<Rightarrow> (EpochIter \<times> BlockFlow) result" where
  "epoch_expandAlloc cnt bf h =
     bind_result (link_expandAlloc (it_index h) cnt (bf_alloc bf)) (\<lambda>r.
       Inr (epoch_iter (bf\<lparr>bf_alloc := snd r\<rparr>) (fst r), bf\<lparr>bf_alloc := snd r\<rparr>))"

definition firstEpoch :: "BlockFlow \<Rightarrow> extent" where
  "firstEpoch bf = ef_slots (bf_alloc bf) ! ef_start (bf_alloc bf)"

definition deadline_of :: "BlockFlow \<Rightarrow> extent \<Rightarrow> gavl_time_t" where
  "deadline_of bf e = epoch_deadline (bf_epochs bf e)"

definition sanityCheckAlloc :: "int \<Rightarrow> unit result" where
  "sanityCheckAlloc newBlockCnt =
     (if newBlockCnt > BLOCK_EXPAND_SAFETY_LIMIT
      then Inl (Err Fatal ''Deadline expansion causes allocation of too many blocks'') else Inr ())"

primrec setup_grid :: "nat \<Rightarrow> gavl_time_t \<Rightarrow> gavl_time_t \<Rightarrow> EpochIter \<Rightarrow> BlockFlow \<Rightarrow> (EpochIter \<times> BlockFlow) result" where
  "setup_grid 0 lastDeadline dl h bf = Inl (Err Fatal ''Logic of counting new Epochs'')"
| "setup_grid (Suc requiredNew) lastDeadline dl h bf =
     (case it_curr h of
        None \<Rightarrow> Inl (Err Assertion ''nextEpoch'')
      | Some e \<Rightarrow>
          let last' = TimeVar_plus lastDeadline (bf_step bf); bf1 = setup_epoch e last' bf
          in if dl \<le> last'
             then bind_result (require (requiredNew = 0) ''requiredNew == 1'') (\<lambda>_. Inr (h, bf1))
             else bind_result (epoch_iterNext bf1 h) (\<lambda>h1. setup_grid requiredNew last' dl h1 bf1))"

primrec find_epoch :: "nat \<Rightarrow> gavl_time_t \<Rightarrow> EpochIter \<Rightarrow> BlockFlow \<Rightarrow> EpochIter result" where
  "find_epoch 0 dl h bf = Inl (Err Fatal ''Inconsistency in BlockFlow Epoch deadline organisation'')"
| "find_epoch (Suc n) dl h bf =
     (case it_curr h of
        None \<Rightarrow> Inl (Err Fatal ''Inconsistency in BlockFlow Epoch deadline organisation'')
      | Some e \<Rightarrow> if deadline_of bf e \<ge> dl then Inr h
                  else bind_result (epoch_iterNext bf h) (\<lambda>h1. find_epoch n dl h1 bf))"

definition required_epochs :: "gavl_time_t \<Rightarrow> gavl_time_t \<Rightarrow> int result" where
  "required_epochs distance step =
     bind_result (require (step \<noteq> 0) ''division by zero'') (\<lambda>_.
       let requiredNew = distance sdiv step
       in bind_result (sanityCheckAlloc requiredNew) (\<lambda>_.
            Inr (if distance smod step > 0 then requiredNew + 1 else requiredNew)))"

definition until_create_grid :: "gavl_time_t \<Rightarrow> gavl_time_t \<Rightarrow> BlockFlow \<Rightarrow> (EpochIter \<times> BlockFlow) result" where
  "until_create_grid lastDeadline dl bf =
     bind_result (required_epochs (i64 (dl - lastDeadline)) (bf_step bf)) (\<lambda>cnt.
     bind_result (epoch_expandAlloc (nat cnt) bf (epoch_iter bf (ef_after (bf_alloc bf)))) (\<lambda>r.
       setup_grid (nat cnt) lastDeadline dl (fst r) (snd r)))"

definition until :: "gavl_time_t \<Rightarrow> BlockFlow \<Rightarrow> (EpochIter \<times> BlockFlow) result" where
  "until dl bf =
     (if ef_empty (bf_alloc bf)
      then bind_result (openNew 1 (bf_alloc bf)) (\<lambda>ef.
             let bf1 = setup_epoch (ef_slots ef ! ef_start ef) (Time_plus dl (Time_of_var (bf_step bf))) (bf\<lparr>bf_alloc := ef\<rparr>)
             in Inr (epoch_iter bf1 (ef_start ef), bf1))
      else if deadline_of bf (firstEpoch bf) \<ge> dl
      then Inr (epoch_iter bf (ef_start (bf_alloc bf)), bf)
      else bind_result (last_extent (bf_alloc bf)) (\<lambda>l.
             if deadline_of bf l < dl then until_create_grid (deadline_of bf l) dl bf
             else bind_result (find_epoch (slotCnt (bf_alloc bf)) dl (epoch_iter bf (ef_start (bf_alloc bf))) bf)
                    (\<lambda>h. Inr (h, bf))))"

definition markEpochOverflow :: "BlockFlow \<Rightarrow> BlockFlow" where
  "markEpochOverflow bf =
     (if bf_step bf > timeStep_cutOff (bf_conf bf)
      then bf\<lparr>bf_step := TimeValue_raw (bf_overflow bf (bf_step bf))\<rparr> else bf)"

text \<open>The loop of \<open>claimSlot\<close>; each round moves to the next epoch or opens one behind the last.\<close>

primrec claim_epoch :: "nat \<Rightarrow> EpochIter \<Rightarrow> BlockFlow \<Rightarrow> (EpochIter \<times> extent \<times> BlockFlow) result" where
  "claim_epoch 0 h bf = Inl (Err Fatal ''endless search for a free slot'')"
| "claim_epoch (Suc n) h bf =
     (case it_curr h of
        None \<Rightarrow>
          bind_result (last_extent (bf_alloc bf)) (\<lambda>l.
          bind_result (epoch_expandAlloc 1 bf h) (\<lambda>r.
            case it_curr (fst r) of
              None \<Rightarrow> Inl (Err Assertion ''epoch_'')
            | Some e \<Rightarrow> claim_epoch n (fst r)
                (setup_epoch e (Time_plus (deadline_of bf l) (bf_step bf)) (snd r))))
      | Some e \<Rightarrow>
          if hasFreeSlot (bf_epochs bf e) then Inr (h, e, bf)
          else bind_result (epoch_iterNext (markEpochOverflow bf) h) (\<lambda>h1. claim_epoch n h1 (markEpochOverflow bf)))"

definition claim_fuel :: "BlockFlow \<Rightarrow> nat" where
  "claim_fuel bf = activeSlotCnt (bf_alloc bf) + 3"

definition claimSlot :: "EpochIter \<Rightarrow> BlockFlow \<Rightarrow> (EpochIter \<times> (extent \<times> nat) \<times> BlockFlow) result" where
  "claimSlot h bf =
     bind_result (claim_epoch (claim_fuel bf) h bf) (\<lambda>(h1, e, bf1).
     bind_result (claimNextSlot (bf_epochs bf1 e)) (\<lambda>(slot, g).
       Inr (h1, (e, slot), bf1\<lparr>bf_epochs := (bf_epochs bf1)(e := g)\<rparr>)))"

definition updatePastDeadline :: "gavl_time_t \<Rightarrow> BlockFlow \<Rightarrow> gavl_time_t \<times> BlockFlow" where
  "updatePastDeadline newDeadline bf =
     ((if bf_past bf = Time_MIN then TimeVar_minus newDeadline (bf_step bf) else bf_past bf),
      bf\<lparr>bf_past := newDeadline\<rparr>)"

definition markEpochUnderflow :: "gavl_time_t \<Rightarrow> nat \<Rightarrow> BlockFlow \<Rightarrow> BlockFlow" where
  "markEpochUnderflow actualLen fill bf =
     bf\<lparr>bf_step := TimeValue_raw (bf_underflow bf (bf_step bf) actualLen fill)\<rparr>"

fun discard_loop :: "gavl_time_t \<Rightarrow> extent list \<Rightarrow> BlockFlow \<Rightarrow> nat \<times> BlockFlow" where
  "discard_loop dl [] bf = (0, bf)"
| "discard_loop dl (e # es) bf =
     (if gate_isAlive dl (bf_epochs bf e) then (0, bf)
      else let currDeadline = deadline_of bf e;
               (previous, bf1) = updatePastDeadline currDeadline bf;
               bf2 = markEpochUnderflow (TimeVar_minus currDeadline previous) (filledSlots (bf_conf bf) (bf_epochs bf e)) bf1;
               (n, bf3) = discard_loop dl es bf2
           in (Suc n, bf3))"

definition allEpochs :: "BlockFlow \<Rightarrow> extent list" where
  "allEpochs bf = iterate_extents (slotCnt (bf_alloc bf)) (bf_alloc bf) (ef_start (bf_alloc bf))"

definition discardBefore :: "gavl_time_t \<Rightarrow> BlockFlow \<Rightarrow> BlockFlow result" where
  "discardBefore dl bf =
     (if ef_empty (bf_alloc bf) \<or> deadline_of bf (firstEpoch bf) > dl then Inr bf
      else let r = discard_loop dl (allEpochs bf) bf
           in bind_result (dropOld (fst r) (bf_alloc (snd r))) (\<lambda>ef. Inr ((snd r)\<lparr>bf_alloc := ef\<rparr>)))"

subsection \<open>Positions of iterators\<close>

abbreviation actives :: "BlockFlow \<Rightarrow> extent list" where
  "actives bf \<equiv> active_extents (bf_alloc bf)"

definition at_pos :: "BlockFlow \<Rightarrow> EpochIter \<Rightarrow> nat \<Rightarrow> bool" where
  "at_pos bf h k \<longleftrightarrow> k \<le> length (actives bf) \<and> it_index h < slotCnt (bf_alloc bf)
     \<and> it_curr h = (if k < length (actives bf) then Some (actives bf ! k) else None)"

lemma checkPoint_pos:
  assumes "ef_ok ef" "k \<le> length (active_extents ef)"
  shows "link_checkPoint ef (incWrap ef (ef_start ef) k) \<longleftrightarrow> k < length (active_extents ef)"
proof -
  have c: "activeSlotCnt ef = length (active_extents ef)" "activeSlotCnt ef < slotCnt ef"
    using activeSlotCnt_length [OF assms(1)] activeSlotCnt_less [OF assms(1)] by auto
  have "incWrap ef (ef_start ef) k = ef_after ef \<longleftrightarrow> k = activeSlotCnt ef"
    using incWrap_inj [of k ef "activeSlotCnt ef" "ef_start ef"] incWrap_start_after [OF assms(1)] assms(2) c by auto
  then show ?thesis using assms(2) c by (auto simp: link_checkPoint_def)
qed

lemma epoch_iter_pos:
  assumes "ef_ok (bf_alloc bf)" "k \<le> length (actives bf)"
  shows "at_pos bf (epoch_iter bf (incWrap (bf_alloc bf) (ef_start (bf_alloc bf)) k)) k"
  using assms checkPoint_pos [OF assms] active_nth [OF assms(1), of k] incWrap_bound [OF assms(1)]
  by (auto simp: at_pos_def epoch_iter_def accessEpoch_def)

lemma epoch_iter_begin:
  assumes "ef_ok (bf_alloc bf)"
  shows "at_pos bf (epoch_iter bf (ef_start (bf_alloc bf))) 0"
proof -
  have "incWrap (bf_alloc bf) (ef_start (bf_alloc bf)) 0 = ef_start (bf_alloc bf)"
    using assms by (simp add: ef_ok_def incWrap_def)
  then show ?thesis using epoch_iter_pos [OF assms, of 0] by simp
qed

lemma epoch_iterNext_pos:
  assumes "ef_ok (bf_alloc bf)" "at_pos bf h k" "k < length (actives bf)"
  shows "\<exists>h'. epoch_iterNext bf h = Inr h' \<and> at_pos bf h' (Suc k)"
proof -
  have "validatePos (bf_alloc bf) (actives bf ! k) (it_index h) = Inr (incWrap (bf_alloc bf) (ef_start (bf_alloc bf)) k)"
    using assms by (intro validatePos_active) (auto simp: at_pos_def)
  then show ?thesis
    using assms epoch_iter_pos [OF assms(1), of "Suc k"]
    by (simp add: epoch_iterNext_def at_pos_def link_next_def incWrap_add)
qed

lemma at_pos_cong: "bf_alloc bf' = bf_alloc bf \<Longrightarrow> at_pos bf' h k = at_pos bf h k"
  by (simp add: at_pos_def)

lemma setup_epoch_fields [simp]:
  "bf_alloc (setup_epoch e d bf) = bf_alloc bf" "bf_step (setup_epoch e d bf) = bf_step bf"
  "bf_conf (setup_epoch e d bf) = bf_conf bf" "bf_overflow (setup_epoch e d bf) = bf_overflow bf"
  "bf_underflow (setup_epoch e d bf) = bf_underflow bf"
  "bf_epochs (setup_epoch e d bf) x = (if x = e then (EpochGate_init (bf_conf bf))\<lparr>eg_dead := d\<rparr> else bf_epochs bf x)"
  by (simp_all add: setup_epoch_def)

lemma at_pos_setup [simp]: "at_pos (setup_epoch e d bf) h k = at_pos bf h k"
  by (simp add: at_pos_def)

lemma epoch_expandAlloc_end:
  assumes "ef_ok (bf_alloc bf)" "it_index h = ef_after (bf_alloc bf)" "epoch_expandAlloc cnt bf h = Inr (h', bf')"
  shows "ef_ok (bf_alloc bf')" "\<exists>xs. actives bf' = actives bf @ xs \<and> length xs = cnt"
    "at_pos bf' h' (length (actives bf))" "bf' = bf\<lparr>bf_alloc := bf_alloc bf'\<rparr>"
proof -
  obtain i ef where l: "link_expandAlloc (ef_after (bf_alloc bf)) cnt (bf_alloc bf) = Inr (i, ef)"
    and r: "bf' = bf\<lparr>bf_alloc := ef\<rparr>" "h' = epoch_iter bf' i"
    using assms(2,3) by (auto simp: epoch_expandAlloc_def bind_result_Inr_iff)
  note x = expandAlloc_at_end [OF assms(1) l]
  show "ef_ok (bf_alloc bf')" "\<exists>xs. actives bf' = actives bf @ xs \<and> length xs = cnt"
    using openNew_result [OF assms(1) x(2)] r(1) by auto
  then show "at_pos bf' h' (length (actives bf))"
    using epoch_iter_pos [of bf' "length (actives bf)"] r x(1) by auto
  show "bf' = bf\<lparr>bf_alloc := bf_alloc bf'\<rparr>" using r(1) by simp
qed

subsection \<open>Creating and finding epochs\<close>

lemma find_epoch_result:
  assumes "ef_ok (bf_alloc bf)" "at_pos bf h k" "k \<le> j" "j < length (actives bf)" "dl \<le> deadline_of bf (actives bf ! j)"
    and "j - k < n"
  shows "\<exists>h' i. find_epoch n dl h bf = Inr h' \<and> at_pos bf h' i \<and> k \<le> i \<and> i \<le> j
    \<and> dl \<le> deadline_of bf (actives bf ! i) \<and> (\<forall>m. k \<le> m \<and> m < i \<longrightarrow> deadline_of bf (actives bf ! m) < dl)"
  using assms(2,3,6)
proof (induction n arbitrary: h k)
  case (Suc n)
  then have k: "k < length (actives bf)" "it_curr h = Some (actives bf ! k)" using assms(4) by (auto simp: at_pos_def)
  show ?case
  proof (cases "deadline_of bf (actives bf ! k) \<ge> dl")
    case True
    then show ?thesis using Suc.prems k by (intro exI [where x = h] exI [where x = k]) auto
  next
    case False
    then have jk: "Suc k \<le> j" "j - Suc k < n" using Suc.prems assms(5) by (auto simp: Suc_le_eq le_less)
    obtain h1 where h1: "epoch_iterNext bf h = Inr h1" "at_pos bf h1 (Suc k)"
      using epoch_iterNext_pos [OF assms(1) Suc.prems(1) k(1)] by blast
    obtain h' i where r: "find_epoch n dl h1 bf = Inr h'" "at_pos bf h' i" "Suc k \<le> i" "i \<le> j"
      "dl \<le> deadline_of bf (actives bf ! i)" "\<forall>m. Suc k \<le> m \<and> m < i \<longrightarrow> deadline_of bf (actives bf ! m) < dl"
      using Suc.IH [OF h1(2) jk] by blast
    have "\<forall>m. k \<le> m \<and> m < i \<longrightarrow> deadline_of bf (actives bf ! m) < dl"
      using r(6) False by (metis Suc_le_eq le_neq_implies_less not_le)
    then show ?thesis using r h1 k False by (intro exI [where x = h'] exI [where x = i]) auto
  qed
qed simp

lemma setup_grid_result:
  assumes "ef_ok (bf_alloc bf)" "at_pos bf h k" "length (actives bf) = k + n" "0 < n"
    and "lst + (int n - 1) * bf_step bf < dl" "dl \<le> lst + int n * bf_step bf" "0 < bf_step bf"
    and "\<bar>lst\<bar> \<le> Time_MAX" "dl \<le> Time_MAX" "bf_step bf \<le> Duration_MAX"
  shows "\<exists>h' bf'. setup_grid n lst dl h bf = Inr (h', bf') \<and> at_pos bf' h' (k + n - 1)
    \<and> bf' = bf\<lparr>bf_epochs := bf_epochs bf'\<rparr>
    \<and> (\<forall>e. e \<notin> set (drop k (actives bf)) \<longrightarrow> bf_epochs bf' e = bf_epochs bf e)
    \<and> (\<forall>j < n. bf_epochs bf' (actives bf ! (k + j))
         = (EpochGate_init (bf_conf bf))\<lparr>eg_dead := lst + (int j + 1) * bf_step bf\<rparr>)"
  using assms
proof (induction n arbitrary: h k lst bf)
  case (Suc m)
  let ?e = "actives bf ! k" and ?s = "bf_step bf"
  let ?bf1 = "setup_epoch ?e (lst + ?s) bf"
  have k: "k < length (actives bf)" using Suc.prems(3) by simp
  have c: "it_curr h = Some ?e" using Suc.prems(2) k by (simp add: at_pos_def)
  have plus: "TimeVar_plus lst ?s = lst + ?s"
    unfolding TimeVar_plus_def using Suc.prems(7,8,10) by (intro i64_id) (auto simp: time_limits)
  have dk: "drop k (actives bf) = ?e # drop (Suc k) (actives bf)" using k by (simp add: Cons_nth_drop_Suc)
  show ?case
  proof (cases "m = 0")
    case True
    then have "setup_grid (Suc m) lst dl h bf = Inr (h, ?bf1)"
      using Suc.prems(6) by (simp add: c plus Let_def require_def)
    moreover have "at_pos ?bf1 h k" using Suc.prems(2) by simp
    moreover have "?bf1 = bf\<lparr>bf_epochs := bf_epochs ?bf1\<rparr>" by (simp add: setup_epoch_def)
    moreover have "\<forall>e. e \<notin> set (drop k (actives bf)) \<longrightarrow> bf_epochs ?bf1 e = bf_epochs bf e" using dk by simp
    moreover have "\<forall>j < Suc m. bf_epochs ?bf1 (actives bf ! (k + j))
         = (EpochGate_init (bf_conf bf))\<lparr>eg_dead := lst + (int j + 1) * ?s\<rparr>" using True by simp
    ultimately show ?thesis using True by (metis add_Suc_right add_0_right diff_Suc_1)
  next
    case False
    have le: "?s \<le> int m * ?s" using False Suc.prems(7) by (simp add: mult_le_cancel_right1)
    then have lt: "lst + ?s < dl" using Suc.prems(5) by simp
    obtain h1 where h1: "epoch_iterNext ?bf1 h = Inr h1" "at_pos ?bf1 h1 (Suc k)"
      using epoch_iterNext_pos [of ?bf1 h k] Suc.prems(1,2) k by auto
    have "\<exists>h' bf'. setup_grid m (lst + ?s) dl h1 ?bf1 = Inr (h', bf') \<and> at_pos bf' h' (Suc k + m - 1)
      \<and> bf' = ?bf1\<lparr>bf_epochs := bf_epochs bf'\<rparr>
      \<and> (\<forall>e. e \<notin> set (drop (Suc k) (actives ?bf1)) \<longrightarrow> bf_epochs bf' e = bf_epochs ?bf1 e)
      \<and> (\<forall>j < m. bf_epochs bf' (actives ?bf1 ! (Suc k + j))
           = (EpochGate_init (bf_conf ?bf1))\<lparr>eg_dead := (lst + ?s) + (int j + 1) * bf_step ?bf1\<rparr>)"
      by (rule Suc.IH) (use Suc.prems h1 False lt in \<open>auto simp: algebra_simps\<close>)
    then obtain h' bf' where r: "setup_grid m (lst + ?s) dl h1 ?bf1 = Inr (h', bf')" "at_pos bf' h' (Suc k + m - 1)"
      "bf' = ?bf1\<lparr>bf_epochs := bf_epochs bf'\<rparr>"
      "\<forall>e. e \<notin> set (drop (Suc k) (actives bf)) \<longrightarrow> bf_epochs bf' e = bf_epochs ?bf1 e"
      "\<forall>j < m. bf_epochs bf' (actives bf ! (Suc k + j)) = (EpochGate_init (bf_conf bf))\<lparr>eg_dead := (lst + ?s) + (int j + 1) * ?s\<rparr>"
      by auto
    have run: "setup_grid (Suc m) lst dl h bf = Inr (h', bf')"
      using lt by (simp add: c plus Let_def h1(1) r(1))
    have d: "distinct (actives bf)" by (rule exfam.active_distinct [OF Suc.prems(1)])
    then have "?e \<notin> set (drop (Suc k) (actives bf))" using dk by (metis distinct.simps(2) distinct_drop)
    then have e: "bf_epochs bf' ?e = (EpochGate_init (bf_conf bf))\<lparr>eg_dead := lst + ?s\<rparr>" using r(4) by simp
    have all: "bf_epochs bf' (actives bf ! (k + j)) = (EpochGate_init (bf_conf bf))\<lparr>eg_dead := lst + (int j + 1) * ?s\<rparr>"
      if "j < Suc m" for j
    proof (cases j)
      case 0
      then show ?thesis using e by simp
    next
      case (Suc i)
      then show ?thesis using r(5) that by (simp add: algebra_simps)
    qed
    have eq: "bf' = bf\<lparr>bf_epochs := bf_epochs bf'\<rparr>" using r(3) by (simp add: setup_epoch_def)
    show ?thesis using run r(2) eq r(4) all dk
      by (intro exI [where x = h'] exI [where x = bf']) auto
  qed
qed simp

subsection \<open>The state invariant and storage until a deadline\<close>

definition bf_ok :: "BlockFlow \<Rightarrow> bool" where
  "bf_ok bf \<longleftrightarrow> ef_ok (bf_alloc bf) \<and> 0 < bf_step bf \<and> bf_step bf \<le> Duration_MAX \<and> 2 \<le> EPOCH_SIZ (bf_conf bf)
     \<and> sorted (map (deadline_of bf) (actives bf)) \<and> (\<forall>e \<in> set (actives bf). \<bar>eg_dead (bf_epochs bf e)\<bar> \<le> INT64_MAX)
     \<and> (\<forall>e \<in> set (actives bf). eg_next (bf_epochs bf e) < EPOCH_SIZ (bf_conf bf))"

lemma instant_time_clamp: "\<bar>t\<bar> \<le> INT64_MAX \<Longrightarrow> instant_time t = clamp Time_MAX t"
  by (simp add: instant_time_def TimeValue_raw_def limitedTime_clamp)

lemma clamp_mono: "0 \<le> lim \<Longrightarrow> a \<le> b \<Longrightarrow> clamp lim a \<le> clamp lim b"
  by (auto simp: clamp_def)

lemma deadline_of_range: "bf_ok bf \<Longrightarrow> e \<in> set (actives bf) \<Longrightarrow> \<bar>deadline_of bf e\<bar> \<le> Time_MAX"
  by (auto simp: bf_ok_def deadline_of_def epoch_deadline_def instant_time_clamp clamp_def time_limits)

lemma required_epochs_result:
  assumes "required_epochs distance step = Inr cnt" "0 < distance" "0 < step"
  shows "0 < cnt" "(cnt - 1) * step < distance" "distance \<le> cnt * step"
proof -
  have c: "cnt = (if distance mod step > 0 then distance div step + 1 else distance div step)"
    using assms by (auto simp: required_epochs_def require_def bind_result_Inr_iff sdiv_nonneg smod_nonneg Let_def)
  have d: "distance = distance div step * step + distance mod step" "0 \<le> distance mod step" "distance mod step < step"
    using assms(3) by simp_all
  have z: "0 \<le> distance div step" using assms by (simp add: pos_imp_zdiv_nonneg_iff)
  define q where "q = distance div step * step"
  have q: "(distance div step + 1) * step = q + step" "(distance div step - 1) * step = q - step"
    by (simp_all add: q_def distrib_right left_diff_distrib)
  define m where "m = distance mod step"
  have dq: "distance = q + m" "0 \<le> m" "m < step" using d by (simp_all only: q_def m_def)
  have res: "(cnt - 1) * step < distance \<and> distance \<le> cnt * step"
  proof (cases "m > 0")
    case True
    then have "cnt = distance div step + 1" using c by (simp add: m_def)
    then have e: "(cnt - 1) * step = q" "cnt * step = q + step" using q(1) by (simp_all add: q_def)
    have "q < distance" using dq(1) True by simp
    moreover have "distance \<le> q + step" using dq(1,3) by simp
    ultimately show "(cnt - 1) * step < distance \<and> distance \<le> cnt * step" by (simp only: e)
  next
    case False
    then have "cnt = distance div step" using c by (simp add: m_def)
    then have e: "(cnt - 1) * step = q - step" "cnt * step = q" using q(2) by (simp_all add: q_def)
    have "distance = q" using dq(1,2) False by simp
    then show "(cnt - 1) * step < distance \<and> distance \<le> cnt * step" unfolding e using assms(3) by simp
  qed
  then show "(cnt - 1) * step < distance" "distance \<le> cnt * step" by simp_all
  then show "0 < cnt" using assms(2,3) by (smt (verit) mult_nonpos_nonneg)
qed

lemma sorted_new_epochs:
  assumes "bf_ok bf" "actives bf \<noteq> []" "actives bf' = actives bf @ xs" "length xs = n"
    and "\<forall>e \<in> set (actives bf). bf_epochs bf' e = bf_epochs bf e"
    and "\<forall>j < n. eg_dead (bf_epochs bf' (xs ! j)) = deadline_of bf (last (actives bf)) + (int j + 1) * bf_step bf"
    and "deadline_of bf (last (actives bf)) + int n * bf_step bf \<le> INT64_MAX"
  shows "sorted (map (deadline_of bf') (actives bf')) \<and> (\<forall>e \<in> set (actives bf'). \<bar>eg_dead (bf_epochs bf' e)\<bar> \<le> INT64_MAX)"
proof -
  let ?l = "deadline_of bf (last (actives bf))"
  have step: "0 < bf_step bf" and l: "\<bar>?l\<bar> \<le> Time_MAX"
    using assms(1,2) deadline_of_range by (auto simp: bf_ok_def)
  have rng: "\<bar>?l + (int j + 1) * bf_step bf\<bar> \<le> INT64_MAX" if "j < n" for j
  proof -
    have "(int j + 1) * bf_step bf \<le> int n * bf_step bf" using that step by (intro mult_right_mono) auto
    moreover have "0 \<le> (int j + 1) * bf_step bf" using step by simp
    ultimately show ?thesis using assms(7) l unfolding time_limits by linarith
  qed
  have dl: "deadline_of bf' (xs ! j) = clamp Time_MAX (?l + (int j + 1) * bf_step bf)" if "j < n" for j
    using assms(6) rng [OF that] that by (simp add: deadline_of_def epoch_deadline_def instant_time_clamp)
  have ge: "?l \<le> deadline_of bf' (xs ! j)" if "j < n" for j
  proof -
    have "?l \<le> ?l + (int j + 1) * bf_step bf" using step by simp
    then show ?thesis using l unfolding dl [OF that] clamp_def time_limits by auto
  qed
  have mono: "deadline_of bf' (xs ! i) \<le> deadline_of bf' (xs ! j)" if "i \<le> j" "j < n" for i j
  proof -
    have "(int i + 1) * bf_step bf \<le> (int j + 1) * bf_step bf" using that step by (intro mult_right_mono) auto
    then show ?thesis unfolding dl [OF that(2)] dl [OF le_less_trans [OF that]]
      by (intro clamp_mono) (auto simp: time_limits)
  qed
  have old: "deadline_of bf' e = deadline_of bf e" if "e \<in> set (actives bf)" for e
    using assms(5) that by (simp add: deadline_of_def)
  have le: "deadline_of bf e \<le> ?l" if "e \<in> set (actives bf)" for e
  proof -
    obtain i where i: "i < length (actives bf)" "actives bf ! i = e" using \<open>e \<in> set (actives bf)\<close> by (auto simp: in_set_conv_nth)
    have "sorted (map (deadline_of bf) (actives bf))" using assms(1) by (simp add: bf_ok_def)
    from sorted_nth_mono [OF this, of i "length (actives bf) - 1"] show ?thesis
      using i assms(2) by (simp add: last_conv_nth)
  qed
  have m: "map (deadline_of bf') (actives bf) = map (deadline_of bf) (actives bf)" using old by simp
  have "sorted (map (deadline_of bf') (actives bf))" unfolding m using assms(1) by (simp add: bf_ok_def)
  moreover have "sorted (map (deadline_of bf') xs)"
    using mono assms(4) by (simp add: sorted_iff_nth_mono)
  moreover have "deadline_of bf' a \<le> deadline_of bf' b" if "a \<in> set (actives bf)" "b \<in> set xs" for a b
  proof -
    obtain j where "j < n" "b = xs ! j" using \<open>b \<in> set xs\<close> assms(4) by (auto simp: in_set_conv_nth)
    then show ?thesis using le [OF that(1)] ge [of j] old [OF that(1)] by simp
  qed
  ultimately have "sorted (map (deadline_of bf') (actives bf'))" by (auto simp: assms(3) sorted_append)
  moreover have "\<bar>eg_dead (bf_epochs bf' e)\<bar> \<le> INT64_MAX" if "e \<in> set (actives bf')" for e
  proof (cases "e \<in> set (actives bf)")
    case True
    then show ?thesis using assms(1,5) by (simp add: bf_ok_def)
  next
    case False
    then obtain j where "j < n" "e = xs ! j" using \<open>e \<in> set (actives bf')\<close> assms(3,4) by (auto simp: in_set_conv_nth)
    then show ?thesis using assms(6) rng by simp
  qed
  ultimately show ?thesis by blast
qed

lemma first_last_epoch:
  assumes "ef_ok (bf_alloc bf)" "\<not> ef_empty (bf_alloc bf)"
  shows "actives bf \<noteq> []" "firstEpoch bf = actives bf ! 0" "last_extent (bf_alloc bf) = Inr (last (actives bf))"
proof -
  have "activeSlotCnt (bf_alloc bf) \<noteq> 0"
    using assms by (auto simp: activeSlotCnt_def ef_empty_def isWrapped_def ef_ok_def)
  then show ne: "actives bf \<noteq> []" using activeSlotCnt_length [OF assms(1)] by auto
  have "incWrap (bf_alloc bf) (ef_start (bf_alloc bf)) 0 = ef_start (bf_alloc bf)"
    using assms(1) by (simp add: ef_ok_def incWrap_def)
  then show "firstEpoch bf = actives bf ! 0" using active_nth [OF assms(1), of 0] ne by (simp add: firstEpoch_def)
  show "last_extent (bf_alloc bf) = Inr (last (actives bf))" by (rule last_extent_active [OF assms(1) ne])
qed

lemma ef_empty_active: "ef_ok ef \<Longrightarrow> ef_empty ef \<longleftrightarrow> active_extents ef = []"
  by (auto simp: active_extents_def ef_empty_def isWrapped_def ef_ok_def slotCnt_def)

text \<open>What a request for storage may do to the allocator: add epochs behind the existing ones.\<close>

definition bf_extends :: "BlockFlow \<Rightarrow> BlockFlow \<Rightarrow> bool" where
  "bf_extends bf bf' \<longleftrightarrow> (\<exists>xs. actives bf' = actives bf @ xs)
     \<and> (\<forall>e \<in> set (actives bf). deadline_of bf' e = deadline_of bf e \<and> eg_next (bf_epochs bf' e) \<le> eg_next (bf_epochs bf e))
     \<and> bf_conf bf' = bf_conf bf \<and> bf_overflow bf' = bf_overflow bf \<and> bf_underflow bf' = bf_underflow bf"

lemma bf_extends_trans:
  assumes "bf_extends a b" "bf_extends b c"
  shows "bf_extends a c"
proof -
  obtain xs ys where x: "actives b = actives a @ xs" "actives c = actives b @ ys" using assms by (auto simp: bf_extends_def)
  have "deadline_of c e = deadline_of a e \<and> eg_next (bf_epochs c e) \<le> eg_next (bf_epochs a e)"
    if "e \<in> set (actives a)" for e
  proof -
    have "e \<in> set (actives b)" using that x by simp
    then have "deadline_of c e = deadline_of b e \<and> eg_next (bf_epochs c e) \<le> eg_next (bf_epochs b e)"
      using assms(2) by (simp add: bf_extends_def)
    moreover have "deadline_of b e = deadline_of a e \<and> eg_next (bf_epochs b e) \<le> eg_next (bf_epochs a e)"
      using assms(1) that by (simp add: bf_extends_def)
    ultimately show ?thesis by simp
  qed
  then show ?thesis using assms x by (simp add: bf_extends_def)
qed

lemma bf_extends_refl [simp]: "bf_extends a a"
  by (simp add: bf_extends_def)

definition holds_until :: "gavl_time_t \<Rightarrow> EpochIter \<Rightarrow> BlockFlow \<Rightarrow> bool" where
  "holds_until dl h bf \<longleftrightarrow> (\<exists>k. at_pos bf h k \<and> k < length (actives bf) \<and> dl \<le> deadline_of bf (actives bf ! k)
     \<and> (\<forall>m < k. deadline_of bf (actives bf ! m) < dl))"

lemma new_grid_result:
  assumes ok: "bf_ok bf" and ne: "actives bf \<noteq> []" and dl: "\<bar>dl\<bar> \<le> Time_MAX"
    and less: "deadline_of bf (last (actives bf)) < dl"
    and c: "required_epochs (dl - deadline_of bf (last (actives bf))) (bf_step bf) = Inr cnt"
    and x: "epoch_expandAlloc (nat cnt) bf (epoch_iter bf (ef_after (bf_alloc bf))) = Inr (h1, bf1)"
  shows "\<exists>h bf'. setup_grid (nat cnt) (deadline_of bf (last (actives bf))) dl h1 bf1 = Inr (h, bf')
    \<and> bf_ok bf' \<and> bf_extends bf bf' \<and> holds_until dl h bf'"
proof -
  let ?l = "deadline_of bf (last (actives bf))" and ?s = "bf_step bf"
  have ef: "ef_ok (bf_alloc bf)" and s: "0 < ?s" "?s \<le> Duration_MAX" and lr: "\<bar>?l\<bar> \<le> Time_MAX"
    using ok ne deadline_of_range [OF ok] by (auto simp: bf_ok_def)
  have "0 < dl - ?l" using less by simp
  note rc = required_epochs_result [OF c this s(1)]
  define n where "n = nat cnt"
  have n: "0 < n" "int n = cnt" using rc(1) by (auto simp: n_def)
  have idx: "it_index (epoch_iter bf (ef_after (bf_alloc bf))) = ef_after (bf_alloc bf)" by (simp add: epoch_iter_def)
  note ex = epoch_expandAlloc_end [OF ef idx x]
  obtain xs where xs: "actives bf1 = actives bf @ xs" "length xs = n" using ex(2) n_def by auto
  have f1: "bf_step bf1 = ?s" "bf_conf bf1 = bf_conf bf" "bf_epochs bf1 = bf_epochs bf"
    "bf_overflow bf1 = bf_overflow bf" "bf_underflow bf1 = bf_underflow bf"
    by (subst ex(4), simp)+
  have "\<exists>h' b'. setup_grid n ?l dl h1 bf1 = Inr (h', b') \<and> at_pos b' h' (length (actives bf) + n - 1)
    \<and> b' = bf1\<lparr>bf_epochs := bf_epochs b'\<rparr>
    \<and> (\<forall>e. e \<notin> set (drop (length (actives bf)) (actives bf1)) \<longrightarrow> bf_epochs b' e = bf_epochs bf1 e)
    \<and> (\<forall>j < n. bf_epochs b' (actives bf1 ! (length (actives bf) + j))
         = (EpochGate_init (bf_conf bf1))\<lparr>eg_dead := ?l + (int j + 1) * bf_step bf1\<rparr>)"
    by (rule setup_grid_result [OF ex(1) ex(3)]) (use n rc xs f1 s lr dl in \<open>auto simp: algebra_simps\<close>)
  then obtain h bf' where g: "setup_grid n ?l dl h1 bf1 = Inr (h, bf')" and r: "at_pos bf' h (length (actives bf) + n - 1)" "bf' = bf1\<lparr>bf_epochs := bf_epochs bf'\<rparr>"
    "\<forall>e. e \<notin> set xs \<longrightarrow> bf_epochs bf' e = bf_epochs bf e"
    "\<forall>j < n. bf_epochs bf' (xs ! j) = (EpochGate_init (bf_conf bf))\<lparr>eg_dead := ?l + (int j + 1) * ?s\<rparr>"
    using xs f1 by (auto simp: nth_append)
  have f': "bf_alloc bf' = bf_alloc bf1" "bf_step bf' = ?s" "bf_conf bf' = bf_conf bf"
    "bf_overflow bf' = bf_overflow bf" "bf_underflow bf' = bf_underflow bf"
    using f1 by (subst r(2), simp)+
  have act: "actives bf' = actives bf @ xs" using f'(1) xs by simp
  have "distinct (actives bf1)" by (rule exfam.active_distinct [OF ex(1)])
  then have disj: "set (actives bf) \<inter> set xs = {}" using xs by simp
  then have old: "\<forall>e \<in> set (actives bf). bf_epochs bf' e = bf_epochs bf e" using r(3) by blast
  have top: "?l + int n * ?s \<le> INT64_MAX"
  proof -
    have "(cnt - 1) * ?s = int n * ?s - ?s" using n by (simp add: left_diff_distrib)
    then show ?thesis using rc(2) dl s(2) unfolding time_limits by linarith
  qed
  have so: "sorted (map (deadline_of bf') (actives bf')) \<and> (\<forall>e \<in> set (actives bf'). \<bar>eg_dead (bf_epochs bf' e)\<bar> \<le> INT64_MAX)"
    by (rule sorted_new_epochs [OF ok ne act xs(2) old _ top]) (use r(4) in simp)
  have "eg_next (bf_epochs bf' e) < EPOCH_SIZ (bf_conf bf)" if "e \<in> set (actives bf')" for e
  proof (cases "e \<in> set (actives bf)")
    case True
    then show ?thesis using old ok by (simp add: bf_ok_def)
  next
    case False
    then obtain j where "j < n" "e = xs ! j" using \<open>e \<in> set (actives bf')\<close> act xs(2) by (auto simp: in_set_conv_nth)
    then show ?thesis using r(4) ok by (simp add: EpochGate_init_def bf_ok_def)
  qed
  then have ok': "bf_ok bf'" using ok so ex(1) f' by (simp add: bf_ok_def)
  have dead: "eg_dead (bf_epochs bf' (xs ! j)) = ?l + (int j + 1) * ?s" if "j < n" for j using r(4) that by simp
  have "dl \<le> deadline_of bf' (xs ! (n - 1))"
  proof -
    have e: "eg_dead (bf_epochs bf' (xs ! (n - 1))) = ?l + int n * ?s" using dead [of "n - 1"] n by (simp add: of_nat_diff)
    have "0 \<le> int n * ?s" using s by simp
    then have b: "\<bar>?l + int n * ?s\<bar> \<le> INT64_MAX" using top lr unfolding time_limits by linarith
    have c: "deadline_of bf' (xs ! (n - 1)) = clamp Time_MAX (?l + int n * ?s)"
      by (simp only: deadline_of_def [of bf'] epoch_deadline_def e instant_time_clamp [OF b])
    have "dl \<le> ?l + int n * ?s" using rc(3) n by simp
    then show ?thesis using dl unfolding c by (auto simp: clamp_def time_limits)
  qed
  moreover have "deadline_of bf' (actives bf' ! m) < dl" if "m < length (actives bf) + n - 1" for m
  proof (cases "m < length (actives bf)")
    case True
    have "sorted (map (deadline_of bf) (actives bf))" using ok by (simp add: bf_ok_def)
    from sorted_nth_mono [OF this, of m "length (actives bf) - 1"] have "deadline_of bf (actives bf ! m) \<le> ?l"
      using True ne by (simp add: last_conv_nth)
    then show ?thesis using less True old act by (simp add: nth_append deadline_of_def)
  next
    case False
    define j where "j = m - length (actives bf)"
    have j: "j < n - 1" using that False by (simp add: j_def)
    have "(int j + 1) * ?s \<le> (cnt - 1) * ?s" using j n s by (intro mult_right_mono) auto
    then have b: "?l + (int j + 1) * ?s < dl" using rc(2) by linarith
    have "0 \<le> (int j + 1) * ?s" using s by simp
    then have "\<bar>?l + (int j + 1) * ?s\<bar> \<le> INT64_MAX" using b dl lr unfolding time_limits by linarith
    then have "deadline_of bf' (xs ! j) = clamp Time_MAX (?l + (int j + 1) * ?s)"
      using dead [of j] j by (simp add: deadline_of_def epoch_deadline_def instant_time_clamp)
    then show ?thesis using b dl False act \<open>0 \<le> (int j + 1) * ?s\<close> lr
      by (auto simp: nth_append j_def [symmetric] clamp_def)
  qed
  moreover have "length (actives bf) + n - 1 = length (actives bf) + (n - 1)" using n(1) by simp
  then have "actives bf' ! (length (actives bf) + n - 1) = xs ! (n - 1)" unfolding act by (simp only: nth_append_length_plus)
  moreover have "length (actives bf) + n - 1 < length (actives bf')" using act xs(2) n(1) by simp
  ultimately have "holds_until dl h bf'" unfolding holds_until_def
    using r(1) by (intro exI [where x = "length (actives bf) + n - 1"]) simp
  moreover have "bf_extends bf bf'" using act old f' by (simp add: bf_extends_def deadline_of_def)
  ultimately show ?thesis using ok' g unfolding n_def by blast
qed

lemma grid_distance:
  assumes "bf_ok bf" "actives bf \<noteq> []" "\<bar>dl\<bar> \<le> Time_MAX"
  shows "i64 (dl - deadline_of bf (last (actives bf))) = dl - deadline_of bf (last (actives bf))"
proof -
  have "\<bar>deadline_of bf (last (actives bf))\<bar> \<le> Time_MAX" using assms(1,2) deadline_of_range by simp
  then show ?thesis using assms(3) by (intro i64_id) (auto simp: time_limits)
qed

lemma until_create_grid_result:
  assumes "bf_ok bf" "actives bf \<noteq> []" "\<bar>dl\<bar> \<le> Time_MAX" "deadline_of bf (last (actives bf)) < dl"
    and run: "until_create_grid (deadline_of bf (last (actives bf))) dl bf = Inr (h, bf')"
  shows "bf_ok bf' \<and> bf_extends bf bf' \<and> holds_until dl h bf'"
proof -
  obtain cnt h1 bf1 where c: "required_epochs (dl - deadline_of bf (last (actives bf))) (bf_step bf) = Inr cnt"
    and x: "epoch_expandAlloc (nat cnt) bf (epoch_iter bf (ef_after (bf_alloc bf))) = Inr (h1, bf1)"
    and g: "setup_grid (nat cnt) (deadline_of bf (last (actives bf))) dl h1 bf1 = Inr (h, bf')"
    using run by (auto simp: until_create_grid_def grid_distance [OF assms(1-3)] bind_result_Inr_iff)
  from new_grid_result [OF assms(1-4) c x] show ?thesis using g by auto
qed

lemma first_epoch_result:
  assumes ok: "bf_ok bf" and e: "ef_empty (bf_alloc bf)" and dl: "\<bar>dl\<bar> \<le> Time_MAX"
    and run: "until dl bf = Inr (h, bf')"
  shows "bf_ok bf' \<and> bf_extends bf bf' \<and> holds_until dl h bf'"
proof -
  let ?d = "dl + bf_step bf"
  have nil: "actives bf = []" using ok e ef_empty_active by (simp add: bf_ok_def)
  have s: "0 < bf_step bf" "bf_step bf \<le> Duration_MAX" using ok by (simp_all add: bf_ok_def)
  have d: "\<bar>?d\<bar> \<le> INT64_MAX" using dl s unfolding time_limits by linarith
  have pl: "Time_plus dl (Time_of_var (bf_step bf)) = ?d"
    unfolding Time_plus_def Time_of_var_def TimeVar_plus_def using d by (intro i64_id) (auto simp: time_limits)
  obtain ef where ef: "openNew 1 (bf_alloc bf) = Inr ef"
    and h: "h = epoch_iter bf' (ef_start ef)" and b: "bf' = setup_epoch (ef_slots ef ! ef_start ef) ?d (bf\<lparr>bf_alloc := ef\<rparr>)"
    using run e by (auto simp: until_def bind_result_Inr_iff Let_def pl)
  have "ef_ok (bf_alloc bf)" using ok by (simp add: bf_ok_def)
  note o = openNew_result [OF this ef]
  obtain x where x: "active_extents ef = [x]" using o(2) nil by (auto simp: length_Suc_conv)
  have a: "actives bf' = [x]" "bf_alloc bf' = ef" using x by (simp_all add: b)
  have "incWrap ef (ef_start ef) 0 = ef_start ef" using o(1) by (simp add: ef_ok_def incWrap_def)
  then have "ef_slots ef ! ef_start ef = x" using active_nth [OF o(1), of 0] x by simp
  then have g: "eg_dead (bf_epochs bf' x) = ?d" by (simp add: b)
  then have dx: "deadline_of bf' x = clamp Time_MAX ?d"
    by (simp add: deadline_of_def epoch_deadline_def instant_time_clamp [OF d])
  have f: "bf_step bf' = bf_step bf" "bf_conf bf' = bf_conf bf" "bf_overflow bf' = bf_overflow bf" "bf_underflow bf' = bf_underflow bf"
    by (simp_all add: b)
  have "eg_next (bf_epochs bf' x) = EPOCH_SIZ (bf_conf bf) - 1"
    using \<open>ef_slots ef ! ef_start ef = x\<close> by (simp add: b EpochGate_init_def)
  then have "bf_ok bf'" using ok o(1) a g d s f by (simp add: bf_ok_def)
  moreover have "dl \<le> deadline_of bf' x" using dl s(1) unfolding dx by (auto simp: clamp_def time_limits)
  moreover have "at_pos bf' h 0" unfolding h using epoch_iter_begin [of bf'] o(1) a(2) by simp
  ultimately show ?thesis using a(1) nil f by (auto simp: holds_until_def bf_extends_def intro!: exI [where x = 0])
qed

lemma openNew_error:
  "openNew n ef = Inl x \<Longrightarrow> x = Err Fatal ''Raw allocation exceeds safety limit''"
  by (auto simp: openNew_def bind_result_Inl_iff Let_def sanityCheckAllocSize_def split: if_splits)

lemma epoch_expandAlloc_error:
  "epoch_expandAlloc n bf h = Inl x \<Longrightarrow> x = Err Fatal ''Raw allocation exceeds safety limit''"
  by (auto simp: epoch_expandAlloc_def link_expandAlloc_def bind_result_Inl_iff dest: openNew_error)

lemma until_result:
  assumes ok: "bf_ok bf" and dl: "\<bar>dl\<bar> \<le> Time_MAX" and run: "until dl bf = Inr (h, bf')"
  shows "bf_ok bf' \<and> bf_extends bf bf' \<and> holds_until dl h bf'"
proof (cases "ef_empty (bf_alloc bf)")
  case True
  then show ?thesis by (rule first_epoch_result [OF ok _ dl run])
next
  case False
  have ef: "ef_ok (bf_alloc bf)" using ok by (simp add: bf_ok_def)
  note fl = first_last_epoch [OF ef False]
  have len: "length (actives bf) < slotCnt (bf_alloc bf)"
    using activeSlotCnt_less [OF ef] activeSlotCnt_length [OF ef] by simp
  note beg = epoch_iter_begin [OF ef]
  consider (first) "dl \<le> deadline_of bf (firstEpoch bf)"
    | (beyond) "deadline_of bf (firstEpoch bf) < dl" "deadline_of bf (last (actives bf)) < dl"
    | (within) "deadline_of bf (firstEpoch bf) < dl" "dl \<le> deadline_of bf (last (actives bf))" by linarith
  then show ?thesis
  proof cases
    case first
    then have "h = epoch_iter bf (ef_start (bf_alloc bf))" "bf' = bf" using run False by (auto simp: until_def)
    then show ?thesis using first beg fl ok by (auto simp: holds_until_def intro!: exI [where x = 0])
  next
    case beyond
    then show ?thesis using run False fl(3)
      by (intro until_create_grid_result [OF ok fl(1) dl]) (simp_all add: until_def)
  next
    case within
    have l: "last (actives bf) = actives bf ! (length (actives bf) - 1)" using fl(1) by (simp add: last_conv_nth)
    have n0: "length (actives bf) - 1 < length (actives bf)" "length (actives bf) - 1 - 0 < slotCnt (bf_alloc bf)"
      using fl(1) len by auto
    have dl0: "dl \<le> deadline_of bf (actives bf ! (length (actives bf) - 1))" using within(2) l by simp
    obtain h' i where r: "find_epoch (slotCnt (bf_alloc bf)) dl (epoch_iter bf (ef_start (bf_alloc bf))) bf = Inr h'"
      "at_pos bf h' i" "i \<le> length (actives bf) - 1" "dl \<le> deadline_of bf (actives bf ! i)"
      "\<forall>m. 0 \<le> m \<and> m < i \<longrightarrow> deadline_of bf (actives bf ! m) < dl"
      using find_epoch_result [OF ef beg le0 n0(1) dl0 n0(2)] by blast
    then have "h = h'" "bf' = bf" using run False fl(3) within by (simp_all add: until_def)
    moreover have "i < length (actives bf)" using r(3) fl(1) by (cases "actives bf") auto
    ultimately show ?thesis using r ok by (auto simp: holds_until_def)
  qed
qed

subsection \<open>Claiming a slot\<close>

text \<open>What is required of the floating-point regulation: the epoch step stays positive.\<close>

definition overflow_ok :: "BlockFlow \<Rightarrow> bool" where
  "overflow_ok bf \<longleftrightarrow> (\<forall>s. timeStep_cutOff (bf_conf bf) < s \<and> s \<le> Duration_MAX \<longrightarrow> 0 < bf_overflow bf s \<and> bf_overflow bf s \<le> s)"

definition underflow_ok :: "BlockFlow \<Rightarrow> bool" where
  "underflow_ok bf \<longleftrightarrow> (\<forall>s len fill. 0 < s \<and> s \<le> Duration_MAX \<longrightarrow> 0 < bf_underflow bf s len fill \<and> bf_underflow bf s len fill \<le> INT64_MAX)"

definition slot_taken :: "BlockFlow \<Rightarrow> extent \<Rightarrow> nat \<Rightarrow> bool" where
  "slot_taken bf e s \<longleftrightarrow> eg_next (bf_epochs bf e) < s \<and> s < EPOCH_SIZ (bf_conf bf)"

lemma markEpochOverflow_fields [simp]:
  "bf_alloc (markEpochOverflow bf) = bf_alloc bf" "bf_epochs (markEpochOverflow bf) = bf_epochs bf"
  "bf_conf (markEpochOverflow bf) = bf_conf bf" "bf_overflow (markEpochOverflow bf) = bf_overflow bf"
  "bf_underflow (markEpochOverflow bf) = bf_underflow bf" "deadline_of (markEpochOverflow bf) e = deadline_of bf e"
  by (simp_all add: markEpochOverflow_def deadline_of_def)

lemma markEpochOverflow_ok:
  assumes "bf_ok bf" "overflow_ok bf"
  shows "bf_ok (markEpochOverflow bf)" "overflow_ok (markEpochOverflow bf)" "bf_extends bf (markEpochOverflow bf)"
proof -
  have "0 < bf_step (markEpochOverflow bf) \<and> bf_step (markEpochOverflow bf) \<le> Duration_MAX"
  proof (cases "bf_step bf > timeStep_cutOff (bf_conf bf)")
    case True
    then have r: "0 < bf_overflow bf (bf_step bf)" "bf_overflow bf (bf_step bf) \<le> Duration_MAX"
      using assms unfolding bf_ok_def overflow_ok_def by fastforce+
    then have "TimeValue_raw (bf_overflow bf (bf_step bf)) = clamp Time_MAX (bf_overflow bf (bf_step bf))"
      unfolding TimeValue_raw_def by (intro limitedTime_clamp) (auto simp: time_limits)
    then show ?thesis using True r by (simp add: markEpochOverflow_def clamp_def time_limits)
  next
    case False
    then show ?thesis using assms(1) by (simp add: markEpochOverflow_def bf_ok_def)
  qed
  moreover have "map (deadline_of (markEpochOverflow bf)) (actives bf) = map (deadline_of bf) (actives bf)" by simp
  ultimately show "bf_ok (markEpochOverflow bf)"
    using assms(1) unfolding bf_ok_def markEpochOverflow_fields by metis
  show "overflow_ok (markEpochOverflow bf)" using assms(2) by (simp add: overflow_ok_def)
  show "bf_extends bf (markEpochOverflow bf)" by (simp add: bf_extends_def)
qed

lemma epoch_iterNext_index:
  assumes "ef_ok (bf_alloc bf)" "at_pos bf h k" "k < length (actives bf)" "epoch_iterNext bf h = Inr h'"
  shows "at_pos bf h' (Suc k)" "it_index h' = incWrap (bf_alloc bf) (ef_start (bf_alloc bf)) (Suc k)"
proof -
  have "validatePos (bf_alloc bf) (actives bf ! k) (it_index h) = Inr (incWrap (bf_alloc bf) (ef_start (bf_alloc bf)) k)"
    using assms by (intro validatePos_active) (auto simp: at_pos_def)
  then show "it_index h' = incWrap (bf_alloc bf) (ef_start (bf_alloc bf)) (Suc k)"
    using assms by (auto simp: epoch_iterNext_def at_pos_def link_next_def incWrap_add epoch_iter_def)
  show "at_pos bf h' (Suc k)" using epoch_iterNext_pos [OF assms(1-3)] assms(4) by auto
qed

text \<open>Opening one more epoch behind the last one.\<close>

lemma append_epoch_result:
  assumes ok: "bf_ok bf" and ne: "actives bf \<noteq> []" and idx: "it_index h = ef_after (bf_alloc bf)"
    and x: "epoch_expandAlloc 1 bf h = Inr (h1, bf1)"
    and bf2: "bf2 = setup_epoch e (Time_plus (deadline_of bf (last (actives bf))) (bf_step bf)) bf1"
    and e: "it_curr h1 = Some e"
  shows "bf_ok bf2 \<and> bf_extends bf bf2 \<and> actives bf2 = actives bf @ [e] \<and> at_pos bf2 h1 (length (actives bf))
    \<and> hasFreeSlot (bf_epochs bf2 e)"
proof -
  let ?l = "deadline_of bf (last (actives bf))" and ?s = "bf_step bf"
  have ef: "ef_ok (bf_alloc bf)" and s: "0 < ?s" "?s \<le> Duration_MAX" and lr: "\<bar>?l\<bar> \<le> Time_MAX"
    using ok ne deadline_of_range [OF ok] by (auto simp: bf_ok_def)
  note ex = epoch_expandAlloc_end [OF ef idx x]
  obtain y where y: "actives bf1 = actives bf @ [y]" using ex(2) by (auto simp: length_Suc_conv)
  have f1: "bf_step bf1 = ?s" "bf_conf bf1 = bf_conf bf" "bf_epochs bf1 = bf_epochs bf"
    "bf_overflow bf1 = bf_overflow bf" "bf_underflow bf1 = bf_underflow bf"
    by (subst ex(4), simp)+
  have ye: "y = e" using ex(3) e y by (simp add: at_pos_def)
  have act: "actives bf2 = actives bf @ [e]" using y ye bf2 by simp
  have "distinct (actives bf1)" by (rule exfam.active_distinct [OF ex(1)])
  then have new: "e \<notin> set (actives bf)" using y ye by simp
  have old: "\<forall>a \<in> set (actives bf). bf_epochs bf2 a = bf_epochs bf a" using new f1(3) bf2 by auto
  have pl: "Time_plus ?l ?s = ?l + ?s"
    unfolding Time_plus_def TimeVar_plus_def using s lr by (intro i64_id) (auto simp: time_limits)
  have ee: "bf_epochs bf2 e = (EpochGate_init (bf_conf bf))\<lparr>eg_dead := ?l + ?s\<rparr>" using bf2 pl f1 by simp
  have top: "?l + int 1 * ?s \<le> INT64_MAX" using s lr unfolding time_limits by linarith
  have so: "sorted (map (deadline_of bf2) (actives bf2)) \<and> (\<forall>e \<in> set (actives bf2). \<bar>eg_dead (bf_epochs bf2 e)\<bar> \<le> INT64_MAX)"
    by (rule sorted_new_epochs [OF ok ne act _ old _ top]) (use ee in simp_all)
  have "bf_ok bf2" using ok so ex(1) f1 act old ee unfolding bf_ok_def bf2
    by (simp add: EpochGate_init_def)
  moreover have "bf_extends bf bf2" using act old f1 by (auto simp: bf_extends_def deadline_of_def bf2)
  moreover have "hasFreeSlot (bf_epochs bf2 e)" using ok unfolding ee by (simp add: hasFreeSlot_def EpochGate_init_def bf_ok_def)
  ultimately show ?thesis using act ex(3) bf2 by simp
qed

lemma holds_extends:
  assumes "bf_extends bf bf'" "k < length (actives bf)"
  shows "k < length (actives bf')" "actives bf' ! k = actives bf ! k" "deadline_of bf' (actives bf' ! k) = deadline_of bf (actives bf ! k)"
proof -
  obtain xs where x: "actives bf' = actives bf @ xs" using assms(1) by (auto simp: bf_extends_def)
  show "k < length (actives bf')" "actives bf' ! k = actives bf ! k" using x assms(2) by (simp_all add: nth_append)
  then show "deadline_of bf' (actives bf' ! k) = deadline_of bf (actives bf ! k)"
    using assms by (simp add: bf_extends_def)
qed

lemma bf_ok_deadline_mono:
  assumes "bf_ok bf" "i \<le> j" "j < length (actives bf)"
  shows "deadline_of bf (actives bf ! i) \<le> deadline_of bf (actives bf ! j)"
proof -
  have "sorted (map (deadline_of bf) (actives bf))" using assms(1) by (simp add: bf_ok_def)
  from sorted_nth_mono [OF this, of i j] show ?thesis using assms(2,3) by simp
qed

lemma last_extent_ok: "bf_ok bf \<Longrightarrow> actives bf \<noteq> [] \<Longrightarrow> last_extent (bf_alloc bf) = Inr (last (actives bf))"
  by (simp add: bf_ok_def last_extent_active)

definition claim_epoch_post :: "BlockFlow \<Rightarrow> nat \<Rightarrow> EpochIter \<times> extent \<times> BlockFlow \<Rightarrow> bool" where
  "claim_epoch_post bf k r = (case r of (h', e, bf') \<Rightarrow> bf_ok bf' \<and> bf_extends bf bf'
     \<and> (\<exists>k' \<ge> k. at_pos bf' h' k' \<and> k' < length (actives bf') \<and> e = actives bf' ! k') \<and> hasFreeSlot (bf_epochs bf' e))"

lemma claim_epoch_post_trans:
  "bf_extends bf bf1 \<Longrightarrow> k \<le> k1 \<Longrightarrow> claim_epoch_post bf1 k1 r \<Longrightarrow> claim_epoch_post bf k r"
  by (auto simp: claim_epoch_post_def split: prod.splits intro: bf_extends_trans le_trans)

lemma claim_epoch_result:
  assumes "bf_ok bf" "overflow_ok bf" "at_pos bf h k" "actives bf \<noteq> []"
    and "k = length (actives bf) \<longrightarrow> it_index h = ef_after (bf_alloc bf)"
    and "length (actives bf) - k + 2 \<le> n"
  shows "(\<exists>r. claim_epoch n h bf = Inr r \<and> claim_epoch_post bf k r)
    \<or> claim_epoch n h bf = Inl (Err Fatal ''Raw allocation exceeds safety limit'')"
  using assms
proof (induction n arbitrary: h k bf)
  case (Suc n)
  have ef: "ef_ok (bf_alloc bf)" using Suc.prems(1) by (simp add: bf_ok_def)
  consider (at_end) "k = length (actives bf)" | (inside) "k < length (actives bf)" using Suc.prems(3) by (fastforce simp: at_pos_def)
  then show ?case
  proof cases
    case at_end
    have c: "it_curr h = None" using Suc.prems(3) at_end by (simp add: at_pos_def)
    show ?thesis
    proof (cases "epoch_expandAlloc 1 bf h")
      case (Inl x)
      then show ?thesis using epoch_expandAlloc_error [OF Inl] by (simp add: c last_extent_ok [OF Suc.prems(1,4)])
    next
      case (Inr r)
      obtain h1 bf1 where r: "r = (h1, bf1)" by (cases r)
      note x = Inr [unfolded r]
      have idx: "it_index h = ef_after (bf_alloc bf)" using Suc.prems(5) at_end by simp
      note ex = epoch_expandAlloc_end [OF ef idx x]
      obtain e where e: "it_curr h1 = Some e" using ex(2,3) by (auto simp: at_pos_def length_Suc_conv)
      define bf2 where "bf2 = setup_epoch e (Time_plus (deadline_of bf (last (actives bf))) (bf_step bf)) bf1"
      note a = append_epoch_result [OF Suc.prems(1,4) idx x bf2_def e]
      obtain m where m: "n = Suc m" using Suc.prems(6) at_end by (cases n) auto
      have run: "claim_epoch (Suc n) h bf = Inr (h1, e, bf2)"
      proof -
        have "claim_epoch n h1 bf2 = Inr (h1, e, bf2)" using a e by (simp add: m)
        then show ?thesis
          by (simp only: claim_epoch.simps c option.case last_extent_ok [OF Suc.prems(1,4)] bind_result_simps x fst_conv snd_conv e bf2_def [symmetric])
      qed
      have "claim_epoch_post bf k (h1, e, bf2)"
        using a at_end by (auto simp: claim_epoch_post_def intro!: exI [where x = k])
      then show ?thesis using run by blast
    qed
  next
    case inside
    let ?e = "actives bf ! k"
    have c: "it_curr h = Some ?e" using Suc.prems(3) inside by (simp add: at_pos_def)
    show ?thesis
    proof (cases "hasFreeSlot (bf_epochs bf ?e)")
      case True
      then have "claim_epoch_post bf k (h, ?e, bf)" using Suc.prems inside by (auto simp: claim_epoch_post_def)
      then show ?thesis using True by (simp add: c)
    next
      case False
      let ?bf1 = "markEpochOverflow bf"
      note mk = markEpochOverflow_ok [OF Suc.prems(1,2)]
      have p1: "at_pos ?bf1 h k" using Suc.prems(3) by (simp add: at_pos_def)
      obtain h1 where h1: "epoch_iterNext ?bf1 h = Inr h1"
        using epoch_iterNext_pos [of ?bf1 h k] ef p1 inside by auto
      have i1: "at_pos ?bf1 h1 (Suc k)" "it_index h1 = incWrap (bf_alloc bf) (ef_start (bf_alloc bf)) (Suc k)"
        using epoch_iterNext_index [of ?bf1 h k h1] ef p1 inside h1 by auto
      have "Suc k = length (actives bf) \<longrightarrow> it_index h1 = ef_after (bf_alloc bf)"
        using i1(2) incWrap_start_after [OF ef] activeSlotCnt_length [OF ef] by auto
      then have "(\<exists>r. claim_epoch n h1 ?bf1 = Inr r \<and> claim_epoch_post ?bf1 (Suc k) r)
        \<or> claim_epoch n h1 ?bf1 = Inl (Err Fatal ''Raw allocation exceeds safety limit'')"
        using mk i1(1) Suc.prems(4,6) inside by (intro Suc.IH) auto
      moreover have "claim_epoch (Suc n) h bf = claim_epoch n h1 ?bf1" using False by (simp add: c h1)
      ultimately show ?thesis using claim_epoch_post_trans [OF mk(3), of k "Suc k"] by auto
    qed
  qed
qed simp

lemma claimSlot_result:
  assumes "bf_ok bf" "overflow_ok bf" "at_pos bf h k" "k < length (actives bf)"
  shows "claimSlot h bf = Inl (Err Fatal ''Raw allocation exceeds safety limit'')
    \<or> (\<exists>h' e s bf' k'. claimSlot h bf = Inr (h', (e, s), bf') \<and> bf_ok bf' \<and> bf_extends bf bf'
         \<and> k \<le> k' \<and> at_pos bf' h' k' \<and> k' < length (actives bf') \<and> e = actives bf' ! k'
         \<and> 0 < s \<and> s < EPOCH_SIZ (bf_conf bf) \<and> slot_taken bf' e s \<and> (e \<in> set (actives bf) \<longrightarrow> \<not> slot_taken bf e s))"
proof -
  have ef: "ef_ok (bf_alloc bf)" using assms(1) by (simp add: bf_ok_def)
  have fuel: "length (actives bf) - k + 2 \<le> claim_fuel bf" by (simp add: claim_fuel_def activeSlotCnt_length [OF ef])
  have "actives bf \<noteq> []" "k = length (actives bf) \<longrightarrow> it_index h = ef_after (bf_alloc bf)" using assms(4) by auto
  note cl = claim_epoch_result [OF assms(1-3) this fuel]
  then consider (full) "claim_epoch (claim_fuel bf) h bf = Inl (Err Fatal ''Raw allocation exceeds safety limit'')"
    | (got) r where "claim_epoch (claim_fuel bf) h bf = Inr r" "claim_epoch_post bf k r" by blast
  then show ?thesis
  proof cases
    case full
    then show ?thesis by (simp add: claimSlot_def)
  next
    case got
    obtain h' e bf1 where r: "r = (h', e, bf1)" by (cases r) auto
    let ?g = "bf_epochs bf1 e"
    let ?bf' = "bf1\<lparr>bf_epochs := (bf_epochs bf1)(e := ?g\<lparr>eg_next := eg_next ?g - 1\<rparr>)\<rparr>"
    obtain k' where k': "k \<le> k'" "at_pos bf1 h' k'" "k' < length (actives bf1)" "e = actives bf1 ! k'"
      and ok1: "bf_ok bf1" and ext: "bf_extends bf bf1" and free: "hasFreeSlot ?g"
      using got(2) by (auto simp: claim_epoch_post_def r)
    have run: "claimSlot h bf = Inr (h', (e, eg_next ?g), ?bf')"
      using got(1) free by (simp add: claimSlot_def r claimNextSlot_def)
    have e: "e \<in> set (actives bf1)" using k' by simp
    have d: "deadline_of ?bf' x = deadline_of bf1 x" for x by (simp add: deadline_of_def epoch_deadline_def)
    have m: "map (deadline_of ?bf') (actives bf1) = map (deadline_of bf1) (actives bf1)" by (intro map_cong refl d)
    have siz: "eg_next ?g < EPOCH_SIZ (bf_conf bf1)" using ok1 e by (simp add: bf_ok_def)
    have so: "sorted (map (deadline_of ?bf') (actives bf1))" unfolding m using ok1 by (simp add: bf_ok_def)
    have ok': "bf_ok ?bf'" using ok1 so siz unfolding bf_ok_def by (simp add: less_imp_diff_less)
    have "bf_extends bf1 ?bf'" unfolding bf_extends_def d by simp
    then have ext': "bf_extends bf ?bf'" by (rule bf_extends_trans [OF ext])
    have "at_pos ?bf' h' k'" using k'(2) by (simp add: at_pos_def)
    moreover have "bf_conf bf1 = bf_conf bf" using ext by (simp add: bf_extends_def)
    moreover have "0 < eg_next ?g" using free by (simp add: hasFreeSlot_def)
    moreover have "slot_taken ?bf' e (eg_next ?g)" using siz \<open>0 < eg_next ?g\<close> by (simp add: slot_taken_def)
    moreover have "e \<in> set (actives bf) \<longrightarrow> \<not> slot_taken bf e (eg_next ?g)"
      using ext by (auto simp: slot_taken_def bf_extends_def)
    ultimately show ?thesis using run ok' ext' k' siz by (intro disjI2 exI conjI) (assumption | simp)+
  qed
qed

subsection \<open>Discarding the past\<close>

definition step_ok :: "BlockFlow \<Rightarrow> bool" where
  "step_ok bf \<longleftrightarrow> 0 < bf_step bf \<and> bf_step bf \<le> Duration_MAX"

lemma markEpochUnderflow_fields:
  "markEpochUnderflow len fill bf = bf\<lparr>bf_step := bf_step (markEpochUnderflow len fill bf)\<rparr>"
  by (simp add: markEpochUnderflow_def)

lemma markEpochUnderflow_step:
  assumes "step_ok bf" "underflow_ok bf"
  shows "step_ok (markEpochUnderflow len fill bf)"
proof -
  have r: "0 < bf_underflow bf (bf_step bf) len fill" "bf_underflow bf (bf_step bf) len fill \<le> INT64_MAX"
    using assms unfolding step_ok_def underflow_ok_def by blast+
  have b: "limitedTime x = clamp Time_MAX x" if "0 < x" "x \<le> INT64_MAX" for x
    using that by (intro limitedTime_clamp) simp
  show ?thesis using b [OF r] r(1) by (simp add: step_ok_def markEpochUnderflow_def TimeValue_raw_def clamp_def time_limits)
qed

lemma discard_loop_result:
  assumes "step_ok bf" "underflow_ok bf" "discard_loop dl es bf = (n, bf')"
  shows "n \<le> length es \<and> (\<forall>e \<in> set (take n es). \<not> gate_isAlive dl (bf_epochs bf e))
    \<and> (n < length es \<longrightarrow> gate_isAlive dl (bf_epochs bf (es ! n)))
    \<and> step_ok bf' \<and> bf' = bf\<lparr>bf_step := bf_step bf', bf_past := bf_past bf'\<rparr>"
  using assms
proof (induction es arbitrary: bf n)
  case (Cons e es)
  show ?case
  proof (cases "gate_isAlive dl (bf_epochs bf e)")
    case True
    then show ?thesis using Cons.prems by simp
  next
    case False
    define prev where "prev = fst (updatePastDeadline (deadline_of bf e) bf)"
    define bf1 where "bf1 = bf\<lparr>bf_past := deadline_of bf e\<rparr>"
    define bf2 where "bf2 = markEpochUnderflow (TimeVar_minus (deadline_of bf e) prev)
      (filledSlots (bf_conf bf) (bf_epochs bf e)) bf1"
    have up: "updatePastDeadline (deadline_of bf e) bf = (prev, bf1)"
      by (simp add: updatePastDeadline_def bf1_def prev_def)
    obtain m where m: "discard_loop dl es bf2 = (m, bf')" "n = Suc m"
      using Cons.prems(3) False by (auto simp: up Let_def bf2_def split: prod.splits)
    have b2: "bf2 = bf\<lparr>bf_past := deadline_of bf e, bf_step := bf_step bf2\<rparr>"
      by (simp add: bf2_def bf1_def markEpochUnderflow_def)
    have s2: "step_ok bf2" unfolding bf2_def
      by (rule markEpochUnderflow_step) (use Cons.prems(1,2) in \<open>simp_all add: bf1_def step_ok_def underflow_ok_def\<close>)
    have u2: "underflow_ok bf2" using Cons.prems(2) by (subst b2) (simp add: underflow_ok_def)
    have ep: "bf_epochs bf2 = bf_epochs bf" by (subst b2) simp
    note r = Cons.IH [OF s2 u2 m(1)]
    then obtain s p where "bf' = bf2\<lparr>bf_step := s, bf_past := p\<rparr>" by blast
    moreover obtain s2 p2 where "bf2 = bf\<lparr>bf_past := p2, bf_step := s2\<rparr>" using b2 by blast
    ultimately have "bf' = bf\<lparr>bf_step := bf_step bf', bf_past := bf_past bf'\<rparr>" by simp
    then show ?thesis using r False by (simp add: ep m(2))
  qed
qed simp

lemma allEpochs_active: "bf_ok bf \<Longrightarrow> allEpochs bf = actives bf"
  by (simp add: allEpochs_def bf_ok_def iterate_active)

text \<open>A purge always succeeds, and drops exactly the oldest epochs that are past and not held.\<close>

lemma discardBefore_result:
  assumes ok: "bf_ok bf" and under: "underflow_ok bf"
  shows "\<exists>n bf'. discardBefore dl bf = Inr bf' \<and> bf_ok bf' \<and> n \<le> length (actives bf) \<and> actives bf' = drop n (actives bf)
    \<and> bf_epochs bf' = bf_epochs bf \<and> bf_conf bf' = bf_conf bf \<and> bf_overflow bf' = bf_overflow bf \<and> bf_underflow bf' = bf_underflow bf
    \<and> (\<forall>e \<in> set (take n (actives bf)). eg_rest (bf_epochs bf e) \<le> 0 \<and> deadline_of bf e \<le> dl)
    \<and> (n < length (actives bf) \<longrightarrow> gate_isAlive dl (bf_epochs bf (actives bf ! n)) \<or> dl < deadline_of bf (actives bf ! 0))"
proof -
  have ef: "ef_ok (bf_alloc bf)" and st: "step_ok bf" using ok by (simp_all add: bf_ok_def step_ok_def)
  consider (none) "ef_empty (bf_alloc bf)" | (early) "\<not> ef_empty (bf_alloc bf)" "deadline_of bf (firstEpoch bf) > dl"
    | (purge) "\<not> (ef_empty (bf_alloc bf) \<or> deadline_of bf (firstEpoch bf) > dl)" by blast
  then show ?thesis
  proof cases
    case none
    then have "discardBefore dl bf = Inr bf" "actives bf = []"
      using ef_empty_active [OF ef] by (simp_all add: discardBefore_def)
    then show ?thesis using ok by (intro exI [where x = 0] exI [where x = bf]) simp
  next
    case early
    then have "discardBefore dl bf = Inr bf" by (simp add: discardBefore_def)
    then show ?thesis using ok early(2) first_last_epoch(2) [OF ef early(1)]
      by (intro exI [where x = 0] exI [where x = bf]) simp
  next
    case purge
    obtain n bf1 where l: "discard_loop dl (actives bf) bf = (n, bf1)" by (cases "discard_loop dl (actives bf) bf")
    note r = discard_loop_result [OF st under l]
    have b1: "bf1 = bf\<lparr>bf_step := bf_step bf1, bf_past := bf_past bf1\<rparr>" using r by blast
    have f1: "bf_alloc bf1 = bf_alloc bf" "bf_epochs bf1 = bf_epochs bf" "bf_conf bf1 = bf_conf bf"
      "bf_overflow bf1 = bf_overflow bf" "bf_underflow bf1 = bf_underflow bf" by (subst b1, simp)+
    obtain ef' where d: "dropOld n (bf_alloc bf) = Inr ef'" "ef_ok ef'" "active_extents ef' = drop n (actives bf)"
      using exfam.drop_old_active [OF ef, of n] r by blast
    let ?bf' = "bf1\<lparr>bf_alloc := ef'\<rparr>"
    have run: "discardBefore dl bf = Inr ?bf'" using purge by (simp add: discardBefore_def allEpochs_active [OF ok] l f1 d(1))
    have dd: "deadline_of ?bf' = deadline_of bf" by (rule ext) (simp add: deadline_of_def f1)
    have "sorted (drop n (map (deadline_of bf) (actives bf)))" using ok by (intro sorted_wrt_drop) (simp add: bf_ok_def)
    then have "bf_ok ?bf'" using ok d(2,3) r f1 dd unfolding bf_ok_def step_ok_def
      by (auto simp: drop_map dest: in_set_dropD)
    moreover have "eg_rest (bf_epochs bf e) \<le> 0 \<and> deadline_of bf e \<le> dl" if "e \<in> set (take n (actives bf))" for e
    proof -
      have "\<not> gate_isAlive dl (bf_epochs bf e)" using r that by blast
      then show ?thesis by (auto simp: gate_isAlive_def deadline_of_def epoch_deadline_def)
    qed
    ultimately show ?thesis using run r d(3) f1 by (intro exI [where x = n] exI [where x = ?bf']) simp
  qed
qed

subsection \<open>Runs of the allocator\<close>

lemma BlockFlow_init_ok:
  assumes "2 \<le> EPOCH_SIZ c" "0 < initialEpochStep c" "initialEpochStep c \<le> Duration_MAX" "0 < initialEpochCnt c"
  shows "bf_ok (BlockFlow_init c siz on_over on_under)"
proof -
  have "actives (BlockFlow_init c siz on_over on_under) = []"
    by (simp add: BlockFlow_init_def ExtFam_init_def active_extents_def isWrapped_def)
  then show ?thesis using assms
    by (simp add: bf_ok_def) (simp add: BlockFlow_init_def ExtFam_init_def ef_ok_def slotCnt_def)
qed

text \<open>
  Any sequence of requests for storage, allocations into a handle, and purges of deadlines
  before \<open>lim\<close>.
\<close>

inductive bf_run :: "gavl_time_t \<Rightarrow> BlockFlow \<Rightarrow> BlockFlow \<Rightarrow> bool" for lim bf where
  run_start: "bf_run lim bf bf"
| run_until: "bf_run lim bf b \<Longrightarrow> \<bar>dl\<bar> \<le> Time_MAX \<Longrightarrow> until dl b = Inr (h, b') \<Longrightarrow> bf_run lim bf b'"
| run_claim: "bf_run lim bf b \<Longrightarrow> at_pos b h k \<Longrightarrow> k < length (actives b) \<Longrightarrow> claimSlot h b = Inr (h', p, b') \<Longrightarrow> bf_run lim bf b'"
| run_discard: "bf_run lim bf b \<Longrightarrow> t < lim \<Longrightarrow> discardBefore t b = Inr b' \<Longrightarrow> bf_run lim bf b'"

definition bf_good :: "BlockFlow \<Rightarrow> bool" where
  "bf_good bf \<longleftrightarrow> bf_ok bf \<and> overflow_ok bf \<and> underflow_ok bf"

lemma bf_good_extends: "bf_good bf \<Longrightarrow> bf_extends bf bf' \<Longrightarrow> bf_ok bf' \<Longrightarrow> bf_good bf'"
  by (simp add: bf_good_def overflow_ok_def underflow_ok_def bf_extends_def)

lemma taken_extends:
  assumes "bf_extends b b'" "e \<in> set (actives b)" "slot_taken b e s"
  shows "e \<in> set (actives b')" "deadline_of b' e = deadline_of b e" "slot_taken b' e s"
  using assms by (auto simp: bf_extends_def slot_taken_def intro: le_less_trans)

lemma bf_run_keeps:
  assumes "bf_run lim bf bf'" "bf_good bf" "e \<in> set (actives bf)" "lim \<le> deadline_of bf e" "slot_taken bf e s"
  shows "bf_good bf' \<and> e \<in> set (actives bf') \<and> deadline_of bf' e = deadline_of bf e \<and> slot_taken bf' e s"
  using assms(1)
proof (induction rule: bf_run.induct)
  case run_start
  then show ?case using assms by simp
next
  case (run_until b dl h b')
  then have "bf_ok b' \<and> bf_extends b b' \<and> holds_until dl h b'" by (intro until_result) (simp_all add: bf_good_def)
  then show ?case using run_until.IH bf_good_extends taken_extends by metis
next
  case (run_claim b h k h' p b')
  have "bf_ok b" "overflow_ok b" using run_claim.IH by (simp_all add: bf_good_def)
  from claimSlot_result [OF this run_claim.hyps(2,3)] have "bf_ok b' \<and> bf_extends b b'" using run_claim.hyps(4) by auto
  then show ?case using run_claim.IH bf_good_extends taken_extends by metis
next
  case (run_discard b t b')
  have "bf_ok b" "underflow_ok b" using run_discard.IH by (simp_all add: bf_good_def)
  from discardBefore_result [OF this, of t] obtain n where n: "bf_ok b'" "n \<le> length (actives b)" "actives b' = drop n (actives b)"
    "bf_epochs b' = bf_epochs b" "bf_conf b' = bf_conf b" "bf_overflow b' = bf_overflow b" "bf_underflow b' = bf_underflow b"
    "\<forall>e \<in> set (take n (actives b)). deadline_of b e \<le> t"
    using run_discard.hyps(3) by auto
  have "e \<notin> set (take n (actives b))" using n(8) run_discard.IH run_discard.hyps(2) assms(4) by force
  then have "e \<in> set (actives b')" using run_discard.IH n(3) by (metis append_take_drop_id Un_iff set_append)
  moreover have "overflow_ok b'" "underflow_ok b'" "deadline_of b' e = deadline_of b e" "slot_taken b' e s"
    using run_discard.IH n(4-7) by (simp_all add: bf_good_def overflow_ok_def underflow_ok_def deadline_of_def slot_taken_def)
  ultimately show ?case using run_discard.IH n(1) by (simp add: bf_good_def)
qed

text \<open>A request fails only at the limits on the size of the pool and of one expansion.\<close>

definition capacity_error :: "lumiera_error \<Rightarrow> bool" where
  "capacity_error x \<longleftrightarrow> x = Err Fatal ''Raw allocation exceeds safety limit''
     \<or> x = Err Fatal ''Deadline expansion causes allocation of too many blocks''"

lemma required_epochs_error: "required_epochs d step = Inl x \<Longrightarrow> 0 < step \<Longrightarrow> capacity_error x"
  by (auto simp: required_epochs_def require_def bind_result_Inl_iff sanityCheckAlloc_def capacity_error_def Let_def
      split: if_splits)

lemma until_error:
  assumes ok: "bf_ok bf" and dl: "\<bar>dl\<bar> \<le> Time_MAX" and err: "until dl bf = Inl x"
  shows "capacity_error x"
proof (cases "ef_empty (bf_alloc bf)")
  case True
  then show ?thesis using err by (auto simp: until_def bind_result_Inl_iff Let_def capacity_error_def dest: openNew_error)
next
  case False
  have ef: "ef_ok (bf_alloc bf)" using ok by (simp add: bf_ok_def)
  note fl = first_last_epoch [OF ef False]
  have len: "length (actives bf) < slotCnt (bf_alloc bf)"
    using activeSlotCnt_less [OF ef] activeSlotCnt_length [OF ef] by simp
  let ?l = "deadline_of bf (last (actives bf))"
  have first: "\<not> dl \<le> deadline_of bf (firstEpoch bf)" using err False by (auto simp: until_def)
  show ?thesis
  proof (cases "?l < dl")
    case True
    then have e: "until_create_grid ?l dl bf = Inl x" using err False first fl(3) by (simp add: until_def)
    show ?thesis
    proof (cases "required_epochs (dl - ?l) (bf_step bf)")
      case (Inl y)
      then have "y = x" using e by (simp add: until_create_grid_def grid_distance [OF ok fl(1) dl])
      then show ?thesis using required_epochs_error [OF Inl] ok by (simp add: bf_ok_def)
    next
      case c: (Inr cnt)
      show ?thesis
      proof (cases "epoch_expandAlloc (nat cnt) bf (epoch_iter bf (ef_after (bf_alloc bf)))")
        case (Inl y)
        then have "y = x" using e by (simp add: until_create_grid_def grid_distance [OF ok fl(1) dl] c)
        then show ?thesis using epoch_expandAlloc_error [OF Inl] by (simp add: capacity_error_def)
      next
        case (Inr r)
        obtain h1 bf1 where r: "r = (h1, bf1)" by (cases r)
        have "\<exists>h bf'. until_create_grid ?l dl bf = Inr (h, bf')"
          using new_grid_result [OF ok fl(1) dl True c Inr [unfolded r]]
          by (auto simp: until_create_grid_def grid_distance [OF ok fl(1) dl] c Inr r)
        then show ?thesis using e by simp
      qed
    qed
  next
    case within: False
    have le0: "0 \<le> length (actives bf) - 1" by simp
    have n0: "length (actives bf) - 1 < length (actives bf)" "length (actives bf) - 1 - 0 < slotCnt (bf_alloc bf)"
      using fl(1) len by auto
    have "dl \<le> deadline_of bf (actives bf ! (length (actives bf) - 1))"
      using within fl(1) by (simp add: last_conv_nth)
    then show ?thesis
      using find_epoch_result [OF ef epoch_iter_begin [OF ef] le0 n0(1) _ n0(2), of dl] err False first fl(3) within
      by (auto simp: until_def)
  qed
qed

subsection \<open>Properties\<close>

definition sample_flow :: BlockFlow where
  "sample_flow = \<lparr>bf_conf = DefaultConfig,
     bf_alloc = \<lparr>ef_slots = [0, 1, 2, 3], ef_start = 0, ef_after = 1, ef_fresh = 4, ef_extent_size = 5600\<rparr>,
     bf_epochs = (\<lambda>_. \<lparr>eg_rest = 0, eg_dead = 1000, eg_next = 98\<rparr>), bf_step = 200, bf_past = Time_MIN,
     bf_overflow = (\<lambda>s. s), bf_underflow = (\<lambda>s len fill. s)\<rparr>"

lemma default_cutOff: "0 \<le> timeStep_cutOff DefaultConfig"
  by code_simp

lemma sample_flow_good: "bf_good sample_flow"
  using default_cutOff
  by (auto simp add: bf_good_def bf_ok_def overflow_ok_def underflow_ok_def sample_flow_def ef_ok_def slotCnt_def
      active_extents_def isWrapped_def time_limits deadline_of_def)
    (simp_all add: DefaultConfig_def)

lemma sample_flow_active: "actives sample_flow = [0]" "deadline_of sample_flow 0 = 1000" "slot_taken sample_flow 0 99"
  by (simp_all add: sample_flow_def active_extents_def isWrapped_def deadline_of_def epoch_deadline_def
      instant_time_clamp clamp_def time_limits slot_taken_def DefaultConfig_def)

lemma sample_flow_until:
  "until 900 sample_flow = Inr (\<lparr>it_index = 0, it_curr = Some 0\<rparr>, sample_flow)"
  using sample_flow_active
  by (simp add: until_def) (simp add: sample_flow_def ef_empty_def firstEpoch_def epoch_iter_def accessEpoch_def link_checkPoint_def)

lemma sample_flow_claim:
  "\<exists>b. claimSlot \<lparr>it_index = 0, it_curr = Some 0\<rparr> sample_flow = Inr (\<lparr>it_index = 0, it_curr = Some 0\<rparr>, (0, 98), b)
    \<and> bf_alloc b = bf_alloc sample_flow \<and> eg_next (bf_epochs b 0) = 97 \<and> eg_dead (bf_epochs b 0) = 1000"
  by (simp add: claimSlot_def claim_fuel_def numeral_3_eq_3 hasFreeSlot_def claimNextSlot_def)
    (simp add: sample_flow_def activeSlotCnt_def isWrapped_def)



text \<open>a request for storage until a deadline either stops at a capacity limit or yields a
  handle to the first epoch whose deadline is not before the requested one; epochs are only added
  behind the existing ones, and their deadlines stay in order.\<close>

theorem until_covers_deadline:
  assumes "bf_ok bf" "\<bar>dl\<bar> \<le> Time_MAX"
  shows "case until dl bf of Inl x \<Rightarrow> capacity_error x
    | Inr (h, bf') \<Rightarrow> bf_ok bf' \<and> bf_extends bf bf' \<and> holds_until dl h bf'"
  using until_result [OF assms] until_error [OF assms] by (auto split: sum.splits)

theorem until_covers_deadline_witness:
  "bf_ok sample_flow \<and> holds_until 900 \<lparr>it_index = 0, it_curr = Some 0\<rparr> sample_flow"
  using until_covers_deadline [of sample_flow 900] sample_flow_good sample_flow_until
  by (simp add: bf_good_def time_limits)

text \<open>claiming a slot from a valid handle finds one within the given number of rounds, unless
  the pool can not grow: it moves on over exhausted epochs, opens a new one behind the last if all
  are exhausted, never hands out the slot of the gate nor a slot twice.\<close>

theorem claim_finds_free_slot:
  assumes "bf_good bf" "at_pos bf h k" "k < length (actives bf)"
  shows "claimSlot h bf = Inl (Err Fatal ''Raw allocation exceeds safety limit'')
    \<or> (\<exists>h' e s bf' k'. claimSlot h bf = Inr (h', (e, s), bf') \<and> bf_ok bf' \<and> bf_extends bf bf'
         \<and> k \<le> k' \<and> at_pos bf' h' k' \<and> k' < length (actives bf') \<and> e = actives bf' ! k'
         \<and> 0 < s \<and> s < EPOCH_SIZ (bf_conf bf) \<and> slot_taken bf' e s \<and> (e \<in> set (actives bf) \<longrightarrow> \<not> slot_taken bf e s))"
  using claimSlot_result [OF _ _ assms(2,3)] assms(1) by (simp add: bf_good_def)

theorem claim_finds_free_slot_witness:
  "\<exists>bf'. claimSlot \<lparr>it_index = 0, it_curr = Some 0\<rparr> sample_flow = Inr (\<lparr>it_index = 0, it_curr = Some 0\<rparr>, (0, 98), bf')
    \<and> slot_taken bf' 0 98 \<and> \<not> slot_taken sample_flow 0 98"
proof -
  have "at_pos sample_flow \<lparr>it_index = 0, it_curr = Some 0\<rparr> 0"
    by (simp add: at_pos_def sample_flow_active) (simp add: sample_flow_def slotCnt_def)
  from claim_finds_free_slot [OF sample_flow_good this] sample_flow_claim show ?thesis
    by (auto simp: sample_flow_active)
qed

text \<open>a purge never fails and drops exactly the oldest epochs up to the first one that is held
  by a pending operation or has its deadline after the given time; what it drops is past and not
  held, and everything else is unchanged.\<close>

theorem purge_drops_past:
  assumes "bf_good bf"
  shows "\<exists>n bf'. discardBefore dl bf = Inr bf' \<and> bf_ok bf' \<and> n \<le> length (actives bf) \<and> actives bf' = drop n (actives bf)
    \<and> bf_epochs bf' = bf_epochs bf
    \<and> (\<forall>e \<in> set (take n (actives bf)). eg_rest (bf_epochs bf e) \<le> 0 \<and> deadline_of bf e \<le> dl)
    \<and> (n < length (actives bf) \<longrightarrow> gate_isAlive dl (bf_epochs bf (actives bf ! n)) \<or> dl < deadline_of bf (actives bf ! 0))"
  using discardBefore_result [of bf dl] assms unfolding bf_good_def by blast

theorem purge_drops_past_witness:
  "(\<exists>bf'. discardBefore 1000 sample_flow = Inr bf' \<and> actives bf' = []) \<and>
   (\<exists>bf'. discardBefore 999 sample_flow = Inr bf' \<and> actives bf' = [0])"
proof -
  have rest: "\<not> gate_isAlive 1000 (bf_epochs sample_flow 0)" "gate_isAlive 999 (bf_epochs sample_flow 0)"
    by (simp_all add: gate_isAlive_def sample_flow_def instant_time_clamp clamp_def time_limits)
  have d: "\<not> 1000 < deadline_of sample_flow ([0] ! 0)" by (simp add: sample_flow_active)
  obtain n bf1 where a: "discardBefore 1000 sample_flow = Inr bf1" "n \<le> length [0::nat]" "actives bf1 = drop n [0]"
    "n < length [0::nat] \<longrightarrow> gate_isAlive 1000 (bf_epochs sample_flow ([0] ! n)) \<or> 1000 < deadline_of sample_flow ([0] ! 0)"
    using purge_drops_past [OF sample_flow_good, of 1000] unfolding sample_flow_active(1) by blast
  have "n \<noteq> 0" using a(4) rest(1) d by (intro notI) simp
  then have n: "n = 1" using a(2) by simp
  obtain m bf2 where b: "discardBefore 999 sample_flow = Inr bf2" "m \<le> 1" "actives bf2 = drop m [0]"
    "\<forall>e \<in> set (take m [0]). deadline_of sample_flow e \<le> 999"
    using purge_drops_past [OF sample_flow_good, of 999] unfolding sample_flow_active by auto
  have "m = 0" using b(2,4) sample_flow_active(2) by (cases m) auto
  then show ?thesis using a(1,3) b(1,3) n by auto
qed

end
