(* ===== verification/ListDiff.thy ===== *)
theory ListDiff
  imports Prelude
begin

text \<open>
  The list diff of \<open>lib/diff\<close>: the index table (\<open>index-table.hpp\<close>), the detection of changes
  between a snapshot and the current state of a sequence (\<open>list-diff-detector.hpp\<close>), and the
  application of the resulting verbs to a vector (\<open>list-diff-application.hpp\<close>, with the verbs of
  \<open>list-diff.hpp\<close> and the applicator of \<open>diff-language.hpp\<close>). What \<open>std::move\<close> leaves behind in
  an element is a parameter \<open>moved\<close>. The lemmas show that a diff turns the old sequence into the
  new one, and that no application yields anything else.
\<close>

subsection \<open>Index table\<close>

record 'a IndexTable =
  tbl_data :: "'a list"
  tbl_idx :: "'a \<Rightarrow> nat option"

primrec index_elements :: "'a list \<Rightarrow> nat \<Rightarrow> 'a IndexTable \<Rightarrow> 'a IndexTable result" where
  "index_elements [] i t = Inr t"
| "index_elements (elm # es) i t =
     (if tbl_idx t elm \<noteq> None then Inl (Err Logic ''Attempt to add duplicate to index table'')
      else index_elements es (Suc i) (t\<lparr>tbl_data := tbl_data t @ [elm], tbl_idx := (tbl_idx t)(elm \<mapsto> i)\<rparr>))"

definition IndexTable_of :: "'a list \<Rightarrow> 'a IndexTable result" where
  "IndexTable_of xs = index_elements xs 0 \<lparr>tbl_data = [], tbl_idx = (\<lambda>_. None)\<rparr>"

definition tbl_size :: "'a IndexTable \<Rightarrow> nat" where
  "tbl_size t = length (tbl_data t)"

definition getElement :: "'a IndexTable \<Rightarrow> nat \<Rightarrow> 'a result" where
  "getElement t i = (if i < tbl_size t then Inr (tbl_data t ! i) else Inl (Err Assertion ''i < size()''))"

definition tbl_pos :: "'a IndexTable \<Rightarrow> 'a \<Rightarrow> nat" where
  "tbl_pos t elm = (case tbl_idx t elm of None \<Rightarrow> tbl_size t | Some i \<Rightarrow> i)"

definition tbl_contains :: "'a IndexTable \<Rightarrow> 'a \<Rightarrow> bool" where
  "tbl_contains t elm \<longleftrightarrow> tbl_pos t elm \<noteq> tbl_size t"

subsection \<open>Verbs\<close>

datatype 'a DiffStep = Ins 'a | Del 'a | Pick 'a | Find 'a | Skip 'a

subsection \<open>Detecting changes\<close>

record 'a DiffFrame =
  df_old :: "'a IndexTable"
  df_new :: "'a IndexTable"
  df_oldHead :: nat
  df_newHead :: nat

definition hasOld :: "'a DiffFrame \<Rightarrow> bool" where
  "hasOld f \<longleftrightarrow> df_oldHead f < tbl_size (df_old f)"

definition hasNew :: "'a DiffFrame \<Rightarrow> bool" where
  "hasNew f \<longleftrightarrow> df_newHead f < tbl_size (df_new f)"

definition oldElm :: "'a DiffFrame \<Rightarrow> 'a result" where
  "oldElm f = getElement (df_old f) (df_oldHead f)"

definition newElm :: "'a DiffFrame \<Rightarrow> 'a result" where
  "newElm f = getElement (df_new f) (df_newHead f)"

definition consumeOld :: "'a DiffFrame \<Rightarrow> ('a \<times> 'a DiffFrame) result" where
  "consumeOld f = bind_result (oldElm f) (\<lambda>e. Inr (e, f\<lparr>df_oldHead := df_oldHead f + 1\<rparr>))"

definition consumeNew :: "'a DiffFrame \<Rightarrow> ('a \<times> 'a DiffFrame) result" where
  "consumeNew f = bind_result (newElm f) (\<lambda>e. Inr (e, f\<lparr>df_newHead := df_newHead f + 1\<rparr>))"

definition canPick :: "'a DiffFrame \<Rightarrow> bool" where
  "canPick f \<longleftrightarrow> hasOld f \<and> hasNew f \<and> oldElm f = newElm f"

definition canDelete :: "'a DiffFrame \<Rightarrow> bool" where
  "canDelete f \<longleftrightarrow> hasOld f \<and> (case oldElm f of Inl _ \<Rightarrow> False | Inr e \<Rightarrow> \<not> tbl_contains (df_new f) e)"

definition canInsert :: "'a DiffFrame \<Rightarrow> bool" where
  "canInsert f \<longleftrightarrow> hasNew f \<and> (case newElm f of Inl _ \<Rightarrow> False | Inr e \<Rightarrow> \<not> tbl_contains (df_old f) e)"

definition needFetch :: "'a DiffFrame \<Rightarrow> bool" where
  "needFetch f \<longleftrightarrow> hasNew f \<and> (case newElm f of Inl _ \<Rightarrow> False | Inr e \<Rightarrow> df_oldHead f < tbl_pos (df_old f) e)"

definition obsoleted :: "'a DiffFrame \<Rightarrow> bool" where
  "obsoleted f \<longleftrightarrow> hasOld f \<and> (case oldElm f of Inl _ \<Rightarrow> False | Inr e \<Rightarrow> df_newHead f > tbl_pos (df_new f) e)"

definition establishNextState :: "'a DiffFrame \<Rightarrow> ('a DiffStep option \<times> 'a DiffFrame) result" where
  "establishNextState f =
     (if canPick f then bind_result (consumeOld f) (\<lambda>(_, f1). bind_result (consumeNew f1) (\<lambda>(e, f2). Inr (Some (Pick e), f2)))
      else if canDelete f then bind_result (consumeOld f) (\<lambda>(e, f1). Inr (Some (Del e), f1))
      else if canInsert f then bind_result (consumeNew f) (\<lambda>(e, f1). Inr (Some (Ins e), f1))
      else if needFetch f then bind_result (consumeNew f) (\<lambda>(e, f1). Inr (Some (Find e), f1))
      else if obsoleted f then bind_result (consumeOld f) (\<lambda>(e, f1). Inr (Some (Skip e), f1))
      else Inr (None, f))"

definition DiffFrame_init :: "'a IndexTable \<Rightarrow> 'a IndexTable \<Rightarrow> 'a DiffFrame" where
  "DiffFrame_init current refPoint = \<lparr>df_old = refPoint, df_new = current, df_oldHead = 0, df_newHead = 0\<rparr>"

text \<open>Every step consumes an element of one of the sequences, so pulling steps comes to an end.\<close>

definition df_remaining :: "'a DiffFrame \<Rightarrow> nat" where
  "df_remaining f = (tbl_size (df_old f) - df_oldHead f) + (tbl_size (df_new f) - df_newHead f)"

lemmas consume_defs = consumeOld_def consumeNew_def oldElm_def newElm_def getElement_def hasOld_def hasNew_def

lemma establishNextState_progress:
  "establishNextState f = Inr (Some s, f') \<Longrightarrow> df_remaining f' < df_remaining f"
  by (auto simp: establishNextState_def consume_defs df_remaining_def canPick_def canDelete_def canInsert_def
      needFetch_def obsoleted_def split: if_splits)

text \<open>The steps an iteration over the frame yields, up to the token \<open>NIL\<close>.\<close>

function diff_steps :: "'a DiffFrame \<Rightarrow> 'a DiffStep list result" where
  "diff_steps f = (case establishNextState f of
       Inl e \<Rightarrow> Inl e
     | Inr (None, f1) \<Rightarrow> Inr []
     | Inr (Some s, f1) \<Rightarrow> bind_result (diff_steps f1) (\<lambda>ss. Inr (s # ss)))"
  by pat_completeness auto
termination
  by (relation "measure df_remaining") (auto dest: establishNextState_progress)

declare diff_steps.simps [simp del]

record 'a DiffDetector =
  dd_refIdx :: "'a IndexTable"

definition DiffDetector_init :: "'a list \<Rightarrow> 'a DiffDetector result" where
  "DiffDetector_init refSeq = bind_result (IndexTable_of refSeq) (\<lambda>t. Inr \<lparr>dd_refIdx = t\<rparr>)"

fun changed_from :: "'a list \<Rightarrow> 'a list \<Rightarrow> bool" where
  "changed_from snapshot [] \<longleftrightarrow> False"
| "changed_from [] (elm # es) \<longleftrightarrow> changed_from [] es"
| "changed_from (s # snapshot) (elm # es) \<longleftrightarrow> elm \<noteq> s \<or> changed_from snapshot es"

definition isChanged :: "'a DiffDetector \<Rightarrow> 'a list \<Rightarrow> bool" where
  "isChanged d currentData = changed_from (tbl_data (dd_refIdx d)) currentData"

definition pullUpdate :: "'a list \<Rightarrow> 'a DiffDetector \<Rightarrow> ('a DiffFrame \<times> 'a DiffDetector) result" where
  "pullUpdate currentData d =
     bind_result (IndexTable_of currentData) (\<lambda>mark.
       Inr (DiffFrame_init mark (dd_refIdx d), d\<lparr>dd_refIdx := mark\<rparr>))"

subsection \<open>Application to a vector\<close>

record 'a DiffTarget =
  ap_orig :: "'a list"
  ap_seq :: "'a list"
  ap_pos :: nat

definition end_of_target :: "'a DiffTarget \<Rightarrow> bool" where
  "end_of_target t \<longleftrightarrow> ap_pos t = length (ap_orig t)"

definition expect_in_target :: "'a \<Rightarrow> 'a DiffTarget \<Rightarrow> unit result" where
  "expect_in_target elm t =
     (if end_of_target t then Inl (Err State ''DIFF_CONFLICT: no (further) elements in target sequence'')
      else if ap_orig t ! ap_pos t \<noteq> elm then Inl (Err State ''DIFF_CONFLICT: found other element on current target position'')
      else Inr ())"

definition expect_further_elements :: "'a DiffTarget \<Rightarrow> unit result" where
  "expect_further_elements t =
     (if end_of_target t then Inl (Err State ''DIFF_CONFLICT: Premature end of target sequence'') else Inr ())"

definition std_find :: "nat \<Rightarrow> 'a list \<Rightarrow> 'a \<Rightarrow> nat" where
  "std_find pos xs elm = pos + length (takeWhile (\<lambda>x. x \<noteq> elm) (drop pos xs))"

definition expect_found :: "'a DiffTarget \<Rightarrow> nat \<Rightarrow> unit result" where
  "expect_found t targetPos =
     (if targetPos = length (ap_orig t) then Inl (Err State ''DIFF_CONFLICT: Premature end of sequence'') else Inr ())"

definition ap_ins :: "'a \<Rightarrow> 'a DiffTarget \<Rightarrow> 'a DiffTarget result" where
  "ap_ins elm t = Inr (t\<lparr>ap_seq := ap_seq t @ [elm]\<rparr>)"

definition ap_del :: "'a \<Rightarrow> 'a DiffTarget \<Rightarrow> 'a DiffTarget result" where
  "ap_del elm t = bind_result (expect_in_target elm t) (\<lambda>_. Inr (t\<lparr>ap_pos := ap_pos t + 1\<rparr>))"

definition take_at :: "('a \<Rightarrow> 'a) \<Rightarrow> nat \<Rightarrow> 'a DiffTarget \<Rightarrow> 'a DiffTarget" where
  "take_at moved i t =
     t\<lparr>ap_seq := ap_seq t @ [ap_orig t ! i], ap_orig := (ap_orig t)[i := moved (ap_orig t ! i)]\<rparr>"

definition ap_pick :: "('a \<Rightarrow> 'a) \<Rightarrow> 'a \<Rightarrow> 'a DiffTarget \<Rightarrow> 'a DiffTarget result" where
  "ap_pick moved elm t =
     bind_result (expect_in_target elm t) (\<lambda>_. Inr ((take_at moved (ap_pos t) t)\<lparr>ap_pos := ap_pos t + 1\<rparr>))"

definition ap_skip :: "'a \<Rightarrow> 'a DiffTarget \<Rightarrow> 'a DiffTarget result" where
  "ap_skip elm t = bind_result (expect_further_elements t) (\<lambda>_. Inr (t\<lparr>ap_pos := ap_pos t + 1\<rparr>))"

definition ap_find :: "('a \<Rightarrow> 'a) \<Rightarrow> 'a \<Rightarrow> 'a DiffTarget \<Rightarrow> 'a DiffTarget result" where
  "ap_find moved elm t =
     bind_result (expect_further_elements t) (\<lambda>_.
       let found = std_find (ap_pos t) (ap_orig t) elm
       in bind_result (expect_found t found) (\<lambda>_. Inr (take_at moved found t)))"

primrec applyTo :: "('a \<Rightarrow> 'a) \<Rightarrow> 'a DiffStep \<Rightarrow> 'a DiffTarget \<Rightarrow> 'a DiffTarget result" where
  "applyTo moved (Ins e) t = ap_ins e t"
| "applyTo moved (Del e) t = ap_del e t"
| "applyTo moved (Pick e) t = ap_pick moved e t"
| "applyTo moved (Find e) t = ap_find moved e t"
| "applyTo moved (Skip e) t = ap_skip e t"

definition initDiffApplication :: "'a DiffTarget \<Rightarrow> 'a DiffTarget" where
  "initDiffApplication t = t\<lparr>ap_orig := ap_seq t, ap_seq := ap_orig t, ap_pos := 0\<rparr>"

definition completeDiffApplication :: "'a DiffTarget \<Rightarrow> 'a DiffTarget result" where
  "completeDiffApplication t =
     (if \<not> end_of_target t then Inl (Err State ''DIFF_STRUCTURE: Not all source data consumed after diff application'')
      else Inr (t\<lparr>ap_orig := []\<rparr>))"

primrec apply_steps :: "('a \<Rightarrow> 'a) \<Rightarrow> 'a DiffStep list \<Rightarrow> 'a DiffTarget \<Rightarrow> 'a DiffTarget result" where
  "apply_steps moved [] t = Inr t"
| "apply_steps moved (s # ss) t = bind_result (applyTo moved s t) (apply_steps moved ss)"

definition diff_consume :: "('a \<Rightarrow> 'a) \<Rightarrow> 'a DiffStep list \<Rightarrow> 'a DiffTarget \<Rightarrow> 'a DiffTarget result" where
  "diff_consume moved diff t =
     bind_result (apply_steps moved diff (initDiffApplication t)) completeDiffApplication"

definition DiffTarget_init :: "'a list \<Rightarrow> 'a DiffTarget" where
  "DiffTarget_init targetVector = \<lparr>ap_orig = [], ap_seq = targetVector, ap_pos = 0\<rparr>"

subsection \<open>Facts on the index table\<close>

lemma index_elements_result:
  assumes "distinct (tbl_data t @ xs)" "i = length (tbl_data t)"
    and "\<forall>e k. tbl_idx t e = Some k \<longleftrightarrow> k < length (tbl_data t) \<and> tbl_data t ! k = e"
  shows "\<exists>t'. index_elements xs i t = Inr t' \<and> tbl_data t' = tbl_data t @ xs
    \<and> (\<forall>e k. tbl_idx t' e = Some k \<longleftrightarrow> k < length (tbl_data t') \<and> tbl_data t' ! k = e)"
  using assms
proof (induction xs arbitrary: i t)
  case (Cons x xs)
  have new: "tbl_idx t x = None"
  proof (rule ccontr)
    assume "tbl_idx t x \<noteq> None"
    then obtain k where "k < length (tbl_data t)" "tbl_data t ! k = x" using Cons.prems(3) by auto
    then have "x \<in> set (tbl_data t)" by auto
    then show False using Cons.prems(1) by auto
  qed
  let ?t = "t\<lparr>tbl_data := tbl_data t @ [x], tbl_idx := (tbl_idx t)(x \<mapsto> i)\<rparr>"
  have "tbl_idx ?t e = Some k \<longleftrightarrow> k < length (tbl_data ?t) \<and> tbl_data ?t ! k = e" for e k
    using Cons.prems new by (auto simp: nth_append less_Suc_eq)
  then have "\<exists>t'. index_elements xs (Suc i) ?t = Inr t' \<and> tbl_data t' = tbl_data ?t @ xs
    \<and> (\<forall>e k. tbl_idx t' e = Some k \<longleftrightarrow> k < length (tbl_data t') \<and> tbl_data t' ! k = e)"
    using Cons.prems(1,2) by (intro Cons.IH) auto
  then show ?case using new by auto
qed simp

definition tbl_ok :: "'a list \<Rightarrow> 'a IndexTable \<Rightarrow> bool" where
  "tbl_ok xs t \<longleftrightarrow> distinct xs \<and> tbl_data t = xs \<and> (\<forall>e k. tbl_idx t e = Some k \<longleftrightarrow> k < length xs \<and> xs ! k = e)"

lemma IndexTable_of_ok: "distinct xs \<Longrightarrow> \<exists>t. IndexTable_of xs = Inr t \<and> tbl_ok xs t"
  using index_elements_result [of "\<lparr>tbl_data = [], tbl_idx = (\<lambda>_. None)\<rparr>" xs 0]
  by (auto simp: IndexTable_of_def tbl_ok_def)

lemma index_elements_distinct:
  assumes "index_elements xs i t = Inr t'" "\<forall>e \<in> set (tbl_data t). tbl_idx t e \<noteq> None" "distinct (tbl_data t)"
  shows "distinct (tbl_data t @ xs)"
  using assms
proof (induction xs arbitrary: i t)
  case (Cons x xs)
  have n: "tbl_idx t x = None" using Cons.prems(1) by (auto split: if_splits)
  then have x: "x \<notin> set (tbl_data t)" using Cons.prems(2) by auto
  have "distinct ((tbl_data t @ [x]) @ xs)"
    using Cons.IH [of "Suc i" "t\<lparr>tbl_data := tbl_data t @ [x], tbl_idx := (tbl_idx t)(x \<mapsto> i)\<rparr>"] Cons.prems n x by auto
  then show ?case by simp
qed simp

text \<open>A sequence with duplicates is rejected, any other indexed.\<close>

lemma IndexTable_of_iff: "IndexTable_of xs = Inr t \<Longrightarrow> tbl_ok xs t"
proof -
  assume t: "IndexTable_of xs = Inr t"
  have "distinct xs" using index_elements_distinct [OF t [unfolded IndexTable_of_def]] by simp
  then show "tbl_ok xs t" using IndexTable_of_ok t by fastforce
qed

lemma tbl_pos_nth:
  assumes "tbl_ok xs t" "i < length xs"
  shows "tbl_pos t (xs ! i) = i"
proof -
  have "tbl_idx t (xs ! i) = Some i" using assms by (simp add: tbl_ok_def)
  then show ?thesis by (simp add: tbl_pos_def)
qed

lemma tbl_contains_iff: "tbl_ok xs t \<Longrightarrow> tbl_contains t e \<longleftrightarrow> e \<in> set xs"
  by (fastforce simp: tbl_contains_def tbl_pos_def tbl_ok_def tbl_size_def in_set_conv_nth split: option.splits)

lemma tbl_ok_size [simp]: "tbl_ok xs t \<Longrightarrow> tbl_size t = length xs"
  by (simp add: tbl_ok_def tbl_size_def)

lemma getElement_ok: "tbl_ok xs t \<Longrightarrow> getElement t i = (if i < length xs then Inr (xs ! i) else Inl (Err Assertion ''i < size()''))"
  by (simp add: getElement_def tbl_ok_def tbl_size_def)

subsection \<open>Generation and application together\<close>

lemma takeWhile_found: "e \<in> set xs \<Longrightarrow> length (takeWhile (\<lambda>x. x \<noteq> e) xs) < length xs"
  by (induction xs) auto

lemma std_find_result:
  assumes "p \<le> k" "k < length xs" "xs ! k = e"
  shows "std_find p xs e < length xs" "xs ! std_find p xs e = e" "p \<le> std_find p xs e"
proof -
  let ?n = "length (takeWhile (\<lambda>x. x \<noteq> e) (drop p xs))"
  have "e \<in> set (drop p xs)" using assms by (auto simp: in_set_conv_nth intro!: exI [where x = "k - p"])
  then have l: "?n < length (drop p xs)" by (rule takeWhile_found)
  then show "std_find p xs e < length xs" by (simp add: std_find_def)
  have "\<not> (drop p xs ! ?n \<noteq> e)" using nth_length_takeWhile [OF l] by blast
  then show "xs ! std_find p xs e = e" using l by (simp add: std_find_def)
  show "p \<le> std_find p xs e" by (simp add: std_find_def)
qed

text \<open>The state while a diff is generated and at the same time applied to the old sequence.\<close>

definition df_ok :: "'a list \<Rightarrow> 'a list \<Rightarrow> 'a DiffFrame \<Rightarrow> bool" where
  "df_ok old new f \<longleftrightarrow> tbl_ok old (df_old f) \<and> tbl_ok new (df_new f)
     \<and> df_oldHead f \<le> length old \<and> df_newHead f \<le> length new
     \<and> (\<forall>p < df_oldHead f. old ! p \<in> set new \<longrightarrow> old ! p \<in> set (take (df_newHead f) new))"

definition ap_ok :: "'a list \<Rightarrow> 'a list \<Rightarrow> 'a DiffFrame \<Rightarrow> 'a DiffTarget \<Rightarrow> bool" where
  "ap_ok old new f t \<longleftrightarrow> ap_pos t = df_oldHead f \<and> length (ap_orig t) = length old
     \<and> ap_seq t = take (df_newHead f) new
     \<and> (\<forall>p. df_oldHead f \<le> p \<and> p < length old \<and> old ! p \<notin> set (take (df_newHead f) new) \<longrightarrow> ap_orig t ! p = old ! p)"

lemma not_in_take: "distinct xs \<Longrightarrow> i < length xs \<Longrightarrow> xs ! i \<notin> set (take i xs)"
  by (auto simp: in_set_conv_nth nth_eq_iff_index_eq)

lemma take_Suc_snoc: "i < length xs \<Longrightarrow> take (Suc i) xs = take i xs @ [xs ! i]"
  by (rule take_Suc_conv_app_nth)

lemma df_cases:
  assumes "df_ok old new f"
  obtains (pick) "canPick f" "df_oldHead f < length old" "df_newHead f < length new" "old ! df_oldHead f = new ! df_newHead f"
    | (del) "\<not> canPick f" "canDelete f" "df_oldHead f < length old" "old ! df_oldHead f \<notin> set new"
    | (ins) "\<not> canPick f" "\<not> canDelete f" "canInsert f" "df_newHead f < length new" "new ! df_newHead f \<notin> set old"
    | (fetch) p where "\<not> canPick f" "\<not> canDelete f" "\<not> canInsert f" "needFetch f" "df_newHead f < length new"
        "df_oldHead f < p" "p < length old" "old ! p = new ! df_newHead f"
    | (skip) "\<not> canPick f" "\<not> canDelete f" "\<not> canInsert f" "\<not> needFetch f" "obsoleted f" "df_oldHead f < length old"
        "old ! df_oldHead f \<in> set (take (df_newHead f) new)"
    | (finish) "\<not> canPick f" "\<not> canDelete f" "\<not> canInsert f" "\<not> needFetch f" "\<not> obsoleted f"
        "df_oldHead f = length old" "df_newHead f = length new"
proof -
  let ?i = "df_oldHead f" and ?j = "df_newHead f"
  have o: "tbl_ok old (df_old f)" "?i \<le> length old" and n: "tbl_ok new (df_new f)" "?j \<le> length new"
    and seen: "\<forall>p < ?i. old ! p \<in> set new \<longrightarrow> old ! p \<in> set (take ?j new)"
    using assms by (auto simp: df_ok_def)
  have d: "distinct old" "distinct new" using o n by (auto simp: tbl_ok_def)
  have elm: "oldElm f = (if ?i < length old then Inr (old ! ?i) else Inl (Err Assertion ''i < size()''))"
    "newElm f = (if ?j < length new then Inr (new ! ?j) else Inl (Err Assertion ''i < size()''))"
    using o n by (simp_all add: oldElm_def newElm_def getElement_ok)
  have has: "hasOld f \<longleftrightarrow> ?i < length old" "hasNew f \<longleftrightarrow> ?j < length new" using o n by (simp_all add: hasOld_def hasNew_def)
  have pickI: "canPick f \<longleftrightarrow> ?i < length old \<and> ?j < length new \<and> old ! ?i = new ! ?j" by (auto simp: canPick_def has elm)
  have delI: "canDelete f \<longleftrightarrow> ?i < length old \<and> old ! ?i \<notin> set new"
    using tbl_contains_iff [OF n(1)] by (auto simp: canDelete_def has elm)
  have insI: "canInsert f \<longleftrightarrow> ?j < length new \<and> new ! ?j \<notin> set old"
    using tbl_contains_iff [OF o(1)] by (auto simp: canInsert_def has elm)
  have fetchI: "needFetch f \<longleftrightarrow> ?j < length new \<and> ?i < tbl_pos (df_old f) (new ! ?j)" by (auto simp: needFetch_def has elm)
  have skipI: "obsoleted f \<longleftrightarrow> ?i < length old \<and> ?j > tbl_pos (df_new f) (old ! ?i)" by (auto simp: obsoleted_def has elm)
  have ahead: "\<exists>p. ?i < p \<and> p < length old \<and> old ! p = new ! ?j"
    if "\<not> canPick f" "\<not> canInsert f" "?j < length new"
  proof -
    have "new ! ?j \<in> set old" using that(2,3) insI by simp
    then obtain p where p: "p < length old" "old ! p = new ! ?j" unfolding in_set_conv_nth by blast
    have "\<not> p < ?i"
    proof
      assume "p < ?i"
      then have "old ! p \<in> set new \<longrightarrow> old ! p \<in> set (take ?j new)" using seen by blast
      then show False using p(2) not_in_take [OF d(2) that(3)] that(3) by simp
    qed
    moreover have "p \<noteq> ?i" using p that pickI by auto
    ultimately show ?thesis using p by (intro exI [where x = p]) auto
  qed
  have behind: "old ! ?i \<in> set (take ?j new)" if "obsoleted f" "\<not> canDelete f"
  proof -
    have "old ! ?i \<in> set new" using that delI skipI by simp
    then obtain k where k: "k < length new" "new ! k = old ! ?i" unfolding in_set_conv_nth by blast
    then have "k < ?j" using that(1) skipI tbl_pos_nth [OF n(1) k(1)] by simp
    then show ?thesis using k n(2) by (auto simp: in_set_conv_nth intro!: exI [where x = k])
  qed
  show thesis
  proof (cases "canPick f \<or> canDelete f \<or> canInsert f")
    case True
    then consider "canPick f" | "\<not> canPick f" "canDelete f" | "\<not> canPick f" "\<not> canDelete f" "canInsert f" by blast
    then show ?thesis
    proof cases
      case 1
      then show ?thesis using pick pickI by simp
    next
      case 2
      then show ?thesis using del delI by simp
    next
      case 3
      then show ?thesis using ins insI by simp
    qed
  next
    case plain: False
    show ?thesis
    proof (cases "?j < length new")
      case True
      then obtain p where p: "?i < p" "p < length old" "old ! p = new ! ?j" using ahead plain by blast
      then have "needFetch f" using fetchI True tbl_pos_nth [OF o(1) p(2)] by simp
      then show ?thesis using fetch p True plain by blast
    next
      case False
      then have j: "?j = length new" "\<not> needFetch f" using n(2) fetchI by auto
      show ?thesis
      proof (cases "?i < length old")
        case True
        then have "old ! ?i \<in> set new" using plain delI by simp
        then obtain k where k: "k < length new" "new ! k = old ! ?i" unfolding in_set_conv_nth by blast
        then have "obsoleted f" using skipI True j tbl_pos_nth [OF n(1) k(1)] by simp
        then show ?thesis using skip plain j True behind by blast
      next
        case False
        then have "?i = length old" "\<not> obsoleted f" using o(2) skipI by auto
        then show ?thesis using finish plain j by blast
      qed
    qed
  qed
qed

lemma step_pick:
  assumes "df_ok old new f" "ap_ok old new f t" "df_oldHead f < length old" "df_newHead f < length new"
    "old ! df_oldHead f = new ! df_newHead f"
  shows "consumeOld f = Inr (old ! df_oldHead f, f\<lparr>df_oldHead := df_oldHead f + 1\<rparr>)"
    and "\<exists>t'. ap_pick moved (new ! df_newHead f) t = Inr t'
      \<and> ap_ok old new (f\<lparr>df_oldHead := df_oldHead f + 1, df_newHead := df_newHead f + 1\<rparr>) t'"
    and "df_ok old new (f\<lparr>df_oldHead := df_oldHead f + 1, df_newHead := df_newHead f + 1\<rparr>)"
proof -
  have d: "distinct old" "distinct new" using assms(1) by (auto simp: df_ok_def tbl_ok_def)
  show "consumeOld f = Inr (old ! df_oldHead f, f\<lparr>df_oldHead := df_oldHead f + 1\<rparr>)"
    using assms(1,3) by (simp add: consumeOld_def oldElm_def df_ok_def getElement_ok [of old] getElement_ok [of new])
  have "new ! df_newHead f \<notin> set (take (df_newHead f) new)" by (rule not_in_take [OF d(2) assms(4)])
  then have o: "ap_orig t ! df_oldHead f = new ! df_newHead f" using assms(2,3,5) by (simp add: ap_ok_def)
  have p: "ap_pos t = df_oldHead f" "length (ap_orig t) = length old" using assms(2) by (simp_all add: ap_ok_def)
  let ?t = "(take_at moved (ap_pos t) t)\<lparr>ap_pos := ap_pos t + 1\<rparr>"
  have run: "ap_pick moved (new ! df_newHead f) t = Inr ?t"
    using o p assms(3) by (simp add: ap_pick_def expect_in_target_def end_of_target_def)
  have "ap_ok old new (f\<lparr>df_oldHead := df_oldHead f + 1, df_newHead := df_newHead f + 1\<rparr>) ?t"
    using assms(2,4) o p by (auto simp: ap_ok_def take_at_def take_Suc_snoc nth_list_update)
  with run show "\<exists>t'. ap_pick moved (new ! df_newHead f) t = Inr t'
      \<and> ap_ok old new (f\<lparr>df_oldHead := df_oldHead f + 1, df_newHead := df_newHead f + 1\<rparr>) t'" by blast
  show "df_ok old new (f\<lparr>df_oldHead := df_oldHead f + 1, df_newHead := df_newHead f + 1\<rparr>)"
    using assms(1,3,4,5) by (auto simp: df_ok_def take_Suc_snoc less_Suc_eq)
qed

lemma step_find:
  assumes "df_ok old new f" "ap_ok old new f t" "df_newHead f < length new" "df_oldHead f < p" "p < length old"
    "old ! p = new ! df_newHead f"
  shows "\<exists>t'. ap_find moved (new ! df_newHead f) t = Inr t' \<and> ap_ok old new (f\<lparr>df_newHead := df_newHead f + 1\<rparr>) t'"
proof -
  let ?i = "df_oldHead f" and ?j = "df_newHead f"
  let ?e = "new ! ?j"
  have d: "distinct old" "distinct new" using assms(1) by (auto simp: df_ok_def tbl_ok_def)
  have fresh: "?e \<notin> set (take ?j new)" by (rule not_in_take [OF d(2) assms(3)])
  have t: "ap_pos t = ?i" "length (ap_orig t) = length old" "ap_seq t = take ?j new"
    and o: "\<And>q. ?i \<le> q \<Longrightarrow> q < length old \<Longrightarrow> old ! q \<notin> set (take ?j new) \<Longrightarrow> ap_orig t ! q = old ! q"
    using assms(2) by (auto simp: ap_ok_def)
  have "ap_orig t ! p = ?e" using o [of p] assms(4-6) fresh by simp
  note fd = std_find_result [OF less_imp_le [OF assms(4)] _ this, unfolded t(2), OF assms(5)]
  define k where "k = std_find ?i (ap_orig t) ?e"
  have k: "k < length old" "ap_orig t ! k = ?e" "?i \<le> k" using fd by (simp_all add: k_def)
  have run: "ap_find moved ?e t = Inr (take_at moved k t)"
    using k t assms(4,5) by (simp add: ap_find_def expect_further_elements_def end_of_target_def expect_found_def Let_def k_def [symmetric])
  have "(ap_orig t)[k := moved ?e] ! q = old ! q"
    if q: "?i \<le> q" "q < length old" "old ! q \<notin> set (take ?j new)" "old ! q \<noteq> ?e" for q
    using o [OF q(1-3)] k q(4) by (cases "q = k") auto
  then have "ap_ok old new (f\<lparr>df_newHead := ?j + 1\<rparr>) (take_at moved k t)"
    using t k assms(3) by (simp add: ap_ok_def take_at_def take_Suc_snoc)
  then show ?thesis using run by blast
qed

lemma diff_steps_apply:
  assumes "df_ok old new f" "ap_ok old new f t"
  shows "\<exists>ss t'. diff_steps f = Inr ss \<and> apply_steps moved ss t = Inr t' \<and> ap_seq t' = new
    \<and> ap_pos t' = length (ap_orig t')"
  using assms
proof (induction "df_remaining f" arbitrary: f t rule: less_induct)
  case less
  let ?i = "df_oldHead f" and ?j = "df_newHead f"
  have go: ?case if "establishNextState f = Inr (Some s, f')" "df_ok old new f'" "applyTo moved s t = Inr t'" "ap_ok old new f' t'"
    for s f' t'
  proof -
    have "df_remaining f' < df_remaining f" by (rule establishNextState_progress [OF that(1)])
    from less.hyps [OF this that(2,4)] show ?thesis using that(1,3) by (subst diff_steps.simps) auto
  qed
  have elm: "consumeOld f = (if ?i < length old then Inr (old ! ?i, f\<lparr>df_oldHead := ?i + 1\<rparr>) else Inl (Err Assertion ''i < size()''))"
    "consumeNew f = (if ?j < length new then Inr (new ! ?j, f\<lparr>df_newHead := ?j + 1\<rparr>) else Inl (Err Assertion ''i < size()''))"
    "consumeNew (f\<lparr>df_oldHead := Suc ?i\<rparr>) = (if ?j < length new
       then Inr (new ! ?j, f\<lparr>df_oldHead := Suc ?i, df_newHead := ?j + 1\<rparr>) else Inl (Err Assertion ''i < size()''))"
    using less.prems(1) by (simp_all add: consumeOld_def consumeNew_def oldElm_def newElm_def df_ok_def getElement_ok [of old] getElement_ok [of new])
  have t: "ap_pos t = ?i" "length (ap_orig t) = length old" using less.prems(2) by (simp_all add: ap_ok_def)
  from less.prems(1) show ?case
  proof (cases rule: df_cases)
    case pick
    have e: "establishNextState f = Inr (Some (Pick (new ! ?j)), f\<lparr>df_oldHead := ?i + 1, df_newHead := ?j + 1\<rparr>)"
      using pick by (simp add: establishNextState_def elm)
    from step_pick(2) [OF less.prems pick(2-4), of moved] obtain t' where "applyTo moved (Pick (new ! ?j)) t = Inr t'"
      "ap_ok old new (f\<lparr>df_oldHead := ?i + 1, df_newHead := ?j + 1\<rparr>) t'" by auto
    then show ?thesis using go [OF e step_pick(3) [OF less.prems pick(2-4)]] by blast
  next
    case del
    have e: "establishNextState f = Inr (Some (Del (old ! ?i)), f\<lparr>df_oldHead := ?i + 1\<rparr>)"
      using del by (simp add: establishNextState_def elm)
    have "old ! ?i \<notin> set (take ?j new)" using del(4) by (auto dest: in_set_takeD)
    then have "ap_orig t ! ?i = old ! ?i" using less.prems(2) del(3) by (simp add: ap_ok_def)
    then have "applyTo moved (Del (old ! ?i)) t = Inr (t\<lparr>ap_pos := ap_pos t + 1\<rparr>)"
      using t del(3) by (simp add: ap_del_def expect_in_target_def end_of_target_def)
    moreover have "df_ok old new (f\<lparr>df_oldHead := ?i + 1\<rparr>)" using less.prems(1) del by (auto simp: df_ok_def less_Suc_eq)
    moreover have "ap_ok old new (f\<lparr>df_oldHead := ?i + 1\<rparr>) (t\<lparr>ap_pos := ap_pos t + 1\<rparr>)"
      using less.prems(2) by (auto simp: ap_ok_def)
    ultimately show ?thesis using go [OF e] by blast
  next
    case ins
    have e: "establishNextState f = Inr (Some (Ins (new ! ?j)), f\<lparr>df_newHead := ?j + 1\<rparr>)"
      using ins by (simp add: establishNextState_def elm)
    have "applyTo moved (Ins (new ! ?j)) t = Inr (t\<lparr>ap_seq := ap_seq t @ [new ! ?j]\<rparr>)" by (simp add: ap_ins_def)
    moreover have "df_ok old new (f\<lparr>df_newHead := ?j + 1\<rparr>)" using less.prems(1) ins(4) by (auto simp: df_ok_def take_Suc_snoc)
    moreover have "ap_ok old new (f\<lparr>df_newHead := ?j + 1\<rparr>) (t\<lparr>ap_seq := ap_seq t @ [new ! ?j]\<rparr>)"
      using less.prems(2) ins(4) by (auto simp: ap_ok_def take_Suc_snoc)
    ultimately show ?thesis using go [OF e] by blast
  next
    case (fetch p)
    have e: "establishNextState f = Inr (Some (Find (new ! ?j)), f\<lparr>df_newHead := ?j + 1\<rparr>)"
      using fetch by (simp add: establishNextState_def elm)
    obtain t' where "applyTo moved (Find (new ! ?j)) t = Inr t'" "ap_ok old new (f\<lparr>df_newHead := ?j + 1\<rparr>) t'"
      using step_find [OF less.prems fetch(5-8), of moved] by auto
    moreover have "df_ok old new (f\<lparr>df_newHead := ?j + 1\<rparr>)" using less.prems(1) fetch(5) by (auto simp: df_ok_def take_Suc_snoc)
    ultimately show ?thesis using go [OF e] by blast
  next
    case skip
    have e: "establishNextState f = Inr (Some (Skip (old ! ?i)), f\<lparr>df_oldHead := ?i + 1\<rparr>)"
      using skip by (simp add: establishNextState_def elm)
    have "applyTo moved (Skip (old ! ?i)) t = Inr (t\<lparr>ap_pos := ap_pos t + 1\<rparr>)"
      using t skip(6) by (simp add: ap_skip_def expect_further_elements_def end_of_target_def)
    moreover have "df_ok old new (f\<lparr>df_oldHead := ?i + 1\<rparr>)" using less.prems(1) skip by (auto simp: df_ok_def less_Suc_eq)
    moreover have "ap_ok old new (f\<lparr>df_oldHead := ?i + 1\<rparr>) (t\<lparr>ap_pos := ap_pos t + 1\<rparr>)"
      using less.prems(2) by (auto simp: ap_ok_def)
    ultimately show ?thesis using go [OF e] by blast
  next
    case finish
    have "establishNextState f = Inr (None, f)" using finish by (simp add: establishNextState_def)
    then have "diff_steps f = Inr []" by (subst diff_steps.simps) simp
    then show ?thesis using less.prems(2) finish by (intro exI [where x = "[]"] exI [where x = t]) (simp add: ap_ok_def)
  qed
qed

text \<open>Whatever a diff is applied to, the result consists of the elements it names.\<close>

primrec constructive :: "'a DiffStep \<Rightarrow> 'a list" where
  "constructive (Ins e) = [e]"
| "constructive (Del e) = []"
| "constructive (Pick e) = [e]"
| "constructive (Find e) = [e]"
| "constructive (Skip e) = []"

lemma applyTo_constructive:
  assumes "applyTo moved s t = Inr t'" "ap_pos t \<le> length (ap_orig t)"
  shows "ap_seq t' = ap_seq t @ constructive s \<and> ap_pos t' \<le> length (ap_orig t')"
proof (cases s)
  case (Find e)
  let ?k = "std_find (ap_pos t) (ap_orig t) e"
  have r: "?k \<noteq> length (ap_orig t)" "t' = take_at moved ?k t"
    using assms(1) unfolding Find by (auto simp: ap_find_def expect_found_def expect_further_elements_def bind_result_Inr_iff Let_def split: if_splits)
  let ?n = "length (takeWhile (\<lambda>x. x \<noteq> e) (drop (ap_pos t) (ap_orig t)))"
  have "?n \<le> length (drop (ap_pos t) (ap_orig t))" by (rule length_takeWhile_le)
  then have l: "?n < length (drop (ap_pos t) (ap_orig t))" using r(1) assms(2) by (simp add: std_find_def)
  have "\<not> (drop (ap_pos t) (ap_orig t) ! ?n \<noteq> e)" using nth_length_takeWhile [OF l] by blast
  then have "ap_orig t ! ?k = e" using l assms(2) by (simp add: std_find_def)
  then show ?thesis using r(2) Find assms(2) by (simp add: take_at_def)
qed (use assms in \<open>auto simp: ap_ins_def ap_del_def ap_pick_def ap_skip_def expect_in_target_def expect_further_elements_def
    take_at_def end_of_target_def bind_result_Inr_iff split: if_splits\<close>)

lemma apply_steps_constructive:
  "apply_steps moved ss t = Inr t' \<Longrightarrow> ap_pos t \<le> length (ap_orig t) \<Longrightarrow> ap_seq t' = ap_seq t @ concat (map constructive ss)"
proof (induction ss arbitrary: t)
  case (Cons s ss)
  obtain t1 where t1: "applyTo moved s t = Inr t1" "apply_steps moved ss t1 = Inr t'"
    using Cons.prems(1) by (auto simp: bind_result_Inr_iff)
  note c = applyTo_constructive [OF t1(1) Cons.prems(2)]
  then show ?case using Cons.IH [OF t1(2)] by simp
qed simp

subsection \<open>Following a sequence of updates\<close>

text \<open>One round of an observer: pull the changes and apply them to the observer's copy.\<close>

definition update_round ::
  "('a \<Rightarrow> 'a) \<Rightarrow> 'a list \<Rightarrow> 'a DiffDetector \<Rightarrow> 'a DiffTarget \<Rightarrow> ('a DiffDetector \<times> 'a DiffTarget) result" where
  "update_round moved currentData d t =
     bind_result (pullUpdate currentData d) (\<lambda>(f, d1).
     bind_result (diff_steps f) (\<lambda>ss.
     bind_result (diff_consume moved ss t) (\<lambda>t1. Inr (d1, t1))))"

primrec follow_updates :: "('a \<Rightarrow> 'd \<Rightarrow> 't \<Rightarrow> ('d \<times> 't) result) \<Rightarrow> 'a list \<Rightarrow> 'd \<Rightarrow> 't \<Rightarrow> ('d \<times> 't) result" where
  "follow_updates round_of [] d t = Inr (d, t)"
| "follow_updates round_of (x # xs) d t = bind_result (round_of x d t) (\<lambda>(d1, t1). follow_updates round_of xs d1 t1)"

locale change_feed =
  fixes in_sync :: "'a \<Rightarrow> 'd \<Rightarrow> 't \<Rightarrow> bool"
    and valid :: "'a \<Rightarrow> bool"
    and round_of :: "'a \<Rightarrow> 'd \<Rightarrow> 't \<Rightarrow> ('d \<times> 't) result"
  assumes round_in_sync: "in_sync x d t \<Longrightarrow> valid y \<Longrightarrow> \<exists>d' t'. round_of y d t = Inr (d', t') \<and> in_sync y d' t'"
begin

lemma follow_in_sync:
  "in_sync x d t \<Longrightarrow> \<forall>y \<in> set ys. valid y \<Longrightarrow>
   \<exists>d' t'. follow_updates round_of ys d t = Inr (d', t') \<and> in_sync (last (x # ys)) d' t'"
proof (induction ys arbitrary: x d t)
  case (Cons y ys)
  from Cons.prems(2) have y: "valid y" by simp
  obtain d1 t1 where r: "round_of y d t = Inr (d1, t1)" "in_sync y d1 t1"
    using round_in_sync [OF Cons.prems(1) y] by blast
  obtain d2 t2 where "follow_updates round_of ys d1 t1 = Inr (d2, t2)" "in_sync (last (y # ys)) d2 t2"
    using Cons.IH [OF r(2)] Cons.prems(2) by auto
  then show ?case using r by simp
qed simp

end

definition feed_sync :: "'a list \<Rightarrow> 'a DiffDetector \<Rightarrow> 'a DiffTarget \<Rightarrow> bool" where
  "feed_sync x d t \<longleftrightarrow> tbl_ok x (dd_refIdx d) \<and> ap_seq t = x \<and> ap_orig t = []"

lemma frame_init_ok:
  assumes "tbl_ok old a" "tbl_ok new b"
  shows "df_ok old new (DiffFrame_init b a)"
  using assms by (simp add: df_ok_def DiffFrame_init_def)

lemma update_round_result:
  assumes "feed_sync x d t" "distinct y"
  shows "\<exists>d' t'. update_round moved y d t = Inr (d', t') \<and> feed_sync y d' t'"
proof -
  obtain m where m: "IndexTable_of y = Inr m" "tbl_ok y m" using IndexTable_of_ok [OF assms(2)] by blast
  let ?f = "DiffFrame_init m (dd_refIdx d)" and ?t = "initDiffApplication t"
  have f: "df_ok x y ?f" using assms(1) m(2) by (intro frame_init_ok) (simp_all add: feed_sync_def)
  have "ap_ok x y ?f ?t" using assms(1) by (simp add: ap_ok_def initDiffApplication_def DiffFrame_init_def feed_sync_def)
  from diff_steps_apply [OF f this, of moved] obtain ss t' where r: "diff_steps ?f = Inr ss"
    "apply_steps moved ss ?t = Inr t'" "ap_seq t' = y" "ap_pos t' = length (ap_orig t')" by blast
  have "diff_consume moved ss t = Inr (t'\<lparr>ap_orig := []\<rparr>)"
    using r by (simp add: diff_consume_def completeDiffApplication_def end_of_target_def)
  then have "update_round moved y d t = Inr (d\<lparr>dd_refIdx := m\<rparr>, t'\<lparr>ap_orig := []\<rparr>)"
    using m(1) r(1) by (simp add: update_round_def pullUpdate_def)
  then show ?thesis using m(2) r(3) by (simp add: feed_sync_def)
qed

interpretation feed: change_feed feed_sync distinct "update_round moved" for moved :: "'a \<Rightarrow> 'a"
  by standard (rule update_round_result)

lemma feed_sync_init: "DiffDetector_init x = Inr d \<Longrightarrow> feed_sync x d (DiffTarget_init x)"
  using IndexTable_of_iff by (fastforce simp: DiffDetector_init_def feed_sync_def DiffTarget_init_def bind_result_Inr_iff)

lemma changed_from_iff: "changed_from s xs \<longleftrightarrow> (\<exists>i < min (length s) (length xs). xs ! i \<noteq> s ! i)"
proof (induction s xs rule: changed_from.induct)
  case (3 s snapshot elm es)
  show ?case unfolding changed_from.simps 3 by (auto simp: less_Suc_eq_0_disj min_def)
next
  case (2 elm es)
  then show ?case by simp
qed simp

text \<open>\<open>isChanged\<close> compares only up to the end of the shorter sequence: it does not see elements
  appended to, or cut off from, the end of the observed sequence.\<close>

lemma isChanged_misses_extension:
  assumes "DiffDetector_init ref = Inr d"
  shows "\<not> isChanged d (ref @ xs)" "\<not> isChanged d (take n ref)"
proof -
  have "tbl_data (dd_refIdx d) = ref" using feed_sync_init [OF assms] by (simp add: feed_sync_def tbl_ok_def)
  then show "\<not> isChanged d (ref @ xs)" "\<not> isChanged d (take n ref)"
    by (auto simp: isChanged_def changed_from_iff nth_append)
qed

subsection \<open>Properties\<close>

text \<open>C35: the changes detected between two states of a sequence without duplicates, applied to the
  old state, yield the new one. Generating and applying them comes to an end and meets no conflict,
  whatever moving an element out of the old sequence leaves behind.\<close>

theorem diff_roundtrip:
  assumes "distinct old" "distinct new"
  shows "\<exists>d f d' ss t. DiffDetector_init old = Inr d \<and> pullUpdate new d = Inr (f, d') \<and> diff_steps f = Inr ss
    \<and> diff_consume moved ss (DiffTarget_init old) = Inr t \<and> ap_seq t = new"
proof -
  obtain d where d: "DiffDetector_init old = Inr d"
    using IndexTable_of_ok [OF assms(1)] by (auto simp: DiffDetector_init_def)
  obtain d' t' where "update_round moved new d (DiffTarget_init old) = Inr (d', t')" "feed_sync new d' t'"
    using update_round_result [OF feed_sync_init [OF d] assms(2)] by blast
  then show ?thesis using d by (fastforce simp: update_round_def bind_result_Inr_iff feed_sync_def)
qed

theorem diff_roundtrip_witness:
  "\<exists>d f d' ss t. DiffDetector_init [1, 2, 3, 4 :: nat] = Inr d \<and> pullUpdate [4, 2, 5, 1] d = Inr (f, d')
    \<and> diff_steps f = Inr ss \<and> diff_consume (\<lambda>_. 0) ss (DiffTarget_init [1, 2, 3, 4]) = Inr t \<and> ap_seq t = [4, 2, 5, 1]"
  by (rule diff_roundtrip) simp_all

text \<open>applied to any sequence whatever, the changes detected between two states either run into
  a conflict or yield the new state; a sequence that differs is never altered into something else.\<close>

theorem diff_yields_new_or_conflict:
  assumes "IndexTable_of old = Inr a" "IndexTable_of new = Inr b" "diff_steps (DiffFrame_init b a) = Inr ss"
    and "diff_consume moved ss (DiffTarget_init tgt) = Inr t"
  shows "ap_seq t = new"
proof -
  have f: "df_ok old new (DiffFrame_init b a)"
    by (rule frame_init_ok [OF IndexTable_of_iff [OF assms(1)] IndexTable_of_iff [OF assms(2)]])
  have result_of: "ap_seq t1 = concat (map constructive ss)"
    if r: "apply_steps moved ss (initDiffApplication (DiffTarget_init x)) = Inr t1" for x t1
    using apply_steps_constructive [OF r] by (simp add: initDiffApplication_def DiffTarget_init_def)
  have "ap_ok old new (DiffFrame_init b a) (initDiffApplication (DiffTarget_init old))"
    by (simp add: ap_ok_def initDiffApplication_def DiffFrame_init_def DiffTarget_init_def)
  from diff_steps_apply [OF f this, of moved] obtain t1 where
    "apply_steps moved ss (initDiffApplication (DiffTarget_init old)) = Inr t1" "ap_seq t1 = new"
    using assms(3) by auto
  then have "concat (map constructive ss) = new" using result_of by metis
  moreover obtain t2 where "apply_steps moved ss (initDiffApplication (DiffTarget_init tgt)) = Inr t2" "ap_seq t = ap_seq t2"
    using assms(4) by (auto simp: diff_consume_def completeDiffApplication_def bind_result_Inr_iff split: if_splits)
  ultimately show ?thesis using result_of by metis
qed

theorem diff_yields_new_or_conflict_witness:
  "\<exists>a b ss t. IndexTable_of [1, 2, 3 :: nat] = Inr a \<and> IndexTable_of [3, 1] = Inr b
    \<and> diff_steps (DiffFrame_init b a) = Inr ss \<and> diff_consume (\<lambda>_. 0) ss (DiffTarget_init [1, 2, 3]) = Inr t \<and> ap_seq t = [3, 1]"
proof -
  obtain a b where ab: "IndexTable_of [1, 2, 3 :: nat] = Inr a" "IndexTable_of [3, 1 :: nat] = Inr b"
    using IndexTable_of_ok [of "[1, 2, 3 :: nat]"] IndexTable_of_ok [of "[3, 1 :: nat]"] by auto
  obtain ss t where r: "diff_steps (DiffFrame_init b a) = Inr ss" "diff_consume (\<lambda>_. 0) ss (DiffTarget_init [1, 2, 3]) = Inr t"
    using update_round_result [OF feed_sync_init, of "[1, 2, 3]" "\<lparr>dd_refIdx = a\<rparr>" "[3, 1]" "\<lambda>_. 0"] ab
    by (auto simp: DiffDetector_init_def update_round_def pullUpdate_def bind_result_Inr_iff)
  show ?thesis using ab r diff_yields_new_or_conflict [OF ab r] by blast
qed

text \<open>an observer that applies the changes it pulls stays in sync with the observed sequence,
  over any number of updates.\<close>

theorem observer_stays_in_sync:
  assumes "DiffDetector_init x = Inr d" "\<forall>y \<in> set ys. distinct y"
  shows "\<exists>d' t'. follow_updates (update_round moved) ys d (DiffTarget_init x) = Inr (d', t')
    \<and> ap_seq t' = last (x # ys) \<and> tbl_data (dd_refIdx d') = last (x # ys)"
  using feed.follow_in_sync [OF feed_sync_init [OF assms(1)] assms(2), of moved]
  by (auto simp: feed_sync_def tbl_ok_def)

theorem observer_stays_in_sync_witness:
  "\<exists>d d' t'. DiffDetector_init [1, 2 :: nat] = Inr d
    \<and> follow_updates (update_round id) [[2, 1], [], [5, 1]] d (DiffTarget_init [1, 2]) = Inr (d', t') \<and> ap_seq t' = [5, 1]"
proof -
  obtain d where d: "DiffDetector_init [1, 2 :: nat] = Inr d"
    using IndexTable_of_ok [of "[1, 2 :: nat]"] by (auto simp: DiffDetector_init_def)
  show ?thesis using observer_stays_in_sync [OF d, of "[[2, 1], [], [5, 1]]" id] d by auto
qed

end
