(* ===== verification/SplitSplice.thy ===== *)
theory SplitSplice
  imports Prelude
begin

text \<open>
  The algorithm of \<open>lib/split-splice.hpp\<close>, which splices a new segment into a seamless
  segmentation of an ordered axis. The functors it is instantiated with are a record of
  functions; the iterators of the list of segments are positions, and an insertion before a
  position moves that position by one. Reading a segment at the end position, undefined in the
  code, is an error. The locale \<open>seg_binding\<close> says what the functors promise; within it the
  algorithm is shown to equal a reference definition by cutting off the two sides.
\<close>

subsection \<open>The algorithm\<close>

record ('o, 's) SegBinding =
  getStart :: "'s \<Rightarrow> 'o"
  getAfter :: "'s \<Rightarrow> 'o"
  createSeg :: "'o \<Rightarrow> 'o \<Rightarrow> 's"
  emptySeg :: "'o \<Rightarrow> 'o \<Rightarrow> 's"
  cloneSeg :: "'o \<Rightarrow> 'o \<Rightarrow> 's \<Rightarrow> 's"
  AXIS_END :: 'o

datatype SpliceVerb = NIL | DROP | TRUNC | INS_NOP | SEAMLESS

record 'o Splicer =
  sp_pred :: nat
  sp_succ :: nat
  b_start :: 'o
  b_after :: 'o
  opPred :: SpliceVerb
  opSucc :: SpliceVerb

definition seg_at :: "'s list \<Rightarrow> nat \<Rightarrow> 's result" where
  "seg_at segs i = (if i < length segs then Inr (segs ! i) else Inl (Err Fatal ''undefined: access to the end position''))"

primrec find_split :: "('s \<Rightarrow> ('o::linorder)) \<Rightarrow> 'o \<Rightarrow> 's list \<Rightarrow> nat \<Rightarrow> nat \<Rightarrow> nat \<times> nat" where
  "find_split start_of sep [] i pred = (pred, i)"
| "find_split start_of sep (x # xs) i pred =
     (if start_of x < sep then find_split start_of sep xs (Suc i) i else (pred, i))"

definition establishSplitPoint ::
  "('o::linorder, 's) SegBinding \<Rightarrow> 's list \<Rightarrow> 'o option \<Rightarrow> 'o option \<Rightarrow> (nat \<times> nat \<times> 'o \<times> 'o) result" where
  "establishSplitPoint ops segs start after =
     (let sep = (case start of Some t \<Rightarrow> t | None \<Rightarrow> case after of Some t \<Rightarrow> t | None \<Rightarrow> AXIS_END ops);
          afterAll = length segs;
          (pred0, succ0) = find_split (getStart ops) sep segs 0 afterAll
      in bind_result (require (pred0 \<noteq> succ0) ''non-empty segmentation required'') (\<lambda>_.
         let succ = (if succ0 = afterAll then pred0 else succ0);
             pred = (if pred0 = afterAll then succ else pred0)
         in bind_result (seg_at segs pred) (\<lambda>p. bind_result (seg_at segs succ) (\<lambda>s.
            let startSeg = (case start of Some t \<Rightarrow> t
                  | None \<Rightarrow> if getAfter ops p < sep then getAfter ops p else getStart ops p);
                afterSeg = (case after of Some t \<Rightarrow> t
                  | None \<Rightarrow> if getStart ops s > sep then getStart ops s else getAfter ops s)
            in bind_result (require (startSeg \<noteq> afterSeg) ''startSeg != afterSeg'') (\<lambda>_.
               Inr (if startSeg < afterSeg then (pred, succ, startSeg, afterSeg) else (pred, succ, afterSeg, startSeg)))))))"

definition Splicer_init ::
  "('o::linorder, 's) SegBinding \<Rightarrow> 's list \<Rightarrow> 'o option \<Rightarrow> 'o option \<Rightarrow> 'o Splicer result" where
  "Splicer_init ops segs start after =
     bind_result (establishSplitPoint ops segs start after) (\<lambda>(pred, succ, st, af).
     bind_result (seg_at segs pred) (\<lambda>p. bind_result (seg_at segs succ) (\<lambda>s.
     bind_result (require (pred \<noteq> length segs) ''pred_ != afterAll'') (\<lambda>_.
     bind_result (require (succ \<noteq> length segs) ''succ_ != afterAll'') (\<lambda>_.
     bind_result (require (st < af) ''b_.start < b_.after'') (\<lambda>_.
     bind_result (require (getStart ops p \<le> st) ''getStart(pred_) <= b_.start'') (\<lambda>_.
     bind_result (require (st \<le> getStart ops s \<or> pred = succ) ''b_.start <= getStart(succ_) or pred_ == succ_'') (\<lambda>_.
       Inr \<lparr>sp_pred = pred, sp_succ = succ, b_start = st, b_after = af, opPred = NIL, opSucc = NIL\<rparr>))))))))"

primrec seek_succ :: "('s \<Rightarrow> ('o::linorder)) \<Rightarrow> 'o \<Rightarrow> 's list \<Rightarrow> nat \<Rightarrow> nat result" where
  "seek_succ after_of lim [] i = Inl (Err Fatal ''undefined: access to the end position'')"
| "seek_succ after_of lim (x # xs) i = (if after_of x < lim then seek_succ after_of lim xs (Suc i) else Inr i)"

definition determineSucc :: "('o::linorder, 's) SegBinding \<Rightarrow> 's list \<Rightarrow> 'o Splicer \<Rightarrow> 'o Splicer result" where
  "determineSucc ops segs st =
     bind_result (seg_at segs (sp_succ st)) (\<lambda>s.
       if getStart ops s < b_after st
       then bind_result (seek_succ (getAfter ops) (b_after st) (drop (sp_succ st) segs) (sp_succ st)) (\<lambda>i.
            bind_result (seg_at segs i) (\<lambda>s1.
            bind_result (require (getStart ops s1 < b_after st) ''seamless segmentation'') (\<lambda>_.
              Inr (st\<lparr>sp_succ := i,
                 opSucc := (if b_after st = getAfter ops s1 then DROP
                            else if b_after st < getAfter ops s1 then TRUNC else opSucc st)\<rparr>))))
       else Inr (st\<lparr>opSucc := (if b_after st = getStart ops s then SEAMLESS else INS_NOP)\<rparr>))"

definition determineRelations :: "('o::linorder, 's) SegBinding \<Rightarrow> 's list \<Rightarrow> 'o Splicer \<Rightarrow> 'o Splicer result" where
  "determineRelations ops segs st =
     bind_result (seg_at segs (sp_pred st)) (\<lambda>p.
       let startPred = getStart ops p; afterPred = getAfter ops p
       in if startPred < b_start st
          then if afterPred < b_start st then determineSucc ops segs (st\<lparr>opPred := INS_NOP\<rparr>)
               else if afterPred = b_start st then determineSucc ops segs (st\<lparr>opPred := SEAMLESS\<rparr>)
               else if afterPred > b_after st
               then Inr (st\<lparr>opPred := TRUNC, sp_succ := sp_pred st, opSucc := TRUNC\<rparr>)
               else determineSucc ops segs (st\<lparr>opPred := TRUNC\<rparr>)
          else bind_result (require (startPred = b_start st) ''predecessor does not precede start point'') (\<lambda>_.
               if b_after st < afterPred
               then Inr (st\<lparr>opPred := DROP, sp_succ := sp_pred st, opSucc := TRUNC\<rparr>)
               else determineSucc ops segs (st\<lparr>opPred := DROP\<rparr>)))"

definition insert_before :: "nat \<Rightarrow> 's \<Rightarrow> 's list \<Rightarrow> 's list" where
  "insert_before i x xs = take i xs @ x # drop i xs"

definition discard_range :: "nat \<Rightarrow> nat \<Rightarrow> 's list \<Rightarrow> 's list" where
  "discard_range i j xs = take i xs @ drop j xs"

text \<open>
  The new list and the positions \<open>(s, n, e)\<close>. \<open>k\<close> counts the elements inserted before the
  range to be dropped, by which its positions move.
\<close>

definition performSplitSplice ::
  "('o::linorder, 's) SegBinding \<Rightarrow> 's list \<Rightarrow> 'o Splicer \<Rightarrow> ('s list \<times> nat \<times> nat \<times> nat) result" where
  "performSplitSplice ops segs st =
     bind_result (require (opPred st \<noteq> NIL \<and> opSucc st \<noteq> NIL) ''opPred_ != NIL and opSucc_ != NIL'') (\<lambda>_.
     bind_result (seg_at segs (sp_pred st)) (\<lambda>refPred. bind_result (seg_at segs (sp_succ st)) (\<lambda>refSucc.
       let insPos = (if opPred st = INS_NOP \<or> opPred st = SEAMLESS then sp_pred st + 1 else sp_pred st);
           succ = (if opSucc st = DROP \<or> opSucc st = TRUNC then sp_succ st + 1 else sp_succ st);
           segs1 = insert_before insPos (createSeg ops (b_start st) (b_after st)) segs;
           (segs2, n, k) =
             (if opPred st = INS_NOP
              then (insert_before insPos (emptySeg ops (getAfter ops refPred) (b_start st)) segs1, insPos + 1, 2)
              else if opPred st = TRUNC
              then (insert_before insPos (cloneSeg ops (getStart ops refPred) (b_start st) refPred) segs1, insPos + 1, 2)
              else (segs1, insPos, 1));
           (segs3, k') =
             (if opSucc st = INS_NOP
              then (insert_before (insPos + k) (emptySeg ops (b_after st) (getStart ops refSucc)) segs2, k + 1)
              else if opSucc st = TRUNC
              then (insert_before (insPos + k) (cloneSeg ops (b_after st) (getAfter ops refSucc) refSucc) segs2, k + 1)
              else (segs2, k))
       in Inr (discard_range (insPos + k') (succ + k') segs3, insPos, n, insPos + k'))))"

definition split_splice ::
  "('o::linorder, 's) SegBinding \<Rightarrow> 's list \<Rightarrow> 'o option \<Rightarrow> 'o option \<Rightarrow> ('s list \<times> nat \<times> nat \<times> nat) result" where
  "split_splice ops segs start after =
     bind_result (Splicer_init ops segs start after) (\<lambda>st.
     bind_result (determineRelations ops segs st) (performSplitSplice ops segs))"

subsection \<open>Seamless segmentations\<close>

fun seamless :: "('o::linorder, 's) SegBinding \<Rightarrow> 'o \<Rightarrow> 's list \<Rightarrow> 'o \<Rightarrow> bool" where
  "seamless ops lo [] hi \<longleftrightarrow> lo = hi"
| "seamless ops lo (x # xs) hi \<longleftrightarrow> getStart ops x = lo \<and> lo < getAfter ops x \<and> seamless ops (getAfter ops x) xs hi"

lemma seamless_append:
  "seamless ops lo (xs @ ys) hi \<longleftrightarrow> (\<exists>m. seamless ops lo xs m \<and> seamless ops m ys hi)"
  by (induction xs arbitrary: lo) auto

lemma seamless_le: "seamless ops lo xs hi \<Longrightarrow> lo \<le> hi"
proof (induction xs arbitrary: lo)
  case (Cons x xs)
  then have "getAfter ops x \<le> hi" "lo < getAfter ops x" by simp_all
  then show ?case by simp
qed simp

lemma seamless_split:
  assumes "seamless ops lo xs hi" "i < length xs"
  shows "seamless ops lo (take i xs) (getStart ops (xs ! i))" "getStart ops (xs ! i) < getAfter ops (xs ! i)"
    "seamless ops (getAfter ops (xs ! i)) (drop (Suc i) xs) hi"
proof -
  have "xs = take i xs @ xs ! i # drop (Suc i) xs" using assms(2) by (rule id_take_nth_drop)
  then have "seamless ops lo (take i xs @ xs ! i # drop (Suc i) xs) hi" using assms(1) by simp
  then show "seamless ops lo (take i xs) (getStart ops (xs ! i))" "getStart ops (xs ! i) < getAfter ops (xs ! i)"
    "seamless ops (getAfter ops (xs ! i)) (drop (Suc i) xs) hi"
    by (auto simp: seamless_append)
qed

lemma seamless_adjacent:
  assumes "seamless ops lo xs hi" "Suc i < length xs"
  shows "getAfter ops (xs ! i) = getStart ops (xs ! Suc i)"
  using seamless_split(3) [OF assms(1), of i] assms(2) by (simp add: Cons_nth_drop_Suc [symmetric])

lemma seamless_last: "seamless ops lo xs hi \<Longrightarrow> Suc i = length xs \<Longrightarrow> getAfter ops (xs ! i) = hi"
  using seamless_split(3) [of ops lo xs hi i] by simp

text \<open>The reference: what lies left of a point, and what lies right of one.\<close>

fun left_part :: "('o::linorder, 's) SegBinding \<Rightarrow> 'o \<Rightarrow> 's list \<Rightarrow> 's list" where
  "left_part ops s [] = []"
| "left_part ops s (x # xs) =
     (if getAfter ops x \<le> s then x # left_part ops s xs
      else if getStart ops x < s then [cloneSeg ops (getStart ops x) s x] else [])"

fun right_part :: "('o::linorder, 's) SegBinding \<Rightarrow> 'o \<Rightarrow> 's list \<Rightarrow> 's list" where
  "right_part ops a [] = []"
| "right_part ops a (x # xs) =
     (if getAfter ops x \<le> a then right_part ops a xs
      else if getStart ops x < a then cloneSeg ops a (getAfter ops x) x # xs else x # xs)"

lemma left_part_append: "seamless ops lo xs m \<Longrightarrow> m \<le> s \<Longrightarrow> left_part ops s (xs @ ys) = xs @ left_part ops s ys"
  by (induction xs arbitrary: lo) (auto dest: seamless_le)

lemma right_part_append: "seamless ops lo xs m \<Longrightarrow> m \<le> a \<Longrightarrow> right_part ops a (xs @ ys) = right_part ops a ys"
  by (induction xs arbitrary: lo) (auto dest: seamless_le)

lemma left_part_none: "seamless ops lo xs hi \<Longrightarrow> s \<le> lo \<Longrightarrow> left_part ops s xs = []"
  by (cases xs) auto

lemma right_part_all: "seamless ops lo xs hi \<Longrightarrow> a \<le> lo \<Longrightarrow> right_part ops a xs = xs"
  by (cases xs) auto

lemma left_part_at:
  assumes "seamless ops lo xs hi" "i < length xs"
  shows "getStart ops (xs ! i) < s \<Longrightarrow> s < getAfter ops (xs ! i) \<Longrightarrow>
      left_part ops s xs = take i xs @ [cloneSeg ops (getStart ops (xs ! i)) s (xs ! i)]"
    and "s = getStart ops (xs ! i) \<Longrightarrow> left_part ops s xs = take i xs"
    and "s = getAfter ops (xs ! i) \<Longrightarrow> left_part ops s xs = take (Suc i) xs"
proof -
  note sp = seamless_split [OF assms]
  have x: "xs = take i xs @ xs ! i # drop (Suc i) xs" by (rule id_take_nth_drop [OF assms(2)])
  have l: "left_part ops s xs = take i xs @ left_part ops s (xs ! i # drop (Suc i) xs)" if "getStart ops (xs ! i) \<le> s"
    using left_part_append [OF sp(1) that, of "xs ! i # drop (Suc i) xs"] x by simp
  show "getStart ops (xs ! i) < s \<Longrightarrow> s < getAfter ops (xs ! i) \<Longrightarrow>
      left_part ops s xs = take i xs @ [cloneSeg ops (getStart ops (xs ! i)) s (xs ! i)]"
    and "s = getStart ops (xs ! i) \<Longrightarrow> left_part ops s xs = take i xs"
    using l sp(2) by auto
  show "s = getAfter ops (xs ! i) \<Longrightarrow> left_part ops s xs = take (Suc i) xs"
    using l sp(2) left_part_none [OF sp(3)] assms(2) by (simp add: take_Suc_conv_app_nth)
qed

lemma right_part_at:
  assumes "seamless ops lo xs hi" "i < length xs"
  shows "getStart ops (xs ! i) < a \<Longrightarrow> a < getAfter ops (xs ! i) \<Longrightarrow>
      right_part ops a xs = cloneSeg ops a (getAfter ops (xs ! i)) (xs ! i) # drop (Suc i) xs"
    and "a = getStart ops (xs ! i) \<Longrightarrow> right_part ops a xs = drop i xs"
    and "a = getAfter ops (xs ! i) \<Longrightarrow> right_part ops a xs = drop (Suc i) xs"
proof -
  note sp = seamless_split [OF assms]
  have x: "xs = take i xs @ xs ! i # drop (Suc i) xs" by (rule id_take_nth_drop [OF assms(2)])
  have r: "right_part ops a xs = right_part ops a (xs ! i # drop (Suc i) xs)" if "getStart ops (xs ! i) \<le> a"
    using right_part_append [OF sp(1) that, of "xs ! i # drop (Suc i) xs"] x by simp
  show "getStart ops (xs ! i) < a \<Longrightarrow> a < getAfter ops (xs ! i) \<Longrightarrow>
      right_part ops a xs = cloneSeg ops a (getAfter ops (xs ! i)) (xs ! i) # drop (Suc i) xs"
    using r by simp
  show "a = getStart ops (xs ! i) \<Longrightarrow> right_part ops a xs = drop i xs"
    using r sp(2) assms(2) by (simp add: Cons_nth_drop_Suc [symmetric])
  show "a = getAfter ops (xs ! i) \<Longrightarrow> right_part ops a xs = drop (Suc i) xs"
    using r sp(2) right_part_all [OF sp(3)] by simp
qed

subsection \<open>The algorithm equals the reference\<close>

lemma find_split_eq:
  "find_split f sep xs i pred =
     (let n = length (takeWhile (\<lambda>x. f x < sep) xs) in (if n = 0 then pred else i + n - 1, i + n))"
  by (induction xs arbitrary: i pred) (auto simp: Let_def)

definition valid_spec :: "('o::linorder) \<Rightarrow> 'o \<Rightarrow> 'o option \<Rightarrow> 'o option \<Rightarrow> bool" where
  "valid_spec lo hi start after \<longleftrightarrow>
     (case (start, after) of
        (Some s, Some a) \<Rightarrow> lo \<le> s \<and> s < a \<and> a \<le> hi
      | (Some s, None) \<Rightarrow> lo \<le> s \<and> s < hi
      | (None, Some a) \<Rightarrow> lo < a \<and> a \<le> hi
      | (None, None) \<Rightarrow> lo < hi)"

definition splicer_ok :: "('o::linorder, 's) SegBinding \<Rightarrow> 's list \<Rightarrow> 'o \<Rightarrow> 'o Splicer \<Rightarrow> bool" where
  "splicer_ok ops segs lo st \<longleftrightarrow> lo \<le> b_start st \<and> b_start st < b_after st \<and> b_after st \<le> AXIS_END ops
     \<and> sp_pred st < length segs \<and> sp_succ st < length segs
     \<and> getStart ops (segs ! sp_pred st) \<le> b_start st \<and> b_start st \<le> getAfter ops (segs ! sp_pred st)
     \<and> (sp_succ st = Suc (sp_pred st)
         \<or> sp_succ st = sp_pred st \<and> (Suc (sp_pred st) = length segs \<or> b_start st = getStart ops (segs ! sp_pred st)))"

lemma first_start: "seamless ops lo xs hi \<Longrightarrow> xs \<noteq> [] \<Longrightarrow> getStart ops (xs ! 0) = lo"
  by (cases xs) auto

text \<open>The positions around a separator: the last segment that starts before it, and the next one.\<close>

lemma split_positions:
  assumes "seamless ops lo segs (AXIS_END ops)" "lo \<le> sep" "sep \<le> AXIS_END ops" "lo < AXIS_END ops"
    and "find_split (getStart ops) sep segs 0 (length segs) = (pred0, succ0)"
    and "succ = (if succ0 = length segs then pred0 else succ0)" "pred = (if pred0 = length segs then succ else pred0)"
  shows "pred0 \<noteq> succ0 \<and> pred < length segs \<and> succ < length segs
    \<and> (getStart ops (segs ! pred) < sep \<and> sep \<le> getAfter ops (segs ! pred)
         \<and> (succ = Suc pred \<or> succ = pred \<and> Suc pred = length segs)
       \<or> pred = 0 \<and> succ = 0 \<and> sep = lo \<and> getStart ops (segs ! 0) = lo)"
proof -
  let ?n = "length (takeWhile (\<lambda>x. getStart ops x < sep) segs)"
  have ne: "segs \<noteq> []" using assms(1,4) by auto
  have fs: "pred0 = (if ?n = 0 then length segs else ?n - 1)" "succ0 = ?n"
    using assms(5) by (auto simp: find_split_eq Let_def split: if_splits)
  have le: "?n \<le> length segs" by (rule length_takeWhile_le)
  have below: "getStart ops (segs ! i) < sep" if "i < ?n" for i
    using that set_takeWhileD [of "takeWhile (\<lambda>x. getStart ops x < sep) segs ! i" "\<lambda>x. getStart ops x < sep" segs]
    by (metis nth_mem takeWhile_nth)
  have above: "sep \<le> getStart ops (segs ! ?n)" if "?n < length segs"
    using nth_length_takeWhile [OF that] by (simp add: not_less)
  show ?thesis
  proof (cases "?n = 0")
    case True
    then have p: "pred0 = length segs" "succ0 = 0" "succ = 0" "pred = 0" using fs ne assms(6,7) by auto
    have "getStart ops (segs ! 0) = lo" by (rule first_start [OF assms(1) ne])
    moreover have "sep \<le> getStart ops (segs ! 0)" using above True ne by simp
    ultimately show ?thesis using p ne assms(2) by auto
  next
    case False
    define k where "k = ?n - 1"
    have k: "?n = Suc k" "k < length segs" using False le unfolding k_def by linarith+
    have p: "pred0 = k" "succ0 = Suc k" "pred = k" "succ = (if Suc k = length segs then k else Suc k)"
      using fs k assms(6,7) by auto
    have "getStart ops (segs ! k) < sep" using below k by simp
    moreover have "sep \<le> getAfter ops (segs ! k)"
    proof (cases "Suc k = length segs")
      case True
      then show ?thesis using seamless_last [OF assms(1) True] assms(3) by simp
    next
      case False
      then have "Suc k < length segs" using k by simp
      then show ?thesis using above k seamless_adjacent [OF assms(1), of k] by simp
    qed
    ultimately show ?thesis using p k by auto
  qed
qed

lemma Splicer_init_ok:
  assumes sl: "seamless ops lo segs (AXIS_END ops)" and spec: "valid_spec lo (AXIS_END ops) start after"
  shows "\<exists>st. Splicer_init ops segs start after = Inr st \<and> splicer_ok ops segs lo st
    \<and> (\<forall>s. start = Some s \<longrightarrow> b_start st = s) \<and> (\<forall>a. after = Some a \<longrightarrow> b_after st = a)"
proof -
  define sep where "sep = (case start of Some t \<Rightarrow> t | None \<Rightarrow> case after of Some t \<Rightarrow> t | None \<Rightarrow> AXIS_END ops)"
  have sep: "lo \<le> sep" "sep \<le> AXIS_END ops" "lo < AXIS_END ops"
    using spec by (auto simp: sep_def valid_spec_def split: option.splits)
  obtain pred0 succ0 where f: "find_split (getStart ops) sep segs 0 (length segs) = (pred0, succ0)" by force
  define succ where "succ = (if succ0 = length segs then pred0 else succ0)"
  define pred where "pred = (if pred0 = length segs then succ else pred0)"
  note pos = split_positions [OF sl sep f succ_def pred_def]
  let ?p = "segs ! pred" and ?s = "segs ! succ"
  have len: "pred0 \<noteq> succ0" "pred < length segs" "succ < length segs" using pos by auto
  have pa: "getStart ops ?p < getAfter ops ?p" by (rule seamless_split(2) [OF sl len(2)])
  have sa: "getStart ops ?s < getAfter ops ?s" by (rule seamless_split(2) [OF sl len(3)])
  have adj: "succ = Suc pred \<Longrightarrow> getStart ops ?s = getAfter ops ?p" using seamless_adjacent [OF sl, of pred] len(3) by simp
  have fin: "getAfter ops ?s \<le> AXIS_END ops" "getAfter ops ?p \<le> AXIS_END ops"
    using seamless_le [OF seamless_split(3) [OF sl len(3)]] seamless_le [OF seamless_split(3) [OF sl len(2)]] by auto
  have lst: "Suc pred = length segs \<Longrightarrow> getAfter ops ?p = AXIS_END ops" using seamless_last [OF sl] by simp
  have lop: "lo \<le> getStart ops ?p" using seamless_le [OF seamless_split(1) [OF sl len(2)]] .
  define st where "st = (case start of Some t \<Rightarrow> t | None \<Rightarrow> if getAfter ops ?p < sep then getAfter ops ?p else getStart ops ?p)"
  define af where "af = (case after of Some t \<Rightarrow> t | None \<Rightarrow> if getStart ops ?s > sep then getStart ops ?s else getAfter ops ?s)"
  have est: "establishSplitPoint ops segs start after = (if st \<noteq> af then Inr (if st < af then (pred, succ, st, af) else (pred, succ, af, st))
      else Inl (Err Assertion ''startSeg != afterSeg''))"
    using len unfolding establishSplitPoint_def sep_def [symmetric] Let_def f prod.case succ_def [symmetric] pred_def [symmetric]
    by (simp add: require_def seg_at_def st_def [symmetric] af_def [symmetric])
  have main: "st < af \<and> lo \<le> st \<and> af \<le> AXIS_END ops \<and> getStart ops ?p \<le> st \<and> st \<le> getAfter ops ?p
    \<and> (st \<le> getStart ops ?s \<or> pred = succ)
    \<and> (succ = Suc pred \<or> succ = pred \<and> (Suc pred = length segs \<or> st = getStart ops ?p))"
  proof (cases start)
    case (Some t)
    then have st: "st = t" "sep = t" by (simp_all add: st_def sep_def)
    have "t < af \<and> af \<le> AXIS_END ops"
    proof (cases after)
      case (Some a)
      then show ?thesis using spec \<open>start = Some t\<close> by (simp add: af_def valid_spec_def)
    next
      case None
      then have "t < AXIS_END ops" using spec Some by (simp add: valid_spec_def)
      then show ?thesis using None pos adj lst sa fin st by (auto simp: af_def)
    qed
    then show ?thesis using pos adj st sep(1) less_imp_le [OF pa] by auto
  next
    case start: None
    have st: "st = getStart ops ?p" and lt: "getStart ops ?p < sep" "sep \<le> getAfter ops ?p"
      and q: "succ = Suc pred \<or> succ = pred \<and> Suc pred = length segs"
      using pos spec start sep(3) by (auto simp: st_def sep_def valid_spec_def split: option.splits)
    have "st < af \<and> af \<le> AXIS_END ops"
    proof (cases after)
      case (Some a)
      then show ?thesis using start lt st sep by (simp add: af_def sep_def)
    next
      case None
      then have "sep = AXIS_END ops" using start by (simp add: sep_def)
      then show ?thesis using None st fin sa q adj lt pa by (auto simp: af_def)
    qed
    then show ?thesis using st lop q adj pa by auto
  qed
  have run: "Splicer_init ops segs start after =
      Inr \<lparr>sp_pred = pred, sp_succ = succ, b_start = st, b_after = af, opPred = NIL, opSucc = NIL\<rparr>"
  proof -
    have "establishSplitPoint ops segs start after = Inr (pred, succ, st, af)" using est main by auto
    then show ?thesis using main len by (simp add: Splicer_init_def seg_at_def require_def)
  qed
  have "splicer_ok ops segs lo \<lparr>sp_pred = pred, sp_succ = succ, b_start = st, b_after = af, opPred = NIL, opSucc = NIL\<rparr>"
    using main len by (simp add: splicer_ok_def)
  then show ?thesis using run by (auto simp: st_def af_def)
qed

lemma perform_result:
  fixes st :: "('o::linorder) Splicer"
  defines "p \<equiv> (if opPred st = INS_NOP \<or> opPred st = SEAMLESS then sp_pred st + 1 else sp_pred st)"
    and "q \<equiv> (if opSucc st = DROP \<or> opSucc st = TRUNC then sp_succ st + 1 else sp_succ st)"
  assumes "opPred st \<noteq> NIL" "opSucc st \<noteq> NIL" "sp_pred st < length segs" "sp_succ st < length segs" "p \<le> q"
    and "pre = (case opPred st of INS_NOP \<Rightarrow> [emptySeg ops (getAfter ops (segs ! sp_pred st)) (b_start st)]
      | TRUNC \<Rightarrow> [cloneSeg ops (getStart ops (segs ! sp_pred st)) (b_start st) (segs ! sp_pred st)] | _ \<Rightarrow> [])"
    and "post = (case opSucc st of INS_NOP \<Rightarrow> [emptySeg ops (b_after st) (getStart ops (segs ! sp_succ st))]
      | TRUNC \<Rightarrow> [cloneSeg ops (b_after st) (getAfter ops (segs ! sp_succ st)) (segs ! sp_succ st)] | _ \<Rightarrow> [])"
  shows "performSplitSplice ops segs st =
    Inr (take p segs @ pre @ createSeg ops (b_start st) (b_after st) # post @ drop q segs,
         p, p + length pre, p + length pre + 1 + length post)"
proof -
  have pl: "p \<le> length segs" using assms(5) by (auto simp: p_def)
  have ins: "discard_range (p + length (pre @ n # post)) (q + length (pre @ n # post)) (take p segs @ (pre @ n # post) @ drop p segs)
      = take p segs @ pre @ n # post @ drop q segs" for n
  proof -
    have "drop (q + length (pre @ n # post)) (take p segs @ (pre @ n # post) @ drop p segs) = drop q segs"
    proof -
      have e: "q + length (pre @ n # post) = p + (length (pre @ n # post) + (q - p))" using assms(7) by simp
      have "drop p (take p segs @ (pre @ n # post) @ drop p segs) = (pre @ n # post) @ drop p segs" using pl by simp
      then have "drop (q + length (pre @ n # post)) (take p segs @ (pre @ n # post) @ drop p segs)
          = drop (length (pre @ n # post) + (q - p)) ((pre @ n # post) @ drop p segs)"
        unfolding e by (metis add.commute drop_drop)
      also have "\<dots> = drop (q - p) (drop p segs)" by (metis add.commute append_eq_conv_conj drop_drop)
      finally show ?thesis using assms(7) by simp
    qed
    moreover have "take (p + length (pre @ n # post)) (take p segs @ (pre @ n # post) @ drop p segs) = take p segs @ pre @ n # post"
      using pl by simp
    ultimately show ?thesis by (simp add: discard_range_def)
  qed
  show ?thesis
    using assms(3-6) pl ins [of "createSeg ops (b_start st) (b_after st)"] unfolding assms(8,9)
    by (cases "opPred st"; cases "opSucc st")
      (simp_all add: performSplitSplice_def require_def seg_at_def insert_before_def Let_def p_def q_def)
qed

text \<open>The operations selected for the two sides, in terms of the reference.\<close>

definition sides_ok :: "('o::linorder, 's) SegBinding \<Rightarrow> 's list \<Rightarrow> 'o Splicer \<Rightarrow> bool" where
  "sides_ok ops segs st \<longleftrightarrow> sp_pred st \<le> sp_succ st \<and> sp_succ st < length segs
     \<and> (opPred st = DROP \<and> getStart ops (segs ! sp_pred st) = b_start st
        \<or> opPred st = SEAMLESS \<and> getAfter ops (segs ! sp_pred st) = b_start st \<and> sp_pred st < sp_succ st
        \<or> opPred st = TRUNC \<and> getStart ops (segs ! sp_pred st) < b_start st \<and> b_start st < getAfter ops (segs ! sp_pred st))
     \<and> (opSucc st = DROP \<and> getAfter ops (segs ! sp_succ st) = b_after st
        \<or> opSucc st = SEAMLESS \<and> getStart ops (segs ! sp_succ st) = b_after st \<and> sp_pred st < sp_succ st
        \<or> opSucc st = TRUNC \<and> getStart ops (segs ! sp_succ st) < b_after st \<and> b_after st < getAfter ops (segs ! sp_succ st))"

lemma seek_succ_result:
  assumes "seamless ops lo xs hi" "a \<le> hi" "lo < a"
  shows "\<exists>k. seek_succ (getAfter ops) a xs i = Inr (i + k) \<and> k < length xs \<and> getStart ops (xs ! k) < a \<and> a \<le> getAfter ops (xs ! k)"
  using assms
proof (induction xs arbitrary: lo i)
  case (Cons x xs)
  show ?case
  proof (cases "getAfter ops x < a")
    case True
    then obtain k where "seek_succ (getAfter ops) a xs (Suc i) = Inr (Suc i + k)" "k < length xs"
      "getStart ops (xs ! k) < a" "a \<le> getAfter ops (xs ! k)"
      using Cons.IH [of "getAfter ops x" "Suc i"] Cons.prems by auto
    then show ?thesis using True by (intro exI [where x = "Suc k"]) simp
  next
    case False
    then show ?thesis using Cons.prems by (intro exI [where x = 0]) auto
  qed
qed auto

lemma determineSucc_result:
  assumes sl: "seamless ops lo segs (AXIS_END ops)"
    and "sp_pred st < length segs" "sp_succ st < length segs" "sp_pred st \<le> sp_succ st" "b_after st \<le> AXIS_END ops"
    and "b_after st = getStart ops (segs ! sp_succ st) \<and> sp_pred st < sp_succ st \<or> getStart ops (segs ! sp_succ st) < b_after st"
    and pre: "opPred st = DROP \<and> getStart ops (segs ! sp_pred st) = b_start st
        \<or> opPred st = SEAMLESS \<and> getAfter ops (segs ! sp_pred st) = b_start st \<and> sp_pred st < sp_succ st
        \<or> opPred st = TRUNC \<and> getStart ops (segs ! sp_pred st) < b_start st \<and> b_start st < getAfter ops (segs ! sp_pred st)"
  shows "\<exists>st'. determineSucc ops segs st = Inr st' \<and> sides_ok ops segs st' \<and> b_start st' = b_start st \<and> b_after st' = b_after st"
proof (cases "getStart ops (segs ! sp_succ st) < b_after st")
  case True
  let ?q = "sp_succ st"
  have d: "drop ?q segs = segs ! ?q # drop (Suc ?q) segs" using assms(3) by (simp add: Cons_nth_drop_Suc)
  then have "seamless ops (getStart ops (segs ! ?q)) (drop ?q segs) (AXIS_END ops)"
    using seamless_split [OF sl assms(3)] by simp
  from seek_succ_result [OF this assms(5) True, of ?q] obtain k where k: "seek_succ (getAfter ops) (b_after st) (drop ?q segs) ?q = Inr (?q + k)"
    "k < length (drop ?q segs)" "getStart ops (drop ?q segs ! k) < b_after st" "b_after st \<le> getAfter ops (drop ?q segs ! k)" by blast
  have k': "?q + k < length segs" "getStart ops (segs ! (?q + k)) < b_after st" "b_after st \<le> getAfter ops (segs ! (?q + k))"
    using k assms(3) by (simp_all add: less_diff_conv add.commute)
  let ?st = "st\<lparr>sp_succ := ?q + k, opSucc := (if b_after st = getAfter ops (segs ! (?q + k)) then DROP
                            else if b_after st < getAfter ops (segs ! (?q + k)) then TRUNC else opSucc st)\<rparr>"
  have run: "determineSucc ops segs st = Inr ?st"
    using True k(1) k' assms(3) by (simp add: determineSucc_def seg_at_def require_def)
  have "sides_ok ops segs ?st" using k' pre assms(4) by (auto simp: sides_ok_def)
  with run show ?thesis by simp
next
  case False
  then have e: "b_after st = getStart ops (segs ! sp_succ st)" "sp_pred st < sp_succ st" using assms(6) by auto
  then have "determineSucc ops segs st = Inr (st\<lparr>opSucc := SEAMLESS\<rparr>)"
    using assms(3) by (simp add: determineSucc_def seg_at_def)
  moreover have "sides_ok ops segs (st\<lparr>opSucc := SEAMLESS\<rparr>)" using e pre assms(3) by (auto simp: sides_ok_def)
  ultimately show ?thesis by simp
qed

lemma determineRelations_result:
  assumes sl: "seamless ops lo segs (AXIS_END ops)" and ok: "splicer_ok ops segs lo st"
  shows "\<exists>st'. determineRelations ops segs st = Inr st' \<and> sides_ok ops segs st' \<and> b_start st' = b_start st \<and> b_after st' = b_after st"
proof -
  let ?p = "segs ! sp_pred st" and ?s = "segs ! sp_succ st"
  have b: "b_start st < b_after st" "b_after st \<le> AXIS_END ops" "sp_pred st < length segs" "sp_succ st < length segs"
    "getStart ops ?p \<le> b_start st" "b_start st \<le> getAfter ops ?p"
    and q: "sp_succ st = Suc (sp_pred st)
         \<or> sp_succ st = sp_pred st \<and> (Suc (sp_pred st) = length segs \<or> b_start st = getStart ops ?p)"
    using ok by (auto simp: splicer_ok_def)
  have adj: "sp_succ st = Suc (sp_pred st) \<Longrightarrow> getStart ops ?s = getAfter ops ?p"
    using seamless_adjacent [OF sl, of "sp_pred st"] b(4) by simp
  have lst: "Suc (sp_pred st) = length segs \<Longrightarrow> getAfter ops ?p = AXIS_END ops" using seamless_last [OF sl] by simp
  have pa: "getStart ops ?p < getAfter ops ?p" by (rule seamless_split(2) [OF sl b(3)])
  have ps: "sp_pred st \<le> sp_succ st" using q by auto
  have go: "\<exists>st'. determineSucc ops segs (st\<lparr>opPred := v\<rparr>) = Inr st' \<and> sides_ok ops segs st' \<and> b_start st' = b_start st \<and> b_after st' = b_after st"
    if "getAfter ops ?p \<le> b_after st" and "v = DROP \<and> getStart ops ?p = b_start st
        \<or> v = SEAMLESS \<and> getAfter ops ?p = b_start st \<and> sp_pred st < sp_succ st
        \<or> v = TRUNC \<and> getStart ops ?p < b_start st \<and> b_start st < getAfter ops ?p" for v
  proof -
    have "b_after st = getStart ops ?s \<and> sp_pred st < sp_succ st \<or> getStart ops ?s < b_after st"
      using q adj that(1) b by auto
    from determineSucc_result [OF sl _ _ _ _ _, of "st\<lparr>opPred := v\<rparr>"] this show ?thesis using b ps that(2) by simp
  qed
  have dp: "determineRelations ops segs st =
       (if getStart ops ?p < b_start st
          then if getAfter ops ?p < b_start st then determineSucc ops segs (st\<lparr>opPred := INS_NOP\<rparr>)
               else if getAfter ops ?p = b_start st then determineSucc ops segs (st\<lparr>opPred := SEAMLESS\<rparr>)
               else if getAfter ops ?p > b_after st
               then Inr (st\<lparr>opPred := TRUNC, sp_succ := sp_pred st, opSucc := TRUNC\<rparr>)
               else determineSucc ops segs (st\<lparr>opPred := TRUNC\<rparr>)
          else if b_after st < getAfter ops ?p
               then Inr (st\<lparr>opPred := DROP, sp_succ := sp_pred st, opSucc := TRUNC\<rparr>)
               else determineSucc ops segs (st\<lparr>opPred := DROP\<rparr>))"
    using b by (auto simp: determineRelations_def seg_at_def require_def Let_def)
  consider (seam) "getStart ops ?p < b_start st" "getAfter ops ?p = b_start st"
    | (split) "getStart ops ?p < b_start st" "b_start st < getAfter ops ?p" "b_after st < getAfter ops ?p"
    | (trunc) "getStart ops ?p < b_start st" "b_start st < getAfter ops ?p" "getAfter ops ?p \<le> b_after st"
    | (within) "getStart ops ?p = b_start st" "b_after st < getAfter ops ?p"
    | (drop) "getStart ops ?p = b_start st" "getAfter ops ?p \<le> b_after st"
    using b(5,6) by (metis le_less not_less)
  then show ?thesis
  proof cases
    case seam
    then have "sp_pred st < sp_succ st" using q b lst by auto
    then show ?thesis using go [of SEAMLESS] seam b(1) by (simp add: dp)
  next
    case split
    then have "determineRelations ops segs st = Inr (st\<lparr>opPred := TRUNC, sp_succ := sp_pred st, opSucc := TRUNC\<rparr>)"
      by (auto simp: dp)
    moreover have "sides_ok ops segs (st\<lparr>opPred := TRUNC, sp_succ := sp_pred st, opSucc := TRUNC\<rparr>)"
      using split b by (auto simp: sides_ok_def)
    ultimately show ?thesis by simp
  next
    case trunc
    then show ?thesis using go [of TRUNC] by (auto simp: dp)
  next
    case within
    then have "determineRelations ops segs st = Inr (st\<lparr>opPred := DROP, sp_succ := sp_pred st, opSucc := TRUNC\<rparr>)"
      by (auto simp: dp)
    moreover have "sides_ok ops segs (st\<lparr>opPred := DROP, sp_succ := sp_pred st, opSucc := TRUNC\<rparr>)"
      using within b by (auto simp: sides_ok_def)
    ultimately show ?thesis by simp
  next
    case drop
    then show ?thesis using go [of DROP] by (auto simp: dp)
  qed
qed

lemma perform_reference:
  assumes sl: "seamless ops lo segs (AXIS_END ops)" and ok: "sides_ok ops segs st"
  shows "\<exists>s n e. performSplitSplice ops segs st =
    Inr (left_part ops (b_start st) segs @ createSeg ops (b_start st) (b_after st) # right_part ops (b_after st) segs, s, n, e)
    \<and> n = length (left_part ops (b_start st) segs)"
proof -
  let ?p = "sp_pred st" and ?q = "sp_succ st"
  have len: "?p < length segs" "?q < length segs" "?p \<le> ?q" using ok by (auto simp: sides_ok_def)
  define pre where "pre = (case opPred st of INS_NOP \<Rightarrow> [emptySeg ops (getAfter ops (segs ! ?p)) (b_start st)]
      | TRUNC \<Rightarrow> [cloneSeg ops (getStart ops (segs ! ?p)) (b_start st) (segs ! ?p)] | _ \<Rightarrow> [])"
  define post where "post = (case opSucc st of INS_NOP \<Rightarrow> [emptySeg ops (b_after st) (getStart ops (segs ! ?q))]
      | TRUNC \<Rightarrow> [cloneSeg ops (b_after st) (getAfter ops (segs ! ?q)) (segs ! ?q)] | _ \<Rightarrow> [])"
  define p where "p = (if opPred st = INS_NOP \<or> opPred st = SEAMLESS then ?p + 1 else ?p)"
  define q where "q = (if opSucc st = DROP \<or> opSucc st = TRUNC then ?q + 1 else ?q)"
  have nil: "opPred st \<noteq> NIL" "opSucc st \<noteq> NIL" using ok by (auto simp: sides_ok_def)
  have pq: "p \<le> q" using ok len by (auto simp: sides_ok_def p_def q_def)
  have l: "left_part ops (b_start st) segs = take p segs @ pre"
    using ok left_part_at [OF sl len(1)] by (auto simp: sides_ok_def p_def pre_def)
  have r: "right_part ops (b_after st) segs = post @ drop q segs"
    using ok right_part_at [OF sl len(2)] by (auto simp: sides_ok_def q_def post_def)
  have "min (length segs) p = p" using pq len by (auto simp: p_def)
  then show ?thesis
    using perform_result [OF nil len(1,2) pq [unfolded p_def q_def] pre_def post_def]
    unfolding l r p_def [symmetric] q_def [symmetric] by simp
qed

lemma split_splice_reference:
  assumes sl: "seamless ops lo segs (AXIS_END ops)" and spec: "valid_spec lo (AXIS_END ops) start after"
  shows "\<exists>s a i n e. split_splice ops segs start after = Inr (left_part ops s segs @ createSeg ops s a # right_part ops a segs, i, n, e)
    \<and> n = length (left_part ops s segs) \<and> lo \<le> s \<and> s < a \<and> a \<le> AXIS_END ops
    \<and> (\<forall>t. start = Some t \<longrightarrow> s = t) \<and> (\<forall>t. after = Some t \<longrightarrow> a = t)"
proof -
  obtain st where st: "Splicer_init ops segs start after = Inr st" "splicer_ok ops segs lo st"
    "\<forall>s. start = Some s \<longrightarrow> b_start st = s" "\<forall>a. after = Some a \<longrightarrow> b_after st = a"
    using Splicer_init_ok [OF sl spec] by blast
  obtain st' where st': "determineRelations ops segs st = Inr st'" "sides_ok ops segs st'" "b_start st' = b_start st" "b_after st' = b_after st"
    using determineRelations_result [OF sl st(2)] by blast
  obtain s n e where "performSplitSplice ops segs st' =
    Inr (left_part ops (b_start st) segs @ createSeg ops (b_start st) (b_after st) # right_part ops (b_after st) segs, s, n, e)"
    "n = length (left_part ops (b_start st) segs)"
    using perform_reference [OF sl st'(2)] st'(3,4) by auto
  moreover have "lo \<le> b_start st" "b_start st < b_after st" "b_after st \<le> AXIS_END ops" using st(2) by (auto simp: splicer_ok_def)
  ultimately show ?thesis using st st'(1) by (fastforce simp: split_splice_def)
qed

subsection \<open>What a splice does to the axis\<close>

fun seg_find :: "('o::linorder, 's) SegBinding \<Rightarrow> 'o \<Rightarrow> 's list \<Rightarrow> 's option" where
  "seg_find ops t [] = None"
| "seg_find ops t (x # xs) = (if t < getAfter ops x then Some x else seg_find ops t xs)"

locale seg_binding =
  fixes ops :: "('o::linorder, 's) SegBinding"
    and payload :: "'s \<Rightarrow> 'p"
    and lo :: 'o
  assumes create_bounds: "lo \<le> a \<Longrightarrow> a < b \<Longrightarrow> b \<le> AXIS_END ops \<Longrightarrow>
      getStart ops (createSeg ops a b) = a \<and> getAfter ops (createSeg ops a b) = b"
    and clone_bounds: "lo \<le> a \<Longrightarrow> a < b \<Longrightarrow> b \<le> AXIS_END ops \<Longrightarrow>
      getStart ops (cloneSeg ops a b x) = a \<and> getAfter ops (cloneSeg ops a b x) = b"
    and clone_payload: "payload (cloneSeg ops a b x) = payload x"
begin

lemma left_part_seamless:
  "seamless ops l xs hi \<Longrightarrow> lo \<le> l \<Longrightarrow> l \<le> s \<Longrightarrow> s \<le> hi \<Longrightarrow> hi \<le> AXIS_END ops \<Longrightarrow> seamless ops l (left_part ops s xs) s"
proof (induction xs arbitrary: l)
  case (Cons x xs)
  have x: "getStart ops x = l" "l < getAfter ops x" "seamless ops (getAfter ops x) xs hi" using Cons.prems(1) by auto
  show ?case
  proof (cases "getAfter ops x \<le> s")
    case True
    then show ?thesis using Cons.IH [OF x(3)] x Cons.prems by simp
  next
    case False
    then show ?thesis using x Cons.prems clone_bounds [of l s x] by auto
  qed
qed auto

lemma right_part_seamless:
  "seamless ops l xs hi \<Longrightarrow> lo \<le> l \<Longrightarrow> l \<le> a \<Longrightarrow> a \<le> hi \<Longrightarrow> hi \<le> AXIS_END ops \<Longrightarrow> seamless ops a (right_part ops a xs) hi"
proof (induction xs arbitrary: l)
  case (Cons x xs)
  have x: "getStart ops x = l" "l < getAfter ops x" "seamless ops (getAfter ops x) xs hi" using Cons.prems(1) by auto
  show ?case
  proof (cases "getAfter ops x \<le> a")
    case True
    then show ?thesis using Cons.IH [OF x(3)] x Cons.prems by simp
  next
    case False
    have "getAfter ops x \<le> hi" by (rule seamless_le [OF x(3)])
    then show ?thesis using False x Cons.prems clone_bounds [of a "getAfter ops x" x] by auto
  qed
qed auto

lemma splice_seamless:
  assumes "seamless ops lo segs (AXIS_END ops)" "lo \<le> s" "s < a" "a \<le> AXIS_END ops"
  shows "seamless ops lo (left_part ops s segs @ createSeg ops s a # right_part ops a segs) (AXIS_END ops)"
  using left_part_seamless [OF assms(1), of s] right_part_seamless [OF assms(1), of a] create_bounds [of s a] assms
  by (auto simp: seamless_append)

lemma seg_find_append: "seamless ops l xs m \<Longrightarrow> seg_find ops t (xs @ ys) = (if t < m \<and> xs \<noteq> [] then seg_find ops t xs else seg_find ops t ys)"
proof (induction xs arbitrary: l)
  case (Cons x xs)
  have "getAfter ops x \<le> m" using Cons.prems seamless_le by auto
  then show ?case using Cons by (cases xs) auto
qed simp

lemma seg_find_left:
  "seamless ops l xs hi \<Longrightarrow> lo \<le> l \<Longrightarrow> l \<le> t \<Longrightarrow> t < s \<Longrightarrow> s \<le> hi \<Longrightarrow> hi \<le> AXIS_END ops \<Longrightarrow>
   map_option payload (seg_find ops t (left_part ops s xs @ ys)) = map_option payload (seg_find ops t xs)"
proof (induction xs arbitrary: l)
  case (Cons x xs)
  have x: "getStart ops x = l" "l < getAfter ops x" "seamless ops (getAfter ops x) xs hi" using Cons.prems(1) by auto
  show ?case
  proof (cases "getAfter ops x \<le> s")
    case True
    then show ?thesis using Cons.IH [OF x(3)] x Cons.prems by auto
  next
    case False
    then show ?thesis using x Cons.prems clone_bounds [of l s x] clone_payload by auto
  qed
qed auto

lemma seg_find_right:
  "seamless ops l xs hi \<Longrightarrow> lo \<le> l \<Longrightarrow> a \<le> t \<Longrightarrow> l \<le> a \<Longrightarrow> hi \<le> AXIS_END ops \<Longrightarrow>
   map_option payload (seg_find ops t (right_part ops a xs)) = map_option payload (seg_find ops t xs)"
proof (induction xs arbitrary: l)
  case (Cons x xs)
  have x: "getStart ops x = l" "l < getAfter ops x" "seamless ops (getAfter ops x) xs hi" using Cons.prems(1) by auto
  show ?case
  proof (cases "getAfter ops x \<le> a")
    case True
    then show ?thesis using Cons.IH [OF x(3)] x Cons.prems by auto
  next
    case False
    have "getAfter ops x \<le> hi" by (rule seamless_le [OF x(3)])
    then show ?thesis using False x Cons.prems clone_bounds [of a "getAfter ops x" x] clone_payload by auto
  qed
qed simp

lemma splice_find:
  assumes sl: "seamless ops lo segs (AXIS_END ops)" and "lo \<le> s" "s < a" "a \<le> AXIS_END ops" "lo \<le> t"
  shows "map_option payload (seg_find ops t (left_part ops s segs @ createSeg ops s a # right_part ops a segs)) =
    (if s \<le> t \<and> t < a then Some (payload (createSeg ops s a)) else map_option payload (seg_find ops t segs))"
proof -
  have l: "seamless ops lo (left_part ops s segs) s" using left_part_seamless [OF sl] assms by auto
  have c: "getAfter ops (createSeg ops s a) = a" using create_bounds [of s a] assms by simp
  consider (before) "t < s" | (in_new) "s \<le> t" "t < a" | (behind) "a \<le> t" using assms(3) by fastforce
  then show ?thesis
  proof cases
    case before
    then show ?thesis using seg_find_left [OF sl _ assms(5) before] assms by auto
  next
    case in_new
    then show ?thesis using seg_find_append [OF l, of t] c by auto
  next
    case behind
    then have "seg_find ops t (left_part ops s segs @ createSeg ops s a # right_part ops a segs) = seg_find ops t (right_part ops a segs)"
      using seg_find_append [OF l, of t] c assms(3) by auto
    then show ?thesis using behind seg_find_right [OF sl _ behind] assms by auto
  qed
qed

lemma seg_find_covers: "seamless ops l xs hi \<Longrightarrow> l \<le> t \<Longrightarrow> t < hi \<Longrightarrow>
    \<exists>x \<in> set xs. seg_find ops t xs = Some x \<and> getStart ops x \<le> t \<and> t < getAfter ops x"
  by (induction xs arbitrary: l) (auto simp: not_less)

text \<open>The algorithm puts the new segment onto the axis and leaves everything else as it is.\<close>

lemma split_splice_correct:
  assumes "seamless ops lo segs (AXIS_END ops)" "valid_spec lo (AXIS_END ops) start after"
  shows "\<exists>segs' i n e s a. split_splice ops segs start after = Inr (segs', i, n, e) \<and> seamless ops lo segs' (AXIS_END ops)
    \<and> lo \<le> s \<and> s < a \<and> a \<le> AXIS_END ops \<and> (\<forall>t. start = Some t \<longrightarrow> s = t) \<and> (\<forall>t. after = Some t \<longrightarrow> a = t)
    \<and> n < length segs' \<and> segs' ! n = createSeg ops s a
    \<and> (\<forall>t \<ge> lo. map_option payload (seg_find ops t segs') =
         (if s \<le> t \<and> t < a then Some (payload (createSeg ops s a)) else map_option payload (seg_find ops t segs)))"
proof -
  obtain s a i n e where r: "split_splice ops segs start after = Inr (left_part ops s segs @ createSeg ops s a # right_part ops a segs, i, n, e)"
    "n = length (left_part ops s segs)" "lo \<le> s" "s < a" "a \<le> AXIS_END ops"
    "\<forall>t. start = Some t \<longrightarrow> s = t" "\<forall>t. after = Some t \<longrightarrow> a = t"
    using split_splice_reference [OF assms] by blast
  show ?thesis
    using r splice_seamless [OF assms(1) r(3-5)] splice_find [OF assms(1) r(3-5)]
    by (intro exI [where x = "left_part ops s segs @ createSeg ops s a # right_part ops a segs"] exI [where x = i]
        exI [where x = n] exI [where x = e] exI [where x = s] exI [where x = a]) simp
qed

end

end
