(* ===== verification/JobTicket.thy ===== *)
theory JobTicket
  imports ActivityTerm LoadController "HOL-Library.Word"
begin

text \<open>
  The render plan: exit nodes (\<open>steam/engine/exit-node.hpp\<close>, \<open>steam/fixture/node-graph-attachment.hpp\<close>)
  and the job tickets built from them by recursive descent (\<open>steam/engine/job-ticket.hpp\<close> and
  \<open>job-ticket.cpp\<close>). The invocation IDs which a job functor derives from a seed are a parameter
  \<open>build_id\<close>. A hash is a 64 bit word; an invocation ID is the pair of its two 64 bit parts.
\<close>

unbundle bit_operations_syntax

subsection \<open>Exit nodes\<close>

datatype ExitNode = ExitNode
  (en_identity: int) (en_runtime: gavl_time_t) (en_prereq: "ExitNode list") (en_action: "functor_id option")

definition DUMMY_JOB_RUNTIME :: gavl_time_t where
  "DUMMY_JOB_RUNTIME = TIME_SCALE div 50"

definition ExitNode_NIL :: ExitNode where
  "ExitNode_NIL = ExitNode 0 DUMMY_JOB_RUNTIME [] None"

definition en_empty :: "ExitNode \<Rightarrow> bool" where
  "en_empty n \<longleftrightarrow> en_identity n = 0 \<or> en_action n = None"

definition getInvocationFunctor :: "ExitNode \<Rightarrow> functor_id result" where
  "getInvocationFunctor n = (case en_action n of None \<Rightarrow> Inl (Err Assertion ''action_'') | Some f \<Rightarrow> Inr f)"

type_synonym ExitNodes = "ExitNode list"

definition attached_node :: "ExitNodes \<Rightarrow> nat \<Rightarrow> ExitNode" where
  "attached_node nodes idx = (if idx < length nodes then nodes ! idx else ExitNode_NIL)"

definition attachment_empty :: "ExitNodes \<Rightarrow> bool" where
  "attachment_empty nodes \<longleftrightarrow> nodes = []"

subsection \<open>Hash values\<close>

definition hash_combine :: "64 word \<Rightarrow> 64 word \<Rightarrow> 64 word" where
  "hash_combine combinedHash additionalHash =
     (let m = 0xc6a4a7935bd1e995;
          k1 = additionalHash * m;
          k2 = k1 XOR drop_bit 47 k1;
          k3 = k2 * m;
          h1 = combinedHash XOR k3
      in h1 * m + 0xe6546b64)"

type_synonym InvocationInstanceID = "int \<times> int"

definition timeHash :: "gavl_time_t \<Rightarrow> InvocationInstanceID \<Rightarrow> InvocationInstanceID" where
  "timeHash nominal seed = (fst seed, sint (hash_combine (word_of_int (snd seed)) (word_of_int (time_hash nominal))))"

subsection \<open>Job tickets\<close>

datatype JobTicket = JobTicket
  (jt_functor: functor_id) (jt_node: ExitNode) (jt_seed: InvocationInstanceID) (jt_prereq: "JobTicket list")

text \<open>The functor that does nothing has the number 0.\<close>

definition nopFunctor :: functor_id where
  "nopFunctor = 0"

definition JobTicket_NOP :: JobTicket where
  "JobTicket_NOP = JobTicket nopFunctor ExitNode_NIL (0, 0) []"

text \<open>The list of prerequisites is built by pushing each new element to its head.\<close>

fun buildTicket :: "(functor_id \<Rightarrow> int \<Rightarrow> InvocationInstanceID) \<Rightarrow> ExitNode \<Rightarrow> JobTicket result"
and buildPrerequisites :: "(functor_id \<Rightarrow> int \<Rightarrow> InvocationInstanceID) \<Rightarrow> ExitNode list \<Rightarrow> JobTicket list \<Rightarrow> JobTicket list result" where
  "buildTicket build_id (ExitNode ident runtime pre action) =
     bind_result (require (\<not> en_empty (ExitNode ident runtime pre action)) ''not isnil (exitNode)'') (\<lambda>_.
     bind_result (getInvocationFunctor (ExitNode ident runtime pre action)) (\<lambda>func.
     bind_result (buildPrerequisites build_id pre []) (\<lambda>prerequisites.
       Inr (JobTicket func (ExitNode ident runtime pre action) (build_id func ident) prerequisites))))"
| "buildPrerequisites build_id [] head = Inr head"
| "buildPrerequisites build_id (preNode # ns) head =
     bind_result (buildTicket build_id preNode) (\<lambda>t. buildPrerequisites build_id ns (t # head))"

definition ticket_empty :: "JobTicket \<Rightarrow> bool" where
  "ticket_empty t \<longleftrightarrow> en_empty (jt_node t)"

fun ticket_isValid :: "JobTicket \<Rightarrow> bool" where
  "ticket_isValid (JobTicket func node seed pre) \<longleftrightarrow>
     \<not> en_empty node \<and> seed \<noteq> (0, 0) \<and> (\<forall>pq \<in> set pre. ticket_isValid pq)"

definition getPrerequisites :: "JobTicket \<Rightarrow> JobTicket list" where
  "getPrerequisites t = (if ticket_empty t then [] else jt_prereq t)"

definition createJobFor :: "JobTicket \<Rightarrow> gavl_time_t \<Rightarrow> Job result" where
  "createJobFor t nominal =
     (if ticket_empty t then Inr \<lparr>job_functor = nopFunctor, job_nominal = nominal, job_key = (0, 0)\<rparr>
      else bind_result (require (ticket_isValid t) ''isValid()'') (\<lambda>_.
           Inr \<lparr>job_functor = jt_functor t, job_nominal = nominal, job_key = timeHash nominal (jt_seed t)\<rparr>))"

definition JOB_MINIMUM_RUNTIME :: gavl_time_t where
  "JOB_MINIMUM_RUNTIME = TIME_SCALE div 1000"

definition getExpectedRuntime :: "JobTicket \<Rightarrow> gavl_time_t result" where
  "getExpectedRuntime t =
     (if ticket_empty t then Inr JOB_MINIMUM_RUNTIME
      else bind_result (require (ticket_isValid t) ''isValid()'') (\<lambda>_. Inr (en_runtime (jt_node t))))"

definition verifyInstance :: "JobTicket \<Rightarrow> functor_id \<Rightarrow> InvocationInstanceID \<Rightarrow> gavl_time_t \<Rightarrow> bool" where
  "verifyInstance t func key nominal \<longleftrightarrow> jt_functor t = func \<and> key = timeHash nominal (jt_seed t)"

subsection \<open>Tickets mirror the exit nodes\<close>

text \<open>An exit node that can be invoked, together with all its prerequisites.\<close>

fun en_complete :: "ExitNode \<Rightarrow> bool" where
  "en_complete (ExitNode ident runtime pre action) \<longleftrightarrow> ident \<noteq> 0 \<and> action \<noteq> None \<and> (\<forall>n \<in> set pre. en_complete n)"

text \<open>The ticket that belongs to a complete exit node: prerequisites in reversed order.\<close>

fun ticket_for :: "(functor_id \<Rightarrow> int \<Rightarrow> InvocationInstanceID) \<Rightarrow> ExitNode \<Rightarrow> JobTicket" where
  "ticket_for build_id (ExitNode ident runtime pre action) =
     JobTicket (the action) (ExitNode ident runtime pre action) (build_id (the action) ident) (rev (map (ticket_for build_id) pre))"

lemma buildTicket_complete:
  "en_complete node \<Longrightarrow> buildTicket build_id node = Inr (ticket_for build_id node)"
  "\<forall>n \<in> set nodes. en_complete n \<Longrightarrow> buildPrerequisites build_id nodes head = Inr (rev (map (ticket_for build_id) nodes) @ head)"
  by (induction build_id node and build_id nodes head rule: buildTicket_buildPrerequisites.induct)
    (auto simp: en_empty_def require_def getInvocationFunctor_def)

lemma buildTicket_error:
  "\<not> en_complete node \<Longrightarrow> buildTicket build_id node = Inl (Err Assertion ''not isnil (exitNode)'')"
  "\<not> (\<forall>n \<in> set nodes. en_complete n) \<Longrightarrow> buildPrerequisites build_id nodes head = Inl (Err Assertion ''not isnil (exitNode)'')"
proof (induction build_id node and build_id nodes head rule: buildTicket_buildPrerequisites.induct)
  case (1 build_id ident runtime pre action)
  show ?case
  proof (cases "en_empty (ExitNode ident runtime pre action)")
    case True
    then show ?thesis by (simp add: require_def)
  next
    case False
    then have "\<not> (\<forall>n \<in> set pre. en_complete n)" using 1 by (auto simp: en_empty_def)
    then have "buildPrerequisites build_id pre [] = Inl (Err Assertion ''not isnil (exitNode)'')" using 1 False
      by (auto simp: en_empty_def getInvocationFunctor_def require_def)
    then show ?thesis using False by (auto simp: en_empty_def getInvocationFunctor_def require_def)
  qed
next
  case (3 build_id preNode ns head)
  then show ?case by (cases "en_complete preNode") (auto simp: buildTicket_complete)
qed simp

lemma ticket_for_valid:
  assumes "\<And>f i. i \<noteq> 0 \<Longrightarrow> build_id f i \<noteq> (0, 0)"
  shows "en_complete node \<Longrightarrow> ticket_isValid (ticket_for build_id node)"
  by (induction node rule: en_complete.induct) (auto simp: en_empty_def assms)

lemma ticket_for_node [simp]: "jt_node (ticket_for build_id n) = n"
  by (cases n) simp

lemma ticket_for_empty: "en_complete n \<Longrightarrow> \<not> ticket_empty (ticket_for build_id n)"
  by (cases n) (auto simp: ticket_empty_def en_empty_def)

subsection \<open>Properties\<close>

text \<open>a ticket can be built from an exit node exactly if the node and all its prerequisites have
  an identity and a functor. It is then valid and yields a job for any time that invokes the functor
  of the node under a key that verifies for this time, with the runtime bound of the node; its
  prerequisites are the tickets of the prerequisite nodes, the last one first.\<close>

theorem ticket_from_node:
  assumes "\<And>f i. i \<noteq> 0 \<Longrightarrow> build_id f i \<noteq> (0, 0)"
  shows "case buildTicket build_id node of
      Inl e \<Rightarrow> \<not> en_complete node
    | Inr t \<Rightarrow> en_complete node \<and> ticket_isValid t \<and> getExpectedRuntime t = Inr (en_runtime node)
        \<and> map jt_node (getPrerequisites t) = rev (en_prereq node)
        \<and> (\<forall>time. \<exists>job. createJobFor t time = Inr job \<and> Some (job_functor job) = en_action node
             \<and> job_nominal job = time \<and> verifyInstance t (job_functor job) (job_key job) time)"
proof (cases "en_complete node")
  case True
  have v: "ticket_isValid (ticket_for build_id node)" by (rule ticket_for_valid [OF assms True])
  have e: "\<not> ticket_empty (ticket_for build_id node)" by (rule ticket_for_empty [OF True])
  obtain ident runtime pre f where n: "node = ExitNode ident runtime pre (Some f)" using True by (cases node) auto
  show ?thesis using v e True
    by (simp add: buildTicket_complete getExpectedRuntime_def createJobFor_def require_def getPrerequisites_def
        verifyInstance_def del: ticket_isValid.simps en_complete.simps) (simp add: n rev_map comp_def)
next
  case False
  then show ?thesis by (simp add: buildTicket_error)
qed

theorem ticket_from_node_witness:
  "\<exists>t. buildTicket (\<lambda>f i. (int f, i)) (ExitNode 7 20000 [ExitNode 8 10000 [] (Some 2), ExitNode 9 5000 [] (Some 3)] (Some 1)) = Inr t
    \<and> map (en_identity \<circ> jt_node) (getPrerequisites t) = [9, 8] \<and> getExpectedRuntime t = Inr 20000"
proof -
  let ?n = "ExitNode 7 20000 [ExitNode 8 10000 [] (Some 2), ExitNode 9 5000 [] (Some 3)] (Some 1)"
  let ?b = "\<lambda>f i. (int f, i)"
  have t: "buildTicket ?b ?n = Inr (ticket_for ?b ?n)" by (intro buildTicket_complete) simp
  have "case buildTicket ?b ?n of
      Inl e \<Rightarrow> \<not> en_complete ?n
    | Inr t \<Rightarrow> en_complete ?n \<and> ticket_isValid t \<and> getExpectedRuntime t = Inr (en_runtime ?n)
        \<and> map jt_node (getPrerequisites t) = rev (en_prereq ?n)
        \<and> (\<forall>time. \<exists>job. createJobFor t time = Inr job \<and> Some (job_functor job) = en_action ?n
             \<and> job_nominal job = time \<and> verifyInstance t (job_functor job) (job_key job) time)"
    by (rule ticket_from_node) simp
  then have "map jt_node (getPrerequisites (ticket_for ?b ?n)) = rev (en_prereq ?n)"
    "getExpectedRuntime (ticket_for ?b ?n) = Inr 20000" unfolding t sum.case by simp_all
  then have "map en_identity (map jt_node (getPrerequisites (ticket_for ?b ?n))) = [9, 8]" by simp
  then show ?thesis using t \<open>getExpectedRuntime (ticket_for ?b ?n) = Inr 20000\<close> by simp
qed

end
