(* ===== verification/Segmentation.thy ===== *)
theory Segmentation
  imports SplitSplice JobTicket
begin

text \<open>
  The fixture of a timeline, partitioned into segments of constant structure:
  \<open>steam/fixture/segment.hpp\<close>, \<open>segmentation.hpp\<close> and \<open>segmentation.cpp\<close>. The functors for the
  split-splice algorithm are those of \<open>Segmentation::splitSplice\<close>; they interpret the locale
  \<open>seg_binding\<close>. The lemmas show that the segments always cover the whole time axis, and that
  a time is served by the segment spliced in last.
\<close>

subsection \<open>Segments\<close>

definition TimeSpan_ALL :: TimeSpan where
  "TimeSpan_ALL = TimeSpan_dur Time_MIN Duration_MAX"

record Segment =
  seg_span :: TimeSpan
  seg_portTable :: "JobTicket list"
  seg_exitNode :: ExitNodes

definition Segment_new :: "TimeSpan \<Rightarrow> ExitNodes \<Rightarrow> Segment" where
  "Segment_new covered modelLink = \<lparr>seg_span = covered, seg_portTable = [], seg_exitNode = modelLink\<rparr>"

definition Segment_clone :: "Segment \<Rightarrow> TimeSpan \<Rightarrow> Segment" where
  "Segment_clone original changed = \<lparr>seg_span = changed, seg_portTable = [], seg_exitNode = seg_exitNode original\<rparr>"

definition seg_start :: "Segment \<Rightarrow> gavl_time_t" where
  "seg_start s = span_start (seg_span s)"

definition seg_after :: "Segment \<Rightarrow> gavl_time_t" where
  "seg_after s = span_end (seg_span s)"

definition seg_empty :: "Segment \<Rightarrow> bool" where
  "seg_empty s \<longleftrightarrow> attachment_empty (seg_exitNode s)"

primrec fill_ports :: "(functor_id \<Rightarrow> int \<Rightarrow> InvocationInstanceID) \<Rightarrow> nat \<Rightarrow> nat \<Rightarrow> Segment \<Rightarrow> Segment result" where
  "fill_ports build_id portNr 0 s = Inr s"
| "fill_ports build_id portNr (Suc n) s =
     bind_result (if en_empty (attached_node (seg_exitNode s) portNr) then Inr JobTicket_NOP
                  else buildTicket build_id (attached_node (seg_exitNode s) portNr))
       (\<lambda>t. fill_ports build_id portNr n (s\<lparr>seg_portTable := seg_portTable s @ [t]\<rparr>))"

definition generateTickets_onDemand ::
  "(functor_id \<Rightarrow> int \<Rightarrow> InvocationInstanceID) \<Rightarrow> nat \<Rightarrow> Segment \<Rightarrow> Segment result" where
  "generateTickets_onDemand build_id portNr s =
     fill_ports build_id portNr (Suc portNr - length (seg_portTable s)) s"

definition jobTicket ::
  "(functor_id \<Rightarrow> int \<Rightarrow> InvocationInstanceID) \<Rightarrow> nat \<Rightarrow> Segment \<Rightarrow> (JobTicket \<times> Segment) result" where
  "jobTicket build_id portNr s =
     bind_result (if portNr \<ge> length (seg_portTable s) then generateTickets_onDemand build_id portNr s else Inr s) (\<lambda>s1.
     bind_result (require (portNr < length (seg_portTable s1)) ''portNr < portTable_.size()'') (\<lambda>_.
       Inr (seg_portTable s1 ! portNr, s1)))"

subsection \<open>The segmentation\<close>

record Segmentation =
  segments :: "Segment list"

definition Segmentation_init :: Segmentation where
  "Segmentation_init = \<lparr>segments = [Segment_new TimeSpan_ALL []]\<rparr>"

definition segmentation_size :: "Segmentation \<Rightarrow> nat" where
  "segmentation_size sgm = length (segments sgm)"

fun covering_segment :: "gavl_time_t \<Rightarrow> Segment list \<Rightarrow> Segment result" where
  "covering_segment time [] = Inl (Err State ''Fixture datastructure corrupted: Time not covered'')"
| "covering_segment time (seg # segs) = (if seg_after seg > time then Inr seg else covering_segment time segs)"

definition segment_at :: "Segmentation \<Rightarrow> gavl_time_t \<Rightarrow> Segment result" where
  "segment_at sgm time = covering_segment time (segments sgm)"

definition segment_binding :: "ExitNodes \<Rightarrow> (gavl_time_t, Segment) SegBinding" where
  "segment_binding modelLink =
     \<lparr>getStart = seg_start, getAfter = seg_after,
      createSeg = (\<lambda>start after. Segment_new (TimeSpan_points start after) modelLink),
      emptySeg = (\<lambda>start after. Segment_new (TimeSpan_points start after) []),
      cloneSeg = (\<lambda>start after src. Segment_clone src (TimeSpan_points start after)),
      AXIS_END = Time_MAX\<rparr>"

definition splitSplice ::
  "gavl_time_t option \<Rightarrow> gavl_time_t option \<Rightarrow> ExitNodes \<Rightarrow> Segmentation \<Rightarrow> (Segment \<times> Segmentation) result" where
  "splitSplice start after modelLink sgm =
     bind_result (require (start = None \<or> after = None \<or> start \<noteq> after) ''!start or !after or start != after'') (\<lambda>_.
     bind_result (split_splice (segment_binding modelLink) (segments sgm) start after) (\<lambda>(segs, s, n, e).
       Inr (segs ! n, sgm\<lparr>segments := segs\<rparr>)))"

definition adaptSpecification :: "(ExitNodes \<Rightarrow> ExitNodes) \<Rightarrow> Segmentation \<Rightarrow> Segmentation" where
  "adaptSpecification rewrite sgm =
     sgm\<lparr>segments := map (\<lambda>seg. seg\<lparr>seg_exitNode := rewrite (seg_exitNode seg)\<rparr>) (segments sgm)\<rparr>"

subsection \<open>Cover of the time axis\<close>

lemma segment_span_bounds:
  assumes "Time_MIN \<le> a" "a < b" "b \<le> Time_MAX"
  shows "span_start (TimeSpan_points a b) = a" "span_end (TimeSpan_points a b) = b"
proof -
  have e: "TimeSpan_points a b = \<lparr>span_start = a, span_dur = b - a\<rparr>"
    using assms by (intro TimeSpan_points_ordered) (auto simp: time_limits)
  show "span_start (TimeSpan_points a b) = a" by (simp add: e)
  show "span_end (TimeSpan_points a b) = b"
    unfolding e using assms span_end_eq [of "\<lparr>span_start = a, span_dur = b - a\<rparr>"]
    by (simp add: is_Duration_def time_limits)
qed

interpretation seg: seg_binding "segment_binding modelLink" seg_exitNode Time_MIN for modelLink
  by standard (auto simp: segment_binding_def Segment_new_def Segment_clone_def seg_start_def seg_after_def segment_span_bounds)

abbreviation covers_axis :: "Segmentation \<Rightarrow> bool" where
  "covers_axis sgm \<equiv> seamless (segment_binding []) Time_MIN (segments sgm) Time_MAX"

lemma seamless_binding: "seamless (segment_binding l) lo xs hi = seamless (segment_binding l') lo xs hi"
  by (induction xs arbitrary: lo) (auto simp: segment_binding_def)

lemma covers_axis_init: "covers_axis Segmentation_init"
  by (simp add: Segmentation_init_def Segment_new_def TimeSpan_ALL_def TimeSpan_dur_def segment_binding_def seg_start_def
      seg_after_def span_end_def Time_of_var_def TimeVar_plus_def time_limits i64_id)

lemma covers_axis_adapt: "covers_axis sgm \<Longrightarrow> covers_axis (adaptSpecification f sgm)"
proof -
  have "seamless (segment_binding []) lo (map (\<lambda>seg. seg\<lparr>seg_exitNode := f (seg_exitNode seg)\<rparr>) xs) hi
      = seamless (segment_binding []) lo xs hi" for lo xs hi
    by (induction xs arbitrary: lo) (auto simp: segment_binding_def seg_start_def seg_after_def)
  then show "covers_axis sgm \<Longrightarrow> covers_axis (adaptSpecification f sgm)" by (simp add: adaptSpecification_def)
qed

lemma covering_segment_find:
  "covering_segment t xs = (case seg_find (segment_binding l) t xs of
     None \<Rightarrow> Inl (Err State ''Fixture datastructure corrupted: Time not covered'') | Some s \<Rightarrow> Inr s)"
  by (induction xs) (auto simp: segment_binding_def)

text \<open>The exit nodes that serve a time.\<close>

definition nodes_at :: "Segmentation \<Rightarrow> gavl_time_t \<Rightarrow> ExitNodes result" where
  "nodes_at sgm time = bind_result (segment_at sgm time) (\<lambda>s. Inr (seg_exitNode s))"

lemma nodes_at_find:
  "nodes_at sgm t = (case map_option seg_exitNode (seg_find (segment_binding l) t (segments sgm)) of
     None \<Rightarrow> Inl (Err State ''Fixture datastructure corrupted: Time not covered'') | Some s \<Rightarrow> Inr s)"
  by (auto simp: nodes_at_def segment_at_def covering_segment_find [of _ _ l] split: option.splits)

lemma segment_at_covers:
  assumes "covers_axis sgm" "Time_MIN \<le> t" "t < Time_MAX"
  shows "\<exists>s \<in> set (segments sgm). segment_at sgm t = Inr s \<and> seg_start s \<le> t \<and> t < seg_after s"
  using seg.seg_find_covers [OF assms]
  by (auto simp: segment_at_def covering_segment_find [of _ _ "[]"]) (auto simp: segment_binding_def)

lemma splitSplice_result:
  assumes "covers_axis sgm" "valid_spec Time_MIN Time_MAX start after"
  shows "\<exists>new sgm' s a. splitSplice start after link sgm = Inr (new, sgm') \<and> covers_axis sgm'
    \<and> new \<in> set (segments sgm') \<and> seg_start new = s \<and> seg_after new = a \<and> seg_exitNode new = link
    \<and> (\<forall>t. start = Some t \<longrightarrow> s = t) \<and> (\<forall>t. after = Some t \<longrightarrow> a = t)
    \<and> (\<forall>t \<ge> Time_MIN. nodes_at sgm' t = (if s \<le> t \<and> t < a then Inr link else nodes_at sgm t))"
proof -
  have ax: "AXIS_END (segment_binding link) = Time_MAX" by (simp add: segment_binding_def)
  have "seamless (segment_binding link) Time_MIN (segments sgm) Time_MAX" using assms(1) seamless_binding by blast
  from seg.split_splice_correct [of link "segments sgm" start after, unfolded ax, OF this assms(2)]
  obtain segs i n e s a where r: "split_splice (segment_binding link) (segments sgm) start after = Inr (segs, i, n, e)"
    "seamless (segment_binding link) Time_MIN segs Time_MAX" "Time_MIN \<le> s" "s < a" "a \<le> Time_MAX"
    "\<forall>t. start = Some t \<longrightarrow> s = t" "\<forall>t. after = Some t \<longrightarrow> a = t"
    "n < length segs" "segs ! n = createSeg (segment_binding link) s a"
    "\<forall>t \<ge> Time_MIN. map_option seg_exitNode (seg_find (segment_binding link) t segs) =
         (if s \<le> t \<and> t < a then Some (seg_exitNode (createSeg (segment_binding link) s a))
          else map_option seg_exitNode (seg_find (segment_binding link) t (segments sgm)))" by blast
  have req: "start = None \<or> after = None \<or> start \<noteq> after"
    using assms(2) by (auto simp: valid_spec_def)
  let ?sgm = "sgm\<lparr>segments := segs\<rparr>"
  have run: "splitSplice start after link sgm = Inr (segs ! n, ?sgm)" using r(1) req by (simp add: splitSplice_def require_def)
  have c: "createSeg (segment_binding link) s a = Segment_new (TimeSpan_points s a) link" by (simp add: segment_binding_def)
  have b: "seg_start (segs ! n) = s" "seg_after (segs ! n) = a" "seg_exitNode (segs ! n) = link"
    using r(9) segment_span_bounds [OF r(3-5)] unfolding c by (simp_all add: Segment_new_def seg_start_def seg_after_def)
  have "covers_axis ?sgm" using r(2) seamless_binding [of link Time_MIN segs Time_MAX "[]"] by simp
  moreover have "nodes_at ?sgm t = (if s \<le> t \<and> t < a then Inr link else nodes_at sgm t)" if "t \<ge> Time_MIN" for t
    using r(10) that b(3) r(9) by (simp add: nodes_at_find [of _ _ link])
  moreover have "segs ! n \<in> set segs" using r(8) by simp
  ultimately show ?thesis using run b r(6,7)
    by (intro exI [where x = "segs ! n"] exI [where x = ?sgm] exI [where x = s] exI [where x = a]) simp
qed

subsection \<open>Sequences of splices\<close>

primrec splice_all :: "(gavl_time_t \<times> gavl_time_t \<times> ExitNodes) list \<Rightarrow> Segmentation \<Rightarrow> Segmentation result" where
  "splice_all [] sgm = Inr sgm"
| "splice_all (x # xs) sgm =
     bind_result (splitSplice (Some (fst x)) (Some (fst (snd x))) (snd (snd x)) sgm) (\<lambda>r. splice_all xs (snd r))"

primrec latest_cover :: "(gavl_time_t \<times> gavl_time_t \<times> ExitNodes) list \<Rightarrow> gavl_time_t \<Rightarrow> ExitNodes \<Rightarrow> ExitNodes" where
  "latest_cover [] t nodes = nodes"
| "latest_cover (x # xs) t nodes = latest_cover xs t (if fst x \<le> t \<and> t < fst (snd x) then snd (snd x) else nodes)"

lemma splice_all_result:
  assumes "covers_axis sgm" "\<forall>(s, a, l) \<in> set xs. Time_MIN \<le> s \<and> s < a \<and> a \<le> Time_MAX"
  shows "\<exists>sgm'. splice_all xs sgm = Inr sgm' \<and> covers_axis sgm'
    \<and> (\<forall>t nodes. Time_MIN \<le> t \<and> nodes_at sgm t = Inr nodes \<longrightarrow> nodes_at sgm' t = Inr (latest_cover xs t nodes))"
  using assms
proof (induction xs arbitrary: sgm)
  case (Cons x xs)
  obtain s a l where x: "x = (s, a, l)" by (cases x)
  have v: "valid_spec Time_MIN Time_MAX (Some s) (Some a)" using Cons.prems(2) by (auto simp: valid_spec_def x)
  obtain new sgm1 where r: "splitSplice (Some s) (Some a) l sgm = Inr (new, sgm1)" "covers_axis sgm1"
    "\<forall>t \<ge> Time_MIN. nodes_at sgm1 t = (if s \<le> t \<and> t < a then Inr l else nodes_at sgm t)"
    using splitSplice_result [OF Cons.prems(1) v, of l] by blast
  obtain sgm' where i: "splice_all xs sgm1 = Inr sgm'" "covers_axis sgm'"
    "\<forall>t nodes. Time_MIN \<le> t \<and> nodes_at sgm1 t = Inr nodes \<longrightarrow> nodes_at sgm' t = Inr (latest_cover xs t nodes)"
    using Cons.IH [OF r(2)] Cons.prems(2) by auto
  show ?case using r i by (intro exI [where x = sgm']) (auto simp: x)
qed simp

subsection \<open>Irregular cases\<close>

text \<open>
  A specification with start and end swapped is reoriented, but the predecessor is searched for
  with the larger of the two points; if another segment starts in between, an assertion fails.
\<close>

definition three_segments :: Segmentation where
  "three_segments = \<lparr>segments = [Segment_new \<lparr>span_start = Time_MIN, span_dur = Time_MAX + 5\<rparr> [],
     Segment_new \<lparr>span_start = 5, span_dur = 5\<rparr> [], Segment_new \<lparr>span_start = 10, span_dur = Time_MAX - 10\<rparr> []]\<rparr>"

lemma three_segments_bounds:
  "map seg_start (segments three_segments) = [Time_MIN, 5, 10]" "map seg_after (segments three_segments) = [5, 10, Time_MAX]"
  by (simp_all add: three_segments_def Segment_new_def seg_start_def seg_after_def span_end_def Time_of_var_def TimeVar_plus_def
      time_limits i64_id)

lemma three_segments_cover: "covers_axis three_segments"
  using three_segments_bounds
  by (simp add: three_segments_def segment_binding_def) (simp add: time_limits)

lemma flipped_spec_fails:
  "splitSplice (Some 12) (Some 3) [] three_segments = Inl (Err Assertion ''getStart(pred_) <= b_.start'')"
proof -
  have b: "seg_start (segments three_segments ! 2) = 10"
    "map seg_start (segments three_segments) = [Time_MIN, 5, 10]" using three_segments_bounds(1) by (simp_all add: three_segments_def)
  have l: "length (segments three_segments) = 3" by (simp add: three_segments_def)
  have n: "length (takeWhile (\<lambda>x. seg_start x < 12) (segments three_segments)) = 3"
    using three_segments_bounds(1) by (simp add: three_segments_def time_limits)
  have f: "find_split seg_start 12 (segments three_segments) 0 3 = (2, 3)" by (simp add: find_split_eq Let_def n)
  show ?thesis
    by (simp add: splitSplice_def require_def split_splice_def Splicer_init_def establishSplitPoint_def Let_def
        segment_binding_def f l seg_at_def b(1))
qed

text \<open>
  Filling the port table on demand uses the requested port number for every missing slot: when a
  higher port is requested first, the lower ports get its tickets.
\<close>

lemma lower_port_gets_wrong_ticket:
  assumes "en_complete n0" "en_complete n1"
  shows "\<exists>s'. jobTicket build_id 1 (Segment_new span [n0, n1]) = Inr (ticket_for build_id n1, s')
    \<and> jobTicket build_id 0 s' = Inr (ticket_for build_id n1, s')"
proof -
  have "\<not> en_empty n1" using assms(2) by (cases n1) (auto simp: en_empty_def)
  then show ?thesis
    using buildTicket_complete(1) [OF assms(2), of build_id]
    by (simp add: jobTicket_def generateTickets_onDemand_def Segment_new_def attached_node_def require_def numeral_2_eq_2)
qed

subsection \<open>Properties\<close>

text \<open>C27: splicing a new segment into a segmentation succeeds for every regular specification, also
  with start or end left out, and puts the new segment onto the given points; every other time
  point is served as before, and the segments again cover the time axis without gap or overlap.\<close>

theorem splice_puts_segment:
  assumes "covers_axis sgm" "valid_spec Time_MIN Time_MAX start after"
  shows "\<exists>new sgm' s a. splitSplice start after link sgm = Inr (new, sgm') \<and> covers_axis sgm'
    \<and> new \<in> set (segments sgm') \<and> seg_start new = s \<and> seg_after new = a \<and> seg_exitNode new = link
    \<and> (\<forall>t. start = Some t \<longrightarrow> s = t) \<and> (\<forall>t. after = Some t \<longrightarrow> a = t)
    \<and> (\<forall>t \<ge> Time_MIN. nodes_at sgm' t = (if s \<le> t \<and> t < a then Inr link else nodes_at sgm t))"
  by (rule splitSplice_result [OF assms])

theorem splice_puts_segment_witness:
  "\<exists>new sgm'. splitSplice (Some 3) None [ExitNode_NIL] three_segments = Inr (new, sgm')
    \<and> covers_axis sgm' \<and> seg_start new = 3 \<and> nodes_at sgm' 3 = Inr [ExitNode_NIL]"
proof -
  have v: "valid_spec Time_MIN Time_MAX (Some 3) None" by (simp add: valid_spec_def time_limits)
  obtain new sgm' s a where "splitSplice (Some 3) None [ExitNode_NIL] three_segments = Inr (new, sgm')" "covers_axis sgm'"
    "seg_start new = s" "seg_after new = a" "new \<in> set (segments sgm')" "s = 3"
    "\<forall>t \<ge> Time_MIN. nodes_at sgm' t = (if s \<le> t \<and> t < a then Inr [ExitNode_NIL] else nodes_at three_segments t)"
    using splice_puts_segment [OF three_segments_cover v, of "[ExitNode_NIL]"] by auto
  then have r: "splitSplice (Some 3) None [ExitNode_NIL] three_segments = Inr (new, sgm')" "covers_axis sgm'"
    "seg_start new = 3" "seg_after new = a" "new \<in> set (segments sgm')"
    "\<forall>t \<ge> Time_MIN. nodes_at sgm' t = (if 3 \<le> t \<and> t < a then Inr [ExitNode_NIL] else nodes_at three_segments t)" by simp_all
  obtain i where "i < length (segments sgm')" "segments sgm' ! i = new" using r(5) by (auto simp: in_set_conv_nth)
  then have "3 < a" using seamless_split(2) [OF r(2)] r(3,4) by (fastforce simp: segment_binding_def)
  then have "nodes_at sgm' 3 = Inr [ExitNode_NIL]" using r(6) by (simp add: time_limits)
  then show ?thesis using r by blast
qed

text \<open>after any sequence of splices into a fresh segmentation every time of the axis is covered,
  and served by the exit nodes of the latest splice that covers it.\<close>

theorem latest_splice_serves:
  assumes "\<forall>(s, a, l) \<in> set xs. Time_MIN \<le> s \<and> s < a \<and> a \<le> Time_MAX" "Time_MIN \<le> t" "t < Time_MAX"
  shows "\<exists>sgm'. splice_all xs Segmentation_init = Inr sgm' \<and> covers_axis sgm' \<and> nodes_at sgm' t = Inr (latest_cover xs t [])"
proof -
  obtain s where "segment_at Segmentation_init t = Inr s" "s \<in> set (segments Segmentation_init)"
    using segment_at_covers [OF covers_axis_init assms(2,3)] by blast
  then have "nodes_at Segmentation_init t = Inr []"
    by (simp add: nodes_at_def) (simp add: Segmentation_init_def Segment_new_def)
  then show ?thesis using splice_all_result [OF covers_axis_init assms(1)] assms(2) by blast
qed

theorem latest_splice_serves_witness:
  "\<exists>sgm'. splice_all [(0, 100, [ExitNode_NIL]), (50, 70, [])] Segmentation_init = Inr sgm' \<and> nodes_at sgm' 60 = Inr []
    \<and> nodes_at sgm' 80 = Inr [ExitNode_NIL]"
proof -
  have c: "\<forall>(s, a, l) \<in> set [(0, 100, [ExitNode_NIL]), (50, 70, [])]. Time_MIN \<le> s \<and> s < a \<and> a \<le> Time_MAX"
    by (simp add: time_limits)
  show ?thesis
    using latest_splice_serves [OF c, of 60] latest_splice_serves [OF c, of 80] by (auto simp: time_limits)
qed

text \<open>requesting the ticket for the next port of a segment yields the ticket of the exit node
  attached there, or the ticket that does nothing if there is none; once created, the ticket for
  a port stays the same.\<close>

theorem job_ticket_for_port:
  assumes "portNr = length (seg_portTable s)" "\<forall>n \<in> set (seg_exitNode s). en_empty n \<or> en_complete n"
  shows "\<exists>t s'. jobTicket build_id portNr s = Inr (t, s')
    \<and> t = (if en_empty (attached_node (seg_exitNode s) portNr) then JobTicket_NOP
           else ticket_for build_id (attached_node (seg_exitNode s) portNr))
    \<and> seg_portTable s' = seg_portTable s @ [t] \<and> jobTicket build_id portNr s' = Inr (t, s')
    \<and> (\<forall>p < portNr. jobTicket build_id p s' = Inr (seg_portTable s ! p, s'))"
proof -
  let ?n = "attached_node (seg_exitNode s) portNr"
  have n: "en_empty ?n \<or> en_complete ?n" using assms(2) by (auto simp: attached_node_def en_empty_def ExitNode_NIL_def)
  define t where "t = (if en_empty ?n then JobTicket_NOP else ticket_for build_id ?n)"
  have e: "(if en_empty ?n then Inr JobTicket_NOP else buildTicket build_id ?n) = Inr t"
    using n buildTicket_complete(1) by (auto simp: t_def)
  have "Suc portNr - length (seg_portTable s) = Suc 0" using assms(1) by simp
  then have g: "generateTickets_onDemand build_id portNr s = Inr (s\<lparr>seg_portTable := seg_portTable s @ [t]\<rparr>)"
    by (simp only: generateTickets_onDemand_def fill_ports.simps e bind_result_simps)
  show ?thesis
    by (intro exI [where x = t] exI [where x = "s\<lparr>seg_portTable := seg_portTable s @ [t]\<rparr>"])
      (use g assms(1) in \<open>auto simp: jobTicket_def require_def t_def nth_append\<close>)
qed

theorem job_ticket_for_port_witness:
  "\<exists>t s'. jobTicket (\<lambda>f i. (int f, i)) 0 (Segment_new TimeSpan_ALL [ExitNode 7 20000 [] (Some 1)]) = Inr (t, s') \<and> jt_functor t = 1"
proof -
  let ?s = "Segment_new TimeSpan_ALL [ExitNode 7 20000 [] (Some 1)]"
  have c: "0 = length (seg_portTable ?s)" "\<forall>n \<in> set (seg_exitNode ?s). en_empty n \<or> en_complete n"
    by (simp_all add: Segment_new_def)
  show ?thesis using job_ticket_for_port [OF c, of "\<lambda>f i. (int f, i)"]
    by (auto simp: Segment_new_def attached_node_def en_empty_def)
qed

end
