(* ===== verification/IterExplorer.thy ===== *)
theory IterExplorer
  imports Prelude
begin

text \<open>
  Iterator pipelines of \<open>lib/iter-explorer.hpp\<close> with their adapters from \<open>lib/iter-adapter.hpp\<close>
  and \<open>lib/iter-stack.hpp\<close>. A state core is a record of its three functions; the result of
  \<open>yield\<close> holds the new state too, since layers keep caches behind a const interface. An
  increment need not return, as some layers search for the next result. Functors bound into a
  layer work on the source iterator, as the code stores them after \<open>adaptFunctor\<close>.
\<close>

subsection \<open>State cores and iterators\<close>

record ('s, 'a) StateCore =
  checkPoint :: "'s \<Rightarrow> bool"
  yield :: "'s \<Rightarrow> ('a \<times> 's) result"
  iterNext :: "'s \<Rightarrow> 's partial_result"

type_synonym ('s, 'r) src_functor = "'s \<Rightarrow> ('r \<times> 's) result"

definition ITER_EXHAUST :: lumiera_error where
  "ITER_EXHAUST = Err Invalid ''Can't iterate further''"

definition throw_if_empty :: "('s, 'a) StateCore \<Rightarrow> 's \<Rightarrow> unit result" where
  "throw_if_empty c s = (if checkPoint c s then Inr () else Inl ITER_EXHAUST)"

definition CheckedCore :: "('s, 'a) StateCore \<Rightarrow> ('s, 'a) StateCore" where
  "CheckedCore c = \<lparr>checkPoint = checkPoint c,
     yield = (\<lambda>s. bind_result (throw_if_empty c s) (\<lambda>_. yield c s)),
     iterNext = (\<lambda>s. bind_partial (Some (throw_if_empty c s)) (\<lambda>_. iterNext c s))\<rparr>"

text \<open>\<open>RangeIter\<close>, \<open>ContainerCore\<close>: the state is what lies between position and end.\<close>

definition range_core :: "('a list, 'a) StateCore" where
  "range_core = \<lparr>checkPoint = (\<lambda>xs. xs \<noteq> []),
     yield = (\<lambda>xs. if xs = [] then Inl ITER_EXHAUST else Inr (hd xs, xs)),
     iterNext = (\<lambda>xs. if xs = [] then Some (Inl ITER_EXHAUST) else Some (Inr (tl xs)))\<rparr>"

definition adaptFunctor :: "('s, 'a) StateCore \<Rightarrow> ('a \<Rightarrow> 'r) \<Rightarrow> ('s, 'r) src_functor" where
  "adaptFunctor c rawFun s = bind_result (yield c s) (\<lambda>(x, s'). Inr (rawFun x, s'))"

text \<open>The consumers of a pipeline: pour it into a container, and fold it from the left.\<close>

partial_function (option) effuse :: "('s, 'a) StateCore \<Rightarrow> 'a list \<Rightarrow> 's \<Rightarrow> 'a list partial_result" where
  "effuse c con s =
     (if checkPoint c s
      then case yield c s of
          Inl e \<Rightarrow> Some (Inl e)
        | Inr (val, s1) \<Rightarrow>
            (case iterNext c s1 of
               None \<Rightarrow> None
             | Some (Inl e) \<Rightarrow> Some (Inl e)
             | Some (Inr s2) \<Rightarrow> effuse c (con @ [val]) s2)
      else Some (Inr con))"

partial_function (option) reduce ::
  "('s, 'a) StateCore \<Rightarrow> ('s, 'r) src_functor \<Rightarrow> ('v \<Rightarrow> 'r \<Rightarrow> 'v) \<Rightarrow> 'v \<Rightarrow> 's \<Rightarrow> 'v partial_result" where
  "reduce c accessVal junctor res s =
     (if checkPoint c s
      then case accessVal s of
          Inl e \<Rightarrow> Some (Inl e)
        | Inr (val, s1) \<Rightarrow>
            (case iterNext c s1 of
               None \<Rightarrow> None
             | Some (Inl e) \<Rightarrow> Some (Inl e)
             | Some (Inr s2) \<Rightarrow> reduce c accessVal junctor (junctor res val) s2)
      else Some (Inr res))"

definition count_elms :: "('s, 'a) StateCore \<Rightarrow> 's \<Rightarrow> nat partial_result" where
  "count_elms c s = reduce c (adaptFunctor c (\<lambda>_. 1)) (+) 0 s"

subsection \<open>The stack of iterators\<close>

text \<open>The back of the deque is the head of the list.\<close>

definition stack_push :: "'i \<Rightarrow> 'i list \<Rightarrow> 'i list" where
  "stack_push elm st = elm # st"

definition stack_core :: "('i list, 'i) StateCore" where
  "stack_core = \<lparr>checkPoint = (\<lambda>st. st \<noteq> []),
     yield = (\<lambda>st. bind_result (require (st \<noteq> []) ''not empty()'') (\<lambda>_. Inr (hd st, st))),
     iterNext = (\<lambda>st. bind_partial (Some (require (st \<noteq> []) ''not empty()'')) (\<lambda>_. Some (Inr (tl st))))\<rparr>"

definition stack_pop :: "'i list \<Rightarrow> ('i \<times> 'i list) result" where
  "stack_pop st = bind_result (throw_if_empty stack_core st) (\<lambda>_. Inr (hd st, tl st))"

subsection \<open>Expansion of children\<close>

record ('s, 'i) Expander =
  ex_src :: 's
  ex_expansions :: "'i list"

definition Expander_new :: "'s \<Rightarrow> ('s, 'i) Expander" where
  "Expander_new parent = \<lparr>ex_src = parent, ex_expansions = []\<rparr>"

definition ex_depth :: "('s, 'i) Expander \<Rightarrow> nat" where
  "ex_depth x = length (ex_expansions x)"

definition hasChildren :: "('s, 'i) Expander \<Rightarrow> bool" where
  "hasChildren x \<longleftrightarrow> 0 < ex_depth x"

definition ex_invariant :: "('i, 'a) StateCore \<Rightarrow> ('s, 'i) Expander \<Rightarrow> bool" where
  "ex_invariant child x \<longleftrightarrow> \<not> hasChildren x \<or> checkPoint child (hd (ex_expansions x))"

definition incrementCurrent ::
  "('s, 'a) StateCore \<Rightarrow> ('i, 'a) StateCore \<Rightarrow> ('s, 'i) Expander \<Rightarrow> ('s, 'i) Expander partial_result" where
  "incrementCurrent src child x =
     (case ex_expansions x of
        it # st \<Rightarrow> bind_partial (iterNext child it) (\<lambda>it'. Some (Inr (x\<lparr>ex_expansions := it' # st\<rparr>)))
      | [] \<Rightarrow> bind_partial (iterNext src (ex_src x)) (\<lambda>s'. Some (Inr (x\<lparr>ex_src := s'\<rparr>))))"

lemma incrementCurrent_depth:
  "incrementCurrent src child x = Some (Inr x') \<Longrightarrow> length (ex_expansions x') = length (ex_expansions x)"
  by (auto simp: incrementCurrent_def bind_partial_Inr_iff split: list.splits)

lemma bind_partial_cong [fundef_cong]:
  "r = r' \<Longrightarrow> (\<And>x. r' = Some (Inr x) \<Longrightarrow> f x = g x) \<Longrightarrow> bind_partial r f = bind_partial r' g"
  by (auto simp: bind_partial_def split: option.splits sum.splits)

function dropExhaustedChildren ::
  "('s, 'a) StateCore \<Rightarrow> ('i, 'a) StateCore \<Rightarrow> ('s, 'i) Expander \<Rightarrow> ('s, 'i) Expander partial_result" where
  "dropExhaustedChildren src child x =
     (if ex_invariant child x then Some (Inr x)
      else bind_partial (incrementCurrent src child (x\<lparr>ex_expansions := tl (ex_expansions x)\<rparr>))
             (dropExhaustedChildren src child))"
  by auto
termination
  by (relation "measure (\<lambda>(src, child, x). length (ex_expansions x))")
    (auto dest!: incrementCurrent_depth simp: ex_invariant_def hasChildren_def ex_depth_def)

definition ex_iterNext ::
  "('s, 'a) StateCore \<Rightarrow> ('i, 'a) StateCore \<Rightarrow> ('s, 'i) Expander \<Rightarrow> ('s, 'i) Expander partial_result" where
  "ex_iterNext src child x =
     bind_partial (incrementCurrent src child x) (dropExhaustedChildren src child)"

definition Expander_core ::
  "('s, 'a) StateCore \<Rightarrow> ('i, 'a) StateCore \<Rightarrow> (('s, 'i) Expander, 'a) StateCore" where
  "Expander_core src child =
     \<lparr>checkPoint = (\<lambda>x. hasChildren x \<or> checkPoint src (ex_src x)),
      yield = (\<lambda>x. case ex_expansions x of
          it # st \<Rightarrow> bind_result (yield child it) (\<lambda>(v, it'). Inr (v, x\<lparr>ex_expansions := it' # st\<rparr>))
        | [] \<Rightarrow> bind_result (yield src (ex_src x)) (\<lambda>(v, s'). Inr (v, x\<lparr>ex_src := s'\<rparr>))),
      iterNext = ex_iterNext src child\<rparr>"

text \<open>The expanded element stays where it is, below its children, until these are exhausted.\<close>

definition expand_current ::
  "('s, 'i) src_functor \<Rightarrow> ('i, 'i) src_functor \<Rightarrow> ('s, 'i) Expander \<Rightarrow> ('i \<times> ('s, 'i) Expander) result" where
  "expand_current expandRoot expandChild x =
     (case ex_expansions x of
        it # st \<Rightarrow> bind_result (expandChild it) (\<lambda>(new, it'). Inr (new, x\<lparr>ex_expansions := it' # st\<rparr>))
      | [] \<Rightarrow> bind_result (expandRoot (ex_src x)) (\<lambda>(new, s'). Inr (new, x\<lparr>ex_src := s'\<rparr>)))"

definition expandChildren ::
  "('s, 'a) StateCore \<Rightarrow> ('i, 'a) StateCore \<Rightarrow> ('s, 'i) src_functor \<Rightarrow> ('i, 'i) src_functor
   \<Rightarrow> ('s, 'i) Expander \<Rightarrow> ('s, 'i) Expander partial_result" where
  "expandChildren src child expandRoot expandChild x =
     bind_partial (Some (require (checkPoint (Expander_core src child) x) ''attempt to expand an empty explorer'')) (\<lambda>_.
     bind_partial (Some (require (ex_invariant child x) ''invariant()'')) (\<lambda>_.
     bind_partial (Some (expand_current expandRoot expandChild x)) (\<lambda>(expanded, x1).
     bind_partial (if checkPoint child expanded
                   then Some (Inr (x1\<lparr>ex_expansions := stack_push expanded (ex_expansions x1)\<rparr>))
                   else ex_iterNext src child x1) (\<lambda>x2.
     bind_partial (Some (require (ex_invariant child x2) ''invariant()'')) (\<lambda>_. Some (Inr x2))))))"

text \<open>\<open>rootCurrent\<close>, where source and child iterators have the same type.\<close>

definition rootCurrent :: "('s, 's) Expander \<Rightarrow> ('s, 's) Expander" where
  "rootCurrent x = (if \<not> hasChildren x then x else \<lparr>ex_src = hd (ex_expansions x), ex_expansions = []\<rparr>)"

definition AutoExpander_core ::
  "('s, 'a) StateCore \<Rightarrow> ('i, 'a) StateCore \<Rightarrow> ('s, 'i) src_functor \<Rightarrow> ('i, 'i) src_functor
   \<Rightarrow> (('s, 'i) Expander, 'a) StateCore" where
  "AutoExpander_core src child expandRoot expandChild =
     (Expander_core src child)\<lparr>iterNext := (\<lambda>x.
        bind_partial (Some (throw_if_empty (Expander_core src child) x)) (\<lambda>_.
          expandChildren src child expandRoot expandChild x))\<rparr>"

record 'x ScheduledExpander =
  se_base :: 'x
  shallExpand :: bool

definition se_expandChildren :: "'x ScheduledExpander \<Rightarrow> 'x ScheduledExpander" where
  "se_expandChildren se = se\<lparr>shallExpand := True\<rparr>"

definition ScheduledExpander_core ::
  "('s, 'a) StateCore \<Rightarrow> ('i, 'a) StateCore \<Rightarrow> ('s, 'i) src_functor \<Rightarrow> ('i, 'i) src_functor
   \<Rightarrow> (('s, 'i) Expander ScheduledExpander, 'a) StateCore" where
  "ScheduledExpander_core src child expandRoot expandChild =
     (let base = CheckedCore (Expander_core src child) in
      \<lparr>checkPoint = (\<lambda>se. checkPoint base (se_base se)),
       yield = (\<lambda>se. bind_result (yield base (se_base se)) (\<lambda>(v, x'). Inr (v, se\<lparr>se_base := x'\<rparr>))),
       iterNext = (\<lambda>se.
         if shallExpand se
         then bind_partial (Some (throw_if_empty base (se_base se))) (\<lambda>_.
              bind_partial (expandChildren src child expandRoot expandChild (se_base se)) (\<lambda>x'.
                Some (Inr \<lparr>se_base = x', shallExpand = False\<rparr>)))
         else bind_partial (iterNext base (se_base se)) (\<lambda>x'. Some (Inr (se\<lparr>se_base := x'\<rparr>))))\<rparr>)"

subsection \<open>Transformation\<close>

record ('s, 'b) Transformer =
  tf_src :: 's
  treated :: "'b option"

definition Transformer_new :: "'s \<Rightarrow> ('s, 'b) Transformer" where
  "Transformer_new dataSrc = \<lparr>tf_src = dataSrc, treated = None\<rparr>"

definition invokeTransformation :: "('s, 'b) src_functor \<Rightarrow> ('s, 'b) Transformer \<Rightarrow> ('b \<times> ('s, 'b) Transformer) result" where
  "invokeTransformation trafo t =
     (case treated t of
        Some y \<Rightarrow> Inr (y, t)
      | None \<Rightarrow> bind_result (trafo (tf_src t)) (\<lambda>(y, s'). Inr (y, \<lparr>tf_src = s', treated = Some y\<rparr>)))"

definition Transformer_core :: "('s, 'a) StateCore \<Rightarrow> ('s, 'b) src_functor \<Rightarrow> (('s, 'b) Transformer, 'b) StateCore" where
  "Transformer_core src trafo =
     \<lparr>checkPoint = (\<lambda>t. checkPoint src (tf_src t)),
      yield = invokeTransformation trafo,
      iterNext = (\<lambda>t. bind_partial (iterNext src (tf_src t)) (\<lambda>s'. Some (Inr \<lparr>tf_src = s', treated = None\<rparr>)))\<rparr>"

definition tf_expandChildren ::
  "('s \<Rightarrow> 's partial_result) \<Rightarrow> ('s, 'b) Transformer \<Rightarrow> ('s, 'b) Transformer partial_result" where
  "tf_expandChildren expand t = bind_partial (expand (tf_src t)) (\<lambda>s'. Some (Inr \<lparr>tf_src = s', treated = None\<rparr>))"

subsection \<open>Groups of fixed size\<close>

text \<open>The buffer holds the elements below \<open>pos_\<close>, the only ones that can be read.\<close>

record ('s, 'a) Grouping =
  gp_src :: 's
  gp_buff :: "'a list"

primrec gp_fill :: "('s, 'a) StateCore \<Rightarrow> nat \<Rightarrow> ('s, 'a) Grouping \<Rightarrow> ('s, 'a) Grouping partial_result" where
  "gp_fill src 0 g = Some (Inr g)"
| "gp_fill src (Suc room) g =
     (if checkPoint src (gp_src g)
      then bind_partial (Some (yield src (gp_src g))) (\<lambda>(x, s1).
           bind_partial (iterNext src s1) (\<lambda>s2.
             gp_fill src room \<lparr>gp_src = s2, gp_buff = gp_buff g @ [x]\<rparr>))
      else Some (Inr g))"

definition gp_pullGroup :: "('s, 'a) StateCore \<Rightarrow> nat \<Rightarrow> ('s, 'a) Grouping \<Rightarrow> ('s, 'a) Grouping partial_result" where
  "gp_pullGroup src grp g = gp_fill src grp (g\<lparr>gp_buff := []\<rparr>)"

definition Grouping_new :: "('s, 'a) StateCore \<Rightarrow> nat \<Rightarrow> 's \<Rightarrow> ('s, 'a) Grouping partial_result" where
  "Grouping_new src grp s = gp_pullGroup src grp \<lparr>gp_src = s, gp_buff = []\<rparr>"

definition Grouping_core :: "('s, 'a) StateCore \<Rightarrow> nat \<Rightarrow> (('s, 'a) Grouping, 'a list) StateCore" where
  "Grouping_core src grp =
     \<lparr>checkPoint = (\<lambda>g. length (gp_buff g) = grp),
      yield = (\<lambda>g. Inr (gp_buff g, g)),
      iterNext = gp_pullGroup src grp\<rparr>"

definition getGroupedElms :: "('s, 'a) Grouping \<Rightarrow> 'a list" where
  "getGroupedElms g = gp_buff g"

definition getRestElms :: "('s, 'a) StateCore \<Rightarrow> nat \<Rightarrow> ('s, 'a) Grouping \<Rightarrow> 'a list" where
  "getRestElms src grp g = (if checkPoint (Grouping_core src grp) g then [] else getGroupedElms g)"

definition gp_expandChildren ::
  "('s, 'a) StateCore \<Rightarrow> nat \<Rightarrow> ('s \<Rightarrow> 's partial_result) \<Rightarrow> ('s, 'a) Grouping \<Rightarrow> ('s, 'a) Grouping partial_result" where
  "gp_expandChildren src grp expand g =
     bind_partial (expand (gp_src g)) (\<lambda>s'. gp_pullGroup src grp (g\<lparr>gp_src := s'\<rparr>))"

subsection \<open>Groups with an aggregate\<close>

record ('s, 'v) GroupAggregator =
  ga_src :: 's
  ga_agg :: "'v option"

partial_function (option) ga_collect ::
  "('s, 'a) StateCore \<Rightarrow> ('s, 'g) src_functor \<Rightarrow> ('v \<Rightarrow> 'a \<Rightarrow> 'v) \<Rightarrow> 'g \<Rightarrow> 'v \<Rightarrow> 's \<Rightarrow> ('s, 'v) GroupAggregator partial_result" where
  "ga_collect src grouping aggregate grpVal agg s =
     (case yield src s of
        Inl e \<Rightarrow> Some (Inl e)
      | Inr (x, s1) \<Rightarrow>
          (case iterNext src s1 of
             None \<Rightarrow> None
           | Some (Inl e) \<Rightarrow> Some (Inl e)
           | Some (Inr s2) \<Rightarrow>
               (if checkPoint src s2
                then case grouping s2 of
                    Inl e \<Rightarrow> Some (Inl e)
                  | Inr (group', s3) \<Rightarrow>
                      (if grpVal = group'
                       then ga_collect src grouping aggregate grpVal (aggregate agg x) s3
                       else Some (Inr \<lparr>ga_src = s3, ga_agg = Some (aggregate agg x)\<rparr>))
                else Some (Inr \<lparr>ga_src = s2, ga_agg = Some (aggregate agg x)\<rparr>))))"

definition ga_pullGroup ::
  "('s, 'a) StateCore \<Rightarrow> ('s, 'g) src_functor \<Rightarrow> ('v \<Rightarrow> 'a \<Rightarrow> 'v) \<Rightarrow> 'v
   \<Rightarrow> ('s, 'v) GroupAggregator \<Rightarrow> ('s, 'v) GroupAggregator partial_result" where
  "ga_pullGroup src grouping aggregate agg0 g =
     bind_partial (Some (grouping (ga_src g))) (\<lambda>(grpVal, s). ga_collect src grouping aggregate grpVal agg0 s)"

definition GroupAggregator_new ::
  "('s, 'a) StateCore \<Rightarrow> ('s, 'g) src_functor \<Rightarrow> ('v \<Rightarrow> 'a \<Rightarrow> 'v) \<Rightarrow> 'v \<Rightarrow> 's \<Rightarrow> ('s, 'v) GroupAggregator partial_result" where
  "GroupAggregator_new src grouping aggregate agg0 s =
     ga_pullGroup src grouping aggregate agg0 \<lparr>ga_src = s, ga_agg = None\<rparr>"

definition GroupAggregator_core ::
  "('s, 'a) StateCore \<Rightarrow> ('s, 'g) src_functor \<Rightarrow> ('v \<Rightarrow> 'a \<Rightarrow> 'v) \<Rightarrow> 'v \<Rightarrow> (('s, 'v) GroupAggregator, 'v) StateCore" where
  "GroupAggregator_core src grouping aggregate agg0 =
     \<lparr>checkPoint = (\<lambda>g. ga_agg g \<noteq> None),
      yield = (\<lambda>g. case ga_agg g of None \<Rightarrow> Inl (Err Fatal ''undefined: empty optional'') | Some v \<Rightarrow> Inr (v, g)),
      iterNext = (\<lambda>g. if checkPoint src (ga_src g) then ga_pullGroup src grouping aggregate agg0 g
                      else Some (Inr (g\<lparr>ga_agg := None\<rparr>)))\<rparr>"

subsection \<open>Filters\<close>

record 's FilterLayer =
  flt_src :: 's
  flt_predicate :: "('s, bool) src_functor option"

definition isDisabled :: "'s FilterLayer \<Rightarrow> bool" where
  "isDisabled f \<longleftrightarrow> flt_predicate f = None"

partial_function (option) pull_source ::
  "('s, 'a) StateCore \<Rightarrow> ('s, bool) src_functor \<Rightarrow> 's \<Rightarrow> 's partial_result" where
  "pull_source src predicate s =
     (if checkPoint src s
      then case predicate s of
          Inl e \<Rightarrow> Some (Inl e)
        | Inr (approved, s1) \<Rightarrow>
            (if approved then Some (Inr s1)
             else case iterNext src s1 of
                 None \<Rightarrow> None
               | Some (Inl e) \<Rightarrow> Some (Inl e)
               | Some (Inr s2) \<Rightarrow> pull_source src predicate s2)
      else Some (Inr s))"

definition pullFilter :: "('s, 'a) StateCore \<Rightarrow> 's FilterLayer \<Rightarrow> 's FilterLayer partial_result" where
  "pullFilter src f =
     (case flt_predicate f of
        None \<Rightarrow> Some (Inr f)
      | Some p \<Rightarrow> bind_partial (pull_source src p (flt_src f)) (\<lambda>s'. Some (Inr (f\<lparr>flt_src := s'\<rparr>))))"

definition Filter_new :: "('s, 'a) StateCore \<Rightarrow> ('s, bool) src_functor \<Rightarrow> 's \<Rightarrow> 's FilterLayer partial_result" where
  "Filter_new src p dataSrc = pullFilter src \<lparr>flt_src = dataSrc, flt_predicate = Some p\<rparr>"

definition Filter_core :: "('s, 'a) StateCore \<Rightarrow> ('s FilterLayer, 'a) StateCore" where
  "Filter_core src =
     \<lparr>checkPoint = (\<lambda>f. checkPoint src (flt_src f)),
      yield = (\<lambda>f. bind_result (yield src (flt_src f)) (\<lambda>(x, s'). Inr (x, f\<lparr>flt_src := s'\<rparr>))),
      iterNext = (\<lambda>f. bind_partial (iterNext src (flt_src f)) (\<lambda>s'. pullFilter src (f\<lparr>flt_src := s'\<rparr>)))\<rparr>"

definition flt_expandChildren ::
  "('s, 'a) StateCore \<Rightarrow> ('s \<Rightarrow> 's partial_result) \<Rightarrow> 's FilterLayer \<Rightarrow> 's FilterLayer partial_result" where
  "flt_expandChildren src expand f = bind_partial (expand (flt_src f)) (\<lambda>s'. pullFilter src (f\<lparr>flt_src := s'\<rparr>))"

definition ACCEPT_ALL :: "('s, bool) src_functor" where
  "ACCEPT_ALL s = Inr (True, s)"

definition remouldFilter ::
  "('s, 'a) StateCore \<Rightarrow> ('s, bool) src_functor
   \<Rightarrow> (('s, bool) src_functor \<Rightarrow> ('s, bool) src_functor \<Rightarrow> ('s, bool) src_functor)
   \<Rightarrow> 's FilterLayer \<Rightarrow> 's FilterLayer partial_result" where
  "remouldFilter src additionalClause buildCombinedClause f =
     (let existing = (if isDisabled f then ACCEPT_ALL else the (flt_predicate f))
      in pullFilter src (f\<lparr>flt_predicate := Some (buildCombinedClause existing additionalClause)\<rparr>))"

definition andFilter :: "('s, 'a) StateCore \<Rightarrow> ('s, bool) src_functor \<Rightarrow> 's FilterLayer \<Rightarrow> 's FilterLayer partial_result" where
  "andFilter src clause = remouldFilter src clause (\<lambda>first chain val.
     bind_result (first val) (\<lambda>(b, val1). if b then chain val1 else Inr (False, val1)))"

definition andNotFilter :: "('s, 'a) StateCore \<Rightarrow> ('s, bool) src_functor \<Rightarrow> 's FilterLayer \<Rightarrow> 's FilterLayer partial_result" where
  "andNotFilter src clause = remouldFilter src clause (\<lambda>first chain val.
     bind_result (first val) (\<lambda>(b, val1). if b then bind_result (chain val1) (\<lambda>(c, val2). Inr (\<not> c, val2)) else Inr (False, val1)))"

definition orFilter :: "('s, 'a) StateCore \<Rightarrow> ('s, bool) src_functor \<Rightarrow> 's FilterLayer \<Rightarrow> 's FilterLayer partial_result" where
  "orFilter src clause = remouldFilter src clause (\<lambda>first chain val.
     bind_result (first val) (\<lambda>(b, val1). if b then Inr (True, val1) else chain val1))"

definition orNotFilter :: "('s, 'a) StateCore \<Rightarrow> ('s, bool) src_functor \<Rightarrow> 's FilterLayer \<Rightarrow> 's FilterLayer partial_result" where
  "orNotFilter src clause = remouldFilter src clause (\<lambda>first chain val.
     bind_result (first val) (\<lambda>(b, val1). if b then Inr (True, val1) else bind_result (chain val1) (\<lambda>(c, val2). Inr (\<not> c, val2))))"

definition flipFilter :: "('s, 'a) StateCore \<Rightarrow> 's FilterLayer \<Rightarrow> 's FilterLayer partial_result" where
  "flipFilter src = remouldFilter src (\<lambda>val. Inr (False, val)) (\<lambda>currentFilter _ val.
     bind_result (currentFilter val) (\<lambda>(b, val1). Inr (\<not> b, val1)))"

definition setNewFilter :: "('s, 'a) StateCore \<Rightarrow> ('s, bool) src_functor \<Rightarrow> 's FilterLayer \<Rightarrow> 's FilterLayer partial_result" where
  "setNewFilter src predicate = remouldFilter src predicate (\<lambda>_ chain. chain)"

definition disableFilter :: "'s FilterLayer \<Rightarrow> 's FilterLayer" where
  "disableFilter f = f\<lparr>flt_predicate := None\<rparr>"

subsection \<open>The stop condition\<close>

text \<open>The condition is a test on the state of the source; a cache it may fill is left out.\<close>

definition StopTrigger_core :: "('s, 'a) StateCore \<Rightarrow> ('s \<Rightarrow> bool) \<Rightarrow> ('s, 'a) StateCore" where
  "StopTrigger_core src whileCondition =
     \<lparr>checkPoint = (\<lambda>s. checkPoint src s \<and> whileCondition s), yield = yield src, iterNext = iterNext src\<rparr>"

subsection \<open>What a state core promises\<close>

text \<open>
  \<open>rep s xs\<close> says that the state \<open>s\<close> still has the results \<open>xs\<close> to offer: it is empty exactly at
  the end, yields the first of them without changing what is on offer, and moves on to the rest.
\<close>

locale presents =
  fixes c :: "('s, 'a) StateCore"
    and rep :: "'s \<Rightarrow> 'a list \<Rightarrow> bool"
  assumes at_end: "rep s [] \<Longrightarrow> \<not> checkPoint c s"
    and not_at_end: "rep s (x # xs) \<Longrightarrow> checkPoint c s"
    and yields: "rep s (x # xs) \<Longrightarrow> \<exists>s'. yield c s = Inr (x, s') \<and> rep s' (x # xs)"
    and moves_on: "rep s (x # xs) \<Longrightarrow> \<exists>s'. iterNext c s = Some (Inr s') \<and> rep s' xs"
begin

lemma checkPoint_iff: "rep s xs \<Longrightarrow> checkPoint c s \<longleftrightarrow> xs \<noteq> []"
  by (cases xs) (auto dest: at_end not_at_end)

lemma presents_checked: "presents (CheckedCore c) rep"
proof (unfold_locales, goal_cases)
  case 1 then show ?case by (simp add: CheckedCore_def at_end)
next
  case 2 then show ?case by (simp add: CheckedCore_def not_at_end)
next
  case 3 then show ?case using yields by (simp add: CheckedCore_def throw_if_empty_def not_at_end)
next
  case 4 then show ?case using moves_on by (simp add: CheckedCore_def throw_if_empty_def not_at_end)
qed

lemma exhausted_throws:
  "rep s [] \<Longrightarrow> yield (CheckedCore c) s = Inl ITER_EXHAUST \<and> iterNext (CheckedCore c) s = Some (Inl ITER_EXHAUST)"
  by (simp add: CheckedCore_def throw_if_empty_def at_end)

lemma effuse_all: "rep s xs \<Longrightarrow> effuse c con s = Some (Inr (con @ xs))"
proof (induction xs arbitrary: s con)
  case Nil
  then show ?case by (simp add: effuse.simps at_end)
next
  case (Cons x xs)
  obtain s1 where s1: "yield c s = Inr (x, s1)" "rep s1 (x # xs)" using yields [OF Cons.prems] by blast
  obtain s2 where s2: "iterNext c s1 = Some (Inr s2)" "rep s2 xs" using moves_on [OF s1(2)] by blast
  show ?case using s1(1) s2 Cons.IH [OF s2(2)] by (subst effuse.simps) (simp add: not_at_end [OF Cons.prems])
qed

text \<open>A functor on values is bound by dereferencing the source.\<close>

lemma adapted: "rep s (x # xs) \<Longrightarrow> \<exists>s'. adaptFunctor c g s = Inr (g x, s') \<and> rep s' (x # xs)"
  using yields by (fastforce simp: adaptFunctor_def)

end

definition tf_rep :: "('s \<Rightarrow> 'a list \<Rightarrow> bool) \<Rightarrow> ('a \<Rightarrow> 'r) \<Rightarrow> ('s, 'r) Transformer \<Rightarrow> 'r list \<Rightarrow> bool" where
  "tf_rep rep f t ys \<longleftrightarrow>
     (\<exists>xs. rep (tf_src t) xs \<and> ys = map f xs \<and> (\<forall>y. treated t = Some y \<longrightarrow> ys \<noteq> [] \<and> y = hd ys))"

text \<open>A functor bound into a layer computes \<open>f\<close> of the current element.\<close>

locale presents_with = presents c rep
  for c :: "('s, 'a) StateCore" and rep +
  fixes F :: "('s, 'r) src_functor" and f :: "'a \<Rightarrow> 'r"
  assumes computes: "rep s (x # xs) \<Longrightarrow> \<exists>s'. F s = Inr (f x, s') \<and> rep s' (x # xs)"
begin

lemma reduce_all: "rep s xs \<Longrightarrow> reduce c F junctor res s = Some (Inr (foldl junctor res (map f xs)))"
proof (induction xs arbitrary: s res)
  case Nil
  then show ?case by (simp add: reduce.simps at_end)
next
  case (Cons x xs)
  obtain s1 where s1: "F s = Inr (f x, s1)" "rep s1 (x # xs)" using computes [OF Cons.prems] by blast
  obtain s2 where s2: "iterNext c s1 = Some (Inr s2)" "rep s2 xs" using moves_on [OF s1(2)] by blast
  show ?case using s1(1) s2 Cons.IH [OF s2(2)] by (subst reduce.simps) (simp add: not_at_end [OF Cons.prems])
qed

lemma tf_rep_new: "rep s xs \<Longrightarrow> tf_rep rep f (Transformer_new s) (map f xs)"
  by (auto simp: tf_rep_def Transformer_new_def)

lemma tf_rep_ConsE:
  assumes "tf_rep rep f t (y # ys)"
  obtains x xs where "rep (tf_src t) (x # xs)" "y = f x" "ys = map f xs" "\<forall>z. treated t = Some z \<longrightarrow> z = f x"
  using assms that by (auto simp: tf_rep_def Cons_eq_map_conv)

lemma transformed: "presents (Transformer_core c F) (tf_rep rep f)"
proof (unfold_locales, goal_cases)
  case (1 t) then show ?case by (auto simp: tf_rep_def Transformer_core_def at_end)
next
  case (2 t y ys) then show ?case by (elim tf_rep_ConsE) (simp add: Transformer_core_def not_at_end)
next
  case (3 t y ys)
  then obtain x xs where x: "rep (tf_src t) (x # xs)" "y = f x" "ys = map f xs"
    "\<forall>z. treated t = Some z \<longrightarrow> z = f x" by (rule tf_rep_ConsE)
  show ?case
  proof (cases "treated t")
    case None
    then show ?thesis using computes [OF x(1)] x
      by (auto simp: Transformer_core_def invokeTransformation_def tf_rep_def intro!: exI [of _ "x # xs"])
  next
    case (Some a)
    then show ?thesis using 3 x by (simp add: Transformer_core_def invokeTransformation_def)
  qed
next
  case (4 t y ys)
  then obtain x xs where x: "rep (tf_src t) (x # xs)" "ys = map f xs" by (rule tf_rep_ConsE)
  then show ?case using moves_on [OF x(1)] by (auto simp: Transformer_core_def tf_rep_def)
qed

end

subsection \<open>Filter layers\<close>

definition functor_computes :: "('s \<Rightarrow> 'a list \<Rightarrow> bool) \<Rightarrow> ('s, 'r) src_functor \<Rightarrow> ('a \<Rightarrow> 'r) \<Rightarrow> bool" where
  "functor_computes rep F f \<longleftrightarrow> (\<forall>s x xs. rep s (x # xs) \<longrightarrow> (\<exists>s'. F s = Inr (f x, s') \<and> rep s' (x # xs)))"

lemma functor_computesD:
  "functor_computes rep F f \<Longrightarrow> rep s (x # xs) \<Longrightarrow> \<exists>s'. F s = Inr (f x, s') \<and> rep s' (x # xs)"
  by (auto simp: functor_computes_def)

lemma ACCEPT_ALL_computes: "functor_computes rep ACCEPT_ALL (\<lambda>_. True)"
  by (auto simp: functor_computes_def ACCEPT_ALL_def)

text \<open>The filter lets pass \<open>P\<close>, and its source still has \<open>xs\<close> to offer.\<close>

definition flt_on :: "('s \<Rightarrow> 'a list \<Rightarrow> bool) \<Rightarrow> 's FilterLayer \<Rightarrow> ('a \<Rightarrow> bool) \<Rightarrow> 'a list \<Rightarrow> bool" where
  "flt_on rep f P xs \<longleftrightarrow> rep (flt_src f) xs \<and>
     (case flt_predicate f of None \<Rightarrow> P = (\<lambda>_. True) | Some p \<Rightarrow> functor_computes rep p P)"

definition flt_rep :: "('s \<Rightarrow> 'a list \<Rightarrow> bool) \<Rightarrow> 's FilterLayer \<Rightarrow> 'a list \<Rightarrow> bool" where
  "flt_rep rep f ys \<longleftrightarrow> (\<exists>P xs. flt_on rep f P xs \<and> (xs \<noteq> [] \<longrightarrow> P (hd xs)) \<and> ys = filter P xs)"

lemma flt_rep_approved: "flt_on rep f P (dropWhile (\<lambda>x. \<not> P x) xs) \<Longrightarrow> flt_rep rep f (filter P xs)"
  unfolding flt_rep_def
proof (intro exI conjI)
  show "dropWhile (\<lambda>x. \<not> P x) xs \<noteq> [] \<longrightarrow> P (hd (dropWhile (\<lambda>x. \<not> P x) xs))"
    using hd_dropWhile [of "\<lambda>x. \<not> P x" xs] by auto
  show "filter P xs = filter P (dropWhile (\<lambda>x. \<not> P x) xs)" by (induction xs) auto
qed

lemma flt_rep_ConsE:
  assumes "flt_rep rep f (y # ys)"
  obtains P xs where "flt_on rep f P (y # xs)" "ys = filter P xs" "P y"
proof -
  obtain P xs where "flt_on rep f P xs" "xs \<noteq> [] \<longrightarrow> P (hd xs)" "y # ys = filter P xs"
    using assms by (auto simp: flt_rep_def)
  then show thesis by (cases xs) (auto split: if_splits intro: that)
qed

context presents begin

lemma adapted_computes: "functor_computes rep (adaptFunctor c g) g"
  using adapted [of _ _ _ g] by (simp add: functor_computes_def)

lemma pull_source_skips:
  assumes "functor_computes rep F P"
  shows "rep s xs \<Longrightarrow> \<exists>s'. pull_source c F s = Some (Inr s') \<and> rep s' (dropWhile (\<lambda>x. \<not> P x) xs)"
proof (induction xs arbitrary: s)
  case Nil
  then show ?case by (simp add: pull_source.simps at_end)
next
  case (Cons x xs)
  obtain s1 where s1: "F s = Inr (P x, s1)" "rep s1 (x # xs)" using functor_computesD [OF assms Cons.prems] by blast
  obtain s2 where s2: "iterNext c s1 = Some (Inr s2)" "rep s2 xs" using moves_on [OF s1(2)] by blast
  show ?case using s1 s2 Cons.IH [OF s2(2)] by (subst pull_source.simps) (simp add: not_at_end [OF Cons.prems])
qed

lemma pullFilter_approves:
  assumes "flt_on rep f P xs"
  shows "\<exists>f'. pullFilter c f = Some (Inr f') \<and> flt_on rep f' P (dropWhile (\<lambda>x. \<not> P x) xs)"
proof (cases "flt_predicate f")
  case None
  then show ?thesis using assms by (auto simp: flt_on_def pullFilter_def)
next
  case (Some p)
  then show ?thesis using pull_source_skips [of p P "flt_src f" xs] assms by (auto simp: flt_on_def pullFilter_def)
qed

lemma pullFilter_rep: "flt_on rep f P xs \<Longrightarrow> \<exists>f'. pullFilter c f = Some (Inr f') \<and> flt_rep rep f' (filter P xs)"
  using pullFilter_approves flt_rep_approved by blast

lemma Filter_new_rep:
  "functor_computes rep F P \<Longrightarrow> rep s xs \<Longrightarrow> \<exists>f. Filter_new c F s = Some (Inr f) \<and> flt_rep rep f (filter P xs)"
  unfolding Filter_new_def by (rule pullFilter_rep) (simp add: flt_on_def)

lemma flt_on_moves: "flt_on rep f P (y # xs) \<Longrightarrow> rep s' ys \<Longrightarrow> flt_on rep (f\<lparr>flt_src := s'\<rparr>) P ys"
  by (simp add: flt_on_def)

lemma filtered: "presents (Filter_core c) (flt_rep rep)"
proof (unfold_locales, goal_cases)
  case (1 f)
  then obtain xs P where "rep (flt_src f) xs" "xs \<noteq> [] \<longrightarrow> P (hd xs)" "[] = filter P xs"
    by (auto simp: flt_rep_def flt_on_def)
  then show ?case by (cases xs) (auto simp: Filter_core_def at_end split: if_splits)
next
  case (2 f y ys)
  then show ?case by (elim flt_rep_ConsE) (auto simp: flt_on_def Filter_core_def not_at_end)
next
  case (3 f y ys)
  then obtain P xs where p: "flt_on rep f P (y # xs)" "ys = filter P xs" "P y" by (rule flt_rep_ConsE)
  obtain s' where s': "yield c (flt_src f) = Inr (y, s')" "rep s' (y # xs)"
    using yields [of "flt_src f" y xs] p(1) by (auto simp: flt_on_def)
  have "flt_rep rep (f\<lparr>flt_src := s'\<rparr>) (y # ys)" unfolding flt_rep_def
    using flt_on_moves [OF p(1) s'(2)] p by (intro exI [of _ P] exI [of _ "y # xs"]) simp
  then show ?case using s' by (simp add: Filter_core_def)
next
  case (4 f y ys)
  then obtain P xs where p: "flt_on rep f P (y # xs)" "ys = filter P xs" "P y" by (rule flt_rep_ConsE)
  obtain s' where s': "iterNext c (flt_src f) = Some (Inr s')" "rep s' xs"
    using moves_on [of "flt_src f" y xs] p(1) by (auto simp: flt_on_def)
  show ?case using pullFilter_rep [OF flt_on_moves [OF p(1) s'(2)]] s' p by (simp add: Filter_core_def)
qed

text \<open>Whatever a layer on top does to the source, the filter finds the next approved element.\<close>

lemma flt_expandChildren_rep:
  assumes "flt_on rep f P xs" "expand (flt_src f) = Some (Inr s')" "rep s' zs"
  shows "\<exists>f'. flt_expandChildren c expand f = Some (Inr f') \<and> flt_rep rep f' (filter P zs)"
  using assms pullFilter_rep [of "f\<lparr>flt_src := s'\<rparr>" P zs]
  by (auto simp: flt_expandChildren_def flt_on_def)

lemma remould_rep:
  assumes "flt_on rep f P xs"
    and "\<And>first. functor_computes rep first P \<Longrightarrow> functor_computes rep (comb first clause) R"
  shows "\<exists>f'. remouldFilter c clause comb f = Some (Inr f') \<and> flt_rep rep f' (filter R xs)"
proof -
  have "functor_computes rep (if isDisabled f then ACCEPT_ALL else the (flt_predicate f)) P"
    using assms(1) ACCEPT_ALL_computes by (cases "flt_predicate f") (auto simp: isDisabled_def flt_on_def)
  from assms(2) [OF this] assms(1) show ?thesis
    unfolding remouldFilter_def Let_def by (intro pullFilter_rep) (simp add: flt_on_def)
qed

lemma mutable_filter:
  assumes f: "flt_on rep f P xs" and q: "functor_computes rep clause Q"
  shows "\<exists>f'. andFilter c clause f = Some (Inr f') \<and> flt_rep rep f' (filter (\<lambda>x. P x \<and> Q x) xs)"
    and "\<exists>f'. andNotFilter c clause f = Some (Inr f') \<and> flt_rep rep f' (filter (\<lambda>x. P x \<and> \<not> Q x) xs)"
    and "\<exists>f'. orFilter c clause f = Some (Inr f') \<and> flt_rep rep f' (filter (\<lambda>x. P x \<or> Q x) xs)"
    and "\<exists>f'. orNotFilter c clause f = Some (Inr f') \<and> flt_rep rep f' (filter (\<lambda>x. P x \<or> \<not> Q x) xs)"
    and "\<exists>f'. setNewFilter c clause f = Some (Inr f') \<and> flt_rep rep f' (filter Q xs)"
    and "\<exists>f'. flipFilter c f = Some (Inr f') \<and> flt_rep rep f' (filter (\<lambda>x. \<not> P x) xs)"
proof -
  have step: "\<exists>s2. clause s1 = Inr (Q x, s2) \<and> rep s2 (x # xs)" if "rep s1 (x # xs)" for s1 x xs
    using functor_computesD [OF q that] .
  show "\<exists>f'. andFilter c clause f = Some (Inr f') \<and> flt_rep rep f' (filter (\<lambda>x. P x \<and> Q x) xs)"
    unfolding andFilter_def
    by (intro remould_rep [OF f]) (use step in \<open>fastforce simp: functor_computes_def\<close>)
  show "\<exists>f'. andNotFilter c clause f = Some (Inr f') \<and> flt_rep rep f' (filter (\<lambda>x. P x \<and> \<not> Q x) xs)"
    unfolding andNotFilter_def
    by (intro remould_rep [OF f]) (use step in \<open>fastforce simp: functor_computes_def\<close>)
  show "\<exists>f'. orFilter c clause f = Some (Inr f') \<and> flt_rep rep f' (filter (\<lambda>x. P x \<or> Q x) xs)"
    unfolding orFilter_def
    by (intro remould_rep [OF f]) (use step in \<open>fastforce simp: functor_computes_def\<close>)
  show "\<exists>f'. orNotFilter c clause f = Some (Inr f') \<and> flt_rep rep f' (filter (\<lambda>x. P x \<or> \<not> Q x) xs)"
    unfolding orNotFilter_def
    by (intro remould_rep [OF f]) (use step in \<open>fastforce simp: functor_computes_def\<close>)
  show "\<exists>f'. setNewFilter c clause f = Some (Inr f') \<and> flt_rep rep f' (filter Q xs)"
    unfolding setNewFilter_def by (intro remould_rep [OF f] q)
  show "\<exists>f'. flipFilter c f = Some (Inr f') \<and> flt_rep rep f' (filter (\<lambda>x. \<not> P x) xs)"
    unfolding flipFilter_def
    by (intro remould_rep [OF f]) (fastforce simp: functor_computes_def)
qed

lemma disable_rep: "flt_on rep f P xs \<Longrightarrow> flt_rep rep (disableFilter f) xs"
  unfolding flt_rep_def
  by (intro exI [of _ "\<lambda>_. True"] exI [of _ xs]) (simp add: flt_on_def disableFilter_def)

lemma stopped:
  assumes "\<And>s x xs. rep s (x # xs) \<Longrightarrow> cond s \<longleftrightarrow> P x"
  shows "presents (StopTrigger_core c cond) (\<lambda>s ys. \<exists>xs. rep s xs \<and> ys = takeWhile P xs)"
proof (unfold_locales, goal_cases)
  case (1 s)
  then obtain xs where "rep s xs" "[] = takeWhile P xs" by blast
  then show ?case by (cases xs) (auto simp: StopTrigger_core_def at_end assms split: if_splits)
next
  case (2 s y ys)
  then obtain xs where "rep s xs" "y # ys = takeWhile P xs" by blast
  then show ?case by (cases xs) (auto simp: StopTrigger_core_def not_at_end assms split: if_splits)
next
  case (3 s y ys)
  then obtain zs where "rep s zs" "y # ys = takeWhile P zs" by blast
  then obtain xs where "rep s (y # xs)" "y # ys = takeWhile P (y # xs)" by (cases zs) (auto split: if_splits)
  then show ?case using yields by (fastforce simp: StopTrigger_core_def)
next
  case (4 s y ys)
  then obtain zs where "rep s zs" "y # ys = takeWhile P zs" by blast
  then obtain xs where "rep s (y # xs)" "y # ys = takeWhile P (y # xs)" by (cases zs) (auto split: if_splits)
  then show ?case using moves_on by (fastforce simp: StopTrigger_core_def split: if_splits)
qed

end

interpretation range: presents range_core "\<lambda>s xs. s = xs"
  by unfold_locales (simp_all add: range_core_def)

subsection \<open>Depth-first expansion\<close>

declare dropExhaustedChildren.simps [simp del]

text \<open>What comes after the topmost children: at each level the siblings of the expanded element.\<close>

primrec after_children :: "('a \<Rightarrow> 'a list) \<Rightarrow> 'a list list \<Rightarrow> 'a list \<Rightarrow> 'a list \<Rightarrow> bool" where
  "after_children kids [] xs out \<longleftrightarrow> xs \<noteq> [] \<and> preorder kids (tl xs) out"
| "after_children kids (ys # yss) xs out \<longleftrightarrow>
     ys \<noteq> [] \<and> (\<exists>a b. preorder kids (tl ys) a \<and> after_children kids yss xs b \<and> out = a @ b)"

definition remains :: "('a \<Rightarrow> 'a list) \<Rightarrow> 'a list list \<Rightarrow> 'a list \<Rightarrow> 'a list \<Rightarrow> bool" where
  "remains kids yss xs out \<longleftrightarrow>
     (case yss of
        [] \<Rightarrow> preorder kids xs out
      | ys # yss' \<Rightarrow> \<exists>a b. preorder kids ys a \<and> after_children kids yss' xs b \<and> out = a @ b)"

definition ex_holds ::
  "('s \<Rightarrow> 'a list \<Rightarrow> bool) \<Rightarrow> ('i \<Rightarrow> 'a list \<Rightarrow> bool) \<Rightarrow> ('s, 'i) Expander \<Rightarrow> 'a list list \<Rightarrow> 'a list \<Rightarrow> bool" where
  "ex_holds rep crep x yss xs \<longleftrightarrow> rep (ex_src x) xs \<and> list_all2 crep (ex_expansions x) yss"

definition ex_rep ::
  "('s \<Rightarrow> 'a list \<Rightarrow> bool) \<Rightarrow> ('i \<Rightarrow> 'a list \<Rightarrow> bool) \<Rightarrow> ('a \<Rightarrow> 'a list) \<Rightarrow> ('s, 'i) Expander \<Rightarrow> 'a list \<Rightarrow> bool" where
  "ex_rep rep crep kids x out \<longleftrightarrow>
     (\<exists>yss xs. ex_holds rep crep x yss xs \<and> (yss \<noteq> [] \<longrightarrow> hd yss \<noteq> []) \<and> remains kids yss xs out)"

lemma ex_repI:
  "ex_holds rep crep x yss xs \<Longrightarrow> (yss \<noteq> [] \<Longrightarrow> hd yss \<noteq> []) \<Longrightarrow> remains kids yss xs out \<Longrightarrow> ex_rep rep crep kids x out"
  by (auto simp: ex_rep_def)

lemma ex_rep_cases [consumes 1, case_names root child]:
  assumes "ex_rep rep crep kids x out"
  obtains xs where "ex_expansions x = []" "rep (ex_src x) xs" "preorder kids xs out"
  | it st y ys yss xs a b where "ex_expansions x = it # st" "rep (ex_src x) xs" "crep it (y # ys)"
      "list_all2 crep st yss" "preorder kids (y # ys) a" "after_children kids yss xs b" "out = a @ b"
proof -
  obtain yss xs where h: "ex_holds rep crep x yss xs" "yss \<noteq> [] \<longrightarrow> hd yss \<noteq> []" "remains kids yss xs out"
    using assms by (auto simp: ex_rep_def)
  show thesis
  proof (cases yss)
    case Nil
    then show ?thesis using h by (intro that(1)) (simp_all add: ex_holds_def remains_def)
  next
    case (Cons ys yss')
    then obtain it st where "ex_expansions x = it # st" "crep it ys" "list_all2 crep st yss'"
      using h(1) by (auto simp: ex_holds_def list_all2_Cons2)
    moreover obtain y ys' where "ys = y # ys'" using h(2) Cons by (cases ys) auto
    moreover obtain a b where "preorder kids ys a" "after_children kids yss' xs b" "out = a @ b"
      using h(3) Cons by (auto simp: remains_def)
    ultimately show ?thesis using h(1) by (intro that(2)) (simp_all add: ex_holds_def)
  qed
qed

locale expansion = src: presents src rep + child: presents child crep
  for src :: "('s, 'a) StateCore" and rep and child :: "('i, 'a) StateCore" and crep +
  fixes expandRoot :: "('s, 'i) src_functor" and expandChild :: "('i, 'i) src_functor" and kids :: "'a \<Rightarrow> 'a list"
  assumes root_kids: "rep s (x # xs) \<Longrightarrow> \<exists>new s'. expandRoot s = Inr (new, s') \<and> rep s' (x # xs) \<and> crep new (kids x)"
    and child_kids: "crep it (y # ys) \<Longrightarrow> \<exists>new it'. expandChild it = Inr (new, it') \<and> crep it' (y # ys) \<and> crep new (kids y)"
begin

lemma invariant_iff: "ex_holds rep crep x yss xs \<Longrightarrow> ex_invariant child x \<longleftrightarrow> (yss \<noteq> [] \<longrightarrow> hd yss \<noteq> [])"
  by (cases "ex_expansions x"; cases yss)
    (auto simp: ex_holds_def ex_invariant_def hasChildren_def ex_depth_def child.checkPoint_iff)

lemma increment_root:
  assumes "ex_holds rep crep x [] xs" "xs \<noteq> []"
  shows "\<exists>x'. incrementCurrent src child x = Some (Inr x') \<and> ex_holds rep crep x' [] (tl xs)"
  using assms src.moves_on [of "ex_src x" "hd xs" "tl xs"]
  by (auto simp: ex_holds_def incrementCurrent_def)

lemma increment_child:
  assumes "ex_holds rep crep x (ys # yss) xs" "ys \<noteq> []"
  shows "\<exists>x'. incrementCurrent src child x = Some (Inr x') \<and> ex_holds rep crep x' (tl ys # yss) xs"
proof -
  obtain it st where it: "ex_expansions x = it # st" "crep it (hd ys # tl ys)" "list_all2 crep st yss"
    using assms by (auto simp: ex_holds_def list_all2_Cons2)
  then show ?thesis using child.moves_on [OF it(2)] assms by (auto simp: ex_holds_def incrementCurrent_def)
qed

lemma drop_exhausted:
  "ex_holds rep crep x yss xs \<Longrightarrow> remains g yss xs out
   \<Longrightarrow> \<exists>x'. dropExhaustedChildren src child x = Some (Inr x') \<and> ex_rep rep crep g x' out"
proof (induction "length yss" arbitrary: yss x xs out)
  case 0
  then show ?case by (subst dropExhaustedChildren.simps) (auto simp: invariant_iff intro: ex_repI)
next
  case (Suc n)
  then obtain ys zss where yss: "yss = ys # zss" "length zss = n" by (cases yss) auto
  show ?case
  proof (cases "ys = []")
    case False
    then show ?thesis using Suc.prems yss
      by (subst dropExhaustedChildren.simps) (auto simp: invariant_iff intro: ex_repI)
  next
    case True
    then have ni: "\<not> ex_invariant child x" using invariant_iff [OF Suc.prems(1)] yss by simp
    let ?x = "x\<lparr>ex_expansions := tl (ex_expansions x)\<rparr>"
    have popped: "ex_holds rep crep ?x zss xs"
      using Suc.prems(1) yss by (auto simp: ex_holds_def list_all2_Cons2)
    have b: "after_children g zss xs out" using Suc.prems(2) True yss by (simp add: remains_def)
    have "\<exists>x' zss' xs'. incrementCurrent src child ?x = Some (Inr x') \<and> ex_holds rep crep x' zss' xs'
      \<and> length zss' = n \<and> remains g zss' xs' out"
    proof (cases zss)
      case Nil
      then show ?thesis using increment_root [of ?x xs] popped b yss by (fastforce simp: remains_def)
    next
      case (Cons zs wss)
      then obtain x' where "incrementCurrent src child ?x = Some (Inr x')" "ex_holds rep crep x' (tl zs # wss) xs"
        using increment_child [of ?x zs wss xs] popped b by auto
      moreover have "remains g (tl zs # wss) xs out" using b Cons by (simp add: remains_def)
      ultimately show ?thesis using Cons yss(2) by (intro exI [of _ x'] exI [of _ "tl zs # wss"] exI [of _ xs]) simp
    qed
    then show ?thesis using ni Suc.hyps(1) by (subst dropExhaustedChildren.simps) auto
  qed
qed

text \<open>
  \<open>g\<close> counts what is still to come from elements not yet visited: nothing below them when
  children are only expanded on demand, and all that grows from them when each is expanded.
\<close>

lemma skip_root:
  assumes "ex_expansions x = []" "rep (ex_src x) (y # xs)" "preorder g xs out"
  shows "\<exists>x'. ex_iterNext src child x = Some (Inr x') \<and> ex_rep rep crep g x' out"
proof -
  obtain x1 where x1: "incrementCurrent src child x = Some (Inr x1)" "ex_holds rep crep x1 [] xs"
    using increment_root [of x "y # xs"] assms by (auto simp: ex_holds_def)
  have "remains g [] xs out" using assms by (simp add: remains_def)
  then show ?thesis using drop_exhausted [OF x1(2)] x1(1) by (simp add: ex_iterNext_def)
qed

lemma skip_child:
  assumes "ex_expansions x = it # st" "rep (ex_src x) xs" "crep it (y # ys)" "list_all2 crep st yss"
    "preorder g ys a" "after_children g yss xs b"
  shows "\<exists>x'. ex_iterNext src child x = Some (Inr x') \<and> ex_rep rep crep g x' (a @ b)"
proof -
  have "ex_holds rep crep x ((y # ys) # yss) xs" using assms by (simp add: ex_holds_def)
  then obtain x1 where x1: "incrementCurrent src child x = Some (Inr x1)" "ex_holds rep crep x1 (ys # yss) xs"
    using increment_child [of x "y # ys" yss xs] by auto
  have "remains g (ys # yss) xs (a @ b)" using assms by (auto simp: remains_def)
  then show ?thesis using drop_exhausted [OF x1(2)] x1(1) by (simp add: ex_iterNext_def)
qed

lemma ex_rep_iterNext:
  assumes "ex_rep rep crep (\<lambda>_. []) x (y # out)"
  shows "\<exists>x'. ex_iterNext src child x = Some (Inr x') \<and> ex_rep rep crep (\<lambda>_. []) x' out"
  using assms
proof (cases rule: ex_rep_cases)
  case (root xs)
  then obtain xs' where "xs = y # xs'" "preorder (\<lambda>_. []) xs' out" by (cases xs) auto
  then show ?thesis using root skip_root by blast
next
  case (child it st z ys yss xs a b)
  then obtain a' where "z = y" "preorder (\<lambda>_. []) ys a'" "out = a' @ b" by auto
  then show ?thesis using child skip_child by blast
qed

lemma expandable:
  assumes "ex_rep rep crep g x (y # out)"
  shows "checkPoint (Expander_core src child) x \<and> ex_invariant child x"
  using assms by (cases rule: ex_rep_cases)
    (auto simp: Expander_core_def hasChildren_def ex_depth_def ex_invariant_def src.checkPoint_iff child.not_at_end)

lemma ex_rep_invariant: "ex_rep rep crep g x out \<Longrightarrow> ex_invariant child x"
  by (auto simp: ex_rep_def invariant_iff)

lemma expand_root:
  assumes "ex_expansions x = []" "rep (ex_src x) (y # xs)" "preorder g (kids y) below" "preorder g xs out"
  shows "\<exists>x'. expandChildren src child expandRoot expandChild x = Some (Inr x') \<and> ex_rep rep crep g x' (below @ out)"
proof -
  obtain new s' where n: "expandRoot (ex_src x) = Inr (new, s')" "rep s' (y # xs)" "crep new (kids y)"
    using root_kids [OF assms(2)] by blast
  let ?x1 = "x\<lparr>ex_src := s'\<rparr>"
  have "\<exists>x2. (if checkPoint child new then Some (Inr (?x1\<lparr>ex_expansions := [new]\<rparr>)) else ex_iterNext src child ?x1)
      = Some (Inr x2) \<and> ex_rep rep crep g x2 (below @ out)"
  proof (cases "kids y = []")
    case True
    then show ?thesis using n assms skip_root [of ?x1 y xs g out] by (simp add: child.checkPoint_iff)
  next
    case False
    have "ex_rep rep crep g (?x1\<lparr>ex_expansions := [new]\<rparr>) (below @ out)"
      using n assms False by (intro ex_repI [of _ _ _ "[kids y]" "y # xs"]) (auto simp: ex_holds_def remains_def)
    then show ?thesis using n False by (simp add: child.checkPoint_iff)
  qed
  moreover have "checkPoint (Expander_core src child) x" "ex_invariant child x"
    using assms by (simp_all add: Expander_core_def src.not_at_end ex_invariant_def hasChildren_def ex_depth_def)
  ultimately show ?thesis using n assms(1) ex_rep_invariant
    by (fastforce simp: expandChildren_def expand_current_def require_def stack_push_def)
qed

lemma expand_child:
  assumes "ex_expansions x = it # st" "rep (ex_src x) xs" "crep it (y # ys)" "list_all2 crep st yss"
    "preorder g (kids y) below" "preorder g ys a" "after_children g yss xs b"
  shows "\<exists>x'. expandChildren src child expandRoot expandChild x = Some (Inr x') \<and> ex_rep rep crep g x' (below @ a @ b)"
proof -
  obtain new it' where n: "expandChild it = Inr (new, it')" "crep it' (y # ys)" "crep new (kids y)"
    using child_kids [OF assms(3)] by blast
  let ?x1 = "x\<lparr>ex_expansions := it' # st\<rparr>"
  have "\<exists>x2. (if checkPoint child new then Some (Inr (?x1\<lparr>ex_expansions := new # it' # st\<rparr>)) else ex_iterNext src child ?x1)
      = Some (Inr x2) \<and> ex_rep rep crep g x2 (below @ a @ b)"
  proof (cases "kids y = []")
    case True
    then show ?thesis using n assms skip_child [of ?x1 it' st xs y ys yss g a b] by (simp add: child.checkPoint_iff)
  next
    case False
    have "ex_rep rep crep g (?x1\<lparr>ex_expansions := new # it' # st\<rparr>) (below @ a @ b)"
      using n assms False
      by (intro ex_repI [of _ _ _ "kids y # (y # ys) # yss" xs]) (auto simp: ex_holds_def remains_def)
    then show ?thesis using n False by (simp add: child.checkPoint_iff)
  qed
  moreover have "checkPoint (Expander_core src child) x" "ex_invariant child x"
    using assms by (simp_all add: Expander_core_def child.not_at_end ex_invariant_def hasChildren_def ex_depth_def)
  ultimately show ?thesis using n assms(1) ex_rep_invariant
    by (fastforce simp: expandChildren_def expand_current_def require_def stack_push_def)
qed

text \<open>On demand, expansion puts the children in the place of the current element.\<close>

lemma expand_on_demand:
  assumes "ex_rep rep crep (\<lambda>_. []) x (y # out)"
  shows "\<exists>x'. expandChildren src child expandRoot expandChild x = Some (Inr x')
    \<and> ex_rep rep crep (\<lambda>_. []) x' (kids y @ out)"
proof -
  have flat: "preorder (\<lambda>_. []) zs zs" for zs :: "'a list" by (induction zs) auto
  from assms show ?thesis
  proof (cases rule: ex_rep_cases)
    case (root xs)
    then obtain xs' where "xs = y # xs'" "preorder (\<lambda>_. []) xs' out" by (cases xs) auto
    then show ?thesis using root expand_root flat by blast
  next
    case (child it st z ys yss xs a b)
    then obtain a' where "z = y" "preorder (\<lambda>_. []) ys a'" "out = a' @ b" by auto
    then show ?thesis using child expand_child flat by blast
  qed
qed

lemma expand_always:
  assumes "ex_rep rep crep kids x (y # out)"
  shows "\<exists>x'. expandChildren src child expandRoot expandChild x = Some (Inr x') \<and> ex_rep rep crep kids x' out"
  using assms
proof (cases rule: ex_rep_cases)
  case (root xs)
  then obtain xs' below rest where "xs = y # xs'" "preorder kids (kids y) below" "preorder kids xs' rest" "out = below @ rest"
    by (cases xs) auto
  then show ?thesis using root expand_root by blast
next
  case (child it st z ys yss xs a b)
  then obtain below a' where "z = y" "preorder kids (kids y) below" "preorder kids ys a'" "out = below @ a' @ b" by auto
  then show ?thesis using child expand_child by blast
qed

lemma ex_rep_yields:
  assumes "ex_rep rep crep g x (y # out)"
  shows "\<exists>x'. yield (Expander_core src child) x = Inr (y, x') \<and> ex_rep rep crep g x' (y # out)"
  using assms
proof (cases rule: ex_rep_cases)
  case (root xs)
  then obtain xs' where xs: "xs = y # xs'" by (cases xs) auto
  then obtain s' where "yield src (ex_src x) = Inr (y, s')" "rep s' xs" using src.yields root by blast
  then show ?thesis using root by (auto simp: Expander_core_def ex_holds_def remains_def intro!: ex_repI [of _ _ _ "[]" xs])
next
  case (child it st z ys yss xs a b)
  then have "z = y" by auto
  then obtain it' where "yield child it = Inr (y, it')" "crep it' (y # ys)" using child.yields child by blast
  moreover have "remains g ((y # ys) # yss) xs (y # out)" using child \<open>z = y\<close> unfolding remains_def list.case by blast
  ultimately show ?thesis using child
    by (auto simp: Expander_core_def ex_holds_def intro!: ex_repI [of _ _ _ "(y # ys) # yss" xs])
qed

lemma ex_rep_end:
  assumes "ex_rep rep crep g x []"
  shows "\<not> checkPoint (Expander_core src child) x"
  using assms by (cases rule: ex_rep_cases)
    (auto simp: Expander_core_def hasChildren_def ex_depth_def elim!: preorder_NilE dest: src.at_end)

lemma expander: "presents (Expander_core src child) (ex_rep rep crep (\<lambda>_. []))"
  by unfold_locales (auto simp: ex_rep_end expandable ex_rep_yields, simp add: Expander_core_def ex_rep_iterNext)

lemma auto_expander: "presents (AutoExpander_core src child expandRoot expandChild) (ex_rep rep crep kids)"
proof (unfold_locales, goal_cases)
  case (4 x y out)
  then show ?case using expand_always expandable by (simp add: AutoExpander_core_def throw_if_empty_def)
qed (simp_all add: AutoExpander_core_def ex_rep_end expandable ex_rep_yields)

lemma ex_rep_new: "rep s xs \<Longrightarrow> preorder g xs out \<Longrightarrow> ex_rep rep crep g (Expander_new s) out"
  by (intro ex_repI [of _ _ _ "[]" xs]) (simp_all add: Expander_new_def ex_holds_def remains_def)

end

subsection \<open>Grouping\<close>

text \<open>The full groups of \<open>n\<close> elements, and what is left over at the end.\<close>

fun chunks :: "nat \<Rightarrow> 'a list \<Rightarrow> 'a list list" where
  "chunks n xs = (if n = 0 \<or> length xs < n then [] else take n xs # chunks n (drop n xs))"

fun leftover :: "nat \<Rightarrow> 'a list \<Rightarrow> 'a list" where
  "leftover n xs = (if n = 0 \<or> length xs < n then xs else leftover n (drop n xs))"

declare chunks.simps [simp del] leftover.simps [simp del]

lemma chunks_leftover: "concat (chunks n xs) @ leftover n xs = xs"
  by (induction n xs rule: chunks.induct) (subst chunks.simps, subst leftover.simps, simp)

lemma chunks_full: "g \<in> set (chunks n xs) \<Longrightarrow> length g = n"
  by (induction n xs rule: chunks.induct) (subst (asm) (2) chunks.simps, auto split: if_splits)

lemma leftover_short: "0 < n \<Longrightarrow> length (leftover n xs) < n"
  by (induction n xs rule: leftover.induct) (subst leftover.simps, auto)

definition gp_rep ::
  "('s \<Rightarrow> 'a list \<Rightarrow> bool) \<Rightarrow> nat \<Rightarrow> 'a list \<Rightarrow> ('s, 'a) Grouping \<Rightarrow> 'a list list \<Rightarrow> bool" where
  "gp_rep rep n rest g yss \<longleftrightarrow> (\<exists>xs. rep (gp_src g) xs \<and>
     (if length (gp_buff g) = n then yss = gp_buff g # chunks n xs \<and> rest = leftover n xs
      else length (gp_buff g) < n \<and> xs = [] \<and> yss = [] \<and> rest = gp_buff g))"

text \<open>Runs of elements with the same grouping value, each with its aggregate.\<close>

function group_runs :: "('a \<Rightarrow> 'g) \<Rightarrow> ('v \<Rightarrow> 'a \<Rightarrow> 'v) \<Rightarrow> 'v \<Rightarrow> 'a list \<Rightarrow> 'v list" where
  "group_runs g agg v [] = []"
| "group_runs g agg v (x # xs) =
     foldl agg v (x # takeWhile (\<lambda>y. g x = g y) xs) # group_runs g agg v (dropWhile (\<lambda>y. g x = g y) xs)"
  by pat_completeness auto
termination
  by (relation "measure (\<lambda>(g, agg, v, xs). length xs)") (auto simp: length_dropWhile_le less_Suc_eq_le)

definition ga_rep ::
  "('s \<Rightarrow> 'a list \<Rightarrow> bool) \<Rightarrow> ('a \<Rightarrow> 'g) \<Rightarrow> ('v \<Rightarrow> 'a \<Rightarrow> 'v) \<Rightarrow> 'v \<Rightarrow> ('s, 'v) GroupAggregator \<Rightarrow> 'v list \<Rightarrow> bool" where
  "ga_rep rep g agg v ga ys \<longleftrightarrow> (\<exists>xs. rep (ga_src ga) xs \<and>
     (case ga_agg ga of None \<Rightarrow> xs = [] \<and> ys = [] | Some a \<Rightarrow> ys = a # group_runs g agg v xs))"

context presents begin

lemma gp_fill_takes:
  "rep (gp_src g) xs \<Longrightarrow> \<exists>g'. gp_fill c room g = Some (Inr g')
     \<and> rep (gp_src g') (drop room xs) \<and> gp_buff g' = gp_buff g @ take room xs"
proof (induction room arbitrary: g xs)
  case 0
  then show ?case by simp
next
  case (Suc room)
  show ?case
  proof (cases xs)
    case Nil
    then show ?thesis using Suc.prems by (simp add: at_end)
  next
    case (Cons x ys)
    obtain s1 where s1: "yield c (gp_src g) = Inr (x, s1)" "rep s1 (x # ys)"
      using yields Suc.prems Cons by blast
    obtain s2 where s2: "iterNext c s1 = Some (Inr s2)" "rep s2 ys" using moves_on [OF s1(2)] by blast
    have "checkPoint c (gp_src g)" using Suc.prems Cons not_at_end by simp
    then show ?thesis using s1 s2 Cons Suc.IH [of "\<lparr>gp_src = s2, gp_buff = gp_buff g @ [x]\<rparr>" ys] by auto
  qed
qed

lemma gp_pullGroup_rep:
  assumes "rep (gp_src g) xs" "0 < n"
  shows "\<exists>g'. gp_pullGroup c n g = Some (Inr g') \<and> gp_rep rep n (leftover n xs) g' (chunks n xs)"
proof -
  obtain g' where g': "gp_pullGroup c n g = Some (Inr g')" "rep (gp_src g') (drop n xs)" "gp_buff g' = take n xs"
    using gp_fill_takes [of "g\<lparr>gp_buff := []\<rparr>" xs n] assms(1) by (auto simp: gp_pullGroup_def)
  have "gp_rep rep n (leftover n xs) g' (chunks n xs)" unfolding gp_rep_def
    using g' assms(2) by (intro exI [of _ "drop n xs"]) (subst (1 2) chunks.simps, subst (1 2) leftover.simps, simp)
  with g'(1) show ?thesis by blast
qed

lemma grouped:
  assumes "0 < n"
  shows "presents (Grouping_core c n) (gp_rep rep n rest)"
proof (unfold_locales, goal_cases)
  case (4 g ys yss)
  then obtain xs where "rep (gp_src g) xs" "yss = chunks n xs" "rest = leftover n xs"
    by (auto simp: gp_rep_def split: if_splits)
  then show ?case using gp_pullGroup_rep [of g xs n] assms by (simp add: Grouping_core_def)
qed (auto simp: gp_rep_def Grouping_core_def split: if_splits)

lemma rest_elements: "gp_rep rep n rest g [] \<Longrightarrow> getRestElms c n g = rest"
  by (auto simp: gp_rep_def getRestElms_def Grouping_core_def getGroupedElms_def split: if_splits)

lemma ga_collect_run:
  assumes "functor_computes rep grouping g"
  shows "rep s (x # xs) \<Longrightarrow> \<exists>s'. ga_collect c grouping agg (g x0) a s
      = Some (Inr \<lparr>ga_src = s', ga_agg = Some (foldl agg (agg a x) (takeWhile (\<lambda>y. g x0 = g y) xs))\<rparr>)
    \<and> rep s' (dropWhile (\<lambda>y. g x0 = g y) xs)"
proof (induction xs arbitrary: s x a)
  case Nil
  obtain s1 where s1: "yield c s = Inr (x, s1)" "rep s1 [x]" using yields [OF Nil.prems] by blast
  obtain s2 where s2: "iterNext c s1 = Some (Inr s2)" "rep s2 []" using moves_on [OF s1(2)] by blast
  then show ?case using s1 by (subst ga_collect.simps) (simp add: at_end)
next
  case (Cons y ys)
  obtain s1 where s1: "yield c s = Inr (x, s1)" "rep s1 (x # y # ys)" using yields [OF Cons.prems] by blast
  obtain s2 where s2: "iterNext c s1 = Some (Inr s2)" "rep s2 (y # ys)" using moves_on [OF s1(2)] by blast
  obtain s3 where s3: "grouping s2 = Inr (g y, s3)" "rep s3 (y # ys)" using functor_computesD [OF assms s2(2)] by blast
  show ?case using s1(1) s2(1) s3 not_at_end [OF s2(2)] Cons.IH [OF s3(2), of "agg a x"]
    by (subst ga_collect.simps) auto
qed

lemma ga_pullGroup_rep:
  assumes "functor_computes rep grouping g" "rep (ga_src ga) (x # xs)"
  shows "\<exists>ga'. ga_pullGroup c grouping agg v ga = Some (Inr ga') \<and> ga_rep rep g agg v ga' (group_runs g agg v (x # xs))"
proof -
  obtain s where s: "grouping (ga_src ga) = Inr (g x, s)" "rep s (x # xs)" using functor_computesD [OF assms] by blast
  show ?thesis using s(1) ga_collect_run [OF assms(1) s(2), of agg x v] by (auto simp: ga_pullGroup_def ga_rep_def)
qed

lemma aggregated:
  assumes "functor_computes rep grouping g"
  shows "presents (GroupAggregator_core c grouping agg v) (ga_rep rep g agg v)"
proof (unfold_locales, goal_cases)
  case (4 ga y ys)
  then obtain xs where xs: "rep (ga_src ga) xs" "ys = group_runs g agg v xs"
    by (auto simp: ga_rep_def split: option.splits)
  then show ?case using ga_pullGroup_rep [OF assms]
    by (cases xs) (auto simp: GroupAggregator_core_def at_end not_at_end ga_rep_def)
qed (auto simp: ga_rep_def GroupAggregator_core_def split: option.splits)

text \<open>The constructor asks for the grouping value of the first element without looking whether
  there is one.\<close>

lemma aggregate_empty_source:
  "rep s [] \<Longrightarrow> GroupAggregator_new (CheckedCore c) (adaptFunctor (CheckedCore c) g) agg v s = Some (Inl ITER_EXHAUST)"
  using exhausted_throws by (simp add: GroupAggregator_new_def ga_pullGroup_def adaptFunctor_def)

end

interpretation range_with: presents_with range_core "\<lambda>s xs. s = xs" "adaptFunctor range_core f" f for f
  by unfold_locales (rule range.adapted)

text \<open>Children given as a container range, for any source.\<close>

lemma range_expansion:
  assumes "presents c rep"
  shows "expansion c rep range_core (\<lambda>s xs. s = xs) (adaptFunctor c kids) (adaptFunctor range_core kids) kids"
proof (intro expansion.intro expansion_axioms.intro assms range.presents_axioms)
  show "\<exists>new s'. adaptFunctor c kids s = Inr (new, s') \<and> rep s' (x # xs) \<and> new = kids x" if "rep s (x # xs)" for s x xs
    using presents.adapted [OF assms that] by blast
qed (simp add: adaptFunctor_def range_core_def)

interpretation range_tree: expansion range_core "\<lambda>s xs. s = xs" range_core "\<lambda>s xs. s = xs"
  "adaptFunctor range_core kids" "adaptFunctor range_core kids" kids for kids
  by (rule range_expansion) (rule range.presents_axioms)

definition adapted_test :: "('s, 'a) StateCore \<Rightarrow> ('a \<Rightarrow> bool) \<Rightarrow> 's \<Rightarrow> bool" where
  "adapted_test c P s = (case yield c s of Inl e \<Rightarrow> False | Inr (x, s') \<Rightarrow> P x)"

lemma effuse_checked: "presents c rep \<Longrightarrow> rep s xs \<Longrightarrow> effuse (CheckedCore c) [] s = Some (Inr xs)"
  using presents.effuse_all [OF presents.presents_checked] by fastforce

subsection \<open>Properties\<close>



text \<open>C18: with automatic expansion a pipeline delivers every element followed depth-first by all that
  grows from its children, whenever this ends; expanding on demand puts the children of the
  current element in its place.\<close>

theorem expansion_depth_first:
  assumes c: "presents c rep" and s: "rep s xs" and out: "preorder kids xs out"
    and x: "ex_rep rep (\<lambda>s xs. s = xs) (\<lambda>_. []) x (y # rest)"
  shows "effuse (CheckedCore (AutoExpander_core c range_core (adaptFunctor c kids) (adaptFunctor range_core kids))) []
      (Expander_new s) = Some (Inr out)
    \<and> bind_partial (expandChildren c range_core (adaptFunctor c kids) (adaptFunctor range_core kids) x)
        (effuse (CheckedCore (Expander_core c range_core)) []) = Some (Inr (kids y @ rest))"
proof -
  note e = range_expansion [OF c, of kids]
  show ?thesis
    using effuse_checked [OF expansion.auto_expander [OF e] expansion.ex_rep_new [OF e s out]]
      expansion.expand_on_demand [OF e x] effuse_checked [OF expansion.expander [OF e]] by fastforce
qed

theorem expansion_depth_first_witness:
  "effuse (CheckedCore (AutoExpander_core range_core range_core (adaptFunctor range_core (\<lambda>n. [0..<n]))
     (adaptFunctor range_core (\<lambda>n. [0..<n])))) [] (Expander_new [2, 1]) = Some (Inr [2, 0, 1, 0, 1, 0])"
proof -
  have p: "preorder (\<lambda>n. [0..<n]) [2, 1] [2, 0, 1, 0, 1, 0]" by (simp add: numeral_2_eq_2)
  have "ex_rep (\<lambda>s xs. s = xs) (\<lambda>s xs. s = xs) (\<lambda>_. []) (Expander_new [5]) [5::nat]"
    by (rule range_tree.ex_rep_new [of _ "[5]"]) simp_all
  from expansion_depth_first [OF range.presents_axioms refl p this] show ?thesis by simp
qed

text \<open>the filter of a running pipeline can be remoulded: from the current position on, the source
  is filtered by the combined, negated or replaced condition.\<close>

theorem filter_remoulded:
  assumes c: "presents c rep" and f: "flt_on rep f P xs"
  shows "bind_partial (andFilter c (adaptFunctor c Q) f) (effuse (CheckedCore (Filter_core c)) []) = Some (Inr (filter (\<lambda>x. P x \<and> Q x) xs))
    \<and> bind_partial (andNotFilter c (adaptFunctor c Q) f) (effuse (CheckedCore (Filter_core c)) []) = Some (Inr (filter (\<lambda>x. P x \<and> \<not> Q x) xs))
    \<and> bind_partial (orFilter c (adaptFunctor c Q) f) (effuse (CheckedCore (Filter_core c)) []) = Some (Inr (filter (\<lambda>x. P x \<or> Q x) xs))
    \<and> bind_partial (orNotFilter c (adaptFunctor c Q) f) (effuse (CheckedCore (Filter_core c)) []) = Some (Inr (filter (\<lambda>x. P x \<or> \<not> Q x) xs))
    \<and> bind_partial (setNewFilter c (adaptFunctor c Q) f) (effuse (CheckedCore (Filter_core c)) []) = Some (Inr (filter Q xs))
    \<and> bind_partial (flipFilter c f) (effuse (CheckedCore (Filter_core c)) []) = Some (Inr (filter (\<lambda>x. \<not> P x) xs))
    \<and> effuse (CheckedCore (Filter_core c)) [] (disableFilter f) = Some (Inr xs)"
proof -
  have pour: "(\<exists>f'. r = Some (Inr f') \<and> flt_rep rep f' ys) \<Longrightarrow> bind_partial r (effuse (CheckedCore (Filter_core c)) []) = Some (Inr ys)"
    for r ys using effuse_checked [OF presents.filtered [OF c]] by auto
  show ?thesis
    using presents.mutable_filter [OF c f presents.adapted_computes [OF c], THEN pour]
      effuse_checked [OF presents.filtered [OF c] presents.disable_rep [OF c f]] by blast
qed

theorem filter_remoulded_witness:
  "bind_partial (andFilter range_core (adaptFunctor range_core even)
     \<lparr>flt_src = [3, 4, 5, 6::nat], flt_predicate = Some (adaptFunctor range_core (\<lambda>x. 2 < x))\<rparr>)
     (effuse (CheckedCore (Filter_core range_core)) []) = Some (Inr [4, 6])"
proof -
  have "flt_on (\<lambda>s xs. s = xs) \<lparr>flt_src = [3, 4, 5, 6::nat], flt_predicate = Some (adaptFunctor range_core (\<lambda>x. 2 < x))\<rparr>
      (\<lambda>x. 2 < x) [3, 4, 5, 6]" by (simp add: flt_on_def range.adapted_computes)
  from filter_remoulded [OF range.presents_axioms this, of even] show ?thesis by simp
qed

end
