(* ===== verification/Planning.thy ===== *)
theory Planning
  imports IterExplorer Quantiser JobTicket TimeFields
begin

text \<open>
  Job planning: the timing specification \<open>steam/play/timings.hpp\<close> and \<open>timings.cpp\<close>, the view
  on a single calculation \<open>steam/engine/job-planning.hpp\<close>, and the planning pipeline of
  \<open>steam/engine/dispatcher.hpp\<close>, built from the layers of \<open>IterExplorer\<close>. The lookup of a job
  ticket is a virtual function of the dispatcher and a parameter here; so is the product of
  rational numbers, which belongs to another library. A plan refers to the nominal time and frame
  number of the frame tick; as plans are only reached while their frame is the current one, the
  model holds these values in the plan.
\<close>

subsection \<open>Timings\<close>

datatype PlaybackUrgency = ASAP | NICE | TIMEBOUND

definition Time_NEVER :: gavl_time_t where "Time_NEVER = Time_MAX"
definition Time_ANYTIME :: gavl_time_t where "Time_ANYTIME = Time_MIN"

type_synonym rational = "int \<times> int"

record Timings =
  tm_grid :: FixedFrameQuantiser
  playbackUrgency :: PlaybackUrgency
  playbackSpeed :: rational
  scheduledDelivery :: gavl_time_t
  outputLatency :: gavl_time_t
  engineLatency :: gavl_time_t

definition buildStandardGridForFramerate :: "FrameRate \<Rightarrow> FixedFrameQuantiser result" where
  "buildStandardGridForFramerate fps = FixedFrameQuantiser_fps fps 0"

definition DEFAULT_ENGINE_LATENCY :: gavl_time_t where
  "DEFAULT_ENGINE_LATENCY = Duration_of_time (TimeValue_raw (lumiera_build_time 10 0 0 0))"

definition Timings_of_fps :: "FrameRate \<Rightarrow> Timings result" where
  "Timings_of_fps fps = bind_result (buildStandardGridForFramerate fps) (\<lambda>grid. Inr
     \<lparr>tm_grid = grid, playbackUrgency = ASAP, playbackSpeed = (1, 1), scheduledDelivery = Time_NEVER,
      outputLatency = Duration_NIL, engineLatency = DEFAULT_ENGINE_LATENCY\<rparr>)"

definition Timings_anchored :: "FrameRate \<Rightarrow> gavl_time_t \<Rightarrow> Timings result" where
  "Timings_anchored fps realTimeAnchor = bind_result (buildStandardGridForFramerate fps) (\<lambda>grid. Inr
     \<lparr>tm_grid = grid, playbackUrgency = TIMEBOUND, playbackSpeed = (1, 1), scheduledDelivery = realTimeAnchor,
      outputLatency = Duration_NIL, engineLatency = DEFAULT_ENGINE_LATENCY\<rparr>)"

definition isOriginalSpeed :: "Timings \<Rightarrow> bool" where
  "isOriginalSpeed tm \<longleftrightarrow> playbackSpeed tm = (1, 1)"

definition isTimebound :: "Timings \<Rightarrow> bool" where
  "isTimebound tm \<longleftrightarrow> playbackUrgency tm = TIMEBOUND"

definition timings_isValid :: "Timings \<Rightarrow> bool" where
  "timings_isValid tm \<longleftrightarrow>
     (playbackUrgency tm = ASAP \<or> playbackUrgency tm = NICE) \<and> scheduledDelivery tm = Time_NEVER
     \<or> playbackUrgency tm = TIMEBOUND \<and> Time_MIN < scheduledDelivery tm \<and> scheduledDelivery tm < Time_MAX"

definition getOrigin :: "Timings \<Rightarrow> gavl_time_t" where
  "getOrigin tm = timeOf (tm_grid tm) 0"

definition getFrameStartAt :: "Timings \<Rightarrow> int \<Rightarrow> gavl_time_t" where
  "getFrameStartAt tm frameNr = timeOf (tm_grid tm) frameNr"

definition getFrameDurationAt_frame :: "Timings \<Rightarrow> int \<Rightarrow> gavl_time_t" where
  "getFrameDurationAt_frame tm refFrameNr =
     Duration_of (Offset_between (timeOf (tm_grid tm) refFrameNr) (timeOf (tm_grid tm) (i64 (refFrameNr + 1))))"

definition getFrameDurationAt :: "Timings \<Rightarrow> gavl_time_t \<Rightarrow> gavl_time_t" where
  "getFrameDurationAt tm refPoint = getFrameDurationAt_frame tm (gridPoint (tm_grid tm) refPoint)"

definition getBreakPointAfter :: "Timings \<Rightarrow> gavl_time_t \<Rightarrow> int" where
  "getBreakPointAfter tm refPoint =
     (let frameNr = gridPoint (tm_grid tm) refPoint
      in if timeOf (tm_grid tm) frameNr = refPoint then frameNr else i64 (frameNr + 1))"

definition constantFrameTimingsInterval :: "Timings \<Rightarrow> gavl_time_t \<Rightarrow> gavl_time_t" where
  "constantFrameTimingsInterval tm startPoint = Duration_of_time Time_MAX"

text \<open>\<open>rmul\<close> multiplies two rational numbers, each a reduced pair with positive denominator.\<close>

definition stretchedByRationalFactor ::
  "(rational \<Rightarrow> rational \<Rightarrow> rational) \<Rightarrow> gavl_time_t \<Rightarrow> rational \<Rightarrow> gavl_time_t" where
  "stretchedByRationalFactor rmul offset factor =
     (case rmul (offset, 1) factor of (num, den) \<Rightarrow> Offset_of (floordiv num den))"

definition getRealOffset :: "(rational \<Rightarrow> rational \<Rightarrow> rational) \<Rightarrow> Timings \<Rightarrow> int \<Rightarrow> gavl_time_t" where
  "getRealOffset rmul tm frameOffset =
     (let nominalOffset = Offset_between (timeOf (tm_grid tm) 0) (timeOf (tm_grid tm) frameOffset)
      in if isOriginalSpeed tm then nominalOffset
         else stretchedByRationalFactor rmul nominalOffset (playbackSpeed tm))"

definition getTimeDue :: "(rational \<Rightarrow> rational \<Rightarrow> rational) \<Rightarrow> Timings \<Rightarrow> int \<Rightarrow> gavl_time_t result" where
  "getTimeDue rmul tm frameOffset =
     (if playbackUrgency tm = TIMEBOUND
      then bind_result (require (scheduledDelivery tm \<noteq> Time_NEVER) ''scheduledDelivery != Time::NEVER'') (\<lambda>_.
           Inr (Time_of_var (Time_plus (scheduledDelivery tm) (getRealOffset rmul tm frameOffset))))
      else Inr Time_NEVER)"

subsection \<open>The plan for a calculation\<close>

datatype JobPlanning = JobPlanning
  (jp_ticket: JobTicket) (jp_nominal: gavl_time_t) (jp_frameNr: int) (jp_dependent: "JobPlanning option")

definition JobPlanning_top :: "JobTicket \<Rightarrow> gavl_time_t \<Rightarrow> int \<Rightarrow> JobPlanning" where
  "JobPlanning_top ticket nominal frameNr = JobPlanning ticket nominal frameNr None"

definition JobPlanning_chained :: "JobPlanning \<Rightarrow> JobTicket \<Rightarrow> JobPlanning" where
  "JobPlanning_chained parent prerequisite =
     JobPlanning prerequisite (jp_nominal parent) (jp_frameNr parent) (Some parent)"

definition isTopLevel :: "JobPlanning \<Rightarrow> bool" where
  "isTopLevel plan \<longleftrightarrow> jp_dependent plan = None"

definition buildJob :: "JobPlanning \<Rightarrow> Job result" where
  "buildJob plan = createJobFor (jp_ticket plan) (jp_nominal plan)"

definition buildDependencyPlanning :: "JobPlanning \<Rightarrow> JobPlanning list" where
  "buildDependencyPlanning plan = map (JobPlanning_chained plan) (getPrerequisites (jp_ticket plan))"

function determineDeadline :: "(rational \<Rightarrow> rational \<Rightarrow> rational) \<Rightarrow> Timings \<Rightarrow> JobPlanning \<Rightarrow> gavl_time_t result"
and doCalcDeadline :: "(rational \<Rightarrow> rational \<Rightarrow> rational) \<Rightarrow> Timings \<Rightarrow> JobPlanning \<Rightarrow> gavl_time_t result" where
  "determineDeadline rmul tm plan =
     (case playbackUrgency tm of
        ASAP \<Rightarrow> Inr Time_ANYTIME
      | NICE \<Rightarrow> Inr Time_ANYTIME
      | TIMEBOUND \<Rightarrow> doCalcDeadline rmul tm plan)"
| "doCalcDeadline rmul tm (JobPlanning ticket nominal frameNr None) =
     bind_result (getTimeDue rmul tm frameNr) (\<lambda>due.
     bind_result (getExpectedRuntime ticket) (\<lambda>runtime.
       Inr (Time_of_var (TimeVar_minus (TimeVar_minus (Time_minus due runtime) (engineLatency tm)) (outputLatency tm)))))"
| "doCalcDeadline rmul tm (JobPlanning ticket nominal frameNr (Some dependentPlan)) =
     bind_result (determineDeadline rmul tm dependentPlan) (\<lambda>deadline.
     bind_result (getExpectedRuntime ticket) (\<lambda>runtime.
       Inr (Time_of_var (TimeVar_minus (Time_minus deadline runtime) (engineLatency tm)))))"
  by pat_completeness auto
termination
  by (relation "measure (case_sum (\<lambda>(rmul, tm, plan). 2 * size plan + 1) (\<lambda>(rmul, tm, plan). 2 * size plan))") auto

subsection \<open>The planning pipeline\<close>

record PipeFrameTick =
  ft_timings :: Timings
  currPoint :: gavl_time_t
  stopPoint :: gavl_time_t
  frameNr :: int

definition forCalcStream :: "Timings \<Rightarrow> PipeFrameTick" where
  "forCalcStream timings = \<lparr>ft_timings = timings, currPoint = Time_NEVER, stopPoint = Time_NEVER, frameNr = 0\<rparr>"

definition tick_core :: "(PipeFrameTick, gavl_time_t) StateCore" where
  "tick_core =
     \<lparr>checkPoint = (\<lambda>t. currPoint t < stopPoint t),
      yield = (\<lambda>t. Inr (currPoint t, t)),
      iterNext = (\<lambda>t. let nr = i64 (frameNr t + 1)
                       in Some (Inr (t\<lparr>frameNr := nr, currPoint := getFrameStartAt (ft_timings t) nr\<rparr>)))\<rparr>"

definition tick_activate :: "gavl_time_t \<Rightarrow> gavl_time_t \<Rightarrow> PipeFrameTick \<Rightarrow> PipeFrameTick" where
  "tick_activate start after t =
     (let nr = getBreakPointAfter (ft_timings t) start
      in t\<lparr>stopPoint := after, frameNr := nr, currPoint := getFrameStartAt (ft_timings t) nr\<rparr>)"

text \<open>Each builder function adds a layer; a source is accessed through a \<open>CheckedCore\<close>.\<close>

definition timeRange_core :: "(PipeFrameTick, gavl_time_t) StateCore" where
  "timeRange_core = CheckedCore tick_core"

definition pull_functor :: "(nat \<Rightarrow> gavl_time_t \<Rightarrow> JobTicket) \<Rightarrow> nat \<Rightarrow> (PipeFrameTick, JobPlanning) src_functor" where
  "pull_functor getJobTicketFor portIDX core =
     Inr (JobPlanning_top (getJobTicketFor portIDX (currPoint core)) (currPoint core) (frameNr core), core)"

definition pullFrom_core ::
  "(nat \<Rightarrow> gavl_time_t \<Rightarrow> JobTicket) \<Rightarrow> nat \<Rightarrow> ((PipeFrameTick, JobPlanning) Transformer, JobPlanning) StateCore" where
  "pullFrom_core getJobTicketFor portIDX = CheckedCore (Transformer_core timeRange_core (pull_functor getJobTicketFor portIDX))"

type_synonym planning_state = "((PipeFrameTick, JobPlanning) Transformer, JobPlanning list) Expander"

definition expandPrerequisites_core ::
  "(nat \<Rightarrow> gavl_time_t \<Rightarrow> JobTicket) \<Rightarrow> nat \<Rightarrow> (planning_state, JobPlanning) StateCore" where
  "expandPrerequisites_core getJobTicketFor portIDX =
     (let src = pullFrom_core getJobTicketFor portIDX
      in CheckedCore (AutoExpander_core src range_core
           (adaptFunctor src buildDependencyPlanning) (adaptFunctor range_core buildDependencyPlanning)))"

definition feedTo_core ::
  "(nat \<Rightarrow> gavl_time_t \<Rightarrow> JobTicket) \<Rightarrow> nat \<Rightarrow> ((planning_state, JobPlanning) Transformer, JobPlanning) StateCore" where
  "feedTo_core getJobTicketFor portIDX =
     (let src = expandPrerequisites_core getJobTicketFor portIDX
      in CheckedCore (Transformer_core src (adaptFunctor src (\<lambda>currentLevel. currentLevel))))"

definition PlanningPipeline :: "Timings \<Rightarrow> gavl_time_t \<Rightarrow> gavl_time_t \<Rightarrow> (planning_state, JobPlanning) Transformer" where
  "PlanningPipeline timings start after =
     Transformer_new (Expander_new (Transformer_new (tick_activate start after (forCalcStream timings))))"

definition pipe_tick :: "(planning_state, JobPlanning) Transformer \<Rightarrow> PipeFrameTick" where
  "pipe_tick p = tf_src (ex_src (tf_src p))"

definition currFrameNr :: "(planning_state, JobPlanning) Transformer \<Rightarrow> int" where
  "currFrameNr p = frameNr (pipe_tick p)"

definition isBefore :: "gavl_time_t \<Rightarrow> (planning_state, JobPlanning) Transformer \<Rightarrow> bool" where
  "isBefore breakPoint p \<longleftrightarrow> currFrameNr p < getBreakPointAfter (ft_timings (pipe_tick p)) breakPoint"

definition pipeline_buildJob ::
  "(nat \<Rightarrow> gavl_time_t \<Rightarrow> JobTicket) \<Rightarrow> nat \<Rightarrow> (planning_state, JobPlanning) Transformer \<Rightarrow> Job result" where
  "pipeline_buildJob getJobTicketFor portIDX p =
     bind_result (yield (feedTo_core getJobTicketFor portIDX) p) (\<lambda>(plan, p'). buildJob plan)"

definition pipeline_determineDeadline ::
  "(rational \<Rightarrow> rational \<Rightarrow> rational) \<Rightarrow> (nat \<Rightarrow> gavl_time_t \<Rightarrow> JobTicket) \<Rightarrow> nat
   \<Rightarrow> (planning_state, JobPlanning) Transformer \<Rightarrow> gavl_time_t result" where
  "pipeline_determineDeadline rmul getJobTicketFor portIDX p =
     bind_result (yield (feedTo_core getJobTicketFor portIDX) p) (\<lambda>(plan, p').
       determineDeadline rmul (ft_timings (pipe_tick p)) plan)"

definition dispatcher_createJobFor :: "(nat \<Rightarrow> gavl_time_t \<Rightarrow> JobTicket) \<Rightarrow> nat \<Rightarrow> gavl_time_t \<Rightarrow> Job result" where
  "dispatcher_createJobFor getJobTicketFor portIDX nominal = createJobFor (getJobTicketFor portIDX nominal) nominal"

subsection \<open>Frames between two time points\<close>

lemma on_grid_successor: "on_frame_grid q n \<Longrightarrow> i64 (n + 1) = n + 1"
proof (rule i64_id)
  assume a: "on_frame_grid q n"
  have r: "1 \<le> ffq_raster q" and b: "\<bar>ffq_origin q\<bar> \<le> Time_MAX" "\<bar>ffq_origin q + n * ffq_raster q\<bar> \<le> Time_MAX"
    using a by (auto simp: on_frame_grid_def quantiser_ok_def)
  have "\<bar>n\<bar> * 1 \<le> \<bar>n\<bar> * ffq_raster q" using r by (intro mult_left_mono) auto
  moreover have "\<bar>n * ffq_raster q\<bar> = \<bar>n\<bar> * ffq_raster q" using r by (simp add: abs_mult)
  ultimately show "\<bar>n + 1\<bar> \<le> INT64_MAX" using b unfolding time_limits by linarith
qed

lemma on_grid_between: "on_frame_grid q a \<Longrightarrow> on_frame_grid q b \<Longrightarrow> a \<le> n \<Longrightarrow> n \<le> b \<Longrightarrow> on_frame_grid q n"
proof -
  assume a: "on_frame_grid q a" and b: "on_frame_grid q b" and n: "a \<le> n" "n \<le> b"
  have "0 \<le> ffq_raster q" using a by (simp add: on_frame_grid_def quantiser_ok_def)
  then have "a * ffq_raster q \<le> n * ffq_raster q" "n * ffq_raster q \<le> b * ffq_raster q"
    using n by (simp_all add: mult_right_mono)
  then show ?thesis using a b by (auto simp: on_frame_grid_def)
qed

lemma break_point_iff:
  assumes "on_frame_grid (tm_grid tm) n" "grid_covers (tm_grid tm) t"
  shows "timeOf (tm_grid tm) n < t \<longleftrightarrow> n < getBreakPointAfter tm t"
proof -
  let ?q = "tm_grid tm" let ?g = "gridPoint ?q t"
  have g: "on_frame_grid ?q ?g" by (rule grid_covers_on_grid [OF assms(2)])
  have le: "timeOf ?q n \<le> t \<longleftrightarrow> n \<le> ?g" by (rule ffq.time_of_le_iff [OF assms(2,1)])
  show ?thesis
  proof (cases "timeOf ?q ?g = t")
    case True
    have "timeOf ?q n = t \<longleftrightarrow> n = ?g"
      using True ffq.time_of_strict [OF assms(1) g] ffq.time_of_strict [OF g assms(1)] by (cases n ?g rule: linorder_cases) auto
    then show ?thesis using True le by (auto simp: getBreakPointAfter_def Let_def)
  next
    case False
    have "timeOf ?q n \<noteq> t" using False ffq.grid_point_time_of [OF assms(1)] assms(2) by auto
    then show ?thesis using le False by (simp add: getBreakPointAfter_def on_grid_successor [OF g]) linarith
  qed
qed

lemma break_point_mono:
  assumes "grid_covers (tm_grid tm) s" "grid_covers (tm_grid tm) t" "s \<le> t"
  shows "getBreakPointAfter tm s \<le> getBreakPointAfter tm t"
proof (rule ccontr)
  let ?q = "tm_grid tm" let ?a = "gridPoint ?q s" let ?b = "gridPoint ?q t"
  note ag = grid_covers_on_grid [OF assms(1)] and bg = grid_covers_on_grid [OF assms(2)]
  have ab: "?a \<le> ?b" by (rule ffq.grid_point_mono [OF assms])
  assume "\<not> getBreakPointAfter tm s \<le> getBreakPointAfter tm t"
  with ab have n: "timeOf ?q ?a \<noteq> s" "timeOf ?q ?b = t" "?a = ?b"
    by (auto simp: getBreakPointAfter_def Let_def on_grid_successor [OF ag] on_grid_successor [OF bg] split: if_splits)
  then show False using ffq.grid_point_below [OF assms(1)] assms(3) by simp
qed

definition frames_until :: "Timings \<Rightarrow> gavl_time_t \<Rightarrow> int \<Rightarrow> int \<Rightarrow> bool" where
  "frames_until tm stop n0 n1 \<longleftrightarrow> (\<forall>n. n0 \<le> n \<and> n < n1 \<longrightarrow> timeOf (tm_grid tm) n < stop
     \<and> gridPoint (tm_grid tm) (timeOf (tm_grid tm) n) = n \<and> i64 (n + 1) = n + 1)"

definition tick_rep :: "Timings \<Rightarrow> PipeFrameTick \<Rightarrow> gavl_time_t list \<Rightarrow> bool" where
  "tick_rep tm t ts \<longleftrightarrow> ft_timings t = tm \<and> currPoint t = timeOf (tm_grid tm) (frameNr t) \<and>
     (\<exists>n1. frameNr t \<le> n1 \<and> ts = map (timeOf (tm_grid tm)) [frameNr t..n1 - 1]
        \<and> \<not> timeOf (tm_grid tm) n1 < stopPoint t
        \<and> frames_until tm (stopPoint t) (frameNr t) n1)"

lemma tick_rep_ConsD:
  assumes "tick_rep tm t (x # ts)"
  shows "ft_timings t = tm" "x = currPoint t" "currPoint t < stopPoint t"
    "gridPoint (tm_grid tm) (currPoint t) = frameNr t" "i64 (frameNr t + 1) = frameNr t + 1"
    "tick_rep tm (t\<lparr>frameNr := frameNr t + 1, currPoint := getFrameStartAt tm (frameNr t + 1)\<rparr>) ts"
proof -
  obtain n1 where n1: "frameNr t \<le> n1" "x # ts = map (timeOf (tm_grid tm)) [frameNr t..n1 - 1]"
    "\<not> timeOf (tm_grid tm) n1 < stopPoint t" and n: "frames_until tm (stopPoint t) (frameNr t) n1"
    using assms [unfolded tick_rep_def, THEN conjunct2, THEN conjunct2] by (elim exE conjE)
  have c: "ft_timings t = tm" "currPoint t = timeOf (tm_grid tm) (frameNr t)" by (rule assms [unfolded tick_rep_def, THEN conjunct1], rule assms [unfolded tick_rep_def, THEN conjunct2, THEN conjunct1])
  have lt: "frameNr t < n1" 
  proof (rule ccontr)
    assume "\<not> frameNr t < n1"
    then have "[frameNr t..n1 - 1] = []" by simp
    with n1(2) show False by (simp only: list.map list.distinct)
  qed
  then have u: "[frameNr t..n1 - 1] = frameNr t # [frameNr t + 1..n1 - 1]" by (intro upto_rec1) simp
  have xs: "x = timeOf (tm_grid tm) (frameNr t)" "ts = map (timeOf (tm_grid tm)) [frameNr t + 1..n1 - 1]"
    using n1(2) unfolding u by (simp_all only: list.map list.inject)
  show "ft_timings t = tm" "x = currPoint t" "currPoint t < stopPoint t"
    "gridPoint (tm_grid tm) (currPoint t) = frameNr t" "i64 (frameNr t + 1) = frameNr t + 1"
    using c n [unfolded frames_until_def, rule_format, of "frameNr t"] lt xs by simp_all
  show "tick_rep tm (t\<lparr>frameNr := frameNr t + 1, currPoint := getFrameStartAt tm (frameNr t + 1)\<rparr>) ts"
    unfolding tick_rep_def using c(1) n1(3) lt n xs(2)
    by (intro conjI exI [of _ n1]) (simp_all add: getFrameStartAt_def frames_until_def)
qed

lemma tick_rep_NilD:
  assumes "tick_rep tm t []"
  shows "\<not> currPoint t < stopPoint t"
proof -
  obtain n1 where "frameNr t \<le> n1" "[] = map (timeOf (tm_grid tm)) [frameNr t..n1 - 1]"
    "\<not> timeOf (tm_grid tm) n1 < stopPoint t" "currPoint t = timeOf (tm_grid tm) (frameNr t)"
    using assms [unfolded tick_rep_def] by (elim exE conjE)
  moreover from this have "n1 = frameNr t" by simp
  ultimately show ?thesis by simp
qed

interpretation tick: presents tick_core "tick_rep tm" for tm
proof (unfold_locales, goal_cases)
  case (1 t) then show ?case using tick_rep_NilD by (simp add: tick_core_def)
next
  case (2 t x ts) then show ?case using tick_rep_ConsD(3) by (simp add: tick_core_def)
next
  case (3 t x ts) then show ?case using tick_rep_ConsD(2) [OF 3] by (simp add: tick_core_def)
next
  case (4 t x ts)
  then show ?case using tick_rep_ConsD(1,5,6) [OF 4] by (simp add: tick_core_def Let_def)
qed

lemma frames_in_range:
  assumes "grid_covers (tm_grid tm) start" "grid_covers (tm_grid tm) after" "start \<le> after"
    and stop: "on_frame_grid (tm_grid tm) (getBreakPointAfter tm after)"
  shows "frames_until tm after (getBreakPointAfter tm start) (getBreakPointAfter tm after)"
  unfolding frames_until_def
proof (intro allI impI conjI)
  let ?q = "tm_grid tm"
  fix n assume n: "getBreakPointAfter tm start \<le> n \<and> n < getBreakPointAfter tm after"
  have g: "on_frame_grid ?q (gridPoint ?q start)" by (rule grid_covers_on_grid [OF assms(1)])
  have "gridPoint ?q start \<le> getBreakPointAfter tm start"
    by (simp add: getBreakPointAfter_def Let_def on_grid_successor [OF g])
  then have o: "on_frame_grid ?q n" using on_grid_between [OF g stop, of n] n by simp
  show "i64 (n + 1) = n + 1" by (rule on_grid_successor [OF o])
  show a: "timeOf ?q n < after" using break_point_iff [OF o assms(2)] n by simp
  have "start \<le> timeOf ?q n" using break_point_iff [OF o assms(1)] n by linarith
  then have "grid_covers ?q (timeOf ?q n)" using assms(1,2) a by (auto simp: grid_covers_def)
  then show "gridPoint ?q (timeOf ?q n) = n" by (rule ffq.grid_point_time_of [OF o])
qed

lemma tick_rep_activate:
  assumes "grid_covers (tm_grid tm) start" "grid_covers (tm_grid tm) after" "start \<le> after"
    and stop: "on_frame_grid (tm_grid tm) (getBreakPointAfter tm after)"
  shows "tick_rep tm (tick_activate start after (forCalcStream tm))
           (map (timeOf (tm_grid tm)) [getBreakPointAfter tm start..getBreakPointAfter tm after - 1])"
proof -
  have "\<not> timeOf (tm_grid tm) (getBreakPointAfter tm after) < after" using break_point_iff [OF stop assms(2)] by simp
  then show ?thesis using frames_in_range [OF assms] break_point_mono [OF assms(1-3)]
    by (auto simp: tick_rep_def tick_activate_def forCalcStream_def getFrameStartAt_def Let_def
        intro!: exI [of _ "getBreakPointAfter tm after"])
qed

subsection \<open>The plans of a frame\<close>

text \<open>A plan for the ticket itself, followed depth-first by plans for all its prerequisites.\<close>

fun plans_of :: "JobTicket \<Rightarrow> gavl_time_t \<Rightarrow> int \<Rightarrow> JobPlanning option \<Rightarrow> JobPlanning list" where
  "plans_of (JobTicket func node seed pre) nominal nr dep =
     (let plan = JobPlanning (JobTicket func node seed pre) nominal nr dep
      in plan # (if en_empty node then [] else concat (map (\<lambda>p. plans_of p nominal nr (Some plan)) pre)))"

lemma preorder_append: "preorder kids xs a \<Longrightarrow> preorder kids ys b \<Longrightarrow> preorder kids (xs @ ys) (a @ b)"
  by (induction rule: preorder.induct) auto

lemma preorder_concat: "(\<And>x. x \<in> set xs \<Longrightarrow> preorder kids [g x] (f x)) \<Longrightarrow> preorder kids (map g xs) (concat (map f xs))"
proof (induction xs)
  case (Cons x xs)
  have "preorder kids ([g x] @ map g xs) (f x @ concat (map f xs))" using Cons by (intro preorder_append) auto
  then show ?case by simp
qed simp

lemma plans_preorder:
  "preorder buildDependencyPlanning [JobPlanning t nominal nr dep] (plans_of t nominal nr dep)"
proof (induction t nominal nr dep rule: plans_of.induct)
  case (1 func node seed pre nominal nr dep)
  let ?plan = "JobPlanning (JobTicket func node seed pre) nominal nr dep"
  have k: "buildDependencyPlanning ?plan = (if en_empty node then [] else map (\<lambda>p. JobPlanning p nominal nr (Some ?plan)) pre)"
    by (simp add: buildDependencyPlanning_def getPrerequisites_def ticket_empty_def JobPlanning_chained_def)
  have "preorder buildDependencyPlanning (map (\<lambda>p. JobPlanning p nominal nr (Some ?plan)) pre)
      (concat (map (\<lambda>p. plans_of p nominal nr (Some ?plan)) pre))" if "\<not> en_empty node"
    using 1 [OF refl that] by (intro preorder_concat) blast
  then show ?case by (simp add: k Let_def)
qed

definition frame_plan :: "(nat \<Rightarrow> gavl_time_t \<Rightarrow> JobTicket) \<Rightarrow> nat \<Rightarrow> Timings \<Rightarrow> gavl_time_t \<Rightarrow> JobPlanning" where
  "frame_plan ticketFor port tm time = JobPlanning_top (ticketFor port time) time (gridPoint (tm_grid tm) time)"

interpretation pulled: presents_with timeRange_core "tick_rep tm" "pull_functor ticketFor port" "frame_plan ticketFor port tm"
  for tm ticketFor port
proof (intro presents_with.intro presents_with_axioms.intro)
  show "presents timeRange_core (tick_rep tm)" unfolding timeRange_core_def by (rule tick.presents_checked)
  show "\<exists>s'. pull_functor ticketFor port s = Inr (frame_plan ticketFor port tm x, s') \<and> tick_rep tm s' (x # xs)"
    if "tick_rep tm s (x # xs)" for s x xs
    using tick_rep_ConsD(2,4) [OF that] that by (simp add: pull_functor_def frame_plan_def)
qed

abbreviation pulled_rep ::
  "(nat \<Rightarrow> gavl_time_t \<Rightarrow> JobTicket) \<Rightarrow> nat \<Rightarrow> Timings \<Rightarrow> (PipeFrameTick, JobPlanning) Transformer \<Rightarrow> JobPlanning list \<Rightarrow> bool" where
  "pulled_rep ticketFor port tm \<equiv> tf_rep (tick_rep tm) (frame_plan ticketFor port tm)"

lemma pullFrom_presents: "presents (pullFrom_core ticketFor port) (pulled_rep ticketFor port tm)"
  unfolding pullFrom_core_def by (rule presents.presents_checked [OF pulled.transformed])

interpretation expanded: expansion "pullFrom_core ticketFor port" "pulled_rep ticketFor port tm"
  range_core "\<lambda>s xs. s = xs" "adaptFunctor (pullFrom_core ticketFor port) buildDependencyPlanning"
  "adaptFunctor range_core buildDependencyPlanning" buildDependencyPlanning for tm ticketFor port
  by (rule range_expansion [OF pullFrom_presents])

abbreviation planning_rep ::
  "(nat \<Rightarrow> gavl_time_t \<Rightarrow> JobTicket) \<Rightarrow> nat \<Rightarrow> Timings \<Rightarrow> planning_state \<Rightarrow> JobPlanning list \<Rightarrow> bool" where
  "planning_rep ticketFor port tm \<equiv> ex_rep (pulled_rep ticketFor port tm) (\<lambda>s xs. s = xs) buildDependencyPlanning"

interpretation fed: presents_with "expandPrerequisites_core ticketFor port" "planning_rep ticketFor port tm"
  "adaptFunctor (expandPrerequisites_core ticketFor port) (\<lambda>plan. plan)" "\<lambda>plan. plan" for tm ticketFor port
proof -
  have p: "presents (expandPrerequisites_core ticketFor port) (planning_rep ticketFor port tm)"
    unfolding expandPrerequisites_core_def Let_def by (rule presents.presents_checked [OF expanded.auto_expander])
  show "presents_with (expandPrerequisites_core ticketFor port) (planning_rep ticketFor port tm)
      (adaptFunctor (expandPrerequisites_core ticketFor port) (\<lambda>plan. plan)) (\<lambda>plan. plan)"
    using presents.adapted [OF p] by (intro presents_with.intro p presents_with_axioms.intro) blast
qed

abbreviation feed_rep ::
  "(nat \<Rightarrow> gavl_time_t \<Rightarrow> JobTicket) \<Rightarrow> nat \<Rightarrow> Timings \<Rightarrow> (planning_state, JobPlanning) Transformer \<Rightarrow> JobPlanning list \<Rightarrow> bool" where
  "feed_rep ticketFor port tm \<equiv> tf_rep (planning_rep ticketFor port tm) (\<lambda>plan. plan)"

lemma feedTo_presents: "presents (feedTo_core ticketFor port) (feed_rep ticketFor port tm)"
  unfolding feedTo_core_def Let_def by (rule presents.presents_checked [OF fed.transformed])

lemma pipeline_rep:
  assumes "tick_rep tm (tick_activate start after (forCalcStream tm)) ts"
  shows "feed_rep ticketFor port tm (PlanningPipeline tm start after)
    (concat (map (\<lambda>time. plans_of (ticketFor port time) time (gridPoint (tm_grid tm) time) None) ts))"
proof -
  have p: "preorder buildDependencyPlanning (map (frame_plan ticketFor port tm) ts)
      (concat (map (\<lambda>time. plans_of (ticketFor port time) time (gridPoint (tm_grid tm) time) None) ts))"
    by (rule preorder_concat) (simp add: frame_plan_def JobPlanning_top_def plans_preorder del: preorder_simps)
  from fed.tf_rep_new [OF expanded.ex_rep_new [OF pulled.tf_rep_new [OF assms] p]]
  show ?thesis by (simp add: PlanningPipeline_def)
qed

lemma is_before_iff:
  "on_frame_grid (tm_grid (ft_timings (pipe_tick p))) (currFrameNr p) \<Longrightarrow> grid_covers (tm_grid (ft_timings (pipe_tick p))) t
   \<Longrightarrow> isBefore t p \<longleftrightarrow> timeOf (tm_grid (ft_timings (pipe_tick p))) (currFrameNr p) < t"
  by (simp add: isBefore_def break_point_iff)

subsection \<open>Deadlines\<close>

text \<open>The calculation, and the guess of its runtime, are refused for an incomplete ticket.\<close>

definition ticket_usable :: "JobTicket \<Rightarrow> bool" where
  "ticket_usable t \<longleftrightarrow> ticket_empty t \<or> ticket_isValid t"

definition ticket_runtime :: "JobTicket \<Rightarrow> gavl_time_t" where
  "ticket_runtime t = (if ticket_empty t then JOB_MINIMUM_RUNTIME else en_runtime (jt_node t))"

lemma expected_runtime: "ticket_usable t \<Longrightarrow> getExpectedRuntime t = Inr (ticket_runtime t)"
  by (auto simp: ticket_usable_def getExpectedRuntime_def ticket_runtime_def require_def)

fun chain_usable :: "JobPlanning \<Rightarrow> bool" where
  "chain_usable (JobPlanning t nominal nr dep) \<longleftrightarrow> ticket_usable t \<and> (case dep of None \<Rightarrow> True | Some p \<Rightarrow> chain_usable p)"

fun chain_time :: "Timings \<Rightarrow> JobPlanning \<Rightarrow> gavl_time_t" where
  "chain_time tm (JobPlanning t nominal nr dep) =
     ticket_runtime t + engineLatency tm + (case dep of None \<Rightarrow> 0 | Some p \<Rightarrow> chain_time tm p)"

fun chain_frame :: "JobPlanning \<Rightarrow> int" where
  "chain_frame (JobPlanning t nominal nr dep) = (case dep of None \<Rightarrow> nr | Some p \<Rightarrow> chain_frame p)"

lemma i64_diff_left: "i64 (i64 a - b) = i64 (a - b)"
  unfolding i64_def by (simp add: mod_simps algebra_simps)

lemma deadline_eq:
  assumes "playbackUrgency tm = TIMEBOUND" "scheduledDelivery tm \<noteq> Time_NEVER"
  shows "chain_usable plan \<Longrightarrow> doCalcDeadline rmul tm plan = Inr (i64
    (scheduledDelivery tm + getRealOffset rmul tm (chain_frame plan) - outputLatency tm - chain_time tm plan))"
proof (induction plan)
  case (JobPlanning t nominal nr dep)
  show ?case
  proof (cases dep)
    case None
    then show ?thesis using assms JobPlanning.prems
      by (simp add: getTimeDue_def require_def expected_runtime Time_of_var_def Time_plus_def Time_minus_def
          TimeVar_plus_def TimeVar_minus_def i64_diff_left algebra_simps)
  next
    case (Some p)
    then have "doCalcDeadline rmul tm p = Inr (i64
      (scheduledDelivery tm + getRealOffset rmul tm (chain_frame p) - outputLatency tm - chain_time tm p))"
      using JobPlanning by auto
    then show ?thesis using assms Some JobPlanning.prems
      by (simp add: expected_runtime Time_of_var_def Time_minus_def TimeVar_minus_def i64_diff_left algebra_simps)
  qed
qed

lemma real_offset_exact:
  assumes "isOriginalSpeed tm" "on_frame_grid (tm_grid tm) 0" "on_frame_grid (tm_grid tm) nr"
  shows "getRealOffset rmul tm nr = nr * ffq_raster (tm_grid tm)"
proof -
  have "\<bar>ffq_origin (tm_grid tm)\<bar> \<le> Time_MAX" "\<bar>ffq_origin (tm_grid tm) + nr * ffq_raster (tm_grid tm)\<bar> \<le> Time_MAX"
    using assms by (simp_all add: on_frame_grid_def)
  then have "Offset_between (ffq_origin (tm_grid tm)) (ffq_origin (tm_grid tm) + nr * ffq_raster (tm_grid tm))
      = nr * ffq_raster (tm_grid tm)"
    by (subst Offset_between_exact) (simp_all add: time_limits)
  then show ?thesis using assms(1)
    by (simp add: getRealOffset_def timeOf_exact [OF assms(2)] timeOf_exact [OF assms(3)])
qed

subsection \<open>Properties\<close>

text \<open>C9: the planning pipeline for a time range delivers plans for exactly the frames that start
  within this range, in order, each followed depth-first by plans for all its prerequisites.\<close>

theorem planning_pipeline:
  assumes start: "grid_covers (tm_grid tm) start" and after: "grid_covers (tm_grid tm) after" and "start \<le> after"
    and stop: "on_frame_grid (tm_grid tm) (getBreakPointAfter tm after)"
  shows "effuse (feedTo_core ticketFor port) [] (PlanningPipeline tm start after) =
      Some (Inr (concat (map (\<lambda>n. plans_of (ticketFor port (getFrameStartAt tm n)) (getFrameStartAt tm n) n None)
        [getBreakPointAfter tm start..getBreakPointAfter tm after - 1])))
    \<and> (\<forall>n. on_frame_grid (tm_grid tm) n \<longrightarrow>
        (n \<in> set [getBreakPointAfter tm start..getBreakPointAfter tm after - 1]
          \<longleftrightarrow> start \<le> getFrameStartAt tm n \<and> getFrameStartAt tm n < after))"
proof (intro conjI allI impI)
  let ?frames = "[getBreakPointAfter tm start..getBreakPointAfter tm after - 1]"
  let ?plans = "\<lambda>time. plans_of (ticketFor port time) time (gridPoint (tm_grid tm) time) None"
  have "effuse (feedTo_core ticketFor port) [] (PlanningPipeline tm start after)
      = Some (Inr (concat (map ?plans (map (timeOf (tm_grid tm)) ?frames))))"
    using presents.effuse_all [OF feedTo_presents pipeline_rep [OF tick_rep_activate [OF assms]], where con = "[]"] by simp
  moreover have "map ?plans (map (timeOf (tm_grid tm)) ?frames)
      = map (\<lambda>n. plans_of (ticketFor port (getFrameStartAt tm n)) (getFrameStartAt tm n) n None) ?frames"
    using frames_in_range [OF assms] by (auto simp: frames_until_def getFrameStartAt_def)
  ultimately show "effuse (feedTo_core ticketFor port) [] (PlanningPipeline tm start after) = Some (Inr (concat
      (map (\<lambda>n. plans_of (ticketFor port (getFrameStartAt tm n)) (getFrameStartAt tm n) n None) ?frames)))"
    by (simp only:)
  show "n \<in> set ?frames \<longleftrightarrow> start \<le> getFrameStartAt tm n \<and> getFrameStartAt tm n < after"
    if "on_frame_grid (tm_grid tm) n" for n
    using break_point_iff [OF that start] break_point_iff [OF that after] by (auto simp: getFrameStartAt_def)
qed

theorem planning_pipeline_witness:
  "\<exists>tm start after plans. effuse (feedTo_core (\<lambda>_ _. JobTicket_NOP) 0) [] (PlanningPipeline tm start after) = Some (Inr plans)
    \<and> map jp_frameNr plans = [0, 1, 2]"
proof -
  let ?q = "\<lparr>ffq_origin = 0, ffq_raster = 40000\<rparr>"
  let ?tm = "\<lparr>tm_grid = ?q, playbackUrgency = ASAP, playbackSpeed = (1, 1), scheduledDelivery = Time_NEVER,
    outputLatency = 0, engineLatency = 10000\<rparr>"
  have c: "grid_covers ?q 0" "grid_covers ?q 100000" and q: "quantiser_ok ?q"
    and o: "on_frame_grid ?q 0" "on_frame_grid ?q 2" "on_frame_grid ?q 3"
    by (simp_all add: grid_covers_def quantiser_ok_def on_frame_grid_def time_limits)
  have t: "timeOf ?q 0 = 0" "timeOf ?q 2 = 80000" using timeOf_exact [OF o(1)] timeOf_exact [OF o(2)] by simp_all
  have "gridPoint ?q 0 = 0" "gridPoint ?q 100000 = 2" using gridPoint_floor [OF q] by (simp_all add: time_limits)
  then have b: "getBreakPointAfter ?tm 0 = 0" "getBreakPointAfter ?tm 100000 = 3"
    using t on_grid_successor [OF o(2)] by (simp_all add: getBreakPointAfter_def)
  have u: "[0..2::int] = [0, 1, 2]" by (simp add: upto.simps)
  have "effuse (feedTo_core (\<lambda>_ _. JobTicket_NOP) 0) [] (PlanningPipeline ?tm 0 100000) =
      Some (Inr (concat (map (\<lambda>n. plans_of JobTicket_NOP (getFrameStartAt ?tm n) n None) [0..2])))"
    using planning_pipeline [of ?tm 0 100000 "\<lambda>_ _. JobTicket_NOP" 0] c o(3) b by simp
  then show ?thesis unfolding u by (intro exI conjI, assumption) (simp add: JobTicket_NOP_def Let_def ExitNode_NIL_def en_empty_def)
qed

text \<open>C10: for playback bound to a time, the deadline of a plan is the due time of its frame, less the
  output latency and, along the chain of plans that wait for it, the runtime of each calculation
  and the latency of the engine; so each prerequisite has to start early enough to be complete
  when the calculation that needs it starts.\<close>

theorem deadline_chain:
  assumes "playbackUrgency tm = TIMEBOUND" "scheduledDelivery tm \<noteq> Time_NEVER" "chain_usable plan"
  shows "determineDeadline rmul tm plan = Inr (i64
      (scheduledDelivery tm + getRealOffset rmul tm (chain_frame plan) - outputLatency tm - chain_time tm plan))
    \<and> (\<forall>pre \<in> set (buildDependencyPlanning plan). ticket_usable (jp_ticket pre) \<longrightarrow>
        (\<exists>d. determineDeadline rmul tm plan = Inr d \<and>
          determineDeadline rmul tm pre = Inr (i64 (d - ticket_runtime (jp_ticket pre) - engineLatency tm))))"
proof (intro conjI ballI impI)
  have d: "determineDeadline rmul tm p = Inr (i64
      (scheduledDelivery tm + getRealOffset rmul tm (chain_frame p) - outputLatency tm - chain_time tm p))"
    if "chain_usable p" for p using deadline_eq [OF assms(1,2) that] assms(1) by simp
  show "determineDeadline rmul tm plan = Inr (i64
      (scheduledDelivery tm + getRealOffset rmul tm (chain_frame plan) - outputLatency tm - chain_time tm plan))"
    by (rule d [OF assms(3)])
  fix pre assume "pre \<in> set (buildDependencyPlanning plan)" and u: "ticket_usable (jp_ticket pre)"
  then obtain t where t: "pre = JobPlanning t (jp_nominal plan) (jp_frameNr plan) (Some plan)"
    by (auto simp: buildDependencyPlanning_def JobPlanning_chained_def)
  then have "determineDeadline rmul tm pre = Inr (i64
      (scheduledDelivery tm + getRealOffset rmul tm (chain_frame pre) - outputLatency tm - chain_time tm pre))"
    using u assms(3) by (intro d) simp
  then show "\<exists>d. determineDeadline rmul tm plan = Inr d \<and>
      determineDeadline rmul tm pre = Inr (i64 (d - ticket_runtime (jp_ticket pre) - engineLatency tm))"
    using d [OF assms(3)] by (simp add: t i64_diff_left algebra_simps del: determineDeadline.simps)
qed

theorem deadline_chain_witness:
  "\<exists>tm top pre. buildDependencyPlanning top = [pre]
    \<and> determineDeadline (\<lambda>a b. a) tm top = Inr 970000 \<and> determineDeadline (\<lambda>a b. a) tm pre = Inr 940000"
proof -
  let ?tm = "\<lparr>tm_grid = \<lparr>ffq_origin = 0, ffq_raster = 40000\<rparr>, playbackUrgency = TIMEBOUND, playbackSpeed = (1, 1),
    scheduledDelivery = 1000000, outputLatency = 0, engineLatency = 10000\<rparr>"
  let ?sub = "JobTicket 2 (ExitNode 8 20000 [] (Some 2)) (2, 8) []"
  let ?top = "JobPlanning_top (JobTicket 1 (ExitNode 7 20000 [ExitNode 8 20000 [] (Some 2)] (Some 1)) (1, 7) [?sub]) 0 0"
  let ?pre = "JobPlanning_chained ?top ?sub"
  have o: "on_frame_grid (tm_grid ?tm) 0" by (simp add: quantiser_ok_def on_frame_grid_def time_limits)
  have z: "getRealOffset (\<lambda>a b. a) ?tm 0 = 0"
    using real_offset_exact [of ?tm 0 "\<lambda>a b. a"] o by (simp add: isOriginalSpeed_def)
  have k: "buildDependencyPlanning ?top = [?pre]"
    by (simp add: buildDependencyPlanning_def JobPlanning_top_def getPrerequisites_def ticket_empty_def en_empty_def)
  have u: "chain_usable ?top" "ticket_usable (jp_ticket ?pre)"
    by (simp_all add: JobPlanning_top_def JobPlanning_chained_def ticket_usable_def en_empty_def)
  have a: "playbackUrgency ?tm = TIMEBOUND" "scheduledDelivery ?tm \<noteq> Time_NEVER" by (simp_all add: Time_NEVER_def time_limits)
  note d = deadline_chain [OF a u(1), of "\<lambda>a b. a"]
  have c: "chain_frame ?top = 0" "chain_time ?tm ?top = 30000" "ticket_runtime (jp_ticket ?pre) = 20000"
    by (simp_all add: JobPlanning_top_def JobPlanning_chained_def ticket_runtime_def ticket_empty_def en_empty_def)
  have top: "determineDeadline (\<lambda>a b. a) ?tm ?top = Inr 970000"
    using conjunct1 [OF d] unfolding c z by (simp add: i64_def del: determineDeadline.simps)
  moreover have "determineDeadline (\<lambda>a b. a) ?tm ?pre = Inr 940000"
    using bspec [OF conjunct2 [OF d], of ?pre] u(2) unfolding k c top by (simp add: i64_def del: determineDeadline.simps)
  ultimately show ?thesis using k by blast
qed

end
