(* ===== verification/SteamLoop.thy ===== *)
theory SteamLoop
  imports LoadController "HOL-Library.Sublist"
begin

text \<open>
  The session thread of \<open>steam/control\<close>: the control logic \<open>looper.hpp\<close>, the queue of commands
  \<open>command-queue.hpp\<close>, the loop of the thread and the dispatcher that owns it, both in
  \<open>steam-dispatcher.cpp\<close>. Each reading of the clock is an argument. A step of the thread is what
  runs between two points where others may intervene; calls from other threads interleave with
  these steps. What a command does is a parameter: whether it can be executed, its ID, and the
  error its invocation ends with, if any.
\<close>

subsection \<open>The control logic\<close>

definition STEAM_DISPATCHER_BUILDER_DELAY_ms :: int where "STEAM_DISPATCHER_BUILDER_DELAY_ms = 50"
definition STEAM_DISPATCHER_BUSY_SLOWDOWN_FACTOR :: int where "STEAM_DISPATCHER_BUSY_SLOWDOWN_FACTOR = 15"

definition wakeTimeout_ms :: int where "wakeTimeout_ms = STEAM_DISPATCHER_BUILDER_DELAY_ms"
definition slowdownFactor :: int where "slowdownFactor = STEAM_DISPATCHER_BUSY_SLOWDOWN_FACTOR"

record Looper =
  lp_shutdown :: bool
  lp_disabled :: bool
  lp_inChange :: bool
  lp_hasWork :: bool
  lp_isDirty :: bool
  lp_gotDirty :: gavl_time_t

definition Looper_new :: Looper where
  "Looper_new = \<lparr>lp_shutdown = False, lp_disabled = False, lp_inChange = False, lp_hasWork = False,
     lp_isDirty = False, lp_gotDirty = Time_MAX\<rparr>"

definition isDying :: "Looper \<Rightarrow> bool" where "isDying l \<longleftrightarrow> lp_shutdown l"
definition loop_isDisabled :: "Looper \<Rightarrow> bool" where "loop_isDisabled l \<longleftrightarrow> lp_disabled l \<or> isDying l"
definition useTimeout :: "Looper \<Rightarrow> bool" where "useTimeout l \<longleftrightarrow> lp_isDirty l \<and> \<not> loop_isDisabled l"
definition isWorking :: "Looper \<Rightarrow> bool" where "isWorking l \<longleftrightarrow> lp_hasWork l \<and> \<not> loop_isDisabled l"
definition idleBuild :: "Looper \<Rightarrow> bool" where "idleBuild l \<longleftrightarrow> lp_isDirty l \<and> \<not> lp_hasWork l"

definition maxBuildTimeout :: gavl_time_t where
  "maxBuildTimeout = Duration_of_time (TimeValue_raw (1000 * (wakeTimeout_ms * slowdownFactor)))"

definition forceBuild :: "gavl_time_t \<Rightarrow> Looper \<Rightarrow> bool" where
  "forceBuild now l \<longleftrightarrow> lp_isDirty l \<and> maxBuildTimeout < Offset_between (lp_gotDirty l) now"

definition runBuild :: "gavl_time_t \<Rightarrow> Looper \<Rightarrow> bool" where
  "runBuild now l \<longleftrightarrow> (idleBuild l \<or> forceBuild now l) \<and> \<not> loop_isDisabled l"

definition loop_isIdle :: "gavl_time_t \<Rightarrow> Looper \<Rightarrow> bool" where
  "loop_isIdle now l \<longleftrightarrow> \<not> (isWorking l \<or> runBuild now l \<or> loop_isDisabled l)"

definition triggerShutdown :: "Looper \<Rightarrow> Looper" where
  "triggerShutdown l = l\<lparr>lp_shutdown := True\<rparr>"

definition enableProcessing :: "bool \<Rightarrow> Looper \<Rightarrow> Looper" where
  "enableProcessing yes l = l\<lparr>lp_disabled := \<not> yes\<rparr>"

definition markStateProcessed :: "gavl_time_t \<Rightarrow> Looper \<Rightarrow> Looper" where
  "markStateProcessed now l =
     (let l1 = l\<lparr>lp_inChange := False\<rparr>
      in if runBuild now l1 then l1\<lparr>lp_isDirty := False\<rparr> else l1)"

definition hasPendingChanges :: "Looper \<Rightarrow> bool" where
  "hasPendingChanges l \<longleftrightarrow> lp_inChange l"

definition startBuilderTimeout :: "gavl_time_t \<Rightarrow> Looper \<Rightarrow> Looper" where
  "startBuilderTimeout now l = l\<lparr>lp_gotDirty := now\<rparr>"

definition requireAction :: "bool \<Rightarrow> gavl_time_t \<Rightarrow> gavl_time_t \<Rightarrow> Looper \<Rightarrow> bool \<times> Looper" where
  "requireAction commandsPending now now' l =
     (let l1 = l\<lparr>lp_hasWork := commandsPending\<rparr>;
          proceedImmediately = isWorking l1 \<or> forceBuild now l1 \<or> isDying l1;
          l2 = l1\<lparr>lp_inChange := proceedImmediately \<or> useTimeout l1\<rparr>;
          l3 = (if isWorking l2 \<and> \<not> lp_isDirty l2 then (startBuilderTimeout now' l2)\<lparr>lp_isDirty := True\<rparr> else l2)
      in (proceedImmediately, l3))"

definition shallLoop :: "Looper \<Rightarrow> bool" where
  "shallLoop l \<longleftrightarrow> \<not> isDying l"

text \<open>In milliseconds.\<close>

definition getTimeout :: "Looper \<Rightarrow> int" where
  "getTimeout l =
     (if \<not> useTimeout l then 0
      else wakeTimeout_ms * (if lp_isDirty l \<and> \<not> isWorking l then 1 else slowdownFactor))"

subsection \<open>The loop of the session thread\<close>

record 'c CommandOps =
  canExec :: "'c \<Rightarrow> bool"
  getID :: "'c \<Rightarrow> string"
  invoke_cmd :: "'c \<Rightarrow> string option"

datatype 'c LoopPos = AtTop | Waiting gavl_time_t | AtBody | Executing 'c | AtUpdate | Ended

text \<open>The oldest command, at the back of the deque, is the head of the list.\<close>

record 'c DispatcherLoop =
  dl_service :: bool
  dl_queue :: "'c list"
  dl_error :: string
  dl_looper :: Looper
  dl_pos :: "'c LoopPos"

definition queue_feed :: "'c CommandOps \<Rightarrow> 'c \<Rightarrow> 'c list \<Rightarrow> 'c list result" where
  "queue_feed ops cmd q =
     (if \<not> canExec ops cmd then Inl (Err Logic ''UNBOUND_ARGUMENTS'') else Inr (q @ [cmd]))"

definition queue_clear :: "'c list \<Rightarrow> 'c list" where
  "queue_clear q = []"

definition queue_pop :: "'c list \<Rightarrow> ('c \<times> 'c list) result" where
  "queue_pop q = (case q of [] \<Rightarrow> Inl (Err Invalid ''Can't iterate further'') | cmd # rest \<Rightarrow> Inr (cmd, rest))"

definition DispatcherLoop_new :: "'c DispatcherLoop" where
  "DispatcherLoop_new = \<lparr>dl_service = True, dl_queue = [], dl_error = [], dl_looper = Looper_new, dl_pos = AtTop\<rparr>"

definition activateCommandProcessing :: "('c, 'z) DispatcherLoop_scheme \<Rightarrow> ('c, 'z) DispatcherLoop_scheme" where
  "activateCommandProcessing s = s\<lparr>dl_looper := enableProcessing True (dl_looper s)\<rparr>"

definition deactivateCommandProcessing :: "('c, 'z) DispatcherLoop_scheme \<Rightarrow> ('c, 'z) DispatcherLoop_scheme" where
  "deactivateCommandProcessing s = s\<lparr>dl_looper := enableProcessing False (dl_looper s)\<rparr>"

definition loop_requestStop :: "('c, 'z) DispatcherLoop_scheme \<Rightarrow> ('c, 'z) DispatcherLoop_scheme" where
  "loop_requestStop s = s\<lparr>dl_service := False, dl_looper := triggerShutdown (dl_looper s)\<rparr>"

definition isStateSynched :: "bool \<Rightarrow> ('c, 'z) DispatcherLoop_scheme \<Rightarrow> bool result" where
  "isStateSynched invokedWithinThread s =
     (if invokedWithinThread then Inl (Err Fatal ''LIFECYCLE'')
      else Inr (\<not> hasPendingChanges (dl_looper s)))"

definition loop_enqueue :: "'c CommandOps \<Rightarrow> 'c \<Rightarrow> ('c, 'z) DispatcherLoop_scheme \<Rightarrow> ('c, 'z) DispatcherLoop_scheme result" where
  "loop_enqueue ops cmd s = bind_result (queue_feed ops cmd (dl_queue s)) (\<lambda>q. Inr (s\<lparr>dl_queue := q\<rparr>))"

definition loop_clear :: "('c, 'z) DispatcherLoop_scheme \<Rightarrow> ('c, 'z) DispatcherLoop_scheme" where
  "loop_clear s = s\<lparr>dl_queue := queue_clear (dl_queue s)\<rparr>"

definition loop_size :: "('c, 'z) DispatcherLoop_scheme \<Rightarrow> nat" where
  "loop_size s = length (dl_queue s)"

text \<open>
  \<open>awaitAction\<close> evaluates the condition at once, after each wake-up, and a last time when the
  timeout has passed; the loop goes on in any case then.
\<close>

definition check_action :: "gavl_time_t \<Rightarrow> gavl_time_t \<Rightarrow> ('c, 'z) DispatcherLoop_scheme \<Rightarrow> bool \<times> ('c, 'z) DispatcherLoop_scheme" where
  "check_action now now' s =
     (case requireAction (dl_queue s \<noteq> []) now now' (dl_looper s) of (act, l) \<Rightarrow> (act, s\<lparr>dl_looper := l\<rparr>))"

definition awaitAction_enter ::
  "gavl_time_t \<Rightarrow> gavl_time_t \<Rightarrow> gavl_time_t \<Rightarrow> ('c, 'z) DispatcherLoop_scheme \<Rightarrow> ('c, 'z) DispatcherLoop_scheme" where
  "awaitAction_enter start now now' s =
     (let timeout = getTimeout (dl_looper s)
      in case check_action now now' s of (act, s') \<Rightarrow>
           s'\<lparr>dl_pos := (if act then AtBody else Waiting (start + 1000 * timeout))\<rparr>)"

definition awaitAction_wake ::
  "gavl_time_t \<Rightarrow> gavl_time_t \<Rightarrow> ('c, 'z) DispatcherLoop_scheme \<Rightarrow> ('c, 'z) DispatcherLoop_scheme" where
  "awaitAction_wake now now' s =
     (case check_action now now' s of (act, s') \<Rightarrow> if act then s'\<lparr>dl_pos := AtBody\<rparr> else s')"

definition awaitAction_timeout ::
  "gavl_time_t \<Rightarrow> gavl_time_t \<Rightarrow> ('c, 'z) DispatcherLoop_scheme \<Rightarrow> ('c, 'z) DispatcherLoop_scheme" where
  "awaitAction_timeout now now' s = (case check_action now now' s of (act, s') \<Rightarrow> s'\<lparr>dl_pos := AtBody\<rparr>)"

definition loop_updateState :: "gavl_time_t \<Rightarrow> ('c, 'z) DispatcherLoop_scheme \<Rightarrow> ('c, 'z) DispatcherLoop_scheme" where
  "loop_updateState now s = s\<lparr>dl_looper := markStateProcessed now (dl_looper s), dl_pos := AtTop\<rparr>"

definition processCommands :: "('c, 'z) DispatcherLoop_scheme \<Rightarrow> ('c, 'z) DispatcherLoop_scheme" where
  "processCommands s =
     (case queue_pop (dl_queue s) of
        Inl e \<Rightarrow> s\<lparr>dl_pos := AtUpdate\<rparr>
      | Inr (cmd, q) \<Rightarrow> s\<lparr>dl_queue := q, dl_pos := Executing cmd\<rparr>)"

definition finishCommand :: "'c CommandOps \<Rightarrow> 'c \<Rightarrow> ('c, 'z) DispatcherLoop_scheme \<Rightarrow> ('c, 'z) DispatcherLoop_scheme" where
  "finishCommand ops cmd s =
     (if take 4 (getID ops cmd) = ''test''
      then case invoke_cmd ops cmd of
          None \<Rightarrow> s\<lparr>dl_pos := AtUpdate\<rparr>
        | Some problem \<Rightarrow> s\<lparr>dl_error := problem, dl_pos := Ended\<rparr>
      else s\<lparr>dl_pos := AtUpdate\<rparr>)"

text \<open>The first component tells whether the builder is started.\<close>

definition loop_body :: "gavl_time_t \<Rightarrow> ('c, 'z) DispatcherLoop_scheme \<Rightarrow> bool \<times> ('c, 'z) DispatcherLoop_scheme" where
  "loop_body now s =
     (if isDying (dl_looper s) then (False, s\<lparr>dl_pos := Ended\<rparr>)
      else if runBuild now (dl_looper s) then (True, s\<lparr>dl_pos := AtUpdate\<rparr>)
      else if isWorking (dl_looper s) then (False, processCommands s)
      else (False, s\<lparr>dl_pos := AtUpdate\<rparr>))"

subsection \<open>The dispatcher\<close>

record 'c SteamDispatcher =
  runningLoop :: "'c DispatcherLoop option"
  sd_active :: bool

definition SteamDispatcher_new :: "'c SteamDispatcher" where
  "SteamDispatcher_new = \<lparr>runningLoop = None, sd_active = False\<rparr>"

definition sd_start :: "'c SteamDispatcher \<Rightarrow> bool \<times> 'c SteamDispatcher" where
  "sd_start d =
     (case runningLoop d of
        Some r \<Rightarrow> (False, d)
      | None \<Rightarrow> (True, d\<lparr>runningLoop := Some (if sd_active d then activateCommandProcessing DispatcherLoop_new
                                             else DispatcherLoop_new)\<rparr>))"

definition endRunningLoopState :: "'c SteamDispatcher \<Rightarrow> 'c SteamDispatcher" where
  "endRunningLoopState d = d\<lparr>runningLoop := None\<rparr>"

definition sd_isRunning :: "'c SteamDispatcher \<Rightarrow> bool" where
  "sd_isRunning d \<longleftrightarrow> runningLoop d \<noteq> None"

definition sd_requestStop :: "'c SteamDispatcher \<Rightarrow> 'c SteamDispatcher" where
  "sd_requestStop d = d\<lparr>runningLoop := map_option loop_requestStop (runningLoop d)\<rparr>"

definition sd_activate :: "'c SteamDispatcher \<Rightarrow> 'c SteamDispatcher" where
  "sd_activate d = d\<lparr>sd_active := True, runningLoop := map_option activateCommandProcessing (runningLoop d)\<rparr>"

definition sd_deactivate :: "'c SteamDispatcher \<Rightarrow> 'c SteamDispatcher" where
  "sd_deactivate d = d\<lparr>sd_active := False, runningLoop := map_option deactivateCommandProcessing (runningLoop d)\<rparr>"

definition sd_empty :: "'c SteamDispatcher \<Rightarrow> bool" where
  "sd_empty d \<longleftrightarrow> (case runningLoop d of None \<Rightarrow> True | Some r \<Rightarrow> loop_size r = 0)"

definition sd_clear :: "'c SteamDispatcher \<Rightarrow> 'c SteamDispatcher" where
  "sd_clear d = (if \<not> sd_empty d then d\<lparr>runningLoop := map_option loop_clear (runningLoop d)\<rparr> else d)"

subsection \<open>Interleaving\<close>

text \<open>
  The history records the commands accepted and dispatched, whether the queue was ever cleared,
  and whether a command was dispatched since the builder was last started.
\<close>

record 'c LoopHistory = "'c DispatcherLoop" +
  h_clock :: gavl_time_t
  h_fed :: "'c list"
  h_done :: "'c list"
  h_cleared :: bool
  h_unbuilt :: bool

definition history_start :: "gavl_time_t \<Rightarrow> 'c LoopHistory" where
  "history_start now = DispatcherLoop.extend DispatcherLoop_new
     \<lparr>h_clock = now, h_fed = [], h_done = [], h_cleared = False, h_unbuilt = False\<rparr>"

definition note_body :: "bool \<Rightarrow> 'c LoopHistory \<Rightarrow> 'c LoopHistory" where
  "note_body build s =
     (let s1 = (if build then s\<lparr>h_unbuilt := False\<rparr> else s)
      in case dl_pos s of Executing cmd \<Rightarrow> s1\<lparr>h_done := h_done s @ [cmd], h_unbuilt := True\<rparr> | _ \<Rightarrow> s1)"

definition body_step :: "gavl_time_t \<Rightarrow> 'c LoopHistory \<Rightarrow> 'c LoopHistory" where
  "body_step now s = (case loop_body now s of (build, s') \<Rightarrow> note_body build s')"

inductive thread_step :: "'c CommandOps \<Rightarrow> 'c LoopHistory \<Rightarrow> 'c LoopHistory \<Rightarrow> bool" for ops where
  th_leave: "dl_pos s = AtTop \<Longrightarrow> \<not> shallLoop (dl_looper s) \<Longrightarrow> thread_step ops s (s\<lparr>dl_pos := Ended\<rparr>)"
| th_enter: "dl_pos s = AtTop \<Longrightarrow> shallLoop (dl_looper s) \<Longrightarrow> h_clock s \<le> t0 \<Longrightarrow> t0 \<le> t1 \<Longrightarrow> t1 \<le> t2
    \<Longrightarrow> thread_step ops s ((awaitAction_enter t0 t1 t2 s)\<lparr>h_clock := t2\<rparr>)"
| th_wake: "dl_pos s = Waiting deadline \<Longrightarrow> h_clock s \<le> t1 \<Longrightarrow> t1 \<le> t2
    \<Longrightarrow> thread_step ops s ((awaitAction_wake t1 t2 s)\<lparr>h_clock := t2\<rparr>)"
| th_timeout: "dl_pos s = Waiting deadline \<Longrightarrow> h_clock s \<le> t1 \<Longrightarrow> deadline \<le> t1 \<Longrightarrow> t1 \<le> t2
    \<Longrightarrow> thread_step ops s ((awaitAction_timeout t1 t2 s)\<lparr>h_clock := t2\<rparr>)"
| th_body: "dl_pos s = AtBody \<Longrightarrow> h_clock s \<le> t \<Longrightarrow> thread_step ops s ((body_step t s)\<lparr>h_clock := t\<rparr>)"
| th_finish: "dl_pos s = Executing cmd \<Longrightarrow> h_clock s \<le> t \<Longrightarrow> thread_step ops s ((finishCommand ops cmd s)\<lparr>h_clock := t\<rparr>)"
| th_update: "dl_pos s = AtUpdate \<Longrightarrow> h_clock s \<le> t \<Longrightarrow> thread_step ops s ((loop_updateState t s)\<lparr>h_clock := t\<rparr>)"

inductive client_call :: "'c CommandOps \<Rightarrow> 'c LoopHistory \<Rightarrow> 'c LoopHistory \<Rightarrow> bool" for ops where
  cl_enqueue: "loop_enqueue ops cmd s = Inr s' \<Longrightarrow> client_call ops s (s'\<lparr>h_fed := h_fed s @ [cmd]\<rparr>)"
| cl_clear: "client_call ops s ((loop_clear s)\<lparr>h_cleared := True\<rparr>)"
| cl_activate: "client_call ops s (activateCommandProcessing s)"
| cl_deactivate: "client_call ops s (deactivateCommandProcessing s)"
| cl_stop: "client_call ops s (loop_requestStop s)"

inductive session_reach :: "'c CommandOps \<Rightarrow> 'c LoopHistory \<Rightarrow> bool" for ops where
  sr_start: "session_reach ops (history_start now)"
| sr_thread: "session_reach ops s \<Longrightarrow> thread_step ops s s' \<Longrightarrow> session_reach ops s'"
| sr_client: "session_reach ops s \<Longrightarrow> client_call ops s s' \<Longrightarrow> session_reach ops s'"

inductive_cases thread_stepE: "thread_step ops s s'"
inductive_cases client_callE: "client_call ops s s'"

named_theorems loop_defs \<open>definitions of the looper and the session loop\<close>

declare isDying_def [loop_defs] loop_isDisabled_def [loop_defs] useTimeout_def [loop_defs] isWorking_def [loop_defs]
  idleBuild_def [loop_defs] runBuild_def [loop_defs] shallLoop_def [loop_defs] requireAction_def [loop_defs]
  check_action_def [loop_defs] awaitAction_enter_def [loop_defs] awaitAction_wake_def [loop_defs]
  awaitAction_timeout_def [loop_defs] startBuilderTimeout_def [loop_defs]

text \<open>Waiting for action touches nothing but the position and the control logic.\<close>

lemma await_keeps [simp]:
  "dl_queue (awaitAction_enter t0 t1 t2 s) = dl_queue s" "h_fed (awaitAction_enter t0 t1 t2 s) = h_fed s"
  "h_done (awaitAction_enter t0 t1 t2 s) = h_done s" "h_cleared (awaitAction_enter t0 t1 t2 s) = h_cleared s"
  "h_unbuilt (awaitAction_enter t0 t1 t2 s) = h_unbuilt s"
  "dl_queue (awaitAction_wake t1 t2 s) = dl_queue s" "h_fed (awaitAction_wake t1 t2 s) = h_fed s"
  "h_done (awaitAction_wake t1 t2 s) = h_done s" "h_cleared (awaitAction_wake t1 t2 s) = h_cleared s"
  "dl_queue (awaitAction_timeout t1 t2 s) = dl_queue s" "h_fed (awaitAction_timeout t1 t2 s) = h_fed s"
  "h_done (awaitAction_timeout t1 t2 s) = h_done s" "h_cleared (awaitAction_timeout t1 t2 s) = h_cleared s"
  "h_unbuilt (awaitAction_timeout t1 t2 s) = h_unbuilt s"
  by (auto simp: awaitAction_enter_def awaitAction_wake_def awaitAction_timeout_def check_action_def Let_def
      split: prod.split)

text \<open>The body takes the oldest command off the queue, or leaves the queue alone.\<close>

lemma body_step_cases:
  obtains "dl_queue (body_step t s) = dl_queue s" "h_done (body_step t s) = h_done s"
    "dl_pos (body_step t s) \<in> {Ended, AtUpdate}"
  | cmd q where "dl_queue s = cmd # q" "dl_queue (body_step t s) = q" "h_done (body_step t s) = h_done s @ [cmd]"
    "isWorking (dl_looper s)" "\<not> runBuild t (dl_looper s)" "dl_pos (body_step t s) = Executing cmd" "h_unbuilt (body_step t s)"
proof (cases "\<not> isDying (dl_looper s) \<and> \<not> runBuild t (dl_looper s) \<and> isWorking (dl_looper s) \<and> dl_queue s \<noteq> []")
  case True
  then obtain cmd q where "dl_queue s = cmd # q" by (cases "dl_queue s") auto
  with True show ?thesis
    by (intro that(2)) (simp_all add: body_step_def loop_body_def processCommands_def queue_pop_def note_body_def)
next
  case False
  then show ?thesis
    by (intro that(1)) (auto simp: body_step_def loop_body_def processCommands_def queue_pop_def note_body_def Let_def)
qed

lemma body_step_keeps [simp]:
  "h_fed (body_step t s) = h_fed s" "h_cleared (body_step t s) = h_cleared s" "dl_looper (body_step t s) = dl_looper s"
  by (simp_all add: body_step_def loop_body_def note_body_def processCommands_def Let_def
      split: LoopPos.split sum.split prod.split)

lemma finish_keeps [simp]:
  "dl_queue (finishCommand ops cmd s) = dl_queue s" "h_fed (finishCommand ops cmd s) = h_fed s"
  "h_done (finishCommand ops cmd s) = h_done s" "h_cleared (finishCommand ops cmd s) = h_cleared s"
  "dl_looper (finishCommand ops cmd s) = dl_looper s" "h_unbuilt (finishCommand ops cmd s) = h_unbuilt s"
  by (simp_all add: finishCommand_def split: option.split)

lemma update_keeps [simp]:
  "dl_queue (loop_updateState t s) = dl_queue s" "h_fed (loop_updateState t s) = h_fed s" "h_done (loop_updateState t s) = h_done s"
  "h_cleared (loop_updateState t s) = h_cleared s" "h_unbuilt (loop_updateState t s) = h_unbuilt s"
  by (simp_all add: loop_updateState_def)

definition order_kept :: "'c LoopHistory \<Rightarrow> bool" where
  "order_kept s \<longleftrightarrow> subseq (h_done s @ dl_queue s) (h_fed s) \<and> (\<not> h_cleared s \<longrightarrow> h_fed s = h_done s @ dl_queue s)"

lemma order_kept_thread: "thread_step ops s s' \<Longrightarrow> order_kept s \<Longrightarrow> order_kept s'"
proof (induction rule: thread_step.induct)
  case (th_body s t)
  show ?case by (rule body_step_cases [of t s]) (use th_body in \<open>simp_all add: order_kept_def\<close>)
qed (simp_all add: order_kept_def)

lemma order_kept_client: "client_call ops s s' \<Longrightarrow> order_kept s \<Longrightarrow> order_kept s'"
proof (induction rule: client_call.induct)
  case (cl_enqueue cmd s s')
  then have "s' = s\<lparr>dl_queue := dl_queue s @ [cmd]\<rparr>"
    by (auto simp: loop_enqueue_def queue_feed_def split: if_splits)
  moreover have "subseq (h_done s @ dl_queue s @ [cmd]) (h_fed s @ [cmd])"
    using cl_enqueue.prems list_emb_append_mono [of "(=)" "h_done s @ dl_queue s" "h_fed s" "[cmd]" "[cmd]"]
    by (simp add: order_kept_def)
  ultimately show ?case using cl_enqueue.prems by (simp add: order_kept_def)
next
  case (cl_clear s)
  have "subseq (h_done s) (h_done s @ dl_queue s)" by (rule subseq_rev_drop_many) simp
  then show ?case using cl_clear unfolding order_kept_def
    by (auto simp: loop_clear_def queue_clear_def elim: subseq_order.trans)
qed (simp_all add: order_kept_def activateCommandProcessing_def deactivateCommandProcessing_def loop_requestStop_def)

lemma session_order: "session_reach ops s \<Longrightarrow> order_kept s"
proof (induction rule: session_reach.induct)
  case (sr_start now)
  then show ?case by (simp add: order_kept_def history_start_def DispatcherLoop.extend_def DispatcherLoop_new_def)
qed (blast intro: order_kept_thread order_kept_client)+

subsection \<open>Shutdown\<close>

text \<open>How many steps the thread can still make once it is told to stop.\<close>

definition steps_left :: "'c LoopHistory \<Rightarrow> nat" where
  "steps_left s = (case dl_pos s of Ended \<Rightarrow> 0 | AtTop \<Rightarrow> 1 | AtBody \<Rightarrow> 1 | Waiting d \<Rightarrow> 2 | AtUpdate \<Rightarrow> 2 | Executing c \<Rightarrow> 3)"

lemma dying_acts: "lp_shutdown (dl_looper s) \<Longrightarrow> fst (check_action t1 t2 s)"
  by (simp add: loop_defs Let_def split: prod.split)

lemma check_action_flags:
  "lp_shutdown (dl_looper (snd (check_action t1 t2 s))) = lp_shutdown (dl_looper s)"
  "lp_disabled (dl_looper (snd (check_action t1 t2 s))) = lp_disabled (dl_looper s)"
  "lp_hasWork (dl_looper (snd (check_action t1 t2 s))) \<longleftrightarrow> dl_queue s \<noteq> []"
  "lp_isDirty (dl_looper (snd (check_action t1 t2 s)))
     \<longleftrightarrow> lp_isDirty (dl_looper s) \<or> dl_queue s \<noteq> [] \<and> \<not> loop_isDisabled (dl_looper s)"
  "lp_isDirty (dl_looper s) \<Longrightarrow> lp_gotDirty (dl_looper (snd (check_action t1 t2 s))) = lp_gotDirty (dl_looper s)"
  "dl_queue (snd (check_action t1 t2 s)) = dl_queue s"
  by (auto simp: loop_defs Let_def split: prod.split)

lemma markStateProcessed_flags [simp]:
  "lp_shutdown (markStateProcessed t l) = lp_shutdown l" "lp_disabled (markStateProcessed t l) = lp_disabled l"
  by (simp_all add: markStateProcessed_def Let_def)

lemma runBuild_inChange [simp]: "runBuild t (l\<lparr>lp_inChange := b\<rparr>) = runBuild t l"
  by (simp add: runBuild_def idleBuild_def forceBuild_def loop_isDisabled_def isDying_def)

lemma markStateProcessed_dirty: "lp_isDirty (markStateProcessed t l) \<longleftrightarrow> lp_isDirty l \<and> \<not> runBuild t l"
  by (simp add: markStateProcessed_def Let_def)

lemma shutdown_step:
  "thread_step ops s s' \<Longrightarrow> lp_shutdown (dl_looper s)
   \<Longrightarrow> steps_left s' < steps_left s \<and> h_done s' = h_done s \<and> lp_shutdown (dl_looper s')"
proof (induction rule: thread_step.induct)
  case (th_wake s d t1 t2)
  then have "dl_pos (awaitAction_wake t1 t2 s) = AtBody" "lp_shutdown (dl_looper (awaitAction_wake t1 t2 s))"
    using dying_acts [of s t1 t2] check_action_flags(1) [of t1 t2 s]
    by (auto simp: awaitAction_wake_def split: prod.split)
  then show ?case using th_wake by (simp add: steps_left_def)
next
  case (th_timeout s d t1 t2)
  then have "dl_pos (awaitAction_timeout t1 t2 s) = AtBody" "lp_shutdown (dl_looper (awaitAction_timeout t1 t2 s))"
    using check_action_flags(1) [of t1 t2 s] by (auto simp: awaitAction_timeout_def split: prod.split)
  then show ?case using th_timeout by (simp add: steps_left_def)
next
  case (th_body s t)
  then have "body_step t s = note_body False (s\<lparr>dl_pos := Ended\<rparr>)"
    by (simp add: body_step_def loop_body_def isDying_def)
  then show ?case using th_body by (simp add: steps_left_def note_body_def)
next
  case (th_finish s cmd t)
  then show ?case by (auto simp: steps_left_def finishCommand_def split: option.split)
qed (simp_all add: steps_left_def shallLoop_def isDying_def loop_updateState_def)

lemma thread_goes_on: "dl_pos s \<noteq> Ended \<Longrightarrow> \<exists>s'. thread_step ops s s'"
proof (cases "dl_pos s")
  case AtTop
  then show ?thesis by (cases "shallLoop (dl_looper s)") (blast intro: th_leave th_enter order_refl)+
qed (blast intro: th_wake th_body th_finish th_update order_refl)+

subsection \<open>The builder follows the commands\<close>

text \<open>
  One round of the loop that is not interrupted, in which the decision to build in the body and
  the clean-up at the end see the same time.
\<close>

definition session_await ::
  "gavl_time_t \<Rightarrow> gavl_time_t \<Rightarrow> gavl_time_t \<Rightarrow> gavl_time_t \<Rightarrow> gavl_time_t \<Rightarrow> 'c LoopHistory \<Rightarrow> 'c LoopHistory" where
  "session_await t0 t1 t2 t3 t4 s =
     (let s1 = awaitAction_enter t0 t1 t2 s
      in case dl_pos s1 of Waiting d \<Rightarrow> awaitAction_timeout t3 t4 s1 | _ \<Rightarrow> s1)"

definition session_round ::
  "'c CommandOps \<Rightarrow> gavl_time_t \<Rightarrow> gavl_time_t \<Rightarrow> gavl_time_t \<Rightarrow> gavl_time_t \<Rightarrow> gavl_time_t \<Rightarrow> gavl_time_t
   \<Rightarrow> 'c LoopHistory \<Rightarrow> 'c LoopHistory" where
  "session_round ops t0 t1 t2 t3 t4 t s =
     (let s3 = body_step t (session_await t0 t1 t2 t3 t4 s);
          s4 = (case dl_pos s3 of Executing cmd \<Rightarrow> finishCommand ops cmd s3 | _ \<Rightarrow> s3)
      in case dl_pos s4 of AtUpdate \<Rightarrow> loop_updateState t s4 | _ \<Rightarrow> s4)"

inductive round_reach :: "'c CommandOps \<Rightarrow> 'c LoopHistory \<Rightarrow> bool" for ops where
  rr_start: "round_reach ops (history_start now)"
| rr_round: "round_reach ops s \<Longrightarrow> dl_pos s = AtTop \<Longrightarrow> shallLoop (dl_looper s)
    \<Longrightarrow> round_reach ops (session_round ops t0 t1 t2 t3 t4 t s)"
| rr_client: "round_reach ops s \<Longrightarrow> client_call ops s s' \<Longrightarrow> round_reach ops s'"

lemma session_await_flags:
  fixes s :: "'c LoopHistory" and t0 t1 t2 t3 t4 t :: gavl_time_t
  defines "s2 \<equiv> session_await t0 t1 t2 t3 t4 s"
  shows "lp_shutdown (dl_looper s2) = lp_shutdown (dl_looper s)" "lp_disabled (dl_looper s2) = lp_disabled (dl_looper s)"
    "lp_hasWork (dl_looper s2) \<longleftrightarrow> dl_queue s \<noteq> []"
    "lp_isDirty (dl_looper s2) \<longleftrightarrow> lp_isDirty (dl_looper s) \<or> dl_queue s \<noteq> [] \<and> \<not> loop_isDisabled (dl_looper s)"
    "lp_isDirty (dl_looper s) \<Longrightarrow> lp_gotDirty (dl_looper s2) = lp_gotDirty (dl_looper s)"
    "h_unbuilt s2 = h_unbuilt s" "dl_queue s2 = dl_queue s"
proof -
  define s1 where "s1 = awaitAction_enter t0 t1 t2 s"
  have 1: "dl_looper s1 = dl_looper (snd (check_action t1 t2 s))" "dl_queue s1 = dl_queue s" "h_unbuilt s1 = h_unbuilt s"
    by (simp_all add: s1_def) (simp add: awaitAction_enter_def Let_def split: prod.split)
  have 2: "dl_looper (awaitAction_timeout t3 t4 s1) = dl_looper (snd (check_action t3 t4 s1))"
    by (simp add: awaitAction_timeout_def split: prod.split)
  have s2: "s2 = (case dl_pos s1 of Waiting d \<Rightarrow> awaitAction_timeout t3 t4 s1 | _ \<Rightarrow> s1)"
    by (simp only: s2_def session_await_def s1_def Let_def)
  note f = check_action_flags [where ?t1.0 = t1 and ?t2.0 = t2 and s = s, folded 1(1)]
    check_action_flags [where ?t1.0 = t3 and ?t2.0 = t4 and s = s1, folded 2]
  show "lp_shutdown (dl_looper s2) = lp_shutdown (dl_looper s)" "lp_disabled (dl_looper s2) = lp_disabled (dl_looper s)"
    "lp_hasWork (dl_looper s2) \<longleftrightarrow> dl_queue s \<noteq> []"
    "lp_isDirty (dl_looper s2) \<longleftrightarrow> lp_isDirty (dl_looper s) \<or> dl_queue s \<noteq> [] \<and> \<not> loop_isDisabled (dl_looper s)"
    "lp_isDirty (dl_looper s) \<Longrightarrow> lp_gotDirty (dl_looper s2) = lp_gotDirty (dl_looper s)"
    "h_unbuilt s2 = h_unbuilt s" "dl_queue s2 = dl_queue s"
    using f 1(2,3) by (auto simp: s2 loop_isDisabled_def isDying_def split: LoopPos.split)
qed

lemma session_round_built:
  fixes s :: "'c LoopHistory" and t0 t1 t2 t3 t4 t :: gavl_time_t
  assumes s: "shallLoop (dl_looper s)" "h_unbuilt s \<longrightarrow> lp_isDirty (dl_looper s)"
  defines "s2 \<equiv> session_await t0 t1 t2 t3 t4 s"
  shows "h_unbuilt (session_round ops t0 t1 t2 t3 t4 t s) \<longrightarrow> lp_isDirty (dl_looper (session_round ops t0 t1 t2 t3 t4 t s))"
    and "runBuild t (dl_looper s2) \<Longrightarrow> \<not> h_unbuilt (session_round ops t0 t1 t2 t3 t4 t s)"
proof -
  note f = session_await_flags [where s = s and ?t0.0 = t0 and ?t1.0 = t1 and ?t2.0 = t2 and ?t3.0 = t3 and ?t4.0 = t4, folded s2_def]
  have nd: "\<not> isDying (dl_looper s2)" using f(1) s(1) by (simp add: shallLoop_def isDying_def)
  define s3 where "s3 = body_step t s2"
  define s4 where "s4 = (case dl_pos s3 of Executing cmd \<Rightarrow> finishCommand ops cmd s3 | _ \<Rightarrow> s3)"
  have r: "session_round ops t0 t1 t2 t3 t4 t s = (case dl_pos s4 of AtUpdate \<Rightarrow> loop_updateState t s4 | _ \<Rightarrow> s4)"
    by (simp only: session_round_def s4_def s3_def s2_def Let_def)
  have l: "dl_looper s4 = dl_looper s2" by (simp add: s4_def s3_def split: LoopPos.split)
  have u: "h_unbuilt s4 = h_unbuilt s3" by (simp add: s4_def split: LoopPos.split)
  have built: "\<not> h_unbuilt s3" if "runBuild t (dl_looper s2)"
    using that nd by (simp add: s3_def body_step_def loop_body_def note_body_def)
  have d: "h_unbuilt s3 \<Longrightarrow> lp_isDirty (dl_looper s2)"
  proof (rule body_step_cases [of t s2])
    assume u3: "h_unbuilt s3" and "h_done (body_step t s2) = h_done s2"
    show "lp_isDirty (dl_looper s2)"
    proof (cases "h_unbuilt s")
      case True then show ?thesis using s(2) f(4) by simp
    next
      case False
      then have "h_unbuilt s2 = False" using f(6) by simp
      then have False using u3 \<open>h_done (body_step t s2) = h_done s2\<close> unfolding s3_def
        by (auto simp: body_step_def note_body_def Let_def split: prod.splits LoopPos.splits if_splits
            simp: loop_body_def processCommands_def queue_pop_def split: list.splits)
      then show ?thesis ..
    qed
  next
    assume "isWorking (dl_looper s2)"
    then show "lp_isDirty (dl_looper s2)" using f(3,4) f(1,2) by (simp add: isWorking_def loop_isDisabled_def isDying_def)
  qed
  show "h_unbuilt (session_round ops t0 t1 t2 t3 t4 t s) \<longrightarrow> lp_isDirty (dl_looper (session_round ops t0 t1 t2 t3 t4 t s))"
    unfolding r using d built l u
    by (auto simp: loop_updateState_def markStateProcessed_dirty split: LoopPos.split)
  show "\<not> h_unbuilt (session_round ops t0 t1 t2 t3 t4 t s)" if "runBuild t (dl_looper s2)"
    unfolding r using built [OF that] u by (simp split: LoopPos.split)
qed

lemma client_keeps_unbuilt:
  "client_call ops s s' \<Longrightarrow> h_unbuilt s' = h_unbuilt s \<and> lp_isDirty (dl_looper s') = lp_isDirty (dl_looper s)"
  by (induction rule: client_call.induct)
    (auto simp: loop_enqueue_def queue_feed_def loop_clear_def activateCommandProcessing_def enableProcessing_def
      deactivateCommandProcessing_def loop_requestStop_def triggerShutdown_def split: if_splits)

lemma unbuilt_dirty: "round_reach ops s \<Longrightarrow> h_unbuilt s \<longrightarrow> lp_isDirty (dl_looper s)"
proof (induction rule: round_reach.induct)
  case (rr_start now)
  then show ?case by (simp add: history_start_def DispatcherLoop.extend_def)
next
  case (rr_round s t0 t1 t2 t3 t4 t)
  then show ?case by (intro session_round_built(1))
next
  case (rr_client s s')
  then show ?case using client_keeps_unbuilt by fastforce
qed

subsection \<open>What the loop does not guarantee\<close>

lemmas loop_run = awaitAction_enter_def awaitAction_timeout_def check_action_def requireAction_def Let_def
  isWorking_def loop_isDisabled_def isDying_def useTimeout_def startBuilderTimeout_def getTimeout_def
  runBuild_def idleBuild_def forceBuild_def body_step_def loop_body_def note_body_def processCommands_def queue_pop_def
  history_start_def DispatcherLoop.extend_def DispatcherLoop_new_def Looper_new_def shallLoop_def

lemma maxBuildTimeout_eq: "maxBuildTimeout = 750000"
proof -
  have "TimeValue_raw 750000 = 750000" by (simp add: TimeValue_raw_def time_limits)
  moreover have "is_Offset 750000" by (simp add: is_Offset_def time_limits)
  ultimately show ?thesis
    by (simp add: maxBuildTimeout_def wakeTimeout_ms_def slowdownFactor_def STEAM_DISPATCHER_BUILDER_DELAY_ms_def
        STEAM_DISPATCHER_BUSY_SLOWDOWN_FACTOR_def Duration_of_time_def Duration_of_abs)
qed

text \<open>With nothing to do the timeout is zero, so the wait is over as soon as it begins.\<close>

lemma idle_wait_is_over:
  "\<not> lp_isDirty (dl_looper s) \<Longrightarrow> dl_queue s = [] \<Longrightarrow> \<not> isDying (dl_looper s)
   \<Longrightarrow> dl_pos (awaitAction_enter t0 t1 t2 s) = Waiting t0"
  by (simp add: loop_run)

text \<open>The clean-up decides anew whether the builder should have run: a command that takes longer than the
  maximal build timeout clears the mark that requests the build.\<close>

lemma lost_build:
  assumes "canExec ops cmd" "take 4 (getID ops cmd) \<noteq> ''test''"
  shows "\<exists>s. session_reach ops s \<and> dl_pos s = AtTop \<and> dl_queue s = [] \<and> h_unbuilt s
    \<and> \<not> lp_isDirty (dl_looper s) \<and> \<not> loop_isDisabled (dl_looper s)"
proof -
  have o: "Offset_between 0 0 = 0" "Offset_between 0 1000000 = 1000000" by (simp_all add: Offset_between_exact time_limits)
  let ?s0 = "history_start 0"
  define s1 where "s1 = ?s0\<lparr>dl_queue := [cmd], h_fed := [cmd]\<rparr>"
  define s2 where "s2 = (awaitAction_enter 0 0 0 s1)\<lparr>h_clock := 0\<rparr>"
  define s3 where "s3 = (body_step 0 s2)\<lparr>h_clock := 0\<rparr>"
  define s4 where "s4 = (finishCommand ops cmd s3)\<lparr>h_clock := 0\<rparr>"
  define s5 where "s5 = (loop_updateState 1000000 s4)\<lparr>h_clock := 1000000\<rparr>"
  have "loop_enqueue ops cmd ?s0 = Inr (?s0\<lparr>dl_queue := [cmd]\<rparr>)"
    using assms(1) by (simp add: loop_enqueue_def queue_feed_def loop_run)
  from cl_enqueue [OF this] have c: "client_call ops ?s0 s1" by (simp add: s1_def loop_run)
  have s2: "dl_pos s2 = AtBody" "dl_queue s2 = [cmd]" "h_done s2 = []" "h_clock s2 = 0" "dl_looper s2 =
      \<lparr>lp_shutdown = False, lp_disabled = False, lp_inChange = True, lp_hasWork = True, lp_isDirty = True, lp_gotDirty = 0\<rparr>"
    by (simp_all add: s2_def s1_def loop_run)
  have s3: "dl_pos s3 = Executing cmd" "dl_queue s3 = []" "h_unbuilt s3" "h_clock s3 = 0" "dl_looper s3 = dl_looper s2"
    using o by (simp_all add: s3_def loop_run s2 maxBuildTimeout_eq)
  have s4: "dl_pos s4 = AtUpdate" "dl_queue s4 = []" "h_unbuilt s4" "h_clock s4 = 0" "dl_looper s4 = dl_looper s2"
    using s3 assms(2) by (simp_all add: s4_def finishCommand_def)
  have s5: "dl_pos s5 = AtTop" "dl_queue s5 = []" "h_unbuilt s5" "\<not> lp_isDirty (dl_looper s5)" "\<not> loop_isDisabled (dl_looper s5)"
    using s4 o by (simp_all add: s5_def loop_updateState_def markStateProcessed_def loop_run s2 maxBuildTimeout_eq)
  have "dl_pos s1 = AtTop" "shallLoop (dl_looper s1)" "h_clock s1 = 0" by (simp_all add: s1_def loop_run)
  then have "thread_step ops s1 s2" unfolding s2_def by (intro th_enter) simp_all
  from sr_thread [OF sr_client [OF sr_start c] this] have "session_reach ops s2" .
  moreover have "thread_step ops s2 s3" unfolding s3_def using s2 by (intro th_body) simp_all
  ultimately have "session_reach ops s3" by (rule sr_thread)
  moreover have "thread_step ops s3 s4" unfolding s4_def using s3 by (intro th_finish) simp_all
  ultimately have "session_reach ops s4" by (rule sr_thread)
  moreover have "thread_step ops s4 s5" unfolding s5_def using s4 by (intro th_update) simp_all
  ultimately have "session_reach ops s5" by (rule sr_thread)
  with s5 show ?thesis by blast
qed

text \<open>When processing is enabled between the end of the wait and the body, a command is dispatched
  without being announced as pending change, and a request to synchronise is granted meanwhile.\<close>

lemma checkpoint_missed:
  assumes "canExec ops cmd"
  shows "\<exists>s. session_reach ops s \<and> dl_pos s = Executing cmd \<and> lp_disabled (dl_looper s) \<and> isStateSynched False s = Inr True"
proof -
  let ?s0 = "history_start 0"
  define s1 where "s1 = ?s0\<lparr>dl_queue := [cmd], h_fed := [cmd]\<rparr>"
  define s2 where "s2 = deactivateCommandProcessing s1"
  define s3 where "s3 = (awaitAction_enter 0 0 0 s2)\<lparr>h_clock := 0\<rparr>"
  define s4 where "s4 = (awaitAction_timeout 0 0 s3)\<lparr>h_clock := 0\<rparr>"
  define s5 where "s5 = activateCommandProcessing s4"
  define s6 where "s6 = (body_step 0 s5)\<lparr>h_clock := 0\<rparr>"
  define s7 where "s7 = deactivateCommandProcessing s6"
  have "loop_enqueue ops cmd ?s0 = Inr (?s0\<lparr>dl_queue := [cmd]\<rparr>)"
    using assms by (simp add: loop_enqueue_def queue_feed_def loop_run)
  from cl_enqueue [OF this] have c: "client_call ops ?s0 s1" by (simp add: s1_def loop_run)
  have s2: "dl_pos s2 = AtTop" "dl_queue s2 = [cmd]" "h_clock s2 = 0" "shallLoop (dl_looper s2)" "dl_looper s2 =
      \<lparr>lp_shutdown = False, lp_disabled = True, lp_inChange = False, lp_hasWork = False, lp_isDirty = False, lp_gotDirty = Time_MAX\<rparr>"
    by (simp_all add: s2_def s1_def deactivateCommandProcessing_def enableProcessing_def loop_run)
  have s3: "dl_pos s3 = Waiting 0" "dl_queue s3 = [cmd]" "h_clock s3 = 0" "dl_looper s3 =
      \<lparr>lp_shutdown = False, lp_disabled = True, lp_inChange = False, lp_hasWork = True, lp_isDirty = False, lp_gotDirty = Time_MAX\<rparr>"
    using s2 by (simp_all add: s3_def loop_run)
  have s4: "dl_pos s4 = AtBody" "dl_queue s4 = [cmd]" "h_clock s4 = 0" "dl_looper s4 =
      \<lparr>lp_shutdown = False, lp_disabled = True, lp_inChange = False, lp_hasWork = True, lp_isDirty = False, lp_gotDirty = Time_MAX\<rparr>"
    using s3 by (simp_all add: s4_def loop_run)
  have s5: "dl_pos s5 = AtBody" "dl_queue s5 = [cmd]" "h_clock s5 = 0" "dl_looper s5 =
      \<lparr>lp_shutdown = False, lp_disabled = False, lp_inChange = False, lp_hasWork = True, lp_isDirty = False, lp_gotDirty = Time_MAX\<rparr>"
    using s4 by (simp_all add: s5_def activateCommandProcessing_def enableProcessing_def)
  have s6: "dl_pos s6 = Executing cmd" "dl_looper s6 = dl_looper s5" using s5 by (simp_all add: s6_def loop_run)
  have s7: "dl_pos s7 = Executing cmd" "lp_disabled (dl_looper s7)" "isStateSynched False s7 = Inr True"
    using s6 s5 by (simp_all add: s7_def deactivateCommandProcessing_def enableProcessing_def isStateSynched_def hasPendingChanges_def)
  have "session_reach ops s2" unfolding s2_def by (rule sr_client [OF sr_client [OF sr_start c] cl_deactivate])
  moreover have "thread_step ops s2 s3" unfolding s3_def using s2 by (intro th_enter) simp_all
  ultimately have "session_reach ops s3" by (rule sr_thread)
  moreover have "thread_step ops s3 s4" unfolding s4_def using s3 by (intro th_timeout [of _ 0]) simp_all
  ultimately have "session_reach ops s4" by (rule sr_thread)
  then have "session_reach ops s5" unfolding s5_def by (rule sr_client [OF _ cl_activate])
  moreover have "thread_step ops s5 s6" unfolding s6_def using s5 by (intro th_body) simp_all
  ultimately have "session_reach ops s6" by (rule sr_thread)
  then have "session_reach ops s7" unfolding s7_def by (rule sr_client [OF _ cl_deactivate])
  with s7 show ?thesis by blast
qed

text \<open>The stored activation is only applied at start when it is positive.\<close>

lemma started_though_deactivated:
  "\<exists>r. runningLoop (snd (sd_start (sd_deactivate SteamDispatcher_new))) = Some r \<and> \<not> loop_isDisabled (dl_looper r)"
  by (simp add: sd_start_def sd_deactivate_def SteamDispatcher_new_def loop_run)

subsection \<open>Properties\<close>

text \<open>C11: under any interleaving of client calls with the session thread, commands are dispatched in the
  order they were accepted and none twice; none is lost as long as the queue is not cleared.\<close>

theorem commands_in_order:
  assumes "session_reach ops s"
  shows "subseq (h_done s @ dl_queue s) (h_fed s) \<and> (\<not> h_cleared s \<longrightarrow> h_fed s = h_done s @ dl_queue s)"
  using session_order [OF assms] by (simp add: order_kept_def)

theorem commands_in_order_witness:
  "\<exists>s :: nat LoopHistory. dl_queue s = [7] \<and> h_fed s = h_done s @ dl_queue s"
proof -
  let ?ops = "\<lparr>canExec = (\<lambda>c. True), getID = (\<lambda>c. ''cmd''), invoke_cmd = (\<lambda>c. None)\<rparr> :: nat CommandOps"
  let ?s = "(history_start 0)\<lparr>dl_queue := [7], h_fed := [7]\<rparr> :: nat LoopHistory"
  have "loop_enqueue ?ops 7 (history_start 0) = Inr ((history_start 0)\<lparr>dl_queue := [7]\<rparr>)"
    by (simp add: loop_enqueue_def queue_feed_def loop_run)
  from cl_enqueue [OF this] have "client_call ?ops (history_start 0) ?s" by (simp add: loop_run)
  from commands_in_order [OF sr_client [OF sr_start this]] have "h_fed ?s = h_done ?s @ dl_queue ?s" by (simp add: loop_run)
  then show ?thesis by (intro exI [of _ ?s]) simp
qed



text \<open>once told to stop, the session thread ends after at most three more steps of its own, can always
  make the next one, and dispatches no further command.\<close>

theorem stop_terminates:
  assumes "lp_shutdown (dl_looper s)"
  shows "(\<forall>s'. thread_step ops s s' \<longrightarrow> steps_left s' < steps_left s \<and> h_done s' = h_done s \<and> lp_shutdown (dl_looper s'))
    \<and> (dl_pos s \<noteq> Ended \<longrightarrow> (\<exists>s'. thread_step ops s s')) \<and> steps_left s \<le> 3"
  using shutdown_step [OF _ assms] thread_goes_on [of s ops] by (simp add: steps_left_def split: LoopPos.split)

theorem stop_terminates_witness:
  "\<forall>ops :: nat CommandOps. \<exists>s'. thread_step ops (loop_requestStop (history_start 0)) s' \<and> steps_left s' = 0"
proof
  fix ops :: "nat CommandOps"
  let ?s = "loop_requestStop (history_start 0) :: nat LoopHistory"
  have "lp_shutdown (dl_looper ?s)" by (simp add: loop_requestStop_def triggerShutdown_def)
  note t = stop_terminates [OF this, of ops]
  have "dl_pos ?s \<noteq> Ended" "steps_left ?s = 1" by (simp_all add: loop_requestStop_def loop_run steps_left_def)
  then show "\<exists>s'. thread_step ops ?s s' \<and> steps_left s' = 0" using t by auto
qed

end
