(* ===== verification/PlacementIndex.thy ===== *)
theory PlacementIndex
  imports Prelude "HOL-Library.AList"
begin

text \<open>
  The placement index of \<open>steam/mobject/session/placement-index.cpp\<close>, the core data structure of
  the session: a main table from the ID of a placement to the placement and its scope, and a
  reverse table from scopes to their contents. Placements live in an explicit store; a pointer
  is a position in it, so that identity and equality of placements differ as in the code. The
  self-check of the index (\<open>PlacementIndex::Validator\<close>) is modelled as well, and every index
  the operations can produce is shown to pass it.

  A placement is a handle to a model object of an arbitrary type; what the code asks of that
  object (its own self-check, the cast to a subclass) is a parameter. IDs are random numbers: the ID
  a new placement receives is an argument of the operation, and \<open>0\<close> is the marker of no ID.
\<close>

subsection \<open>Placements and tables\<close>

type_synonym PID = nat
type_synonym addr = nat
type_synonym PPlacement = "addr option"

record 'mo Placement =
  getID :: PID
  pointee :: "'mo option"

text \<open>Copying a placement shares the model object and creates a new ID.\<close>

definition Placement_copy :: "PID \<Rightarrow> 'mo Placement \<Rightarrow> 'mo Placement" where
  "Placement_copy newID ref = \<lparr>getID = newID, pointee = pointee ref\<rparr>"

definition Placement_isValid :: "'mo Placement \<Rightarrow> bool" where
  "Placement_isValid p \<longleftrightarrow> pointee p \<noteq> None"

definition isCompatible :: "('mo \<Rightarrow> bool) \<Rightarrow> 'mo Placement \<Rightarrow> bool" where
  "isCompatible is_a p = (case pointee p of None \<Rightarrow> False | Some mo \<Rightarrow> is_a mo)"

record PlacementEntry =
  element :: PPlacement
  scope :: PPlacement

record 'mo Table =
  tb_store :: "'mo Placement list"
  placementTab :: "(PID \<times> PlacementEntry) list"
  scopeTab :: "(PID \<times> PID) list"
  tb_root :: PPlacement

definition Table_new :: "'mo Table" where
  "Table_new = \<lparr>tb_store = [], placementTab = [], scopeTab = [], tb_root = None\<rparr>"

text \<open>The ID of the placement at an address.\<close>

definition id_at :: "'mo Table \<Rightarrow> addr \<Rightarrow> PID" where
  "id_at t a = getID (tb_store t ! a)"

definition size_tab :: "'mo Table \<Rightarrow> nat" where
  "size_tab t = length (placementTab t)"

definition scope_cnt :: "'mo Table \<Rightarrow> nat" where
  "scope_cnt t = length (scopeTab t)"

text \<open>
  The allocator counts the placements in existence; a placement exists as long as a shared
  pointer in the table or the root pointer refers to it.
\<close>

definition held :: "'mo Table \<Rightarrow> PPlacement list" where
  "held t = tb_root t # map (element \<circ> snd) (placementTab t) @ map (scope \<circ> snd) (placementTab t)"

definition element_cnt :: "'mo Table \<Rightarrow> nat" where
  "element_cnt t = length (remdups (filter (\<lambda>p. p \<noteq> None) (held t)))"

definition contains_id :: "PID \<Rightarrow> 'mo Table \<Rightarrow> bool" where
  "contains_id i t \<longleftrightarrow> map_of (placementTab t) i \<noteq> None"

definition isScope :: "PID \<Rightarrow> 'mo Table \<Rightarrow> bool" where
  "isScope i t \<longleftrightarrow> i \<in> fst ` set (scopeTab t)"

definition base_entry :: "PID \<Rightarrow> 'mo Table \<Rightarrow> PlacementEntry result" where
  "base_entry key t = (case map_of (placementTab t) key of
     None \<Rightarrow> Inl (Err Logic ''lost a Placement'')
   | Some e \<Rightarrow> Inr e)"

definition ensure_ptr :: "PPlacement \<Rightarrow> addr result" where
  "ensure_ptr p = (case p of None \<Rightarrow> Inl (Err Assertion ''null placement'') | Some a \<Rightarrow> Inr a)"

definition fetch :: "PID \<Rightarrow> 'mo Table \<Rightarrow> addr result" where
  "fetch i t =
     bind_result (require (contains_id i t) ''contains (id)'') (\<lambda>_.
     bind_result (base_entry i t) (\<lambda>entry.
     bind_result (ensure_ptr (element entry)) (\<lambda>a.
     bind_result (require (i = id_at t a) ''id == entry->getID()'') (\<lambda>_. Inr a))))"

definition fetchScope :: "PID \<Rightarrow> 'mo Table \<Rightarrow> addr result" where
  "fetchScope i t =
     bind_result (require (contains_id i t) ''contains (id)'') (\<lambda>_.
     bind_result (base_entry i t) (\<lambda>entry.
     bind_result (ensure_ptr (scope entry)) (\<lambda>a.
     bind_result (require (contains_id (id_at t a) t) ''contains (scope->getID())'') (\<lambda>_. Inr a))))"

text \<open>The contents of a scope: the range of entries, and the resolution of one of them.\<close>

definition equal_range :: "PID \<Rightarrow> 'mo Table \<Rightarrow> (PID \<times> PID) list" where
  "equal_range i t = filter (\<lambda>p. fst p = i) (scopeTab t)"

definition queryScopeContents :: "PID \<Rightarrow> 'mo Table \<Rightarrow> (PID \<times> PID) list result" where
  "queryScopeContents i t =
     bind_result (require (contains_id i t) ''contains (id)'') (\<lambda>_. Inr (equal_range i t))"

definition resolveScopeIndexElement :: "PID \<times> PID \<Rightarrow> 'mo Table \<Rightarrow> addr result" where
  "resolveScopeIndexElement entry t =
     bind_result (require (contains_id (snd entry) t) ''contains (elemID)'') (\<lambda>_. fetch (snd entry) t)"

subsection \<open>Changing the tables\<close>

text \<open>The allocator stores a copy and returns its address.\<close>

definition create_placement :: "PID \<Rightarrow> 'mo Placement \<Rightarrow> 'mo Table \<Rightarrow> addr \<times> 'mo Table" where
  "create_placement newID ref t =
     (length (tb_store t), t\<lparr>tb_store := tb_store t @ [Placement_copy newID ref]\<rparr>)"

definition setupRoot :: "PID \<Rightarrow> 'mo Placement \<Rightarrow> 'mo Table \<Rightarrow> 'mo Table result" where
  "setupRoot newID rootDef t =
     bind_result (require (size_tab t = 0) ''0 == placementTab_.size()'') (\<lambda>_.
     bind_result (require (scope_cnt t = 0) ''0 == scopeTab_.size()'') (\<lambda>_.
       let (a, t) = create_placement newID rootDef t;
           t = t\<lparr>tb_root := Some a\<rparr>;
           rootID = id_at t a;
           t = t\<lparr>placementTab := AList.update rootID \<lparr>element = Some a, scope = Some a\<rparr> (placementTab t)\<rparr>
       in bind_result (require (contains_id rootID t) ''contains (rootID)'') (\<lambda>_.
          bind_result (require (scopeTab t = []) ''scopeTab_.empty()'') (\<lambda>_.
          bind_result (require (size_tab t = 1) ''1 == size()'') (\<lambda>_. Inr t)))))"

definition clear_tab :: "PID \<Rightarrow> 'mo Table \<Rightarrow> 'mo Table result" where
  "clear_tab newID t =
     (let t = t\<lparr>scopeTab := [], placementTab := []\<rparr>
      in case tb_root t of None \<Rightarrow> Inr t | Some r \<Rightarrow> setupRoot newID (tb_store t ! r) t)"

definition getRootElement :: "'mo Table \<Rightarrow> addr result" where
  "getRootElement t =
     bind_result (ensure_ptr (tb_root t)) (\<lambda>r.
     bind_result (require (0 < size_tab t) ''0 < size()'') (\<lambda>_.
     bind_result (require (contains_id (id_at t r) t) ''contains (root_->getID())'') (\<lambda>_. Inr r)))"

definition element_of :: "PID \<Rightarrow> 'mo Table \<Rightarrow> PPlacement" where
  "element_of i t = (case map_of (placementTab t) i of None \<Rightarrow> None | Some e \<Rightarrow> element e)"

definition addEntry :: "PID \<Rightarrow> 'mo Placement \<Rightarrow> PID \<Rightarrow> 'mo Table \<Rightarrow> (PID \<times> 'mo Table) result" where
  "addEntry newID newObj scopeID t =
     bind_result (require (contains_id scopeID t) ''contains (scopeID)'') (\<lambda>_.
       let (newEntry, t) = create_placement newID newObj t; newID = id_at t newEntry
       in bind_result (require (newID \<noteq> 0) ''invalid'') (\<lambda>_.
          bind_result (require (\<not> contains_id newID t) ''!contains (newID)'') (\<lambda>_.
            Inr (newID, t\<lparr>placementTab := AList.update newID \<lparr>element = Some newEntry, scope = element_of scopeID t\<rparr> (placementTab t),
                          scopeTab := scopeTab t @ [(scopeID, newID)]\<rparr>))))"

definition remove_base_entry :: "PID \<Rightarrow> 'mo Table \<Rightarrow> (PlacementEntry \<times> 'mo Table) result" where
  "remove_base_entry key t = (case map_of (placementTab t) key of
     None \<Rightarrow> Inl (Err Assertion ''pos != placementTab_.end()'')
   | Some e \<Rightarrow> Inr (e, t\<lparr>placementTab := AList.delete key (placementTab t)\<rparr>))"

definition remove_from_scope :: "PID \<Rightarrow> PID \<Rightarrow> 'mo Table \<Rightarrow> 'mo Table result" where
  "remove_from_scope scopeID entryID t =
     (if (scopeID, entryID) \<in> set (scopeTab t) then Inr (t\<lparr>scopeTab := remove1 (scopeID, entryID) (scopeTab t)\<rparr>)
      else Inl (Err Assertion ''NOTREACHED''))"

definition removeEntry :: "PID \<Rightarrow> 'mo Table \<Rightarrow> (bool \<times> 'mo Table) result" where
  "removeEntry i t =
     (if \<not> contains_id i t then
        bind_result (require (\<not> isScope i t) ''!util::contains(scopeTab_, id)'') (\<lambda>_. Inr (False, t))
      else if isScope i t then Inl (Err State ''NONEMPTY_SCOPE'')
      else bind_result (remove_base_entry i t) (\<lambda>(toRemove, t).
           bind_result (ensure_ptr (scope toRemove)) (\<lambda>s.
           bind_result (remove_from_scope (id_at t s) i t) (\<lambda>t.
           bind_result (require (\<not> isScope i t) ''!util::contains(scopeTab_, id)'') (\<lambda>_.
           bind_result (require (\<not> contains_id i t) ''!contains (id)'') (\<lambda>_. Inr (True, t)))))))"

text \<open>
  Removing all contents of a scope: the children are noted down, their entries erased from the
  reverse table, and then each child is treated likewise and discarded.
\<close>

definition erase_range :: "PID \<Rightarrow> 'mo Table \<Rightarrow> 'mo Table" where
  "erase_range scopeID t = t\<lparr>scopeTab := filter (\<lambda>p. fst p \<noteq> scopeID) (scopeTab t)\<rparr>"

function remove_all_from_scope :: "PID \<Rightarrow> 'mo Table \<Rightarrow> 'mo Table result"
and remove_children :: "PID list \<Rightarrow> 'mo Table \<Rightarrow> 'mo Table result" where
  "remove_all_from_scope scopeID t = remove_children (map snd (equal_range scopeID t)) (erase_range scopeID t)"
| "remove_children [] t = Inr t"
| "remove_children (child # rest) t =
     bind_result (remove_all_from_scope child t) (\<lambda>t.
     bind_result (remove_base_entry child t) (\<lambda>(_, t).
     bind_result (require (\<not> isScope child t) ''!util::contains(scopeTab_, *child)'') (\<lambda>_.
     bind_result (require (\<not> contains_id child t) ''!contains (*child)'') (\<lambda>_.
       remove_children rest t))))"
  by pat_completeness auto

lemma remove_base_entry_scopes: "remove_base_entry i t = Inr (e, t') \<Longrightarrow> scopeTab t' = scopeTab t"
  by (auto simp: remove_base_entry_def split: option.splits)

lemma remove_scopes_shrink:
  "remove_all_from_scope_remove_children_dom (Inl (i, t)) \<Longrightarrow> remove_all_from_scope i t = Inr t'
     \<Longrightarrow> length (scopeTab t') \<le> length (scopeTab t)"
  "remove_all_from_scope_remove_children_dom (Inr (cs, t)) \<Longrightarrow> remove_children cs t = Inr t'
     \<Longrightarrow> length (scopeTab t') \<le> length (scopeTab t)"
proof (induction arbitrary: t' and t' rule: remove_all_from_scope_remove_children.pinduct)
  case (1 i t)
  have "length (scopeTab t') \<le> length (scopeTab (erase_range i t))"
    using 1 by (simp add: remove_all_from_scope.psimps)
  also have "\<dots> \<le> length (scopeTab t)" by (simp add: erase_range_def)
  finally show ?case .
next
  case (2 t)
  then show ?case by (simp add: remove_children.psimps)
next
  case (3 c cs t)
  obtain t1 e t2 where r: "remove_all_from_scope c t = Inr t1" "remove_base_entry c t1 = Inr (e, t2)"
      "require (\<not> isScope c t2) ''!util::contains(scopeTab_, *child)'' = Inr ()"
      "require (\<not> contains_id c t2) ''!contains (*child)'' = Inr ()" "remove_children cs t2 = Inr t'"
    using "3.prems" "3.hyps" by (auto simp: remove_children.psimps err_simps)
  have "length (scopeTab t') \<le> length (scopeTab t2)" by (rule "3.IH"(2) [OF r(1,2) refl r(3,4,5)])
  also have "\<dots> = length (scopeTab t1)" using remove_base_entry_scopes [OF r(2)] by simp
  also have "\<dots> \<le> length (scopeTab t)" by (rule "3.IH"(1) [OF r(1)])
  finally show ?case .
qed

lemma range_split: "length (equal_range i t) + length (scopeTab (erase_range i t)) = length (scopeTab t)"
  by (simp add: equal_range_def erase_range_def sum_length_filter_compl)

termination remove_all_from_scope
proof (relation "measures [\<lambda>x. case x of Inl (i, t) \<Rightarrow> length (scopeTab t) | Inr (cs, t) \<Rightarrow> length (scopeTab t),
    \<lambda>x. case x of Inl (i, t) \<Rightarrow> 1 | Inr (cs, t) \<Rightarrow> 2 * length cs]", goal_cases)
  case 1
  then show ?case by simp
next
  case (2 i t)
  show ?case using range_split [of i t] by (cases "equal_range i t") auto
next
  case (3 c cs t)
  then show ?case by simp
next
  case 4
  then show ?case by (fastforce dest: remove_scopes_shrink(1) remove_base_entry_scopes)
qed

definition removeAll_tab :: "PID \<Rightarrow> 'mo Table \<Rightarrow> 'mo Table result" where
  "removeAll_tab scopeID t =
     bind_result (remove_all_from_scope scopeID t) (\<lambda>t.
     bind_result (removeEntry scopeID t) (\<lambda>(_, t).
     bind_result (require (\<not> isScope scopeID t) ''!util::contains(scopeTab_, scopeID)'') (\<lambda>_.
     bind_result (require (\<not> contains_id scopeID t) ''!contains (scopeID)'') (\<lambda>_. Inr t))))"

subsection \<open>The self-check\<close>

definition SelfCheckFailure :: lumiera_error where
  "SelfCheckFailure = Err Fatal ''INDEX_CORRUPTED''"

definition VERIFY :: "bool \<Rightarrow> unit result" where
  "VERIFY b = (if b then Inr () else Inl SelfCheckFailure)"

text \<open>The pointers of an entry, as the validator obtains them.\<close>

definition elm :: "PID \<Rightarrow> 'mo Table \<Rightarrow> PPlacement result" where
  "elm i t = bind_result (base_entry i t) (\<lambda>e. Inr (element e))"

definition sco :: "PID \<Rightarrow> 'mo Table \<Rightarrow> PPlacement result" where
  "sco i t = bind_result (base_entry i t) (\<lambda>e. Inr (scope e))"

definition valid_at :: "'mo Table \<Rightarrow> addr \<Rightarrow> bool" where
  "valid_at t a \<longleftrightarrow> Placement_isValid (tb_store t ! a)"

definition checkRoot :: "('mo \<Rightarrow> bool) \<Rightarrow> PPlacement \<Rightarrow> 'mo Table \<Rightarrow> unit result" where
  "checkRoot mo_valid root t =
     bind_result (VERIFY (root \<noteq> None)) (\<lambda>_.
     bind_result (ensure_ptr root) (\<lambda>r.
     bind_result (VERIFY (valid_at t r)) (\<lambda>_.
       VERIFY (isCompatible mo_valid (tb_store t ! r)))))"

fun has_any_equal :: "'mo Table \<Rightarrow> addr \<Rightarrow> (PID \<times> PID) list \<Rightarrow> bool result" where
  "has_any_equal t theElement [] = Inr False"
| "has_any_equal t theElement (p # ps) =
     bind_result (resolveScopeIndexElement p t) (\<lambda>entry.
       if id_at t entry = id_at t theElement then Inr True else has_any_equal t theElement ps)"

definition checkEntry :: "PID \<Rightarrow> 'mo Table \<Rightarrow> unit result" where
  "checkEntry i t =
     bind_result (VERIFY (contains_id i t)) (\<lambda>_.
     bind_result (elm i t) (\<lambda>e.
     bind_result (VERIFY (e \<noteq> None)) (\<lambda>_.
     bind_result (ensure_ptr e) (\<lambda>theElement.
     bind_result (VERIFY (i = id_at t theElement)) (\<lambda>_.
     bind_result (VERIFY (valid_at t theElement)) (\<lambda>_.
     bind_result (sco i t) (\<lambda>s.
     bind_result (VERIFY (s \<noteq> None)) (\<lambda>_.
     bind_result (ensure_ptr s) (\<lambda>sc.
     bind_result (VERIFY (valid_at t sc)) (\<lambda>_.
     bind_result (VERIFY (contains_id (id_at t sc) t)) (\<lambda>_.
       if id_at t sc = i \<and> e = tb_root t then Inr ()
       else bind_result (queryScopeContents (id_at t sc) t) (\<lambda>elementsInScope.
            bind_result (has_any_equal t theElement elementsInScope) (\<lambda>properlyRegistered.
              VERIFY properlyRegistered)))))))))))))"

text \<open>The ascent from a scope to the root; on a corrupted index it need not end.\<close>

partial_function (option) ascend :: "'mo Table \<Rightarrow> PPlacement \<Rightarrow> PPlacement partial_result" where
  "ascend t pos = (case pos of
     None \<Rightarrow> Some (Inr None)
   | Some a \<Rightarrow> (case sco (id_at t a) t of
       Inl e \<Rightarrow> Some (Inl e)
     | Inr next \<Rightarrow> if pos = next then Some (Inr pos) else ascend t next))"

definition checkScopeEntry :: "PID \<Rightarrow> PID \<Rightarrow> 'mo Table \<Rightarrow> unit result" where
  "checkScopeEntry scopeID entry t =
     bind_result (VERIFY (contains_id entry t)) (\<lambda>_.
     bind_result (elm entry t) (\<lambda>e.
     bind_result (VERIFY (e \<noteq> None)) (\<lambda>_.
     bind_result (sco entry t) (\<lambda>s.
     bind_result (VERIFY (s \<noteq> None)) (\<lambda>_.
     bind_result (ensure_ptr s) (\<lambda>sc.
       VERIFY (id_at t sc = scopeID)))))))"

fun for_each :: "('x \<Rightarrow> unit result) \<Rightarrow> 'x list \<Rightarrow> unit result" where
  "for_each f [] = Inr ()"
| "for_each f (x # xs) = bind_result (f x) (\<lambda>_. for_each f xs)"

fun for_each_partial :: "('x \<Rightarrow> unit partial_result) \<Rightarrow> 'x list \<Rightarrow> unit partial_result" where
  "for_each_partial f [] = Some (Inr ())"
| "for_each_partial f (x # xs) = bind_partial (f x) (\<lambda>_. for_each_partial f xs)"

definition checkScope :: "PID \<Rightarrow> 'mo Table \<Rightarrow> unit partial_result" where
  "checkScope i t =
     bind_partial (Some (VERIFY (contains_id i t))) (\<lambda>_.
     bind_partial (Some (elm i t)) (\<lambda>e.
     bind_partial (Some (VERIFY (e \<noteq> None))) (\<lambda>_.
     bind_partial (Some (sco i t)) (\<lambda>s.
     bind_partial (Some (VERIFY (s \<noteq> None))) (\<lambda>_.
     bind_partial (ascend t s) (\<lambda>top.
     bind_partial (Some (VERIFY (tb_root t = top))) (\<lambda>_.
       Some (for_each (\<lambda>entry. checkScopeEntry i entry t) (map snd (equal_range i t))))))))))"

definition checkAllocation :: "'mo Table \<Rightarrow> unit result" where
  "checkAllocation t =
     bind_result (VERIFY (0 < size_tab t)) (\<lambda>_.
     bind_result (VERIFY (0 < element_cnt t)) (\<lambda>_.
     bind_result (VERIFY (size_tab t = scope_cnt t + 1)) (\<lambda>_.
       VERIFY (size_tab t = element_cnt t))))"

definition Validator :: "('mo \<Rightarrow> bool) \<Rightarrow> 'mo Table \<Rightarrow> unit partial_result" where
  "Validator mo_valid t =
     bind_partial (Some (checkRoot mo_valid (tb_root t) t)) (\<lambda>_.
     bind_partial (Some (for_each (\<lambda>i. checkEntry i t) (map fst (placementTab t)))) (\<lambda>_.
     bind_partial (for_each_partial (\<lambda>i. checkScope i t) (remdups (map fst (scopeTab t)))) (\<lambda>_.
       Some (checkAllocation t))))"

definition isValid :: "('mo \<Rightarrow> bool) \<Rightarrow> 'mo Table \<Rightarrow> bool partial_result" where
  "isValid mo_valid t = (case Validator mo_valid t of
     None \<Rightarrow> None
   | Some (Inr _) \<Rightarrow> Some (Inr True)
   | Some (Inl e) \<Rightarrow> if e = SelfCheckFailure then Some (Inr False) else Some (Inl e))"

subsection \<open>The index\<close>

definition ensure_valid :: "('mo \<Rightarrow> bool) \<Rightarrow> 'mo Table \<Rightarrow> 'mo Table partial_result" where
  "ensure_valid mo_valid t =
     bind_partial (isValid mo_valid t) (\<lambda>ok.
     bind_partial (Some (require ok ''isValid()'')) (\<lambda>_. Some (Inr t)))"

definition PlacementIndex_new :: "('mo \<Rightarrow> bool) \<Rightarrow> PID \<Rightarrow> 'mo Placement \<Rightarrow> 'mo Table partial_result" where
  "PlacementIndex_new mo_valid newID rootDef =
     bind_partial (Some (setupRoot newID rootDef Table_new)) (ensure_valid mo_valid)"

definition getRoot :: "'mo Table \<Rightarrow> addr result" where
  "getRoot t = getRootElement t"

definition size_index :: "'mo Table \<Rightarrow> nat result" where
  "size_index t = bind_result (require (0 < size_tab t) ''0 < pTab_->size()'') (\<lambda>_. Inr (size_tab t - 1))"

definition check_knownID :: "'mo Table \<Rightarrow> PID \<Rightarrow> unit result" where
  "check_knownID t i =
     (if i = 0 then Inl (Err Logic ''BOTTOM_PLACEMENTREF'')
      else if \<not> contains_id i t then Inl (Err Invalid ''NOT_IN_SESSION'') else Inr ())"

definition find_placement :: "PID \<Rightarrow> 'mo Table \<Rightarrow> addr result" where
  "find_placement i t = bind_result (check_knownID t i) (\<lambda>_. fetch i t)"

definition find_typed :: "('mo \<Rightarrow> bool) \<Rightarrow> PID \<Rightarrow> 'mo Table \<Rightarrow> addr result" where
  "find_typed is_a i t =
     bind_result (find_placement i t) (\<lambda>result.
       if \<not> isCompatible is_a (tb_store t ! result) then Inl (Err Logic ''PLACEMENT_TYPE'') else Inr result)"

definition getScope :: "PID \<Rightarrow> 'mo Table \<Rightarrow> addr result" where
  "getScope i t = bind_result (check_knownID t i) (\<lambda>_. fetchScope i t)"

definition getReferrers :: "PID \<Rightarrow> 'mo Table \<Rightarrow> (PID \<times> PID) list result" where
  "getReferrers i t = bind_result (check_knownID t i) (\<lambda>_. queryScopeContents i t)"

definition insert_placement :: "PID \<Rightarrow> 'mo Placement \<Rightarrow> PID \<Rightarrow> 'mo Table \<Rightarrow> (PID \<times> 'mo Table) result" where
  "insert_placement newID newObj targetScope t =
     (if \<not> contains_id targetScope t then Inl (Err Logic ''INVALID_SCOPE'') else addEntry newID newObj targetScope t)"

definition remove_placement :: "PID \<Rightarrow> 'mo Table \<Rightarrow> (bool \<times> 'mo Table) result" where
  "remove_placement i t =
     bind_result (getRoot t) (\<lambda>r.
       if i = id_at t r then Inl (Err Fatal ''Request to kill the model root.'') else removeEntry i t)"

definition clear_scope :: "('mo \<Rightarrow> bool) \<Rightarrow> PID \<Rightarrow> PID \<Rightarrow> 'mo Table \<Rightarrow> 'mo Table partial_result" where
  "clear_scope mo_valid newID targetScope t =
     bind_partial (Some (getRoot t)) (\<lambda>r.
     bind_partial (Some (if targetScope = id_at t r then clear_tab newID t else removeAll_tab targetScope t))
       (ensure_valid mo_valid))"

definition clear_index :: "PID \<Rightarrow> 'mo Table \<Rightarrow> 'mo Table result" where
  "clear_index newID t = clear_tab newID t"

subsection \<open>The index as a tree\<close>

text \<open>
  What the tables mean: a map from each registered ID to the ID of its scope, the root being its
  own scope. The invariant ties the two tables and the store to this map.
\<close>

definition tree :: "'mo Table \<Rightarrow> PID \<Rightarrow> PID option" where
  "tree t i = (case map_of (placementTab t) i of None \<Rightarrow> None | Some e \<Rightarrow> map_option (id_at t) (scope e))"

definition root_id :: "'mo Table \<Rightarrow> PID" where
  "root_id t = (case tb_root t of None \<Rightarrow> 0 | Some r \<Rightarrow> id_at t r)"

definition contains_rel :: "'mo Table \<Rightarrow> (PID \<times> PID) set" where
  "contains_rel t = set (scopeTab t)"

definition entry_ok :: "'mo Table \<Rightarrow> PID \<Rightarrow> PlacementEntry \<Rightarrow> bool" where
  "entry_ok t i e \<longleftrightarrow> (\<exists>a s e'. e = \<lparr>element = Some a, scope = Some s\<rparr> \<and> a < length (tb_store t) \<and> id_at t a = i \<and> i \<noteq> 0
     \<and> valid_at t a \<and> map_of (placementTab t) (id_at t s) = Some e' \<and> element e' = Some s)"

lemma entry_okI:
  "e = \<lparr>element = Some a, scope = Some s\<rparr> \<Longrightarrow> a < length (tb_store t) \<Longrightarrow> id_at t a = i \<Longrightarrow> i \<noteq> 0 \<Longrightarrow> valid_at t a
     \<Longrightarrow> map_of (placementTab t) (id_at t s) = Some e' \<Longrightarrow> element e' = Some s \<Longrightarrow> entry_ok t i e"
  by (auto simp: entry_ok_def)

definition root_ok :: "('mo \<Rightarrow> bool) \<Rightarrow> 'mo Table \<Rightarrow> bool" where
  "root_ok mo_valid t \<longleftrightarrow> (\<exists>r. tb_root t = Some r \<and> isCompatible mo_valid (tb_store t ! r)
     \<and> map_of (placementTab t) (id_at t r) = Some \<lparr>element = Some r, scope = Some r\<rparr>)"

definition index_ok :: "('mo \<Rightarrow> bool) \<Rightarrow> 'mo Table \<Rightarrow> bool" where
  "index_ok mo_valid t \<longleftrightarrow> root_ok mo_valid t \<and> distinct (map fst (placementTab t))
     \<and> (\<forall>i e. map_of (placementTab t) i = Some e \<longrightarrow> entry_ok t i e)
     \<and> distinct (scopeTab t)
     \<and> (\<forall>s i. (s, i) \<in> contains_rel t \<longleftrightarrow> i \<noteq> root_id t \<and> tree t i = Some s)
     \<and> acyclic (contains_rel t)"

lemma index_okD:
  assumes "index_ok mo_valid t"
  shows "root_ok mo_valid t" "distinct (map fst (placementTab t))" "distinct (scopeTab t)" "acyclic (contains_rel t)"
    and "map_of (placementTab t) i = Some e \<Longrightarrow> entry_ok t i e"
    and "(s, i) \<in> contains_rel t \<longleftrightarrow> i \<noteq> root_id t \<and> tree t i = Some s"
  using assms by (auto simp: index_ok_def)

lemma root_known:
  assumes "index_ok mo_valid t"
  obtains r where "tb_root t = Some r" "root_id t = id_at t r" "isCompatible mo_valid (tb_store t ! r)"
    "map_of (placementTab t) (id_at t r) = Some \<lparr>element = Some r, scope = Some r\<rparr>" "r < length (tb_store t)"
    "valid_at t r" "id_at t r \<noteq> 0"
proof -
  obtain r where r: "tb_root t = Some r" "isCompatible mo_valid (tb_store t ! r)"
    "map_of (placementTab t) (id_at t r) = Some \<lparr>element = Some r, scope = Some r\<rparr>"
    using index_okD(1) [OF assms] by (auto simp: root_ok_def)
  show thesis using index_okD(5) [OF assms r(3)] r by (intro that [of r]) (auto simp: root_id_def entry_ok_def)
qed

lemma entry_known:
  assumes "index_ok mo_valid t" "contains_id i t"
  obtains a s where "map_of (placementTab t) i = Some \<lparr>element = Some a, scope = Some s\<rparr>" "a < length (tb_store t)"
    "s < length (tb_store t)" "id_at t a = i" "i \<noteq> 0" "valid_at t a" "valid_at t s" "contains_id (id_at t s) t"
    "tree t i = Some (id_at t s)" "element_of (id_at t s) t = Some s" "element_of i t = Some a"
proof -
  obtain e where e: "map_of (placementTab t) i = Some e" using assms(2) by (auto simp: contains_id_def)
  obtain a s e' where a: "e = \<lparr>element = Some a, scope = Some s\<rparr>" "a < length (tb_store t)" "id_at t a = i" "i \<noteq> 0"
      "valid_at t a" "map_of (placementTab t) (id_at t s) = Some e'" "element e' = Some s"
    using index_okD(5) [OF assms(1) e] by (auto simp: entry_ok_def)
  have "entry_ok t (id_at t s) e'" by (rule index_okD(5) [OF assms(1) a(6)])
  with a e show thesis by (intro that [of a s]) (auto simp: entry_ok_def contains_id_def tree_def element_of_def)
qed

lemma tree_dom: "index_ok mo_valid t \<Longrightarrow> tree t i \<noteq> None \<longleftrightarrow> contains_id i t"
  by (force simp: tree_def contains_id_def entry_ok_def dest: index_okD(5) split: option.splits)

lemma scope_registered: "index_ok mo_valid t \<Longrightarrow> tree t i = Some s \<Longrightarrow> contains_id s t"
  using tree_dom [of mo_valid t i] by (metis entry_known option.inject option.simps(3))

lemma children_known:
  assumes "index_ok mo_valid t" "(s, i) \<in> contains_rel t"
  shows "contains_id i t" "contains_id s t" "tree t i = Some s"
  using assms index_okD(6) [OF assms(1), of s i] tree_dom [OF assms(1), of i] scope_registered [OF assms(1), of i s] by auto

lemma isScope_iff: "isScope i t \<longleftrightarrow> (\<exists>c. (i, c) \<in> contains_rel t)"
  by (force simp: isScope_def contains_rel_def)

lemma unique_scope: "index_ok mo_valid t \<Longrightarrow> (s, i) \<in> contains_rel t \<Longrightarrow> (s', i) \<in> contains_rel t \<Longrightarrow> s = s'"
  by (simp add: index_okD(6) [of mo_valid])

subsection \<open>The operations on the tree\<close>

definition root_table :: "PID \<Rightarrow> 'mo Placement \<Rightarrow> 'mo Placement list \<Rightarrow> 'mo Table" where
  "root_table newID ref store =
     \<lparr>tb_store = store @ [Placement_copy newID ref],
      placementTab = [(newID, \<lparr>element = Some (length store), scope = Some (length store)\<rparr>)],
      scopeTab = [], tb_root = Some (length store)\<rparr>"

lemma id_at_append [simp]:
  "a < length (tb_store t) \<Longrightarrow> id_at (t\<lparr>tb_store := tb_store t @ xs\<rparr>) a = id_at t a"
  by (simp add: id_at_def nth_append)

lemma setupRoot_result:
  assumes "placementTab t = []" "scopeTab t = []"
  shows "setupRoot newID ref t = Inr (root_table newID ref (tb_store t))"
  using assms by (cases t)
    (simp add: setupRoot_def root_table_def size_tab_def scope_cnt_def create_placement_def contains_id_def id_at_def
       require_def Placement_copy_def)

lemma root_table_ok:
  assumes "newID \<noteq> 0" "isCompatible mo_valid ref"
  shows "index_ok mo_valid (root_table newID ref store)"
    and "tree (root_table newID ref store) = [newID \<mapsto> newID]" "root_id (root_table newID ref store) = newID"
  using assms
  by (auto simp: index_ok_def root_ok_def root_table_def entry_ok_def id_at_def valid_at_def contains_rel_def tree_def
      root_id_def Placement_copy_def isCompatible_def Placement_isValid_def acyclic_def fun_eq_iff split: option.splits if_splits)

lemma clear_result:
  assumes "index_ok mo_valid t" "newID \<noteq> 0"
  obtains t' where "clear_tab newID t = Inr t'" "index_ok mo_valid t'" "tree t' = [newID \<mapsto> newID]" "root_id t' = newID"
proof -
  obtain r where r: "tb_root t = Some r" "isCompatible mo_valid (tb_store t ! r)" by (rule root_known [OF assms(1)])
  show thesis
    by (rule that [of "root_table newID (tb_store t ! r) (tb_store t)"])
      (use root_table_ok [OF assms(2) r(2)] in \<open>simp_all add: clear_tab_def r setupRoot_result\<close>)
qed

lemma map_of_filter_keys: "map_of (filter (\<lambda>p. fst p \<notin> P) xs) i = (if i \<in> P then None else map_of xs i)"
  by (induction xs) auto

text \<open>Adding an entry.\<close>

definition added_table :: "PID \<Rightarrow> 'mo Placement \<Rightarrow> PID \<Rightarrow> 'mo Table \<Rightarrow> 'mo Table" where
  "added_table newID newObj scopeID t =
     t\<lparr>tb_store := tb_store t @ [Placement_copy newID newObj],
       placementTab := AList.update newID \<lparr>element = Some (length (tb_store t)), scope = element_of scopeID t\<rparr> (placementTab t),
       scopeTab := scopeTab t @ [(scopeID, newID)]\<rparr>"

lemma addEntry_result:
  assumes "contains_id scopeID t" "newID \<noteq> 0" "\<not> contains_id newID t"
  shows "addEntry newID newObj scopeID t = Inr (newID, added_table newID newObj scopeID t)"
  using assms
  by (simp add: addEntry_def create_placement_def added_table_def Let_def require_def contains_id_def element_of_def
      id_at_def Placement_copy_def)

lemma added_lookup:
  assumes "\<not> contains_id newID t"
  shows "map_of (placementTab (added_table newID newObj scopeID t)) i =
     (if i = newID then Some \<lparr>element = Some (length (tb_store t)), scope = element_of scopeID t\<rparr> else map_of (placementTab t) i)"
  by (simp add: added_table_def update_conv)

lemma added_store [simp]:
  "a < length (tb_store t) \<Longrightarrow> id_at (added_table newID newObj scopeID t) a = id_at t a"
  "a < length (tb_store t) \<Longrightarrow> valid_at (added_table newID newObj scopeID t) a = valid_at t a"
  "id_at (added_table newID newObj scopeID t) (length (tb_store t)) = newID"
  "valid_at (added_table newID newObj scopeID t) (length (tb_store t)) = Placement_isValid newObj"
  "tb_root (added_table newID newObj scopeID t) = tb_root t"
  "length (tb_store (added_table newID newObj scopeID t)) = Suc (length (tb_store t))"
  "a < length (tb_store t) \<Longrightarrow> tb_store (added_table newID newObj scopeID t) ! a = tb_store t ! a"
  by (simp_all add: id_at_def valid_at_def added_table_def nth_append Placement_copy_def Placement_isValid_def)

lemma added_tree:
  assumes ok: "index_ok mo_valid t" and s: "contains_id scopeID t" and n: "\<not> contains_id newID t"
  shows "tree (added_table newID newObj scopeID t) = (tree t)(newID \<mapsto> scopeID)"
    and "root_id (added_table newID newObj scopeID t) = root_id t"
proof -
  obtain a where a: "element_of scopeID t = Some a" "a < length (tb_store t)" "id_at t a = scopeID"
    by (rule entry_known [OF ok s])
  have "tree (added_table newID newObj scopeID t) i = ((tree t)(newID \<mapsto> scopeID)) i" for i
  proof (cases "i \<noteq> newID \<and> contains_id i t")
    case True
    then obtain b s where "map_of (placementTab t) i = Some \<lparr>element = Some b, scope = Some s\<rparr>" "s < length (tb_store t)"
      using entry_known [OF ok] by blast
    with True show ?thesis by (simp add: tree_def added_lookup [OF n])
  next
    case False
    with a show ?thesis by (auto simp: tree_def added_lookup [OF n] contains_id_def)
  qed
  then show "tree (added_table newID newObj scopeID t) = (tree t)(newID \<mapsto> scopeID)" by blast
  obtain r where "tb_root t = Some r" "r < length (tb_store t)" by (rule root_known [OF ok])
  then show "root_id (added_table newID newObj scopeID t) = root_id t" by (simp add: root_id_def)
qed

lemma added_entry_ok:
  assumes ok: "index_ok mo_valid t" and s: "contains_id scopeID t" and n: "\<not> contains_id newID t"
    and new: "newID \<noteq> 0" "Placement_isValid newObj"
    and e: "map_of (placementTab (added_table newID newObj scopeID t)) i = Some e"
  shows "entry_ok (added_table newID newObj scopeID t) i e"
proof (cases "i = newID")
  case True
  obtain a where a: "element_of scopeID t = Some a" "a < length (tb_store t)" "id_at t a = scopeID"
    by (rule entry_known [OF ok s])
  then obtain e' where e': "map_of (placementTab t) scopeID = Some e'" "element e' = Some a"
    by (auto simp: element_of_def split: option.splits)
  moreover have "scopeID \<noteq> newID" using s n by blast
  ultimately show ?thesis using True e new a e'
    by (intro entry_okI [of e "length (tb_store t)" a]) (auto simp: added_lookup [OF n])
next
  case False
  with e have m: "map_of (placementTab t) i = Some e" by (simp add: added_lookup [OF n])
  then have "contains_id i t" by (simp add: contains_id_def)
  then obtain a s where a: "map_of (placementTab t) i = Some \<lparr>element = Some a, scope = Some s\<rparr>" "a < length (tb_store t)"
      "s < length (tb_store t)" "id_at t a = i" "i \<noteq> 0" "valid_at t a" "contains_id (id_at t s) t"
      "element_of (id_at t s) t = Some s"
    by (rule entry_known [OF ok])
  then have e: "e = \<lparr>element = Some a, scope = Some s\<rparr>" using m by simp
  obtain e' where e': "map_of (placementTab t) (id_at t s) = Some e'" "element e' = Some s"
    using a by (auto simp: element_of_def contains_id_def)
  have "id_at t s \<noteq> newID" using n a by blast
  with a e e' show ?thesis
    by (intro entry_okI [of e a s]) (auto simp: added_lookup [OF n])
qed

lemma added_ok:
  assumes ok: "index_ok mo_valid t" and s: "contains_id scopeID t" and n: "\<not> contains_id newID t"
    and new: "newID \<noteq> 0" "Placement_isValid newObj"
  shows "index_ok mo_valid (added_table newID newObj scopeID t)"
proof -
  let ?t = "added_table newID newObj scopeID t"
  obtain r where r: "tb_root t = Some r" "root_id t = id_at t r" "isCompatible mo_valid (tb_store t ! r)"
    "map_of (placementTab t) (id_at t r) = Some \<lparr>element = Some r, scope = Some r\<rparr>" "r < length (tb_store t)"
    by (rule root_known [OF ok])
  have rn: "root_id t \<noteq> newID" using n r by (auto simp: contains_id_def)
  have rel: "contains_rel ?t = insert (scopeID, newID) (contains_rel t)"
    by (simp add: contains_rel_def added_table_def)
  have out: "(newID, c) \<notin> contains_rel t" "(c, newID) \<notin> contains_rel t" for c
    using children_known [OF ok] n by blast+
  have "root_ok mo_valid ?t" using r rn by (simp add: root_ok_def added_lookup [OF n])
  moreover have "distinct (map fst (placementTab ?t))"
    using distinct_update [OF index_okD(2) [OF ok]] by (simp add: added_table_def)
  moreover have "distinct (scopeTab ?t)"
    using index_okD(3) [OF ok] out(2) [of scopeID] by (simp add: added_table_def contains_rel_def)
  moreover have "(p, i) \<in> contains_rel ?t \<longleftrightarrow> i \<noteq> root_id ?t \<and> tree ?t i = Some p" for p i
    using rn out(2) by (auto simp: rel added_tree [OF ok s n] index_okD(6) [OF ok])
  moreover have "acyclic (contains_rel ?t)"
  proof -
    have "(newID, scopeID) \<notin> (contains_rel t)\<^sup>*" using out(1) s n by (auto elim: converse_rtranclE)
    then show ?thesis using index_okD(4) [OF ok] by (simp add: rel acyclic_insert)
  qed
  moreover have "entry_ok ?t i e" if "map_of (placementTab ?t) i = Some e" for i e
    by (rule added_entry_ok [OF ok s n new that])
  ultimately show ?thesis unfolding index_ok_def by blast
qed

text \<open>Discarding a set of IDs closed under the contents relation.\<close>

definition pruned :: "PID set \<Rightarrow> 'mo Table \<Rightarrow> 'mo Table" where
  "pruned P t = t\<lparr>placementTab := filter (\<lambda>p. fst p \<notin> P) (placementTab t),
                  scopeTab := filter (\<lambda>p. snd p \<notin> P) (scopeTab t)\<rparr>"

lemma pruned_simps [simp]:
  "tb_store (pruned P t) = tb_store t" "tb_root (pruned P t) = tb_root t" "id_at (pruned P t) a = id_at t a"
  "valid_at (pruned P t) a = valid_at t a"
  "map_of (placementTab (pruned P t)) i = (if i \<in> P then None else map_of (placementTab t) i)"
  "contains_id i (pruned P t) \<longleftrightarrow> contains_id i t \<and> i \<notin> P"
  "contains_rel (pruned P t) = {p \<in> contains_rel t. snd p \<notin> P}"
  by (auto simp: pruned_def id_at_def valid_at_def map_of_filter_keys contains_id_def contains_rel_def)

lemma pruned_tree: "tree (pruned P t) i = (if i \<in> P then None else tree t i)" "root_id (pruned P t) = root_id t"
proof -
  have "id_at (pruned P t) = id_at t" by (rule ext) simp
  then show "tree (pruned P t) i = (if i \<in> P then None else tree t i)" "root_id (pruned P t) = root_id t"
    by (simp_all add: tree_def root_id_def split: option.splits)
qed

lemma pruned_ok:
  assumes ok: "index_ok mo_valid t" and root: "root_id t \<notin> P"
    and closed: "\<And>s i. (s, i) \<in> contains_rel t \<Longrightarrow> s \<in> P \<Longrightarrow> i \<in> P"
  shows "index_ok mo_valid (pruned P t)"
proof -
  obtain r where r: "tb_root t = Some r" "root_id t = id_at t r" "isCompatible mo_valid (tb_store t ! r)"
    "map_of (placementTab t) (id_at t r) = Some \<lparr>element = Some r, scope = Some r\<rparr>"
    by (rule root_known [OF ok])
  have "root_ok mo_valid (pruned P t)" using r root by (simp add: root_ok_def)
  moreover have "distinct (map fst (placementTab (pruned P t)))"
    using index_okD(2) [OF ok] by (simp add: pruned_def distinct_map_filter)
  moreover have "distinct (scopeTab (pruned P t))" using index_okD(3) [OF ok] by (simp add: pruned_def)
  moreover have "(s, i) \<in> contains_rel (pruned P t) \<longleftrightarrow> i \<noteq> root_id (pruned P t) \<and> tree (pruned P t) i = Some s" for s i
    using index_okD(6) [OF ok, of s i] by (auto simp: pruned_tree)
  moreover have "acyclic (contains_rel (pruned P t))"
    by (rule acyclic_subset [OF index_okD(4) [OF ok]]) auto
  moreover have "entry_ok (pruned P t) i e" if e: "map_of (placementTab (pruned P t)) i = Some e" for i e
  proof -
    have i: "map_of (placementTab t) i = Some e" "i \<notin> P" using e by (auto split: if_splits)
    then obtain a s e' where a: "e = \<lparr>element = Some a, scope = Some s\<rparr>" "a < length (tb_store t)" "id_at t a = i" "i \<noteq> 0"
        "valid_at t a" "map_of (placementTab t) (id_at t s) = Some e'" "element e' = Some s"
      using index_okD(5) [OF ok i(1)] by (auto simp: entry_ok_def)
    have "tree t i = Some (id_at t s)" using i a by (simp add: tree_def)
    then have "id_at t s \<notin> P"
    proof (cases "i = root_id t")
      case True
      then have "e = \<lparr>element = Some r, scope = Some r\<rparr>" using i(1) r(2,4) by simp
      then have "s = r" using a(1) by simp
      then show ?thesis using root r(2) by simp
    next
      case False
      then have "(id_at t s, i) \<in> contains_rel t" using \<open>tree t i = _\<close> index_okD(6) [OF ok] by simp
      then show ?thesis using closed i(2) by blast
    qed
    with a show ?thesis by (intro entry_okI [of e a s _ _ e']) simp_all
  qed
  ultimately show ?thesis unfolding index_ok_def by blast
qed

lemma filter_key_delete: "AList.delete i xs = filter (\<lambda>p. fst p \<notin> {i}) xs"
  by (auto simp: AList.delete_eq case_prod_unfold intro: filter_cong)

lemma removed_entry:
  assumes ok: "index_ok mo_valid t" and i: "contains_id i t" "i \<noteq> root_id t" "\<not> isScope i t"
  shows "removeEntry i t = Inr (True, pruned {i} t)"
proof -
  obtain a s where a: "map_of (placementTab t) i = Some \<lparr>element = Some a, scope = Some s\<rparr>" "tree t i = Some (id_at t s)"
    by (rule entry_known [OF ok i(1)])
  then have m: "(id_at t s, i) \<in> set (scopeTab t)"
    using i index_okD(6) [OF ok] by (simp add: contains_rel_def)
  have u: "p = (id_at t s, i)" if "p \<in> set (scopeTab t)" "snd p = i" for p
  proof -
    have "(fst p, i) \<in> contains_rel t" using that by (auto simp: contains_rel_def)
    moreover have "(id_at t s, i) \<in> contains_rel t" using m by (simp add: contains_rel_def)
    ultimately have "fst p = id_at t s" by (rule unique_scope [OF ok])
    with that(2) show ?thesis by (metis prod.collapse)
  qed
  have "remove1 (id_at t s, i) (scopeTab t) = filter (\<lambda>p. snd p \<notin> {i}) (scopeTab t)"
  proof -
    have "remove1 (id_at t s, i) (scopeTab t) = filter (\<lambda>p. (id_at t s, i) \<noteq> p) (scopeTab t)"
      using distinct_remove1_removeAll [OF index_okD(3) [OF ok]] by (simp add: removeAll_filter_not_eq)
    also have "\<dots> = filter (\<lambda>p. snd p \<notin> {i}) (scopeTab t)"
      by (rule filter_cong [OF refl]) (metis u singletonD singletonI snd_conv)
    finally show ?thesis .
  qed
  then have "t\<lparr>placementTab := AList.delete i (placementTab t), scopeTab := remove1 (id_at t s, i) (scopeTab t)\<rparr> = pruned {i} t"
    by (simp add: pruned_def filter_key_delete)
  moreover have "\<not> isScope i (pruned {i} t)" using i(3) by (auto simp: isScope_iff)
  ultimately show ?thesis
    using a i m by (simp add: removeEntry_def remove_base_entry_def ensure_ptr_def remove_from_scope_def id_at_def require_def)
qed

text \<open>Recursive removal: what it does to a forest, whatever part of the index it still covers.\<close>

definition forest :: "'mo Table \<Rightarrow> bool" where
  "forest t \<longleftrightarrow> distinct (scopeTab t) \<and> acyclic (contains_rel t)
     \<and> (\<forall>s s' i. (s, i) \<in> contains_rel t \<longrightarrow> (s', i) \<in> contains_rel t \<longrightarrow> s = s')
     \<and> (\<forall>s i. (s, i) \<in> contains_rel t \<longrightarrow> contains_id i t)"

definition cut :: "PID set \<Rightarrow> PID set \<Rightarrow> 'mo Table \<Rightarrow> 'mo Table" where
  "cut S P t = t\<lparr>placementTab := filter (\<lambda>p. fst p \<notin> P) (placementTab t),
                 scopeTab := filter (\<lambda>p. fst p \<notin> S) (scopeTab t)\<rparr>"

lemma cut_simps [simp]:
  "contains_rel (cut S P t) = {p \<in> contains_rel t. fst p \<notin> S}"
  "contains_id i (cut S P t) \<longleftrightarrow> contains_id i t \<and> i \<notin> P"
  "isScope i (cut S P t) \<longleftrightarrow> isScope i t \<and> i \<notin> S"
  "map_of (placementTab (cut S P t)) i = (if i \<in> P then None else map_of (placementTab t) i)"
  "id_at (cut S P t) a = id_at t a" "id_at (t\<lparr>placementTab := tab\<rparr>) a = id_at t a"
  by (auto simp: cut_def contains_rel_def contains_id_def map_of_filter_keys isScope_def id_at_def)

lemma cut_cut: "cut S' P' (cut S P t) = cut (S \<union> S') (P \<union> P') t"
  by (auto simp: cut_def intro!: filter_cong)

lemma cut_nothing: "(\<And>s i. (s, i) \<in> contains_rel t \<Longrightarrow> s \<notin> S) \<Longrightarrow> cut S {} t = t"
  by (cases t) (auto simp: cut_def contains_rel_def intro!: filter_True)

lemma erase_range_cut: "erase_range i t = cut {i} {} t"
  by (cases t) (auto simp: erase_range_def cut_def intro!: filter_cong)

lemma remove_base_cut: "contains_id i t \<Longrightarrow> \<exists>e. remove_base_entry i t = Inr (e, cut {} {i} t)"
  by (auto simp: remove_base_entry_def cut_def filter_key_delete contains_id_def intro!: filter_cong)

lemma forest_cut:
  assumes "forest t" "\<And>s i. (s, i) \<in> contains_rel t \<Longrightarrow> i \<in> P \<Longrightarrow> s \<in> S"
  shows "forest (cut S P t)"
proof -
  have "acyclic (contains_rel (cut S P t))"
    using assms(1) by (auto simp: forest_def intro: acyclic_subset)
  moreover have "distinct (scopeTab (cut S P t))" using assms(1) by (simp add: forest_def cut_def)
  ultimately show ?thesis using assms unfolding forest_def by auto
qed

lemma reach_below:
  "r\<^sup>* `` (insert c cs) = r\<^sup>* `` {c} \<union> {p \<in> r. fst p \<notin> r\<^sup>* `` {c}}\<^sup>* `` cs"
  (is "?L = ?C \<union> ?R")
proof
  show "?C \<union> ?R \<subseteq> ?L" using rtrancl_mono [of "{p \<in> r. fst p \<notin> ?C}" "r"] by auto
  have "y \<in> ?C \<union> ?R" if "x \<in> cs" "(x, y) \<in> r\<^sup>*" for x y
    using that(2)
  proof (induction rule: rtrancl_induct)
    case base
    then show ?case using that(1) by auto
  next
    case (step y z)
    show ?case
    proof (cases "y \<in> ?C")
      case True
      with step(2) show ?thesis by (auto intro: rtrancl_into_rtrancl)
    next
      case False
      with step(3) obtain x' where "x' \<in> cs" "(x', y) \<in> {p \<in> r. fst p \<notin> ?C}\<^sup>*" by auto
      moreover have "(y, z) \<in> {p \<in> r. fst p \<notin> ?C}" using step(2) False by auto
      ultimately show ?thesis by (blast intro: rtrancl_into_rtrancl)
    qed
  qed
  then show "?L \<subseteq> ?C \<union> ?R" by auto
qed

lemma reach_children:
  assumes "acyclic r"
  shows "{p \<in> r. fst p \<noteq> i}\<^sup>* `` (r `` {i}) = r\<^sup>+ `` {i}" (is "?Q\<^sup>* `` _ = _")
proof
  have "?Q\<^sup>* \<subseteq> r\<^sup>*" by (rule rtrancl_mono) auto
  then show "?Q\<^sup>* `` (r `` {i}) \<subseteq> r\<^sup>+ `` {i}" by (auto intro: rtrancl_into_trancl2)
  have "y \<in> ?Q\<^sup>* `` (r `` {i})" if "(i, y) \<in> r\<^sup>+" for y
    using that
  proof (induction rule: trancl_induct)
    case (base y)
    then show ?case by auto
  next
    case (step y z)
    have "y \<noteq> i" using step(1) assms by (auto simp: acyclic_def)
    with step(2) have "(y, z) \<in> ?Q" by auto
    with step(3) show ?case by (blast intro: rtrancl_into_rtrancl)
  qed
  then show "r\<^sup>+ `` {i} \<subseteq> ?Q\<^sup>* `` (r `` {i})" by auto
qed

lemma forest_below:
  assumes "forest t" "c \<notin> Range (contains_rel t)" "(s, i) \<in> contains_rel t" "(c, i) \<in> (contains_rel t)\<^sup>*"
  shows "(c, s) \<in> (contains_rel t)\<^sup>*"
  using assms(4)
proof (cases rule: rtranclE)
  case base
  then show ?thesis using assms(2,3) by auto
next
  case (step p)
  then have "p = s" using assms(1,3) by (auto simp: forest_def)
  with step show ?thesis by simp
qed

lemma equal_range_children: "set (map snd (equal_range i t)) = contains_rel t `` {i}"
  by (force simp: equal_range_def contains_rel_def)

lemma distinct_children: "forest t \<Longrightarrow> distinct (map snd (equal_range i t))"
  by (auto simp: forest_def equal_range_def distinct_map inj_on_def prod_eq_iff)

lemma remove_all_result:
  "forest t \<Longrightarrow> remove_all_from_scope i t = Inr (cut ((contains_rel t)\<^sup>* `` {i}) ((contains_rel t)\<^sup>+ `` {i}) t)"
  "forest t \<Longrightarrow> distinct cs \<Longrightarrow> (\<And>c. c \<in> set cs \<Longrightarrow> contains_id c t \<and> c \<notin> Range (contains_rel t)) \<Longrightarrow>
     remove_children cs t = Inr (cut ((contains_rel t)\<^sup>* `` set cs) ((contains_rel t)\<^sup>* `` set cs) t)"
proof (induction i t and cs t rule: remove_all_from_scope_remove_children.induct)
  case (1 i t)
  let ?r = "contains_rel t" and ?t = "erase_range i t"
  have rel: "contains_rel ?t = {p \<in> ?r. fst p \<noteq> i}" by (auto simp: erase_range_cut)
  have f: "forest ?t" unfolding erase_range_cut by (rule forest_cut [OF 1(2)]) simp
  have k: "contains_id c ?t \<and> c \<notin> Range (contains_rel ?t)" if "c \<in> set (map snd (equal_range i t))" for c
  proof -
    have "(i, c) \<in> ?r" using that unfolding equal_range_children by simp
    then show ?thesis using 1(2) by (auto simp: forest_def rel) (auto simp: erase_range_cut)
  qed
  have "remove_children (map snd (equal_range i t)) ?t = Inr (cut (?r\<^sup>+ `` {i}) (?r\<^sup>+ `` {i}) ?t)"
    using "1.IH" [OF f distinct_children [OF 1(2)] k] reach_children [of ?r i] 1(2)
    unfolding rel equal_range_children by (simp add: forest_def)
  moreover have "{i} \<union> ?r\<^sup>+ `` {i} = ?r\<^sup>* `` {i}" by (auto simp: rtrancl_eq_or_trancl)
  ultimately show ?case by (simp add: erase_range_cut cut_cut)
next
  case (2 t)
  show ?case by (simp add: cut_nothing)
next
  case (3 c cs t)
  let ?r = "contains_rel t" and ?c = "(contains_rel t)\<^sup>* `` {c}"
  let ?t1 = "cut ?c (?r\<^sup>+ `` {c}) t" and ?t2 = "cut ?c ?c t"
  have top: "contains_id c t" "c \<notin> Range ?r" using "3.prems"(3) by auto
  have r1: "remove_all_from_scope c t = Inr ?t1" by (rule "3.IH"(1) [OF "3.prems"(1)])
  have "c \<notin> ?r\<^sup>+ `` {c}" using "3.prems"(1) by (simp add: forest_def acyclic_def)
  then have "contains_id c ?t1" using top by simp
  then obtain e where "remove_base_entry c ?t1 = Inr (e, cut {} {c} ?t1)" using remove_base_cut by blast
  moreover have "?r\<^sup>+ `` {c} \<union> {c} = ?c" by (auto simp: rtrancl_eq_or_trancl)
  ultimately have r2: "remove_base_entry c ?t1 = Inr (e, ?t2)" by (simp add: cut_cut)
  have q: "require (\<not> isScope c ?t2) m = Inr ()" "require (\<not> contains_id c ?t2) m = Inr ()" for m by (auto simp: require_def)
  have f: "forest ?t2" by (rule forest_cut [OF "3.prems"(1)]) (use forest_below [OF "3.prems"(1) top(2)] in blast)
  have k: "contains_id c' ?t2 \<and> c' \<notin> Range (contains_rel ?t2)" if "c' \<in> set cs" for c'
  proof -
    have "contains_id c' t" "c' \<notin> Range ?r" "c' \<noteq> c" using "3.prems"(2,3) that by auto
    moreover from this have "c' \<notin> ?c" by (auto elim: rtranclE)
    ultimately show ?thesis by auto
  qed
  have "remove_children cs ?t2 = Inr (cut ((contains_rel ?t2)\<^sup>* `` set cs) ((contains_rel ?t2)\<^sup>* `` set cs) ?t2)"
    using "3.IH"(2) [OF r1 r2 refl q f _ k] "3.prems"(2) by simp
  moreover have "?r\<^sup>* `` set (c # cs) = ?c \<union> (contains_rel ?t2)\<^sup>* `` set cs"
    using reach_below [of ?r c "set cs"] by simp
  ultimately show ?case using r1 r2 q by (simp add: cut_cut)
qed

definition below :: "'mo Table \<Rightarrow> PID \<Rightarrow> PID set" where
  "below t i = (contains_rel t)\<^sup>* `` {i}"

lemma index_forest: "index_ok mo_valid t \<Longrightarrow> forest t"
  using unique_scope [of mo_valid t] children_known(1) [of mo_valid t] by (auto simp: forest_def index_okD)

lemma root_no_child: "index_ok mo_valid t \<Longrightarrow> (s, root_id t) \<notin> contains_rel t"
  by (simp add: index_okD(6))

lemma below_closed: "(s, c) \<in> contains_rel t \<Longrightarrow> s \<in> below t i \<Longrightarrow> c \<in> below t i"
  by (auto simp: below_def intro: rtrancl_into_rtrancl)

lemma root_not_below: "index_ok mo_valid t \<Longrightarrow> i \<noteq> root_id t \<Longrightarrow> root_id t \<notin> below t i"
  by (auto simp: below_def root_no_child elim: rtranclE)

lemma removeAll_unknown:
  assumes ok: "index_ok mo_valid t" and i: "\<not> contains_id i t"
  shows "removeAll_tab i t = Inr t"
proof -
  have n: "(i, c) \<notin> contains_rel t" for c using children_known(2) [OF ok] i by blast
  then have "(contains_rel t)\<^sup>+ `` {i} = {}" by (auto dest: tranclD)
  moreover have "cut ((contains_rel t)\<^sup>* `` {i}) {} t = t"
  proof (rule cut_nothing)
    fix s c assume "(s, c) \<in> contains_rel t"
    then show "s \<notin> (contains_rel t)\<^sup>* `` {i}" using n by (auto elim: converse_rtranclE)
  qed
  ultimately have "remove_all_from_scope i t = Inr t"
    using remove_all_result(1) [OF index_forest [OF ok], of i] by simp
  moreover have "\<not> isScope i t" using n by (simp add: isScope_iff)
  ultimately show ?thesis using i by (simp add: removeAll_tab_def removeEntry_def require_def)
qed

lemma removeAll_result:
  assumes ok: "index_ok mo_valid t" and i: "contains_id i t" "i \<noteq> root_id t"
  shows "removeAll_tab i t = Inr (pruned (below t i) t)"
proof -
  let ?r = "contains_rel t"
  let ?t = "cut (?r\<^sup>* `` {i}) (?r\<^sup>+ `` {i}) t"
  have r: "remove_all_from_scope i t = Inr ?t" by (rule remove_all_result(1) [OF index_forest [OF ok]])
  obtain a s where a: "map_of (placementTab t) i = Some \<lparr>element = Some a, scope = Some s\<rparr>" "tree t i = Some (id_at t s)"
    by (rule entry_known [OF ok i(1)])
  let ?s = "id_at t s"
  have m: "(?s, i) \<in> ?r" using i a index_okD(6) [OF ok] by simp
  have up: "?s \<notin> ?r\<^sup>* `` {i}"
    using m index_okD(4) [OF ok] rtrancl_into_trancl1 [of i ?s ?r i] by (auto simp: acyclic_def)
  have "i \<notin> ?r\<^sup>+ `` {i}" using index_okD(4) [OF ok] by (simp add: acyclic_def)
  then have e: "map_of (placementTab ?t) i = Some \<lparr>element = Some a, scope = Some s\<rparr>"
    using a by simp
  have "scopeTab (pruned (below t i) t) = remove1 (?s, i) (scopeTab ?t)"
  proof -
    have "distinct (scopeTab ?t)" using index_okD(3) [OF ok] by (simp add: cut_def)
    then have "remove1 (?s, i) (scopeTab ?t) = filter (\<lambda>p. (?s, i) \<noteq> p) (scopeTab ?t)"
      by (simp add: distinct_remove1_removeAll removeAll_filter_not_eq)
    also have "\<dots> = filter (\<lambda>p. fst p \<notin> below t i \<and> (?s, i) \<noteq> p) (scopeTab t)"
      by (simp add: cut_def below_def conj_commute)
    also have "\<dots> = filter (\<lambda>p. snd p \<notin> below t i) (scopeTab t)"
    proof (rule filter_cong [OF refl])
      fix p assume "p \<in> set (scopeTab t)"
      then have p: "(fst p, snd p) \<in> ?r" by (simp add: contains_rel_def)
      have "fst p \<in> below t i" if "snd p \<in> below t i" "(?s, i) \<noteq> p"
      proof (cases "snd p = i")
        case True
        then have "fst p = ?s" using p m unique_scope [OF ok] by blast
        with True that(2) show ?thesis by (metis prod.collapse)
      next
        case False
        with that(1) obtain q where "q \<in> below t i" "(q, snd p) \<in> ?r"
          by (auto simp: below_def elim: rtranclE)
        then show ?thesis using p unique_scope [OF ok] by blast
      qed
      moreover have "snd p \<in> below t i" if "fst p \<in> below t i" by (rule below_closed [OF p that])
      moreover have "i \<in> below t i" by (simp add: below_def)
      ultimately show "(fst p \<notin> below t i \<and> (?s, i) \<noteq> p) = (snd p \<notin> below t i)" by (metis snd_conv)
    qed
    finally show ?thesis by (simp add: pruned_def)
  qed
  moreover have "placementTab (pruned (below t i) t) = AList.delete i (placementTab ?t)"
  proof -
    have "?r\<^sup>* `` {i} = insert i (?r\<^sup>+ `` {i})" by (auto simp: rtrancl_eq_or_trancl)
    then show ?thesis by (auto simp: pruned_def below_def cut_def filter_key_delete intro!: filter_cong)
  qed
  ultimately have t: "?t\<lparr>placementTab := AList.delete i (placementTab ?t), scopeTab := remove1 (?s, i) (scopeTab ?t)\<rparr> = pruned (below t i) t"
    by (simp add: pruned_def cut_def)
  have in_tab: "(?s, i) \<in> set (scopeTab ?t)" using m up by (auto simp: contains_rel_def cut_def)
  have q: "require (\<not> isScope i (pruned (below t i) t)) n = Inr ()" "require (\<not> contains_id i (pruned (below t i) t)) n = Inr ()" for n
    by (auto simp: require_def isScope_iff below_def)
  have "contains_id i ?t" "\<not> isScope i ?t" using e by (simp_all add: contains_id_def)
  then have "removeEntry i ?t = Inr (True, pruned (below t i) t)"
    unfolding removeEntry_def remove_base_entry_def e using in_tab t q
    by (simp add: ensure_ptr_def remove_from_scope_def del: pruned_simps)
  then show ?thesis using r q by (simp add: removeAll_tab_def)
qed

subsection \<open>The self-check succeeds\<close>

lemma VERIFY_True [simp]: "VERIFY True = Inr ()"
  by (simp add: VERIFY_def)

lemma for_each_ok: "(\<And>x. x \<in> set xs \<Longrightarrow> f x = Inr ()) \<Longrightarrow> for_each f xs = Inr ()"
  by (induction xs) simp_all

lemma for_each_partial_ok: "(\<And>x. x \<in> set xs \<Longrightarrow> f x = Some (Inr ())) \<Longrightarrow> for_each_partial f xs = Some (Inr ())"
  by (induction xs) simp_all

lemma fetch_result:
  assumes "index_ok mo_valid t" "contains_id i t"
  obtains a where "fetch i t = Inr a" "element_of i t = Some a" "id_at t a = i"
proof -
  obtain a s where "map_of (placementTab t) i = Some \<lparr>element = Some a, scope = Some s\<rparr>" "id_at t a = i" "element_of i t = Some a"
    by (rule entry_known [OF assms])
  then show thesis using that [of a] assms(2) by (simp add: fetch_def base_entry_def ensure_ptr_def require_def)
qed

lemma index_wf: "index_ok mo_valid t \<Longrightarrow> wf (contains_rel t)"
  using finite_acyclic_wf [of "contains_rel t"] by (simp add: contains_rel_def index_okD(4) [unfolded contains_rel_def])

lemma ascend_to_root:
  assumes ok: "index_ok mo_valid t"
  shows "element_of i t = Some a \<Longrightarrow> id_at t a = i \<Longrightarrow> ascend t (Some a) = Some (Inr (tb_root t))"
proof (induction i arbitrary: a rule: wf_induct_rule [OF index_wf [OF ok]])
  case (1 i)
  have "contains_id i t" using 1(2) by (auto simp: element_of_def contains_id_def split: option.splits)
  then obtain b s where b: "map_of (placementTab t) i = Some \<lparr>element = Some b, scope = Some s\<rparr>" "element_of i t = Some b"
      and e': "tree t i = Some (id_at t s)" "element_of (id_at t s) t = Some s"
    by (rule entry_known [OF ok])
  then have e: "map_of (placementTab t) i = Some \<lparr>element = Some a, scope = Some s\<rparr>"
      "tree t i = Some (id_at t s)" "element_of (id_at t s) t = Some s" using 1(2) by simp_all
  obtain r where r: "tb_root t = Some r" "root_id t = id_at t r"
    "map_of (placementTab t) (id_at t r) = Some \<lparr>element = Some r, scope = Some r\<rparr>" by (rule root_known [OF ok])
  have up: "sco (id_at t a) t = Inr (Some s)" using e 1(3) by (simp add: sco_def base_entry_def)
  show ?case
  proof (cases "i = root_id t")
    case True
    then have "a = r" "s = r" using e(1) r by simp_all
    then show ?thesis using up r by (simp add: ascend.simps)
  next
    case False
    then have m: "(id_at t s, i) \<in> contains_rel t" using e(2) index_okD(6) [OF ok] by simp
    then have "s \<noteq> a" using 1(3) index_okD(4) [OF ok] by (auto simp: acyclic_def)
    then show ?thesis using up "1.IH" [OF m e(3) refl] by (subst ascend.simps) simp
  qed
qed

lemma has_any_equal_result:
  assumes ok: "index_ok mo_valid t" and "\<And>p. p \<in> set ps \<Longrightarrow> contains_id (snd p) t"
  shows "has_any_equal t a ps = Inr (\<exists>p\<in>set ps. snd p = id_at t a)"
  using assms(2)
proof (induction ps)
  case Nil
  then show ?case by simp
next
  case (Cons p ps)
  have c: "contains_id (snd p) t" using Cons.prems by simp
  obtain b where "fetch (snd p) t = Inr b" "id_at t b = snd p" by (rule fetch_result [OF ok c])
  then show ?case using Cons c by (simp add: resolveScopeIndexElement_def require_def)
qed

lemma checkEntry_ok:
  assumes ok: "index_ok mo_valid t" and i: "contains_id i t"
  shows "checkEntry i t = Inr ()"
proof -
  obtain a s where e: "map_of (placementTab t) i = Some \<lparr>element = Some a, scope = Some s\<rparr>" "id_at t a = i" "valid_at t a"
      "valid_at t s" "contains_id (id_at t s) t" "tree t i = Some (id_at t s)"
    by (rule entry_known [OF ok i])
  obtain r where r: "tb_root t = Some r" "root_id t = id_at t r"
    "map_of (placementTab t) (id_at t r) = Some \<lparr>element = Some r, scope = Some r\<rparr>" by (rule root_known [OF ok])
  have reg: "has_any_equal t a (equal_range (id_at t s) t) = Inr True" if "\<not> (id_at t s = i \<and> Some a = tb_root t)"
  proof -
    have "i \<noteq> root_id t"
    proof
      assume "i = root_id t"
      then have "a = r" "s = r" using e(1) r(2,3) by simp_all
      with that e(2) r(1) show False by simp
    qed
    then have "(id_at t s, i) \<in> set (scopeTab t)" using e(6) index_okD(6) [OF ok] by (simp add: contains_rel_def)
    moreover have "contains_id (snd p) t" if "p \<in> set (equal_range (id_at t s) t)" for p
      using that children_known(1) [OF ok, of "fst p" "snd p", unfolded prod.collapse]
      by (simp add: equal_range_def contains_rel_def)
    ultimately show ?thesis using e(2) has_any_equal_result [OF ok, of "equal_range (id_at t s) t" a]
      by (force simp: equal_range_def)
  qed
  show ?thesis using i e reg
    by (simp add: checkEntry_def elm_def sco_def base_entry_def ensure_ptr_def queryScopeContents_def require_def)
qed

lemma checkScope_ok:
  assumes ok: "index_ok mo_valid t" and i: "isScope i t"
  shows "checkScope i t = Some (Inr ())"
proof -
  have c: "contains_id i t" using i children_known(2) [OF ok] by (auto simp: isScope_iff)
  obtain a s where e: "map_of (placementTab t) i = Some \<lparr>element = Some a, scope = Some s\<rparr>" "element_of (id_at t s) t = Some s"
    by (rule entry_known [OF ok c])
  have up: "ascend t (Some s) = Some (Inr (tb_root t))" by (rule ascend_to_root [OF ok e(2) refl])
  have "checkScopeEntry i k t = Inr ()" if "k \<in> set (map snd (equal_range i t))" for k
  proof -
    have k: "(i, k) \<in> contains_rel t" using that unfolding equal_range_children by simp
    have kc: "contains_id k t" by (rule children_known(1) [OF ok k])
    obtain b p where "map_of (placementTab t) k = Some \<lparr>element = Some b, scope = Some p\<rparr>" "tree t k = Some (id_at t p)"
      by (rule entry_known [OF ok kc])
    then show ?thesis using kc children_known(3) [OF ok k]
      by (simp add: checkScopeEntry_def elm_def sco_def base_entry_def ensure_ptr_def)
  qed
  then have "for_each (\<lambda>entry. checkScopeEntry i entry t) (map snd (equal_range i t)) = Inr ()" by (rule for_each_ok)
  then show ?thesis using c e up by (simp add: checkScope_def elm_def sco_def base_entry_def)
qed

lemma keys_known: "set (map fst (placementTab t)) = {i. contains_id i t}"
  by (force simp: contains_id_def map_of_eq_None_iff)

lemma scope_count:
  assumes ok: "index_ok mo_valid t"
  shows "size_tab t = scope_cnt t + 1"
proof -
  have r: "contains_id (root_id t) t" by (rule root_known [OF ok]) (simp add: contains_id_def)
  have "distinct (map snd (scopeTab t))"
    using index_okD(3) [OF ok] unique_scope [OF ok] by (auto simp: distinct_map inj_on_def contains_rel_def prod_eq_iff)
  moreover have "set (map snd (scopeTab t)) = set (map fst (placementTab t)) - {root_id t}"
  proof -
    have "(\<exists>s. (s, i) \<in> contains_rel t) \<longleftrightarrow> contains_id i t \<and> i \<noteq> root_id t" for i
      using tree_dom [OF ok, of i] by (auto simp: index_okD(6) [OF ok])
    moreover have "set (map snd (scopeTab t)) = {i. \<exists>s. (s, i) \<in> contains_rel t}"
      unfolding contains_rel_def set_map by (auto intro: rev_image_eqI)
    ultimately show ?thesis unfolding keys_known by (simp add: set_diff_eq)
  qed
  ultimately have "scope_cnt t = card (set (map fst (placementTab t)) - {root_id t})"
    unfolding scope_cnt_def by (metis distinct_card length_map)
  also have "\<dots> = card (set (map fst (placementTab t))) - 1"
    by (rule card_Diff_singleton) (use r keys_known [of t] in blast)
  also have "card (set (map fst (placementTab t))) = size_tab t"
    using distinct_card [OF index_okD(2) [OF ok]] by (simp add: size_tab_def)
  finally show ?thesis using r by (cases "placementTab t") (auto simp: size_tab_def contains_id_def)
qed

lemma elements_inj:
  assumes ok: "index_ok mo_valid t"
  shows "inj_on (element \<circ> snd) (set (placementTab t))"
proof (rule inj_onI)
  fix x y assume xy: "x \<in> set (placementTab t)" "y \<in> set (placementTab t)" "(element \<circ> snd) x = (element \<circ> snd) y"
  have k: "entry_ok t (fst z) (snd z)" if "z \<in> set (placementTab t)" for z
    using index_okD(5) [OF ok, of "fst z" "snd z"] index_okD(2) [OF ok] that by simp
  have "fst x = fst y" using k [OF xy(1)] k [OF xy(2)] xy(3) by (auto simp: entry_ok_def)
  then show "x = y" using xy(1,2) index_okD(2) [OF ok] by (metis eq_key_imp_eq_value prod.collapse)
qed

lemma element_count:
  assumes ok: "index_ok mo_valid t"
  shows "element_cnt t = size_tab t"
proof -
  have k: "\<exists>a s. snd z = \<lparr>element = Some a, scope = Some s\<rparr> \<and> Some s \<in> (element \<circ> snd) ` set (placementTab t)"
    if z: "z \<in> set (placementTab t)" for z
  proof -
    have "entry_ok t (fst z) (snd z)" using index_okD(5) [OF ok, of "fst z" "snd z"] index_okD(2) [OF ok] z by simp
    then obtain a s e' where e: "snd z = \<lparr>element = Some a, scope = Some s\<rparr>" "map_of (placementTab t) (id_at t s) = Some e'" "element e' = Some s"
      by (auto simp: entry_ok_def)
    from map_of_SomeD [OF e(2)] e(1,3) show ?thesis by force
  qed
  obtain r where r: "tb_root t = Some r" "map_of (placementTab t) (id_at t r) = Some \<lparr>element = Some r, scope = Some r\<rparr>"
    by (rule root_known [OF ok])
  have "set (filter (\<lambda>p. p \<noteq> None) (held t)) = (element \<circ> snd) ` set (placementTab t)"
  proof
    show "set (filter (\<lambda>p. p \<noteq> None) (held t)) \<subseteq> (element \<circ> snd) ` set (placementTab t)"
      using k map_of_SomeD [OF r(2)] r(1) by (force simp: held_def)
    show "(element \<circ> snd) ` set (placementTab t) \<subseteq> set (filter (\<lambda>p. p \<noteq> None) (held t))"
    proof
      fix p assume "p \<in> (element \<circ> snd) ` set (placementTab t)"
      then obtain z where z: "z \<in> set (placementTab t)" "p = (element \<circ> snd) z" by blast
      with k [OF z(1)] show "p \<in> set (filter (\<lambda>p. p \<noteq> None) (held t))" by (auto simp: held_def)
    qed
  qed
  then have "element_cnt t = card ((element \<circ> snd) ` set (placementTab t))"
    by (simp add: element_cnt_def length_remdups_card_conv)
  also have "\<dots> = card (set (placementTab t))" by (rule card_image [OF elements_inj [OF ok]])
  also have "\<dots> = size_tab t"
    using index_okD(2) [OF ok] by (simp add: size_tab_def distinct_map distinct_card)
  finally show ?thesis .
qed

lemma index_isValid:
  assumes ok: "index_ok mo_valid t"
  shows "isValid mo_valid t = Some (Inr True)"
proof -
  obtain r where r: "tb_root t = Some r" "isCompatible mo_valid (tb_store t ! r)" "valid_at t r"
    by (rule root_known [OF ok])
  have "checkRoot mo_valid (tb_root t) t = Inr ()" using r by (simp add: checkRoot_def ensure_ptr_def)
  moreover have "for_each (\<lambda>i. checkEntry i t) (map fst (placementTab t)) = Inr ()"
    by (rule for_each_ok, rule checkEntry_ok [OF ok]) (use keys_known [of t] in blast)
  moreover have "for_each_partial (\<lambda>i. checkScope i t) (remdups (map fst (scopeTab t))) = Some (Inr ())"
    by (rule for_each_partial_ok, rule checkScope_ok [OF ok]) (simp add: isScope_def)
  moreover have "checkAllocation t = Inr ()"
    using scope_count [OF ok] element_count [OF ok] by (simp add: checkAllocation_def)
  ultimately show ?thesis by (simp add: isValid_def Validator_def)
qed

lemma ensure_valid_result: "index_ok mo_valid t \<Longrightarrow> ensure_valid mo_valid t = Some (Inr t)"
  by (simp add: ensure_valid_def index_isValid require_def)

subsection \<open>Every index the operations produce\<close>

lemma PlacementIndex_new_result:
  assumes "newID \<noteq> 0" "isCompatible mo_valid rootDef"
  shows "PlacementIndex_new mo_valid newID rootDef = Some (Inr (root_table newID rootDef []))"
  using setupRoot_result [of Table_new newID rootDef] ensure_valid_result [OF root_table_ok(1) [OF assms]]
  by (simp add: PlacementIndex_new_def Table_new_def)

lemma getRoot_result:
  assumes "index_ok mo_valid t"
  obtains r where "getRoot t = Inr r" "tb_root t = Some r" "id_at t r = root_id t"
proof -
  obtain r where r: "tb_root t = Some r" "root_id t = id_at t r"
    "map_of (placementTab t) (id_at t r) = Some \<lparr>element = Some r, scope = Some r\<rparr>" by (rule root_known [OF assms])
  then have "0 < size_tab t" by (cases "placementTab t") (auto simp: size_tab_def)
  then have "getRoot t = Inr r"
    using r(1,3) by (simp add: getRoot_def getRootElement_def ensure_ptr_def require_def contains_id_def)
  then show thesis by (rule that [OF _ r(1) r(2) [symmetric]])
qed

lemma removeEntry_cases:
  assumes ok: "index_ok mo_valid t"
  shows "\<not> contains_id i t \<Longrightarrow> removeEntry i t = Inr (False, t)"
    and "contains_id i t \<Longrightarrow> isScope i t \<Longrightarrow> removeEntry i t = Inl (Err State ''NONEMPTY_SCOPE'')"
    and "contains_id i t \<Longrightarrow> \<not> isScope i t \<Longrightarrow> i \<noteq> root_id t \<Longrightarrow> removeEntry i t = Inr (True, pruned {i} t) \<and> index_ok mo_valid (pruned {i} t)"
proof -
  show "removeEntry i t = Inr (False, t)" if c: "\<not> contains_id i t"
  proof -
    have "\<not> isScope i t" using children_known(2) [OF ok] c by (auto simp: isScope_iff)
    with c show ?thesis by (simp add: removeEntry_def require_def)
  qed
  show "contains_id i t \<Longrightarrow> isScope i t \<Longrightarrow> removeEntry i t = Inl (Err State ''NONEMPTY_SCOPE'')"
    by (simp add: removeEntry_def)
  assume c: "contains_id i t" "\<not> isScope i t" "i \<noteq> root_id t"
  have "index_ok mo_valid (pruned {i} t)" by (rule pruned_ok [OF ok]) (use c in \<open>auto simp: isScope_iff\<close>)
  then show "removeEntry i t = Inr (True, pruned {i} t) \<and> index_ok mo_valid (pruned {i} t)"
    using removed_entry [OF ok c(1,3,2)] by simp
qed

lemma removeAll_cases:
  assumes ok: "index_ok mo_valid t" and i: "i \<noteq> root_id t"
  obtains t' where "removeAll_tab i t = Inr t'" "index_ok mo_valid t'" "root_id t' = root_id t"
    "tree t' = (\<lambda>c. if c \<in> below t i then None else tree t c)"
proof (cases "contains_id i t")
  case True
  have "index_ok mo_valid (pruned (below t i) t)"
    by (rule pruned_ok [OF ok root_not_below [OF ok i]]) (rule below_closed)
  then show thesis using that removeAll_result [OF ok True i] by (simp add: pruned_tree fun_eq_iff)
next
  case False
  have "(i, c) \<notin> contains_rel t" for c using children_known(2) [OF ok] False by blast
  then have "below t i = {i}" by (auto simp: below_def elim: converse_rtranclE)
  moreover have "tree t i = None" using tree_dom [OF ok] False by blast
  ultimately show thesis using that [OF removeAll_unknown [OF ok False] ok] by (simp add: fun_eq_iff)
qed

inductive index_reach :: "('mo \<Rightarrow> bool) \<Rightarrow> 'mo Table \<Rightarrow> bool" for mo_valid where
  created: "newID \<noteq> 0 \<Longrightarrow> isCompatible mo_valid rootDef \<Longrightarrow> PlacementIndex_new mo_valid newID rootDef = Some (Inr t)
     \<Longrightarrow> index_reach mo_valid t"
| inserted: "index_reach mo_valid t \<Longrightarrow> newID \<noteq> 0 \<Longrightarrow> Placement_isValid newObj
     \<Longrightarrow> insert_placement newID newObj targetScope t = Inr (i, t') \<Longrightarrow> index_reach mo_valid t'"
| removed: "index_reach mo_valid t \<Longrightarrow> remove_placement i t = Inr (b, t') \<Longrightarrow> index_reach mo_valid t'"
| scope_cleared: "index_reach mo_valid t \<Longrightarrow> newID \<noteq> 0 \<Longrightarrow> clear_scope mo_valid newID i t = Some (Inr t') \<Longrightarrow> index_reach mo_valid t'"
| cleared: "index_reach mo_valid t \<Longrightarrow> newID \<noteq> 0 \<Longrightarrow> clear_index newID t = Inr t' \<Longrightarrow> index_reach mo_valid t'"

lemma clear_scope_result:
  assumes ok: "index_ok mo_valid t" and n: "newID \<noteq> 0"
  obtains t' where "clear_scope mo_valid newID i t = Some (Inr t')" "index_ok mo_valid t'"
    "i = root_id t \<Longrightarrow> tree t' = [newID \<mapsto> newID] \<and> root_id t' = newID"
    "i \<noteq> root_id t \<Longrightarrow> tree t' = (\<lambda>c. if c \<in> below t i then None else tree t c) \<and> root_id t' = root_id t"
proof -
  obtain r where r: "getRoot t = Inr r" "id_at t r = root_id t" by (rule getRoot_result [OF ok])
  show thesis
  proof (cases "i = root_id t")
    case True
    obtain t' where "clear_tab newID t = Inr t'" "index_ok mo_valid t'" "tree t' = [newID \<mapsto> newID]" "root_id t' = newID"
      by (rule clear_result [OF ok n])
    with True r show thesis by (intro that [of t']) (simp_all add: clear_scope_def ensure_valid_result)
  next
    case False
    obtain t' where "removeAll_tab i t = Inr t'" "index_ok mo_valid t'" "root_id t' = root_id t"
      "tree t' = (\<lambda>c. if c \<in> below t i then None else tree t c)" by (rule removeAll_cases [OF ok False])
    with False r show thesis by (intro that [of t']) (simp_all add: clear_scope_def ensure_valid_result)
  qed
qed

lemma insert_result:
  assumes ok: "index_ok mo_valid t" and n: "newID \<noteq> 0" "Placement_isValid newObj"
    and r: "insert_placement newID newObj s t = Inr (i, t')"
  shows "i = newID \<and> t' = added_table newID newObj s t \<and> index_ok mo_valid t'"
proof -
  have s: "contains_id s t" using r by (auto simp: insert_placement_def split: if_splits)
  have "\<not> contains_id newID t"
    using r s by (auto simp: insert_placement_def addEntry_def create_placement_def Let_def require_def contains_id_def
        id_at_def Placement_copy_def split: if_splits)
  then have "addEntry newID newObj s t = Inr (newID, added_table newID newObj s t)" "index_ok mo_valid (added_table newID newObj s t)"
    using addEntry_result [OF s n(1)] added_ok [OF ok s _ n] by auto
  then show ?thesis using r s by (auto simp: insert_placement_def)
qed

lemma remove_result:
  assumes ok: "index_ok mo_valid t"
  shows "remove_placement i t = (if i = root_id t then Inl (Err Fatal ''Request to kill the model root.'') else removeEntry i t)"
proof -
  obtain r where "getRoot t = Inr r" "id_at t r = root_id t" by (rule getRoot_result [OF ok])
  then show ?thesis by (simp add: remove_placement_def)
qed

lemma index_reach_ok: "index_reach mo_valid t \<Longrightarrow> index_ok mo_valid t"
proof (induction rule: index_reach.induct)
  case (created newID rootDef t)
  then show ?case using PlacementIndex_new_result root_table_ok(1) by (metis option.inject sum.inject(2))
next
  case (inserted t newID newObj targetScope i t')
  then show ?case using insert_result by blast
next
  case (removed t i b t')
  then show ?case using removeEntry_cases [of mo_valid t i] by (cases "contains_id i t"; cases "isScope i t") (auto simp: remove_result split: if_splits)
next
  case (scope_cleared t newID i t')
  obtain t'' where "clear_scope mo_valid newID i t = Some (Inr t'')" "index_ok mo_valid t''"
    by (rule clear_scope_result [OF scope_cleared(4,2)])
  then show ?case using scope_cleared(3) by simp
next
  case (cleared t newID t')
  obtain t'' where "clear_tab newID t = Inr t''" "index_ok mo_valid t''" by (rule clear_result [OF cleared(4,2)])
  then show ?case using cleared(3) by (simp add: clear_index_def)
qed

lemma below_root:
  assumes ok: "index_ok mo_valid t"
  shows "contains_id i t \<Longrightarrow> i \<in> below t (root_id t)"
proof (induction i rule: wf_induct_rule [OF index_wf [OF ok]])
  case (1 i)
  show ?case
  proof (cases "i = root_id t")
    case True
    then show ?thesis by (simp add: below_def)
  next
    case False
    obtain s where s: "tree t i = Some s" using tree_dom [OF ok, of i] "1.prems" by auto
    then have "(s, i) \<in> contains_rel t" using False index_okD(6) [OF ok] by simp
    then show ?thesis using "1.IH" scope_registered [OF ok s] below_closed by blast
  qed
qed

subsection \<open>Properties\<close>

text \<open>C20: Whatever sequence of insertions, removals and clearings produced it, a placement index passes
  its own validation, which ends; the number of placements in existence is the number of entries, and every
  entry is contained, directly or indirectly, in the root.\<close>

theorem index_always_valid:
  assumes "index_reach mo_valid t"
  shows "isValid mo_valid t = Some (Inr True) \<and> element_cnt t = size_tab t
    \<and> (\<forall>i. contains_id i t \<longrightarrow> i \<in> below t (root_id t))"
  using index_isValid element_count below_root index_reach_ok [OF assms] by blast

theorem index_always_valid_witness:
  "\<exists>t :: nat Table. placementTab t \<noteq> [] \<and> isValid (\<lambda>mo. mo = 5) t = Some (Inr True)"
proof -
  let ?root = "\<lparr>getID = 77, pointee = Some 5\<rparr> :: nat Placement"
  let ?t = "root_table 1 ?root [] :: nat Table"
  have "index_reach (\<lambda>mo. mo = 5) ?t"
    by (rule index_reach.created [of 1 _ ?root]) (simp_all add: isCompatible_def PlacementIndex_new_result)
  from index_always_valid [OF this] show ?thesis by (intro exI [of _ ?t]) (simp add: root_table_def)
qed

text \<open>C21: The operations of the index are those of a tree of IDs. An insertion hangs a new leaf under the given
  scope and fails for an unknown scope; a removal takes off a leaf, refuses the root and a scope with
  contents, and ignores unknown IDs; clearing a scope takes off the whole subtree and nothing else; clearing
  the root leaves just a root, which has a new ID.\<close>

theorem index_is_a_tree:
  assumes r: "index_reach mo_valid t" and n: "newID \<noteq> 0" "\<not> contains_id newID t" and obj: "Placement_isValid newObj"
  shows "(case tree t i of
       None \<Rightarrow> insert_placement newID newObj i t = Inl (Err Logic ''INVALID_SCOPE'') \<and> remove_placement i t = Inr (False, t)
     | Some s \<Rightarrow> (\<exists>t'. insert_placement newID newObj i t = Inr (newID, t') \<and> tree t' = (tree t)(newID \<mapsto> i) \<and> root_id t' = root_id t)
        \<and> (if i = root_id t then remove_placement i t = Inl (Err Fatal ''Request to kill the model root.'')
           else if \<exists>c. c \<noteq> root_id t \<and> tree t c = Some i then remove_placement i t = Inl (Err State ''NONEMPTY_SCOPE'')
           else \<exists>t'. remove_placement i t = Inr (True, t') \<and> tree t' = (tree t)(i := None) \<and> root_id t' = root_id t))
    \<and> (\<exists>t'. clear_scope mo_valid newID i t = Some (Inr t')
         \<and> (if i = root_id t then tree t' = [newID \<mapsto> newID] \<and> root_id t' = newID
            else tree t' = (\<lambda>c. if c \<in> below t i then None else tree t c) \<and> root_id t' = root_id t))"
    (is "?edit \<and> ?clear")
proof
  have ok: "index_ok mo_valid t" by (rule index_reach_ok [OF r])
  show ?clear by (rule clear_scope_result [OF ok n(1), of i]) auto
  show ?edit
  proof (cases "contains_id i t")
    case False
    then have "i \<noteq> root_id t" using root_known [OF ok] by (metis contains_id_def option.simps(3))
    with False show ?thesis using tree_dom [OF ok, of i] removeEntry_cases(1) [OF ok, of i]
      by (simp add: insert_placement_def remove_result [OF ok])
  next
    case True
    obtain s where s: "tree t i = Some s" using tree_dom [OF ok, of i] True by auto
    have sc: "isScope i t \<longleftrightarrow> (\<exists>c. c \<noteq> root_id t \<and> tree t c = Some i)" by (simp add: isScope_iff index_okD(6) [OF ok])
    have "insert_placement newID newObj i t = Inr (newID, added_table newID newObj i t)"
      using addEntry_result [OF True n] True by (simp add: insert_placement_def)
    then show ?thesis using s added_tree [OF ok True n(2)] removeEntry_cases(2,3) [OF ok True] sc
      by (auto simp: remove_result [OF ok] pruned_tree fun_eq_iff)
  qed
qed

theorem index_is_a_tree_witness:
  "\<exists>t t' :: nat Table. insert_placement 2 \<lparr>getID = 78, pointee = Some 6\<rparr> 1 t = Inr (2, t') \<and> tree t' = [1 \<mapsto> 1, 2 \<mapsto> 1]"
proof -
  let ?root = "\<lparr>getID = 77, pointee = Some 5\<rparr> :: nat Placement"
  let ?t = "root_table 1 ?root [] :: nat Table"
  have r: "index_reach (\<lambda>mo. mo = 5) ?t"
    by (rule index_reach.created [of 1 _ ?root]) (simp_all add: isCompatible_def PlacementIndex_new_result)
  have t: "tree ?t = [1 \<mapsto> 1]" by (rule root_table_ok(2) [of 1 "\<lambda>mo. mo = 5"]) (simp_all add: isCompatible_def)
  have "\<not> contains_id 2 ?t" by (simp add: contains_id_def root_table_def)
  from index_is_a_tree [OF r _ this, of "\<lparr>getID = 78, pointee = Some 6\<rparr>" 1] t show ?thesis
    by (auto simp: Placement_isValid_def)
qed

end
