(* ===== verification/ScopePath.thy ===== *)
theory ScopePath
  imports PlacementIndex "HOL-Library.Sublist"
begin

text \<open>
  Exploring the session: the queries of \<open>placement-index-query-resolver.cpp\<close> with their three
  strategies, the nested scopes of \<open>scope.cpp\<close>, the path of scopes of \<open>scope-path.cpp\<close>, and the
  stack of current locations with its counted handles (\<open>query-focus-stack.hpp\<close>,
  \<open>query-focus.cpp\<close>, \<open>scope-locator.hpp\<close>). The session is open and given by its placement index, an
  argument of the operations. The extra check of the root that \<open>isValid\<close> and \<open>isRoot\<close> of a path do in
  alpha builds only is left out.
\<close>

subsection \<open>Queries\<close>

datatype ScopeQueryKind = CONTENTS | CHILDREN | PARENTS | PATH

text \<open>The iterators of the deep explorer form a stack, its top comes first.\<close>

datatype Explorer =
    ChildExplorer "(PID \<times> PID) list"
  | DeepExplorer "(PID \<times> PID) list list"
  | UpExplorer PPlacement

fun Child_exhausted :: "(PID \<times> PID) list \<Rightarrow> bool" where
  "Child_exhausted tip = (tip = [])"

fun Child_step :: "'mo Table \<Rightarrow> (PID \<times> PID) list \<Rightarrow> (addr \<times> Explorer) result" where
  "Child_step t [] = Inl (Err Assertion ''tip_'')"
| "Child_step t (p # tip) = bind_result (resolveScopeIndexElement p t) (\<lambda>pos. Inr (pos, ChildExplorer tip))"

fun Deep_exhausted :: "(PID \<times> PID) list list \<Rightarrow> bool \<times> Explorer" where
  "Deep_exhausted scopes = (let scopes = dropWhile (\<lambda>it. it = []) scopes in (scopes = [], DeepExplorer scopes))"

fun Deep_step :: "'mo Table \<Rightarrow> (PID \<times> PID) list list \<Rightarrow> (addr \<times> Explorer) result" where
  "Deep_step t ((p # it) # scopes) =
     bind_result (resolveScopeIndexElement p t) (\<lambda>pos.
     bind_result (getReferrers (id_at t pos) t) (\<lambda>refs. Inr (pos, DeepExplorer (refs # it # scopes))))"
| "Deep_step t _ = Inl (Err Assertion ''!scopes_.empty() && scopes_.top()'')"

fun Up_exhausted :: "PPlacement \<Rightarrow> bool" where
  "Up_exhausted tip = (tip = None)"

fun Up_step :: "'mo Table \<Rightarrow> PPlacement \<Rightarrow> (addr \<times> Explorer) result" where
  "Up_step t None = Inl (Err Assertion ''tip_'')"
| "Up_step t (Some pos) =
     bind_result (getScope (id_at t pos) t) (\<lambda>tip. Inr (pos, UpExplorer (if tip = pos then None else Some tip)))"

text \<open>The virtual calls.\<close>

fun exhausted :: "Explorer \<Rightarrow> bool \<times> Explorer" where
  "exhausted (ChildExplorer tip) = (Child_exhausted tip, ChildExplorer tip)"
| "exhausted (DeepExplorer scopes) = Deep_exhausted scopes"
| "exhausted (UpExplorer tip) = (Up_exhausted tip, UpExplorer tip)"

fun explore_step :: "'mo Table \<Rightarrow> Explorer \<Rightarrow> (addr \<times> Explorer) result" where
  "explore_step t (ChildExplorer tip) = Child_step t tip"
| "explore_step t (DeepExplorer scopes) = Deep_step t scopes"
| "explore_step t (UpExplorer tip) = Up_step t tip"

partial_function (option) exploreNext ::
  "'mo Table \<Rightarrow> ('mo Placement \<Rightarrow> bool) \<Rightarrow> Explorer \<Rightarrow> (PPlacement \<times> Explorer) partial_result" where
  "exploreNext t acceptable explore =
     (let (done, explore) = exhausted explore
      in if done then Some (Inr (None, explore))
         else (case explore_step t explore of
             Inl e \<Rightarrow> Some (Inl e)
           | Inr (hit, explore) \<Rightarrow>
               if acceptable (tb_store t ! hit) then Some (Inr (Some hit, explore))
               else exploreNext t acceptable explore))"

definition setupExploration :: "'mo Table \<Rightarrow> PID \<Rightarrow> ScopeQueryKind \<Rightarrow> Explorer result" where
  "setupExploration t startID direction = (case direction of
     CONTENTS \<Rightarrow> bind_result (getReferrers startID t) (\<lambda>start. Inr (DeepExplorer [start]))
   | CHILDREN \<Rightarrow> bind_result (getReferrers startID t) (\<lambda>start. Inr (ChildExplorer start))
   | PARENTS \<Rightarrow> bind_result (getScope startID t) (\<lambda>start. Inr (UpExplorer (Some start)))
   | PATH \<Rightarrow> bind_result (find_placement startID t) (\<lambda>start. Inr (UpExplorer (Some start))))"

text \<open>The client takes one result after the other until there is none.\<close>

partial_function (option) pull_results ::
  "'mo Table \<Rightarrow> ('mo Placement \<Rightarrow> bool) \<Rightarrow> Explorer \<Rightarrow> addr list \<Rightarrow> addr list partial_result" where
  "pull_results t acceptable explore found =
     (case exploreNext t acceptable explore of
        None \<Rightarrow> None
      | Some (Inl e) \<Rightarrow> Some (Inl e)
      | Some (Inr (None, explore)) \<Rightarrow> Some (Inr found)
      | Some (Inr (Some hit, explore)) \<Rightarrow> pull_results t acceptable explore (found @ [hit]))"

definition resolveQuery ::
  "'mo Table \<Rightarrow> ('mo Placement \<Rightarrow> bool) \<Rightarrow> PID \<Rightarrow> ScopeQueryKind \<Rightarrow> addr list partial_result" where
  "resolveQuery t acceptable startID direction =
     bind_partial (Some (setupExploration t startID direction)) (\<lambda>explore. pull_results t acceptable explore [])"

subsection \<open>Scopes\<close>

text \<open>A scope is a reference to a placement, that is, an ID; the invalid scope has none.\<close>

type_synonym Scope = PID

definition Scope_INVALID :: Scope where
  "Scope_INVALID = 0"

definition access_placement :: "'mo Table \<Rightarrow> PID \<Rightarrow> addr result" where
  "access_placement t i =
     (if i = 0 then Inl (Err Logic ''BOTTOM_PLACEMENTREF'')
      else bind_result (find_placement i t) (\<lambda>a.
           bind_result (require (Placement_isValid (tb_store t ! a)) ''genericPlacement.isValid()'') (\<lambda>_. Inr a)))"

definition Scope_isValid :: "'mo Table \<Rightarrow> Scope \<Rightarrow> bool result" where
  "Scope_isValid t s =
     (if contains_id s t then (case access_placement t s of
          Inr a \<Rightarrow> Inr (Placement_isValid (tb_store t ! a))
        | Inl (Err c m) \<Rightarrow> if c = Invalid then Inr False else Inl (Err c m))
      else Inr False)"

text \<open>Creating or copying a scope validates the reference.\<close>

definition Scope_of :: "'mo Table \<Rightarrow> PID \<Rightarrow> Scope result" where
  "Scope_of t i = bind_result (access_placement t i) (\<lambda>_. Inr i)"

definition getTop :: "'mo Table \<Rightarrow> Scope \<Rightarrow> addr result" where
  "getTop t s =
     bind_result (Scope_isValid t s) (\<lambda>valid.
     bind_result (require valid ''anchor_'') (\<lambda>_. access_placement t s))"

definition Scope_isRoot :: "'mo Table \<Rightarrow> Scope \<Rightarrow> bool result" where
  "Scope_isRoot t s =
     bind_result (access_placement t s) (\<lambda>a.
     bind_result (getRoot t) (\<lambda>r. Inr (id_at t a = id_at t r)))"

definition Scope_containing :: "'mo Table \<Rightarrow> PID \<Rightarrow> Scope result" where
  "Scope_containing t i = bind_result (getScope i t) (\<lambda>s. Scope_of t (id_at t s))"

definition getParent :: "'mo Table \<Rightarrow> Scope \<Rightarrow> Scope result" where
  "getParent t s =
     bind_result (Scope_isRoot t s) (\<lambda>root.
       if root then Inl (Err Invalid ''NO_PARENT_SCOPE'')
       else bind_result (access_placement t s) (\<lambda>a. Scope_containing t (id_at t a)))"

subsection \<open>Paths of scopes\<close>

type_synonym path = "Scope list"

fun mapM_result :: "('x \<Rightarrow> 'y result) \<Rightarrow> 'x list \<Rightarrow> 'y list result" where
  "mapM_result f [] = Inr []"
| "mapM_result f (x # xs) = bind_result (f x) (\<lambda>y. bind_result (mapM_result f xs) (\<lambda>ys. Inr (y # ys)))"

definition check_notBottom :: "path \<Rightarrow> unit result" where
  "check_notBottom path = (if path = [] then Inl (Err Logic ''EMPTY_SCOPE_PATH'') else Inr ())"

definition path_isValid :: "path \<Rightarrow> bool" where
  "path_isValid path \<longleftrightarrow> 1 < length path"

definition path_isRoot :: "path \<Rightarrow> bool" where
  "path_isRoot path \<longleftrightarrow> length path = 1"

definition currModelRoot :: "'mo Table \<Rightarrow> Scope result" where
  "currModelRoot t = bind_result (getRoot t) (\<lambda>r. Scope_of t (id_at t r))"

definition hasValidRoot :: "'mo Table \<Rightarrow> path \<Rightarrow> bool result" where
  "hasValidRoot t path =
     bind_result (require (0 < length path) ''0 < length()'') (\<lambda>_.
     bind_result (currModelRoot t) (\<lambda>r. Inr (path ! 0 = r)))"

definition clear_path :: "'mo Table \<Rightarrow> path \<Rightarrow> path result" where
  "clear_path t path =
     bind_result (currModelRoot t) (\<lambda>r.
     bind_result (Scope_of t r) (\<lambda>r. let path = [r] in
     bind_result (require (path \<noteq> []) ''!empty()'') (\<lambda>_.
     bind_result (require (\<not> path_isValid path) ''!isValid()'') (\<lambda>_.
     bind_result (hasValidRoot t path) (\<lambda>ok.
     bind_result (require ok ''hasValidRoot()'') (\<lambda>_. Inr path))))))"

definition getRawPath :: "'mo Table \<Rightarrow> Scope \<Rightarrow> addr list partial_result" where
  "getRawPath t s = bind_partial (Some (getTop t s)) (\<lambda>a. resolveQuery t (\<lambda>_. True) (id_at t a) PATH)"

definition navigate :: "'mo Table \<Rightarrow> Scope \<Rightarrow> path \<Rightarrow> path partial_result" where
  "navigate t target path =
     bind_partial (Some (check_notBottom path)) (\<lambda>_.
     bind_partial (Some (Scope_isValid t target)) (\<lambda>valid.
       if \<not> valid then Some (Inl (Err Invalid ''INVALID_SCOPE''))
       else bind_partial (getRawPath t target) (\<lambda>raw.
            bind_partial (Some (mapM_result (\<lambda>a. Scope_of t (id_at t a)) raw)) (\<lambda>scopes.
              let otherPath = rev scopes in
              bind_partial (Some (require (otherPath \<noteq> [] \<and> path ! 0 = otherPath ! 0) ''path_[0] == otherPath[0]'')) (\<lambda>_.
                Some (mapM_result (Scope_of t) otherPath))))))"

definition ScopePath_default :: "'mo Table \<Rightarrow> path result" where
  "ScopePath_default t = clear_path t []"

definition ScopePath_to :: "'mo Table \<Rightarrow> Scope \<Rightarrow> path partial_result" where
  "ScopePath_to t leaf =
     (if leaf = Scope_INVALID then Some (Inr [])
      else bind_partial (Some (clear_path t [])) (\<lambda>path. navigate t leaf path))"

definition getLeaf :: "path \<Rightarrow> Scope result" where
  "getLeaf path = bind_result (check_notBottom path) (\<lambda>_. Inr (last path))"

definition endsAt :: "Scope \<Rightarrow> path \<Rightarrow> bool result" where
  "endsAt aScope path = bind_result (getLeaf path) (\<lambda>leaf. Inr (aScope = leaf))"

text \<open>Iteration over a path goes from the leaf to the root.\<close>

definition path_contains :: "Scope \<Rightarrow> path \<Rightarrow> bool" where
  "path_contains aScope path \<longleftrightarrow> aScope = Scope_INVALID \<or> list_ex (\<lambda>s. aScope = s) (rev path)"

definition path_contains_path :: "path \<Rightarrow> path \<Rightarrow> bool" where
  "path_contains_path otherPath path =
     (if \<not> path_isValid otherPath then True
      else if path = [] then False
      else if \<not> path_isValid path then False
      else list_all (\<lambda>s. path_contains s path) (rev otherPath))"

fun commonPrefix :: "'mo Table \<Rightarrow> path \<Rightarrow> path \<Rightarrow> path result" where
  "commonPrefix t (a # as) (b # bs) =
     (if a = b
      then bind_result (Scope_of t a) (\<lambda>s. bind_result (commonPrefix t as bs) (\<lambda>prefix. Inr (s # prefix)))
      else commonPrefix t as bs)"
| "commonPrefix t _ _ = Inr []"

definition disjoint_paths :: "path \<Rightarrow> path \<Rightarrow> bool" where
  "disjoint_paths path1 path2 =
     (if path1 = [] \<or> path2 = [] then False
      else (path_isValid path1 \<and> path_isValid path2) \<and> path1 ! 1 \<noteq> path2 ! 1)"

definition moveUp :: "path \<Rightarrow> (Scope \<times> path) result" where
  "moveUp path =
     bind_result (check_notBottom path) (\<lambda>_. let path = butlast path in
       Inr (if path = [] then Scope_INVALID else last path, path))"

definition goRoot :: "'mo Table \<Rightarrow> path \<Rightarrow> (Scope \<times> path) result" where
  "goRoot t path =
     bind_result (check_notBottom path) (\<lambda>_.
     bind_result (hasValidRoot t path) (\<lambda>ok.
     bind_result (require ok ''hasValidRoot()'') (\<lambda>_. let path = take 1 path in Inr (last path, path))))"

subsection \<open>What a query yields\<close>

text \<open>The contract of an exploration strategy: it yields exactly the elements of a list.\<close>

locale explorer =
  fixes t :: "'mo Table" and rep :: "Explorer \<Rightarrow> addr list \<Rightarrow> bool"
  assumes at_end: "rep x [] \<Longrightarrow> fst (exhausted x)"
    and steps: "rep x (a # as) \<Longrightarrow> \<exists>x' x''. exhausted x = (False, x') \<and> explore_step t x' = Inr (a, x'') \<and> rep x'' as"
begin

lemma next_none: "rep x as \<Longrightarrow> filter (\<lambda>a. acceptable (tb_store t ! a)) as = []
     \<Longrightarrow> \<exists>x'. exploreNext t acceptable x = Some (Inr (None, x'))"
proof (induction as arbitrary: x)
  case Nil
  then show ?case using at_end by (subst exploreNext.simps) (auto simp: split_beta Let_def)
next
  case (Cons a as)
  obtain x' x'' where x: "exhausted x = (False, x')" "explore_step t x' = Inr (a, x'')" "rep x'' as"
    using steps [OF Cons.prems(1)] by blast
  show ?case using Cons.IH [OF x(3)] Cons.prems(2) x by (subst exploreNext.simps) (auto split: if_splits)
qed

lemma next_some: "rep x as \<Longrightarrow> filter (\<lambda>a. acceptable (tb_store t ! a)) as = b # bs
     \<Longrightarrow> \<exists>x' bs'. exploreNext t acceptable x = Some (Inr (Some b, x')) \<and> rep x' bs'
          \<and> filter (\<lambda>a. acceptable (tb_store t ! a)) bs' = bs \<and> length bs' < length as"
proof (induction as arbitrary: x)
  case Nil
  then show ?case by simp
next
  case (Cons a as)
  obtain x' x'' where x: "exhausted x = (False, x')" "explore_step t x' = Inr (a, x'')" "rep x'' as"
    using steps [OF Cons.prems(1)] by blast
  show ?case
  proof (cases "acceptable (tb_store t ! a)")
    case True
    then show ?thesis using Cons.prems(2) x by (subst exploreNext.simps) auto
  next
    case False
    then obtain y bs' where "exploreNext t acceptable x'' = Some (Inr (Some b, y))" "rep y bs'"
        "filter (\<lambda>a. acceptable (tb_store t ! a)) bs' = bs" "length bs' < length as"
      using Cons.IH [OF x(3)] Cons.prems(2) by auto
    then show ?thesis using False x by (subst exploreNext.simps) auto
  qed
qed

lemma pulls_all: "rep x as \<Longrightarrow>
     pull_results t acceptable x found = Some (Inr (found @ filter (\<lambda>a. acceptable (tb_store t ! a)) as))"
proof (induction as arbitrary: x found rule: length_induct)
  case (1 as)
  show ?case
  proof (cases "filter (\<lambda>a. acceptable (tb_store t ! a)) as")
    case Nil
    then show ?thesis using next_none [OF "1.prems" Nil] by (subst pull_results.simps) auto
  next
    case (Cons b bs)
    then obtain y bs' where y: "exploreNext t acceptable x = Some (Inr (Some b, y))" "rep y bs'"
        "filter (\<lambda>a. acceptable (tb_store t ! a)) bs' = bs" "length bs' < length as"
      using next_some [OF "1.prems" Cons] by blast
    then have "pull_results t acceptable y (found @ [b]) = Some (Inr ((found @ [b]) @ bs))" using "1.IH" by blast
    then show ?thesis using y(1) Cons by (subst pull_results.simps) simp
  qed
qed

end

definition children :: "'mo Table \<Rightarrow> PID \<Rightarrow> PID list" where
  "children t i = map snd (equal_range i t)"

definition placement_of :: "'mo Table \<Rightarrow> PID \<Rightarrow> addr" where
  "placement_of t i = (case element_of i t of None \<Rightarrow> 0 | Some a \<Rightarrow> a)"

lemma set_children [simp]: "set (children t i) = contains_rel t `` {i}"
  using equal_range_children by (simp add: children_def)

lemma placement_known:
  assumes "index_ok mo_valid t" "contains_id i t"
  shows "find_placement i t = Inr (placement_of t i)" "id_at t (placement_of t i) = i" "element_of i t = Some (placement_of t i)"
    "fetch i t = Inr (placement_of t i)" "i \<noteq> 0" "valid_at t (placement_of t i)"
proof -
  obtain a where a: "fetch i t = Inr a" "element_of i t = Some a" "id_at t a = i" by (rule fetch_result [OF assms])
  show "fetch i t = Inr (placement_of t i)" "id_at t (placement_of t i) = i" "element_of i t = Some (placement_of t i)"
    using a by (simp_all add: placement_of_def)
  obtain b where b: "i \<noteq> 0" "element_of i t = Some b" "valid_at t b" by (rule entry_known [OF assms])
  show "i \<noteq> 0" by (rule b(1))
  show "valid_at t (placement_of t i)" using b by (simp add: placement_of_def)
  show "find_placement i t = Inr (placement_of t i)"
    using a b assms by (simp add: find_placement_def check_knownID_def placement_of_def)
qed

lemma scope_known:
  assumes "index_ok mo_valid t" "contains_id i t"
  obtains s where "tree t i = Some s" "contains_id s t" "getScope i t = Inr (placement_of t s)"
proof -
  obtain a s where e: "map_of (placementTab t) i = Some \<lparr>element = Some a, scope = Some s\<rparr>" "i \<noteq> 0"
      "contains_id (id_at t s) t" "tree t i = Some (id_at t s)" "element_of (id_at t s) t = Some s"
    by (rule entry_known [OF assms])
  show thesis
    by (rule that [OF e(4,3)])
      (use e assms in \<open>simp add: getScope_def check_knownID_def fetchScope_def base_entry_def ensure_ptr_def require_def placement_of_def\<close>)
qed

lemma resolve_known:
  assumes "index_ok mo_valid t" "p \<in> contains_rel t"
  shows "resolveScopeIndexElement p t = Inr (placement_of t (snd p))"
proof -
  have "contains_id (snd p) t" using children_known(1) [OF assms(1), of "fst p" "snd p"] assms(2) by simp
  then show ?thesis using placement_known(4) [OF assms(1)] by (simp add: resolveScopeIndexElement_def require_def)
qed

lemma referrers_known:
  assumes "index_ok mo_valid t" "contains_id i t"
  shows "getReferrers i t = Inr (equal_range i t)" "set (equal_range i t) \<subseteq> contains_rel t"
  using placement_known(5) [OF assms] assms(2)
  by (auto simp: getReferrers_def check_knownID_def queryScopeContents_def require_def equal_range_def contains_rel_def)

text \<open>The children of a scope, one by one.\<close>

definition child_rep :: "('mo \<Rightarrow> bool) \<Rightarrow> 'mo Table \<Rightarrow> Explorer \<Rightarrow> addr list \<Rightarrow> bool" where
  "child_rep mo_valid t x as \<longleftrightarrow> index_ok mo_valid t
     \<and> (\<exists>ps. x = ChildExplorer ps \<and> set ps \<subseteq> contains_rel t \<and> as = map (placement_of t \<circ> snd) ps)"

interpretation child: explorer t "child_rep mo_valid t" for mo_valid t
proof (unfold_locales, goal_cases)
  case (1 x)
  then show ?case by (auto simp: child_rep_def)
next
  case (2 x a as)
  then obtain p ps where p: "x = ChildExplorer (p # ps)" "p \<in> contains_rel t" "set ps \<subseteq> contains_rel t"
      "a = placement_of t (snd p)" "as = map (placement_of t \<circ> snd) ps" "index_ok mo_valid t"
    by (auto simp: child_rep_def Cons_eq_map_conv)
  then show ?case using resolve_known [OF p(6,2)] by (auto simp: child_rep_def)
qed

text \<open>All contents, depth first: the stack holds what remains at each level.\<close>

definition deep_rep :: "('mo \<Rightarrow> bool) \<Rightarrow> 'mo Table \<Rightarrow> Explorer \<Rightarrow> addr list \<Rightarrow> bool" where
  "deep_rep mo_valid t x as \<longleftrightarrow> index_ok mo_valid t
     \<and> (\<exists>its outs. x = DeepExplorer its \<and> (\<forall>it\<in>set its. set it \<subseteq> contains_rel t)
          \<and> list_all2 (preorder (children t)) (map (map snd) its) outs \<and> as = map (placement_of t) (concat outs))"

lemma drop_empty_levels:
  "list_all2 (preorder k) (map (map snd) its) outs \<Longrightarrow>
     \<exists>outs'. list_all2 (preorder k) (map (map snd) (dropWhile (\<lambda>it. it = []) its)) outs' \<and> concat outs' = concat outs"
proof (induction its arbitrary: outs)
  case Nil
  then show ?case by simp
next
  case (Cons it its)
  then obtain out rest where o: "outs = out # rest" "preorder k (map snd it) out" "list_all2 (preorder k) (map (map snd) its) rest"
    by (auto simp: list_all2_Cons1)
  show ?case
  proof (cases "it = []")
    case True
    then show ?thesis using o Cons.IH [OF o(3)] by auto
  next
    case False
    then show ?thesis using Cons.prems by auto
  qed
qed

interpretation deep: explorer t "deep_rep mo_valid t" for mo_valid t
proof (unfold_locales, goal_cases)
  case (1 x)
  then obtain its outs where x: "x = DeepExplorer its" "list_all2 (preorder (children t)) (map (map snd) its) outs" "concat outs = []"
    by (auto simp: deep_rep_def)
  obtain outs' where o: "list_all2 (preorder (children t)) (map (map snd) (dropWhile (\<lambda>it. it = []) its)) outs'" "concat outs' = []"
    using drop_empty_levels [OF x(2)] x(3) by auto
  have "dropWhile (\<lambda>it. it = []) its = []"
  proof (cases "dropWhile (\<lambda>it. it = []) its")
    case (Cons it rest)
    then have "it \<noteq> []" using hd_dropWhile [of "\<lambda>it. it = []" its] by auto
    then show ?thesis using o Cons by (cases it) (auto simp: list_all2_Cons1)
  qed simp
  then show ?case using x(1) by simp
next
  case (2 x a as)
  then obtain its outs where x: "x = DeepExplorer its" "\<forall>it\<in>set its. set it \<subseteq> contains_rel t"
      "list_all2 (preorder (children t)) (map (map snd) its) outs" "a # as = map (placement_of t) (concat outs)" "index_ok mo_valid t"
    by (auto simp: deep_rep_def)
  let ?its = "dropWhile (\<lambda>it. it = []) its"
  obtain outs' where o: "list_all2 (preorder (children t)) (map (map snd) ?its) outs'" "concat outs' = concat outs"
    using drop_empty_levels [OF x(3)] by blast
  have "concat outs' \<noteq> []" using x(4) unfolding o(2) by (metis list.distinct(1) list.simps(8))
  then obtain it rest where its: "?its = it # rest" using o(1) by (cases ?its) auto
  then have "it \<noteq> []" using hd_dropWhile [of "\<lambda>it. it = []" its] by auto
  then obtain p ps where it: "it = p # ps" by (cases it) auto
  have sub: "\<forall>i\<in>set (it # rest). set i \<subseteq> contains_rel t" using x(2) its by (metis set_dropWhileD)
  obtain below out outs1 where out: "outs' = (snd p # below @ out) # outs1" "preorder (children t) (children t (snd p)) below"
      "preorder (children t) (map snd ps) out" "list_all2 (preorder (children t)) (map (map snd) rest) outs1"
    using o(1) its it by (auto simp: list_all2_Cons1)
  have p: "p \<in> contains_rel t" using sub it by simp
  have c: "contains_id (snd p) t" using children_known(1) [OF x(5), of "fst p" "snd p"] p by simp
  have "explore_step t (DeepExplorer ?its) = Inr (placement_of t (snd p), DeepExplorer (equal_range (snd p) t # ps # rest))"
    using its it resolve_known [OF x(5) p] placement_known(2) [OF x(5) c] referrers_known(1) [OF x(5) c] by simp
  moreover have "deep_rep mo_valid t (DeepExplorer (equal_range (snd p) t # ps # rest)) as"
    unfolding deep_rep_def
    using x(5) sub it out(2-4) referrers_known(2) [OF x(5) c] x(4) o(2) out(1)
    by (intro conjI exI [of _ "equal_range (snd p) t # ps # rest"] exI [of _ "below # out # outs1"])
      (auto simp: children_def [symmetric])
  moreover have "a = placement_of t (snd p)" using x(4) o(2) out(1) by auto
  ultimately show ?case using x(1) its by auto
qed

text \<open>The way up to the root.\<close>

lemma root_self: "index_ok mo_valid t \<Longrightarrow> tree t (root_id t) = Some (root_id t)"
  by (erule root_known) (simp add: tree_def)

inductive ascent :: "'mo Table \<Rightarrow> PID \<Rightarrow> PID list \<Rightarrow> bool" for t where
  ascent_root: "i = root_id t \<Longrightarrow> ascent t i [i]"
| ascent_up: "i \<noteq> root_id t \<Longrightarrow> tree t i = Some s \<Longrightarrow> ascent t s up \<Longrightarrow> ascent t i (i # up)"

inductive_cases ascentE: "ascent t i up"

definition up_rep :: "('mo \<Rightarrow> bool) \<Rightarrow> 'mo Table \<Rightarrow> Explorer \<Rightarrow> addr list \<Rightarrow> bool" where
  "up_rep mo_valid t x as \<longleftrightarrow> index_ok mo_valid t \<and> (x = UpExplorer None \<and> as = []
     \<or> (\<exists>i up. x = UpExplorer (Some (placement_of t i)) \<and> contains_id i t \<and> ascent t i up \<and> as = map (placement_of t) up))"

interpretation up: explorer t "up_rep mo_valid t" for mo_valid t
proof (unfold_locales, goal_cases)
  case (1 x)
  then show ?case by (auto simp: up_rep_def elim: ascentE)
next
  case (2 x a as)
  then obtain i up where x: "x = UpExplorer (Some (placement_of t i))" "contains_id i t" "ascent t i up" "a # as = map (placement_of t) up"
      and ok: "index_ok mo_valid t" by (auto simp: up_rep_def)
  obtain s where s: "tree t i = Some s" "contains_id s t" "getScope i t = Inr (placement_of t s)"
    by (rule scope_known [OF ok x(2)])
  have step: "explore_step t x = Inr (placement_of t i, UpExplorer (if s = i then None else Some (placement_of t s)))"
    using x(1) s(3) placement_known(2) [OF ok x(2)] placement_known(2) [OF ok s(2)] by auto
  from x(3) show ?case
  proof cases
    case ascent_root
    then have "s = i" using s(1) root_self [OF ok] by simp
    then show ?thesis using step x ascent_root ok by (auto simp: up_rep_def)
  next
    case (ascent_up s' up')
    then have "(s, i) \<in> contains_rel t" using s(1) index_okD(6) [OF ok] by simp
    then have "s \<noteq> i" using index_okD(4) [OF ok] by (auto simp: acyclic_def)
    then show ?thesis using step x ascent_up s ok by (auto simp: up_rep_def)
  qed
qed

lemma siblings_apart:
  assumes ok: "index_ok mo_valid t" and c: "(i, c) \<in> contains_rel t" "(i, d) \<in> contains_rel t" "c \<noteq> d"
  shows "below t c \<inter> below t d = {}"
proof -
  have up: False if "(i, u) \<in> contains_rel t" "(i, v) \<in> contains_rel t" "u \<noteq> v" "(u, v) \<in> (contains_rel t)\<^sup>*" for u v
  proof -
    have "(u, v) \<in> (contains_rel t)\<^sup>+" using that(3,4) by (simp add: rtrancl_eq_or_trancl)
    then obtain p where "(u, p) \<in> (contains_rel t)\<^sup>*" "(p, v) \<in> contains_rel t" by (auto dest: tranclD2)
    moreover from this have "p = i" using unique_scope [OF ok] that(2) by blast
    ultimately have "(i, i) \<in> (contains_rel t)\<^sup>+" using that(1) by (auto intro: rtrancl_into_trancl2)
    then show False using index_okD(4) [OF ok] by (simp add: acyclic_def)
  qed
  have sv: "single_valued ((contains_rel t)\<inverse>)" using unique_scope [OF ok] by (auto simp: single_valued_def)
  show ?thesis
  proof (rule ccontr)
    assume "below t c \<inter> below t d \<noteq> {}"
    then obtain x where "(x, c) \<in> ((contains_rel t)\<inverse>)\<^sup>*" "(x, d) \<in> ((contains_rel t)\<inverse>)\<^sup>*"
      by (auto simp: below_def rtrancl_converse)
    from single_valued_confluent [OF sv this] show False using up [of c d] up [of d c] c by (auto simp: rtrancl_converse)
  qed
qed

lemma below_children: "below t i = insert i (\<Union>c\<in>contains_rel t `` {i}. below t c)"
  by (auto simp: below_def elim: converse_rtranclE intro: converse_rtrancl_into_rtrancl)

lemma not_below_child: "index_ok mo_valid t \<Longrightarrow> (i, c) \<in> contains_rel t \<Longrightarrow> i \<notin> below t c"
  using index_okD(4) [of mo_valid t] by (auto simp: below_def acyclic_def dest: rtrancl_into_trancl2)

lemma contents_in_order:
  assumes ok: "index_ok mo_valid t"
  shows "\<exists>out. preorder (children t) (children t i) out \<and> distinct out \<and> set out = below t i - {i}"
proof (induction i rule: wf_induct_rule [OF finite_acyclic_wf_converse [of "contains_rel t"]])
  case 1
  show ?case by (simp add: contains_rel_def)
next
  case 2
  show ?case by (rule index_okD(4) [OF ok])
next
  case (3 i)
  have level: "\<exists>out. preorder (children t) cs out \<and> distinct out \<and> set out = (\<Union>c\<in>set cs. below t c)"
    if "distinct cs" "set cs \<subseteq> contains_rel t `` {i}" for cs
    using that
  proof (induction cs)
    case Nil
    show ?case by (auto intro: preorder_Nil)
  next
    case (Cons c cs)
    obtain out where out: "preorder (children t) cs out" "distinct out" "set out = (\<Union>c\<in>set cs. below t c)" using Cons by auto
    have c: "(i, c) \<in> contains_rel t" using Cons.prems by simp
    obtain sub where sub: "preorder (children t) (children t c) sub" "distinct sub" "set sub = below t c - {c}"
      using "3.IH" [of c] c by auto
    have own: "c \<in> below t c" by (simp add: below_def)
    have "below t c \<inter> below t d = {}" if "d \<in> set cs" for d
      by (rule siblings_apart [OF ok c]) (use that Cons.prems in auto)
    then have "below t c \<inter> set out = {}" using out(3) by blast
    then have "distinct (c # sub @ out)" "set (c # sub @ out) = (\<Union>c\<in>set (c # cs). below t c)"
      using sub(2,3) out(2,3) own by auto
    then show ?case using preorder_Cons [OF sub(1) out(1)] by blast
  qed
  have "distinct (children t i)" using distinct_children [OF index_forest [OF ok]] by (simp add: children_def)
  then obtain out where out: "preorder (children t) (children t i) out" "distinct out" "set out = (\<Union>c\<in>contains_rel t `` {i}. below t c)"
    using level [of "children t i"] by auto
  moreover have "i \<notin> set out" using out(3) not_below_child [OF ok] by blast
  ultimately show ?case using below_children [of t i] by (metis Diff_insert_absorb)
qed

lemma ascent_exists:
  assumes ok: "index_ok mo_valid t"
  shows "contains_id i t \<Longrightarrow> \<exists>up. ascent t i up"
proof (induction i rule: wf_induct_rule [OF index_wf [OF ok]])
  case (1 i)
  show ?case
  proof (cases "i = root_id t")
    case True
    then show ?thesis by (blast intro: ascent_root)
  next
    case False
    obtain s where s: "tree t i = Some s" "contains_id s t" by (rule scope_known [OF ok "1.prems"])
    then have "(s, i) \<in> contains_rel t" using False index_okD(6) [OF ok] by simp
    then show ?thesis using "1.IH" s False by (blast intro: ascent_up)
  qed
qed

lemma ascent_unique: "ascent t i up \<Longrightarrow> ascent t i up' \<Longrightarrow> up = up'"
proof (induction arbitrary: up' rule: ascent.induct)
  case (ascent_root i)
  then show ?case by (auto elim: ascentE)
next
  case (ascent_up i s up)
  from ascent_up.prems ascent_up.hyps obtain up1 where "up' = i # up1" "ascent t s up1" by (auto elim: ascentE)
  then show ?case using ascent_up.IH by simp
qed

lemma ascent_hd: "ascent t i up \<Longrightarrow> up \<noteq> [] \<and> hd up = i \<and> last up = root_id t"
  by (induction rule: ascent.induct) auto

lemma ascent_known: "ascent t i up \<Longrightarrow> index_ok mo_valid t \<Longrightarrow> contains_id i t \<Longrightarrow> c \<in> set up \<Longrightarrow> contains_id c t"
  by (induction rule: ascent.induct) (auto dest: scope_registered)

lemma ascent_suffix: "ascent t i up \<Longrightarrow> up = xs @ c # ys \<Longrightarrow> ascent t c (c # ys)"
proof (induction arbitrary: xs rule: ascent.induct)
  case (ascent_root i)
  then show ?case by (cases xs) (auto intro: ascent.ascent_root)
next
  case (ascent_up i s up)
  then show ?case by (cases xs) (auto intro: ascent.ascent_up)
qed

lemma ascent_ancestors:
  assumes ok: "index_ok mo_valid t"
  shows "ascent t i up \<Longrightarrow> set up = {s. i \<in> below t s}"
proof (induction rule: ascent.induct)
  case (ascent_root i)
  then show ?case using root_no_child [OF ok] by (auto simp: below_def elim: rtranclE)
next
  case (ascent_up i s up)
  have m: "(s, i) \<in> contains_rel t" using ascent_up.hyps index_okD(6) [OF ok] by simp
  have up: "c = i \<or> (c, s) \<in> (contains_rel t)\<^sup>*" if "(c, i) \<in> (contains_rel t)\<^sup>*" for c
    using that by (cases rule: rtranclE) (use m unique_scope [OF ok] in blast)+
  have "i \<in> below t c \<longleftrightarrow> c = i \<or> s \<in> below t c" for c
    using m up [of c] by (auto simp: below_def intro: rtrancl_into_rtrancl)
  then show ?case using ascent_up.IH by auto
qed

lemma ascent_distinct: "ascent t i up \<Longrightarrow> index_ok mo_valid t \<Longrightarrow> distinct up"
proof (induction rule: ascent.induct)
  case (ascent_up i s up)
  have "(s, i) \<in> contains_rel t" using ascent_up.hyps index_okD(6) [OF ascent_up.prems] by simp
  then have "i \<notin> set up" using ascent_ancestors [OF ascent_up.prems ascent_up.hyps(3)] not_below_child [OF ascent_up.prems] by auto
  then show ?case using ascent_up by simp
qed simp

text \<open>C22: A query for the contents of a scope delivers every placement below that scope exactly once, depth first; a
  query for the children delivers these; a query for the path delivers the scope and all that enclose it, up to the root.
  All end, and all deliver only what the filter accepts, in that order.\<close>

theorem queries_complete:
  assumes r: "index_reach mo_valid t" and i: "contains_id i t"
  shows "\<exists>out up s. resolveQuery t acceptable i CONTENTS
        = Some (Inr (filter (\<lambda>a. acceptable (tb_store t ! a)) (map (placement_of t) out)))
      \<and> preorder (children t) (children t i) out \<and> distinct out \<and> set out = below t i - {i}
    \<and> resolveQuery t acceptable i CHILDREN
        = Some (Inr (filter (\<lambda>a. acceptable (tb_store t ! a)) (map (placement_of t) (children t i))))
    \<and> resolveQuery t acceptable i PATH = Some (Inr (filter (\<lambda>a. acceptable (tb_store t ! a)) (map (placement_of t) up)))
      \<and> ascent t i up \<and> set up = {c. i \<in> below t c}
    \<and> tree t i = Some s \<and> resolveQuery t acceptable i PARENTS = resolveQuery t acceptable s PATH"
proof -
  have ok: "index_ok mo_valid t" by (rule index_reach_ok [OF r])
  have f: "find_placement c t = Inr (placement_of t c)" if "contains_id c t" for c by (rule placement_known(1) [OF ok that])
  obtain s where s: "tree t i = Some s" "contains_id s t" "getScope i t = Inr (placement_of t s)" by (rule scope_known [OF ok i])
  obtain out where out: "preorder (children t) (children t i) out" "distinct out" "set out = below t i - {i}"
    using contents_in_order [OF ok] by blast
  have refs: "getReferrers i t = Inr (equal_range i t)" "set (equal_range i t) \<subseteq> contains_rel t" by (rule referrers_known [OF ok i])+
  have "deep_rep mo_valid t (DeepExplorer [equal_range i t]) (map (placement_of t) out)"
    using ok refs(2) out(1) by (auto simp: deep_rep_def children_def intro!: exI [of _ "[out]"])
  then have 1: "resolveQuery t acceptable i CONTENTS
      = Some (Inr (filter (\<lambda>a. acceptable (tb_store t ! a)) (map (placement_of t) out)))"
    using deep.pulls_all [of mo_valid t] refs(1) by (simp add: resolveQuery_def setupExploration_def)
  have "child_rep mo_valid t (ChildExplorer (equal_range i t)) (map (placement_of t) (children t i))"
    using ok refs(2) by (simp add: child_rep_def children_def)
  then have 2: "resolveQuery t acceptable i CHILDREN
      = Some (Inr (filter (\<lambda>a. acceptable (tb_store t ! a)) (map (placement_of t) (children t i))))"
    using child.pulls_all [of mo_valid t] refs(1) by (simp add: resolveQuery_def setupExploration_def)
  obtain up where up: "ascent t i up" using ascent_exists [OF ok i] by blast
  have "up_rep mo_valid t (UpExplorer (Some (placement_of t i))) (map (placement_of t) up)"
    using ok i up by (auto simp: up_rep_def)
  then have 3: "resolveQuery t acceptable i PATH = Some (Inr (filter (\<lambda>a. acceptable (tb_store t ! a)) (map (placement_of t) up)))"
    using up.pulls_all [of mo_valid t] f [OF i] by (simp add: resolveQuery_def setupExploration_def)
  have 4: "resolveQuery t acceptable i PARENTS = resolveQuery t acceptable s PATH"
    using s f [OF s(2)] by (simp add: resolveQuery_def setupExploration_def)
  show ?thesis using 1 2 3 4 out up ascent_ancestors [OF ok up] s(1) by blast
qed

text \<open>A small index to run the operations on: a root with one element below it.\<close>

definition sample_index :: "nat Table" where
  "sample_index = added_table 2 \<lparr>getID = 78, pointee = Some 6\<rparr> 1 (root_table 1 \<lparr>getID = 77, pointee = Some 5\<rparr> [])"

lemma sample_facts:
  "index_reach (\<lambda>mo. mo = 5) sample_index" "tree sample_index = [1 \<mapsto> 1, 2 \<mapsto> 1]" "root_id sample_index = 1"
  "contains_id 1 sample_index" "contains_id 2 sample_index"
proof -
  let ?root = "\<lparr>getID = 77, pointee = Some 5\<rparr> :: nat Placement" and ?obj = "\<lparr>getID = 78, pointee = Some 6\<rparr> :: nat Placement"
  let ?t = "root_table 1 ?root [] :: nat Table"
  have r: "index_reach (\<lambda>mo. mo = 5) ?t"
    by (rule index_reach.created [of 1 _ ?root]) (simp_all add: isCompatible_def PlacementIndex_new_result)
  have c: "contains_id 1 ?t" "\<not> contains_id 2 ?t" by (simp_all add: contains_id_def root_table_def)
  have "insert_placement 2 ?obj 1 ?t = Inr (2, sample_index)"
    using addEntry_result [OF c(1) _ c(2), of ?obj] c(1) by (simp add: insert_placement_def sample_index_def)
  then show s: "index_reach (\<lambda>mo. mo = 5) sample_index"
    by (rule index_reach.inserted [OF r, rotated 2]) (simp_all add: Placement_isValid_def)
  have t: "tree ?t = [1 \<mapsto> 1]" "root_id ?t = 1" by (rule root_table_ok [of 1 "\<lambda>mo. mo = 5"]; simp add: isCompatible_def)+
  show tr: "tree sample_index = [1 \<mapsto> 1, 2 \<mapsto> 1]" and "root_id sample_index = 1"
    using added_tree [OF index_reach_ok [OF r] c, of ?obj] t by (simp_all add: sample_index_def)
  show "contains_id 1 sample_index" "contains_id 2 sample_index"
    using tree_dom [OF index_reach_ok [OF s], of 1] tree_dom [OF index_reach_ok [OF s], of 2] tr by simp_all
qed

theorem queries_complete_witness:
  "\<exists>a b. resolveQuery sample_index (\<lambda>_. True) 2 PATH = Some (Inr [a, b]) \<and> id_at sample_index a = 2 \<and> id_at sample_index b = 1"
proof -
  have ok: "index_ok (\<lambda>mo. mo = 5) sample_index" by (rule index_reach_ok [OF sample_facts(1)])
  have "ascent sample_index 2 [2, 1]"
    by (rule ascent_up [of _ _ 1], simp_all add: sample_facts) (rule ascent_root, simp add: sample_facts)
  moreover obtain up where "ascent sample_index 2 up"
      "resolveQuery sample_index (\<lambda>_. True) 2 PATH = Some (Inr (map (placement_of sample_index) up))"
    using queries_complete [OF sample_facts(1,5), of "\<lambda>_. True"] by auto
  ultimately show ?thesis
    using ascent_unique placement_known(2) [OF ok sample_facts(4)] placement_known(2) [OF ok sample_facts(5)] by fastforce
qed

subsection \<open>Paths lead to the root\<close>

lemma access_known:
  assumes "index_ok mo_valid t" "contains_id i t"
  shows "access_placement t i = Inr (placement_of t i)"
  using placement_known [OF assms] by (simp add: access_placement_def require_def valid_at_def)

lemma scope_of_known:
  assumes "index_ok mo_valid t" "contains_id i t"
  shows "Scope_of t i = Inr i" "Scope_isValid t i = Inr True" "getTop t i = Inr (placement_of t i)"
  using access_known [OF assms] placement_known(6) [OF assms] assms(2)
  by (simp_all add: Scope_of_def Scope_isValid_def getTop_def require_def valid_at_def)

lemma root_registered: "index_ok mo_valid t \<Longrightarrow> contains_id (root_id t) t"
  by (erule root_known) (simp add: contains_id_def)

lemma model_root:
  assumes "index_ok mo_valid t"
  shows "currModelRoot t = Inr (root_id t)" "clear_path t p = Inr [root_id t]"
proof -
  obtain r where "getRoot t = Inr r" "id_at t r = root_id t" by (rule getRoot_result [OF assms])
  then show "currModelRoot t = Inr (root_id t)"
    using scope_of_known(1) [OF assms root_registered [OF assms]] by (simp add: currModelRoot_def)
  then show "clear_path t p = Inr [root_id t]"
    using scope_of_known(1) [OF assms root_registered [OF assms]]
    by (simp add: clear_path_def require_def path_isValid_def hasValidRoot_def)
qed

lemma mapM_known: "(\<And>x. x \<in> set xs \<Longrightarrow> f x = Inr (g x)) \<Longrightarrow> mapM_result f xs = Inr (map g xs)"
  by (induction xs) simp_all

lemma raw_path:
  assumes ok: "index_ok mo_valid t" and i: "contains_id i t" and up: "ascent t i up"
  shows "getRawPath t i = Some (Inr (map (placement_of t) up))"
proof -
  have "up_rep mo_valid t (UpExplorer (Some (placement_of t i))) (map (placement_of t) up)"
    using ok i up by (auto simp: up_rep_def)
  then show ?thesis
    using up.pulls_all [of mo_valid t _ _ "\<lambda>_. True" "[]"] scope_of_known(3) [OF ok i] placement_known(1,2) [OF ok i]
    by (simp add: getRawPath_def resolveQuery_def setupExploration_def)
qed

lemma navigate_result:
  assumes ok: "index_ok mo_valid t" and i: "contains_id i t" and up: "ascent t i up" and p: "p \<noteq> []" "p ! 0 = root_id t"
  shows "navigate t i p = Some (Inr (rev up))"
proof -
  have k: "contains_id c t" if "c \<in> set up" for c by (rule ascent_known [OF up ok i that])
  have "mapM_result (\<lambda>a. Scope_of t (id_at t a)) (map (placement_of t) up) = Inr (map (id_at t) (map (placement_of t) up))"
    by (rule mapM_known) (use scope_of_known(1) [OF ok k] placement_known(2) [OF ok k] in auto)
  also have "map (id_at t) (map (placement_of t) up) = up" using placement_known(2) [OF ok k] by (simp add: map_idI)
  finally have 1: "mapM_result (\<lambda>a. Scope_of t (id_at t a)) (map (placement_of t) up) = Inr up" .
  have 2: "mapM_result (Scope_of t) (rev up) = Inr (rev up)"
    using mapM_known [of "rev up" "Scope_of t" "\<lambda>c. c"] scope_of_known(1) [OF ok k] by simp
  have "rev up \<noteq> []" "rev up ! 0 = root_id t" using ascent_hd [OF up] last_conv_nth [of up] by (auto simp: rev_nth)
  then show ?thesis
    using p 1 2 scope_of_known(2) [OF ok i] raw_path [OF ok i up] by (simp add: navigate_def check_notBottom_def require_def)
qed

lemma navigate_unknown:
  assumes ok: "index_ok mo_valid t" and i: "\<not> contains_id i t" and p: "p \<noteq> []"
  shows "navigate t i p = Some (Inl (Err Invalid ''INVALID_SCOPE''))"
  using assms by (simp add: navigate_def check_notBottom_def Scope_isValid_def)

lemma path_to_result:
  assumes ok: "index_ok mo_valid t" and i: "contains_id i t" and up: "ascent t i up"
  shows "ScopePath_to t i = Some (Inr (rev up))"
proof -
  have "i \<noteq> Scope_INVALID" using placement_known(5) [OF ok i] by (simp add: Scope_INVALID_def)
  then show ?thesis
    using model_root(2) [OF ok, of "[]"] navigate_result [OF ok i up, of "[root_id t]"] by (simp add: ScopePath_to_def)
qed

text \<open>
  The loop of \<open>commonPrefix\<close> goes on after the first difference; on two paths from the root it yields the
  common prefix nevertheless, since two paths with the same scope at some position agree up to there.
\<close>

definition rooted_alike :: "path \<Rightarrow> path \<Rightarrow> bool" where
  "rooted_alike p q \<longleftrightarrow> (\<forall>k. k < length p \<longrightarrow> k < length q \<longrightarrow> p ! k = q ! k \<longrightarrow> take k p = take k q)"

lemma common_prefix_none:
  "(\<And>k. k < length p \<Longrightarrow> k < length q \<Longrightarrow> p ! k \<noteq> q ! k) \<Longrightarrow> commonPrefix t p q = Inr []"
proof (induction t p q rule: commonPrefix.induct)
  case (1 t a as b bs)
  have "a \<noteq> b" using "1.prems" [of 0] by simp
  moreover have "commonPrefix t as bs = Inr []"
    by (rule "1.IH"(2) [OF \<open>a \<noteq> b\<close>]) (use "1.prems" [of "Suc k" for k] in auto)
  ultimately show ?case by simp
qed simp_all

lemma common_prefix_longest:
  "rooted_alike p q \<Longrightarrow> (\<And>c. c \<in> set p \<Longrightarrow> Scope_of t c = Inr c) \<Longrightarrow> commonPrefix t p q = Inr (longest_common_prefix p q)"
proof (induction t p q rule: commonPrefix.induct)
  case (1 t a as b bs)
  have h: "k < length as \<Longrightarrow> k < length bs \<Longrightarrow> as ! k = bs ! k \<Longrightarrow> take (Suc k) (a # as) = take (Suc k) (b # bs)" for k
    using "1.prems"(1) by (auto simp: rooted_alike_def dest: spec [of _ "Suc k"])
  show ?case
  proof (cases "a = b")
    case True
    have "rooted_alike as bs" using h by (auto simp: rooted_alike_def)
    then have "commonPrefix t as bs = Inr (longest_common_prefix as bs)" using "1.IH"(1) [OF True] "1.prems"(2) True by simp
    then show ?thesis using True "1.prems"(2) [of a] by simp
  next
    case False
    have "commonPrefix t as bs = Inr []" by (rule common_prefix_none) (use h False in auto)
    then show ?thesis using False by simp
  qed
qed simp_all

lemma ascents_alike:
  assumes "ascent t i up" "ascent t j up'"
  shows "rooted_alike (rev up) (rev up')"
  unfolding rooted_alike_def
proof (intro allI impI)
  fix k assume k: "k < length (rev up)" "k < length (rev up')" "rev up ! k = rev up' ! k"
  have a: "ascent t (rev u ! k) (rev u ! k # rev (take k (rev u)))" if "ascent t c u" "k < length (rev u)" for c u
  proof -
    have "rev u = take k (rev u) @ rev u ! k # drop (Suc k) (rev u)" using that(2) by (rule id_take_nth_drop)
    then have "u = rev (drop (Suc k) (rev u)) @ rev u ! k # rev (take k (rev u))"
      by (metis append.assoc append_Cons append_Nil rev_append rev_rev_ident rev.simps(2))
    then show ?thesis by (rule ascent_suffix [OF that(1)])
  qed
  have "rev (take k (rev up)) = rev (take k (rev up'))"
    using ascent_unique [OF a [OF assms(1) k(1)], of "rev up' ! k # rev (take k (rev up'))"] a [OF assms(2) k(2)] k(3)
    by (metis list.inject)
  then show "take k (rev up) = take k (rev up')" by simp
qed

lemma ascent_single: "ascent t i up \<Longrightarrow> length up = 1 \<longleftrightarrow> i = root_id t"
  by (erule ascent.cases) (auto dest!: ascent_hd)

lemma ascent_nested:
  assumes ok: "index_ok mo_valid t" and up: "ascent t i up" "ascent t j up'"
  shows "set up' \<subseteq> set up \<longleftrightarrow> i \<in> below t j"
proof
  assume "set up' \<subseteq> set up"
  then show "i \<in> below t j" using ascent_ancestors [OF ok up(1)] ascent_hd [OF up(2)] by (cases up') auto
next
  assume "i \<in> below t j"
  then show "set up' \<subseteq> set up"
    using ascent_ancestors [OF ok up(1)] ascent_ancestors [OF ok up(2)] by (auto simp: below_def)
qed

text \<open>The path to a scope of the session leads from the root to it. Of two such paths \<open>commonPrefix\<close> yields the
  longest common prefix; a path contains exactly the scopes that enclose its leaf, and contains another path
  exactly if the other leaf encloses this one; two paths are disjoint exactly if they have only the root in common; one step up
  leads to the parent's path, and above the root to the empty path with the invalid scope.\<close>

theorem scope_paths:
  assumes r: "index_reach mo_valid t" and i: "contains_id i t" and j: "contains_id j t"
  shows "\<exists>p q. ScopePath_to t i = Some (Inr p) \<and> ScopePath_to t j = Some (Inr q)
    \<and> p ! 0 = root_id t \<and> last p = i \<and> ascent t i (rev p)
    \<and> commonPrefix t p q = Inr (longest_common_prefix p q)
    \<and> (\<forall>c. contains_id c t \<longrightarrow> path_contains c p = (i \<in> below t c))
    \<and> (i \<noteq> root_id t \<and> j \<noteq> root_id t \<longrightarrow> path_contains_path q p = (i \<in> below t j)
         \<and> disjoint_paths p q = (longest_common_prefix p q = [root_id t]))
    \<and> moveUp p = Inr (if i = root_id t then (Scope_INVALID, []) else (the (tree t i), butlast p))"
proof -
  have ok: "index_ok mo_valid t" by (rule index_reach_ok [OF r])
  obtain up where up: "ascent t i up" using ascent_exists [OF ok i] by blast
  obtain vp where vp: "ascent t j vp" using ascent_exists [OF ok j] by blast
  let ?p = "rev up" and ?q = "rev vp"
  have h: "up \<noteq> []" "hd up = i" "last up = root_id t" "vp \<noteq> []" "hd vp = j" "last vp = root_id t"
    using ascent_hd [OF up] ascent_hd [OF vp] by simp_all
  have len: "length up = 1 \<longleftrightarrow> i = root_id t" "length vp = 1 \<longleftrightarrow> j = root_id t" by (rule ascent_single [OF up], rule ascent_single [OF vp])
  have nz: "c \<noteq> Scope_INVALID" if "contains_id c t" for c using placement_known(5) [OF ok that] by (simp add: Scope_INVALID_def)
  have inp: "path_contains c ?p = (c \<in> set up)" if "contains_id c t" for c
    using nz [OF that] by (auto simp: path_contains_def list_ex_iff)
  have "commonPrefix t ?p ?q = Inr (longest_common_prefix ?p ?q)"
    by (rule common_prefix_longest [OF ascents_alike [OF up vp]]) (use scope_of_known(1) [OF ok ascent_known [OF up ok i]] in simp)
  moreover have "path_contains c ?p = (i \<in> below t c)" if "contains_id c t" for c
    using inp [OF that] ascent_ancestors [OF ok up] by simp
  moreover have "path_contains_path ?q ?p = (i \<in> below t j) \<and> disjoint_paths ?p ?q = (longest_common_prefix ?p ?q = [root_id t])"
    if ne: "i \<noteq> root_id t" "j \<noteq> root_id t"
  proof
    have l: "1 < length up" "1 < length vp" using len ne h by (cases up; cases vp; auto)+
    have "list_all (\<lambda>s. path_contains s ?p) (rev ?q) = (set vp \<subseteq> set up)"
      using inp ascent_known [OF vp ok j] by (auto simp: list_all_iff)
    then show "path_contains_path ?q ?p = (i \<in> below t j)"
      using l ascent_nested [OF ok up vp] h by (simp add: path_contains_path_def path_isValid_def)
    obtain a as where a: "?p = root_id t # a # as" using l(1) h(1,3) by (cases ?p; cases "tl ?p") (auto simp: rev_eq_Cons_iff)
    obtain b bs where b: "?q = root_id t # b # bs" using l(2) h(4,6) by (cases ?q; cases "tl ?q") (auto simp: rev_eq_Cons_iff)
    show "disjoint_paths ?p ?q = (longest_common_prefix ?p ?q = [root_id t])"
      unfolding a b by (simp add: disjoint_paths_def path_isValid_def)
  qed
  moreover have "moveUp ?p = Inr (if i = root_id t then (Scope_INVALID, []) else (the (tree t i), butlast ?p))"
    using up
  proof cases
    case ascent_root
    then show ?thesis by (simp add: moveUp_def check_notBottom_def)
  next
    case (ascent_up s up1)
    then show ?thesis using ascent_hd [OF ascent_up(4)] by (simp add: moveUp_def check_notBottom_def butlast_append last_rev)
  qed
  moreover have "?p ! 0 = root_id t" "last ?p = i" using h(1-3) last_conv_nth [OF h(1)] by (auto simp: rev_nth last_rev)
  ultimately show ?thesis using path_to_result [OF ok i up] path_to_result [OF ok j vp] up by (intro exI [of _ ?p] exI [of _ ?q]) simp
qed

theorem scope_paths_witness:
  "\<exists>p q. ScopePath_to sample_index 2 = Some (Inr p) \<and> ScopePath_to sample_index 1 = Some (Inr q)
     \<and> commonPrefix sample_index p q = Inr (longest_common_prefix p q) \<and> moveUp p = Inr (1, butlast p)"
  using scope_paths [OF sample_facts(1,5,4)] by (auto simp: sample_facts)

subsection \<open>The stack of current locations\<close>

text \<open>
  A frame is a path with its reference count, a handle (\<open>QueryFocus\<close>) refers to a frame by its
  position in the stack; the top of the stack is the end of the list. An operation returns a
  result and the new state also when it throws; \<open>None\<close> stands for not returning.
\<close>

record PathFrame =
  refcount :: nat
  frame_path :: path

type_synonym handle = nat

record Focus =
  frames :: "PathFrame list"
  handles :: "handle \<Rightarrow> nat option"

type_synonym 'a focus_op = "Focus \<Rightarrow> ('a result \<times> Focus) option"

definition bind_op :: "'a focus_op \<Rightarrow> ('a \<Rightarrow> 'b focus_op) \<Rightarrow> 'b focus_op" where
  "bind_op m f fs = (case m fs of
     None \<Rightarrow> None
   | Some (Inl e, fs') \<Rightarrow> Some (Inl e, fs')
   | Some (Inr x, fs') \<Rightarrow> f x fs')"

definition lift_op :: "'a partial_result \<Rightarrow> 'a focus_op" where
  "lift_op r fs = map_option (\<lambda>r. (r, fs)) r"

definition modify_op :: "(Focus \<Rightarrow> Focus) \<Rightarrow> unit focus_op" where
  "modify_op f fs = Some (Inr (), f fs)"

definition get_op :: "(Focus \<Rightarrow> 'a focus_op) \<Rightarrow> 'a focus_op" where
  "get_op f fs = f fs fs"

definition openDefaultFrame :: "'mo Table \<Rightarrow> unit focus_op" where
  "openDefaultFrame t = get_op (\<lambda>fs.
     bind_op (lift_op (Some (require (frames fs = []) ''0 == size()''))) (\<lambda>_.
     bind_op (lift_op (Some (ScopePath_default t))) (\<lambda>path.
     bind_op (modify_op (\<lambda>fs. fs\<lparr>frames := [\<lparr>refcount = 0, frame_path = path\<rparr>]\<rparr>)) (\<lambda>_.
     bind_op (lift_op (Some (require (path \<noteq> []) ''!frames.front().empty()''))) (\<lambda>_.
       lift_op (Some (require (\<not> path_isValid path) ''!frames.front().isValid()'')))))))"

definition pop_unused :: "'mo Table \<Rightarrow> unit focus_op" where
  "pop_unused t = get_op (\<lambda>fs.
     if length (frames fs) = 1 \<and> \<not> path_isValid (frame_path (hd (frames fs))) then lift_op (Some (Inr ()))
     else bind_op (modify_op (\<lambda>fs. fs\<lparr>frames := rev (dropWhile (\<lambda>f. refcount f = 0) (rev (frames fs)))\<rparr>)) (\<lambda>_.
       get_op (\<lambda>fs. if frames fs = [] then openDefaultFrame t else lift_op (Some (Inr ())))))"

definition top_frame :: "'mo Table \<Rightarrow> nat focus_op" where
  "top_frame t = get_op (\<lambda>fs.
     bind_op (if frames fs = [] \<or> refcount (last (frames fs)) = 0 then pop_unused t else lift_op (Some (Inr ()))) (\<lambda>_.
     get_op (\<lambda>fs. bind_op (lift_op (Some (require (frames fs \<noteq> []) ''!empty()''))) (\<lambda>_.
       lift_op (Some (Inr (length (frames fs) - 1)))))))"

definition push_frame :: "'mo Table \<Rightarrow> Scope \<Rightarrow> nat focus_op" where
  "push_frame t newStartPoint = get_op (\<lambda>fs.
     bind_op (lift_op (ScopePath_to t newStartPoint)) (\<lambda>newPathFrame.
     bind_op (lift_op (Some (Scope_isRoot t newStartPoint))) (\<lambda>root.
     bind_op (lift_op (Some (require (path_isValid newPathFrame \<or> root) ''newPathFrame.isValid() || newStartPoint.isRoot()''))) (\<lambda>_.
     bind_op (lift_op (Some (mapM_result (Scope_of t) newPathFrame))) (\<lambda>path.
     bind_op (modify_op (\<lambda>fs. fs\<lparr>frames := frames fs @ [\<lparr>refcount = 0, frame_path = path\<rparr>]\<rparr>)) (\<lambda>_.
       lift_op (Some (Inr (length (frames fs))))))))))"

definition pushPath :: "'mo Table \<Rightarrow> nat focus_op" where
  "pushPath t = bind_op (lift_op (Some (currModelRoot t))) (\<lambda>root. push_frame t root)"

text \<open>The counted references of the handles.\<close>

definition add_ref :: "nat \<Rightarrow> Focus \<Rightarrow> Focus" where
  "add_ref k fs = fs\<lparr>frames := (frames fs)[k := (frames fs ! k)\<lparr>refcount := refcount (frames fs ! k) + 1\<rparr>]\<rparr>"

definition release_ref :: "nat \<Rightarrow> Focus \<Rightarrow> Focus" where
  "release_ref k fs =
     (if 0 < refcount (frames fs ! k)
      then fs\<lparr>frames := (frames fs)[k := (frames fs ! k)\<lparr>refcount := refcount (frames fs ! k) - 1\<rparr>]\<rparr> else fs)"

definition attach :: "handle \<Rightarrow> nat \<Rightarrow> Focus \<Rightarrow> Focus" where
  "attach h k fs = add_ref k (fs\<lparr>handles := (handles fs)(h \<mapsto> k)\<rparr>)"

definition detach :: "handle \<Rightarrow> Focus \<Rightarrow> Focus" where
  "detach h fs = (case handles fs h of None \<Rightarrow> fs | Some k \<Rightarrow> release_ref k (fs\<lparr>handles := (handles fs)(h := None)\<rparr>))"

text \<open>The operations of a handle.\<close>

definition focus_pos :: "handle \<Rightarrow> nat focus_op" where
  "focus_pos h = get_op (\<lambda>fs. lift_op (Some (case handles fs h of
     None \<Rightarrow> Inl (Err Assertion ''focus_'') | Some k \<Rightarrow> Inr k)))"

definition check_validTarget :: "'mo Table \<Rightarrow> Scope \<Rightarrow> unit focus_op" where
  "check_validTarget t target = bind_op (lift_op (Some (Scope_isValid t target))) (\<lambda>valid.
     lift_op (Some (if \<not> valid then Inl (Err Invalid ''INVALID_SCOPE'') else Inr ())))"

definition set_path :: "nat \<Rightarrow> path \<Rightarrow> Focus \<Rightarrow> Focus" where
  "set_path k path fs = fs\<lparr>frames := (frames fs)[k := (frames fs ! k)\<lparr>frame_path := path\<rparr>]\<rparr>"

definition navigate_frame :: "'mo Table \<Rightarrow> Scope \<Rightarrow> nat \<Rightarrow> unit focus_op" where
  "navigate_frame t target k = get_op (\<lambda>fs.
     bind_op (lift_op (navigate t target (frame_path (frames fs ! k)))) (\<lambda>path. modify_op (set_path k path)))"

definition QueryFocus_new :: "'mo Table \<Rightarrow> handle \<Rightarrow> unit focus_op" where
  "QueryFocus_new t h = bind_op (top_frame t) (\<lambda>k. modify_op (attach h k))"

definition QueryFocus_copy :: "handle \<Rightarrow> handle \<Rightarrow> unit focus_op" where
  "QueryFocus_copy h' h = bind_op (focus_pos h) (\<lambda>k. modify_op (attach h' k))"

definition QueryFocus_drop :: "handle \<Rightarrow> unit focus_op" where
  "QueryFocus_drop h = modify_op (detach h)"

definition focus_reset :: "'mo Table \<Rightarrow> handle \<Rightarrow> unit focus_op" where
  "focus_reset t h = bind_op (focus_pos h) (\<lambda>k. get_op (\<lambda>fs.
     bind_op (lift_op (Some (clear_path t (frame_path (frames fs ! k))))) (\<lambda>path. modify_op (set_path k path))))"

definition focus_shift :: "'mo Table \<Rightarrow> handle \<Rightarrow> Scope \<Rightarrow> unit focus_op" where
  "focus_shift t h container = bind_op (check_validTarget t container) (\<lambda>_.
     bind_op (focus_pos h) (\<lambda>k. navigate_frame t container k))"

text \<open>When the shift throws, the new handle is destroyed; its frame stays on the stack, unused.\<close>

definition shift_new :: "'mo Table \<Rightarrow> handle \<Rightarrow> Scope \<Rightarrow> unit focus_op" where
  "shift_new t h container fs = (case focus_shift t h container fs of
     None \<Rightarrow> None
   | Some (Inl e, fs') \<Rightarrow> Some (Inl e, detach h fs')
   | Some (Inr _, fs') \<Rightarrow> Some (Inr (), fs'))"

definition focus_push_to :: "'mo Table \<Rightarrow> handle \<Rightarrow> Scope \<Rightarrow> unit focus_op" where
  "focus_push_to t h otherContainer = bind_op (check_validTarget t otherContainer) (\<lambda>_.
     bind_op (pushPath t) (\<lambda>k. bind_op (modify_op (attach h k)) (\<lambda>_. shift_new t h otherContainer)))"

definition focus_push :: "'mo Table \<Rightarrow> handle \<Rightarrow> unit focus_op" where
  "focus_push t h = bind_op (top_frame t) (\<lambda>k. get_op (\<lambda>fs.
     bind_op (lift_op (Some (getLeaf (frame_path (frames fs ! k))))) (\<lambda>leaf.
     bind_op (lift_op (Some (Scope_of t leaf))) (\<lambda>currentLocation.
     bind_op (lift_op (Some (Scope_isValid t currentLocation))) (\<lambda>valid.
     bind_op (lift_op (Some (require valid ''currentLocation.isValid()''))) (\<lambda>_.
     bind_op (pushPath t) (\<lambda>k. bind_op (modify_op (attach h k)) (\<lambda>_. shift_new t h currentLocation))))))))"

definition focus_pop :: "'mo Table \<Rightarrow> handle \<Rightarrow> unit focus_op" where
  "focus_pop t h = bind_op (modify_op (detach h)) (\<lambda>_. bind_op (top_frame t) (\<lambda>k. modify_op (attach h k)))"

definition locate :: "'mo Table \<Rightarrow> Scope \<Rightarrow> unit focus_op" where
  "locate t target = bind_op (top_frame t) (\<lambda>k. navigate_frame t target k)"

subsection \<open>Handles and frames\<close>

text \<open>
  What an operation guarantees from a given condition on: it returns, and the resulting state
  satisfies \<open>Q\<close> for the value delivered, or \<open>E\<close> when it throws.
\<close>

definition op_ok :: "(Focus \<Rightarrow> bool) \<Rightarrow> 'a focus_op \<Rightarrow> ('a \<Rightarrow> Focus \<Rightarrow> bool) \<Rightarrow> (Focus \<Rightarrow> bool) \<Rightarrow> bool" where
  "op_ok P m Q E \<longleftrightarrow> (\<forall>fs. P fs \<longrightarrow> (\<exists>r fs'. m fs = Some (r, fs') \<and> (case r of Inl _ \<Rightarrow> E fs' | Inr x \<Rightarrow> Q x fs')))"

lemma op_okI: "(\<And>fs. P fs \<Longrightarrow> \<exists>r fs'. m fs = Some (r, fs') \<and> (case r of Inl _ \<Rightarrow> E fs' | Inr x \<Rightarrow> Q x fs')) \<Longrightarrow> op_ok P m Q E"
  by (simp add: op_ok_def)

lemma op_okD: "op_ok P m Q E \<Longrightarrow> P fs \<Longrightarrow> \<exists>r fs'. m fs = Some (r, fs') \<and> (case r of Inl _ \<Rightarrow> E fs' | Inr x \<Rightarrow> Q x fs')"
  by (simp add: op_ok_def)

lemma op_bind:
  assumes "op_ok P m Q E" "\<And>x. op_ok (Q x) (f x) R E"
  shows "op_ok P (bind_op m f) R E"
proof (rule op_okI)
  fix fs assume "P fs"
  then obtain r fs' where r: "m fs = Some (r, fs')" "case r of Inl _ \<Rightarrow> E fs' | Inr x \<Rightarrow> Q x fs'"
    using op_okD [OF assms(1)] by blast
  show "\<exists>r fs'. bind_op m f fs = Some (r, fs') \<and> (case r of Inl _ \<Rightarrow> E fs' | Inr x \<Rightarrow> R x fs')"
    using r op_okD [OF assms(2)] by (cases r) (auto simp: bind_op_def)
qed

lemma op_lift: "(\<And>fs. P fs \<Longrightarrow> \<exists>r'. r = Some r' \<and> (case r' of Inl _ \<Rightarrow> E fs | Inr x \<Rightarrow> Q x fs)) \<Longrightarrow> op_ok P (lift_op r) Q E"
  by (fastforce simp: op_ok_def lift_op_def)

lemma op_check: "(\<And>fs. P fs \<Longrightarrow> E fs) \<Longrightarrow> op_ok P (lift_op (Some r)) (\<lambda>x fs. r = Inr x \<and> P fs) E"
  by (rule op_lift) (auto split: sum.splits)

lemma op_modify: "(\<And>fs. P fs \<Longrightarrow> Q () (f fs)) \<Longrightarrow> op_ok P (modify_op f) Q E"
  by (simp add: op_ok_def modify_op_def)

lemma op_get: "(\<And>fs. P fs \<Longrightarrow> op_ok (\<lambda>fs'. fs' = fs) (m fs) Q E) \<Longrightarrow> op_ok P (get_op m) Q E"
  by (simp add: op_ok_def get_op_def)

lemma op_pre: "op_ok P' m Q E \<Longrightarrow> (\<And>fs. P fs \<Longrightarrow> P' fs) \<Longrightarrow> op_ok P m Q E"
  by (auto simp: op_ok_def)

lemma op_post: "op_ok P m Q E \<Longrightarrow> (\<And>x fs. Q x fs \<Longrightarrow> Q' x fs) \<Longrightarrow> op_ok P m Q' E"
  unfolding op_ok_def by (metis (mono_tags, lifting) sum.case_eq_if)

text \<open>The count of a frame is the number of handles that refer to it, and each refers to an existing frame.\<close>

definition refs :: "Focus \<Rightarrow> nat \<Rightarrow> handle set" where
  "refs fs k = {h. handles fs h = Some k}"

definition focus_ok :: "Focus \<Rightarrow> bool" where
  "focus_ok fs \<longleftrightarrow> frames fs \<noteq> [] \<and> finite (dom (handles fs))
     \<and> (\<forall>h k. handles fs h = Some k \<longrightarrow> k < length (frames fs))
     \<and> (\<forall>k < length (frames fs). refcount (frames fs ! k) = card (refs fs k))"

lemma focus_okD:
  assumes "focus_ok fs"
  shows "frames fs \<noteq> []" "finite (refs fs k)" "handles fs h = Some k \<Longrightarrow> k < length (frames fs)"
    "k < length (frames fs) \<Longrightarrow> refcount (frames fs ! k) = card (refs fs k)"
proof -
  have "refs fs k \<subseteq> dom (handles fs)" by (auto simp: refs_def)
  then show "finite (refs fs k)" using assms finite_subset by (auto simp: focus_ok_def)
qed (use assms in \<open>auto simp: focus_ok_def\<close>)

lemma refs_attach: "refs (attach h k fs) j = (if j = k then insert h (refs fs j) else refs fs j - {h})"
  by (auto simp: refs_def attach_def add_ref_def)

lemma attach_ok:
  assumes "focus_ok fs" "handles fs h = None" "k < length (frames fs)"
  shows "focus_ok (attach h k fs)"
proof -
  have f: "finite (refs fs k)" by (rule focus_okD(2) [OF assms(1)])
  have n: "h \<notin> refs fs j" for j using assms(2) by (simp add: refs_def)
  have "refcount (frames (attach h k fs) ! j) = card (refs (attach h k fs) j)" if "j < length (frames fs)" for j
    using that assms(1,3) n f by (auto simp: refs_attach focus_okD(4)) (auto simp: attach_def add_ref_def focus_okD(4))
  then show ?thesis using assms by (auto simp: focus_ok_def attach_def add_ref_def split: if_splits)
qed

lemma detach_ok:
  assumes "focus_ok fs"
  shows "focus_ok (detach h fs) \<and> handles (detach h fs) = (handles fs)(h := None)"
proof (cases "handles fs h")
  case None
  then show ?thesis using assms by (auto simp: detach_def fun_upd_idem)
next
  case (Some k)
  let ?fs = "detach h fs"
  have k: "k < length (frames fs)" "finite (refs fs k)" "h \<in> refs fs k"
    using Some focus_okD(2,3) [OF assms] by (auto simp: refs_def)
  then have pos: "0 < refcount (frames fs ! k)" using focus_okD(4) [OF assms k(1)] by (auto simp: card_gt_0_iff)
  have hs: "handles ?fs = (handles fs)(h := None)" by (simp add: detach_def Some release_ref_def)
  have fr: "frames ?fs = (frames fs)[k := (frames fs ! k)\<lparr>refcount := refcount (frames fs ! k) - 1\<rparr>]"
    using pos by (simp add: detach_def Some release_ref_def)
  have rf: "refs ?fs j = refs fs j - {h}" for j by (auto simp: refs_def hs)
  have "refcount (frames ?fs ! j) = card (refs ?fs j)" if j: "j < length (frames fs)" for j
  proof (cases "j = k")
    case True
    then show ?thesis using k focus_okD(4) [OF assms k(1)] by (simp add: fr rf)
  next
    case False
    then have "h \<notin> refs fs j" using Some by (simp add: refs_def)
    then show ?thesis using False j focus_okD(4) [OF assms j] by (simp add: fr rf)
  qed
  then show ?thesis using assms hs by (auto simp: focus_ok_def fr split: if_splits)
qed

lemma set_path_ok: "focus_ok fs \<Longrightarrow> k < length (frames fs) \<Longrightarrow> focus_ok (set_path k p fs) \<and> handles (set_path k p fs) = handles fs"
  by (auto simp: focus_ok_def set_path_def refs_def nth_list_update)

lemma push_ok:
  assumes "focus_ok fs"
  shows "focus_ok (fs\<lparr>frames := frames fs @ [\<lparr>refcount = 0, frame_path = p\<rparr>]\<rparr>)"
proof -
  have "{h. handles fs h = Some (length (frames fs))} = {}" using focus_okD(3) [OF assms] by force
  then show ?thesis using assms by (auto simp: focus_ok_def refs_def nth_append less_Suc_eq)
qed

lemma drop_unused_refs:
  assumes ok: "focus_ok fs" and h: "handles fs h = Some k"
  shows "k < length (rev (dropWhile (\<lambda>f. refcount f = 0) (rev (frames fs))))"
proof -
  have k: "k < length (frames fs)" by (rule focus_okD(3) [OF ok h])
  have "refs fs k \<noteq> {}" using h by (auto simp: refs_def)
  then have "refcount (frames fs ! k) \<noteq> 0" using focus_okD(2,4) [OF ok] k by simp
  have split: "frames fs = rev (dropWhile (\<lambda>f. refcount f = 0) (rev (frames fs))) @ rev (takeWhile (\<lambda>f. refcount f = 0) (rev (frames fs)))"
    by (metis rev_append rev_rev_ident takeWhile_dropWhile_id)
  show ?thesis
  proof (rule ccontr)
    let ?d = "rev (dropWhile (\<lambda>f. refcount f = 0) (rev (frames fs)))" and ?r = "rev (takeWhile (\<lambda>f. refcount f = 0) (rev (frames fs)))"
    assume n: "\<not> k < length ?d"
    have "k - length ?d < length ?r" using k n arg_cong [OF split, of length] by (simp only: length_append)
    moreover have "frames fs ! k = ?r ! (k - length ?d)" using n by (subst split) (simp only: nth_append if_False)
    ultimately have "frames fs ! k \<in> set (takeWhile (\<lambda>f. refcount f = 0) (rev (frames fs)))" by (metis nth_mem set_rev)
    then show False using \<open>refcount (frames fs ! k) \<noteq> 0\<close> by (auto dest: set_takeWhileD)
  qed
qed

definition in_use :: "PathFrame list \<Rightarrow> PathFrame list" where
  "in_use fr = rev (dropWhile (\<lambda>f. refcount f = 0) (rev fr))"

definition used_frames :: "'mo Table \<Rightarrow> PathFrame list \<Rightarrow> PathFrame list" where
  "used_frames t fr =
     (if length fr = 1 \<and> \<not> path_isValid (frame_path (hd fr)) then fr
      else if in_use fr = [] then [\<lparr>refcount = 0, frame_path = [root_id t]\<rparr>] else in_use fr)"

lemma in_use_last: "fr \<noteq> [] \<Longrightarrow> refcount (last fr) \<noteq> 0 \<Longrightarrow> in_use fr = fr"
  by (cases fr rule: rev_cases) (auto simp: in_use_def)

lemma used_ok:
  assumes ok: "focus_ok fs"
  shows "focus_ok (fs\<lparr>frames := used_frames t (frames fs)\<rparr>)"
proof (cases "length (frames fs) = 1 \<and> \<not> path_isValid (frame_path (hd (frames fs)))")
  case True
  then show ?thesis using ok by (simp add: used_frames_def)
next
  case False
  let ?d = "in_use (frames fs)"
  have h: "k < length ?d" if "handles fs h = Some k" for h k
    using drop_unused_refs [OF ok that] by (simp add: in_use_def)
  show ?thesis
  proof (cases "?d = []")
    case True
    then have "handles fs = Map.empty" using h by (force simp: fun_eq_iff)
    then show ?thesis using False True by (auto simp: used_frames_def focus_ok_def refs_def)
  next
    case d: False
    have "frames fs = ?d @ rev (takeWhile (\<lambda>f. refcount f = 0) (rev (frames fs)))"
      unfolding in_use_def by (metis rev_append rev_rev_ident takeWhile_dropWhile_id)
    then have nth: "k < length ?d \<Longrightarrow> frames fs ! k = ?d ! k \<and> k < length (frames fs)" for k
      by (metis length_append nth_append trans_less_add1)
    have "refcount (?d ! k) = card (refs (fs\<lparr>frames := ?d\<rparr>) k)" if "k < length ?d" for k
      using focus_okD(4) [OF ok, of k] nth [OF that] by (simp add: refs_def)
    moreover have "finite (dom (handles fs))" using ok by (simp add: focus_ok_def)
    ultimately show ?thesis using False d h by (auto simp: used_frames_def focus_ok_def)
  qed
qed

lemma pop_unused_result:
  assumes "index_ok mo_valid t"
  shows "pop_unused t fs = Some (Inr (), fs\<lparr>frames := used_frames t (frames fs)\<rparr>)"
  using model_root(2) [OF assms, of "[]"]
  by (simp add: pop_unused_def used_frames_def in_use_def get_op_def bind_op_def modify_op_def lift_op_def openDefaultFrame_def
      ScopePath_default_def require_def path_isValid_def)

lemma used_not_empty: "fr \<noteq> [] \<Longrightarrow> used_frames t fr \<noteq> []"
  by (simp add: used_frames_def)

lemma top_frame_result:
  assumes "index_ok mo_valid t" "focus_ok fs"
  shows "top_frame t fs = Some (Inr (length (used_frames t (frames fs)) - 1), fs\<lparr>frames := used_frames t (frames fs)\<rparr>)"
proof -
  have ne: "frames fs \<noteq> []" by (rule focus_okD(1) [OF assms(2)])
  show ?thesis
  proof (cases "refcount (last (frames fs)) = 0")
    case True
    then show ?thesis using pop_unused_result [OF assms(1)] used_not_empty [OF ne]
      by (simp add: top_frame_def get_op_def bind_op_def lift_op_def require_def)
  next
    case False
    then have "used_frames t (frames fs) = frames fs" using in_use_last [OF ne False] ne by (simp add: used_frames_def)
    then show ?thesis using False ne by (simp add: top_frame_def get_op_def bind_op_def lift_op_def require_def)
  qed
qed

lemma navigate_returns:
  assumes ok: "index_ok mo_valid t"
  shows "\<exists>r. navigate t i p = Some r"
proof (cases "p \<noteq> [] \<and> contains_id i t")
  case True
  obtain up where up: "ascent t i up" using ascent_exists [OF ok] True by blast
  have k: "contains_id c t" if "c \<in> set up" for c using ascent_known [OF up ok _ that] True by simp
  have "mapM_result (\<lambda>a. Scope_of t (id_at t a)) (map (placement_of t) up) = Inr (map (id_at t) (map (placement_of t) up))"
    by (rule mapM_known) (use scope_of_known(1) [OF ok k] placement_known(2) [OF ok k] in auto)
  then show ?thesis using True scope_of_known(2) [OF ok] raw_path [OF ok _ up]
    by (auto simp: navigate_def check_notBottom_def require_def Let_def)
next
  case False
  then show ?thesis using navigate_unknown [OF ok, of i p]
    by (cases "p = []") (auto simp: navigate_def check_notBottom_def)
qed

lemma navigate_frame_ok:
  assumes "index_ok mo_valid t"
  shows "op_ok (\<lambda>fs. focus_ok fs \<and> k < length (frames fs) \<and> handles fs = hs) (navigate_frame t i k)
     (\<lambda>_ fs. focus_ok fs \<and> handles fs = hs) (\<lambda>fs. focus_ok fs \<and> handles fs = hs)"
  unfolding navigate_frame_def
proof (rule op_get)
  fix fs assume fs: "focus_ok fs \<and> k < length (frames fs) \<and> handles fs = hs"
  obtain r where r: "navigate t i (frame_path (frames fs ! k)) = Some r" using navigate_returns [OF assms] by blast
  show "op_ok (\<lambda>fs'. fs' = fs) (bind_op (lift_op (navigate t i (frame_path (frames fs ! k)))) (\<lambda>path. modify_op (set_path k path)))
      (\<lambda>_ fs. focus_ok fs \<and> handles fs = hs) (\<lambda>fs. focus_ok fs \<and> handles fs = hs)"
    unfolding r by (rule op_bind [OF op_check]) (use fs set_path_ok in \<open>auto intro!: op_modify\<close>)
qed

lemma push_frame_ok:
  assumes ok: "index_ok mo_valid t"
  shows "op_ok (\<lambda>fs. focus_ok fs \<and> handles fs = hs) (pushPath t)
     (\<lambda>k fs. focus_ok fs \<and> handles fs = hs \<and> k < length (frames fs)) (\<lambda>_. False)"
proof (rule op_okI)
  fix fs assume fs: "focus_ok fs \<and> handles fs = hs"
  have r: "contains_id (root_id t) t" by (rule root_registered [OF ok])
  have "access_placement t (root_id t) = Inr (placement_of t (root_id t))" by (rule access_known [OF ok r])
  moreover obtain a where "getRoot t = Inr a" "id_at t a = root_id t" by (rule getRoot_result [OF ok])
  ultimately have "Scope_isRoot t (root_id t) = Inr True"
    using placement_known(2) [OF ok r] by (simp add: Scope_isRoot_def)
  moreover have "ScopePath_to t (root_id t) = Some (Inr [root_id t])"
    using path_to_result [OF ok r ascent_root [OF refl]] by simp
  ultimately show "\<exists>r fs'. pushPath t fs = Some (r, fs')
      \<and> (case r of Inl _ \<Rightarrow> False | Inr k \<Rightarrow> focus_ok fs' \<and> handles fs' = hs \<and> k < length (frames fs'))"
    using fs push_ok [of fs] model_root(1) [OF ok] scope_of_known(1) [OF ok r]
    by (simp add: pushPath_def push_frame_def get_op_def bind_op_def lift_op_def modify_op_def require_def)
qed

lemma top_frame_ok:
  assumes "index_ok mo_valid t"
  shows "op_ok (\<lambda>fs. focus_ok fs \<and> handles fs = hs) (top_frame t)
     (\<lambda>k fs. focus_ok fs \<and> handles fs = hs \<and> k < length (frames fs)) (\<lambda>_. False)"
proof (rule op_okI)
  fix fs assume fs: "focus_ok fs \<and> handles fs = hs"
  then have "used_frames t (frames fs) \<noteq> []" by (intro used_not_empty focus_okD(1)) simp
  then show "\<exists>r fs'. top_frame t fs = Some (r, fs')
      \<and> (case r of Inl _ \<Rightarrow> False | Inr k \<Rightarrow> focus_ok fs' \<and> handles fs' = hs \<and> k < length (frames fs'))"
    using top_frame_result [OF assms, of fs] used_ok [of fs t] fs by simp
qed

lemma focus_pos_ok: "op_ok (\<lambda>fs. focus_ok fs \<and> handles fs = hs) (focus_pos h)
     (\<lambda>k fs. focus_ok fs \<and> handles fs = hs \<and> k < length (frames fs)) (\<lambda>fs. focus_ok fs \<and> handles fs = hs)"
  by (intro op_okI) (auto simp: focus_pos_def get_op_def lift_op_def focus_okD(3) split: option.split)

lemma check_valid_ok: "(\<And>fs. P fs \<Longrightarrow> E fs) \<Longrightarrow> op_ok P (check_validTarget t i) (\<lambda>_. P) E"
  by (auto simp: op_ok_def check_validTarget_def bind_op_def lift_op_def split: sum.split)

lemma focus_shift_ok:
  assumes "index_ok mo_valid t"
  shows "op_ok (\<lambda>fs. focus_ok fs \<and> handles fs = hs) (focus_shift t h i)
     (\<lambda>_ fs. focus_ok fs \<and> handles fs = hs) (\<lambda>fs. focus_ok fs \<and> handles fs = hs)"
  unfolding focus_shift_def
  by (rule op_bind [OF check_valid_ok op_bind [OF focus_pos_ok]], assumption, rule op_pre [OF navigate_frame_ok [OF assms]]) auto

lemma shift_new_ok:
  assumes "index_ok mo_valid t"
  shows "op_ok (\<lambda>fs. focus_ok fs \<and> handles fs = hs) (shift_new t h i)
     (\<lambda>_ fs. focus_ok fs \<and> handles fs = hs) (\<lambda>fs. focus_ok fs \<and> handles fs = hs(h := None))"
proof (rule op_okI)
  fix fs assume "focus_ok fs \<and> handles fs = hs"
  from op_okD [OF focus_shift_ok [OF assms, of hs h i] this]
  obtain r fs' where r: "focus_shift t h i fs = Some (r, fs')" "focus_ok fs'" "handles fs' = hs" by (auto split: sum.splits)
  show "\<exists>r fs'. shift_new t h i fs = Some (r, fs') \<and> (case r of Inl _ \<Rightarrow> focus_ok fs' \<and> handles fs' = hs(h := None)
      | Inr x \<Rightarrow> focus_ok fs' \<and> handles fs' = hs)"
    using r detach_ok [OF r(2), of h] by (cases r) (auto simp: shift_new_def)
qed

lemma attach_op_ok: "hs h = None \<Longrightarrow> op_ok (\<lambda>fs. focus_ok fs \<and> handles fs = hs \<and> k < length (frames fs)) (modify_op (attach h k))
     (\<lambda>_ fs. focus_ok fs \<and> handles fs = hs(h \<mapsto> k)) E"
  using attach_ok by (intro op_modify) (auto simp: attach_def add_ref_def)

text \<open>The handle's operations, each with its effect on the handles.\<close>

datatype FocusOp = NewFocus handle | CopyFocus handle handle | DropFocus handle | ResetFocus handle
  | Shift handle Scope | PushTo handle Scope | Push handle | Pop handle | Locate Scope

primrec run_op :: "'mo Table \<Rightarrow> FocusOp \<Rightarrow> unit focus_op" where
  "run_op t (NewFocus h) = QueryFocus_new t h"
| "run_op t (CopyFocus h' h) = QueryFocus_copy h' h"
| "run_op t (DropFocus h) = QueryFocus_drop h"
| "run_op t (ResetFocus h) = focus_reset t h"
| "run_op t (Shift h s) = focus_shift t h s"
| "run_op t (PushTo h s) = focus_push_to t h s"
| "run_op t (Push h) = focus_push t h"
| "run_op t (Pop h) = focus_pop t h"
| "run_op t (Locate s) = locate t s"

text \<open>The handle an operation creates.\<close>

fun new_handle :: "FocusOp \<Rightarrow> handle option" where
  "new_handle (NewFocus h) = Some h"
| "new_handle (CopyFocus h' h) = Some h'"
| "new_handle (PushTo h s) = Some h"
| "new_handle (Push h) = Some h"
| "new_handle _ = None"

fun target_handle :: "FocusOp \<Rightarrow> handle option" where
  "target_handle (DropFocus h) = Some h"
| "target_handle (Pop h) = Some h"
| "target_handle op = new_handle op"

definition others_kept :: "FocusOp \<Rightarrow> (handle \<Rightarrow> nat option) \<Rightarrow> Focus \<Rightarrow> bool" where
  "others_kept op hs fs \<longleftrightarrow> focus_ok fs \<and> (\<forall>h. target_handle op \<noteq> Some h \<longrightarrow> handles fs h = hs h)"

lemma op_weaken: "op_ok P m Q E \<Longrightarrow> (\<And>x fs. Q x fs \<Longrightarrow> Q' x fs) \<Longrightarrow> (\<And>fs. E fs \<Longrightarrow> E' fs) \<Longrightarrow> op_ok P m Q' E'"
  unfolding op_ok_def by (metis (mono_tags, lifting) sum.case_eq_if)

lemma new_frame_ok:
  assumes ok: "index_ok mo_valid t" and h: "hs h = None"
  shows "op_ok (\<lambda>fs. focus_ok fs \<and> handles fs = hs)
     (bind_op (pushPath t) (\<lambda>k. bind_op (modify_op (attach h k)) (\<lambda>_. shift_new t h i)))
     (\<lambda>_ fs. focus_ok fs \<and> (\<forall>h'. h' \<noteq> h \<longrightarrow> handles fs h' = hs h')) (\<lambda>fs. focus_ok fs \<and> (\<forall>h'. h' \<noteq> h \<longrightarrow> handles fs h' = hs h'))"
proof (rule op_bind)
  let ?E = "\<lambda>fs. focus_ok fs \<and> (\<forall>h'. h' \<noteq> h \<longrightarrow> handles fs h' = hs h')"
  show "op_ok (\<lambda>fs. focus_ok fs \<and> handles fs = hs) (pushPath t) (\<lambda>k fs. focus_ok fs \<and> handles fs = hs \<and> k < length (frames fs)) ?E"
    by (rule op_weaken [OF push_frame_ok [OF ok]]) auto
  show "op_ok (\<lambda>fs. focus_ok fs \<and> handles fs = hs \<and> k < length (frames fs)) (bind_op (modify_op (attach h k)) (\<lambda>_. shift_new t h i))
      (\<lambda>_. ?E) ?E" for k
    by (rule op_bind [OF attach_op_ok [of hs h, OF h] op_weaken [OF shift_new_ok [OF ok]]]) auto
qed

lemma run_op_ok:
  assumes ok: "index_ok mo_valid t" and new: "\<And>h. new_handle op = Some h \<Longrightarrow> hs h = None"
  shows "op_ok (\<lambda>fs. focus_ok fs \<and> handles fs = hs) (run_op t op) (\<lambda>_. others_kept op hs) (others_kept op hs)"
proof (cases op)
  case (NewFocus h)
  then have "op_ok (\<lambda>fs. focus_ok fs \<and> handles fs = hs) (QueryFocus_new t h) (\<lambda>_. others_kept op hs) (others_kept op hs)"
    unfolding QueryFocus_new_def
    by (intro op_bind [OF op_weaken [OF top_frame_ok [OF ok]] op_weaken [OF attach_op_ok [where hs = hs and E = "others_kept op hs"]]])
      (auto simp: others_kept_def new)
  then show ?thesis by (simp add: NewFocus)
next
  case (CopyFocus h' h)
  then have "op_ok (\<lambda>fs. focus_ok fs \<and> handles fs = hs) (QueryFocus_copy h' h) (\<lambda>_. others_kept op hs) (others_kept op hs)"
    unfolding QueryFocus_copy_def
    by (intro op_bind [OF op_weaken [OF focus_pos_ok] op_weaken [OF attach_op_ok [where hs = hs and E = "others_kept op hs"]]])
      (auto simp: others_kept_def new)
  then show ?thesis by (simp add: CopyFocus)
next
  case (DropFocus h)
  then show ?thesis using detach_ok by (auto simp: QueryFocus_drop_def others_kept_def intro!: op_modify)
next
  case (ResetFocus h)
  have g: "op_ok (\<lambda>fs. focus_ok fs \<and> handles fs = hs \<and> k < length (frames fs))
      (get_op (\<lambda>fs. bind_op (lift_op (Some (clear_path t (frame_path (frames fs ! k))))) (\<lambda>path. modify_op (set_path k path))))
      (\<lambda>_. others_kept op hs) (others_kept op hs)" for k
  proof (rule op_get, rule op_bind [OF op_check])
    fix fs fs' x assume "focus_ok fs \<and> handles fs = hs \<and> k < length (frames fs)"
    then show "fs' = fs \<Longrightarrow> others_kept op hs fs'"
      and "op_ok (\<lambda>fs'. clear_path t (frame_path (frames fs ! k)) = Inr x \<and> fs' = fs) (modify_op (set_path k x)) (\<lambda>_. others_kept op hs) (others_kept op hs)"
      using set_path_ok by (auto simp: others_kept_def intro!: op_modify)
  qed
  have "op_ok (\<lambda>fs. focus_ok fs \<and> handles fs = hs) (focus_reset t h) (\<lambda>_. others_kept op hs) (others_kept op hs)"
    unfolding focus_reset_def by (rule op_bind [OF op_weaken [OF focus_pos_ok] g]) (auto simp: others_kept_def)
  then show ?thesis by (simp add: ResetFocus)
next
  case (Shift h s)
  have "op_ok (\<lambda>fs. focus_ok fs \<and> handles fs = hs) (focus_shift t h s) (\<lambda>_. others_kept op hs) (others_kept op hs)"
    by (rule op_weaken [OF focus_shift_ok [OF ok]]) (auto simp: others_kept_def)
  then show ?thesis by (simp add: Shift)
next
  case (PushTo h s)
  have "op_ok (\<lambda>fs. focus_ok fs \<and> handles fs = hs) (focus_push_to t h s) (\<lambda>_. others_kept op hs) (others_kept op hs)"
    unfolding focus_push_to_def
    by (rule op_bind [OF check_valid_ok op_weaken [OF new_frame_ok [OF ok]]]) (auto simp: others_kept_def PushTo new)
  then show ?thesis by (simp add: PushTo)
next
  case (Push h)
  have h: "hs h = None" using new Push by simp
  have own: "others_kept op hs fs" if "focus_ok fs \<and> handles fs = hs" for fs using that by (simp add: others_kept_def)
  have "op_ok (\<lambda>fs. focus_ok fs \<and> handles fs = hs) (focus_push t h) (\<lambda>_. others_kept op hs) (others_kept op hs)"
    unfolding focus_push_def
  proof (rule op_bind [OF op_weaken [OF top_frame_ok [OF ok]]], assumption, simp, rule op_get)
    fix k fs assume fs: "focus_ok fs \<and> handles fs = hs \<and> k < length (frames fs)"
    have e: "fs' = fs \<Longrightarrow> others_kept op hs fs'" for fs' using fs own by blast
    show "op_ok (\<lambda>fs'. fs' = fs) (bind_op (lift_op (Some (getLeaf (frame_path (frames fs ! k))))) (\<lambda>leaf.
     bind_op (lift_op (Some (Scope_of t leaf))) (\<lambda>currentLocation.
     bind_op (lift_op (Some (Scope_isValid t currentLocation))) (\<lambda>valid.
     bind_op (lift_op (Some (require valid ''currentLocation.isValid()''))) (\<lambda>_.
     bind_op (pushPath t) (\<lambda>k. bind_op (modify_op (attach h k)) (\<lambda>_. shift_new t h currentLocation)))))))
        (\<lambda>_. others_kept op hs) (others_kept op hs)"
      by (intro op_bind [OF op_check] op_weaken [OF op_pre [OF new_frame_ok [OF ok, of hs h, OF h]]])
        (use fs e Push in \<open>auto simp: others_kept_def\<close>)
  qed
  then show ?thesis by (simp add: Push)
next
  case (Pop h)
  have "op_ok (\<lambda>fs. focus_ok fs \<and> handles fs = hs) (focus_pop t h) (\<lambda>_. others_kept op hs) (others_kept op hs)"
    unfolding focus_pop_def
    by (rule op_bind [OF op_modify [where Q = "\<lambda>_ fs. focus_ok fs \<and> handles fs = hs(h := None)"] op_bind [OF op_weaken [OF top_frame_ok [OF ok]]
        op_weaken [OF attach_op_ok [where hs = "hs(h := None)" and E = "others_kept op hs"]]]]) (use detach_ok in \<open>auto simp: others_kept_def Pop\<close>)
  then show ?thesis by (simp add: Pop)
next
  case (Locate s)
  have "op_ok (\<lambda>fs. focus_ok fs \<and> handles fs = hs) (locate t s) (\<lambda>_. others_kept op hs) (others_kept op hs)"
    unfolding locate_def
    by (rule op_bind [OF op_weaken [OF top_frame_ok [OF ok]] op_weaken [OF op_pre [OF navigate_frame_ok [OF ok]]]])
      (auto simp: others_kept_def)
  then show ?thesis by (simp add: Locate)
qed

inductive focus_reach :: "('mo \<Rightarrow> bool) \<Rightarrow> Focus \<Rightarrow> bool" for mo_valid where
  focus_start: "index_reach mo_valid t \<Longrightarrow> openDefaultFrame t \<lparr>frames = [], handles = Map.empty\<rparr> = Some (Inr (), fs) \<Longrightarrow> focus_reach mo_valid fs"
| focus_step: "focus_reach mo_valid fs \<Longrightarrow> index_reach mo_valid t \<Longrightarrow> (\<And>h. new_handle op = Some h \<Longrightarrow> handles fs h = None)
     \<Longrightarrow> run_op t op fs = Some (r, fs') \<Longrightarrow> focus_reach mo_valid fs'"

lemma open_default_result:
  assumes "index_ok mo_valid t"
  shows "openDefaultFrame t \<lparr>frames = [], handles = hs\<rparr> = Some (Inr (), \<lparr>frames = [\<lparr>refcount = 0, frame_path = [root_id t]\<rparr>], handles = hs\<rparr>)"
  using model_root(2) [OF assms, of "[]"]
  by (simp add: get_op_def bind_op_def modify_op_def lift_op_def openDefaultFrame_def ScopePath_default_def require_def path_isValid_def)

lemma run_op_returns:
  assumes "focus_ok fs" "index_reach mo_valid t" "\<And>h. new_handle op = Some h \<Longrightarrow> handles fs h = None"
  obtains r fs' where "run_op t op fs = Some (r, fs')" "others_kept op (handles fs) fs'"
proof -
  have "op_ok (\<lambda>fs'. focus_ok fs' \<and> handles fs' = handles fs) (run_op t op) (\<lambda>_. others_kept op (handles fs)) (others_kept op (handles fs))"
    by (rule run_op_ok [OF index_reach_ok [OF assms(2)] assms(3)])
  from op_okD [OF this, of fs] assms(1) show thesis using that by (auto split: sum.splits)
qed

lemma focus_reach_ok: "focus_reach mo_valid fs \<Longrightarrow> focus_ok fs"
proof (induction rule: focus_reach.induct)
  case (focus_start t fs)
  then have "fs = \<lparr>frames = [\<lparr>refcount = 0, frame_path = [root_id t]\<rparr>], handles = Map.empty\<rparr>"
    using open_default_result [OF index_reach_ok] by fastforce
  then show ?case by (simp add: focus_ok_def refs_def)
next
  case (focus_step fs t op r fs')
  obtain r' fs'' where "run_op t op fs = Some (r', fs'')" "others_kept op (handles fs) fs''"
    by (rule run_op_returns [OF focus_step.IH focus_step.hyps(2,3)])
  then show ?case using focus_step.hyps(4) by (simp add: others_kept_def)
qed

text \<open>C23: Whatever handles are created, moved and dropped, and however the session changes meanwhile, each operation returns,
  also when it fails; the count of a frame is the number of handles on it, so that a handle never refers to a discarded
  frame; and no operation moves a handle to another frame but its own.\<close>

theorem focus_handles_safe:
  assumes "focus_reach mo_valid fs" "index_reach mo_valid t" "\<And>h. new_handle op = Some h \<Longrightarrow> handles fs h = None"
  shows "\<exists>r fs'. run_op t op fs = Some (r, fs')
    \<and> (\<forall>k < length (frames fs'). refcount (frames fs' ! k) = card (refs fs' k))
    \<and> (\<forall>h k. handles fs' h = Some k \<longrightarrow> k < length (frames fs') \<and> 0 < refcount (frames fs' ! k))
    \<and> (\<forall>h. target_handle op \<noteq> Some h \<longrightarrow> handles fs' h = handles fs h)"
proof -
  obtain r fs' where r: "run_op t op fs = Some (r, fs')" "others_kept op (handles fs) fs'"
    by (rule run_op_returns [OF focus_reach_ok [OF assms(1)] assms(2,3)])
  then have ok: "focus_ok fs'" by (simp add: others_kept_def)
  have "k < length (frames fs') \<and> 0 < refcount (frames fs' ! k)" if "handles fs' h = Some k" for h k
  proof -
    have "h \<in> refs fs' k" using that by (simp add: refs_def)
    then show ?thesis using focus_okD(2-4) [OF ok] that by (auto simp: card_gt_0_iff)
  qed
  then show ?thesis using r focus_okD(4) [OF ok] unfolding others_kept_def by blast
qed

lemma sample_focus:
  "focus_reach (\<lambda>mo :: nat. mo = 5) \<lparr>frames = [\<lparr>refcount = 0, frame_path = [1]\<rparr>], handles = Map.empty\<rparr>"
  using focus_start [OF sample_facts(1) open_default_result [OF index_reach_ok [OF sample_facts(1)]]] by (simp add: sample_facts)

theorem focus_handles_safe_witness:
  "\<exists>r fs'. run_op sample_index (NewFocus 4) \<lparr>frames = [\<lparr>refcount = 0, frame_path = [1]\<rparr>], handles = Map.empty\<rparr> = Some (r, fs')
     \<and> (\<forall>k < length (frames fs'). refcount (frames fs' ! k) = card (refs fs' k))"
  using focus_handles_safe [OF sample_focus sample_facts(1), of "NewFocus 4"] by auto

lemma shift_result:
  assumes ok: "index_ok mo_valid t" and s: "contains_id s t" "ascent t s up" and k: "handles fs h = Some k"
    and p: "frame_path (frames fs ! k) \<noteq> []" "frame_path (frames fs ! k) ! 0 = root_id t"
  shows "focus_shift t h s fs = Some (Inr (), set_path k (rev up) fs)"
  using navigate_result [OF ok s p] scope_of_known(2) [OF ok s(1)] k
  by (simp add: focus_shift_def check_validTarget_def focus_pos_def navigate_frame_def bind_op_def lift_op_def get_op_def modify_op_def)

lemma pushPath_result:
  assumes ok: "index_ok mo_valid t"
  shows "pushPath t fs = Some (Inr (length (frames fs)), fs\<lparr>frames := frames fs @ [\<lparr>refcount = 0, frame_path = [root_id t]\<rparr>]\<rparr>)"
proof -
  have r: "contains_id (root_id t) t" by (rule root_registered [OF ok])
  have "access_placement t (root_id t) = Inr (placement_of t (root_id t))" by (rule access_known [OF ok r])
  moreover obtain a where "getRoot t = Inr a" "id_at t a = root_id t" by (rule getRoot_result [OF ok])
  ultimately have "Scope_isRoot t (root_id t) = Inr True"
    using placement_known(2) [OF ok r] by (simp add: Scope_isRoot_def)
  moreover have "ScopePath_to t (root_id t) = Some (Inr [root_id t])"
    using path_to_result [OF ok r ascent_root [OF refl]] by simp
  ultimately show ?thesis
    using model_root(1) [OF ok] scope_of_known(1) [OF ok r]
    by (simp add: pushPath_def push_frame_def get_op_def bind_op_def lift_op_def modify_op_def require_def)
qed

text \<open>Pushing a new focus to a scope of the session puts a frame with the path to that scope on top, leaving all
  frames below as they are; popping that focus again discards the frame and attaches the handle to the previous top.\<close>

theorem focus_push_pop:
  assumes "focus_reach mo_valid fs" and r: "index_reach mo_valid t" and s: "contains_id s t"
    and h: "handles fs h = None" and top: "refcount (last (frames fs)) \<noteq> 0"
  shows "\<exists>path fs1. focus_push_to t h s fs = Some (Inr (), fs1) \<and> ascent t s (rev path)
    \<and> handles fs1 = (handles fs)(h \<mapsto> length (frames fs)) \<and> frames fs1 = frames fs @ [\<lparr>refcount = 1, frame_path = path\<rparr>]
    \<and> focus_pop t h fs1 = Some (Inr (), attach h (length (frames fs) - 1) fs)"
proof -
  have ok: "index_ok mo_valid t" by (rule index_reach_ok [OF r])
  have f: "focus_ok fs" by (rule focus_reach_ok [OF assms(1)])
  then have ne: "frames fs \<noteq> []" by (rule focus_okD(1))
  obtain up where up: "ascent t s up" using ascent_exists [OF ok s] by blast
  let ?opened = "fs\<lparr>frames := frames fs @ [\<lparr>refcount = 0, frame_path = [root_id t]\<rparr>]\<rparr>"
  let ?pushed = "fs\<lparr>frames := frames fs @ [\<lparr>refcount = Suc 0, frame_path = rev up\<rparr>], handles := (handles fs)(h \<mapsto> length (frames fs))\<rparr>"
  have a: "attach h (length (frames fs)) ?opened
      = fs\<lparr>frames := frames fs @ [\<lparr>refcount = Suc 0, frame_path = [root_id t]\<rparr>], handles := (handles fs)(h \<mapsto> length (frames fs))\<rparr>" (is "_ = ?attached")
    by (simp add: attach_def add_ref_def)
  have sh: "focus_shift t h s ?attached = Some (Inr (), set_path (length (frames fs)) (rev up) ?attached)"
    by (rule shift_result [OF ok s up]) simp_all
  have "set_path (length (frames fs)) (rev up) ?attached = ?pushed" by (simp add: set_path_def)
  then have new: "shift_new t h s ?attached = Some (Inr (), ?pushed)" unfolding shift_new_def sh by simp
  have push: "focus_push_to t h s fs = Some (Inr (), ?pushed)"
    by (simp add: focus_push_to_def check_validTarget_def bind_op_def lift_op_def pushPath_result [OF ok] modify_op_def
        scope_of_known(2) [OF ok s] a new)
  have d: "detach h ?pushed = fs\<lparr>frames := frames fs @ [\<lparr>refcount = 0, frame_path = rev up\<rparr>]\<rparr>" (is "_ = ?popped")
    using h by (simp add: detach_def release_ref_def fun_upd_idem)
  have "focus_ok ?popped" by (rule push_ok [OF f])
  moreover have "used_frames t (frames ?popped) = frames fs"
    using in_use_last [OF ne top] ne by (simp add: used_frames_def in_use_def)
  ultimately have "focus_pop t h ?pushed = Some (Inr (), attach h (length (frames fs) - 1) fs)"
    using top_frame_result [OF ok, of ?popped] d by (simp add: focus_pop_def bind_op_def modify_op_def)
  then show ?thesis using push up by (intro exI [of _ "rev up"] exI [of _ ?pushed]) simp
qed

theorem focus_push_pop_witness:
  "\<exists>fs fs1. focus_reach (\<lambda>mo :: nat. mo = 5) fs \<and> focus_push_to sample_index 7 2 fs = Some (Inr (), fs1) \<and> length (frames fs1) = 2"
proof -
  let ?base = "\<lparr>frames = [\<lparr>refcount = 0, frame_path = [1]\<rparr>], handles = Map.empty\<rparr>"
  let ?fs = "attach 4 0 ?base"
  have "focus_ok ?base" by (rule focus_reach_ok [OF sample_focus])
  then have run: "run_op sample_index (NewFocus 4) ?base = Some (Inr (), ?fs)"
    using top_frame_result [OF index_reach_ok [OF sample_facts(1)], of ?base]
    by (simp add: QueryFocus_new_def bind_op_def modify_op_def used_frames_def path_isValid_def)
  have r: "focus_reach (\<lambda>mo :: nat. mo = 5) ?fs" by (rule focus_step [OF sample_focus sample_facts(1) _ run]) simp
  have "handles ?fs 7 = None" "refcount (last (frames ?fs)) \<noteq> 0" "length (frames ?fs) = 1" by (simp_all add: attach_def add_ref_def)
  from focus_push_pop [OF r sample_facts(1,5) this(1,2)] this(3) r show ?thesis by auto
qed

text \<open>
  A frame that is not navigated keeps the root it was opened with. After the index has been cleared,
  its root has a new ID; on a path with the former root navigation fails with an assertion.
\<close>

lemma former_root_refused:
  assumes ok: "index_ok mo_valid t" and i: "contains_id i t" and p: "p \<noteq> []" "p ! 0 \<noteq> root_id t"
  shows "navigate t i p = Some (Inl (Err Assertion ''path_[0] == otherPath[0]''))"
proof -
  obtain up where up: "ascent t i up" using ascent_exists [OF ok i] by blast
  have k: "contains_id c t" if "c \<in> set up" for c by (rule ascent_known [OF up ok i that])
  have "mapM_result (\<lambda>a. Scope_of t (id_at t a)) (map (placement_of t) up) = Inr (map (id_at t) (map (placement_of t) up))"
    by (rule mapM_known) (use scope_of_known(1) [OF ok k] placement_known(2) [OF ok k] in auto)
  also have "map (id_at t) (map (placement_of t) up) = up" using placement_known(2) [OF ok k] by (simp add: map_idI)
  finally have "mapM_result (\<lambda>a. Scope_of t (id_at t a)) (map (placement_of t) up) = Inr up" .
  moreover have "rev up ! 0 = root_id t" using ascent_hd [OF up] last_conv_nth [of up] by (auto simp: rev_nth)
  ultimately show ?thesis
    using p scope_of_known(2) [OF ok i] raw_path [OF ok i up] by (simp add: navigate_def check_notBottom_def require_def)
qed

end
