(* ===== verification/SubsystemRunner.thy ===== *)
theory SubsystemRunner
  imports Prelude
begin

text \<open>
  The start and shutdown of subsystems with dependencies: \<open>SubsystemRunner\<close> of
  \<open>common/subsystem-runner.hpp\<close> and the descriptor \<open>Subsys\<close> of \<open>common/subsys.cpp\<close>. The subsystems
  themselves are code of their own; what the runner sees of one is whether it is up, and what its
  \<open>start\<close> does, a parameter with the four outcomes the runner distinguishes. Each operation of the runner
  holds its lock, and so does the termination callback: they are atomic steps on the state. The
  model takes a subsystem to change its running state only in \<open>start\<close> and when it signals termination.
\<close>

subsection \<open>Subsystems and the state of the runner\<close>

type_synonym sid = nat

datatype StartOutcome =
    StartsUp
  | StartsDead
  | NotStarted
  | Throws lumiera_error

record Subsystems =
  prereq :: "sid \<Rightarrow> sid list"
  shouldStart :: "sid \<Rightarrow> bool"
  start_outcome :: "sid \<Rightarrow> StartOutcome"

record Runner =
  emergency :: bool
  running :: "sid list"
  up :: "sid \<Rightarrow> bool"
  told :: "sid \<Rightarrow> bool"

definition depends :: "sid \<Rightarrow> sid \<Rightarrow> Subsystems \<Rightarrow> Subsystems" where
  "depends s prereq_s env = env\<lparr>prereq := (prereq env)(s := prereq env s @ [prereq_s])\<rparr>"

definition isRunning :: "Runner \<Rightarrow> sid \<Rightarrow> bool" where
  "isRunning r s = up r s"

definition SubsystemRunner_new :: Runner where
  "SubsystemRunner_new = \<lparr>emergency = False, running = [], up = (\<lambda>_. False), told = (\<lambda>_. False)\<rparr>"

definition isEmergency :: "Runner \<Rightarrow> bool" where
  "isEmergency r = emergency r"

definition allDead :: "Runner \<Rightarrow> bool" where
  "allDead r \<longleftrightarrow> running r = []"

definition susy_triggerShutdown :: "sid \<Rightarrow> Runner \<Rightarrow> Runner" where
  "susy_triggerShutdown s r = r\<lparr>told := (told r)(s := True)\<rparr>"

definition shutdownAll :: "Runner \<Rightarrow> Runner" where
  "shutdownAll r = fold susy_triggerShutdown (running r) r"

definition triggerEmergency :: "bool \<Rightarrow> Runner \<Rightarrow> Runner" where
  "triggerEmergency cond r = (if cond then r\<lparr>emergency := True\<rparr> else r)"

subsection \<open>Startup\<close>

text \<open>What \<open>triggerStartup\<close> does after the prerequisites: start the subsystem itself and check.\<close>

definition start_self :: "Subsystems \<Rightarrow> sid \<Rightarrow> Runner \<Rightarrow> unit result \<times> Runner" where
  "start_self env s r =
     (let check = (\<lambda>r. if list_all (isRunning r) (prereq env s) then (Inr (), r)
                       else (Inl (Err State ''Unable to start all prerequisites''), susy_triggerShutdown s r))
      in case start_outcome env s of
           Throws e \<Rightarrow> (Inl e, r)
         | NotStarted \<Rightarrow> check r
         | StartsDead \<Rightarrow> (Inl (Err Logic ''Subsystem failed to start''), r)
         | StartsUp \<Rightarrow> check (r\<lparr>up := (up r)(s := True), running := running r @ [s]\<rparr>))"

text \<open>
  The recursion over the prerequisites; with a cycle among them it does not end. An exception
  leaves all levels.
\<close>

partial_function (option) startEach :: "Subsystems \<Rightarrow> sid list \<Rightarrow> Runner \<Rightarrow> (unit result \<times> Runner) option" where
  "startEach env ss r = (case ss of
     [] \<Rightarrow> Some (Inr (), r)
   | s # ss' \<Rightarrow>
       if isRunning r s then startEach env ss' r
       else Option.bind (startEach env (prereq env s) r) (\<lambda>x.
         if isl (fst x) then Some x
         else let y = start_self env s (snd x)
              in if isl (fst y) then Some y else startEach env ss' (snd y)))"

definition triggerStartup :: "Subsystems \<Rightarrow> sid \<Rightarrow> Runner \<Rightarrow> (unit result \<times> Runner) option" where
  "triggerStartup env s r = startEach env [s] r"

definition maybeRun :: "Subsystems \<Rightarrow> sid \<Rightarrow> Runner \<Rightarrow> (unit result \<times> Runner) option" where
  "maybeRun env s r =
     (if \<not> isRunning r s \<and> shouldStart env s then triggerStartup env s r else Some (Inr (), r))"

subsection \<open>Termination\<close>

definition sigTerm :: "sid \<Rightarrow> string option \<Rightarrow> Runner \<Rightarrow> Runner" where
  "sigTerm s problem r =
     (let r = triggerEmergency (problem \<noteq> None \<and> problem \<noteq> Some []) r;
          r = r\<lparr>running := removeAll s (running r)\<rparr>
      in shutdownAll r)"

text \<open>A subsystem ends: it is no longer up, and then it signals.\<close>

definition terminates :: "sid \<times> string option \<Rightarrow> Runner \<Rightarrow> Runner" where
  "terminates t r = sigTerm (fst t) (snd t) (r\<lparr>up := (up r)(fst t := False)\<rparr>)"

text \<open>The blocking wait: \<open>None\<close> while it has to wait on.\<close>

definition wait :: "Runner \<Rightarrow> bool option" where
  "wait r = (if allDead r \<or> isEmergency r then Some (isEmergency r) else None)"

subsection \<open>Running the application\<close>

text \<open>
  \<open>AppState\<close> holds the runner between \<open>init\<close> and \<open>maybeWait\<close>. The blocking wait is reached in a
  state of the runner in which it returns; \<open>None\<close> otherwise.
\<close>

datatype ExitCode = NORMAL_EXIT | CLEAN_EXIT_AFTER_ERROR | CLEAN_EMERGENCY_EXIT | FAILED_EMERGENCY_EXIT

record AppState =
  subsystems :: "Runner option"
  app_emergency :: bool
  core_up :: bool

definition AppState_new :: AppState where
  "AppState_new = \<lparr>subsystems = None, app_emergency = False, core_up = False\<rparr>"

definition init :: "AppState \<Rightarrow> AppState" where
  "init app = app\<lparr>core_up := True, subsystems := Some SubsystemRunner_new\<rparr>"

definition maybeStart :: "Subsystems \<Rightarrow> sid \<Rightarrow> AppState \<Rightarrow> (unit result \<times> AppState) option" where
  "maybeStart env s app = (case subsystems app of
     None \<Rightarrow> Some (Inl (Err Assertion ''subsystems_''), app)
   | Some r \<Rightarrow> Option.bind (maybeRun env s r) (\<lambda>x. Some (fst x, app\<lparr>subsystems := Some (snd x)\<rparr>)))"

definition maybeWait :: "AppState \<Rightarrow> (ExitCode \<times> AppState) option" where
  "maybeWait app =
     Option.bind (case subsystems app of
         None \<Rightarrow> Some app
       | Some r \<Rightarrow> Option.bind (wait r) (\<lambda>e. Some (app\<lparr>app_emergency := app_emergency app \<or> e, subsystems := None\<rparr>)))
       (\<lambda>app. Some (if app_emergency app then CLEAN_EMERGENCY_EXIT else NORMAL_EXIT, app))"

text \<open>The two exits after an error: the first part of \<open>abort\<close> sets off the shutdown and then waits.\<close>

definition abort_trigger :: "AppState \<Rightarrow> AppState" where
  "abort_trigger app = app\<lparr>subsystems := map_option (\<lambda>r. shutdownAll (triggerEmergency True r)) (subsystems app)\<rparr>"

definition abort_problem :: "AppState \<Rightarrow> (ExitCode \<times> AppState) option" where
  "abort_problem app = maybeWait (abort_trigger app)"

definition abort_unknown :: "AppState \<Rightarrow> ExitCode" where
  "abort_unknown app = (if app_emergency app then FAILED_EMERGENCY_EXIT else CLEAN_EXIT_AFTER_ERROR)"

text \<open>
  The configuration of \<open>main.cpp\<close>: the subsystems with their dependencies, and those it starts, in order.
\<close>

definition engine :: sid where "engine = 0"
definition netNode :: sid where "netNode = 1"
definition script :: sid where "script = 2"
definition player :: sid where "player = 3"
definition session :: sid where "session = 4"
definition playOut :: sid where "playOut = 5"
definition lumigui :: sid where "lumigui = 6"

lemmas main_sids = engine_def netNode_def script_def player_def session_def playOut_def lumigui_def

definition main_dependencies :: "Subsystems \<Rightarrow> Subsystems" where
  "main_dependencies env =
     depends script engine (depends script session (depends lumigui player (depends player playOut
       (depends lumigui session (depends playOut session (depends netNode engine (depends netNode session env)))))))"

fun main_start :: "Subsystems \<Rightarrow> sid list \<Rightarrow> AppState \<Rightarrow> (unit result \<times> AppState) option" where
  "main_start env [] app = Some (Inr (), app)"
| "main_start env (s # ss) app =
     Option.bind (maybeStart env s app) (\<lambda>x. if isl (fst x) then Some x else main_start env ss (snd x))"

definition main_started :: "sid list" where
  "main_started = [playOut, netNode, lumigui, script]"

subsection \<open>Dependencies are respected\<close>

definition dep_rel :: "Subsystems \<Rightarrow> (sid \<times> sid) set" where
  "dep_rel env = {(p, s). p \<in> set (prereq env s)}"

text \<open>What is managed is what is up; in order: with its prerequisites up and started before it.\<close>

definition managed :: "Runner \<Rightarrow> bool" where
  "managed r \<longleftrightarrow> set (running r) = {s. up r s} \<and> distinct (running r)"

definition in_order :: "Subsystems \<Rightarrow> Runner \<Rightarrow> bool" where
  "in_order env r \<longleftrightarrow> managed r \<and> (\<forall>xs s ys. running r = xs @ s # ys \<longrightarrow> set (prereq env s) \<subseteq> set xs)"

lemma in_order_managed: "in_order env r \<Longrightarrow> managed r"
  by (simp add: in_order_def)

lemma managed_append:
  assumes "managed r" "\<not> up r s"
  shows "managed (r\<lparr>up := (up r)(s := True), running := running r @ [s]\<rparr>)"
  using assms by (auto simp: managed_def)

lemma managed_told [simp]: "managed (r\<lparr>told := f\<rparr>) = managed r" "managed (r\<lparr>emergency := b\<rparr>) = managed r"
  by (simp_all add: managed_def)

lemma in_order_append:
  assumes "in_order env r" "\<not> up r s" "\<forall>p\<in>set (prereq env s). up r p"
  shows "in_order env (r\<lparr>up := (up r)(s := True), running := running r @ [s]\<rparr>)"
proof -
  have "set (prereq env x) \<subseteq> set xs" if "running r @ [s] = xs @ x # ys" for xs x ys
  proof (cases ys rule: rev_cases)
    case Nil
    then show ?thesis using that assms by (auto simp: in_order_def managed_def)
  next
    case (snoc zs z)
    then have "running r = xs @ x # zs" using that by auto
    then show ?thesis using assms(1) by (auto simp: in_order_def)
  qed
  moreover have "managed (r\<lparr>up := (up r)(s := True), running := running r @ [s]\<rparr>)"
    using assms by (auto intro: managed_append in_order_managed)
  ultimately show ?thesis by (auto simp: in_order_def)
qed

lemma shutdownAll_result: "shutdownAll r = r\<lparr>told := \<lambda>s. told r s \<or> s \<in> set (running r)\<rparr>"
proof -
  have "fold susy_triggerShutdown ss r = r\<lparr>told := \<lambda>s. told r s \<or> s \<in> set ss\<rparr>" for ss r
    by (induction ss arbitrary: r) (auto simp: susy_triggerShutdown_def fun_eq_iff)
  then show ?thesis by (simp add: shutdownAll_def)
qed

text \<open>What a call on a list of subsystems achieves.\<close>

definition can_start :: "Subsystems \<Rightarrow> sid \<Rightarrow> bool" where
  "can_start env s \<longleftrightarrow> (\<forall>x. (x, s) \<in> (dep_rel env)\<^sup>* \<longrightarrow> start_outcome env x = StartsUp)"

definition started :: "Subsystems \<Rightarrow> sid list \<Rightarrow> Runner \<Rightarrow> unit result \<times> Runner \<Rightarrow> bool" where
  "started env ss r res \<longleftrightarrow>
     managed (snd res) \<and> (\<forall>s. up r s \<longrightarrow> up (snd res) s) \<and> (\<forall>x. up (snd res) x \<longrightarrow> up r x \<or> (\<exists>s\<in>set ss. (x, s) \<in> (dep_rel env)\<^sup>*))
     \<and> emergency (snd res) = emergency r
     \<and> (fst res = Inr () \<longrightarrow> (in_order env r \<longrightarrow> in_order env (snd res)) \<and> (\<forall>s\<in>set ss. up (snd res) s \<or> start_outcome env s = NotStarted))
     \<and> ((\<forall>s\<in>set ss. can_start env s) \<longrightarrow> fst res = Inr ())"

lemma can_start_prereq: "can_start env s \<Longrightarrow> p \<in> set (prereq env s) \<Longrightarrow> can_start env p"
  unfolding can_start_def dep_rel_def by (blast intro: rtrancl_into_rtrancl)

lemma can_start_self: "can_start env s \<Longrightarrow> start_outcome env s = StartsUp"
  by (simp add: can_start_def)

lemma start_self_result:
  assumes "managed r" "\<not> up r s" "s \<notin> set (prereq env s)"
    and "\<forall>p\<in>set (prereq env s). up r p \<or> start_outcome env p = NotStarted"
  shows "started env [s] r (start_self env s r)"
proof (cases "start_outcome env s")
  case StartsUp
  let ?r = "r\<lparr>up := (up r)(s := True), running := running r @ [s]\<rparr>"
  have managed: "managed ?r" using assms by (blast intro: managed_append)
  show ?thesis
  proof (cases "\<forall>p\<in>set (prereq env s). up r p")
    case True
    have "in_order env r \<longrightarrow> in_order env ?r" using in_order_append [OF _ assms(2) True] by blast
    moreover have "list_all (isRunning ?r) (prereq env s)" using True by (simp add: list_all_iff isRunning_def)
    ultimately show ?thesis using StartsUp managed by (simp add: started_def start_self_def)
  next
    case False
    then obtain p where p: "p \<in> set (prereq env s)" "\<not> up r p" by blast
    then have fail: "\<not> list_all (isRunning ?r) (prereq env s)"
      using assms(3) by (auto simp: list_all_iff isRunning_def)
    have "\<not> can_start env s"
      using p assms(4) can_start_self [OF can_start_prereq [OF _ p(1)]] by force
    then show ?thesis using StartsUp managed fail by (simp add: started_def start_self_def susy_triggerShutdown_def)
  qed
qed (use assms in \<open>auto simp: started_def start_self_def susy_triggerShutdown_def dest: can_start_self\<close>)

lemma startEach_simps:
  "startEach env [] r = Some (Inr (), r)"
  "up r s \<Longrightarrow> startEach env (s # ss) r = startEach env ss r"
  "\<not> up r s \<Longrightarrow> startEach env (s # ss) r = Option.bind (startEach env (prereq env s) r) (\<lambda>x.
     if isl (fst x) then Some x
     else if isl (fst (start_self env s (snd x))) then Some (start_self env s (snd x))
     else startEach env ss (snd (start_self env s (snd x))))"
  by (subst startEach.simps, simp add: isRunning_def Let_def cong: if_cong)+

lemma startEach_Cons:
  "startEach env (s # ss) r =
     Option.bind (startEach env [s] r) (\<lambda>x. if isl (fst x) then Some x else startEach env ss (snd x))"
proof (cases "up r s")
  case True
  then show ?thesis by (simp add: startEach_simps)
next
  case False
  then show ?thesis
    by (cases "startEach env (prereq env s) r") (auto simp: startEach_simps)
qed

lemma started_refl:
  assumes "managed r" "\<forall>s\<in>set ss. up r s"
  shows "started env ss r (Inr (), r)"
  using assms by (simp add: started_def)

lemma startedD:
  assumes "started env ss r res"
  shows "managed (snd res)" "up r s \<Longrightarrow> up (snd res) s" "emergency (snd res) = emergency r"
    "up (snd res) s \<Longrightarrow> up r s \<or> (\<exists>x\<in>set ss. (s, x) \<in> (dep_rel env)\<^sup>*)"
    "fst res = Inr () \<Longrightarrow> in_order env r \<Longrightarrow> in_order env (snd res)"
    "fst res = Inr () \<Longrightarrow> s \<in> set ss \<Longrightarrow> up (snd res) s \<or> start_outcome env s = NotStarted"
    "\<forall>s\<in>set ss. can_start env s \<Longrightarrow> fst res = Inr ()"
  using assms by (simp_all add: started_def)

lemma started_append:
  assumes "started env ss r (Inr (), r')" "started env ss' r' res"
  shows "started env (ss @ ss') r res"
proof -
  note a = startedD [OF assms(1), simplified] and b = startedD [OF assms(2)]
  have "up (snd res) s" if "up r s" for s using a(2) b(2) that by blast
  moreover have "up r x \<or> (\<exists>s\<in>set (ss @ ss'). (x, s) \<in> (dep_rel env)\<^sup>*)" if "up (snd res) x" for x
    using a(4) [of x] b(4) [OF that] by auto
  moreover have "up (snd res) x \<or> start_outcome env x = NotStarted" if "x \<in> set (ss @ ss')" "fst res = Inr ()" for x
    using a(6) [of x] b(2) [of x] b(6) [of x] that by auto
  ultimately show ?thesis unfolding started_def using a(3,5) b(1,3,5,7) by simp
qed

lemma started_fails:
  assumes "started env ss r (Inl e, r')"
  shows "started env (ss @ ss') r (Inl e, r')"
  using assms unfolding started_def by auto

lemma startEach_list:
  assumes "\<And>s r. s \<in> set ss \<Longrightarrow> managed r \<Longrightarrow> \<exists>res. startEach env [s] r = Some res \<and> started env [s] r res"
    and "managed r"
  shows "\<exists>res. startEach env ss r = Some res \<and> started env ss r res"
  using assms
proof (induction ss arbitrary: r)
  case Nil
  then show ?case by (simp add: startEach_simps started_refl)
next
  case (Cons s ss)
  from Cons.prems obtain res where res: "startEach env [s] r = Some res" "started env [s] r res" by force
  show ?case
  proof (cases "fst res")
    case (Inl e)
    then have "started env (s # ss) r res"
      using res(2) started_fails [of env "[s]" r e "snd res" ss] by (cases res) simp
    then show ?thesis using res Inl by (subst startEach_Cons) auto
  next
    case (Inr u)
    then have "managed (snd res)" using res by (simp add: started_def)
    with Cons obtain res' where res': "startEach env ss (snd res) = Some res'" "started env ss (snd res) res'"
      by force
    have "started env ([s] @ ss) r res'" by (rule started_append [OF _ res'(2)]) (use res Inr in \<open>cases res, auto\<close>)
    then show ?thesis using res res' Inr by (subst startEach_Cons) auto
  qed
qed

lemma started_self:
  assumes "started env (prereq env s) r (Inr (), r')" "started env [s] r' res"
  shows "started env [s] r res"
proof -
  have "(p, s) \<in> (dep_rel env)\<^sup>*" if "p \<in> set (prereq env s)" for p using that by (auto simp: dep_rel_def)
  then show ?thesis using assms unfolding started_def
    by simp (meson can_start_prereq rtrancl_trans)
qed

lemma startEach_single:
  assumes "wf (dep_rel env)" "managed r"
  shows "\<exists>res. startEach env [s] r = Some res \<and> started env [s] r res"
  using assms
proof (induction s arbitrary: r rule: wf_induct_rule)
  case (less s)
  show ?case
  proof (cases "up r s")
    case True
    then show ?thesis using less.prems by (simp add: startEach_simps started_refl)
  next
    case False
    from less obtain res where res: "startEach env (prereq env s) r = Some res" "started env (prereq env s) r res"
      using startEach_list [of "prereq env s" env r] by (auto simp: dep_rel_def)
    show ?thesis
    proof (cases "fst res")
      case (Inl e)
      then have "started env [s] r res"
        using res(2) unfolding started_def
        by simp (metis can_start_prereq dep_rel_def mem_Collect_eq case_prodI rtrancl.rtrancl_into_rtrancl)
      then show ?thesis using res Inl False by (auto simp: startEach_simps)
    next
      case (Inr u)
      have cyclic: "(s, p) \<notin> (dep_rel env)\<^sup>*" if "p \<in> set (prereq env s)" for p
        using wf_acyclic [OF assms(1)] that rtrancl_into_trancl1 [of s p "dep_rel env" s]
        by (auto simp: acyclic_def dep_rel_def)
      have "started env [s] (snd res) (start_self env s (snd res))"
        by (rule start_self_result) (use res(2) Inr False cyclic in \<open>auto simp: started_def\<close>)
      then have started: "started env [s] r (start_self env s (snd res))"
        by (intro started_self [of env s r "snd res"]) (use res(2) Inr in \<open>cases res, auto\<close>)
      have "startEach env [s] r = Some (start_self env s (snd res))"
        using res Inr False by (cases "start_self env s (snd res)"; cases "fst (start_self env s (snd res))") (auto simp: startEach_simps)
      with started show ?thesis by blast
    qed
  qed
qed

lemma maybeRun_result:
  assumes "wf (dep_rel env)" "managed r"
  shows "\<exists>res. maybeRun env s r = Some res
    \<and> (if shouldStart env s then started env [s] r res else res = (Inr (), r))"
  using startEach_single [OF assms, of s] started_refl [OF assms(2), of "[s]"]
  by (auto simp: maybeRun_def triggerStartup_def isRunning_def)

subsection \<open>All steps\<close>

text \<open>
  Startup of subsystems, on the main thread, and terminations, on the threads of the subsystems,
  in any order; each holds the lock.
\<close>

inductive runner_step :: "Subsystems \<Rightarrow> Runner \<Rightarrow> Runner \<Rightarrow> bool" for env where
  step_start: "maybeRun env s r = Some res \<Longrightarrow> runner_step env r (snd res)"
| step_terminates: "up r s \<Longrightarrow> runner_step env r (terminates (s, p) r)"
| step_shutdown: "runner_step env r (shutdownAll r)"
| step_emergency: "runner_step env r (triggerEmergency b r)"

lemma managed_start_self: "managed r \<Longrightarrow> \<not> up r s \<Longrightarrow> managed (snd (start_self env s r))"
  by (simp add: start_self_def Let_def susy_triggerShutdown_def managed_append split: StartOutcome.split)

lemma terminates_result:
  "terminates (s, p) r = r\<lparr>up := (up r)(s := False), running := removeAll s (running r),
     emergency := emergency r \<or> (p \<noteq> None \<and> p \<noteq> Some []),
     told := \<lambda>x. told r x \<or> x \<in> set (removeAll s (running r))\<rparr>"
  by (simp add: terminates_def sigTerm_def triggerEmergency_def shutdownAll_result Let_def)

lemma managed_terminates: "managed r \<Longrightarrow> managed (terminates t r)"
  by (cases t) (auto simp: terminates_result managed_def distinct_removeAll)

definition runner_reachable :: "Subsystems \<Rightarrow> Runner \<Rightarrow> bool" where
  "runner_reachable env r \<longleftrightarrow> (runner_step env)\<^sup>*\<^sup>* SubsystemRunner_new r"

lemma runner_reachable_managed:
  assumes "wf (dep_rel env)" "runner_reachable env r"
  shows "managed r"
  using assms(2) unfolding runner_reachable_def
proof (induction rule: rtranclp_induct)
  case base
  show ?case by (simp add: managed_def SubsystemRunner_new_def)
next
  case (step r r')
  from step.hyps(2) show ?case
  proof cases
    case (step_start s res)
    with maybeRun_result [OF assms(1) step.IH, of s] step.IH show ?thesis
      by (auto split: if_splits dest: startedD(1))
  qed (use step.IH in \<open>auto simp: managed_terminates shutdownAll_result triggerEmergency_def\<close>)
qed

lemma fold_terminates:
  "running (fold terminates ts r) = filter (\<lambda>s. s \<notin> fst ` set ts) (running r)"
  "emergency (fold terminates ts r) \<longleftrightarrow> emergency r \<or> (\<exists>t\<in>set ts. snd t \<noteq> None \<and> snd t \<noteq> Some [])"
  "managed r \<Longrightarrow> managed (fold terminates ts r)"
proof (induction ts arbitrary: r)
  case (Cons t ts)
  { case 1 show ?case
      by (cases t) (auto simp: Cons(1) terminates_result removeAll_filter_not_eq intro: filter_cong) }
  { case 2 show ?case by (cases t) (auto simp: Cons(2) terminates_result) }
  { case 3 then show ?case by (simp add: Cons(3) managed_terminates) }
qed simp_all

lemma fold_terminates_told:
  assumes "ts \<noteq> []" "s \<in> set (running (fold terminates ts r))"
  shows "told (fold terminates ts r) s"
  using assms
proof (induction ts rule: rev_induct)
  case (snoc t ts)
  then show ?case by (cases t) (simp add: terminates_result)
qed simp

lemma wait_result: "wait r = (if running r \<noteq> [] \<and> \<not> emergency r then None else Some (emergency r))"
  by (simp add: wait_def allDead_def isEmergency_def)

lemma main_wf: "prereq env = (\<lambda>_. []) \<Longrightarrow> wf (dep_rel (main_dependencies env))"
proof (rule wf_subset)
  show "wf (measure (\<lambda>s. if s = lumigui then 3 else if s = player then 2 else if s \<in> {engine, session} then 0 else (1::nat)))"
    by simp
qed (auto simp: dep_rel_def main_dependencies_def depends_def main_sids split: if_splits)

definition main_env :: Subsystems where
  "main_env = main_dependencies \<lparr>prereq = \<lambda>_. [], shouldStart = \<lambda>_. True, start_outcome = \<lambda>_. StartsUp\<rparr>"

lemma main_env_wf: "wf (dep_rel main_env)"
  unfolding main_env_def by (rule main_wf) simp

lemma main_env_starts:
  "main_start main_env main_started (init AppState_new) = Some (Inr (),
     \<lparr>subsystems = Some \<lparr>emergency = False, running = [session, playOut, engine, netNode, player, lumigui, script],
        up = (\<lambda>_. False)(session := True, playOut := True, engine := True, netNode := True,
          player := True, lumigui := True, script := True), told = \<lambda>_. False\<rparr>,
      app_emergency = False, core_up = True\<rparr>)"
  by (simp add: main_started_def init_def AppState_new_def SubsystemRunner_new_def maybeStart_def maybeRun_def
      triggerStartup_def isRunning_def startEach_simps start_self_def Let_def main_env_def main_dependencies_def
      depends_def main_sids fun_upd_twist)

text \<open>C28: Startup respects the dependencies. With dependencies free of cycles, and whatever was started
  and ended before, a request to start a subsystem returns. Nothing running is stopped by it, only
  what the subsystem depends on is started with it, and what is up is what the runner manages, also
  when an error is thrown. When it succeeds, the requested subsystem is up unless it declined to
  start; everything that runs has been started after all its prerequisites, if this was so before.
  It succeeds whenever all subsystems it depends on can be started.
\<close>

theorem startup_respects_dependencies:
  assumes "wf (dep_rel env)" "runner_reachable env r"
  shows "\<exists>res. maybeRun env s r = Some res
    \<and> (\<forall>x. up r x \<longrightarrow> up (snd res) x)
    \<and> (\<forall>x. up (snd res) x \<longrightarrow> up r x \<or> (x, s) \<in> (dep_rel env)\<^sup>*)
    \<and> set (running (snd res)) = {x. up (snd res) x} \<and> distinct (running (snd res))
    \<and> (fst res = Inr () \<longrightarrow>
         (shouldStart env s \<longrightarrow> up (snd res) s \<or> start_outcome env s = NotStarted)
         \<and> (in_order env r \<longrightarrow> in_order env (snd res)))
    \<and> (can_start env s \<longrightarrow> fst res = Inr ())"
proof -
  have r: "managed r" by (rule runner_reachable_managed [OF assms])
  obtain res where res: "maybeRun env s r = Some res"
    "if shouldStart env s then started env [s] r res else res = (Inr (), r)"
    using maybeRun_result [OF assms(1) r] by blast
  show ?thesis
  proof (cases "shouldStart env s")
    case True
    then have "started env [s] r res" using res(2) by simp
    note startedD [OF this]
    then show ?thesis using res(1) by (auto simp: managed_def)
  qed (use res r in \<open>auto simp: managed_def\<close>)
qed

theorem startup_respects_dependencies_witness:
  "\<exists>res. maybeRun main_env lumigui SubsystemRunner_new = Some res \<and> fst res = Inr ()
     \<and> up (snd res) lumigui \<and> in_order main_env (snd res)"
proof -
  have *: "runner_reachable main_env SubsystemRunner_new" by (simp add: runner_reachable_def)
  have "can_start main_env lumigui" "shouldStart main_env lumigui" "start_outcome main_env lumigui = StartsUp"
    "in_order main_env SubsystemRunner_new"
    by (simp_all add: can_start_def main_env_def main_dependencies_def depends_def in_order_def managed_def SubsystemRunner_new_def)
  then show ?thesis using startup_respects_dependencies [OF main_env_wf *, of lumigui] by force
qed

text \<open>C29: Shutdown completes. From any state the runner reaches, let some subsystems terminate, each with
  or without a problem. The runner then manages exactly the others; after the first termination all of
  these have been told to shut down. The application exits as soon as none is left, or earlier in an
  emergency, which is when one of them reported a problem (or an emergency was declared before), and
  its exit code tells which.
\<close>

theorem shutdown_completes:
  fixes ts :: "(sid \<times> string option) list"
  assumes "wf (dep_rel env)" "runner_reachable env r"
  defines "r' \<equiv> fold terminates ts r"
    and "problem \<equiv> emergency r \<or> (\<exists>t\<in>set ts. snd t \<noteq> None \<and> snd t \<noteq> Some [])"
  shows "set (running r') = {s. up r s \<and> s \<notin> fst ` set ts} \<and> (\<forall>s. up r' s \<longleftrightarrow> s \<in> set (running r'))
    \<and> (ts \<noteq> [] \<longrightarrow> (\<forall>s\<in>set (running r'). told r' s))
    \<and> maybeWait \<lparr>subsystems = Some r', app_emergency = False, core_up = True\<rparr> =
        (if {s. up r s} \<subseteq> fst ` set ts \<or> problem
         then Some (if problem then CLEAN_EMERGENCY_EXIT else NORMAL_EXIT,
                    \<lparr>subsystems = None, app_emergency = problem, core_up = True\<rparr>)
         else None)"
proof -
  have r: "managed r" by (rule runner_reachable_managed [OF assms(1,2)])
  have running: "set (running r') = {s. up r s \<and> s \<notin> fst ` set ts}"
    using r by (auto simp: r'_def fold_terminates managed_def)
  then have empty: "running r' = [] \<longleftrightarrow> {s. up r s} \<subseteq> fst ` set ts" by (auto simp flip: set_empty)
  have "emergency r' = problem" by (simp add: r'_def problem_def fold_terminates)
  moreover have "\<forall>s. up r' s \<longleftrightarrow> s \<in> set (running r')"
    using fold_terminates(3) [OF r, of ts] by (auto simp: r'_def managed_def)
  moreover have "ts \<noteq> [] \<longrightarrow> (\<forall>s\<in>set (running r'). told r' s)"
    using fold_terminates_told by (auto simp: r'_def)
  ultimately show ?thesis using running by (auto simp: maybeWait_def wait_result empty)
qed

lemma main_env_netNode:
  "maybeRun main_env netNode SubsystemRunner_new = Some (Inr (),
     \<lparr>emergency = False, running = [session, engine, netNode],
      up = (\<lambda>_. False)(session := True, engine := True, netNode := True), told = \<lambda>_. False\<rparr>)"
  by (simp add: SubsystemRunner_new_def maybeRun_def triggerStartup_def isRunning_def startEach_simps start_self_def
      Let_def main_env_def main_dependencies_def depends_def main_sids fun_upd_twist)

theorem shutdown_completes_witness:
  "let r = \<lparr>emergency = False, running = [session, engine, netNode],
      up = (\<lambda>_. False)(session := True, engine := True, netNode := True), told = \<lambda>_. False\<rparr>;
       r' = fold terminates [(session, Some ''crash''), (netNode, None)] r
   in set (running r') = {engine} \<and> told r' engine
     \<and> fst (the (maybeWait \<lparr>subsystems = Some r', app_emergency = False, core_up = True\<rparr>)) = CLEAN_EMERGENCY_EXIT"
proof -
  have "runner_step main_env SubsystemRunner_new (snd (Inr () :: unit result,
     \<lparr>emergency = False, running = [session, engine, netNode],
      up = (\<lambda>_. False)(session := True, engine := True, netNode := True), told = \<lambda>_. False\<rparr>))"
    by (rule step_start [OF main_env_netNode])
  then have "runner_reachable main_env \<lparr>emergency = False, running = [session, engine, netNode],
      up = (\<lambda>_. False)(session := True, engine := True, netNode := True), told = \<lambda>_. False\<rparr>"
    by (simp add: runner_reachable_def)
  from shutdown_completes [OF main_env_wf this, of "[(session, Some ''crash''), (netNode, None)]"]
  show ?thesis by (auto simp: Let_def main_sids)
qed

text \<open>
  A subsystem started after another one has ended, while the main thread is still in startup, is
  not told: neither a termination nor an emergency keeps \<open>maybeRun\<close> from starting more.
\<close>

lemma late_start_not_told:
  assumes "managed r" "up r s" "\<not> up r x" "\<not> told r x" "shouldStart env x" "prereq env x = []" "start_outcome env x = StartsUp"
    and "x \<noteq> s"
  shows "\<exists>r'. maybeRun env x (terminates (s, Some ''crash'') r) = Some (Inr (), r')
    \<and> emergency r' \<and> up r' x \<and> \<not> told r' x"
  using assms
  by (auto simp: maybeRun_def triggerStartup_def isRunning_def startEach_simps start_self_def Let_def
      terminates_result managed_def)

end
