(* ===== verification/TextTemplate.thy ===== *)
theory TextTemplate
  imports IterExplorer "HOL-Library.Sublist"
begin

text \<open>
  The text template engine of \<open>lib/text-template.hpp\<close>: the tag syntax, which the code accepts with a
  regular expression and the model with a hand written matcher for the same language and match
  priority, and the compiler from tags to a flat sequence of actions with jumps. It is shown which
  sequences of tags compile, and to which code, in terms of templates as nested blocks.
\<close>

subsection \<open>Matching the markup\<close>

definition is_space :: "char \<Rightarrow> bool" where
  "is_space c \<longleftrightarrow> c \<in> {CHR '' '', CHR 0x09, CHR 0x0A, CHR 0x0B, CHR 0x0C, CHR 0x0D}"

definition is_key_start :: "char \<Rightarrow> bool" where
  "is_key_start c \<longleftrightarrow> (let n = of_char c :: nat in 65 \<le> n \<and> n \<le> 90 \<or> 97 \<le> n \<and> n \<le> 122 \<or> n = 95)"

definition is_word :: "char \<Rightarrow> bool" where
  "is_word c \<longleftrightarrow> is_key_start c \<or> (let n = of_char c :: nat in 48 \<le> n \<and> n \<le> 57)"

definition skip_space :: "string \<Rightarrow> string" where
  "skip_space = dropWhile is_space"

definition strip_prefix :: "string \<Rightarrow> string \<Rightarrow> string option" where
  "strip_prefix p s = (if take (length p) s = p then Some (drop (length p) s) else None)"

definition match_single_key :: "string \<Rightarrow> (string \<times> string) option" where
  "match_single_key s = (case s of
     [] \<Rightarrow> None
   | c # cs \<Rightarrow> if is_key_start c then Some (c # takeWhile is_word cs, dropWhile is_word cs) else None)"

lemma match_single_key_length:
  "match_single_key s = Some (k, r) \<Longrightarrow> length r < length s"
  by (auto simp: match_single_key_def length_dropWhile_le le_imp_less_Suc split: list.splits if_splits)

function match_key_tail :: "string \<Rightarrow> string \<times> string" where
  "match_key_tail s = (case s of
     [] \<Rightarrow> ([], [])
   | c # cs \<Rightarrow> if c \<noteq> CHR ''.'' then ([], s)
       else (case match_single_key cs of
           None \<Rightarrow> ([], s)
         | Some (k, r) \<Rightarrow> let (p, r') = match_key_tail r in (CHR ''.'' # k @ p, r')))"
  by pat_completeness auto
termination match_key_tail
  by (relation "measure length") (auto dest!: match_single_key_length)

definition match_key_path :: "string \<Rightarrow> string option \<times> string" where
  "match_key_path s = (case match_single_key s of
     None \<Rightarrow> (None, s)
   | Some (k, r) \<Rightarrow> let (p, r') = match_key_tail r in (Some (k @ p), r'))"

text \<open>The sub-matches, with the length of the text matched and the text behind it.\<close>

record Match =
  mat_escape :: bool
  mat_else :: bool
  mat_end :: bool
  mat_logic :: "string option"
  mat_key :: "string option"
  mat_length :: nat
  mat_suffix :: string

definition no_match :: Match where
  "no_match = \<lparr>mat_escape = False, mat_else = False, mat_end = False, mat_logic = None, mat_key = None,
     mat_length = 0, mat_suffix = []\<rparr>"

definition match_close :: "Match \<Rightarrow> string \<Rightarrow> Match option" where
  "match_close m s = (case skip_space s of
     [] \<Rightarrow> None
   | c # cs \<Rightarrow> if c = CHR ''}'' then Some (m\<lparr>mat_suffix := cs\<rparr>) else None)"

definition match_key_close :: "Match \<Rightarrow> string \<Rightarrow> Match option" where
  "match_key_close m s = (let (k, r) = match_key_path s in match_close (m\<lparr>mat_key := k\<rparr>) r)"

definition match_logic :: "string \<Rightarrow> (string \<times> string) option" where
  "match_logic s = (case strip_prefix ''if'' s of
     Some r \<Rightarrow> Some (''if'', skip_space r)
   | None \<Rightarrow> map_option (\<lambda>r. (''for'', skip_space r)) (strip_prefix ''for'' s))"

definition match_clause :: "string \<Rightarrow> (bool \<times> string \<times> string) option" where
  "match_clause s = (case Option.bind (map_option skip_space (strip_prefix ''end'' s)) match_logic of
     Some (l, r) \<Rightarrow> Some (True, l, r)
   | None \<Rightarrow> map_option (\<lambda>(l, r). (False, l, r)) (match_logic s))"

definition match_syntax :: "string \<Rightarrow> Match option" where
  "match_syntax s =
     (case Option.bind (strip_prefix ''else'' s) (match_close (no_match\<lparr>mat_else := True\<rparr>)) of
        Some m \<Rightarrow> Some m
      | None \<Rightarrow>
          (case Option.bind (match_clause s)
                  (\<lambda>(e, l, r). match_key_close (no_match\<lparr>mat_end := e, mat_logic := Some l\<rparr>) r) of
             Some m \<Rightarrow> Some m
           | None \<Rightarrow> match_key_close no_match s))"

definition match_field :: "string \<Rightarrow> Match option" where
  "match_field s = Option.bind (strip_prefix ''${'' s) (\<lambda>r. match_syntax (skip_space r))"

definition match_escape :: "string \<Rightarrow> Match option" where
  "match_escape s = map_option (\<lambda>r. no_match\<lparr>mat_escape := True, mat_suffix := r\<rparr>)
     (strip_prefix [CHR 0x5C, CHR ''$''] s)"

definition match_markup :: "string \<Rightarrow> Match option" where
  "match_markup s = map_option (\<lambda>m. m\<lparr>mat_length := length s - length (mat_suffix m)\<rparr>)
     (case match_escape s of Some m \<Rightarrow> Some m | None \<Rightarrow> match_field s)"

text \<open>The search for the next match, and all of them.\<close>

fun search_markup :: "string \<Rightarrow> Match option" where
  "search_markup s = (case match_markup s of
     Some m \<Rightarrow> Some m
   | None \<Rightarrow> (case s of [] \<Rightarrow> None | _ # cs \<Rightarrow> search_markup cs))"

declare search_markup.simps [simp del] match_key_tail.simps [simp del]

lemma strip_prefix_Some: "strip_prefix p s = Some r \<longleftrightarrow> s = p @ r"
  by (auto simp: strip_prefix_def) (metis append_take_drop_id)

lemma skip_space_length: "length (skip_space s) \<le> length s"
  by (simp add: skip_space_def length_dropWhile_le)

text \<open>What a matcher leaves is a suffix of its input.\<close>

lemma strip_prefix_suffix: "strip_prefix p s = Some r \<Longrightarrow> suffix r s"
  by (auto simp: strip_prefix_Some suffix_def)

lemma skip_space_suffix: "suffix (skip_space s) s"
  by (simp add: skip_space_def suffix_dropWhile)

lemma match_single_key_suffix: "match_single_key s = Some (k, r) \<Longrightarrow> suffix r s"
  by (auto simp: match_single_key_def suffix_ConsI suffix_dropWhile split: list.splits if_splits)

lemma match_key_tail_suffix: "match_key_tail s = (p, r) \<Longrightarrow> suffix r s"
proof (induction s arbitrary: p r rule: match_key_tail.induct)
  case (1 s)
  show ?case
  proof (cases s)
    case Nil
    then show ?thesis using 1(2) by (simp add: match_key_tail.simps)
  next
    case (Cons c cs)
    show ?thesis
    proof (cases "c = CHR ''.'' \<and> match_single_key cs \<noteq> None")
      case True
      then obtain k r' where k: "match_single_key cs = Some (k, r')" by auto
      obtain p' r'' where t: "match_key_tail r' = (p', r'')" by fastforce
      from t Cons True k 1(2) have "r = r''" by (simp add: match_key_tail.simps [of "CHR ''.'' # cs"])
      moreover have "suffix r'' r'" using 1(1) [OF Cons _ k, of k r' p' r''] True t by simp
      ultimately show ?thesis
        using match_single_key_suffix [OF k] Cons by (auto intro: suffix_ConsI suffix_order.trans)
    next
      case False
      then show ?thesis using 1(2) Cons
        by (cases "match_single_key cs") (auto simp: match_key_tail.simps [of "c # cs"] split: if_splits)
    qed
  qed
qed

lemma match_key_path_suffix: "match_key_path s = (k, r) \<Longrightarrow> suffix r s"
  by (auto simp: match_key_path_def split: option.splits prod.splits
      dest!: match_single_key_suffix match_key_tail_suffix intro: suffix_order.trans)

lemma match_close_suffix: "match_close m s = Some m' \<Longrightarrow> strict_suffix (mat_suffix m') s"
  using skip_space_suffix [of s]
  by (auto simp: match_close_def strict_suffix_def split: list.splits if_splits dest: suffix_ConsD)
    (metis not_Cons_self2 suffix_order.antisym suffix_ConsD suffix_order.refl)

lemma match_key_close_suffix: "match_key_close m s = Some m' \<Longrightarrow> strict_suffix (mat_suffix m') s"
  by (auto simp: match_key_close_def split: prod.splits
      dest!: match_close_suffix match_key_path_suffix intro: suffix_order.less_le_trans)

lemma match_logic_suffix: "match_logic s = Some (l, r) \<Longrightarrow> suffix r s"
  by (auto simp: match_logic_def split: option.splits dest!: strip_prefix_suffix
      intro: suffix_order.trans [OF skip_space_suffix])

lemma match_clause_suffix: "match_clause s = Some (e, l, r) \<Longrightarrow> suffix r s"
  by (auto simp: match_clause_def bind_eq_Some_conv split: option.splits dest!: strip_prefix_suffix match_logic_suffix)
    (meson skip_space_suffix suffix_order.trans)

lemma match_syntax_suffix: "match_syntax s = Some m \<Longrightarrow> strict_suffix (mat_suffix m) s"
  by (auto simp: match_syntax_def bind_eq_Some_conv split: option.splits
      dest!: match_clause_suffix match_close_suffix match_key_close_suffix strip_prefix_suffix
      intro: suffix_order.less_le_trans)

lemma match_field_suffix: "match_field s = Some m \<Longrightarrow> strict_suffix (mat_suffix m) s"
  by (auto simp: match_field_def bind_eq_Some_conv dest!: match_syntax_suffix strip_prefix_suffix)
    (meson skip_space_suffix suffix_order.trans suffix_order.less_le_trans)

lemma match_escape_suffix: "match_escape s = Some m \<Longrightarrow> strict_suffix (mat_suffix m) s"
  by (auto simp: match_escape_def strip_prefix_Some strict_suffix_def suffix_def)

text \<open>A match found: where it starts, and that none starts before.\<close>

lemma match_markup_suffix:
  assumes "match_markup s = Some m"
  shows "\<exists>t. s = t @ mat_suffix m \<and> t \<noteq> [] \<and> mat_length m = length t"
proof -
  obtain m' where m': "(case match_escape s of Some m \<Rightarrow> Some m | None \<Rightarrow> match_field s) = Some m'"
    "m = m'\<lparr>mat_length := length s - length (mat_suffix m')\<rparr>"
    using assms by (auto simp: match_markup_def)
  then have "strict_suffix (mat_suffix m') s"
    by (auto split: option.splits dest: match_escape_suffix match_field_suffix)
  then show ?thesis using m'(2) by (auto simp: strict_suffix_def suffix_def)
qed

lemma search_markup_Some:
  "search_markup s = Some m \<Longrightarrow> \<exists>p t. s = p @ t @ mat_suffix m \<and> t \<noteq> [] \<and> mat_length m = length t
     \<and> match_markup (t @ mat_suffix m) = Some m"
proof (induction s)
  case Nil
  then show ?case by (auto simp: search_markup.simps [of "[]"] split: option.splits dest: match_markup_suffix)
next
  case (Cons c s)
  show ?case
  proof (cases "match_markup (c # s)")
    case None
    then have "search_markup s = Some m" using Cons.prems by (simp add: search_markup.simps [of "c # s"])
    from Cons.IH [OF this] show ?thesis by (metis append_Cons)
  next
    case (Some m')
    then have "m' = m" using Cons.prems by (simp add: search_markup.simps [of "c # s"])
    with Some match_markup_suffix [OF Some] show ?thesis by (metis append_Nil)
  qed
qed

function markup_matches :: "string \<Rightarrow> Match list" where
  "markup_matches s = (case search_markup s of None \<Rightarrow> [] | Some m \<Rightarrow> m # markup_matches (mat_suffix m))"
  by pat_completeness auto
termination markup_matches
  by (relation "measure length") (auto dest!: search_markup_Some)

declare markup_matches.simps [simp del]

subsection \<open>The tags\<close>

datatype Keyword = ESCAPE | KEYID | IF | END_IF | FOR | END_FOR | ELSE

record TagSyntax =
  tag_syntax :: Keyword
  tag_lead :: string
  tag_tail :: string
  tag_key :: string

text \<open>
  \<open>classify\<close> keeps the rest of the input, from which the text before the match is cut; the lengths
  count from the end.
\<close>

definition classify_field :: "Match \<Rightarrow> Keyword result" where
  "classify_field mat = (case mat_logic mat of
     Some l \<Rightarrow>
       if l = ''if'' then Inr (if mat_end mat then END_IF else IF)
       else if l = ''for'' then Inr (if mat_end mat then END_FOR else FOR)
       else Inl (Err Logic ''unexpected keyword'')
   | None \<Rightarrow>
       if mat_else mat then Inr ELSE
       else if mat_key mat = Some ''end'' then Inl (Err Invalid ''unqualified end without logic-keyword'')
       else Inr KEYID)"

definition classify :: "string \<Rightarrow> Match \<Rightarrow> TagSyntax result \<times> string" where
  "classify rest mat =
     (let restAhead = mat_length mat + length (mat_suffix mat);
          pre = length rest - restAhead;
          lead = take pre rest;
          rest = drop (length lead) rest;
          key = (case mat_key mat of Some k \<Rightarrow> k | None \<Rightarrow> [])
      in if mat_escape mat
         then let rest = drop 1 rest
              in (Inr \<lparr>tag_syntax = ESCAPE, tag_lead = lead, tag_tail = rest, tag_key = key\<rparr>, rest)
         else let rest = drop (mat_length mat) rest
              in (bind_result (classify_field mat) (\<lambda>syntax.
                    Inr \<lparr>tag_syntax = syntax, tag_lead = lead, tag_tail = rest, tag_key = key\<rparr>), rest))"

text \<open>The pipeline evaluates \<open>classify\<close> when the next tag is pulled; an error is then thrown.\<close>

fun classify_all :: "string \<Rightarrow> Match list \<Rightarrow> TagSyntax result list" where
  "classify_all rest [] = []"
| "classify_all rest (mat # ms) = fst (classify rest mat) # classify_all (snd (classify rest mat)) ms"

definition parse :: "string \<Rightarrow> TagSyntax result list" where
  "parse input = classify_all input (markup_matches input)"

subsection \<open>The compiler\<close>

datatype Clause = IF_CLAUSE | FOR_CLAUSE

datatype Code = TEXT | KEY | COND | JUMP | ITER | LOOP

record ParseCtx =
  ctx_clause :: Clause
  ctx_begin :: nat
  ctx_after :: nat

record Action =
  act_code :: Code
  act_val :: string
  act_ref :: nat

type_synonym ActionSeq = "Action list"

text \<open>The innermost scope is the head of the list.\<close>

type_synonym ScopeStack = "ParseCtx list"

definition add :: "Code \<Rightarrow> string \<Rightarrow> ActionSeq \<Rightarrow> ActionSeq" where
  "add c v actions = actions @ [\<lparr>act_code = c, act_val = v, act_ref = 0\<rparr>]"

definition addCode :: "Code \<Rightarrow> TagSyntax \<Rightarrow> ActionSeq \<Rightarrow> ActionSeq" where
  "addCode c t = add c (tag_key t)"

definition addLead :: "TagSyntax \<Rightarrow> ActionSeq \<Rightarrow> ActionSeq" where
  "addLead t = add TEXT (tag_lead t)"

definition openScope :: "Clause \<Rightarrow> ActionSeq \<Rightarrow> ScopeStack \<Rightarrow> ScopeStack" where
  "openScope c actions scope = \<lparr>ctx_clause = c, ctx_begin = length actions, ctx_after = 0\<rparr> # scope"

definition beginIdx :: "ScopeStack \<Rightarrow> nat" where
  "beginIdx scope = (case scope of [] \<Rightarrow> 0 | ctx # _ \<Rightarrow> ctx_begin ctx)"

definition scopeKey :: "ActionSeq \<Rightarrow> ScopeStack \<Rightarrow> string" where
  "scopeKey actions scope =
     (if 0 < beginIdx scope \<and> beginIdx scope < length actions then act_val (actions ! beginIdx scope) else [])"

definition keyMatch :: "TagSyntax \<Rightarrow> ActionSeq \<Rightarrow> ScopeStack \<Rightarrow> bool" where
  "keyMatch t actions scope \<longleftrightarrow> tag_key t = [] \<or> tag_key t = scopeKey actions scope"

definition clauseMatch :: "Clause \<Rightarrow> ScopeStack \<Rightarrow> bool" where
  "clauseMatch c scope \<longleftrightarrow> (case scope of [] \<Rightarrow> False | ctx # _ \<Rightarrow> ctx_clause ctx = c)"

definition requireKey :: "TagSyntax \<Rightarrow> unit result" where
  "requireKey t = (if tag_key t = [] then Inl (Err Invalid ''Tag without key'') else Inr ())"

definition checkBalanced :: "Clause \<Rightarrow> TagSyntax \<Rightarrow> ActionSeq \<Rightarrow> ScopeStack \<Rightarrow> unit result" where
  "checkBalanced c t actions scope =
     (if clauseMatch c scope \<and> keyMatch t actions scope then Inr () else Inl (Err Invalid ''Unbalanced Logic''))"

definition checkInScope :: "ScopeStack \<Rightarrow> unit result" where
  "checkInScope scope = (if scope = [] then Inl (Err Invalid ''Misplaced else'') else Inr ())"

definition checkNoDup :: "ScopeStack \<Rightarrow> unit result" where
  "checkNoDup scope = (if ctx_after (hd scope) \<noteq> 0 then Inl (Err Invalid ''Conflicting else'') else Inr ())"

definition checkClosed :: "ScopeStack \<Rightarrow> unit result" where
  "checkClosed scope = (if scope \<noteq> [] then Inl (Err Invalid ''Unclosed Logic tags'') else Inr ())"

definition set_ref :: "nat \<Rightarrow> nat \<Rightarrow> ActionSeq \<Rightarrow> ActionSeq" where
  "set_ref i r actions = actions[i := (actions ! i)\<lparr>act_ref := r\<rparr>]"

definition linkElseToStart :: "ScopeStack \<Rightarrow> ActionSeq \<Rightarrow> ActionSeq" where
  "linkElseToStart scope actions = set_ref (beginIdx scope) (length actions) actions"

definition markJumpInScope :: "ActionSeq \<Rightarrow> ScopeStack \<Rightarrow> ScopeStack" where
  "markJumpInScope actions scope = (hd scope)\<lparr>ctx_after := length actions\<rparr> # tl scope"

definition linkLoopBack :: "ScopeStack \<Rightarrow> ActionSeq \<Rightarrow> ActionSeq" where
  "linkLoopBack scope actions = set_ref (length actions - 1) (ctx_begin (hd scope)) actions"

definition linkJumpToNext :: "ScopeStack \<Rightarrow> ActionSeq \<Rightarrow> ActionSeq" where
  "linkJumpToNext scope actions = set_ref (ctx_after (hd scope)) (length actions) actions"

definition hasElse :: "ScopeStack \<Rightarrow> bool" where
  "hasElse scope \<longleftrightarrow> ctx_after (hd scope) \<noteq> 0"

definition compile_tag :: "TagSyntax \<Rightarrow> ActionSeq \<times> ScopeStack \<Rightarrow> (ActionSeq \<times> ScopeStack) result" where
  "compile_tag t st = (case st of (actions, scope) \<Rightarrow>
     (let lead = addLead t actions in
      case tag_syntax t of
        ESCAPE \<Rightarrow> Inr (lead, scope)
      | KEYID \<Rightarrow> bind_result (requireKey t) (\<lambda>_. Inr (addCode KEY t lead, scope))
      | IF \<Rightarrow> bind_result (requireKey t) (\<lambda>_. Inr (addCode COND t lead, openScope IF_CLAUSE lead scope))
      | END_IF \<Rightarrow> bind_result (checkBalanced IF_CLAUSE t lead scope) (\<lambda>_.
          Inr (if hasElse scope then linkJumpToNext scope lead else linkElseToStart scope lead, tl scope))
      | FOR \<Rightarrow> bind_result (requireKey t) (\<lambda>_. Inr (addCode ITER t lead, openScope FOR_CLAUSE lead scope))
      | END_FOR \<Rightarrow> bind_result (checkBalanced FOR_CLAUSE t lead scope) (\<lambda>_.
          Inr (if hasElse scope then linkJumpToNext scope lead
               else linkElseToStart scope (linkLoopBack scope (addCode LOOP t lead)), tl scope))
      | ELSE \<Rightarrow> bind_result (checkInScope scope) (\<lambda>_. bind_result (checkNoDup scope) (\<lambda>_.
          if ctx_clause (hd scope) = IF_CLAUSE
          then let scope = markJumpInScope lead scope
               in Inr (linkElseToStart scope (addCode JUMP t lead), scope)
          else let loop = linkLoopBack scope (addCode LOOP t lead);
                   scope = markJumpInScope loop scope
               in Inr (linkElseToStart scope (addCode JUMP t loop), scope)))))"

text \<open>The last tag is followed by the text behind it.\<close>

fun buildActions :: "TagSyntax result list \<Rightarrow> ActionSeq \<times> ScopeStack \<Rightarrow> ActionSeq result" where
  "buildActions [] st = Inr (fst st)"
| "buildActions (Inl e # parseIter) st = Inl e"
| "buildActions (Inr t # parseIter) st =
     bind_result (compile_tag t st) (\<lambda>(actions, scope).
       if parseIter = []
       then let actions = add TEXT (tag_tail t) actions in bind_result (checkClosed scope) (\<lambda>_. Inr actions)
       else buildActions parseIter (actions, scope))"

definition compile :: "string \<Rightarrow> ActionSeq result" where
  "compile spec = bind_result (buildActions (parse spec) ([], [])) (\<lambda>code.
     if code = [] then Inl (Err Invalid ''TextTemplate spec without active placeholders'') else Inr code)"

subsection \<open>Templates as nested blocks\<close>

text \<open>
  The tags of a node, each with the text before it: a block with the tag that opens it, its body, and
  the tag that closes it; in between possibly an else tag and a second body.
\<close>

type_synonym tag = "Keyword \<times> string \<times> string"

datatype Node =
    EscNode string
  | KeyNode string string
  | Block Clause string string "Node list" string string
  | BlockElse Clause string string "Node list" string string "Node list" string string

definition open_kw :: "Clause \<Rightarrow> Keyword" where
  "open_kw c = (case c of IF_CLAUSE \<Rightarrow> IF | FOR_CLAUSE \<Rightarrow> FOR)"

definition close_kw :: "Clause \<Rightarrow> Keyword" where
  "close_kw c = (case c of IF_CLAUSE \<Rightarrow> END_IF | FOR_CLAUSE \<Rightarrow> END_FOR)"

fun tags_of :: "Node list \<Rightarrow> tag list" where
  "tags_of [] = []"
| "tags_of (EscNode l # ns) = (ESCAPE, l, []) # tags_of ns"
| "tags_of (KeyNode l k # ns) = (KEYID, l, k) # tags_of ns"
| "tags_of (Block c l k body el ek # ns) =
     (open_kw c, l, k) # tags_of body @ (close_kw c, el, ek) # tags_of ns"
| "tags_of (BlockElse c l k body ml mk alt el ek # ns) =
     (open_kw c, l, k) # tags_of body @ (ELSE, ml, mk) # tags_of alt @ (close_kw c, el, ek) # tags_of ns"

text \<open>A key is given where it is needed, and the closing tag may repeat the key of the block.\<close>

fun wf_nodes :: "Node list \<Rightarrow> bool" where
  "wf_nodes [] = True"
| "wf_nodes (EscNode l # ns) = wf_nodes ns"
| "wf_nodes (KeyNode l k # ns) = (k \<noteq> [] \<and> wf_nodes ns)"
| "wf_nodes (Block c l k body el ek # ns) = (k \<noteq> [] \<and> ek \<in> {[], k} \<and> wf_nodes body \<and> wf_nodes ns)"
| "wf_nodes (BlockElse c l k body ml mk alt el ek # ns) =
     (k \<noteq> [] \<and> ek \<in> {[], k} \<and> wf_nodes body \<and> wf_nodes alt \<and> wf_nodes ns)"

text \<open>The code for a sequence of nodes that is placed at an index.\<close>

abbreviation act :: "Code \<Rightarrow> string \<Rightarrow> nat \<Rightarrow> Action" where
  "act c v r \<equiv> \<lparr>act_code = c, act_val = v, act_ref = r\<rparr>"

definition entry_code :: "Clause \<Rightarrow> Code" where
  "entry_code c = (case c of IF_CLAUSE \<Rightarrow> COND | FOR_CLAUSE \<Rightarrow> ITER)"

text \<open>What follows the body: the way back of a loop, and the jump over the other body.\<close>

definition body_end :: "nat \<Rightarrow> Clause \<Rightarrow> string \<Rightarrow> Action list" where
  "body_end b c k = (case c of IF_CLAUSE \<Rightarrow> [] | FOR_CLAUSE \<Rightarrow> [act LOOP k (b + 1)])"

fun code_at :: "nat \<Rightarrow> Node list \<Rightarrow> Action list" where
  "code_at b [] = []"
| "code_at b (EscNode l # ns) = act TEXT l 0 # code_at (b + 1) ns"
| "code_at b (KeyNode l k # ns) = act TEXT l 0 # act KEY k 0 # code_at (b + 2) ns"
| "code_at b (Block c l k body el ek # ns) =
     (let body' = code_at (b + 2) body @ act TEXT el 0 # body_end b c ek;
          e = b + 2 + length body'
      in act TEXT l 0 # act (entry_code c) k e # body' @ code_at e ns)"
| "code_at b (BlockElse c l k body ml mk alt el ek # ns) =
     (let body' = code_at (b + 2) body @ act TEXT ml 0 # body_end b c mk;
          a = b + 3 + length body';
          alt' = code_at a alt;
          e = a + length alt' + 1
      in act TEXT l 0 # act (entry_code c) k a # body' @ act JUMP mk e # alt' @ act TEXT el 0 # code_at e ns)"

lemma code_at_append: "code_at b (xs @ ys) = code_at b xs @ code_at (b + length (code_at b xs)) ys"
  by (induction b xs rule: code_at.induct) (simp_all add: Let_def numeral_eq_Suc add.assoc add.left_commute)

subsection \<open>Open blocks\<close>

text \<open>
  While the compiler is inside of blocks, the template so far is a list of finished nodes and,
  for each open block, what there is of it already.
\<close>

datatype Open =
    OpenBody Clause string string "Node list"
  | OpenAlt Clause string string "Node list" string string "Node list"

type_synonym partial = "Node list \<times> Open list"

fun open_code :: "nat \<Rightarrow> Open \<Rightarrow> Action list" where
  "open_code b (OpenBody c l k body) = act TEXT l 0 # act (entry_code c) k 0 # code_at (b + 2) body"
| "open_code b (OpenAlt c l k body ml mk alt) =
     (let body' = code_at (b + 2) body @ act TEXT ml 0 # body_end b c mk;
          a = b + 3 + length body'
      in act TEXT l 0 # act (entry_code c) k a # body' @ act JUMP mk 0 # code_at a alt)"

fun open_ctx :: "nat \<Rightarrow> Open \<Rightarrow> ParseCtx" where
  "open_ctx b (OpenBody c l k body) = \<lparr>ctx_clause = c, ctx_begin = b + 1, ctx_after = 0\<rparr>"
| "open_ctx b (OpenAlt c l k body ml mk alt) =
     \<lparr>ctx_clause = c, ctx_begin = b + 1, ctx_after = b + 2 + length (code_at (b + 2) body @ act TEXT ml 0 # body_end b c mk)\<rparr>"

fun partial_code :: "Node list \<Rightarrow> Open list \<Rightarrow> Action list" where
  "partial_code ns [] = code_at 0 ns"
| "partial_code ns (p # ps) = partial_code ns ps @ open_code (length (partial_code ns ps)) p"

fun partial_scope :: "Node list \<Rightarrow> Open list \<Rightarrow> ScopeStack" where
  "partial_scope ns [] = []"
| "partial_scope ns (p # ps) = open_ctx (length (partial_code ns ps)) p # partial_scope ns ps"

fun open_tags :: "Open \<Rightarrow> tag list" where
  "open_tags (OpenBody c l k body) = (open_kw c, l, k) # tags_of body"
| "open_tags (OpenAlt c l k body ml mk alt) = (open_kw c, l, k) # tags_of body @ (ELSE, ml, mk) # tags_of alt"

fun partial_tags :: "partial \<Rightarrow> tag list" where
  "partial_tags (ns, ps) = tags_of ns @ concat (map open_tags (rev ps))"

fun wf_open :: "Open \<Rightarrow> bool" where
  "wf_open (OpenBody c l k body) = (k \<noteq> [] \<and> wf_nodes body)"
| "wf_open (OpenAlt c l k body ml mk alt) = (k \<noteq> [] \<and> wf_nodes body \<and> wf_nodes alt)"

fun wf_partial :: "partial \<Rightarrow> bool" where
  "wf_partial (ns, ps) = (wf_nodes ns \<and> list_all wf_open ps)"

text \<open>A finished node joins the innermost open block.\<close>

fun into_open :: "Node \<Rightarrow> Open \<Rightarrow> Open" where
  "into_open n (OpenBody c l k body) = OpenBody c l k (body @ [n])"
| "into_open n (OpenAlt c l k body ml mk alt) = OpenAlt c l k body ml mk (alt @ [n])"

fun put_node :: "Node \<Rightarrow> partial \<Rightarrow> partial" where
  "put_node n (ns, []) = (ns @ [n], [])"
| "put_node n (ns, p # ps) = (ns, into_open n p # ps)"

fun open_clause :: "Open \<Rightarrow> Clause" where
  "open_clause (OpenBody c l k body) = c"
| "open_clause (OpenAlt c l k body ml mk alt) = c"

fun open_key :: "Open \<Rightarrow> string" where
  "open_key (OpenBody c l k body) = k"
| "open_key (OpenAlt c l k body ml mk alt) = k"

fun close_block :: "string \<Rightarrow> string \<Rightarrow> Open \<Rightarrow> Node" where
  "close_block el ek (OpenBody c l k body) = Block c l k body el ek"
| "close_block el ek (OpenAlt c l k body ml mk alt) = BlockElse c l k body ml mk alt el ek"

fun accept_tag :: "tag \<Rightarrow> partial \<Rightarrow> partial option" where
  "accept_tag (ESCAPE, l, k) z = Some (put_node (EscNode l) z)"
| "accept_tag (KEYID, l, k) z = (if k = [] then None else Some (put_node (KeyNode l k) z))"
| "accept_tag (IF, l, k) (ns, ps) = (if k = [] then None else Some (ns, OpenBody IF_CLAUSE l k [] # ps))"
| "accept_tag (FOR, l, k) (ns, ps) = (if k = [] then None else Some (ns, OpenBody FOR_CLAUSE l k [] # ps))"
| "accept_tag (ELSE, l, k) (ns, OpenBody c l' k' body # ps) = Some (ns, OpenAlt c l' k' body l k [] # ps)"
| "accept_tag (ELSE, l, k) z = None"
| "accept_tag (END_IF, l, k) (ns, p # ps) =
     (if open_clause p = IF_CLAUSE \<and> k \<in> {[], open_key p} then Some (put_node (close_block l k p) (ns, ps)) else None)"
| "accept_tag (END_FOR, l, k) (ns, p # ps) =
     (if open_clause p = FOR_CLAUSE \<and> k \<in> {[], open_key p} then Some (put_node (close_block l k p) (ns, ps)) else None)"
| "accept_tag t z = None"

definition tag_core :: "TagSyntax \<Rightarrow> tag" where
  "tag_core t = (tag_syntax t, tag_lead t, tag_key t)"

definition partial_state :: "partial \<Rightarrow> ActionSeq \<times> ScopeStack" where
  "partial_state z = (partial_code (fst z) (snd z), partial_scope (fst z) (snd z))"

lemma set_ref_append:
  "set_ref i r (xs @ ys) = (if i < length xs then set_ref i r xs @ ys else xs @ set_ref (i - length xs) r ys)"
  by (simp add: set_ref_def list_update_append nth_append)

lemma set_ref_simps [simp]:
  "set_ref 0 r (x # xs) = x\<lparr>act_ref := r\<rparr> # xs"
  "set_ref (Suc i) r (x # xs) = x # set_ref i r xs"
  by (simp_all add: set_ref_def)

lemma length_set_ref [simp]: "length (set_ref i r xs) = length xs"
  by (simp add: set_ref_def)

lemma open_code_into: "open_code b (into_open n p) = open_code b p @ code_at (b + length (open_code b p)) [n]"
  by (cases p) (simp_all add: code_at_append Let_def numeral_eq_Suc add.assoc add.left_commute)

lemma open_ctx_into: "open_ctx b (into_open n p) = open_ctx b p"
  by (cases p) simp_all

lemma tags_of_append: "tags_of (xs @ ys) = tags_of xs @ tags_of ys"
  by (induction xs rule: tags_of.induct) simp_all

lemma open_tags_into: "open_tags (into_open n p) = open_tags p @ tags_of [n]"
  by (cases p) (simp_all add: tags_of_append)

lemma put_node_state:
  "partial_state (put_node n z) =
     (fst (partial_state z) @ code_at (length (fst (partial_state z))) [n], snd (partial_state z))"
  by (cases "(n, z)" rule: put_node.cases)
    (simp_all add: partial_state_def code_at_append open_code_into open_ctx_into)

lemma put_node_pair:
  "partial_state (put_node n (ns, ps)) =
     (partial_code ns ps @ code_at (length (partial_code ns ps)) [n], partial_scope ns ps)"
  by (simp add: put_node_state) (simp add: partial_state_def)

text \<open>Each tag is accepted by the compiler exactly where it continues the nested template.\<close>

lemmas compile_defs = compile_tag_def addLead_def addCode_def add_def requireKey_def checkBalanced_def
  clauseMatch_def keyMatch_def scopeKey_def beginIdx_def checkInScope_def checkNoDup_def hasElse_def
  openScope_def linkElseToStart_def linkJumpToNext_def linkLoopBack_def markJumpInScope_def

lemma compile_tag_open:
  assumes "tag_core t = (kw, l, k)" "kw \<in> {ESCAPE, KEYID, IF, FOR}"
  shows "case accept_tag (kw, l, k) z of
      None \<Rightarrow> \<exists>e. compile_tag t (partial_state z) = Inl e
    | Some z' \<Rightarrow> compile_tag t (partial_state z) = Inr (partial_state z')"
proof -
  have t: "tag_syntax t = kw" "tag_lead t = l" "tag_key t = k" using assms(1) by (simp_all add: tag_core_def)
  obtain ns ps where z: "z = (ns, ps)" by fastforce
  show ?thesis using assms(2)
    by (auto simp: t compile_defs put_node_state z Let_def)
      (auto simp: partial_state_def entry_code_def)
qed

lemma compile_tag_else:
  assumes "tag_core t = (ELSE, l, k)"
  shows "case accept_tag (ELSE, l, k) z of
      None \<Rightarrow> \<exists>e. compile_tag t (partial_state z) = Inl e
    | Some z' \<Rightarrow> compile_tag t (partial_state z) = Inr (partial_state z')"
proof -
  have t: "tag_syntax t = ELSE" "tag_lead t = l" "tag_key t = k" using assms by (simp_all add: tag_core_def)
  obtain ns ps where z: "z = (ns, ps)" by fastforce
  show ?thesis
  proof (cases ps)
    case Nil
    then show ?thesis by (simp add: z t compile_defs partial_state_def)
  next
    case (Cons p ps')
    show ?thesis
    proof (cases p)
      case (OpenBody c l' k' body)
      then show ?thesis using Cons
        by (cases c) (simp_all add: z t compile_defs partial_state_def set_ref_append Let_def body_end_def numeral_eq_Suc)
    next
      case OpenAlt
      then show ?thesis using Cons by (simp add: z t compile_defs partial_state_def)
    qed
  qed
qed

lemma entry_val: "act_val (open_code b p ! 1) = open_key p" "1 < length (open_code b p)"
  by (cases p; simp add: Let_def)+

lemma scopeKey_partial:
  "scopeKey (partial_code ns (p # ps) @ xs) (partial_scope ns (p # ps)) = open_key p"
  using entry_val [of "length (partial_code ns ps)" p]
  by (cases p) (simp_all add: scopeKey_def beginIdx_def nth_append)

lemma clauseMatch_partial: "clauseMatch c (partial_scope ns (p # ps)) \<longleftrightarrow> open_clause p = c"
  by (cases p) (simp_all add: clauseMatch_def)

lemma compile_tag_close_state:
  fixes ns :: "Node list" and p :: Open and ps :: "Open list"
  assumes "tag_lead t = l" "tag_key t = k"
  defines "actions \<equiv> addLead t (partial_code ns (p # ps))" and "scope \<equiv> partial_scope ns (p # ps)"
  shows "(if hasElse scope then linkJumpToNext scope actions
      else if open_clause p = IF_CLAUSE then linkElseToStart scope actions
      else linkElseToStart scope (linkLoopBack scope (addCode LOOP t actions)), tl scope)
    = partial_state (put_node (close_block l k p) (ns, ps))"
proof (cases p)
  case (OpenBody c l' k' body)
  then show ?thesis
    by (cases c) (simp_all add: actions_def scope_def put_node_pair compile_defs assms(1,2)
        set_ref_append Let_def body_end_def entry_code_def numeral_eq_Suc)
next
  case (OpenAlt c l' k' body ml mk alt)
  then show ?thesis
    by (simp add: actions_def scope_def put_node_pair compile_defs assms(1,2)
        set_ref_append Let_def numeral_eq_Suc)
qed

lemma compile_tag_close:
  assumes "tag_core t = (kw, l, k)" "kw \<in> {END_IF, END_FOR}"
  shows "case accept_tag (kw, l, k) z of
      None \<Rightarrow> \<exists>e. compile_tag t (partial_state z) = Inl e
    | Some z' \<Rightarrow> compile_tag t (partial_state z) = Inr (partial_state z')"
proof -
  have t: "tag_syntax t = kw" "tag_lead t = l" "tag_key t = k" using assms(1) by (simp_all add: tag_core_def)
  obtain ns ps where z: "z = (ns, ps)" by fastforce
  show ?thesis
  proof (cases ps)
    case Nil
    then show ?thesis using assms(2) by (auto simp: z t compile_tag_def checkBalanced_def clauseMatch_def partial_state_def)
  next
    case (Cons p ps')
    have match: "checkBalanced c t (addLead t (partial_code ns (p # ps'))) (partial_scope ns (p # ps'))
      = (if open_clause p = c \<and> k \<in> {[], open_key p} then Inr () else Inl (Err Invalid ''Unbalanced Logic''))" for c
      unfolding checkBalanced_def clauseMatch_partial keyMatch_def addLead_def add_def scopeKey_partial by (simp add: t)
    have clause: "open_clause p \<noteq> IF_CLAUSE \<longleftrightarrow> open_clause p = FOR_CLAUSE" by (cases "open_clause p") auto
    show ?thesis
      using assms(2) compile_tag_close_state [OF t(2,3), of ns p ps'] Cons
      by (auto simp: compile_tag_def Let_def t z match partial_state_def [of "(ns, p # ps')"] clause simp del: partial_code.simps partial_scope.simps)
  qed
qed

lemma compile_tag_accept:
  "case accept_tag (tag_core t) z of
      None \<Rightarrow> \<exists>e. compile_tag t (partial_state z) = Inl e
    | Some z' \<Rightarrow> compile_tag t (partial_state z) = Inr (partial_state z')"
proof -
  obtain kw l k where t: "tag_core t = (kw, l, k)" by (cases "tag_core t")
  consider "kw \<in> {ESCAPE, KEYID, IF, FOR}" | "kw = ELSE" | "kw \<in> {END_IF, END_FOR}" by (cases kw) auto
  then show ?thesis unfolding t
    using compile_tag_open [OF t] compile_tag_else [of t l k z] compile_tag_close [OF t] t by cases auto
qed

fun accept_tags :: "tag list \<Rightarrow> partial \<Rightarrow> partial option" where
  "accept_tags [] z = Some z"
| "accept_tags (t # ts) z = Option.bind (accept_tag t z) (accept_tags ts)"

lemma accept_tags_append: "accept_tags (ts @ us) z = Option.bind (accept_tags ts z) (accept_tags us)"
  by (induction ts arbitrary: z) (auto split: bind_splits)

lemma buildActions_accept:
  assumes "ts \<noteq> []"
  shows "buildActions (map Inr ts) (partial_state z) = Inr code \<longleftrightarrow>
    (\<exists>ns. accept_tags (map tag_core ts) z = Some (ns, []) \<and> code = code_at 0 ns @ [act TEXT (tag_tail (last ts)) 0])"
  using assms
proof (induction ts arbitrary: z)
  case (Cons t ts)
  show ?case
  proof (cases "accept_tag (tag_core t) z")
    case None
    then have "\<exists>e. compile_tag t (partial_state z) = Inl e" using compile_tag_accept [of t z] by simp
    then show ?thesis using None by auto
  next
    case (Some z')
    then have step: "compile_tag t (partial_state z) = Inr (partial_state z')" using compile_tag_accept [of t z] by simp
    obtain ns ps where z': "z' = (ns, ps)" by fastforce
    show ?thesis
    proof (cases "ts = []")
      case True
      then show ?thesis using Some step z'
        by (cases ps) (auto simp: partial_state_def checkClosed_def add_def)
    next
      case False
      then show ?thesis using Some step Cons.IH [of z'] by (cases ts) (auto simp: partial_state_def)
    qed
  qed
qed simp

text \<open>What is accepted is nested, and what is nested is accepted.\<close>

lemma open_close_tags:
  "tags_of [close_block el ek p] = open_tags p @ [(close_kw (open_clause p), el, ek)]"
  by (cases p) simp_all

lemma wf_nodes_append: "wf_nodes (xs @ ys) = (wf_nodes xs \<and> wf_nodes ys)"
  by (induction xs rule: wf_nodes.induct) auto

lemma wf_into_open: "wf_open (into_open n p) \<longleftrightarrow> wf_open p \<and> wf_nodes [n]"
  by (cases p) (auto simp: wf_nodes_append)

lemma wf_close_block: "wf_nodes [close_block l k p] \<longleftrightarrow> wf_open p \<and> k \<in> {[], open_key p}"
  by (cases p) auto

lemma put_node_wf: "wf_partial (put_node n z) \<longleftrightarrow> wf_partial z \<and> wf_nodes [n]"
  by (cases "(n, z)" rule: put_node.cases) (auto simp: wf_nodes_append wf_into_open)

lemma put_node_tags: "partial_tags (put_node n z) = partial_tags z @ tags_of [n]"
  by (cases "(n, z)" rule: put_node.cases) (simp_all add: tags_of_append open_tags_into)

lemma accept_tag_sound:
  assumes "accept_tag t z = Some z'" "wf_partial z" "fst t = ESCAPE \<longrightarrow> snd (snd t) = []"
  shows "wf_partial z' \<and> partial_tags z' = partial_tags z @ [t]"
  using assms
  by (induction t z rule: accept_tag.induct)
    (auto simp: put_node_wf put_node_tags open_close_tags wf_close_block open_kw_def close_kw_def split: if_splits)

lemma accept_tags_sound:
  assumes "accept_tags ts z = Some z'" "wf_partial z" "\<forall>t\<in>set ts. fst t = ESCAPE \<longrightarrow> snd (snd t) = []"
  shows "wf_partial z' \<and> partial_tags z' = partial_tags z @ ts"
  using assms
proof (induction ts arbitrary: z)
  case (Cons t ts)
  then obtain z1 where z1: "accept_tag t z = Some z1" "accept_tags ts z1 = Some z'" by (auto simp: bind_eq_Some_conv)
  have "wf_partial z1 \<and> partial_tags z1 = partial_tags z @ [t]" using accept_tag_sound [OF z1(1)] Cons.prems by simp
  then show ?case using Cons.IH [OF z1(2)] Cons.prems(3) by simp
qed simp

lemma fold_put_node:
  "fold put_node xs (ns, []) = (ns @ xs, [])"
  "fold put_node xs (ns, OpenBody c l k body # ps) = (ns, OpenBody c l k (body @ xs) # ps)"
  "fold put_node xs (ns, OpenAlt c l k body ml mk alt # ps) = (ns, OpenAlt c l k body ml mk (alt @ xs) # ps)"
  by (induction xs arbitrary: ns body alt) simp_all

lemma accept_open:
  "k \<noteq> [] \<Longrightarrow> accept_tag (open_kw c, l, k) (ns, ps) = Some (ns, OpenBody c l k [] # ps)"
  by (cases c) (simp_all add: open_kw_def)

lemma accept_close:
  "open_clause p = c \<Longrightarrow> ek \<in> {[], open_key p} \<Longrightarrow>
     accept_tag (close_kw c, el, ek) (ns, p # ps) = Some (put_node (close_block el ek p) (ns, ps))"
  by (cases c) (auto simp: close_kw_def)

lemma accept_tags_complete: "wf_nodes ns \<Longrightarrow> accept_tags (tags_of ns) z = Some (fold put_node ns z)"
proof (induction ns arbitrary: z rule: tags_of.induct)
  case (4 c l k body el ek ns)
  obtain ms ps where z: "z = (ms, ps)" by fastforce
  show ?case using 4 by (simp add: z accept_tags_append accept_open fold_put_node accept_close)
next
  case (5 c l k body ml mk alt el ek ns)
  obtain ms ps where z: "z = (ms, ps)" by fastforce
  show ?case using 5 by (simp add: z accept_tags_append accept_open fold_put_node accept_close)
qed simp_all

text \<open>An escape carries no key.\<close>

lemma match_close_fields:
  "match_close m s = Some m' \<Longrightarrow> mat_escape m' = mat_escape m \<and> mat_else m' = mat_else m \<and> mat_end m' = mat_end m
     \<and> mat_logic m' = mat_logic m \<and> mat_key m' = mat_key m"
  by (auto simp: match_close_def split: list.splits if_splits)

lemma match_key_close_fields:
  "match_key_close m s = Some m' \<Longrightarrow> mat_escape m' = mat_escape m \<and> mat_else m' = mat_else m \<and> mat_end m' = mat_end m
     \<and> mat_logic m' = mat_logic m \<and> mat_key m' = fst (match_key_path s)"
  by (cases "match_key_path s") (auto simp: match_key_close_def dest!: match_close_fields)

lemma case_option_SomeE:
  assumes "(case x of Some y \<Rightarrow> Some y | None \<Rightarrow> z) = Some m"
  obtains "x = Some m" | "x = None" "z = Some m"
  using assms by (cases x) auto

lemma match_syntax_no_escape: "match_syntax s = Some m \<Longrightarrow> \<not> mat_escape m"
  unfolding match_syntax_def
  by (elim case_option_SomeE) (auto simp: bind_eq_Some_conv no_match_def dest!: match_close_fields match_key_close_fields)

lemma match_field_no_escape: "match_field s = Some m \<Longrightarrow> \<not> mat_escape m"
  by (auto simp: match_field_def bind_eq_Some_conv dest: match_syntax_no_escape)

lemma match_markup_escape: "match_markup s = Some m \<Longrightarrow> mat_escape m \<Longrightarrow> mat_key m = None"
  by (auto simp: match_markup_def match_escape_def no_match_def split: option.splits dest: match_field_no_escape)

lemma markup_matches_found: "m \<in> set (markup_matches s) \<Longrightarrow> \<exists>s'. match_markup s' = Some m"
proof (induction s rule: markup_matches.induct)
  case (1 s)
  show ?case
  proof (cases "search_markup s")
    case None
    then show ?thesis using 1(2) by (simp add: markup_matches.simps [of s])
  next
    case (Some m')
    then show ?thesis using 1 search_markup_Some [OF Some] by (auto simp: markup_matches.simps [of s])
  qed
qed

lemma classify_escape_key:
  "fst (classify rest mat) = Inr t \<Longrightarrow> (mat_escape mat \<longrightarrow> mat_key mat = None) \<Longrightarrow> tag_syntax t = ESCAPE \<Longrightarrow> tag_key t = []"
  by (auto simp: classify_def classify_field_def Let_def err_simps split: if_splits option.splits)

lemma parse_escape_key: "Inr t \<in> set (parse s) \<Longrightarrow> tag_syntax t = ESCAPE \<Longrightarrow> tag_key t = []"
proof -
  have "Inr t \<in> set (classify_all rest ms) \<Longrightarrow> \<exists>rest m. m \<in> set ms \<and> fst (classify rest m) = Inr t" for rest ms
    by (induction rest ms rule: classify_all.induct) (auto, metis)
  then show "Inr t \<in> set (parse s) \<Longrightarrow> tag_syntax t = ESCAPE \<Longrightarrow> tag_key t = []"
    unfolding parse_def by (metis classify_escape_key match_markup_escape markup_matches_found)
qed

lemma buildActions_all: "buildActions rs st = Inr code \<Longrightarrow> \<exists>ts. rs = map Inr ts"
proof (induction rs st rule: buildActions.induct)
  case (3 t rs st)
  then show ?case
  proof (cases "rs = []")
    case False
    then obtain st' where "buildActions rs st' = Inr code" "\<exists>ts. rs = map Inr ts"
      using 3 by (auto simp: bind_result_Inr_iff split: prod.splits)
    then show ?thesis by (metis list.simps(9))
  qed (auto intro: exI [of _ "[t]"])
qed auto

lemma buildActions_start:
  "ts \<noteq> [] \<Longrightarrow> buildActions (map Inr ts) ([], []) = Inr code \<longleftrightarrow>
    (\<exists>ns. accept_tags (map tag_core ts) ([], []) = Some (ns, []) \<and> code = code_at 0 ns @ [act TEXT (tag_tail (last ts)) 0])"
  using buildActions_accept [of ts "([], [])" code] by (simp add: partial_state_def)

lemma compile_nested:
  assumes "compile spec = Inr code"
  shows "\<exists>ts nodes. parse spec = map Inr ts \<and> ts \<noteq> [] \<and> map tag_core ts = tags_of nodes \<and> wf_nodes nodes
      \<and> code = code_at 0 nodes @ [act TEXT (tag_tail (last ts)) 0]"
proof -
  from assms have b: "buildActions (parse spec) ([], []) = Inr code" and code: "code \<noteq> []"
    by (auto simp: compile_def bind_result_Inr_iff split: if_splits)
  obtain ts where ts: "parse spec = map Inr ts" using buildActions_all [OF b] by blast
  have "ts \<noteq> []" using b code ts by auto
  then obtain ns where ns: "accept_tags (map tag_core ts) ([], []) = Some (ns, [])"
    "code = code_at 0 ns @ [act TEXT (tag_tail (last ts)) 0]"
    using b buildActions_start [of ts code] ts by auto
  have "\<forall>x\<in>set (map tag_core ts). fst x = ESCAPE \<longrightarrow> snd (snd x) = []"
    using parse_escape_key [of _ spec] unfolding ts by (simp add: tag_core_def image_iff)
  then have "wf_partial (ns, []) \<and> partial_tags (ns, []) = partial_tags ([], []) @ map tag_core ts"
    by (intro accept_tags_sound [OF ns(1)]) simp_all
  then show ?thesis
    using ts \<open>ts \<noteq> []\<close> ns(2) by (intro exI [of _ ts] exI [of _ ns]) auto
qed

lemma compile_complete:
  assumes "parse spec = map Inr ts" "ts \<noteq> []" "map tag_core ts = tags_of nodes" "wf_nodes nodes"
  shows "compile spec = Inr (code_at 0 nodes @ [act TEXT (tag_tail (last ts)) 0])"
proof -
  have "buildActions (parse spec) ([], []) = Inr (code_at 0 nodes @ [act TEXT (tag_tail (last ts)) 0])"
    unfolding assms(1) buildActions_start [OF assms(2)]
    using accept_tags_complete [OF assms(4), of "([], [])"] assms(3) by (simp add: fold_put_node)
  then show ?thesis by (simp add: compile_def)
qed

text \<open>C34: A template compiles exactly when its tags nest. The compiler accepts a specification if and only
  if it has at least one tag, every tag is classified, and the sequence of tags is that of properly
  nested blocks: every opening tag has a key and its closing tag, of the same clause and with the
  same key or none, and at most one else stands directly in each block. The code then is that of
  the nested template, in which the entry of a block refers to its alternative or its end, a loop to
  its entry, and the jump behind a body to the end; it ends with the text behind the last tag.
\<close>

theorem compiles_iff_nested:
  "compile spec = Inr code \<longleftrightarrow>
     (\<exists>ts nodes. parse spec = map Inr ts \<and> ts \<noteq> [] \<and> map tag_core ts = tags_of nodes \<and> wf_nodes nodes
        \<and> code = code_at 0 nodes @ [\<lparr>act_code = TEXT, act_val = tag_tail (last ts), act_ref = 0\<rparr>])"
proof
  assume "compile spec = Inr code"
  from compile_nested [OF this]
  show "\<exists>ts nodes. parse spec = map Inr ts \<and> ts \<noteq> [] \<and> map tag_core ts = tags_of nodes \<and> wf_nodes nodes
      \<and> code = code_at 0 nodes @ [act TEXT (tag_tail (last ts)) 0]" .
next
  assume "\<exists>ts nodes. parse spec = map Inr ts \<and> ts \<noteq> [] \<and> map tag_core ts = tags_of nodes \<and> wf_nodes nodes
      \<and> code = code_at 0 nodes @ [act TEXT (tag_tail (last ts)) 0]"
  then show "compile spec = Inr code" using compile_complete by blast
qed

subsection \<open>Templates in writing\<close>

text \<open>
  Tags without escapes, in their usual spelling. A placeholder whose key starts with a keyword is not
  read as such: \<open>format\<close> is taken for the start of an iteration over \<open>mat\<close>.
\<close>

definition plain_text :: "string \<Rightarrow> bool" where
  "plain_text l \<longleftrightarrow> CHR ''$'' \<notin> set l \<and> CHR 0x5C \<notin> set l"

definition valid_key :: "string \<Rightarrow> bool" where
  "valid_key k \<longleftrightarrow> match_key_path k = (Some k, [])"

definition no_keyword :: "string \<Rightarrow> bool" where
  "no_keyword k \<longleftrightarrow> strip_prefix ''if'' k = None \<and> strip_prefix ''for'' k = None
     \<and> strip_prefix ''end'' k = None \<and> strip_prefix ''else'' k = None"

fun field_text :: "Keyword \<Rightarrow> string \<Rightarrow> string" where
  "field_text ESCAPE k = []"
| "field_text KEYID k = k"
| "field_text IF k = ''if '' @ k"
| "field_text END_IF k = ''end if '' @ k"
| "field_text FOR k = ''for '' @ k"
| "field_text END_FOR k = ''end for '' @ k"
| "field_text ELSE k = ''else''"

fun print_tag :: "tag \<Rightarrow> string" where
  "print_tag (kw, l, k) = l @ ''${'' @ field_text kw k @ ''}''"

definition print_tags :: "tag list \<Rightarrow> string \<Rightarrow> string" where
  "print_tags ts tail = concat (map print_tag ts) @ tail"

fun printable :: "tag \<Rightarrow> bool" where
  "printable (kw, l, k) = (plain_text l \<and> (case kw of
     ESCAPE \<Rightarrow> False
   | KEYID \<Rightarrow> valid_key k \<and> no_keyword k
   | ELSE \<Rightarrow> k = []
   | IF \<Rightarrow> valid_key k
   | FOR \<Rightarrow> valid_key k
   | END_IF \<Rightarrow> k = [] \<or> valid_key k
   | END_FOR \<Rightarrow> k = [] \<or> valid_key k))"

lemma format_is_a_loop:
  "compile ''${format}'' = Inl (Err Invalid ''Unclosed Logic tags'')"
  "map_option mat_logic (match_markup ''${format}'') = Some (Some ''for'')"
  "map_option mat_key (match_markup ''${format}'') = Some (Some ''mat'')"
  by code_simp+

lemma key_chars:
  "\<not> is_key_start CHR ''}''" "\<not> is_word CHR ''}''" "is_key_start c \<Longrightarrow> \<not> is_space c" "\<not> is_space CHR ''}''"
  "is_space CHR '' ''" "\<not> is_space CHR ''i''" "\<not> is_space CHR ''f''" "\<not> is_space CHR ''e''"
  by (auto simp: is_key_start_def is_word_def is_space_def)

lemma match_single_key_append:
  "match_single_key (s @ CHR ''}'' # r) = map_option (\<lambda>(k, q). (k, q @ CHR ''}'' # r)) (match_single_key s)"
  by (auto simp: match_single_key_def key_chars takeWhile_append dropWhile_append
      takeWhile_eq_all_conv [THEN iffD2] split: list.splits)

lemma match_key_tail_append: "match_key_tail s = (p, q) \<Longrightarrow> match_key_tail (s @ CHR ''}'' # r) = (p, q @ CHR ''}'' # r)"
proof (induction s arbitrary: p q rule: match_key_tail.induct)
  case (1 s)
  show ?case
  proof (cases s)
    case Nil
    then show ?thesis using 1(2) by (simp add: match_key_tail.simps)
  next
    case (Cons c cs)
    show ?thesis
    proof (cases "c = CHR ''.'' \<and> match_single_key cs \<noteq> None")
      case True
      then obtain k r' where k: "match_single_key cs = Some (k, r')" by auto
      obtain p' r'' where t: "match_key_tail r' = (p', r'')" by fastforce
      have "match_key_tail (r' @ CHR ''}'' # r) = (p', r'' @ CHR ''}'' # r)"
        using 1(1) [OF Cons _ k, of k r' p' r''] True t by simp
      then show ?thesis using 1(2) Cons True k t
        by (auto simp: match_key_tail.simps [of "CHR ''.'' # cs"]
            match_key_tail.simps [of "CHR ''.'' # cs @ CHR ''}'' # r"] match_single_key_append)
    next
      case False
      then show ?thesis using 1(2) Cons
        by (cases "match_single_key cs")
          (auto simp: match_key_tail.simps [of "c # cs"] match_key_tail.simps [of "c # cs @ CHR ''}'' # r"]
            match_single_key_append split: if_splits)
    qed
  qed
qed

lemma match_valid_key:
  assumes "valid_key k"
  shows "match_key_path (k @ CHR ''}'' # r) = (Some k, CHR ''}'' # r)"
  using assms match_key_tail_append
  by (auto simp: valid_key_def match_key_path_def match_single_key_append split: option.splits prod.splits)

lemma valid_key_start: "valid_key k \<Longrightarrow> \<exists>c cs. k = c # cs \<and> is_key_start c"
  by (auto simp: valid_key_def match_key_path_def match_single_key_def split: option.splits list.splits if_splits)

lemma match_no_key: "match_key_path (CHR ''}'' # r) = (None, CHR ''}'' # r)"
  by (simp add: match_key_path_def match_single_key_def key_chars)

lemma match_close_brace: "match_close m (CHR ''}'' # r) = Some (m\<lparr>mat_suffix := r\<rparr>)"
  by (simp add: match_close_def skip_space_def key_chars)

lemma match_key_close_key:
  "valid_key k \<Longrightarrow> match_key_close m (k @ CHR ''}'' # r) = Some (m\<lparr>mat_key := Some k, mat_suffix := r\<rparr>)"
  "match_key_close m (CHR ''}'' # r) = Some (m\<lparr>mat_key := None, mat_suffix := r\<rparr>)"
  by (simp_all add: match_key_close_def match_valid_key match_no_key match_close_brace)

lemma skip_space_key: "valid_key k \<Longrightarrow> skip_space (k @ r) = k @ r"
  using valid_key_start [of k] key_chars by (auto simp: skip_space_def)

lemma no_keyword_append:
  assumes "no_keyword k" "valid_key k" "p \<in> {''if'', ''for'', ''end'', ''else''}"
  shows "strip_prefix p (k @ CHR ''}'' # r) = None"
proof (rule ccontr)
  assume "strip_prefix p (k @ CHR ''}'' # r) \<noteq> None"
  then obtain q where q: "k @ CHR ''}'' # r = p @ q" by (auto simp: strip_prefix_Some)
  have p: "strip_prefix p k = None" using assms(1,3) by (auto simp: no_keyword_def)
  from q consider us where "k = p @ us" | us where "p = k @ us" "us @ q = CHR ''}'' # r"
    by (auto simp: append_eq_append_conv2)
  then show False
  proof cases
    case 1
    then show ?thesis using p by (simp add: strip_prefix_def)
  next
    case 2
    have "CHR ''}'' \<notin> set p" using assms(3) by auto
    then have "us = []" using 2 by (cases us) auto
    then show ?thesis using p 2(1) by (simp add: strip_prefix_def)
  qed
qed

lemma skip_space_simps:
  "skip_space (CHR '' '' # s) = skip_space s" "skip_space (CHR ''}'' # s) = CHR ''}'' # s"
  "skip_space (CHR ''i'' # s) = CHR ''i'' # s" "skip_space (CHR ''f'' # s) = CHR ''f'' # s"
  "skip_space (CHR ''e'' # s) = CHR ''e'' # s"
  by (simp_all add: skip_space_def key_chars)

lemma match_logic_keywords:
  "match_logic (CHR ''i'' # CHR ''f'' # CHR '' '' # s) = Some (''if'', skip_space s)"
  "match_logic (CHR ''f'' # CHR ''o'' # CHR ''r'' # CHR '' '' # s) = Some (''for'', skip_space s)"
  "match_logic (CHR ''e'' # s) = None"
  by (simp_all add: match_logic_def strip_prefix_def skip_space_simps)

lemma match_clause_keywords:
  "match_clause (CHR ''i'' # CHR ''f'' # CHR '' '' # s) = Some (False, ''if'', skip_space s)"
  "match_clause (CHR ''f'' # CHR ''o'' # CHR ''r'' # CHR '' '' # s) = Some (False, ''for'', skip_space s)"
  "match_clause (CHR ''e'' # CHR ''n'' # CHR ''d'' # CHR '' '' # CHR ''i'' # CHR ''f'' # CHR '' '' # s) = Some (True, ''if'', skip_space s)"
  "match_clause (CHR ''e'' # CHR ''n'' # CHR ''d'' # CHR '' '' # CHR ''f'' # CHR ''o'' # CHR ''r'' # CHR '' '' # s) = Some (True, ''for'', skip_space s)"
  by (simp_all add: match_clause_def strip_prefix_def match_logic_keywords skip_space_simps)

lemma strip_else:
  "strip_prefix ''else'' (CHR ''i'' # s) = None" "strip_prefix ''else'' (CHR ''f'' # s) = None"
  "strip_prefix ''else'' (CHR ''e'' # CHR ''n'' # s) = None"
  "strip_prefix ''else'' (CHR ''e'' # CHR ''l'' # CHR ''s'' # CHR ''e'' # s) = Some s"
  by (simp_all add: strip_prefix_def)

lemmas field_simps_tag = skip_space_simps match_clause_keywords strip_else skip_space_key match_key_close_key
  match_close_brace no_match_def classify_field_def

lemma match_syntax_key:
  assumes "valid_key k" "no_keyword k"
  shows "match_syntax (k @ CHR ''}'' # r) = Some (no_match\<lparr>mat_key := Some k, mat_suffix := r\<rparr>)"
proof -
  have strip: "strip_prefix p (k @ CHR ''}'' # r) = None" if "p \<in> {''if'', ''for'', ''end'', ''else''}" for p
    by (rule no_keyword_append [OF assms(2,1) that])
  have "match_clause (k @ CHR ''}'' # r) = None" by (simp add: match_clause_def match_logic_def strip)
  then show ?thesis by (simp add: match_syntax_def strip match_key_close_key assms(1))
qed

lemma match_syntax_field:
  assumes "printable (kw, l, k)"
  shows "\<exists>m. match_syntax (skip_space (field_text kw k @ CHR ''}'' # r)) = Some m \<and> mat_suffix m = r
    \<and> classify_field m = Inr kw \<and> (case mat_key m of Some k \<Rightarrow> k | None \<Rightarrow> []) = k"
proof (cases kw)
  case KEYID
  then have k: "valid_key k" "no_keyword k" using assms by auto
  then have "k \<noteq> ''end''" by (auto simp: no_keyword_def strip_prefix_def)
  then show ?thesis
    using KEYID match_syntax_key [OF k] k by (simp add: skip_space_key classify_field_def no_match_def)
next
  case END_IF
  then show ?thesis using assms
    by (cases "k = []") (auto simp: match_syntax_def field_simps_tag)
next
  case END_FOR
  then show ?thesis using assms
    by (cases "k = []") (auto simp: match_syntax_def field_simps_tag)
qed (use assms in \<open>simp_all add: match_syntax_def field_simps_tag\<close>)

lemma match_markup_other: "c \<noteq> CHR ''$'' \<Longrightarrow> c \<noteq> CHR 0x5C \<Longrightarrow> match_markup (c # s) = None"
  by (simp add: match_markup_def match_escape_def match_field_def strip_prefix_def)

lemma search_plain:
  "plain_text l \<Longrightarrow> search_markup (l @ s) = search_markup s"
proof (induction l)
  case (Cons c l)
  then have "match_markup (c # l @ s) = None" by (intro match_markup_other) (auto simp: plain_text_def)
  then show ?case using Cons by (simp add: plain_text_def search_markup.simps [of "c # l @ s"])
qed simp

lemma search_none: "search_markup [] = None"
  by (simp add: search_markup.simps [of "[]"] match_markup_def match_escape_def match_field_def strip_prefix_def)

lemma classify_field_length: "classify_field (m\<lparr>mat_length := n\<rparr>) = classify_field m"
  by (simp add: classify_field_def)

lemma search_printed:
  assumes "printable (kw, l, k)"
  shows "\<exists>m. search_markup (print_tag (kw, l, k) @ r) = Some m \<and> mat_suffix m = r
    \<and> fst (classify (print_tag (kw, l, k) @ r) m)
        = Inr \<lparr>tag_syntax = kw, tag_lead = l, tag_tail = r, tag_key = k\<rparr>
    \<and> snd (classify (print_tag (kw, l, k) @ r) m) = r"
proof -
  let ?field = "''${'' @ field_text kw k @ ''}''"
  obtain m where m: "match_syntax (skip_space (field_text kw k @ CHR ''}'' # r)) = Some m" "mat_suffix m = r"
    "classify_field m = Inr kw" "(case mat_key m of Some k \<Rightarrow> k | None \<Rightarrow> []) = k"
    using match_syntax_field [OF assms] by blast
  let ?m = "m\<lparr>mat_length := length ?field\<rparr>"
  have "match_markup (?field @ r) = Some ?m"
    using m(1,2) by (simp add: match_markup_def match_escape_def match_field_def strip_prefix_def)
  then have "search_markup (?field @ r) = Some ?m" by (subst search_markup.simps) simp
  then have "search_markup (l @ ?field @ r) = Some ?m" using assms by (simp add: search_plain)
  moreover have "\<not> mat_escape m" by (rule match_syntax_no_escape [OF m(1)])
  moreover have "classify_field ?m = Inr kw" using m(3) by (simp add: classify_field_length)
  ultimately show ?thesis using m(2,4) by (simp add: classify_def Let_def)
qed

lemma parse_printed:
  assumes "list_all printable ts" "plain_text tail"
  shows "\<exists>us. parse (print_tags ts tail) = map Inr us \<and> map tag_core us = ts
    \<and> (us \<noteq> [] \<longrightarrow> tag_tail (last us) = tail)"
  using assms(1)
proof (induction ts)
  case Nil
  have "search_markup tail = None" using search_plain [OF assms(2), of "[]"] by (simp add: search_none)
  then show ?case by (simp add: print_tags_def parse_def markup_matches.simps [of tail])
next
  case (Cons t ts)
  then obtain us where us: "parse (print_tags ts tail) = map Inr us" "map tag_core us = ts"
    "us \<noteq> [] \<longrightarrow> tag_tail (last us) = tail" by auto
  obtain kw l k where t: "t = (kw, l, k)" by (cases t)
  let ?r = "print_tags ts tail"
  let ?u = "\<lparr>tag_syntax = kw, tag_lead = l, tag_tail = ?r, tag_key = k\<rparr>"
  have split: "print_tags (t # ts) tail = print_tag (kw, l, k) @ ?r" by (simp add: print_tags_def t)
  obtain m where m: "search_markup (print_tag (kw, l, k) @ ?r) = Some m" "mat_suffix m = ?r"
    "fst (classify (print_tag (kw, l, k) @ ?r) m) = Inr ?u" "snd (classify (print_tag (kw, l, k) @ ?r) m) = ?r"
    using search_printed [of kw l k ?r] Cons.prems t by auto
  have "parse (print_tags (t # ts) tail) = Inr ?u # parse ?r"
    unfolding split parse_def using m by (subst markup_matches.simps) simp
  moreover have "us = [] \<Longrightarrow> ?r = tail" using us(2) by (simp add: print_tags_def)
  ultimately show ?case using us by (intro exI [of _ "?u # us"]) (auto simp: tag_core_def t)
qed

end
