(* ===== verification/TemplateInstance.thy ===== *)
theory TemplateInstance
  imports TextTemplate
begin

text \<open>
  The instantiation of text templates, \<open>InstanceCore\<close> of \<open>lib/text-template.hpp\<close>, over a data source,
  and the binding of data in a map of strings or given as a string specification. It is shown that
  the compiled code renders what the nested template means: placeholders, conditional sections and
  iterations with their alternatives.
\<close>

subsection \<open>Data sources\<close>

text \<open>
  The operations a binding provides. A sequence is what remains of it from the current
  position; \<open>openContext\<close> opens the data at that position.
\<close>

record ('d, 'i) DataSource =
  src_contains :: "'d \<Rightarrow> string \<Rightarrow> bool"
  src_retrieveContent :: "'d \<Rightarrow> string \<Rightarrow> string result"
  src_getSequence :: "'d \<Rightarrow> string \<Rightarrow> 'i list result"
  src_openContext :: "'d \<Rightarrow> 'i list \<Rightarrow> 'd result"

text \<open>What an instantiation relies on: data that is there can be accessed.\<close>

locale data_source =
  fixes src :: "('d, 'i) DataSource"
  assumes content: "src_contains src d k \<Longrightarrow> \<exists>v. src_retrieveContent src d k = Inr v"
    and sequence: "\<exists>its. src_getSequence src d k = Inr its"
    and opens: "its \<noteq> [] \<Longrightarrow> \<exists>d'. src_openContext src d its = Inr d'"

subsection \<open>Instantiation of the actions\<close>

text \<open>\<open>isNo\<close> of \<open>lib/util.cpp\<close>; the regular expression ignores case.\<close>

definition to_lower :: "char \<Rightarrow> char" where
  "to_lower c = (let n = of_char c :: nat in if 65 \<le> n \<and> n \<le> 90 then char_of (n + 32) else c)"

definition trim_space :: "string \<Rightarrow> string" where
  "trim_space s = rev (skip_space (rev (skip_space s)))"

definition isNo :: "string \<Rightarrow> bool" where
  "isNo textForm \<longleftrightarrow> textForm = [] \<or>
     map to_lower (trim_space textForm) \<in> {''false'', ''no'', ''off'', ''0'', ''-''}"

text \<open>The top of the context stack is the head of the list.\<close>

record ('d, 'i) InstanceCore =
  dataSrc :: 'd
  actionIter :: nat
  ctxStack :: "('i list \<times> 'd) list"
  rendered :: string

definition getContent :: "('d, 'i) DataSource \<Rightarrow> string \<Rightarrow> ('d, 'i) InstanceCore \<Rightarrow> string result" where
  "getContent src key core =
     (if src_contains src (dataSrc core) key then src_retrieveContent src (dataSrc core) key else Inr [])"

definition conditional :: "('d, 'i) DataSource \<Rightarrow> string \<Rightarrow> ('d, 'i) InstanceCore \<Rightarrow> bool result" where
  "conditional src key core = bind_result (getContent src key core) (\<lambda>v. Inr (\<not> isNo v))"

definition focusNested :: "('d, 'i) DataSource \<Rightarrow> ('d, 'i) InstanceCore \<Rightarrow> ('d, 'i) InstanceCore result" where
  "focusNested src core =
     bind_result (require (ctxStack core \<noteq> []) ''not ctxStack_.empty()'') (\<lambda>_.
     let (currentDataItem, parentDataSrc) = hd (ctxStack core)
     in bind_result (src_openContext src parentDataSrc currentDataItem) (\<lambda>d. Inr (core\<lparr>dataSrc := d\<rparr>)))"

definition openIteration ::
  "('d, 'i) DataSource \<Rightarrow> string \<Rightarrow> ('d, 'i) InstanceCore \<Rightarrow> (bool \<times> ('d, 'i) InstanceCore) result" where
  "openIteration src key core =
     bind_result (conditional src key core) (\<lambda>c.
       if \<not> c then Inr (False, core)
       else bind_result (src_getSequence src (dataSrc core) key) (\<lambda>dataIter.
         if dataIter = [] then Inr (False, core)
         else bind_result (focusNested src (core\<lparr>ctxStack := (dataIter, dataSrc core) # ctxStack core\<rparr>))
                (\<lambda>core. Inr (True, core))))"

definition loopFurther :: "('d, 'i) DataSource \<Rightarrow> ('d, 'i) InstanceCore \<Rightarrow> (bool \<times> ('d, 'i) InstanceCore) result" where
  "loopFurther src core = (case ctxStack core of
     [] \<Rightarrow> Inl (Err Assertion ''ctxStack_.top()'')
   | (dataIter, parent) # stack \<Rightarrow>
       let dataIter = tl dataIter
       in if dataIter \<noteq> []
          then bind_result (focusNested src (core\<lparr>ctxStack := (dataIter, parent) # stack\<rparr>)) (\<lambda>core. Inr (True, core))
          else Inr (False, core\<lparr>dataSrc := parent, ctxStack := stack\<rparr>))"

definition setIDX :: "ActionSeq \<Rightarrow> nat \<Rightarrow> ('d, 'i) InstanceCore \<Rightarrow> ('d, 'i) InstanceCore result" where
  "setIDX actions newIDX core =
     (if newIDX < length actions then Inr (core\<lparr>actionIter := newIDX\<rparr>)
      else Inl (Err Invalid ''Attempt to set index out of bounds''))"

text \<open>Relocation of the position, to the next action if none is given.\<close>

definition relocate :: "ActionSeq \<Rightarrow> nat option \<Rightarrow> ('d, 'i) InstanceCore \<Rightarrow> ('d, 'i) InstanceCore result" where
  "relocate actions nextCode core = (case nextCode of
     None \<Rightarrow> Inr (core\<lparr>actionIter := actionIter core + 1\<rparr>)
   | Some i \<Rightarrow> setIDX actions i core)"

text \<open>
  \<open>Action::instantiate\<close>: either the text to be rendered, or where to continue. The continuation and
  \<open>instantiateNext\<close> call each other; the loop need not end on arbitrary code.
\<close>

definition instantiate ::
  "('d, 'i) DataSource \<Rightarrow> Action \<Rightarrow> ('d, 'i) InstanceCore \<Rightarrow> (string + nat option \<times> ('d, 'i) InstanceCore) result" where
  "instantiate src a core = (case act_code a of
     TEXT \<Rightarrow> Inr (Inl (act_val a))
   | KEY \<Rightarrow> bind_result (getContent src (act_val a) core) (\<lambda>v. Inr (Inl v))
   | COND \<Rightarrow> bind_result (conditional src (act_val a) core) (\<lambda>c.
       Inr (Inr (if c then None else Some (act_ref a), core)))
   | JUMP \<Rightarrow> Inr (Inr (Some (act_ref a), core))
   | ITER \<Rightarrow> bind_result (openIteration src (act_val a) core) (\<lambda>(c, core).
       Inr (Inr (if c then None else Some (act_ref a), core)))
   | LOOP \<Rightarrow> bind_result (loopFurther src core) (\<lambda>(c, core).
       Inr (Inr (if c then Some (act_ref a + 1) else None, core))))"

definition core_checkPoint :: "ActionSeq \<Rightarrow> ('d, 'i) InstanceCore \<Rightarrow> bool" where
  "core_checkPoint actions core \<longleftrightarrow> actionIter core < length actions"

partial_function (option) instantiateNext ::
  "('d, 'i) DataSource \<Rightarrow> ActionSeq \<Rightarrow> ('d, 'i) InstanceCore \<Rightarrow> ('d, 'i) InstanceCore partial_result" where
  "instantiateNext src actions core =
     (if \<not> core_checkPoint actions core then Some (Inr (core\<lparr>rendered := []\<rparr>))
      else case instantiate src (actions ! actionIter core) core of
          Inl e \<Rightarrow> Some (Inl e)
        | Inr (Inl v) \<Rightarrow> Some (Inr (core\<lparr>rendered := v\<rparr>))
        | Inr (Inr x) \<Rightarrow>
            (case relocate actions (fst x) (snd x) of
               Inl e \<Rightarrow> Some (Inl e)
             | Inr core \<Rightarrow> instantiateNext src actions core))"

definition InstanceCore_new ::
  "('d, 'i) DataSource \<Rightarrow> ActionSeq \<Rightarrow> 'd \<Rightarrow> ('d, 'i) InstanceCore partial_result" where
  "InstanceCore_new src actions d =
     instantiateNext src actions \<lparr>dataSrc = d, actionIter = 0, ctxStack = [], rendered = []\<rparr>"

definition InstanceCore_core ::
  "('d, 'i) DataSource \<Rightarrow> ActionSeq \<Rightarrow> (('d, 'i) InstanceCore, string) StateCore" where
  "InstanceCore_core src actions = \<lparr>checkPoint = core_checkPoint actions,
     yield = (\<lambda>core. Inr (rendered core, core)),
     iterNext = (\<lambda>core. instantiateNext src actions (core\<lparr>actionIter := actionIter core + 1\<rparr>))\<rparr>"

text \<open>\<open>render\<close> joins what the iterator yields, without delimiter.\<close>

definition render :: "('d, 'i) DataSource \<Rightarrow> ActionSeq \<Rightarrow> 'd \<Rightarrow> string partial_result" where
  "render src actions d =
     bind_partial (InstanceCore_new src actions d) (\<lambda>core.
     bind_partial (effuse (CheckedCore (InstanceCore_core src actions)) [] core) (\<lambda>chunks.
     Some (Inr (concat chunks))))"

definition apply_template :: "('d, 'i) DataSource \<Rightarrow> string \<Rightarrow> 'd \<Rightarrow> string partial_result" where
  "apply_template src spec d = bind_partial (Some (compile spec)) (\<lambda>actions. render src actions d)"

definition keys :: "ActionSeq \<Rightarrow> string list" where
  "keys actions = map act_val (filter (\<lambda>a. act_code a \<in> {KEY, COND, ITER}) actions)"

subsection \<open>What a template means\<close>

definition content :: "('d, 'i) DataSource \<Rightarrow> 'd \<Rightarrow> string \<Rightarrow> string" where
  "content src d k = (if src_contains src d k then (case src_retrieveContent src d k of Inr v \<Rightarrow> v | Inl _ \<Rightarrow> []) else [])"

definition holds :: "('d, 'i) DataSource \<Rightarrow> 'd \<Rightarrow> string \<Rightarrow> bool" where
  "holds src d k \<longleftrightarrow> \<not> isNo (content src d k)"

definition opened :: "('d, 'i) DataSource \<Rightarrow> 'd \<Rightarrow> 'i list \<Rightarrow> 'd" where
  "opened src d its = (case src_openContext src d its of Inr d' \<Rightarrow> d' | Inl _ \<Rightarrow> d)"

definition entries :: "('d, 'i) DataSource \<Rightarrow> 'd \<Rightarrow> string \<Rightarrow> 'i list" where
  "entries src d k = (if holds src d k then (case src_getSequence src d k of Inr its \<Rightarrow> its | Inl _ \<Rightarrow> []) else [])"

text \<open>The data of each entry of a sequence.\<close>

fun contexts :: "('d, 'i) DataSource \<Rightarrow> 'd \<Rightarrow> 'i list \<Rightarrow> 'd list" where
  "contexts src d [] = []"
| "contexts src d (i # its) = opened src d (i # its) # contexts src d its"

text \<open>The data for which the body of a section is rendered.\<close>

definition section_data :: "('d, 'i) DataSource \<Rightarrow> Clause \<Rightarrow> 'd \<Rightarrow> string \<Rightarrow> 'd list" where
  "section_data src c d k = (case c of
     IF_CLAUSE \<Rightarrow> if holds src d k then [d] else []
   | FOR_CLAUSE \<Rightarrow> contexts src d (entries src d k))"

text \<open>
  The chunks of text: a section is the body with the text before its closing or else tag; without
  a condition that holds, or without entries, it is the alternative, if there is one.
\<close>

fun meaning :: "('d, 'i) DataSource \<Rightarrow> 'd \<Rightarrow> Node list \<Rightarrow> string list" where
  "meaning src d [] = []"
| "meaning src d (EscNode l # ns) = l # meaning src d ns"
| "meaning src d (KeyNode l k # ns) = l # content src d k # meaning src d ns"
| "meaning src d (Block c l k body el ek # ns) =
     l # concat (map (\<lambda>d'. meaning src d' body @ [el]) (section_data src c d k)) @ meaning src d ns"
| "meaning src d (BlockElse c l k body ml mk alt el ek # ns) =
     l # (if section_data src c d k = [] then meaning src d alt @ [el]
          else concat (map (\<lambda>d'. meaning src d' body @ [ml]) (section_data src c d k)))
       @ meaning src d ns"

subsection \<open>Running the code\<close>

text \<open>The core yields a list of chunks from here on.\<close>

inductive delivers :: "('d, 'i) DataSource \<Rightarrow> ActionSeq \<Rightarrow> ('d, 'i) InstanceCore \<Rightarrow> string list \<Rightarrow> bool" for src actions where
  delivers_end: "\<not> core_checkPoint actions core \<Longrightarrow> delivers src actions core []"
| delivers_next: "core_checkPoint actions core \<Longrightarrow>
     instantiateNext src actions (core\<lparr>actionIter := actionIter core + 1\<rparr>) = Some (Inr core') \<Longrightarrow>
     delivers src actions core' xs \<Longrightarrow> delivers src actions core (rendered core # xs)"

inductive_cases delivers_NilE: "delivers src actions core []"
inductive_cases delivers_ConsE: "delivers src actions core (x # xs)"

interpretation instance_core: presents "InstanceCore_core src actions" "delivers src actions"
proof (unfold_locales, goal_cases)
  case 4
  then show ?case by (elim delivers_ConsE) (auto simp: InstanceCore_core_def)
qed (auto simp: InstanceCore_core_def elim: delivers_NilE delivers_ConsE)

abbreviation core_at :: "'d \<Rightarrow> nat \<Rightarrow> ('i list \<times> 'd) list \<Rightarrow> string \<Rightarrow> ('d, 'i) InstanceCore" where
  "core_at d i stk r \<equiv> \<lparr>dataSrc = d, actionIter = i, ctxStack = stk, rendered = r\<rparr>"

definition runs :: "('d, 'i) DataSource \<Rightarrow> ActionSeq \<Rightarrow> 'd \<Rightarrow> nat \<Rightarrow> ('i list \<times> 'd) list \<Rightarrow> string list \<Rightarrow> bool" where
  "runs src actions d i stk xs \<longleftrightarrow>
     (\<forall>r. \<exists>core. instantiateNext src actions (core_at d i stk r) = Some (Inr core) \<and> delivers src actions core xs)"

primrec placed :: "ActionSeq \<Rightarrow> nat \<Rightarrow> Action list \<Rightarrow> bool" where
  "placed actions b [] = True"
| "placed actions b (a # as) = (b < length actions \<and> actions ! b = a \<and> placed actions (Suc b) as)"

lemma placed_append: "placed actions b (xs @ ys) \<longleftrightarrow> placed actions b xs \<and> placed actions (b + length xs) ys"
  by (induction xs arbitrary: b) auto

lemma placed_all: "placed (xs @ as) (length xs) as"
proof (induction as arbitrary: xs)
  case (Cons a as)
  show ?case using Cons [of "xs @ [a]"] by (simp add: nth_append)
qed simp

lemma instantiateNext_step:
  "i < length actions \<Longrightarrow> instantiateNext src actions (core_at d i stk r) =
     (case instantiate src (actions ! i) (core_at d i stk r) of
          Inl e \<Rightarrow> Some (Inl e)
        | Inr (Inl v) \<Rightarrow> Some (Inr (core_at d i stk v))
        | Inr (Inr x) \<Rightarrow>
            (case relocate actions (fst x) (snd x) of
               Inl e \<Rightarrow> Some (Inl e)
             | Inr core \<Rightarrow> instantiateNext src actions core))"
  by (subst instantiateNext.simps) (simp add: core_checkPoint_def cong: sum.case_cong)

lemma runs_end: "runs src actions d (length actions) stk []"
  unfolding runs_def by (subst instantiateNext.simps) (simp add: core_checkPoint_def delivers_end)

lemma runs_chunk:
  assumes "i < length actions" "\<And>r. instantiate src (actions ! i) (core_at d i stk r) = Inr (Inl v)"
    and "runs src actions d (Suc i) stk xs"
  shows "runs src actions d i stk (v # xs)"
  unfolding runs_def
proof
  fix r
  obtain core where core: "instantiateNext src actions (core_at d (Suc i) stk v) = Some (Inr core)"
    "delivers src actions core xs" using assms(3) unfolding runs_def by blast
  have "delivers src actions (core_at d i stk v) (rendered (core_at d i stk v) # xs)"
    by (rule delivers_next [OF _ _ core(2)]) (use assms(1) core(1) in \<open>simp_all add: core_checkPoint_def\<close>)
  then show "\<exists>core. instantiateNext src actions (core_at d i stk r) = Some (Inr core) \<and> delivers src actions core (v # xs)"
    using assms(1,2) by (simp add: instantiateNext_step)
qed

lemma runs_on:
  assumes "i < length actions" "\<And>r. instantiate src (actions ! i) (core_at d i stk r) = Inr (Inr (None, core_at d' i stk' r))"
    and "runs src actions d' (Suc i) stk' xs"
  shows "runs src actions d i stk xs"
  using assms by (auto simp: runs_def instantiateNext_step relocate_def)

lemma runs_jump:
  assumes "i < length actions" "\<And>r. instantiate src (actions ! i) (core_at d i stk r) = Inr (Inr (Some j, core_at d' i stk' r))"
    and "j < length actions" "runs src actions d' j stk' xs"
  shows "runs src actions d i stk xs"
  using assms by (auto simp: runs_def instantiateNext_step relocate_def setIDX_def)

context data_source
begin

lemma getContent_content: "getContent src k core = Inr (content src (dataSrc core) k)"
  using content [of "dataSrc core" k] by (auto simp: getContent_def content_def)

lemma conditional_holds: "conditional src k core = Inr (holds src (dataSrc core) k)"
  by (simp add: conditional_def getContent_content holds_def)

lemma open_opened: "its \<noteq> [] \<Longrightarrow> src_openContext src d its = Inr (opened src d its)"
  using opens [of its d] by (auto simp: opened_def)

lemma openIteration_entries:
  "openIteration src k (core_at d i stk r) =
     (let its = entries src d k
      in if its = [] then Inr (False, core_at d i stk r)
         else Inr (True, core_at (opened src d its) i ((its, d) # stk) r))"
  using sequence [of d k]
  by (auto simp: openIteration_def conditional_holds entries_def focusNested_def require_def open_opened Let_def)

lemma loopFurther_entries:
  "loopFurther src (core_at d' i ((its, d) # stk) r) =
     (if tl its = [] then Inr (False, core_at d i stk r)
      else Inr (True, core_at (opened src d (tl its)) i ((tl its, d) # stk) r))"
  by (simp add: loopFurther_def focusNested_def require_def open_opened Let_def)

lemma runs_TEXT:
  "placed actions i (act TEXT v n # as) \<Longrightarrow> runs src actions d (Suc i) stk xs \<Longrightarrow> runs src actions d i stk (v # xs)"
  by (rule runs_chunk) (auto simp: instantiate_def)

lemma runs_KEY:
  "placed actions i (act KEY k n # as) \<Longrightarrow> runs src actions d (Suc i) stk xs \<Longrightarrow> runs src actions d i stk (content src d k # xs)"
  by (rule runs_chunk) (auto simp: instantiate_def getContent_content)

lemma runs_JUMP:
  "placed actions i (act JUMP k j # as) \<Longrightarrow> j < length actions \<Longrightarrow> runs src actions d j stk xs \<Longrightarrow> runs src actions d i stk xs"
  by (rule runs_jump) (auto simp: instantiate_def)

lemma runs_COND:
  assumes "placed actions i (act COND k j # as)" "j < length actions"
    and "runs src actions d (if holds src d k then Suc i else j) stk xs"
  shows "runs src actions d i stk xs"
  using assms by (cases "holds src d k")
    (auto simp: instantiate_def conditional_holds intro: runs_on runs_jump [of i actions src d stk j d stk xs])

lemma runs_ITER:
  assumes "placed actions i (act ITER k j # as)" "j < length actions"
    and "if entries src d k = [] then runs src actions d j stk xs
         else runs src actions (opened src d (entries src d k)) (Suc i) ((entries src d k, d) # stk) xs"
  shows "runs src actions d i stk xs"
proof (cases "entries src d k = []")
  case True
  show ?thesis
    by (rule runs_jump [of i actions src d stk j d stk]) (use assms True in \<open>simp_all add: instantiate_def openIteration_entries Let_def\<close>)
next
  case False
  show ?thesis
    by (rule runs_on [where d' = "opened src d (entries src d k)" and stk' = "(entries src d k, d) # stk"])
      (use assms False in \<open>simp_all add: instantiate_def openIteration_entries Let_def\<close>)
qed

lemma runs_LOOP:
  assumes "placed actions i (act LOOP k j # as)" "Suc j < length actions"
    and "if tl its = [] then runs src actions d (Suc i) stk xs
         else runs src actions (opened src d (tl its)) (Suc j) ((tl its, d) # stk) xs"
  shows "runs src actions d' i ((its, d) # stk) xs"
proof (cases "tl its = []")
  case True
  show ?thesis
    by (rule runs_on [where d' = d and stk' = stk]) (use assms True in \<open>simp_all add: instantiate_def loopFurther_entries\<close>)
next
  case False
  show ?thesis
    by (rule runs_jump [where d' = "opened src d (tl its)" and stk' = "(tl its, d) # stk" and j = "Suc j"])
      (use assms False in \<open>simp_all add: instantiate_def loopFurther_entries\<close>)
qed

text \<open>The body of a loop, with the text and the \<open>LOOP\<close> behind it, runs once for each entry.\<close>

lemma runs_iterations:
  assumes body: "\<And>d stk xs. runs src actions d e stk xs \<Longrightarrow> runs src actions d b stk (meaning src d body @ xs)"
    and code: "placed actions e (act TEXT l n # act LOOP k (b - 1) # as)" "0 < b" "b < length actions"
    and rest: "runs src actions d (e + 2) stk xs"
  shows "its \<noteq> [] \<Longrightarrow>
    runs src actions (opened src d its) b ((its, d) # stk)
      (concat (map (\<lambda>d'. meaning src d' body @ [l]) (contexts src d its)) @ xs)"
proof (induction its)
  case (Cons i its)
  let ?ys = "concat (map (\<lambda>d'. meaning src d' body @ [l]) (contexts src d its)) @ xs"
  let ?d = "opened src d (i # its)"
  have "runs src actions ?d (Suc e) ((i # its, d) # stk) ?ys"
    by (rule runs_LOOP [where j = "b - 1" and as = as and k = k]) (use code rest Cons.IH in auto)
  then have "runs src actions ?d e ((i # its, d) # stk) (l # ?ys)" using code(1) by (blast intro: runs_TEXT)
  from body [OF this] show ?case by simp
qed simp

text \<open>A section: its entry leads to the body, once for each of the data, or away.\<close>

lemma runs_section:
  assumes body: "\<And>d stk xs. runs src actions d n stk xs \<Longrightarrow> runs src actions d (b + 2) stk (meaning src d body @ xs)"
    and entry: "placed actions (Suc b) [act (entry_code c) k j]" "j < length actions" "b + 2 < length actions"
    and behind: "placed actions n (act TEXT l 0 # body_end b c mk)"
    and over: "runs src actions d (n + 1 + length (body_end b c mk)) stk xs"
    and away: "section_data src c d k = [] \<Longrightarrow> runs src actions d j stk ys"
  shows "runs src actions d (Suc b) stk
    (if section_data src c d k = [] then ys else concat (map (\<lambda>d'. meaning src d' body @ [l]) (section_data src c d k)) @ xs)"
proof (cases c)
  case IF_CLAUSE
  have "runs src actions d (b + 2) stk (meaning src d body @ l # xs)"
    by (rule body, rule runs_TEXT [OF behind]) (use over IF_CLAUSE in \<open>simp add: body_end_def\<close>)
  then show ?thesis
    by (intro runs_COND [of actions "Suc b" k j "[]"])
      (use entry away IF_CLAUSE in \<open>simp_all add: entry_code_def section_data_def\<close>)
next
  case FOR_CLAUSE
  let ?its = "entries src d k"
  have ne: "contexts src d ?its = [] \<longleftrightarrow> ?its = []" by (cases ?its) simp_all
  have "?its \<noteq> [] \<Longrightarrow> runs src actions (opened src d ?its) (b + 2) ((?its, d) # stk)
      (concat (map (\<lambda>d'. meaning src d' body @ [l]) (contexts src d ?its)) @ xs)"
    by (rule runs_iterations [OF body, where as = "[]"])
      (use behind over entry FOR_CLAUSE in \<open>auto simp: body_end_def\<close>)
  then show ?thesis
    by (intro runs_ITER [of actions "Suc b" k j "[]"])
      (use entry away FOR_CLAUSE ne in \<open>simp_all add: entry_code_def section_data_def\<close>)
qed

text \<open>The code of nodes, wherever it is placed, runs what they mean and then goes on behind it.\<close>

lemma runs_code:
  assumes "placed actions b (code_at b ns)" "b + length (code_at b ns) < length actions"
    and "runs src actions d (b + length (code_at b ns)) stk xs"
  shows "runs src actions d b stk (meaning src d ns @ xs)"
  using assms
proof (induction b ns arbitrary: d stk xs rule: code_at.induct)
  case (3 b l k ns)
  then show ?case by (auto intro!: runs_TEXT [of actions b l 0 "[]"] runs_KEY [of actions "Suc b" k 0 "[]"])
next
  case (4 b c l k body el ek ns)
  let ?n = "b + 2 + length (code_at (b + 2) body)"
  let ?e = "?n + 1 + length (body_end b c ek)"
  have len: "?e < length actions" using 4(4) by (simp add: Let_def)
  have rest: "runs src actions d ?e stk (meaning src d ns @ xs)" using 4(2-5) by (simp add: Let_def placed_append ac_simps)
  have body: "runs src actions d' (b + 2) stk' (meaning src d' body @ zs)" if "runs src actions d' ?n stk' zs" for d' stk' zs
    using 4(1) [of d' stk' zs] 4(3,4) that by (simp add: Let_def placed_append ac_simps)
  have first: "placed actions b [act TEXT l 0, act (entry_code c) k ?e]"
    and behind: "placed actions ?n (act TEXT el 0 # body_end b c ek)"
    using 4(3) by (simp_all add: Let_def placed_append ac_simps)
  have "runs src actions d (Suc b) stk (if section_data src c d k = [] then meaning src d ns @ xs
      else concat (map (\<lambda>d'. meaning src d' body @ [el]) (section_data src c d k)) @ meaning src d ns @ xs)"
    by (rule runs_section [OF body _ len _ behind rest rest]) (use first len in simp_all)
  from runs_TEXT [OF first this] show ?case by (simp split: if_splits)
next
  case (5 b c l k body ml mk alt el ek ns)
  let ?n = "b + 2 + length (code_at (b + 2) body)"
  let ?j = "?n + 1 + length (body_end b c mk)"
  let ?e = "?j + 1 + length (code_at (?j + 1) alt) + 1"
  note arith = Let_def placed_append numeral_eq_Suc add.assoc add.left_commute
  have len: "?e < length actions" using 5(5) by (simp add: arith)
  have rest: "runs src actions d ?e stk (meaning src d ns @ xs)" using 5(3-6) by (simp add: arith)
  have body: "runs src actions d' (b + 2) stk' (meaning src d' body @ zs)" if "runs src actions d' ?n stk' zs" for d' stk' zs
    using 5(1) [of d' stk' zs] 5(4,5) that by (simp add: arith)
  have first: "placed actions b [act TEXT l 0, act (entry_code c) k (?j + 1)]"
    and behind: "placed actions ?n (act TEXT ml 0 # body_end b c mk)"
    and jump: "placed actions ?j [act JUMP mk ?e]"
    and alt: "placed actions (?j + 1) (code_at (?j + 1) alt)" "placed actions (?e - 1) [act TEXT el 0]"
    using 5(4) by (simp_all add: arith)
  have over: "runs src actions d ?j stk (meaning src d ns @ xs)" by (rule runs_JUMP [OF jump len rest])
  have "runs src actions d (?e - 1) stk (el # meaning src d ns @ xs)" by (rule runs_TEXT [OF alt(2)]) (use rest in simp)
  then have away: "runs src actions d (?j + 1) stk (meaning src d alt @ el # meaning src d ns @ xs)"
    using 5(2) [OF refl refl, of d stk "el # meaning src d ns @ xs"] alt(1) len by (simp add: arith)
  have "runs src actions d (Suc b) stk (if section_data src c d k = [] then meaning src d alt @ el # meaning src d ns @ xs
      else concat (map (\<lambda>d'. meaning src d' body @ [ml]) (section_data src c d k)) @ meaning src d ns @ xs)"
    by (rule runs_section [OF body _ _ _ behind over away]) (use first len in simp_all)
  from runs_TEXT [OF first this] show ?case by (simp split: if_splits)
qed (auto intro!: runs_TEXT)

lemma render_meaning:
  "render src (code_at 0 ns @ [act TEXT tail 0]) d = Some (Inr (concat (meaning src d ns) @ tail))"
proof -
  let ?code = "code_at 0 ns @ [act TEXT tail 0]"
  have "runs src ?code d (length (code_at 0 ns)) [] [tail]"
    by (rule runs_TEXT [where as = "[]"]) (use placed_all [of "code_at 0 ns" "[act TEXT tail 0]"] runs_end [of src ?code d "[]"] in simp_all)
  then have "runs src ?code d 0 [] (meaning src d ns @ [tail])"
    using runs_code [of ?code 0 ns d "[]" "[tail]"] placed_all [of "[]" ?code] by (simp add: placed_append)
  then obtain core where core: "InstanceCore_new src ?code d = Some (Inr core)" "delivers src ?code core (meaning src d ns @ [tail])"
    by (auto simp: runs_def InstanceCore_new_def)
  have "effuse (CheckedCore (InstanceCore_core src ?code)) [] core = Some (Inr (meaning src d ns @ [tail]))"
    by (rule effuse_checked [OF instance_core.presents_axioms core(2)])
  then show ?thesis using core(1) by (simp add: render_def)
qed

end

subsection \<open>Data in a map of strings\<close>

text \<open>
  The sequences in the map are lists of key prefixes; again the regular expressions are written out:
  a delimiter, white space, a token, white space. At the start no delimiter is needed.
\<close>

definition is_delimiter :: "char \<Rightarrow> bool" where
  "is_delimiter c \<longleftrightarrow> c = CHR '','' \<or> c = CHR '';''"

definition is_data :: "char \<Rightarrow> bool" where
  "is_data c \<longleftrightarrow> \<not> is_delimiter c \<and> c \<noteq> CHR 0x22 \<and> \<not> is_space c"

definition match_data :: "string \<Rightarrow> string \<times> string" where
  "match_data s = (takeWhile is_data (skip_space s), skip_space (dropWhile is_data (skip_space s)))"

lemma match_data_length: "length (snd (match_data s)) \<le> length s"
  unfolding match_data_def snd_conv
  by (meson skip_space_length length_dropWhile_le le_trans)

function data_tokens :: "string \<Rightarrow> string list" where
  "data_tokens s = (case dropWhile (\<lambda>c. \<not> is_delimiter c) s of
     [] \<Rightarrow> []
   | _ # r \<Rightarrow> fst (match_data r) # data_tokens (snd (match_data r)))"
  by pat_completeness auto
termination data_tokens
proof (relation "measure length")
  fix s :: string and c r
  assume "dropWhile (\<lambda>c. \<not> is_delimiter c) s = c # r"
  then have "length r < length s" using length_dropWhile_le [of "\<lambda>c. \<not> is_delimiter c" s] by simp
  then show "(snd (match_data r), s) \<in> measure length" using match_data_length [of r] by simp
qed simp

definition iterNestedKeys :: "string \<Rightarrow> string \<Rightarrow> string list" where
  "iterNestedKeys key iterDef =
     (let (token, r) = match_data iterDef in map (\<lambda>t. key @ ''.'' @ t @ ''.'') (token # data_tokens r))"

record MapSource =
  map_data :: "string \<Rightarrow> string option"
  keyPrefix :: string

definition MapSource_new :: "(string \<Rightarrow> string option) \<Rightarrow> MapSource" where
  "MapSource_new m = \<lparr>map_data = m, keyPrefix = []\<rparr>"

definition isSubScope :: "MapSource \<Rightarrow> bool" where
  "isSubScope d \<longleftrightarrow> keyPrefix d \<noteq> []"

definition map_contains :: "MapSource \<Rightarrow> string \<Rightarrow> bool" where
  "map_contains d key \<longleftrightarrow>
     isSubScope d \<and> map_data d (keyPrefix d @ key) \<noteq> None \<or> map_data d key \<noteq> None"

definition map_retrieveContent :: "MapSource \<Rightarrow> string \<Rightarrow> string result" where
  "map_retrieveContent d key =
     (let elm = (if isSubScope d
                 then (case map_data d (keyPrefix d @ key) of None \<Rightarrow> map_data d key | Some v \<Rightarrow> Some v)
                 else map_data d key)
      in case elm of None \<Rightarrow> Inl (Err Assertion ''elm != data_->end()'') | Some v \<Rightarrow> Inr v)"

definition map_getSequence :: "MapSource \<Rightarrow> string \<Rightarrow> string list result" where
  "map_getSequence d key =
     (if \<not> map_contains d key then Inr []
      else bind_result (map_retrieveContent d key) (\<lambda>v. Inr (iterNestedKeys key v)))"

definition map_openContext :: "MapSource \<Rightarrow> string list \<Rightarrow> MapSource result" where
  "map_openContext d iter =
     bind_result (require (iter \<noteq> []) ''iter'') (\<lambda>_. Inr (d\<lparr>keyPrefix := keyPrefix d @ hd iter\<rparr>))"

definition map_source :: "(MapSource, string) DataSource" where
  "map_source = \<lparr>src_contains = map_contains, src_retrieveContent = map_retrieveContent,
     src_getSequence = map_getSequence, src_openContext = map_openContext\<rparr>"

lemma map_contains_retrieve: "map_contains d k \<Longrightarrow> \<exists>v. map_retrieveContent d k = Inr v"
  by (auto simp: map_contains_def map_retrieveContent_def split: option.splits)

interpretation map_src: data_source map_source
  by unfold_locales
    (auto simp: map_source_def map_getSequence_def map_openContext_def require_def dest: map_contains_retrieve)

text \<open>Data given by a string of bindings, of which the first for a key counts.\<close>

definition match_binding :: "string \<Rightarrow> ((string \<times> string) \<times> string) option" where
  "match_binding s =
     (let is_key = (\<lambda>c. is_word c \<or> c = CHR ''.'');
          s = skip_space s;
          key = takeWhile is_key s;
          rest = skip_space (dropWhile is_key s);
          val = skip_space (tl rest)
      in if key = [] \<or> rest = [] \<or> hd rest \<noteq> CHR ''='' \<or> val = [] then None
         else if is_data (hd val) then Some ((key, takeWhile is_data val), skip_space (dropWhile is_data val))
         else if hd val = CHR 0x22
         then let quoted = takeWhile (\<lambda>c. c \<noteq> CHR 0x22) (tl val);
                  rest = dropWhile (\<lambda>c. c \<noteq> CHR 0x22) (tl val)
              in if quoted = [] \<or> rest = [] then None else Some ((key, quoted), skip_space (tl rest))
         else None)"

lemma match_binding_length: "match_binding s = Some (b, r) \<Longrightarrow> length r \<le> length s"
proof -
  assume m: "match_binding s = Some (b, r)"
  define val where "val = skip_space (tl (skip_space (dropWhile (\<lambda>c. is_word c \<or> c = CHR ''.'') (skip_space s))))"
  have "suffix val s" unfolding val_def
    by (meson skip_space_suffix suffix_dropWhile suffix_order.trans suffix_tl)
  moreover have "suffix r val"
    using m by (auto simp: match_binding_def Let_def val_def [symmetric] split: if_splits)
      (meson skip_space_suffix suffix_dropWhile suffix_order.trans suffix_tl)+
  ultimately show ?thesis by (meson suffix_length_le suffix_order.trans)
qed

function binding_tokens :: "string \<Rightarrow> (string \<times> string) list" where
  "binding_tokens s = (case s of
     [] \<Rightarrow> []
   | c # r \<Rightarrow>
       (case if is_delimiter c then match_binding r else None of
          Some (b, rest) \<Rightarrow> b # binding_tokens rest
        | None \<Rightarrow> binding_tokens r))"
  by pat_completeness auto
termination binding_tokens
  by (relation "measure length") (auto split: if_splits dest!: match_binding_length)

definition iterBindingSeq :: "string \<Rightarrow> (string \<times> string) list" where
  "iterBindingSeq dataDef = (case match_binding dataDef of
     Some (b, rest) \<Rightarrow> b # binding_tokens rest
   | None \<Rightarrow> binding_tokens dataDef)"

definition insert_binding :: "string \<times> string \<Rightarrow> (string \<Rightarrow> string option) \<Rightarrow> (string \<Rightarrow> string option)" where
  "insert_binding b m = (if m (fst b) = None then m(fst b \<mapsto> snd b) else m)"

definition StringSource_new :: "string \<Rightarrow> MapSource" where
  "StringSource_new dataSpec = MapSource_new (fold insert_binding (iterBindingSeq dataSpec) (\<lambda>_. None))"

text \<open>Instantiating a template renders its meaning. Over any data source whose content can be
  accessed, every template that compiles is rendered to the end: the result is the text of the
  specification with each placeholder replaced by the data for its key, each conditional section
  there when the data for its key is not a negation or empty, and each iterated section once for each
  entry of the sequence, with the data of the entry in scope, and otherwise with the alternative
  given behind the else tag, nested to any depth.\<close>

theorem template_renders:
  assumes "data_source src" "compile spec = Inr code"
  shows "\<exists>ts nodes. parse spec = map Inr ts \<and> map tag_core ts = tags_of nodes
    \<and> render src code d = Some (Inr (concat (meaning src d nodes) @ tag_tail (last ts)))"
proof -
  obtain ts nodes where "parse spec = map Inr ts" "map tag_core ts = tags_of nodes"
    "code = code_at 0 nodes @ [act TEXT (tag_tail (last ts)) 0]"
    using compile_nested [OF assms(2)] by blast
  then show ?thesis using data_source.render_meaning [OF assms(1)] by blast
qed

theorem template_renders_witness:
  "\<exists>ts nodes. parse ''Hi ${y}!'' = map Inr ts \<and> map tag_core ts = tags_of nodes
    \<and> render map_source [\<lparr>act_code = TEXT, act_val = ''Hi '', act_ref = 0\<rparr>, \<lparr>act_code = KEY, act_val = ''y'', act_ref = 0\<rparr>,
         \<lparr>act_code = TEXT, act_val = ''!'', act_ref = 0\<rparr>] (StringSource_new ''y=you'')
      = Some (Inr (concat (meaning map_source (StringSource_new ''y=you'') nodes) @ tag_tail (last ts)))"
  by (rule template_renders [OF map_src.data_source_axioms]) code_simp

text \<open>C33: Writing a template and reading it back. A nested template, with keys that do not start with a
  keyword and text free of dollar signs and backslashes, is written with its tags in braces; the
  specification is parsed, compiled and rendered, over any data source whose content can be accessed,
  to the text the nested template means.\<close>

theorem template_written_and_applied:
  assumes "data_source src" "wf_nodes nodes" "nodes \<noteq> []" "list_all printable (tags_of nodes)" "plain_text tail"
  shows "apply_template src (print_tags (tags_of nodes) tail) d = Some (Inr (concat (meaning src d nodes) @ tail))"
proof -
  obtain us where us: "parse (print_tags (tags_of nodes) tail) = map Inr us" "map tag_core us = tags_of nodes"
    "us \<noteq> [] \<longrightarrow> tag_tail (last us) = tail"
    using parse_printed [OF assms(4,5)] by blast
  have "tags_of nodes \<noteq> []" using assms(3) by (cases nodes rule: tags_of.cases) simp_all
  then have "us \<noteq> []" using us(2) by auto
  then have "compile (print_tags (tags_of nodes) tail) = Inr (code_at 0 nodes @ [act TEXT tail 0])"
    using compile_complete [OF us(1) _ us(2) assms(2)] us(3) by simp
  then show ?thesis using data_source.render_meaning [OF assms(1)] by (simp add: apply_template_def)
qed

theorem template_written_and_applied_witness:
  "apply_template map_source ''Hi ${y}: ${for l}[${n}]${else}none${end for l}${if z}Z${end if }!''
     (StringSource_new ''y=you, l=\"1,2\", l.1.n=one, l.2.n=two, z=no'') = Some (Inr ''Hi you: [one][two]!'')"
proof -
  let ?nodes = "[KeyNode ''Hi '' ''y'',
     BlockElse FOR_CLAUSE '': '' ''l'' [KeyNode ''['' ''n''] '']'' [] [] ''none'' ''l'',
     Block IF_CLAUSE [] ''z'' [] ''Z'' []]"
  let ?d = "StringSource_new ''y=you, l=\"1,2\", l.1.n=one, l.2.n=two, z=no''"
  have written: "print_tags (tags_of ?nodes) ''!'' = ''Hi ${y}: ${for l}[${n}]${else}none${end for l}${if z}Z${end if }!''"
    by code_simp
  have "apply_template map_source (print_tags (tags_of ?nodes) ''!'') ?d
      = Some (Inr (concat (meaning map_source ?d ?nodes) @ ''!''))"
    by (rule template_written_and_applied [OF map_src.data_source_axioms]) code_simp+
  moreover have "concat (meaning map_source ?d ?nodes) @ ''!'' = ''Hi you: [one][two]!''" by code_simp
  ultimately show ?thesis unfolding written by simp
qed

end
