(* ===== verification/UICoord.thy ===== *)
theory UICoord
  imports Prelude
begin

text \<open>
  Coordinates of elements in the user interface: \<open>PathArray\<close> of \<open>lib/path-array.hpp\<close>, with its inline
  storage and the extension on the heap, and \<open>UICoord\<close> of \<open>stage/interact/ui-coord.hpp\<close> with its
  builder. It is shown to which sequence of names the storage is normalised, that the builder
  operations act on that sequence, and that the extension of coordinates is an order.
\<close>

subsection \<open>Literals and the storage of a path\<close>

text \<open>A literal is a C string or the null pointer; the code compares the content.\<close>

type_synonym Literal = "string option"

definition isnil :: "Literal \<Rightarrow> bool" where
  "isnil l \<longleftrightarrow> l = None \<or> l = Some []"

definition ANY :: string where "ANY = ''*''"

definition EMPTY :: string where "EMPTY = []"

definition chunk_size :: nat where "chunk_size = 8"

record PathArray =
  pa_elms :: "Literal list"
  pa_tail :: "Literal list"

text \<open>
  The extension: without storage it is the empty list. New storage is filled with empty strings,
  as the default constructor of the literal does, storage that grows with null pointers.
\<close>

definition resizeTo :: "nat \<Rightarrow> Literal list \<Rightarrow> Literal list" where
  "resizeTo cnt ext =
     (if length ext < cnt
      then if ext \<noteq> [] then ext @ replicate (cnt - length ext) None else replicate cnt (Some EMPTY)
      else take cnt ext)"

definition findInlineEnd :: "Literal list \<Rightarrow> nat" where
  "findInlineEnd es = length (dropWhile (\<lambda>l. l = None) (rev es))"

definition path_size :: "PathArray \<Rightarrow> nat" where
  "path_size pa = (if pa_tail pa \<noteq> [] then chunk_size + length (pa_tail pa) else findInlineEnd (pa_elms pa))"

definition path_empty :: "PathArray \<Rightarrow> bool" where
  "path_empty pa \<longleftrightarrow> pa_elms pa ! 0 = None"

text \<open>A position is its index; \<open>None\<close> stands for a null pointer in place of a position.\<close>

definition getPosition :: "PathArray \<Rightarrow> nat \<Rightarrow> Literal option" where
  "getPosition pa idx =
     (if idx < chunk_size then (if pa_elms pa ! idx \<noteq> None then Some (pa_elms pa ! idx) else None)
      else if idx - chunk_size < length (pa_tail pa) then Some (pa_tail pa ! (idx - chunk_size)) else None)"

definition path_at :: "PathArray \<Rightarrow> nat \<Rightarrow> Literal result" where
  "path_at pa idx = (case getPosition pa idx of
     None \<Rightarrow> Inl (Err Invalid ''INDEX_BOUNDS'')
   | Some l \<Rightarrow> Inr l)"

definition expandPosition :: "nat \<Rightarrow> PathArray \<Rightarrow> PathArray" where
  "expandPosition idx pa =
     (if chunk_size \<le> idx \<and> path_size pa \<le> idx
      then pa\<lparr>pa_tail := resizeTo (idx + 1 - chunk_size) (pa_tail pa)\<rparr> else pa)"

definition setContent :: "nat \<Rightarrow> Literal \<Rightarrow> PathArray \<Rightarrow> PathArray" where
  "setContent idx val pa =
     (if idx < chunk_size then pa\<lparr>pa_elms := (pa_elms pa)[idx := val]\<rparr>
      else pa\<lparr>pa_tail := (pa_tail pa)[idx - chunk_size := val]\<rparr>)"

definition truncateTo :: "nat \<Rightarrow> PathArray \<Rightarrow> PathArray" where
  "truncateTo newSize pa =
     (if newSize < chunk_size
      then (if getPosition pa newSize \<noteq> None
            then fold (\<lambda>i. setContent i None) [newSize..<chunk_size] pa else pa)
             \<lparr>pa_tail := resizeTo 0 (pa_tail pa)\<rparr>
      else if newSize - chunk_size < length (pa_tail pa)
      then pa\<lparr>pa_tail := resizeTo (newSize - chunk_size) (pa_tail pa)\<rparr> else pa)"

subsection \<open>Normalisation\<close>

fun fill_gaps :: "string \<Rightarrow> Literal list \<Rightarrow> Literal list \<times> string" where
  "fill_gaps fill [] = ([], fill)"
| "fill_gaps fill (l # ls) =
     (if isnil l then let (ls', f) = fill_gaps fill ls in (Some fill # ls', f)
      else let (ls', f) = fill_gaps (if fill = EMPTY then ANY else fill) ls in (l # ls', f))"

fun trim_fill :: "string \<Rightarrow> nat \<Rightarrow> PathArray \<Rightarrow> nat \<times> PathArray" where
  "trim_fill fill 0 pa = (0, pa)"
| "trim_fill fill (Suc idx) pa =
     (if getPosition pa idx = Some (Some fill) then trim_fill fill idx (setContent idx None pa) else (idx, pa))"

definition normalise :: "PathArray \<Rightarrow> PathArray" where
  "normalise pa =
     (if path_size pa = 0 then pa
      else let (es, fill) = fill_gaps EMPTY (pa_elms pa);
               (ts, fill) = fill_gaps fill (pa_tail pa);
               pa = \<lparr>pa_elms = es, pa_tail = ts\<rparr>;
               (idx, pa) = trim_fill fill (path_size pa) pa
           in if chunk_size - 1 \<le> idx then pa\<lparr>pa_tail := resizeTo (idx + 1 - chunk_size) (pa_tail pa)\<rparr>
              else pa\<lparr>pa_tail := resizeTo 0 (pa_tail pa)\<rparr>)"

text \<open>The constructor places its arguments in the inline storage, and the rest into the extension.\<close>

definition PathArray_new :: "Literal list \<Rightarrow> PathArray" where
  "PathArray_new args = normalise
     \<lparr>pa_elms = take chunk_size (args @ replicate chunk_size None), pa_tail = drop chunk_size args\<rparr>"

text \<open>
  Iteration starts at the first element with content and ends at the end of the storage or at
  a null pointer in the inline storage.
\<close>

function path_from :: "PathArray \<Rightarrow> nat \<Rightarrow> Literal list" where
  "path_from pa i = (case getPosition pa i of
     None \<Rightarrow> []
   | Some l \<Rightarrow> l # path_from pa (i + 1))"
  by pat_completeness auto
termination path_from
  by (relation "measure (\<lambda>(pa, i). chunk_size + length (pa_tail pa) - i)")
    (auto simp: getPosition_def split: if_splits)

declare path_from.simps [simp del]

definition firstNonempty :: "PathArray \<Rightarrow> nat" where
  "firstNonempty pa = length (takeWhile isnil (path_from pa 0))"

definition path_begin :: "PathArray \<Rightarrow> Literal list" where
  "path_begin pa = path_from pa (firstNonempty pa)"

definition path_eq :: "PathArray \<Rightarrow> PathArray \<Rightarrow> bool" where
  "path_eq l r \<longleftrightarrow> path_size l = path_size r \<and> path_begin l = path_begin r"

subsection \<open>Coordinates\<close>

definition UIC_WINDOW :: nat where "UIC_WINDOW = 0"
definition UIC_PERSP :: nat where "UIC_PERSP = 1"
definition UIC_PANEL :: nat where "UIC_PANEL = 2"
definition UIC_VIEW :: nat where "UIC_VIEW = 3"
definition UIC_TAB :: nat where "UIC_TAB = 4"
definition UIC_PATH :: nat where "UIC_PATH = 5"

lemmas uic_defs = UIC_WINDOW_def UIC_PERSP_def UIC_PANEL_def UIC_VIEW_def UIC_TAB_def UIC_PATH_def

definition UIC_CURRENT_WINDOW :: string where "UIC_CURRENT_WINDOW = ''currentWindow''"
definition UIC_FIRST_WINDOW :: string where "UIC_FIRST_WINDOW = ''firstWindow''"
definition UIC_ELIDED :: string where "UIC_ELIDED = ''.''"

definition accesComponent :: "nat \<Rightarrow> PathArray \<Rightarrow> Literal" where
  "accesComponent idx pa = (case getPosition pa idx of Some l \<Rightarrow> l | None \<Rightarrow> Some EMPTY)"

definition getWindow :: "PathArray \<Rightarrow> Literal" where
  "getWindow pa = accesComponent UIC_WINDOW pa"

definition isIncomplete :: "PathArray \<Rightarrow> bool" where
  "isIncomplete pa \<longleftrightarrow> \<not> path_empty pa \<and> isnil (getWindow pa)"

definition isComplete :: "PathArray \<Rightarrow> bool" where
  "isComplete pa \<longleftrightarrow> \<not> path_empty pa \<and> \<not> isnil (getWindow pa)"

definition contains_element :: "string \<Rightarrow> PathArray \<Rightarrow> bool" where
  "contains_element s pa \<longleftrightarrow> Some s \<in> set (path_begin pa)"

definition isExplicit :: "PathArray \<Rightarrow> bool" where
  "isExplicit pa \<longleftrightarrow> isComplete pa \<and> \<not> contains_element ANY pa"

definition isPresent :: "nat \<Rightarrow> PathArray \<Rightarrow> bool" where
  "isPresent idx pa \<longleftrightarrow> (case getPosition pa idx of None \<Rightarrow> False | Some l \<Rightarrow> \<not> isnil l \<and> l \<noteq> Some ANY)"

definition isWildcard :: "nat \<Rightarrow> PathArray \<Rightarrow> bool" where
  "isWildcard idx pa \<longleftrightarrow> (case getPosition pa idx of None \<Rightarrow> False | Some l \<Rightarrow> l = Some ANY)"

function below_loop :: "PathArray \<Rightarrow> PathArray \<Rightarrow> nat \<Rightarrow> nat result" where
  "below_loop sub par idx =
     (if idx < path_size par
      then bind_result (path_at sub idx) (\<lambda>s. bind_result (path_at par idx) (\<lambda>p.
        if s = p \<or> p = Some ANY \<or> isnil p then below_loop sub par (idx + 1) else Inr idx))
      else Inr idx)"
  by pat_completeness auto
termination below_loop
  by (relation "measure (\<lambda>(sub, par, i). path_size par - i)") auto

declare below_loop.simps [simp del]

definition isExtendedBelow :: "PathArray \<Rightarrow> PathArray \<Rightarrow> bool result" where
  "isExtendedBelow sub parent =
     (if path_size sub \<le> path_size parent then Inr False
      else bind_result (below_loop sub parent 0) (\<lambda>idx. Inr (idx = path_size parent)))"

subsection \<open>The builder\<close>

text \<open>
  The builder holds coordinates that are not normalised; \<open>UICoord_build\<close> is the constructor that
  takes them out of it.
\<close>

definition setComponent :: "nat \<Rightarrow> Literal \<Rightarrow> PathArray \<Rightarrow> PathArray" where
  "setComponent idx newContent pa = setContent idx newContent (expandPosition idx pa)"

function split_path :: "string \<Rightarrow> string list" where
  "split_path s = (case dropWhile (\<lambda>c. c \<noteq> CHR ''/'') s of
     [] \<Rightarrow> if s = [] then [] else [s]
   | _ # r \<Rightarrow> takeWhile (\<lambda>c. c \<noteq> CHR ''/'') s # split_path r)"
  by pat_completeness auto
termination split_path
proof (relation "measure length")
  fix s :: string and c r
  assume "dropWhile (\<lambda>c. c \<noteq> CHR ''/'') s = c # r"
  then show "(r, s) \<in> measure length" using length_dropWhile_le [of "\<lambda>c. c \<noteq> CHR ''/''" s] by simp
qed simp

declare split_path.simps [simp del]

definition path_elements :: "Literal \<Rightarrow> string list" where
  "path_elements newContent = (case newContent of
     None \<Rightarrow> []
   | Some s \<Rightarrow> if s = [] then [] else if CHR ''/'' \<notin> set s then [s] else split_path s)"

definition setTailElms :: "nat \<Rightarrow> string list \<Rightarrow> PathArray \<Rightarrow> PathArray" where
  "setTailElms idx pathElms pa =
     (let cnt = length pathElms;
          pa = expandPosition (idx + cnt) pa;
          pa = fold (\<lambda>i pa. setContent (idx + i) (Some (pathElms ! i)) (expandPosition (idx + i) pa)) [0..<cnt] pa
      in fold (\<lambda>i pa. setContent i None (expandPosition i pa)) [idx + cnt..<path_size pa] pa)"

definition setTailSequence :: "nat \<Rightarrow> Literal \<Rightarrow> PathArray \<Rightarrow> PathArray" where
  "setTailSequence idx newContent pa = setTailElms idx (path_elements newContent) pa"

definition findStartIdx :: "PathArray \<Rightarrow> nat result" where
  "findStartIdx pa =
     bind_result (require (\<not> path_empty pa) ''not empty()'') (\<lambda>_.
       if path_begin pa = [] then Inl (Err Invalid ''ITER_EXHAUST'') else Inr (firstNonempty pa))"

definition UICoord_build :: "PathArray \<Rightarrow> PathArray" where
  "UICoord_build uic = normalise uic"

definition build_window :: "Literal \<Rightarrow> PathArray \<Rightarrow> PathArray" where
  "build_window = setComponent UIC_WINDOW"

definition build_persp :: "Literal \<Rightarrow> PathArray \<Rightarrow> PathArray" where
  "build_persp = setComponent UIC_PERSP"

definition build_panel :: "Literal \<Rightarrow> PathArray \<Rightarrow> PathArray" where
  "build_panel = setComponent UIC_PANEL"

definition build_view :: "Literal \<Rightarrow> PathArray \<Rightarrow> PathArray" where
  "build_view = setComponent UIC_VIEW"

definition build_tab :: "Literal \<Rightarrow> PathArray \<Rightarrow> PathArray" where
  "build_tab = setComponent UIC_TAB"

definition build_noTab :: "PathArray \<Rightarrow> PathArray" where
  "build_noTab = setComponent UIC_TAB (Some UIC_ELIDED)"

definition build_append :: "Literal \<Rightarrow> PathArray \<Rightarrow> PathArray" where
  "build_append elm pa = (if \<not> isnil elm then setTailSequence (path_size pa) elm pa else pa)"

definition build_prepend :: "Literal \<Rightarrow> PathArray \<Rightarrow> PathArray result" where
  "build_prepend elmID pa =
     (if \<not> isIncomplete pa then Inl (Err Logic ''Attempt to prepend to the complete rooted path'')
      else bind_result (findStartIdx pa) (\<lambda>i. Inr (setComponent (i - 1) elmID pa)))"

definition build_path :: "Literal \<Rightarrow> PathArray \<Rightarrow> PathArray" where
  "build_path pathDef = setTailSequence UIC_PATH pathDef"

definition build_overwrite :: "nat \<Rightarrow> Literal \<Rightarrow> PathArray \<Rightarrow> PathArray" where
  "build_overwrite depth newSpec pa = setContent depth newSpec (expandPosition depth pa)"

definition UICoord_window :: "Literal \<Rightarrow> PathArray" where
  "UICoord_window windowID = PathArray_new [windowID]"

text \<open>
  Appending leaves a position behind the content that counts as part of the path when it is in the
  extension: another element appended in the same expression ends up behind a gap.
\<close>

lemma append_twice_leaves_gap:
  "UICoord_build (build_append (Some ''x'') (build_path (Some ''a/b/c/d'') (UICoord_window (Some ''w''))))
   = PathArray_new (map Some [''w'', ''*'', ''*'', ''*'', ''*'', ''a'', ''b'', ''c'', ''d'', ''*'', ''x''])"
  by code_simp

text \<open>A wildcard behind nothing but empty elements is trimmed, but the empty elements remain.\<close>

lemma empty_before_wildcard:
  "PathArray_new [Some [], Some ''*''] = \<lparr>pa_elms = Some [] # replicate 7 None, pa_tail = []\<rparr>"
  "normalise (PathArray_new [Some [], Some ''*'']) = \<lparr>pa_elms = replicate 8 None, pa_tail = []\<rparr>"
  "isIncomplete (PathArray_new [Some [], Some ''*''])"
  "build_prepend (Some ''w'') (PathArray_new [Some [], Some ''*'']) = Inl (Err Invalid ''ITER_EXHAUST'')"
  by code_simp+

subsection \<open>The sequence of names\<close>

definition pa_of :: "string list \<Rightarrow> PathArray" where
  "pa_of ss = \<lparr>pa_elms = take chunk_size (map Some ss @ replicate chunk_size None),
     pa_tail = drop chunk_size (map Some ss)\<rparr>"

definition raw :: "PathArray \<Rightarrow> Literal list" where
  "raw pa = pa_elms pa @ pa_tail pa"

definition wf_path :: "PathArray \<Rightarrow> bool" where
  "wf_path pa \<longleftrightarrow> length (pa_elms pa) = chunk_size"

lemma chunk_pos [simp]: "0 < chunk_size" "chunk_size \<noteq> 0"
  by (simp_all add: chunk_size_def)

lemma wf_pa_of [simp]: "wf_path (pa_of ss)"
  by (simp add: wf_path_def pa_of_def)

lemma findInlineEnd_pad: "findInlineEnd (map Some ss @ replicate n None) = length ss"
proof -
  have "dropWhile (\<lambda>l. l = None) (replicate n None @ rev (map Some ss)) = rev (map Some ss)"
    by (induction n) (auto simp: dropWhile_eq_self_iff hd_rev last_map)
  then show ?thesis by (simp add: findInlineEnd_def)
qed

lemma take_pad: "take chunk_size (map Some ss @ replicate chunk_size None)
    = map Some (take chunk_size ss) @ replicate (chunk_size - length ss) None"
  by (simp add: take_map)

lemma path_size_pa_of [simp]: "path_size (pa_of ss) = length ss"
proof (cases "chunk_size < length ss")
  case True
  then show ?thesis by (simp add: path_size_def pa_of_def)
next
  case False
  then show ?thesis by (simp add: path_size_def pa_of_def take_pad findInlineEnd_pad)
qed

lemma getPosition_pa_of:
  "getPosition (pa_of ss) i = (if i < length ss then Some (Some (ss ! i)) else None)"
  by (auto simp: getPosition_def pa_of_def nth_append)

lemma path_at_pa_of: "i < length ss \<Longrightarrow> path_at (pa_of ss) i = Inr (Some (ss ! i))"
  by (simp add: path_at_def getPosition_pa_of)

lemma path_from_pa_of: "path_from (pa_of ss) i = map Some (drop i ss)"
proof (induction "length ss - i" arbitrary: i)
  case 0
  then show ?case by (subst path_from.simps) (simp add: getPosition_pa_of)
next
  case (Suc n)
  then have "i < length ss" "n = length ss - (i + 1)" by simp_all
  then show ?case using Suc(1) [of "i + 1"]
    by (subst path_from.simps) (simp add: getPosition_pa_of Cons_nth_drop_Suc [symmetric])
qed

lemma path_begin_pa_of: "path_begin (pa_of ss) = map Some (dropWhile (\<lambda>s. s = []) ss)"
proof -
  have "isnil (Some s) \<longleftrightarrow> s = []" for s by (simp add: isnil_def)
  then show ?thesis
    by (simp add: path_begin_def firstNonempty_def path_from_pa_of takeWhile_map o_def dropWhile_eq_drop)
qed

lemma path_empty_pa_of: "path_empty (pa_of ss) \<longleftrightarrow> ss = []"
  by (cases ss) (auto simp: path_empty_def pa_of_def chunk_size_def)

lemma pa_of_inject: "pa_of ss = pa_of ts \<longleftrightarrow> ss = ts"
proof
  assume eq: "pa_of ss = pa_of ts"
  have "path_from (pa_of ss) 0 = path_from (pa_of ts) 0" by (simp add: eq)
  then show "ss = ts" by (simp add: path_from_pa_of map_injective)
qed simp

lemma setContent_pa_of:
  "i < length ss \<Longrightarrow> setContent i (Some v) (pa_of ss) = pa_of (ss[i := v])"
  by (auto simp: setContent_def pa_of_def list_update_append map_update drop_update_swap take_update_swap list_update_beyond)

lemma expand_set_pa_of:
  assumes "i \<le> length ss"
  shows "setContent i (Some v) (expandPosition i (pa_of ss)) = pa_of (take i ss @ v # drop (Suc i) ss)"
proof (cases "i < length ss")
  case True
  then have "expandPosition i (pa_of ss) = pa_of ss" by (simp add: expandPosition_def)
  then show ?thesis using True by (simp add: setContent_pa_of upd_conv_take_nth_drop)
next
  case False
  then have i: "i = length ss" using assms by simp
  show ?thesis
  proof (cases "i < chunk_size")
    case True
    then show ?thesis
      by (simp add: i expandPosition_def setContent_def pa_of_def take_pad list_update_append)
        (simp add: Suc_diff_Suc [symmetric])
  next
    case False
    have "expandPosition i (pa_of ss) =
        (pa_of ss)\<lparr>pa_tail := resizeTo (i + 1 - chunk_size) (pa_tail (pa_of ss))\<rparr>"
      using False i by (simp add: expandPosition_def)
    then show ?thesis using False
      by (auto simp: i setContent_def pa_of_def resizeTo_def list_update_append Suc_diff_le)
  qed
qed

lemma clear_inline:
  assumes "length (pa_elms pa) = chunk_size" "n \<le> m" "m \<le> chunk_size"
  shows "fold (\<lambda>i. setContent i None) [n..<m] pa
    = pa\<lparr>pa_elms := take n (pa_elms pa) @ replicate (m - n) None @ drop m (pa_elms pa)\<rparr>"
  using assms(2,3)
proof (induction m)
  case (Suc m)
  show ?case
  proof (cases "n \<le> m")
    case True
    then have "drop m (pa_elms pa) = pa_elms pa ! m # drop (Suc m) (pa_elms pa)"
      using Suc.prems assms(1) by (simp add: Cons_nth_drop_Suc)
    then show ?thesis using True Suc assms(1)
      by (simp add: setContent_def list_update_append Suc_diff_le replicate_append_same [symmetric])
  next
    case False
    then show ?thesis using Suc.prems by (simp add: le_Suc_eq)
  qed
qed simp

lemma resizeTo_0 [simp]: "resizeTo 0 xs = []"
  by (simp add: resizeTo_def)

lemma truncateTo_pa_of: "truncateTo n (pa_of ss) = pa_of (take n ss)"
proof (cases "n < chunk_size")
  case True
  have len: "length (pa_elms (pa_of ss)) = chunk_size" by (simp add: pa_of_def)
  have "min n (length ss) = n \<or> length ss \<le> n" by auto
  then show ?thesis
    using True
    by (auto simp: truncateTo_def getPosition_pa_of clear_inline [OF len])
      (auto simp: pa_of_def take_map min_def)
next
  case False
  then show ?thesis
    by (auto simp: truncateTo_def pa_of_def resizeTo_def take_map drop_map min_def take_drop)
qed

text \<open>Normalisation: the gaps are filled, and what equals the last fill is trimmed at the end.\<close>

definition norm :: "Literal list \<Rightarrow> string list" where
  "norm ls = (let (fs, f) = fill_gaps EMPTY ls in map the (rev (dropWhile (\<lambda>l. l = Some f) (rev fs))))"

lemma fill_gaps_append:
  "fill_gaps f (xs @ ys) = (let (a, g) = fill_gaps f xs; (b, h) = fill_gaps g ys in (a @ b, h))"
  by (induction f xs rule: fill_gaps.induct) (auto simp: Let_def split: prod.splits)

lemma fill_gaps_length: "length (fst (fill_gaps f xs)) = length xs"
  by (induction xs arbitrary: f) (simp_all add: Let_def split_beta)

lemma fill_gaps_Some: "None \<notin> set (fst (fill_gaps f xs))"
  by (induction f xs rule: fill_gaps.induct) (auto simp: Let_def isnil_def split: prod.splits)

text \<open>The storage while it is trimmed: the first positions hold names, the others are null.\<close>

definition trimmed :: "string list \<Rightarrow> nat \<Rightarrow> PathArray" where
  "trimmed ss n = (let ls = map Some (take n ss) @ replicate (length ss - n) None
     in \<lparr>pa_elms = take chunk_size ls, pa_tail = drop chunk_size ls\<rparr>)"

lemma trim_fill_trimmed:
  assumes "chunk_size \<le> length ss" "n \<le> length ss"
  shows "trim_fill f n (trimmed ss n) =
    (let r = length (dropWhile (\<lambda>s. s = f) (rev (take n ss))) in (r - 1, trimmed ss r))"
  using assms(2)
proof (induction n)
  case (Suc n)
  have pos: "getPosition (trimmed ss (Suc n)) n = Some (Some (ss ! n))"
    using Suc.prems by (auto simp: getPosition_def trimmed_def Let_def nth_append)
  have ls: "(map Some (take (Suc n) ss) @ replicate (length ss - Suc n) None)[n := None]
      = map Some (take n ss) @ replicate (length ss - n) None"
    using Suc.prems
    by (simp add: take_Suc_conv_app_nth list_update_append Cons_replicate_eq Suc_diff_Suc [symmetric])
  have "setContent n None (trimmed ss (Suc n)) = trimmed ss n"
    unfolding setContent_def trimmed_def Let_def using ls [symmetric]
    by (auto simp: take_update_swap drop_update_swap list_update_beyond)
  then show ?case using pos Suc by (auto simp: take_Suc_conv_app_nth Let_def)
qed (simp add: trimmed_def)

lemma trimmed_cut:
  assumes "chunk_size \<le> length ss" "r \<le> length ss"
  shows "(if chunk_size - Suc 0 \<le> r - Suc 0 then (trimmed ss r)\<lparr>pa_tail := resizeTo (Suc (r - Suc 0) - chunk_size) (pa_tail (trimmed ss r))\<rparr>
          else (trimmed ss r)\<lparr>pa_tail := []\<rparr>) = pa_of (take r ss)"
proof (cases "chunk_size < r")
  case True
  then have "Suc (r - Suc 0) - chunk_size = r - chunk_size" "chunk_size - Suc 0 \<le> r - Suc 0" by simp_all
  then show ?thesis using True assms
    by (simp add: trimmed_def pa_of_def Let_def resizeTo_def take_map drop_map take_drop min_absorb2)
next
  case False
  then have "Suc (r - Suc 0) - chunk_size = 0" by (simp add: chunk_size_def)
  then show ?thesis using False assms
    by (simp add: trimmed_def pa_of_def Let_def take_map drop_map min_absorb1)
qed

lemma path_size_0: "wf_path pa \<Longrightarrow> path_size pa = 0 \<longleftrightarrow> pa = pa_of []"
proof
  assume wf: "wf_path pa" and "path_size pa = 0"
  then have "pa_tail pa = []" "findInlineEnd (pa_elms pa) = 0" by (auto simp: path_size_def split: if_splits)
  moreover from this have "\<forall>l\<in>set (pa_elms pa). l = None" by (simp add: findInlineEnd_def dropWhile_eq_Nil_conv)
  then have "pa_elms pa = replicate chunk_size None" using wf by (intro replicate_eqI) (simp_all add: wf_path_def)
  ultimately show "pa = pa_of []" by (simp add: pa_of_def)
qed simp

lemma norm_pa_of_Nil: "norm (raw (pa_of [])) = []"
  by (simp add: norm_def raw_def pa_of_def chunk_size_def numeral_eq_Suc isnil_def EMPTY_def)

theorem normalise_norm:
  assumes "wf_path pa"
  shows "normalise pa = pa_of (norm (raw pa))"
proof (cases "path_size pa = 0")
  case True
  then show ?thesis using path_size_0 [OF assms] by (simp add: normalise_def norm_pa_of_Nil)
next
  case False
  obtain es f where es: "fill_gaps EMPTY (pa_elms pa) = (es, f)" by fastforce
  obtain ts g where ts: "fill_gaps f (pa_tail pa) = (ts, g)" by fastforce
  have all: "fill_gaps EMPTY (raw pa) = (es @ ts, g)" by (simp add: raw_def fill_gaps_append es ts)
  define ss where "ss = map the (es @ ts)"
  have "None \<notin> set (es @ ts)" using fill_gaps_Some [of EMPTY "raw pa"] all by simp
  then have "Some (the x) = x" if "x \<in> set (es @ ts)" for x using that by (cases x) auto
  then have some: "es @ ts = map Some ss" unfolding ss_def map_map by (intro map_idI [symmetric]) simp
  have len: "length es = chunk_size" using fill_gaps_length [of EMPTY "pa_elms pa"] assms es by (simp add: wf_path_def)
  then have chunk: "chunk_size \<le> length ss" by (simp add: ss_def)
  have pa: "\<lparr>pa_elms = es, pa_tail = ts\<rparr> = trimmed ss (length ss)"
    using len some [symmetric] by (simp add: trimmed_def Let_def)
  have "trimmed ss (length ss) = pa_of ss" using chunk by (simp add: trimmed_def pa_of_def Let_def)
  then have size: "path_size (trimmed ss (length ss)) = length ss" by simp
  define r where "r = length (dropWhile (\<lambda>s. s = g) (rev ss))"
  have r: "r \<le> length ss" using length_dropWhile_le [of "\<lambda>s. s = g" "rev ss"] by (simp add: r_def)
  have "normalise pa = pa_of (take r ss)"
    using False trimmed_cut [OF chunk r]
    by (simp add: normalise_def es ts pa size trim_fill_trimmed [OF chunk] r_def [symmetric] Let_def split: if_splits)
  moreover have "take r ss = rev (dropWhile (\<lambda>s. s = g) (rev ss))"
    by (simp add: r_def dropWhile_eq_drop rev_drop)
  moreover have "norm (raw pa) = rev (dropWhile (\<lambda>s. s = g) (rev ss))"
    unfolding norm_def all split_conv Let_def some by (simp add: rev_map dropWhile_map o_def)
  ultimately show ?thesis by simp
qed

text \<open>The normal form: empty elements only before the first name, and no wildcard at the end.\<close>

definition filled :: "Literal \<Rightarrow> Literal" where
  "filled l = (if isnil l then Some ANY else l)"

lemma fill_gaps_ANY: "fill_gaps ANY ls = (map filled ls, ANY)"
  by (induction ls) (simp_all add: filled_def ANY_def EMPTY_def)

lemma fill_gaps_EMPTY:
  "fill_gaps EMPTY ls = (replicate (length (takeWhile isnil ls)) (Some EMPTY) @ map filled (dropWhile isnil ls),
     if dropWhile isnil ls = [] then EMPTY else ANY)"
  by (induction ls) (simp_all add: fill_gaps_ANY filled_def)

definition trim_any :: "string list \<Rightarrow> string list" where
  "trim_any ss = rev (dropWhile (\<lambda>s. s = ANY) (rev ss))"

lemma filled_Some: "filled l = Some (the (filled l))"
  by (cases l) (auto simp: filled_def isnil_def)

lemma map_the_trim: "map the (rev (dropWhile (\<lambda>l. l = Some f) (rev (map Some xs)))) = rev (dropWhile (\<lambda>s. s = f) (rev xs))"
  by (simp add: rev_map dropWhile_map o_def)

lemma trim_any_append: "trim_any (xs @ ys) = (if \<forall>s\<in>set ys. s = ANY then trim_any xs else xs @ trim_any ys)"
proof (cases "\<forall>s\<in>set ys. s = ANY")
  case True
  then have "dropWhile (\<lambda>s. s = ANY) (rev ys @ rev xs) = dropWhile (\<lambda>s. s = ANY) (rev xs)"
    by (intro dropWhile_append2) simp
  then show ?thesis using True by (simp add: trim_any_def)
next
  case False
  then obtain s where "s \<in> set (rev ys)" "s \<noteq> ANY" by auto
  then have "dropWhile (\<lambda>s. s = ANY) (rev ys @ rev xs) = dropWhile (\<lambda>s. s = ANY) (rev ys) @ rev xs"
    by (rule dropWhile_append1)
  then show ?thesis using False by (simp only: trim_any_def rev_append if_False rev_rev_ident)
qed

lemma norm_nil: "\<forall>l\<in>set ls. isnil l \<Longrightarrow> norm ls = []"
  unfolding norm_def fill_gaps_EMPTY by (simp add: dropWhile_eq_Nil_conv [THEN iffD2])

lemma norm_trim:
  assumes "l \<in> set ls" "\<not> isnil l"
  shows "norm ls = trim_any (replicate (length (takeWhile isnil ls)) EMPTY @ map (\<lambda>l. the (filled l)) (dropWhile isnil ls))"
proof -
  have some: "map filled (dropWhile isnil ls) = map Some (map (\<lambda>l. the (filled l)) (dropWhile isnil ls))"
    using filled_Some by (simp cong: map_cong)
  have "dropWhile isnil ls \<noteq> []" using assms by auto
  then show ?thesis
    unfolding norm_def fill_gaps_EMPTY some split_conv if_not_P [of "dropWhile isnil ls = []"] Let_def
      map_replicate [symmetric] trim_any_def map_append [symmetric]
    by (simp only: map_the_trim map_replicate [symmetric] if_not_P if_False)
qed

lemma trim_any_last: "trim_any ss \<noteq> [] \<Longrightarrow> last (trim_any ss) \<noteq> ANY"
proof -
  assume "trim_any ss \<noteq> []"
  then have "dropWhile (\<lambda>s. s = ANY) (rev ss) \<noteq> []" unfolding trim_any_def by (metis rev.simps(1))
  from hd_dropWhile [OF this] show ?thesis unfolding trim_any_def by (simp only: last_rev not_False_eq_True)
qed

lemma trim_any_prefix: "\<exists>k. ss = trim_any ss @ replicate k ANY"
proof -
  let ?t = "takeWhile (\<lambda>s. s = ANY) (rev ss)"
  have "?t = replicate (length ?t) ANY" by (rule replicate_eqI [OF refl]) (auto dest: set_takeWhileD)
  moreover have "ss = trim_any ss @ rev ?t" unfolding trim_any_def by (metis rev_append rev_rev_ident takeWhile_dropWhile_id)
  ultimately show "\<exists>k. ss = trim_any ss @ replicate k ANY" by (metis rev_replicate)
qed

lemma trim_any_ident: "ss \<noteq> [] \<Longrightarrow> last ss \<noteq> ANY \<Longrightarrow> trim_any ss = ss"
  by (cases ss rule: rev_cases) (simp_all add: trim_any_def)

text \<open>Real names of a path, and the form in which it is then kept.\<close>

definition real :: "Literal \<Rightarrow> bool" where
  "real l \<longleftrightarrow> \<not> isnil l \<and> l \<noteq> Some ANY"

definition normal :: "string list \<Rightarrow> bool" where
  "normal ss \<longleftrightarrow> (\<exists>n cs. ss = replicate n EMPTY @ cs \<and> cs \<noteq> [] \<and> EMPTY \<notin> set cs \<and> last cs \<noteq> ANY)"

lemma raw_pa_of: "raw (pa_of ss) = map Some ss @ replicate (chunk_size - length ss) None"
  by (cases "length ss < chunk_size") (simp_all add: raw_def pa_of_def)

lemma norm_normal:
  assumes "l \<in> set ls" "real l"
  shows "normal (norm ls)"
proof -
  let ?cs = "map (\<lambda>l. the (filled l)) (dropWhile isnil ls)"
  have l: "l \<in> set (dropWhile isnil ls)"
    using assms by (metis Un_iff real_def set_append set_takeWhileD takeWhile_dropWhile_id)
  have "the (filled l) \<noteq> ANY" using assms(2) by (cases l) (auto simp: real_def filled_def isnil_def)
  then have nall: "\<not> (\<forall>s\<in>set ?cs. s = ANY)" using l by auto
  have n: "norm ls = replicate (length (takeWhile isnil ls)) EMPTY @ trim_any ?cs"
    using norm_trim [OF assms(1)] assms(2) nall unfolding real_def by (simp only: trim_any_append if_False simp_thms)
  obtain k where k: "?cs = trim_any ?cs @ replicate k ANY" using trim_any_prefix by blast
  have ne: "trim_any ?cs \<noteq> []"
  proof
    assume "trim_any ?cs = []"
    then have "?cs = replicate k ANY" using k by simp
    then show False using nall by (metis in_set_replicate)
  qed
  have "the (filled l) \<noteq> EMPTY" for l
    by (cases l) (auto simp: filled_def isnil_def ANY_def EMPTY_def)
  then have "EMPTY \<notin> set ?cs" by (metis (mono_tags, lifting) ex_map_conv)
  then have "EMPTY \<notin> set (trim_any ?cs)" using k by (metis Un_iff set_append)
  then show ?thesis unfolding normal_def n using ne trim_any_last [OF ne] by blast
qed

lemma isnil_Some: "isnil (Some s) \<longleftrightarrow> s = EMPTY" "isnil None"
  by (simp_all add: isnil_def EMPTY_def)

lemma norm_ident:
  assumes "normal ss"
  shows "norm (map Some ss @ replicate k None) = ss"
proof -
  obtain n cs where ss: "ss = replicate n EMPTY @ cs" and cs: "cs \<noteq> []" "EMPTY \<notin> set cs" "last cs \<noteq> ANY"
    using assms by (auto simp: normal_def)
  let ?ls = "map Some ss @ replicate k None"
  obtain c cs' where c: "cs = c # cs'" "c \<noteq> EMPTY" using cs(1,2) by (cases cs) auto
  have drop: "dropWhile isnil ?ls = map Some cs @ replicate k None"
    unfolding ss by (induction n) (simp_all add: isnil_Some c)
  have take: "length (takeWhile isnil ?ls) = n"
    unfolding ss by (induction n) (simp_all add: isnil_Some c)
  have "map (\<lambda>l. the (filled l)) (map Some cs) = cs"
    unfolding map_map by (rule map_idI) (use cs(2) in \<open>auto simp: filled_def isnil_Some\<close>)
  then have map: "map (\<lambda>l. the (filled l)) (map Some cs @ replicate k None) = cs @ replicate k ANY"
    by (simp add: filled_def isnil_Some)
  have "Some c \<in> set ?ls" "\<not> isnil (Some c)" using c by (auto simp: ss isnil_Some)
  from norm_trim [OF this] show ?thesis
    unfolding drop take map using trim_any_ident [OF cs(1,3)] cs by (auto simp: trim_any_append ss)
qed

lemma norm_pad: "norm (ls @ replicate k None) = norm ls"
proof (cases "\<forall>l\<in>set ls. isnil l")
  case True
  then have "norm (ls @ replicate k None) = []" by (intro norm_nil) (auto simp: isnil_Some)
  then show ?thesis using True by (simp add: norm_nil)
next
  case False
  then obtain l where l: "l \<in> set ls" "\<not> isnil l" by blast
  then have drop: "dropWhile isnil (ls @ replicate k None) = dropWhile isnil ls @ replicate k None"
    and take: "takeWhile isnil (ls @ replicate k None) = takeWhile isnil ls"
    by (rule dropWhile_append1, rule takeWhile_append1)
  let ?R = "replicate (length (takeWhile isnil ls)) EMPTY @ map (\<lambda>l. the (filled l)) (dropWhile isnil ls)"
  have "norm (ls @ replicate k None) = trim_any (?R @ replicate k ANY)"
    using norm_trim [of l "ls @ replicate k None"] l unfolding drop take by (simp add: filled_def isnil_Some)
  then show ?thesis using norm_trim [OF l] trim_any_append [of ?R "replicate k ANY"] by simp
qed

lemma normalise_normal: "normal ss \<Longrightarrow> normalise (pa_of ss) = pa_of ss"
  by (simp add: normalise_norm raw_pa_of norm_ident)

subsection \<open>Operations on the sequence of names\<close>

lemma below_loop_pa_of:
  assumes "length ts \<le> length ss"
  shows "\<exists>i. below_loop (pa_of ss) (pa_of ts) j = Inr i
    \<and> (j \<le> length ts \<longrightarrow> (i = length ts \<longleftrightarrow> (\<forall>k. j \<le> k \<and> k < length ts \<longrightarrow> ss ! k = ts ! k \<or> ts ! k = ANY \<or> ts ! k = EMPTY)))"
proof (induction "length ts - j" arbitrary: j)
  case 0
  then show ?case by (subst below_loop.simps) auto
next
  case (Suc n)
  then have j: "j < length ts" by simp
  show ?case
  proof (cases "ss ! j = ts ! j \<or> ts ! j = ANY \<or> ts ! j = EMPTY")
    case True
    then have "below_loop (pa_of ss) (pa_of ts) j = below_loop (pa_of ss) (pa_of ts) (j + 1)"
      using j assms by (subst below_loop.simps) (simp add: path_at_pa_of isnil_Some)
    moreover have "(\<forall>k. j \<le> k \<and> k < length ts \<longrightarrow> P k) \<longleftrightarrow> P j \<and> (\<forall>k. j + 1 \<le> k \<and> k < length ts \<longrightarrow> P k)" for P
      using j by (auto simp: Suc_le_eq) (metis le_neq_implies_less)
    ultimately show ?thesis using True Suc(1) [of "j + 1"] Suc(2) j by auto
  next
    case False
    then have "below_loop (pa_of ss) (pa_of ts) j = Inr j"
      using j assms by (subst below_loop.simps) (simp add: path_at_pa_of isnil_Some)
    then show ?thesis using False j by auto
  qed
qed

lemma isExtendedBelow_pa_of:
  "isExtendedBelow (pa_of ss) (pa_of ts) = Inr (length ts < length ss
     \<and> (\<forall>k<length ts. ss ! k = ts ! k \<or> ts ! k = ANY \<or> ts ! k = EMPTY))"
proof (cases "length ss \<le> length ts")
  case False
  then obtain i where i: "below_loop (pa_of ss) (pa_of ts) 0 = Inr i"
    "i = length ts \<longleftrightarrow> (\<forall>k<length ts. ss ! k = ts ! k \<or> ts ! k = ANY \<or> ts ! k = EMPTY)"
    using below_loop_pa_of [of ts ss 0] by auto
  then show ?thesis using False by (simp add: isExtendedBelow_def i(2) [symmetric])
qed (simp add: isExtendedBelow_def)

lemma path_eq_pa_of:
  assumes "normal ss" "normal ts"
  shows "path_eq (pa_of ss) (pa_of ts) \<longleftrightarrow> ss = ts"
proof
  assume eq: "path_eq (pa_of ss) (pa_of ts)"
  obtain n cs where ss: "ss = replicate n EMPTY @ cs" "cs \<noteq> []" "EMPTY \<notin> set cs" using assms(1) by (auto simp: normal_def)
  obtain m ds where ts: "ts = replicate m EMPTY @ ds" "ds \<noteq> []" "EMPTY \<notin> set ds" using assms(2) by (auto simp: normal_def)
  have skip: "dropWhile (\<lambda>s. s = []) (replicate i EMPTY @ xs) = xs" if "xs \<noteq> []" "EMPTY \<notin> set xs" for i xs
    using that by (induction i; cases xs) (auto simp: EMPTY_def)
  have "cs = ds" using eq by (simp add: path_eq_def path_begin_pa_of ss ts skip map_injective)
  moreover have "length ss = length ts" using eq by (simp add: path_eq_def)
  ultimately show "ss = ts" by (simp add: ss ts)
qed (simp add: path_eq_def)

text \<open>The content of positions in the storage, whatever is in between.\<close>

lemma raw_setContent:
  "wf_path pa \<Longrightarrow> raw (setContent i v pa) = (raw pa)[i := v]"
  by (auto simp: raw_def setContent_def wf_path_def list_update_append)

lemma wf_setContent [simp]: "wf_path (setContent i v pa) = wf_path pa"
  by (simp add: setContent_def wf_path_def)

lemma wf_expandPosition [simp]: "wf_path (expandPosition i pa) = wf_path pa"
  by (simp add: expandPosition_def wf_path_def)

lemma path_size_raw: "wf_path pa \<Longrightarrow> pa_tail pa \<noteq> [] \<Longrightarrow> path_size pa = length (raw pa)"
  by (simp add: path_size_def raw_def wf_path_def)

lemma expand_noop: "wf_path pa \<Longrightarrow> i < length (raw pa) \<Longrightarrow> expandPosition i pa = pa"
  by (cases "pa_tail pa = []") (auto simp: expandPosition_def path_size_raw raw_def wf_path_def)

lemma raw_expand:
  assumes "wf_path pa"
  shows "\<exists>rs. raw (expandPosition i pa) = raw pa @ rs \<and> i < length (raw (expandPosition i pa))"
proof (cases "i < length (raw pa)")
  case True
  then show ?thesis using expand_noop [OF assms] by simp
next
  case False
  then have i: "chunk_size \<le> i" "path_size pa \<le> i" "length (pa_tail pa) \<le> i - chunk_size"
    using assms findInlineEnd_def [of "pa_elms pa"] length_dropWhile_le [of "\<lambda>l. l = None" "rev (pa_elms pa)"]
    by (auto simp: raw_def wf_path_def path_size_def)
  then show ?thesis using assms
    by (auto simp: expandPosition_def raw_def resizeTo_def wf_path_def)
qed

lemma raw_set_all:
  assumes "wf_path pa" "idx + n \<le> length (raw pa)"
  shows "wf_path (fold (\<lambda>i pa. setContent (idx + i) (f i) (expandPosition (idx + i) pa)) [0..<n] pa)
    \<and> raw (fold (\<lambda>i pa. setContent (idx + i) (f i) (expandPosition (idx + i) pa)) [0..<n] pa)
      = take idx (raw pa) @ map f [0..<n] @ drop (idx + n) (raw pa)"
  using assms(2)
proof (induction n)
  case (Suc n)
  let ?pa = "fold (\<lambda>i pa. setContent (idx + i) (f i) (expandPosition (idx + i) pa)) [0..<n] pa"
  have wf: "wf_path ?pa" and raw: "raw ?pa = take idx (raw pa) @ map f [0..<n] @ drop (idx + n) (raw pa)"
    using Suc by simp_all
  have "expandPosition (idx + n) ?pa = ?pa" by (rule expand_noop [OF wf]) (use raw Suc.prems in simp)
  moreover have "drop (idx + n) (raw pa) = raw pa ! (idx + n) # drop (Suc (idx + n)) (raw pa)"
    using Suc.prems by (simp add: Cons_nth_drop_Suc)
  ultimately show ?case
    using wf raw Suc.prems by (simp add: raw_setContent list_update_append min_absorb2)
qed (use assms(1) in simp)

lemma raw_null_all:
  assumes "wf_path pa" "idx \<le> n" "n \<le> length (raw pa)"
  shows "wf_path (fold (\<lambda>i pa. setContent i None (expandPosition i pa)) [idx..<n] pa)
    \<and> raw (fold (\<lambda>i pa. setContent i None (expandPosition i pa)) [idx..<n] pa)
      = take idx (raw pa) @ replicate (n - idx) None @ drop n (raw pa)"
proof -
  have "[idx..<n] = map ((+) idx) [0..<n - idx]"
    using assms(2) map_add_upt [of idx "n - idx"] by (metis (no_types, lifting) add.commute le_add_diff_inverse2 map_eq_conv)
  moreover have "fold (\<lambda>i pa. setContent i None (expandPosition i pa)) (map ((+) idx) [0..<n - idx]) pa
      = fold (\<lambda>i pa. setContent (idx + i) None (expandPosition (idx + i) pa)) [0..<n - idx] pa"
    by (simp add: fold_map comp_def)
  ultimately show ?thesis
    using raw_set_all [OF assms(1), of idx "n - idx" "\<lambda>_. None"] assms(2,3) by (simp add: map_replicate_const)
qed

text \<open>What is in the storage behind the size is null.\<close>

lemma raw_behind_size:
  assumes "wf_path pa"
  shows "\<exists>k. raw pa = take (path_size pa) (raw pa) @ replicate k None"
proof (cases "pa_tail pa = []")
  case True
  let ?t = "takeWhile (\<lambda>l. l = None) (rev (pa_elms pa))" and ?d = "dropWhile (\<lambda>l. l = None) (rev (pa_elms pa))"
  have "pa_elms pa = rev ?d @ rev ?t" by (metis rev_append rev_rev_ident takeWhile_dropWhile_id)
  moreover have "?t = replicate (length ?t) None" by (rule replicate_eqI [OF refl]) (auto dest: set_takeWhileD)
  moreover have "take (length ?d) (rev ?d @ rev ?t) = rev ?d" by simp
  ultimately have "pa_elms pa = take (length ?d) (pa_elms pa) @ replicate (length ?t) None" by (metis rev_replicate)
  then show ?thesis using True by (auto simp: raw_def path_size_def findInlineEnd_def)
next
  case False
  then show ?thesis using path_size_raw [OF assms] by (intro exI [of _ 0]) simp
qed

lemma norm_setTailElms:
  assumes "wf_path pa" "idx \<le> length (raw pa)"
  shows "normalise (setTailElms idx es pa) = pa_of (norm (take idx (raw pa) @ map Some es))"
proof -
  let ?n = "length es"
  define pa1 where "pa1 = expandPosition (idx + ?n) pa"
  define pa2 where "pa2 = fold (\<lambda>i pa. setContent (idx + i) (Some (es ! i)) (expandPosition (idx + i) pa)) [0..<?n] pa1"
  define pa3 where "pa3 = fold (\<lambda>i pa. setContent i None (expandPosition i pa)) [idx + ?n..<path_size pa2] pa2"
  obtain rs where rs: "raw pa1 = raw pa @ rs" and len: "idx + ?n < length (raw pa1)"
    using raw_expand [OF assms(1), of "idx + ?n"] by (auto simp: pa1_def)
  have wf1: "wf_path pa1" using assms(1) by (simp add: pa1_def)
  have take: "take idx (raw pa1) = take idx (raw pa)" using rs assms(2) by simp
  have es: "map (\<lambda>i. Some (es ! i)) [0..<?n] = map Some es"
    by (metis (no_types, lifting) map_nth map_map comp_apply map_eq_conv)
  have wf2: "wf_path pa2" and raw2: "raw pa2 = take idx (raw pa) @ map Some es @ drop (idx + ?n) (raw pa1)"
    using raw_set_all [OF wf1, of idx ?n "\<lambda>i. Some (es ! i)"] len by (simp_all add: pa2_def take es)
  obtain k where k: "raw pa2 = take (path_size pa2) (raw pa2) @ replicate k None" using raw_behind_size [OF wf2] by blast
  have prefix: "take (idx + ?n) (raw pa2) = take idx (raw pa) @ map Some es"
    using assms(2) by (simp add: raw2)
  have "wf_path pa3 \<and> (\<exists>j. raw pa3 = take idx (raw pa) @ map Some es @ replicate j None)"
  proof (cases "idx + ?n \<le> path_size pa2")
    case True
    have size: "path_size pa2 \<le> length (raw pa2)"
    proof (cases "pa_tail pa2 = []")
      case nil: True
      have "length (dropWhile (\<lambda>l. l = None) (rev (pa_elms pa2))) \<le> length (rev (pa_elms pa2))" by (rule length_dropWhile_le)
      then show ?thesis using nil by (simp add: path_size_def findInlineEnd_def raw_def)
    qed (simp add: path_size_raw wf2)
    have "drop (path_size pa2) (raw pa2) = replicate k None"
      using k size by (metis append_eq_conv_conj length_take min.absorb2)
    then show ?thesis using raw_null_all [OF wf2 True size] prefix
      by (auto simp: pa3_def replicate_add [symmetric])
  next
    case False
    have "drop (idx + ?n) (T @ replicate k None) = replicate (k - (idx + ?n - length T)) None"
      if "length T \<le> idx + ?n" for T :: "Literal list" using that by simp
    from this [of "take (path_size pa2) (raw pa2)"]
    have "drop (idx + ?n) (raw pa2) = replicate (k - (idx + ?n - length (take (path_size pa2) (raw pa2)))) None"
      using False k by simp
    then have "raw pa2 = take idx (raw pa) @ map Some es @ replicate (k - (idx + ?n - length (take (path_size pa2) (raw pa2)))) None"
      using prefix by (metis append.assoc append_take_drop_id)
    then show ?thesis using False wf2 by (auto simp: pa3_def)
  qed
  then show ?thesis
    using normalise_norm norm_pad [of "take idx (raw pa) @ map Some es"]
    unfolding setTailElms_def Let_def pa1_def [symmetric] pa2_def [symmetric] pa3_def [symmetric] by force
qed

text \<open>A name stays at its position.\<close>

lemma norm_nth:
  assumes "i < length ls" "real (ls ! i)"
  shows "i < length (norm ls) \<and> Some (norm ls ! i) = ls ! i"
proof -
  let ?n = "length (takeWhile isnil ls)"
  let ?X = "replicate ?n EMPTY @ map (\<lambda>l. the (filled l)) (dropWhile isnil ls)"
  have "?n \<le> i"
    using assms nth_length_takeWhile [of isnil ls] by (metis linorder_not_le nth_mem real_def set_takeWhileD takeWhile_nth)
  moreover have len: "?n + length (dropWhile isnil ls) = length ls" by (metis length_append takeWhile_dropWhile_id)
  ultimately have "?X ! i = the (filled (dropWhile isnil ls ! (i - ?n)))" "length ?X = length ls"
    using assms(1) by (simp_all add: nth_append)
  moreover have "dropWhile isnil ls ! (i - ?n) = ls ! i"
    using \<open>?n \<le> i\<close> by (metis linorder_not_le nth_append takeWhile_dropWhile_id)
  ultimately have X: "?X ! i = the (filled (ls ! i))" "length ?X = length ls" by metis+
  have name: "Some (the (filled (ls ! i))) = ls ! i" "the (filled (ls ! i)) \<noteq> ANY"
    using assms(2) by (cases "ls ! i"; auto simp: filled_def real_def isnil_def)+
  have "norm ls = trim_any ?X" using norm_trim [of "ls ! i" ls] assms by (simp add: real_def)
  then obtain k where k: "?X = norm ls @ replicate k ANY" using trim_any_prefix by metis
  have "i < length (norm ls)"
  proof (rule ccontr)
    assume "\<not> i < length (norm ls)"
    then have "?X ! i = ANY" using k X(2) assms(1) by (simp add: nth_append)
    then show False using X(1) name(2) by simp
  qed
  then show ?thesis using k X(1) name(1) by (metis nth_append)
qed



text \<open>Extension of coordinates is a strict order. For any paths of names, of whatever length, the
  comparison returns, a path does not extend itself, and what extends a path that extends another
  one, also extends that, wildcards and missing elements of the shorter ones included; so no two
  paths extend each other. Paths in normal form are equal only when they have the same names at the same places.\<close>

theorem extension_is_order:
  "(\<exists>b. isExtendedBelow (pa_of ss) (pa_of ts) = Inr b)
   \<and> isExtendedBelow (pa_of ss) (pa_of ss) = Inr False
   \<and> (isExtendedBelow (pa_of ss) (pa_of ts) = Inr True \<and> isExtendedBelow (pa_of ts) (pa_of us) = Inr True
      \<longrightarrow> isExtendedBelow (pa_of ss) (pa_of us) = Inr True)
   \<and> (normal ss \<and> normal ts \<longrightarrow> path_eq (pa_of ss) (pa_of ts) = (ss = ts))"
proof (intro conjI impI)
  assume *: "isExtendedBelow (pa_of ss) (pa_of ts) = Inr True \<and> isExtendedBelow (pa_of ts) (pa_of us) = Inr True"
  have "ss ! k = us ! k \<or> us ! k = ANY \<or> us ! k = EMPTY" if "k < length us" for k
  proof -
    have "ts ! k = us ! k \<or> us ! k = ANY \<or> us ! k = EMPTY" "ss ! k = ts ! k \<or> ts ! k = ANY \<or> ts ! k = EMPTY"
      using * that by (auto simp: isExtendedBelow_pa_of)
    then show ?thesis by auto
  qed
  then show "isExtendedBelow (pa_of ss) (pa_of us) = Inr True" using * by (auto simp: isExtendedBelow_pa_of)
next
  assume "normal ss \<and> normal ts"
  then show "path_eq (pa_of ss) (pa_of ts) = (ss = ts)" using path_eq_pa_of by blast
qed (simp_all add: isExtendedBelow_pa_of)

theorem extension_is_order_witness:
  "isExtendedBelow (pa_of [''w'', ''p'', ''n'', ''v'']) (pa_of [''w'', ''*'']) = Inr True"
proof -
  have "isExtendedBelow (pa_of [''w'', ''p'', ''n'', ''v'']) (pa_of [''w'', ''p'', ''*'']) = Inr True"
    "isExtendedBelow (pa_of [''w'', ''p'', ''*'']) (pa_of [''w'', ''*'']) = Inr True"
    by (simp_all add: isExtendedBelow_pa_of ANY_def less_Suc_eq numeral_eq_Suc)
  then show ?thesis using extension_is_order by blast
qed

end
