(* ===== verification/UICoordResolver.thy ===== *)
theory UICoordResolver
  imports UICoord IterExplorer
begin

text \<open>
  Resolution of coordinates against the actual user interface: \<open>UICoordResolver\<close> of
  \<open>stage/interact/ui-coord-resolver.hpp\<close> and \<open>.cpp\<close>, and the \<open>UILocationSolver\<close>. The interface is
  reached through the abstract \<open>LocationQuery\<close>, whose implementation in the application is still
  missing; here it is a record of its functions. Shown is that the search through the tree of
  the interface, with backtracking, finds the first of the deepest matches, and what a solution is.
\<close>

subsection \<open>The interface as a tree\<close>

datatype UIElement = UIElement (elm_id: string) (elm_children: "UIElement list")

text \<open>
  The sequence of children is an iterator on the siblings, with the ability to expand into their
  children; the model holds the elements.
\<close>

record LocationQuery =
  determineAnchor :: "PathArray \<Rightarrow> Literal"
  determineCoverage :: "PathArray \<Rightarrow> nat"
  getChildren :: "PathArray \<Rightarrow> nat \<Rightarrow> UIElement list result"

type_synonym ChildIter = "(UIElement list, UIElement list) Expander ScheduledExpander"

definition expand_children :: "(UIElement list, UIElement list) src_functor" where
  "expand_children siblings = (if siblings = [] then Inl ITER_EXHAUST else Inr (elm_children (hd siblings), siblings))"

definition child_core :: "(ChildIter, UIElement) StateCore" where
  "child_core = ScheduledExpander_core range_core range_core expand_children expand_children"

definition child_iter :: "UIElement list \<Rightarrow> ChildIter" where
  "child_iter siblings = \<lparr>se_base = Expander_new siblings, shallExpand = False\<rparr>"

subsection \<open>The search\<close>

record PathManipulator =
  pm_path :: PathArray
  currDepth :: nat

definition PathManipulator_new :: PathManipulator where
  "PathManipulator_new = \<lparr>pm_path = PathArray_new [], currDepth = 0\<rparr>"

definition retrieveResult :: "PathManipulator \<Rightarrow> PathManipulator" where
  "retrieveResult pm = pm\<lparr>pm_path := truncateTo (currDepth pm) (pm_path pm)\<rparr>"

definition setAt :: "nat \<Rightarrow> Literal \<Rightarrow> PathManipulator \<Rightarrow> PathManipulator" where
  "setAt depth newSpec pm =
     \<lparr>pm_path = setContent depth newSpec (expandPosition depth (pm_path pm)), currDepth = depth + 1\<rparr>"

fun wildcardFree_from :: "PathArray \<Rightarrow> nat \<Rightarrow> nat result" where
  "wildcardFree_from uic 0 = Inr 0"
| "wildcardFree_from uic (Suc pos) = bind_result (path_at uic pos) (\<lambda>elm.
     if elm = Some ANY \<or> elm = Some EMPTY then Inr (Suc pos) else wildcardFree_from uic pos)"

definition find_wildcardFree_suffix :: "PathArray \<Rightarrow> nat result" where
  "find_wildcardFree_suffix uic = wildcardFree_from uic (path_size uic)"

record Resolution =
  res_anchor :: Literal
  res_depth :: nat
  covfefe :: "PathArray option"
  isResolved :: bool

record UICoordResolver =
  r_uic :: PathArray
  r_res :: Resolution

definition isAnchored :: "UICoordResolver \<Rightarrow> bool" where
  "isAnchored r \<longleftrightarrow> res_anchor (r_res r) \<noteq> None \<and> res_anchor (r_res r) \<noteq> Some BOTTOM"

definition wildMatch :: "UICoordResolver \<Rightarrow> Literal \<Rightarrow> Literal \<Rightarrow> nat \<Rightarrow> bool" where
  "wildMatch r patt cur depth \<longleftrightarrow> patt = Some ANY \<or> patt = Some EMPTY \<or> patt = Some UIC_ELIDED
     \<or> isAnchored r \<and> cur = res_anchor (r_res r) \<and> depth = UIC_WINDOW"

text \<open>
  The first filter matches the current element and schedules its expansion; the result tells whether
  it counts as a solution. The second one picks the solutions that bind all wildcards and reach
  further than those before; each replaces the one before.
\<close>

definition match_element ::
  "UICoordResolver \<Rightarrow> nat \<Rightarrow> ChildIter \<Rightarrow> PathManipulator \<Rightarrow> (bool \<times> ChildIter \<times> PathManipulator) result" where
  "match_element r coordDepth iter coverage =
     (let depth = ex_depth (se_base iter) in
      if coordDepth \<le> depth then Inr (False, iter, coverage)
      else bind_result (path_at (r_uic r) depth) (\<lambda>patt.
           bind_result (yield child_core iter) (\<lambda>(elm, iter).
             let cur = Some (elm_id elm);
                 (iter, coverage) = (if patt = cur \<or> wildMatch r patt cur depth
                    then (se_expandChildren iter, setAt depth cur coverage) else (iter, coverage))
             in Inr (patt = cur \<or> patt = Some UIC_ELIDED, iter, coverage))))"

partial_function (option) search_loop ::
  "UICoordResolver \<Rightarrow> nat \<Rightarrow> nat \<Rightarrow> ChildIter \<Rightarrow> PathManipulator \<Rightarrow> nat \<Rightarrow> PathArray option \<Rightarrow> PathArray option partial_result" where
  "search_loop r coordDepth minSolutionDepth iter coverage maxDepth best =
     (if \<not> checkPoint child_core iter then Some (Inr best)
      else case match_element r coordDepth iter coverage of
          Inl e \<Rightarrow> Some (Inl e)
        | Inr x \<Rightarrow>
            (let depth = ex_depth (se_base (fst (snd x)));
                 accept = fst x \<and> \<not> depth < minSolutionDepth \<and> \<not> depth + 1 \<le> maxDepth;
                 coverage = (if accept then retrieveResult (snd (snd x)) else snd (snd x));
                 best = (if accept then Some (pm_path coverage) else best);
                 maxDepth = (if accept then depth + 1 else maxDepth)
             in case iterNext child_core (fst (snd x)) of
                 None \<Rightarrow> None
               | Some (Inl e) \<Rightarrow> Some (Inl e)
               | Some (Inr iter) \<Rightarrow> search_loop r coordDepth minSolutionDepth iter coverage maxDepth best))"

definition pathResolution :: "LocationQuery \<Rightarrow> UICoordResolver \<Rightarrow> (bool \<times> UICoordResolver) partial_result" where
  "pathResolution query r =
     bind_partial (Some (find_wildcardFree_suffix (r_uic r))) (\<lambda>minSolutionDepth.
     bind_partial (Some (getChildren query (r_uic r) 0)) (\<lambda>children.
     bind_partial (search_loop r (path_size (r_uic r)) minSolutionDepth (child_iter children) PathManipulator_new 0 None) (\<lambda>best.
     case best of
       None \<Rightarrow> Some (Inr (False, r\<lparr>r_res := (r_res r)\<lparr>isResolved := True\<rparr>\<rparr>))
     | Some c \<Rightarrow>
         let anchor = getWindow c;
             depth = (if res_depth (r_res r) = 0 then determineCoverage query (r_uic r) else res_depth (r_res r));
             depth = (if depth = 0 \<and> anchor \<noteq> None then 1 else depth)
         in Some (Inr (path_size c = path_size (r_uic r),
              r\<lparr>r_res := \<lparr>res_anchor = anchor, res_depth = depth, covfefe = Some c, isResolved = True\<rparr>\<rparr>)))))"

subsection \<open>The iteration on the tree\<close>

text \<open>
  The state of the iteration as a stack of siblings, the deepest first: the first sibling is the current
  one, and at the other levels the one whose children are being visited.
\<close>

definition se_of :: "UIElement list list \<Rightarrow> ChildIter" where
  "se_of fs = \<lparr>se_base = \<lparr>ex_src = last fs, ex_expansions = butlast fs\<rparr>, shallExpand = False\<rparr>"

fun advance :: "UIElement list list \<Rightarrow> UIElement list list" where
  "advance [] = []"
| "advance [xs] = [tl xs]"
| "advance (xs # ys # fs) = (if tl xs = [] then advance (ys # fs) else tl xs # ys # fs)"

definition descend :: "UIElement list list \<Rightarrow> UIElement list list" where
  "descend fs = (if elm_children (hd (hd fs)) = [] then advance fs else elm_children (hd (hd fs)) # fs)"

definition good_frames :: "UIElement list list \<Rightarrow> bool" where
  "good_frames fs \<longleftrightarrow> fs \<noteq> [] \<and> [] \<notin> set (tl fs) \<and> (tl fs \<noteq> [] \<longrightarrow> hd fs \<noteq> [])"

lemma ex_depth_se_of: "ex_depth (se_base (se_of fs)) = length fs - 1"
  by (simp add: se_of_def ex_depth_def)

lemma checkPoint_se_of: "good_frames fs \<Longrightarrow> checkPoint child_core (se_of fs) \<longleftrightarrow> hd fs \<noteq> []"
  by (cases fs; cases "tl fs")
    (auto simp: good_frames_def child_core_def ScheduledExpander_core_def Let_def CheckedCore_def Expander_core_def
      se_of_def hasChildren_def ex_depth_def range_core_def)

lemma yield_se_of: "good_frames fs \<Longrightarrow> hd fs \<noteq> [] \<Longrightarrow> yield child_core (se_of fs) = Inr (hd (hd fs), se_of fs)"
  by (cases fs; cases "tl fs")
    (auto simp: good_frames_def child_core_def ScheduledExpander_core_def Let_def CheckedCore_def Expander_core_def
      se_of_def hasChildren_def ex_depth_def range_core_def throw_if_empty_def)

lemma drop_exhausted_frames:
  "xs \<noteq> [] \<or> fs \<noteq> [] \<Longrightarrow> [] \<notin> set fs \<Longrightarrow>
   dropExhaustedChildren range_core range_core (se_base (se_of (xs # fs)))
     = Some (Inr (se_base (se_of (if xs = [] then advance fs else xs # fs))))"
proof (induction fs arbitrary: xs)
  case Nil
  then show ?case
    by (subst dropExhaustedChildren.simps) (simp add: se_of_def ex_invariant_def hasChildren_def ex_depth_def)
next
  case (Cons ys fs)
  show ?case
  proof (cases "xs = []")
    case False
    then show ?thesis
      by (subst dropExhaustedChildren.simps)
        (simp add: se_of_def ex_invariant_def hasChildren_def ex_depth_def range_core_def)
  next
    case True
    have step: "incrementCurrent range_core range_core (se_base (se_of (ys # fs))) = Some (Inr (se_base (se_of (tl ys # fs))))"
      using Cons.prems by (cases fs) (auto simp: incrementCurrent_def se_of_def range_core_def)
    have pop: "(se_base (se_of (xs # ys # fs)))\<lparr>ex_expansions := tl (ex_expansions (se_base (se_of (xs # ys # fs))))\<rparr>
        = se_base (se_of (ys # fs))"
      by (simp add: se_of_def)
    have inv: "\<not> ex_invariant range_core (se_base (se_of (xs # ys # fs)))"
      using True by (simp add: se_of_def ex_invariant_def hasChildren_def ex_depth_def range_core_def)
    have "dropExhaustedChildren range_core range_core (se_base (se_of (tl ys # fs)))
        = Some (Inr (se_base (se_of (advance (ys # fs)))))"
    proof (cases fs)
      case Nil
      then show ?thesis
        by (subst dropExhaustedChildren.simps) (simp add: se_of_def ex_invariant_def hasChildren_def ex_depth_def)
    next
      case (Cons zs gs)
      then show ?thesis using Cons.IH [of "tl ys"] Cons.prems by (simp split: if_splits)
    qed
    then show ?thesis using True step inv by (subst dropExhaustedChildren.simps) (simp add: pop [unfolded True])
  qed
qed

lemma ex_iterNext_frames:
  assumes "good_frames fs" "hd fs \<noteq> []"
  shows "ex_iterNext range_core range_core (se_base (se_of fs)) = Some (Inr (se_base (se_of (advance fs))))"
proof -
  obtain xs gs where fs: "fs = xs # gs" using assms(1) by (cases fs) (auto simp: good_frames_def)
  have "incrementCurrent range_core range_core (se_base (se_of fs)) = Some (Inr (se_base (se_of (tl xs # gs))))"
    using assms(2) by (cases gs) (auto simp: fs incrementCurrent_def se_of_def range_core_def)
  moreover have "dropExhaustedChildren range_core range_core (se_base (se_of (tl xs # gs)))
      = Some (Inr (se_base (se_of (advance fs))))"
  proof (cases gs)
    case Nil
    then show ?thesis
      by (subst dropExhaustedChildren.simps) (simp add: fs se_of_def ex_invariant_def hasChildren_def ex_depth_def)
  next
    case (Cons ys hs)
    then show ?thesis using drop_exhausted_frames [of "tl xs" gs] assms(1) by (auto simp: fs good_frames_def)
  qed
  ultimately show ?thesis by (simp add: ex_iterNext_def)
qed

lemma se_of_base: "\<lparr>se_base = se_base (se_of fs), shallExpand = False\<rparr> = se_of fs"
  by (simp add: se_of_def)

lemma iterNext_skip:
  assumes "good_frames fs" "hd fs \<noteq> []"
  shows "iterNext child_core (se_of fs) = Some (Inr (se_of (advance fs)))"
proof -
  have "checkPoint child_core (se_of fs)" using assms by (simp add: checkPoint_se_of)
  then have "throw_if_empty (Expander_core range_core range_core) (se_base (se_of fs)) = Inr ()"
    by (simp add: throw_if_empty_def child_core_def ScheduledExpander_core_def Let_def CheckedCore_def)
  moreover have "shallExpand (se_of fs) = False" by (simp add: se_of_def)
  moreover have "iterNext (Expander_core range_core range_core) (se_base (se_of fs)) = Some (Inr (se_base (se_of (advance fs))))"
    using ex_iterNext_frames [OF assms] by (simp add: Expander_core_def)
  ultimately show ?thesis
    by (simp add: child_core_def ScheduledExpander_core_def Let_def CheckedCore_def) (simp add: se_of_def)
qed

lemma good_advance: "good_frames fs \<Longrightarrow> good_frames (advance fs)"
  by (induction fs rule: advance.induct) (auto simp: good_frames_def)

lemma good_descend: "good_frames fs \<Longrightarrow> hd fs \<noteq> [] \<Longrightarrow> good_frames (descend fs)"
  using good_advance [of fs] by (cases fs) (auto simp: descend_def good_frames_def)

lemma iterNext_expand:
  assumes "good_frames fs" "hd fs \<noteq> []"
  shows "iterNext child_core (se_expandChildren (se_of fs)) = Some (Inr (se_of (descend fs)))"
proof -
  let ?x = "se_base (se_of fs)"
  have "checkPoint child_core (se_of fs)" using assms by (simp add: checkPoint_se_of)
  then have cp: "checkPoint (Expander_core range_core range_core) ?x"
    by (simp add: child_core_def ScheduledExpander_core_def Let_def CheckedCore_def)
  obtain xs gs where fs: "fs = xs # gs" using assms(1) by (cases fs) (auto simp: good_frames_def)
  have inv: "ex_invariant range_core (se_base (se_of hs))" if "good_frames hs" for hs
    using that by (cases hs; cases "tl hs") (auto simp: good_frames_def se_of_def ex_invariant_def hasChildren_def ex_depth_def range_core_def)
  have cur: "expand_current expand_children expand_children ?x = Inr (elm_children (hd xs), ?x)"
    using assms by (cases gs) (auto simp: fs expand_current_def se_of_def expand_children_def)
  have push: "?x\<lparr>ex_expansions := cs # ex_expansions ?x\<rparr> = se_base (se_of (cs # fs))" for cs
    by (simp add: fs se_of_def)
  have "expandChildren range_core range_core expand_children expand_children ?x = Some (Inr (se_base (se_of (descend fs))))"
  proof (cases "elm_children (hd xs) = []")
    case True
    then have "descend fs = advance fs" by (simp add: descend_def fs)
    then show ?thesis
      using True cp inv [OF assms(1)] inv [OF good_advance [OF assms(1)]] ex_iterNext_frames [OF assms]
      by (simp add: expandChildren_def require_def cur range.checkPoint_iff)
  next
    case False
    then have "descend fs = elm_children (hd xs) # fs" by (simp add: descend_def fs)
    moreover from this have "good_frames (elm_children (hd xs) # fs)" using good_descend [OF assms] by simp
    ultimately show ?thesis
      using False cp inv [OF assms(1)] inv
      by (simp add: expandChildren_def require_def cur push stack_push_def range.checkPoint_iff)
  qed
  then show ?thesis
    using cp by (simp add: child_core_def ScheduledExpander_core_def Let_def se_expandChildren_def CheckedCore_def
        throw_if_empty_def) (simp add: se_of_def)
qed

subsection \<open>What the search visits\<close>

definition names :: "UIElement list \<Rightarrow> string set" where
  "names ts = elm_id ` set ts"

fun tree_path :: "UIElement list \<Rightarrow> string list \<Rightarrow> bool" where
  "tree_path ts [] = True"
| "tree_path ts (n # ns) = (\<exists>t\<in>set ts. elm_id t = n \<and> tree_path (elm_children t) ns)"

text \<open>The anchor of the resolution stands for the window, wherever the pattern has a symbolic one.\<close>

definition fits :: "Literal \<Rightarrow> string list \<Rightarrow> string \<Rightarrow> nat \<Rightarrow> bool" where
  "fits anchor ss n d \<longleftrightarrow> d < length ss \<and> (ss ! d = n \<or> ss ! d \<in> {ANY, EMPTY, UIC_ELIDED}
     \<or> anchor \<noteq> Some BOTTOM \<and> anchor = Some n \<and> d = 0)"

fun node_count :: "UIElement \<Rightarrow> nat" where
  "node_count (UIElement n cs) = Suc (sum_list (map node_count cs))"

lemma node_count_children: "node_count t = Suc (sum_list (map node_count (elm_children t)))"
  by (cases t) simp

function visits :: "Literal \<Rightarrow> string list \<Rightarrow> string list \<Rightarrow> UIElement list \<Rightarrow> string list list" where
  "visits anchor ss p [] = []"
| "visits anchor ss p (t # ts) =
     (if fits anchor ss (elm_id t) (length p)
      then (p @ [elm_id t]) # visits anchor ss (p @ [elm_id t]) (elm_children t) else [])
     @ visits anchor ss p ts"
  by pat_completeness auto
termination visits
  by (relation "measure (\<lambda>(anchor, ss, p, ts). sum_list (map node_count ts))") (auto simp: node_count_children)

lemma visits_paths:
  "q \<in> set (visits anchor ss p ts) \<longleftrightarrow> (\<exists>ns. q = p @ ns \<and> ns \<noteq> [] \<and> tree_path ts ns
     \<and> (\<forall>i<length ns. fits anchor ss (ns ! i) (length p + i)))"
proof (induction anchor ss p ts arbitrary: q rule: visits.induct)
  case (1 anchor ss p)
  then show ?case by (auto simp: neq_Nil_conv)
next
  case (2 anchor ss p t ts)
  let ?P = "\<lambda>ns. \<forall>i<length ns. fits anchor ss (ns ! i) (length p + i)"
  have split: "?P (n # ns) \<longleftrightarrow> fits anchor ss n (length p) \<and> (\<forall>i<length ns. fits anchor ss (ns ! i) (length (p @ [n]) + i))" for n ns
    by (auto simp: All_less_Suc2)
  have here: "q \<in> set (if fits anchor ss (elm_id t) (length p)
      then (p @ [elm_id t]) # visits anchor ss (p @ [elm_id t]) (elm_children t) else [])
    \<longleftrightarrow> (\<exists>ns. q = p @ elm_id t # ns \<and> tree_path (elm_children t) ns \<and> ?P (elm_id t # ns))"
  proof (cases "fits anchor ss (elm_id t) (length p)")
    case True
    then have "(\<exists>ns. q = p @ elm_id t # ns \<and> tree_path (elm_children t) ns \<and> ?P (elm_id t # ns))
      \<longleftrightarrow> q = p @ [elm_id t] \<or> (\<exists>ns. q = (p @ [elm_id t]) @ ns \<and> ns \<noteq> [] \<and> tree_path (elm_children t) ns
           \<and> (\<forall>i<length ns. fits anchor ss (ns ! i) (length (p @ [elm_id t]) + i)))"
      unfolding split by (auto simp: neq_Nil_conv)
    then show ?thesis using True 2(1) [OF True] by simp
  next
    case False
    then show ?thesis unfolding split by simp
  qed
  have "(\<exists>ns. q = p @ ns \<and> ns \<noteq> [] \<and> tree_path (t # ts) ns \<and> ?P ns)
    \<longleftrightarrow> (\<exists>ns. q = p @ elm_id t # ns \<and> tree_path (elm_children t) ns \<and> ?P (elm_id t # ns))
      \<or> (\<exists>ns. q = p @ ns \<and> ns \<noteq> [] \<and> tree_path ts ns \<and> ?P ns)" (is "?l \<longleftrightarrow> ?a \<or> ?b")
  proof
    assume ?l
    then obtain n ns where n: "q = p @ n # ns" "tree_path (t # ts) (n # ns)" "?P (n # ns)" by (auto simp: neq_Nil_conv)
    then consider "n = elm_id t" "tree_path (elm_children t) ns" | "tree_path ts (n # ns)" by auto
    then show "?a \<or> ?b" using n by cases blast+
  next
    assume "?a \<or> ?b"
    then show ?l
    proof
      assume ?a
      then obtain ns where "q = p @ elm_id t # ns" "tree_path (elm_children t) ns" "?P (elm_id t # ns)" by blast
      then show ?l by (intro exI [of _ "elm_id t # ns"]) simp
    next
      assume ?b
      then obtain n ns where "q = p @ n # ns" "tree_path ts (n # ns)" "?P (n # ns)" by (auto simp: neq_Nil_conv)
      then show ?l by (intro exI [of _ "n # ns"]) auto
    qed
  qed
  then show ?case using here 2(2) by (simp only: visits.simps set_append Un_iff)
qed

text \<open>
  A solution ends with an element the pattern has explicitly, or counts as such, and behind
  the last wildcard. Among the solutions the first of the longest ones is kept.
\<close>

definition wildcard_end :: "string list \<Rightarrow> nat" where
  "wildcard_end ss = length (dropWhile (\<lambda>s. s \<noteq> ANY \<and> s \<noteq> EMPTY) (rev ss))"

definition is_solution :: "string list \<Rightarrow> string list \<Rightarrow> bool" where
  "is_solution ss q \<longleftrightarrow> (ss ! (length q - 1) = last q \<or> ss ! (length q - 1) = UIC_ELIDED) \<and> wildcard_end ss < length q"

definition pick :: "string list \<Rightarrow> string list \<Rightarrow> nat \<times> string list option \<Rightarrow> nat \<times> string list option" where
  "pick ss q b = (if is_solution ss q \<and> fst b < length q then (length q, Some q) else b)"

fun path_of :: "UIElement list list \<Rightarrow> string list" where
  "path_of [] = []"
| "path_of (xs # fs) = path_of fs @ [elm_id (hd xs)]"

fun rest :: "Literal \<Rightarrow> string list \<Rightarrow> UIElement list list \<Rightarrow> string list list" where
  "rest anchor ss [] = []"
| "rest anchor ss (xs # fs) = visits anchor ss (path_of fs) (tl xs) @ rest anchor ss fs"

definition pend :: "Literal \<Rightarrow> string list \<Rightarrow> UIElement list list \<Rightarrow> string list list" where
  "pend anchor ss fs = visits anchor ss (path_of (tl fs)) (hd fs) @ rest anchor ss (tl fs)"

fun nodes :: "UIElement list list \<Rightarrow> nat" where
  "nodes [] = 0"
| "nodes (xs # fs) = sum_list (map node_count xs) + (case fs of [] \<Rightarrow> 0 | ys # gs \<Rightarrow> nodes (tl ys # gs))"

lemma path_of_length [simp]: "length (path_of fs) = length fs"
  by (induction fs) simp_all

lemma pend_advance: "fs \<noteq> [] \<Longrightarrow> pend anchor ss (advance fs) = rest anchor ss fs"
  by (induction fs rule: advance.induct) (auto simp: pend_def)

lemma nodes_advance: "fs \<noteq> [] \<Longrightarrow> nodes (advance fs) = nodes (tl (hd fs) # tl fs)"
  by (induction fs rule: advance.induct) auto

lemma advance_suffix: "fs \<noteq> [] \<Longrightarrow> advance fs \<noteq> [] \<and> (\<exists>as. tl fs = as @ tl (advance fs))"
proof (induction fs rule: advance.induct)
  case (3 xs ys fs)
  show ?case
  proof (cases "tl xs = []")
    case True
    then obtain as where "fs = as @ tl (advance (ys # fs))" "advance (ys # fs) \<noteq> []" using 3 by auto
    then show ?thesis using True by (intro conjI exI [of _ "ys # as"]) simp_all
  qed simp
qed simp_all

lemma path_of_suffix: "path_of (as @ fs) = path_of fs @ path_of as"
  by (induction as) simp_all

text \<open>What has been recorded agrees with the positions in the tree, above the current one.\<close>

definition covers :: "string list \<Rightarrow> UIElement list list \<Rightarrow> bool" where
  "covers ps fs \<longleftrightarrow> length (tl fs) \<le> length ps \<and> take (length (tl fs)) ps = path_of (tl fs)"

lemma covers_advance:
  assumes "covers ps fs" "fs \<noteq> []"
  shows "covers ps (advance fs)"
proof -
  obtain as where as: "tl fs = as @ tl (advance fs)" using advance_suffix [OF assms(2)] by blast
  have "take (length (tl (advance fs))) (take (length (tl fs)) ps) = take (length (tl (advance fs))) (path_of (tl fs))"
    using assms(1) by (simp add: covers_def)
  moreover have "length (tl (advance fs)) \<le> length (tl fs)" using arg_cong [OF as, of length] by simp
  moreover have "take (length (tl (advance fs))) (path_of (tl fs)) = path_of (tl (advance fs))"
    by (subst as) (simp add: path_of_suffix)
  ultimately show ?thesis using assms(1) by (simp add: covers_def min_absorb1)
qed

lemma descend_simp:
  assumes "fs = (t # ts) # gs"
  shows "pend anchor ss (descend fs) = visits anchor ss (path_of gs @ [elm_id t]) (elm_children t)
      @ visits anchor ss (path_of gs) ts @ rest anchor ss gs"
    and "nodes (descend fs) < nodes fs" and "nodes (advance fs) < nodes fs"
    and "covers ps (advance fs) \<Longrightarrow> take (Suc (length gs)) ps = path_of fs \<Longrightarrow> Suc (length gs) \<le> length ps \<Longrightarrow> covers ps (descend fs)"
  using pend_advance [of fs anchor ss] nodes_advance [of fs] assms node_count_children [of t]
  by (auto simp: descend_def pend_def covers_def split: list.splits)

lemma wildcardFree_from_pa_of:
  "n \<le> length ss \<Longrightarrow> wildcardFree_from (pa_of ss) n = Inr (wildcard_end (take n ss))"
  by (induction n) (auto simp: path_at_pa_of wildcard_end_def take_Suc_conv_app_nth)

lemma find_wildcardFree_suffix_pa_of: "find_wildcardFree_suffix (pa_of ss) = Inr (wildcard_end ss)"
  by (simp add: find_wildcardFree_suffix_def wildcardFree_from_pa_of)

lemma wildMatch_fits:
  assumes "res_anchor (r_res r) = anchor" "d < length ss"
  shows "Some (ss ! d) = Some n \<or> wildMatch r (Some (ss ! d)) (Some n) d \<longleftrightarrow> fits anchor ss n d"
  using assms by (auto simp: wildMatch_def fits_def isAnchored_def UIC_WINDOW_def)

lemma setAt_pa_of:
  "d \<le> length ps \<Longrightarrow> setAt d (Some n) \<lparr>pm_path = pa_of ps, currDepth = cd\<rparr>
     = \<lparr>pm_path = pa_of (take d ps @ n # drop (Suc d) ps), currDepth = Suc d\<rparr>"
  by (simp add: setAt_def expand_set_pa_of)

lemma retrieveResult_pa_of:
  "retrieveResult \<lparr>pm_path = pa_of ps, currDepth = cd\<rparr> = \<lparr>pm_path = pa_of (take cd ps), currDepth = cd\<rparr>"
  by (simp add: retrieveResult_def truncateTo_pa_of)

lemma se_expand_depth [simp]: "ex_depth (se_base (se_expandChildren x)) = ex_depth (se_base x)"
  by (simp add: se_expandChildren_def)

theorem search_visits:
  assumes "r_uic r = pa_of ss" "res_anchor (r_res r) = anchor"
  shows "good_frames fs \<Longrightarrow> covers ps fs \<Longrightarrow>
    search_loop r (length ss) (wildcard_end ss) (se_of fs) \<lparr>pm_path = pa_of ps, currDepth = cd\<rparr> m (map_option pa_of b)
    = Some (Inr (map_option pa_of (snd (fold (pick ss) (pend anchor ss fs) (m, b)))))"
proof (induction "nodes fs" arbitrary: fs ps cd m b rule: less_induct)
  case less
  show ?case
  proof (cases "hd fs")
    case Nil
    then have "pend anchor ss fs = []" using less.prems(1) by (cases fs) (auto simp: good_frames_def pend_def)
    then show ?thesis using Nil less.prems(1) by (subst search_loop.simps) (simp add: checkPoint_se_of)
  next
    case (Cons t ts)
    then obtain gs where fs: "fs = (t # ts) # gs" using less.prems(1) by (cases fs) (auto simp: good_frames_def)
    let ?d = "length gs" and ?n = "elm_id t" and ?q = "path_of gs @ [elm_id t]"
    have ne: "fs \<noteq> []" "hd fs \<noteq> []" by (simp_all add: fs)
    have cp: "checkPoint child_core (se_of fs)" using less.prems(1) ne by (simp add: checkPoint_se_of)
    have yd: "yield child_core (se_of fs) = Inr (t, se_of fs)" using yield_se_of [OF less.prems(1) ne(2)] by (simp add: fs)
    have depth: "ex_depth (se_base (se_of fs)) = ?d" by (simp add: fs ex_depth_se_of)
    note loop = search_loop.simps [of r "length ss" "wildcard_end ss" "se_of fs"]
    show ?thesis
    proof (cases "fits anchor ss ?n ?d")
      case False
      have "match_element r (length ss) (se_of fs) \<lparr>pm_path = pa_of ps, currDepth = cd\<rparr>
          = Inr (False, se_of fs, \<lparr>pm_path = pa_of ps, currDepth = cd\<rparr>)"
      proof (cases "length ss \<le> ?d")
        case False
        then have "Some (ss ! ?d) \<noteq> Some ?n" "\<not> wildMatch r (Some (ss ! ?d)) (Some ?n) ?d" "ss ! ?d \<noteq> UIC_ELIDED"
          using \<open>\<not> fits anchor ss ?n ?d\<close> wildMatch_fits [OF assms(2), of ?d ss ?n] by (auto simp: fits_def)
        then show ?thesis using False by (simp add: match_element_def depth Let_def path_at_pa_of yd assms(1))
      qed (simp add: match_element_def depth)
      moreover have "pend anchor ss fs = pend anchor ss (advance fs)"
        using pend_advance [OF ne(1)] False by (simp add: fs pend_def)
      ultimately show ?thesis
        using less.hyps [OF descend_simp(3) [OF fs] good_advance [OF less.prems(1)] covers_advance [OF less.prems(2) ne(1)]]
        by (subst loop) (simp add: cp depth iterNext_skip [OF less.prems(1) ne(2)])
    next
      case True
      then have d: "?d < length ss" by (simp add: fits_def)
      let ?ps = "take ?d ps @ ?n # drop (Suc ?d) ps"
      have ps: "?d \<le> length ps" "take ?d ps = path_of gs" using less.prems(2) by (simp_all add: covers_def fs)
      let ?sol = "ss ! ?d = ?n \<or> ss ! ?d = UIC_ELIDED"
      have m: "match_element r (length ss) (se_of fs) \<lparr>pm_path = pa_of ps, currDepth = cd\<rparr>
          = Inr (?sol, se_expandChildren (se_of fs), \<lparr>pm_path = pa_of ?ps, currDepth = Suc ?d\<rparr>)"
        using True wildMatch_fits [OF assms(2) d, of ?n] d assms(1) setAt_pa_of [OF ps(1)]
        by (simp add: match_element_def depth Let_def path_at_pa_of yd)
      have q: "take (Suc ?d) ?ps = ?q" using ps by simp
      define acc where "acc \<longleftrightarrow> ?sol \<and> \<not> ?d < wildcard_end ss \<and> \<not> ?d + 1 \<le> m"
      let ?cov = "\<lparr>pm_path = pa_of ?ps, currDepth = Suc ?d\<rparr>"
      have step: "search_loop r (length ss) (wildcard_end ss) (se_of fs) \<lparr>pm_path = pa_of ps, currDepth = cd\<rparr> m (map_option pa_of b)
          = search_loop r (length ss) (wildcard_end ss) (se_of (descend fs)) (if acc then retrieveResult ?cov else ?cov)
              (if acc then ?d + 1 else m) (if acc then Some (pm_path (if acc then retrieveResult ?cov else ?cov)) else map_option pa_of b)"
        unfolding acc_def
        by (subst loop) (simp only: cp m not_True_eq_False if_False sum.case option.case fst_conv snd_conv Let_def
            se_expand_depth depth iterNext_expand [OF less.prems(1) ne(2)])
      have acc: "acc \<longleftrightarrow> is_solution ss ?q \<and> m < length ?q"
        by (auto simp: acc_def is_solution_def)
      have pend: "pend anchor ss fs = ?q # pend anchor ss (descend fs)"
        using True by (simp add: descend_simp(1) [OF fs]) (simp add: fs pend_def)
      have cov: "covers xs (descend fs)" if "take (Suc ?d) xs = ?q" "Suc ?d \<le> length xs" for xs
      proof -
        have "take ?d xs = take ?d (take (Suc ?d) xs)" by (simp add: min_absorb1)
        then have "covers xs fs" using that by (simp add: covers_def fs)
        then show ?thesis using descend_simp(4) [OF fs covers_advance] that ne(1) by (simp add: fs)
      qed
      note IH = less.hyps [OF descend_simp(2) [OF fs] good_descend [OF less.prems(1) ne(2)] cov]
      have len: "Suc ?d \<le> length ?ps" "length ?q = Suc ?d" using ps by simp_all
      show ?thesis
      proof (cases acc)
        case True
        have "retrieveResult ?cov = \<lparr>pm_path = pa_of ?q, currDepth = Suc ?d\<rparr>"
          using q by (simp only: retrieveResult_pa_of)
        moreover have "pick ss ?q (m, b) = (Suc ?d, Some ?q)" using True acc len by (simp add: pick_def)
        ultimately show ?thesis
          using True IH [of ?q "Suc ?d" "Suc ?d" "Some ?q"] len unfolding step by (simp add: pend)
      next
        case False
        then have "pick ss ?q (m, b) = (m, b)" using acc by (auto simp: pick_def)
        then show ?thesis using False IH [OF q len(1), of "Suc ?d" m b] unfolding step by (simp add: pend)
      qed
    qed
  qed
qed

subsection \<open>Solutions\<close>

definition solution :: "Literal \<Rightarrow> string list \<Rightarrow> UIElement list \<Rightarrow> string list \<Rightarrow> bool" where
  "solution anchor ss ts q \<longleftrightarrow> q \<noteq> [] \<and> tree_path ts q \<and> (\<forall>i<length q. fits anchor ss (q ! i) i) \<and> is_solution ss q"

definition best :: "Literal \<Rightarrow> string list \<Rightarrow> UIElement list \<Rightarrow> string list option" where
  "best anchor ss ts = snd (fold (pick ss) (visits anchor ss [] ts) (0, None))"

lemma solution_visits: "solution anchor ss ts q \<longleftrightarrow> q \<in> set (visits anchor ss [] ts) \<and> is_solution ss q"
  by (auto simp: solution_def visits_paths)

definition picked :: "string list \<Rightarrow> string list list \<Rightarrow> nat \<times> string list option \<Rightarrow> bool" where
  "picked ss qs b \<longleftrightarrow> (case b of
     (m, None) \<Rightarrow> m = 0 \<and> (\<forall>q\<in>set qs. \<not> is_solution ss q)
   | (m, Some q) \<Rightarrow> m = length q \<and> is_solution ss q \<and> (\<exists>as bs. qs = as @ q # bs
       \<and> (\<forall>p\<in>set as. is_solution ss p \<longrightarrow> length p < length q) \<and> (\<forall>p\<in>set bs. is_solution ss p \<longrightarrow> length p \<le> length q)))"

lemma picked_snoc: "picked ss qs b \<Longrightarrow> picked ss (qs @ [q]) (pick ss q b)"
proof (cases b)
  case (Pair m sol)
  assume p: "picked ss qs b"
  have pos: "is_solution ss q \<Longrightarrow> 0 < length q" by (auto simp: is_solution_def)
  show ?thesis
  proof (cases "is_solution ss q \<and> m < length q")
    case True
    have less: "\<forall>p\<in>set qs. is_solution ss p \<longrightarrow> length p < length q"
      using p True by (auto simp: Pair picked_def split: option.splits) (meson dual_order.strict_trans le_less_trans)+
    have "pick ss q b = (length q, Some q)" using True by (simp add: Pair pick_def)
    moreover have "\<exists>as bs. qs @ [q] = as @ q # bs \<and> (\<forall>p\<in>set as. is_solution ss p \<longrightarrow> length p < length q)
        \<and> (\<forall>p\<in>set bs. is_solution ss p \<longrightarrow> length p \<le> length q)"
      by (rule_tac x = qs in exI, rule_tac x = "[]" in exI) (simp add: less)
    ultimately show ?thesis using True by (simp add: picked_def)
  next
    case False
    show ?thesis
    proof (cases sol)
      case None
      then show ?thesis using p False pos by (auto simp: Pair picked_def pick_def)
    next
      case (Some x)
      then obtain as bs where ab: "qs = as @ x # bs" "m = length x" "is_solution ss x"
        "\<forall>p\<in>set as. is_solution ss p \<longrightarrow> length p < length x" "\<forall>p\<in>set bs. is_solution ss p \<longrightarrow> length p \<le> length x"
        using p by (auto simp: Pair picked_def)
      then have "\<exists>as bs. qs @ [q] = as @ x # bs \<and> (\<forall>p\<in>set as. is_solution ss p \<longrightarrow> length p < length x)
          \<and> (\<forall>p\<in>set bs. is_solution ss p \<longrightarrow> length p \<le> length x)"
        using False by (intro exI [of _ as] exI [of _ "bs @ [q]"]) auto
      moreover have "pick ss q (m, Some x) = (m, Some x)" using False by (simp only: pick_def fst_conv if_False)
      ultimately show ?thesis using ab by (simp add: Pair Some picked_def)
    qed
  qed
qed

lemma picked_fold: "picked ss qs (fold (pick ss) qs (0, None))"
  by (induction qs rule: rev_induct) (simp_all add: picked_snoc picked_def [of _ "[]"])

lemma best_cases:
  obtains (none) "best anchor ss ts = None" "\<And>q. \<not> solution anchor ss ts q"
  | (some) q as bs where "best anchor ss ts = Some q" "solution anchor ss ts q" "visits anchor ss [] ts = as @ q # bs"
      "\<And>p. p \<in> set as \<Longrightarrow> is_solution ss p \<Longrightarrow> length p < length q" "\<And>p. solution anchor ss ts p \<Longrightarrow> length p \<le> length q"
proof -
  obtain m b where f: "fold (pick ss) (visits anchor ss [] ts) (0, None) = (m, b)" by fastforce
  have p: "picked ss (visits anchor ss [] ts) (m, b)" using picked_fold [of ss "visits anchor ss [] ts"] f by simp
  show thesis
  proof (cases b)
    case None
    then show ?thesis using none p f by (auto simp: best_def picked_def solution_visits)
  next
    case (Some q)
    then obtain as bs where "visits anchor ss [] ts = as @ q # bs" "is_solution ss q"
      "\<forall>p\<in>set as. is_solution ss p \<longrightarrow> length p < length q" "\<forall>p\<in>set bs. is_solution ss p \<longrightarrow> length p \<le> length q"
      using p by (auto simp: picked_def)
    then show ?thesis using some [of q as bs] f Some by (fastforce simp: best_def solution_visits)
  qed
qed

lemma pathResolution_eq:
  assumes "r_uic r = pa_of ss" "getChildren query (pa_of ss) 0 = Inr ts"
  shows "pathResolution query r = (case best (res_anchor (r_res r)) ss ts of
      None \<Rightarrow> Some (Inr (False, r\<lparr>r_res := (r_res r)\<lparr>isResolved := True\<rparr>\<rparr>))
    | Some q \<Rightarrow>
        let depth = (if res_depth (r_res r) = 0 then determineCoverage query (pa_of ss) else res_depth (r_res r))
        in Some (Inr (length q = length ss, r\<lparr>r_res := \<lparr>res_anchor = Some (hd q),
             res_depth = (if depth = 0 then 1 else depth), covfefe = Some (pa_of q), isResolved = True\<rparr>\<rparr>)))"
proof -
  let ?b = "best (res_anchor (r_res r)) ss ts"
  have iter: "child_iter ts = se_of [ts]" by (simp add: child_iter_def se_of_def Expander_new_def)
  have new: "PathManipulator_new = \<lparr>pm_path = pa_of [], currDepth = 0\<rparr>" by code_simp
  have good: "good_frames [ts]" "covers [] [ts]" by (simp_all add: good_frames_def covers_def)
  have "search_loop r (length ss) (wildcard_end ss) (child_iter ts) PathManipulator_new 0 None = Some (Inr (map_option pa_of ?b))"
    using search_visits [OF assms(1) refl good, of 0 0 None] by (simp add: iter new best_def pend_def)
  moreover have "getWindow (pa_of q) = Some (hd q)" if "?b = Some q" for q
  proof -
    have "q \<noteq> []" using that by (cases rule: best_cases [of "res_anchor (r_res r)" ss ts]) (auto simp: solution_def)
    then show ?thesis by (simp add: getWindow_def accesComponent_def UIC_WINDOW_def getPosition_pa_of hd_conv_nth)
  qed
  ultimately show ?thesis
    using assms by (auto simp: pathResolution_def find_wildcardFree_suffix_pa_of Let_def split: option.splits)
qed

text \<open>C24: The resolution of coordinates against the interface returns, for any pattern and any tree of
  elements, and finds the deepest match. It fails exactly when the tree has no solution. Otherwise the coverage it
  records is a path of the tree that fits the pattern, ends with an element the pattern names and behind the last wildcard of it; no solution
  is longer, and among all the paths that fit, those that come earlier in the tree are not solutions as long; the
  anchor is the window of this path, and total coverage is reported when the whole pattern is covered.\<close>

theorem resolution_finds_deepest:
  assumes "r_uic r = pa_of ss" "getChildren query (pa_of ss) 0 = Inr ts"
  shows "\<exists>total r'. pathResolution query r = Some (Inr (total, r')) \<and> isResolved (r_res r')
    \<and> (if \<forall>q. \<not> solution (res_anchor (r_res r)) ss ts q
       then \<not> total \<and> r' = r\<lparr>r_res := (r_res r)\<lparr>isResolved := True\<rparr>\<rparr>
       else \<exists>q as bs. covfefe (r_res r') = Some (pa_of q) \<and> solution (res_anchor (r_res r)) ss ts q
         \<and> (\<forall>p. solution (res_anchor (r_res r)) ss ts p \<longrightarrow> length p \<le> length q)
         \<and> visits (res_anchor (r_res r)) ss [] ts = as @ q # bs \<and> (\<forall>p\<in>set as. is_solution ss p \<longrightarrow> length p < length q)
         \<and> res_anchor (r_res r') = Some (hd q) \<and> 0 < res_depth (r_res r')
         \<and> (total \<longleftrightarrow> length q = length ss))"
proof (cases rule: best_cases [of "res_anchor (r_res r)" ss ts])
  case none
  then show ?thesis using pathResolution_eq [OF assms] by auto
next
  case (some q as bs)
  obtain total r' where r': "pathResolution query r = Some (Inr (total, r'))" "isResolved (r_res r')"
      "covfefe (r_res r') = Some (pa_of q)" "res_anchor (r_res r') = Some (hd q)" "0 < res_depth (r_res r')"
      "total \<longleftrightarrow> length q = length ss"
    using pathResolution_eq [OF assms] some(1) by (auto simp: Let_def)
  moreover have "\<not> (\<forall>q. \<not> solution (res_anchor (r_res r)) ss ts q)" using some(2) by blast
  ultimately show ?thesis using some(2,3,4,5) by (intro exI [of _ total] exI [of _ r']) auto
qed

theorem resolution_finds_deepest_witness:
  "\<exists>total r'. pathResolution
      \<lparr>determineAnchor = (\<lambda>_. Some BOTTOM), determineCoverage = (\<lambda>_. 0),
       getChildren = (\<lambda>_ _. Inr [UIElement ''w'' [UIElement ''p'' [], UIElement ''q'' [UIElement ''n'' []]]])\<rparr>
      \<lparr>r_uic = pa_of [''w'', ''*'', ''n'', ''v''], r_res = \<lparr>res_anchor = Some BOTTOM, res_depth = 0, covfefe = None, isResolved = False\<rparr>\<rparr>
    = Some (Inr (total, r')) \<and> \<not> total \<and> (\<exists>q. covfefe (r_res r') = Some (pa_of q) \<and> length q = 3)"
proof -
  let ?ts = "[UIElement ''w'' [UIElement ''p'' [], UIElement ''q'' [UIElement ''n'' []]]]"
  let ?ss = "[''w'', ''*'', ''n'', ''v'']"
  let ?q = "\<lparr>determineAnchor = (\<lambda>_. Some BOTTOM), determineCoverage = (\<lambda>_. 0), getChildren = (\<lambda>_ _. Inr ?ts)\<rparr>"
  let ?r = "\<lparr>r_uic = pa_of ?ss, r_res = \<lparr>res_anchor = Some BOTTOM, res_depth = 0, covfefe = None, isResolved = False\<rparr>\<rparr>"
  have visits: "visits (Some BOTTOM) ?ss [] ?ts = [[''w''], [''w'', ''p''], [''w'', ''q''], [''w'', ''q'', ''n'']]"
    by code_simp
  have sol: "solution (Some BOTTOM) ?ss ?ts q \<longleftrightarrow> q = [''w'', ''q'', ''n'']" for q
    unfolding solution_visits visits by (auto simp: is_solution_def wildcard_end_def ANY_def EMPTY_def UIC_ELIDED_def)
  have "r_uic ?r = pa_of ?ss" "getChildren ?q (pa_of ?ss) 0 = Inr ?ts" by simp_all
  from resolution_finds_deepest [OF this] obtain total r' where r':
    "pathResolution ?q ?r = Some (Inr (total, r'))"
    "covfefe (r_res r') = Some (pa_of [''w'', ''q'', ''n''])" "total \<longleftrightarrow> length [''w'', ''q'', ''n''] = length ?ss"
    unfolding UICoordResolver.simps Resolution.simps sol by force
  from r'(3) have "\<not> total" by simp
  with r'(1,2) show ?thesis by (intro exI [of _ total] exI [of _ r'] conjI exI [of _ "[''w'', ''q'', ''n'']"]) simp_all
qed

subsection \<open>Operations of the resolver\<close>

definition Resolution_init :: Resolution where
  "Resolution_init = \<lparr>res_anchor = None, res_depth = 0, covfefe = None, isResolved = False\<rparr>"

definition attempt_trivialResolution :: "LocationQuery \<Rightarrow> UICoordResolver \<Rightarrow> UICoordResolver" where
  "attempt_trivialResolution query r =
     (let r = r\<lparr>r_res := (r_res r)\<lparr>res_anchor := determineAnchor query (r_uic r)\<rparr>\<rparr>
      in if \<not> isExplicit (r_uic r) then r
         else let r = r\<lparr>r_res := (r_res r)\<lparr>res_depth := determineCoverage query (r_uic r)\<rparr>\<rparr>
              in if contains_element UIC_ELIDED (r_uic r) then r else r\<lparr>r_res := (r_res r)\<lparr>isResolved := True\<rparr>\<rparr>)"

definition UICoordResolver_new :: "LocationQuery \<Rightarrow> PathArray \<Rightarrow> UICoordResolver" where
  "UICoordResolver_new query uic = attempt_trivialResolution query \<lparr>r_uic = uic, r_res = Resolution_init\<rparr>"

definition canAnchor :: "LocationQuery \<Rightarrow> UICoordResolver \<Rightarrow> (bool \<times> UICoordResolver) partial_result" where
  "canAnchor query r =
     (if isAnchored r \<or> isResolved (r_res r) \<and> covfefe (r_res r) \<noteq> None then Some (Inr (True, r))
      else bind_partial (pathResolution query r) (\<lambda>(total, r). Some (Inr (total \<or> isAnchored r, r))))"

definition isCoveredPartially :: "UICoordResolver \<Rightarrow> bool" where
  "isCoveredPartially r \<longleftrightarrow> isResolved (r_res r) \<and> 0 < res_depth (r_res r)"

definition isCovered :: "UICoordResolver \<Rightarrow> bool" where
  "isCovered r \<longleftrightarrow> isResolved (r_res r) \<and> res_depth (r_res r) = path_size (r_uic r)"

definition canCover :: "LocationQuery \<Rightarrow> UICoordResolver \<Rightarrow> (bool \<times> UICoordResolver) partial_result" where
  "canCover query r =
     (if isCovered r \<or> isResolved (r_res r) \<and> covfefe (r_res r) \<noteq> None then Some (Inr (True, r))
      else bind_partial (pathResolution query r) (\<lambda>(total, r). Some (Inr (total \<or> covfefe (r_res r) \<noteq> None, r))))"

definition required :: "bool \<Rightarrow> string \<Rightarrow> 'a \<Rightarrow> 'a partial_result" where
  "required b msg x = bind_partial (Some (require b msg)) (\<lambda>_. Some (Inr x))"

lemma required_True [simp]: "b \<Longrightarrow> required b msg x = Some (Inr x)"
  by (simp add: required_def require_def)

text \<open>The two coverings differ in what they do when there is a coverage, and share the rest.\<close>

definition giveUp :: "UICoordResolver \<Rightarrow> UICoordResolver partial_result" where
  "giveUp r = bind_partial (required (isResolved (r_res r)) ''res_.isResolved'' r) (\<lambda>r.
     bind_partial (required (res_depth (r_res r) = 0) ''res_.depth == 0'' r) (\<lambda>r.
     bind_partial (required (covfefe (r_res r) = None) ''not res_.covfefe'' r) (\<lambda>r.
       Some (Inr (r\<lparr>r_uic := truncateTo 0 (r_uic r)\<rparr>)))))"

definition takeCoverage :: "UICoordResolver \<Rightarrow> PathArray partial_result" where
  "takeCoverage r = bind_partial (required (isResolved (r_res r)) ''res_.isResolved'' r) (\<lambda>r.
     bind_partial (required (covfefe (r_res r) \<noteq> None) ''res_.covfefe'' r) (\<lambda>r.
       Some (Inr (the (covfefe (r_res r))))))"

definition explicitAnchor :: "UICoordResolver \<Rightarrow> UICoordResolver partial_result" where
  "explicitAnchor r = bind_partial (required (res_anchor (r_res r) \<noteq> None) ''res_.anchor'' r) (\<lambda>r.
     Some (Inr (r\<lparr>r_uic := build_window (res_anchor (r_res r)) (r_uic r)\<rparr>)))"

definition cover :: "LocationQuery \<Rightarrow> UICoordResolver \<Rightarrow> UICoordResolver partial_result" where
  "cover query r =
     bind_partial
       (if isCoveredPartially r \<and> covfefe (r_res r) = None
        then bind_partial (explicitAnchor r) (\<lambda>r. Some (Inr (r\<lparr>r_uic := truncateTo (res_depth (r_res r)) (r_uic r)\<rparr>)))
        else bind_partial (canCover query r) (\<lambda>(can, r).
          if can
          then bind_partial (takeCoverage r) (\<lambda>c.
            Some (Inr \<lparr>r_uic = c, r_res = (r_res r)\<lparr>res_depth := path_size c, covfefe := None\<rparr>\<rparr>))
          else giveUp r))
       (\<lambda>r. required (isCovered r) ''isCovered()'' r)"

fun overwrite_all :: "PathArray \<Rightarrow> nat list \<Rightarrow> PathArray \<Rightarrow> PathArray result" where
  "overwrite_all c [] uic = Inr uic"
| "overwrite_all c (pos # ps) uic = bind_result (path_at c pos) (\<lambda>l. overwrite_all c ps (build_overwrite pos l uic))"

definition coverPartially :: "LocationQuery \<Rightarrow> UICoordResolver \<Rightarrow> UICoordResolver partial_result" where
  "coverPartially query r =
     bind_partial
       (if isCoveredPartially r \<and> covfefe (r_res r) = None then explicitAnchor r
        else bind_partial (canCover query r) (\<lambda>(can, r).
          if can
          then bind_partial (takeCoverage r) (\<lambda>c.
            bind_partial (required (path_size c \<le> path_size (r_uic r)) ''uic_.size() >= res_.covfefe->size()'' r) (\<lambda>r.
            bind_partial (Some (overwrite_all c [0..<path_size c] (r_uic r))) (\<lambda>uic.
              Some (Inr \<lparr>r_uic = uic, r_res = (r_res r)\<lparr>res_depth := path_size c, covfefe := None\<rparr>\<rparr>))))
          else giveUp r))
       (\<lambda>r. required (path_empty (r_uic r) \<or> isCoveredPartially r \<and> isExplicit (r_uic r))
              ''empty() or (isCoveredPartially() and uic_.isExplicit())'' r)"

definition anchor :: "LocationQuery \<Rightarrow> UICoordResolver \<Rightarrow> UICoordResolver partial_result" where
  "anchor query r = bind_partial (canAnchor query r) (\<lambda>(can, r).
     Some (Inr (if can then r\<lparr>r_uic := normalise (build_window (res_anchor (r_res r)) (r_uic r))\<rparr> else r)))"

definition extend :: "LocationQuery \<Rightarrow> Literal \<Rightarrow> UICoordResolver \<Rightarrow> UICoordResolver partial_result" where
  "extend query pathExtension r =
     bind_partial (if \<not> isCovered r then cover query r else Some (Inr r)) (\<lambda>r.
     bind_partial (required (isCovered r) ''isCovered()'' r) (\<lambda>r.
       let uic = build_append pathExtension (r_uic r)
       in Some (Inr \<lparr>r_uic = uic, r_res = (r_res r)\<lparr>res_depth := determineCoverage query uic\<rparr>\<rparr>)))"

fun overwrite_from :: "nat \<Rightarrow> Literal list \<Rightarrow> PathArray \<Rightarrow> PathArray" where
  "overwrite_from pos [] uic = uic"
| "overwrite_from pos (l # ls) uic = overwrite_from (pos + 1) ls (build_overwrite pos l uic)"

definition extend_coord :: "LocationQuery \<Rightarrow> PathArray \<Rightarrow> UICoordResolver \<Rightarrow> UICoordResolver partial_result" where
  "extend_coord query partialExtensionSpec r =
     bind_partial (bind_partial (canCover query r) (\<lambda>(can, r).
       if \<not> can then Some (Inr (r\<lparr>r_uic := partialExtensionSpec\<rparr>))
       else bind_partial (required (isResolved (r_res r)) ''res_.isResolved'' r) (\<lambda>r.
         let coverable = (case covfefe (r_res r) of Some c \<Rightarrow> path_size c | None \<Rightarrow> res_depth (r_res r));
             newContent = path_begin partialExtensionSpec;
             extensionPos = (if newContent \<noteq> [] then firstNonempty partialExtensionSpec else coverable)
         in if extensionPos < coverable
            then Some (Inl (Err Invalid ''Attempt to extend covered path''))
            else bind_partial (cover query r) (\<lambda>r.
              Some (Inr (r\<lparr>r_uic := normalise (overwrite_from extensionPos newContent (r_uic r))\<rparr>))))))
     (\<lambda>r. bind_partial (canCover query (attempt_trivialResolution query (r\<lparr>r_res := Resolution_init\<rparr>))) (\<lambda>(_, r). Some (Inr r)))"

definition existentiallyQuantify :: "nat \<Rightarrow> UICoordResolver \<Rightarrow> UICoordResolver" where
  "existentiallyQuantify pos r =
     (if pos < path_size (r_uic r) \<and> \<not> isPresent pos (r_uic r)
      then r\<lparr>r_uic := build_overwrite pos (Some UIC_ELIDED) (r_uic r)\<rparr> else r)"

subsection \<open>Solving for a location\<close>

record LocationClause =
  pattern :: PathArray
  createParents :: bool

definition preprocess :: "UICoordResolver \<Rightarrow> LocationClause \<Rightarrow> UICoordResolver" where
  "preprocess builder clause =
     (if createParents clause \<and> isComplete (pattern clause) then existentiallyQuantify UIC_PERSP builder else builder)"

fun solve :: "LocationQuery \<Rightarrow> LocationClause list \<Rightarrow> nat \<Rightarrow> Literal \<Rightarrow> PathArray partial_result" where
  "solve query [] depth elementTypeID = Some (Inr (PathArray_new []))"
| "solve query (clause # rule) depth elementTypeID =
     (if depth + 1 < path_size (pattern clause) \<or> path_size (pattern clause) < depth
      then solve query rule depth elementTypeID
      else bind_partial (coverPartially query (preprocess (UICoordResolver_new query (pattern clause)) clause)) (\<lambda>resolver.
        if \<not> path_empty (r_uic resolver) \<and> (createParents clause \<or> isCovered resolver)
        then Some (Inr (UICoord_build (if depth = path_size (pattern clause)
               then build_append elementTypeID (r_uic resolver) else r_uic resolver)))
        else if createParents clause \<and> isExplicit (pattern clause)
        then Some (Inr (if depth = path_size (pattern clause)
               then UICoord_build (build_append elementTypeID (pattern clause)) else pattern clause))
        else solve query rule depth elementTypeID))"

subsection \<open>What the resolver needs of the interface\<close>

fun well_named :: "UIElement \<Rightarrow> bool" where
  "well_named (UIElement n cs) \<longleftrightarrow> n \<notin> {ANY, EMPTY, BOTTOM} \<and> (\<forall>c\<in>set cs. well_named c)"

lemma well_named_children: "well_named t \<longleftrightarrow> elm_id t \<notin> {ANY, EMPTY, BOTTOM} \<and> (\<forall>c\<in>set (elm_children t). well_named c)"
  by (cases t) simp

lemma well_named_id: "well_named t \<Longrightarrow> elm_id t \<noteq> ANY \<and> elm_id t \<noteq> EMPTY \<and> elm_id t \<noteq> BOTTOM"
  by (cases t) simp

lemma path_named: "\<forall>t\<in>set us. well_named t \<Longrightarrow> tree_path us q \<Longrightarrow> ANY \<notin> set q \<and> EMPTY \<notin> set q"
proof (induction us q rule: tree_path.induct)
  case (2 us n ns)
  then obtain t where t: "t \<in> set us" "elm_id t = n" "tree_path (elm_children t) ns" by auto
  then have "n \<notin> {ANY, EMPTY, BOTTOM}" "\<forall>c\<in>set (elm_children t). well_named c"
    using 2(2) well_named_children [of t] by blast+
  then show ?case using 2(1) [OF t(1)] t by auto
qed simp

text \<open>
  The interface of the \<open>LocationQuery\<close>: the sequence of children at the root is its
  first level, an anchor is the name of an existing window, and a coverage counts elements which exist below the anchor.
\<close>

locale location_query =
  fixes query :: LocationQuery and ts :: "UIElement list"
  assumes windows: "getChildren query uic 0 = Inr ts"
    and anchor_exists: "determineAnchor query uic = Some w \<Longrightarrow> w = BOTTOM \<or> w \<in> names ts"
    and coverage_exists: "0 < determineCoverage query (pa_of ss) \<Longrightarrow>
      \<exists>w. determineAnchor query (pa_of ss) = Some w \<and> determineCoverage query (pa_of ss) \<le> length ss
        \<and> tree_path ts (w # take (determineCoverage query (pa_of ss) - 1) (tl ss))"

subsection \<open>Covering a pattern\<close>

lemma contains_element_pa_of: "contains_element s (pa_of ss) \<longleftrightarrow> s \<in> set (dropWhile (\<lambda>s. s = EMPTY) ss)"
  by (auto simp: contains_element_def path_begin_pa_of EMPTY_def)

lemma isExplicit_pa_of: "isExplicit (pa_of ss) \<longleftrightarrow> ss \<noteq> [] \<and> hd ss \<noteq> EMPTY \<and> ANY \<notin> set ss"
  by (cases ss) (auto simp: isExplicit_def isComplete_def contains_element_pa_of path_empty_pa_of getWindow_def
      accesComponent_def UIC_WINDOW_def getPosition_pa_of isnil_Some)

lemma isComplete_pa_of: "isComplete (pa_of ss) \<longleftrightarrow> ss \<noteq> [] \<and> hd ss \<noteq> EMPTY"
  by (cases ss) (auto simp: isComplete_def path_empty_pa_of getWindow_def
      accesComponent_def UIC_WINDOW_def getPosition_pa_of isnil_Some)

lemma isPresent_pa_of: "isPresent i (pa_of ss) \<longleftrightarrow> i < length ss \<and> ss ! i \<notin> {ANY, EMPTY}"
  by (auto simp: isPresent_def getPosition_pa_of isnil_Some)

lemma overwrite_pa_of: "i < length ss \<Longrightarrow> build_overwrite i (Some v) (pa_of ss) = pa_of (ss[i := v])"
  by (simp add: build_overwrite_def expand_set_pa_of upd_conv_take_nth_drop)

lemma build_window_pa_of: "build_window (Some w) (pa_of ss) = pa_of (w # tl ss)"
  using expand_set_pa_of [of 0 ss w] by (simp add: build_window_def setComponent_def UIC_WINDOW_def drop_Suc)

lemma overwrite_all_pa_of:
  "length q \<le> length us \<Longrightarrow> overwrite_all (pa_of q) [0..<length q] (pa_of us) = Inr (pa_of (q @ drop (length q) us))"
proof -
  assume len: "length q \<le> length us"
  have app: "overwrite_all c (xs @ ys) uic = bind_result (overwrite_all c xs uic) (overwrite_all c ys)" for c xs ys uic
    by (induction xs arbitrary: uic) (auto simp: bind_result_def split: sum.splits)
  have "n \<le> length q \<Longrightarrow> overwrite_all (pa_of q) [0..<n] (pa_of us) = Inr (pa_of (take n q @ drop n us))" for n
  proof (induction n)
    case (Suc n)
    have "(take n q @ drop n us)[n := q ! n] = take (Suc n) q @ drop (Suc n) us"
      using Suc.prems len by (simp add: list_update_append take_Suc_conv_app_nth Cons_nth_drop_Suc [symmetric])
    then show ?case using Suc len by (simp add: app path_at_pa_of overwrite_pa_of)
  qed simp
  from this [of "length q"] show ?thesis by simp
qed

lemma no_wildcard_behind: "wildcard_end ss \<le> k \<Longrightarrow> ANY \<notin> set (drop k ss) \<and> EMPTY \<notin> set (drop k ss)"
proof -
  assume k: "wildcard_end ss \<le> k"
  let ?P = "\<lambda>s. s \<noteq> ANY \<and> s \<noteq> EMPTY"
  have "ss = rev (dropWhile ?P (rev ss)) @ rev (takeWhile ?P (rev ss))"
    by (metis rev_append rev_rev_ident takeWhile_dropWhile_id)
  then have "drop (wildcard_end ss) ss = drop (wildcard_end ss) (rev (dropWhile ?P (rev ss)) @ rev (takeWhile ?P (rev ss)))"
    by (rule arg_cong)
  also have "\<dots> = rev (takeWhile ?P (rev ss))" by (simp add: wildcard_end_def)
  finally have "drop (wildcard_end ss) ss = rev (takeWhile ?P (rev ss))" .
  moreover have "set (drop k ss) \<subseteq> set (drop (wildcard_end ss) ss)" using k by (rule set_drop_subset_set_drop)
  ultimately show ?thesis by (auto dest: set_takeWhileD)
qed

text \<open>What the solver makes of the pattern: the perspective may be given as one that just has to exist.\<close>

definition elide :: "bool \<Rightarrow> string list \<Rightarrow> string list" where
  "elide create ss = (if create \<and> isComplete (pa_of ss) \<and> 1 < length ss \<and> ss ! 1 \<in> {ANY, EMPTY} then ss[1 := UIC_ELIDED] else ss)"

lemma preprocess_pa_of:
  "r_uic r = pa_of ss \<Longrightarrow> pattern c = pa_of ss
   \<Longrightarrow> preprocess r c = r\<lparr>r_uic := pa_of (elide (createParents c) ss)\<rparr>"
  using overwrite_pa_of [of 1 ss UIC_ELIDED] isPresent_pa_of [of 1 ss]
  by (cases r) (simp add: preprocess_def elide_def existentiallyQuantify_def UIC_PERSP_def)

lemma elide_length [simp]: "length (elide b ss) = length ss"
  by (simp add: elide_def)

lemma elide_fits: "fits w (elide b ss) n i \<Longrightarrow> fits w ss n i"
  by (cases "i = 1") (auto simp: elide_def fits_def split: if_splits)

lemma elide_fits_self: "i < length ss \<Longrightarrow> fits w ss (elide b ss ! i) i"
  by (cases "i = 1") (auto simp: elide_def fits_def)

lemma elide_explicit: "isExplicit (pa_of ss) \<Longrightarrow> EMPTY \<notin> set ss \<Longrightarrow> elide b ss = ss"
  by (auto simp: elide_def isExplicit_pa_of dest: nth_mem)

text \<open>A location: as long as the pattern, it fits it everywhere, and begins with \<open>n\<close> elements which exist.\<close>

definition located :: "UIElement list \<Rightarrow> Literal \<Rightarrow> string list \<Rightarrow> nat \<Rightarrow> string list \<Rightarrow> bool" where
  "located ts w ss n us \<longleftrightarrow> length us = length ss \<and> 0 < n \<and> n \<le> length ss \<and> tree_path ts (take n us)
     \<and> (\<forall>i<length us. fits w ss (us ! i) i) \<and> ANY \<notin> set us \<and> EMPTY \<notin> set us"

lemma located_explicit: "located ts w ss n us \<Longrightarrow> isExplicit (pa_of us) \<and> us \<noteq> []"
  by (cases us) (auto simp: located_def isExplicit_pa_of)

context location_query begin

lemma best_named:
  assumes named: "\<forall>t\<in>set ts. well_named t" and "best w ss ts = Some q"
  shows "q \<noteq> [] \<and> length q \<le> length ss \<and> tree_path ts q \<and> (\<forall>i<length q. fits w ss (q ! i) i)
    \<and> ANY \<notin> set (q @ drop (length q) ss) \<and> EMPTY \<notin> set (q @ drop (length q) ss)"
proof -
  have s: "solution w ss ts q" using assms(2) by (cases rule: best_cases [of w ss ts]) auto
  then have "q \<noteq> []" by (simp add: solution_def)
  then have "fits w ss (q ! (length q - 1)) (length q - 1)" using s by (auto simp: solution_def)
  then have "length q - 1 < length ss" by (simp add: fits_def)
  then have "length q \<le> length ss" by simp
  moreover have "wildcard_end ss \<le> length q" using s by (auto simp: solution_def is_solution_def)
  ultimately show ?thesis
    using s path_named [OF named, of q] no_wildcard_behind [of ss "length q"] by (auto simp: solution_def)
qed

lemma coverPartially_search:
  assumes named: "\<forall>t\<in>set ts. well_named t"
    and "r_uic r = pa_of us" "us \<noteq> []" "covfefe (r_res r) = None" "res_depth (r_res r) = 0"
  shows "\<exists>r'. coverPartially query r = Some (Inr r') \<and>
    (case best (res_anchor (r_res r)) us ts of
       None \<Rightarrow> r_uic r' = pa_of [] \<and> res_depth (r_res r') = 0
     | Some q \<Rightarrow> r_uic r' = pa_of (q @ drop (length q) us) \<and> res_depth (r_res r') = length q \<and> isResolved (r_res r'))"
proof -
  have can: "canCover query r = bind_partial (pathResolution query r) (\<lambda>(total, r). Some (Inr (total \<or> covfefe (r_res r) \<noteq> None, r)))"
    using assms by (simp add: canCover_def isCovered_def)
  note res = pathResolution_eq [OF assms(2) windows]
  have start: "\<not> (isCoveredPartially r \<and> covfefe (r_res r) = None)" using assms by (simp add: isCoveredPartially_def)
  show ?thesis
  proof (cases "best (res_anchor (r_res r)) us ts")
    case None
    then show ?thesis
      using assms unfolding coverPartially_def if_not_P [OF start] can res
      by (simp add: giveUp_def truncateTo_pa_of path_empty_pa_of)
  next
    case (Some q)
    note q = best_named [OF named this]
    then have "isExplicit (pa_of (q @ drop (length q) us))" by (cases q) (auto simp: isExplicit_pa_of)
    then show ?thesis
      using assms Some q overwrite_all_pa_of [of q us] unfolding coverPartially_def if_not_P [OF start] can res
      by (simp add: takeCoverage_def isCoveredPartially_def Let_def)
  qed
qed

lemma new_resolver:
  assumes "normal ss" "UIC_ELIDED \<notin> set ss"
  shows "UICoordResolver_new query (pa_of ss) = \<lparr>r_uic = pa_of ss, r_res = \<lparr>res_anchor = determineAnchor query (pa_of ss),
    res_depth = (if isExplicit (pa_of ss) then determineCoverage query (pa_of ss) else 0),
    covfefe = None, isResolved = isExplicit (pa_of ss)\<rparr>\<rparr>"
proof -
  have "\<not> contains_element UIC_ELIDED (pa_of ss)"
    using assms(2) by (auto simp: contains_element_pa_of dest: set_dropWhileD)
  then show ?thesis
    by (simp add: UICoordResolver_new_def attempt_trivialResolution_def Resolution_init_def Let_def)
qed

end

lemma normal_no_empty: "normal ss \<Longrightarrow> isExplicit (pa_of ss) \<Longrightarrow> EMPTY \<notin> set ss"
  by (auto simp: normal_def isExplicit_pa_of hd_append split: if_splits)

context location_query begin

lemma search_located:
  assumes named: "\<forall>t\<in>set ts. well_named t" and "best w (elide b ss) ts = Some q"
  shows "located ts w ss (length q) (q @ drop (length q) (elide b ss))"
proof -
  note q = best_named [OF assms]
  have "fits w ss ((q @ drop (length q) (elide b ss)) ! i) i" if "i < length ss" for i
    using q that elide_fits [of w b ss "q ! i" i] elide_fits_self [of i ss w b] by (cases "i < length q") (auto simp: nth_append)
  then show ?thesis using q by (auto simp: located_def)
qed

lemma anchor_located:
  assumes named: "\<forall>t\<in>set ts. well_named t"
    and "0 < determineCoverage query (pa_of ss)" "isExplicit (pa_of ss)" "EMPTY \<notin> set ss"
  shows "\<exists>w. determineAnchor query (pa_of ss) = Some w
    \<and> located ts (Some w) ss (determineCoverage query (pa_of ss)) (w # tl ss)"
proof -
  let ?n = "determineCoverage query (pa_of ss)"
  obtain w where w: "determineAnchor query (pa_of ss) = Some w" "?n \<le> length ss"
    "tree_path ts (w # take (?n - 1) (tl ss))"
    using coverage_exists [OF assms(2)] by blast
  obtain s ss' where ss: "ss = s # ss'" using assms(3) by (cases ss) (auto simp: isExplicit_pa_of)
  have "take ?n (w # ss') = w # take (?n - 1) ss'" using assms(2) by (cases ?n) simp_all
  moreover have "w \<noteq> ANY" "w \<noteq> EMPTY" using path_named [OF named w(3)] by auto
  moreover have "w \<noteq> BOTTOM" using w(3) named by (auto simp: well_named_id)
  moreover have "fits (Some w) ss ((w # tl ss) ! i) i" if "i < length ss" for i
    using that \<open>w \<noteq> BOTTOM\<close> by (cases i) (auto simp: fits_def ss)
  ultimately have "located ts (Some w) ss ?n (w # tl ss)"
    using w(2,3) assms unfolding located_def by (auto simp: ss isExplicit_pa_of)
  then show ?thesis using w(1) by blast
qed

text \<open>The covering of a clause, whether or not the pattern can be taken as it is.\<close>

lemma clause_covered:
  assumes named: "\<forall>t\<in>set ts. well_named t" and normal: "normal ss" and no_elided: "UIC_ELIDED \<notin> set ss"
  defines "w \<equiv> determineAnchor query (pa_of ss)"
  shows "\<exists>r'. coverPartially query ((UICoordResolver_new query (pa_of ss))\<lparr>r_uic := pa_of (elide b ss)\<rparr>) = Some (Inr r')
    \<and> (r_uic r' = pa_of [] \<and> (isExplicit (pa_of ss) \<or> best w (elide b ss) ts = None)
       \<or> (\<exists>us. r_uic r' = pa_of us \<and> located ts w ss (res_depth (r_res r')) us \<and> isResolved (r_res r')
            \<and> (isExplicit (pa_of ss) \<or> (\<exists>q. best w (elide b ss) ts = Some q \<and> res_depth (r_res r') = length q))))"
proof -
  have ne: "ss \<noteq> []" using normal by (auto simp: normal_def)
  then have ne': "elide b ss \<noteq> []" by (auto simp: elide_def)
  define r where "r = (UICoordResolver_new query (pa_of ss))\<lparr>r_uic := pa_of (elide b ss)\<rparr>"
  have new: "r = \<lparr>r_uic = pa_of (elide b ss), r_res = \<lparr>res_anchor = w,
      res_depth = (if isExplicit (pa_of ss) then determineCoverage query (pa_of ss) else 0),
      covfefe = None, isResolved = isExplicit (pa_of ss)\<rparr>\<rparr>"
    by (simp add: r_def new_resolver [OF normal no_elided] w_def)
  show ?thesis
  proof (cases "isExplicit (pa_of ss) \<and> 0 < determineCoverage query (pa_of ss)")
    case True
    then have noe: "EMPTY \<notin> set ss" using normal_no_empty [OF normal] by blast
    obtain v where v: "w = Some v" "located ts w ss (determineCoverage query (pa_of ss)) (v # tl ss)"
      using anchor_located [OF named] True noe by (metis w_def)
    have e: "elide b ss = ss" using elide_explicit True noe by blast
    have "isCoveredPartially r" using True by (simp add: new isCoveredPartially_def)
    moreover have "explicitAnchor r = Some (Inr (r\<lparr>r_uic := pa_of (v # tl ss)\<rparr>))"
      by (simp add: explicitAnchor_def new v(1) e build_window_pa_of)
    ultimately have "coverPartially query r = Some (Inr (r\<lparr>r_uic := pa_of (v # tl ss)\<rparr>))"
      using located_explicit [OF v(2)] True by (simp add: coverPartially_def new isCoveredPartially_def)
    then show ?thesis unfolding r_def [symmetric] using v(2) True by (intro exI [of _ "r\<lparr>r_uic := pa_of (v # tl ss)\<rparr>"]) (auto simp: new)
  next
    case False
    then have d0: "(if isExplicit (pa_of ss) then determineCoverage query (pa_of ss) else 0) = 0" by simp
    have pre: "r_uic r = pa_of (elide b ss)" "covfefe (r_res r) = None" "res_depth (r_res r) = 0"
      "res_anchor (r_res r) = w"
      by (simp_all add: new d0)
    obtain r' where r': "coverPartially query r = Some (Inr r')" "case best w (elide b ss) ts of
       None \<Rightarrow> r_uic r' = pa_of [] \<and> res_depth (r_res r') = 0
     | Some q \<Rightarrow> r_uic r' = pa_of (q @ drop (length q) (elide b ss)) \<and> res_depth (r_res r') = length q \<and> isResolved (r_res r')"
      using coverPartially_search [OF named pre(1) ne' pre(2,3)] pre(4) by auto
    show ?thesis
    proof (cases "best w (elide b ss) ts")
      case None
      then show ?thesis unfolding r_def [symmetric] using r' by auto
    next
      case (Some q)
      then have "located ts w ss (res_depth (r_res r')) (q @ drop (length q) (elide b ss))" using r'(2) search_located [OF named Some] by simp
      then show ?thesis unfolding r_def [symmetric] using r' Some by auto
    qed
  qed
qed

end

text \<open>
  A query on a tree of elements: the query for unit tests, \<open>GenNodeLocationQuery\<close>, does the same on a
  tree of records. Symbolic names for windows stand for the first and the last one.
\<close>

definition tree_anchor :: "UIElement list \<Rightarrow> PathArray \<Rightarrow> Literal" where
  "tree_anchor ts uic =
     (if ts = [] \<or> \<not> isPresent UIC_WINDOW uic then Some BOTTOM
      else if getWindow uic = Some UIC_FIRST_WINDOW then Some (elm_id (hd ts))
      else if getWindow uic = Some UIC_CURRENT_WINDOW then Some (elm_id (last ts))
      else if getWindow uic \<notin> Some ` names ts then Some BOTTOM
      else getWindow uic)"

fun drillDown :: "UIElement list \<Rightarrow> Literal \<Rightarrow> PathArray \<Rightarrow> nat \<Rightarrow> nat \<Rightarrow> UIElement list \<times> nat" where
  "drillDown us window uic 0 depth = (us, depth)"
| "drillDown us window uic (Suc remaining) depth =
     (if \<not> isPresent depth uic then (us, depth)
      else case List.find (\<lambda>t. Some (elm_id t) = (if depth = UIC_WINDOW then window else accesComponent depth uic)) us of
          None \<Rightarrow> (us, depth)
        | Some t \<Rightarrow> drillDown (elm_children t) window uic remaining (depth + 1))"

definition tree_query :: "UIElement list \<Rightarrow> LocationQuery" where
  "tree_query ts = \<lparr>determineAnchor = tree_anchor ts,
     determineCoverage = (\<lambda>uic. snd (drillDown ts (tree_anchor ts uic) uic (path_size uic) 0)),
     getChildren = (\<lambda>uic pos. let (us, depth) = drillDown ts (tree_anchor ts uic) uic pos 0
       in if depth \<noteq> pos then Inl (Err State ''unable to drill down'') else Inr us)\<rparr>"

lemma drillDown_path:
  assumes "d = length p" "p = take d (w # tl ss)" "n + d = length ss"
  shows "\<exists>m. snd (drillDown us (Some w) (pa_of ss) n d) = d + m \<and> m \<le> n
    \<and> tree_path us (take m (drop d (w # tl ss)))"
  using assms
proof (induction n arbitrary: us d p)
  case (Suc n)
  show ?case
  proof (cases "isPresent d (pa_of ss)")
    case True
    let ?e = "if d = UIC_WINDOW then Some w else accesComponent d (pa_of ss)"
    have d: "d < length ss" using Suc.prems by simp
    then have e: "?e = Some ((w # tl ss) ! d)"
      by (cases d) (auto simp: UIC_WINDOW_def accesComponent_def getPosition_pa_of nth_tl)
    show ?thesis
    proof (cases "List.find (\<lambda>t. Some (elm_id t) = ?e) us")
      case None
      then show ?thesis using True by (intro exI [of _ 0]) simp
    next
      case (Some t)
      then have t: "t \<in> set us" "elm_id t = (w # tl ss) ! d" unfolding e by (auto simp: find_Some_iff)
      have len: "d < length (w # tl ss)" using d by simp
      obtain m where m: "snd (drillDown (elm_children t) (Some w) (pa_of ss) n (Suc d)) = Suc d + m" "m \<le> n"
        "tree_path (elm_children t) (take m (drop (Suc d) (w # tl ss)))"
        using Suc.IH [of "Suc d" "take (Suc d) (w # tl ss)" "elm_children t"] Suc.prems d by force
      have "take (Suc m) (drop d (w # tl ss)) = (w # tl ss) ! d # take m (drop (Suc d) (w # tl ss))"
        using Cons_nth_drop_Suc [OF len] by (metis take_Suc_Cons)
      then show ?thesis using True Some m t by (intro exI [of _ "Suc m"]) auto
    qed
  qed (intro exI [of _ 0], simp)
qed simp

interpretation tq: location_query "tree_query ts" ts for ts
proof
  show "getChildren (tree_query ts) uic 0 = Inr ts" for uic by (simp add: tree_query_def)
  show "w = BOTTOM \<or> w \<in> names ts" if "determineAnchor (tree_query ts) uic = Some w" for uic w
    using that by (auto simp: tree_query_def tree_anchor_def names_def split: if_splits)
next
  fix ss
  let ?n = "determineCoverage (tree_query ts) (pa_of ss)"
  assume pos: "0 < ?n"
  have "tree_anchor ts (pa_of ss) \<noteq> None" by (auto simp: tree_anchor_def)
  then obtain w where w: "tree_anchor ts (pa_of ss) = Some w" by blast
  obtain m where m: "?n = m" "m \<le> length ss" "tree_path ts (take m (w # tl ss))"
    using drillDown_path [of 0 "[]" w ss "length ss" ts] by (auto simp: tree_query_def w)
  then obtain k where "m = Suc k" using pos by (cases m) auto
  then show "\<exists>w. determineAnchor (tree_query ts) (pa_of ss) = Some w \<and> ?n \<le> length ss
      \<and> tree_path ts (w # take (?n - 1) (tl ss))"
    using w m by (auto simp: tree_query_def)
qed

subsection \<open>The solver\<close>

definition with_element :: "string list \<Rightarrow> nat \<Rightarrow> Literal \<Rightarrow> string list" where
  "with_element us depth elm = norm (map Some us @ map Some (if depth = length us then path_elements elm else []))"

lemma build_with_element:
  "UICoord_build (if depth = length us then build_append elm (pa_of us) else pa_of us) = pa_of (with_element us depth elm)"
proof -
  have "take (length us) (raw (pa_of us)) = map Some us" by (simp add: raw_pa_of)
  then have "UICoord_build (build_append elm (pa_of us)) = pa_of (norm (map Some us @ map Some (path_elements elm)))"
    using norm_setTailElms [of "pa_of us" "length us" "path_elements elm"]
      normalise_norm [of "pa_of us"] norm_pad [of "map Some us"]
    by (cases elm) (auto simp: UICoord_build_def build_append_def isnil_Some setTailSequence_def raw_pa_of path_elements_def EMPTY_def)
  moreover have "UICoord_build (pa_of us) = pa_of (norm (map Some us))"
    using normalise_norm [of "pa_of us"] norm_pad [of "map Some us"] by (simp add: UICoord_build_def raw_pa_of)
  ultimately show ?thesis by (simp add: with_element_def)
qed

lemma with_element_nonempty: "isExplicit (pa_of us) \<Longrightarrow> with_element us depth elm \<noteq> []"
  using norm_nth [of 0 "map Some us @ map Some (if depth = length us then path_elements elm else [])"]
  by (cases us) (auto simp: with_element_def isExplicit_pa_of real_def isnil_Some)

lemma with_element_normal: "normal us \<Longrightarrow> depth \<noteq> length us \<Longrightarrow> with_element us depth elm = us"
  using norm_ident [of us 0] by (simp add: with_element_def)

text \<open>When a clause has a solution: it is found in the tree, in full or, to create the rest, in part.\<close>

definition clause_fits :: "nat \<Rightarrow> LocationClause \<Rightarrow> string list \<Rightarrow> bool" where
  "clause_fits depth c ss \<longleftrightarrow> pattern c = pa_of ss \<and> depth \<le> length ss \<and> length ss \<le> depth + 1"

definition clause_solved :: "LocationQuery \<Rightarrow> UIElement list \<Rightarrow> LocationClause \<Rightarrow> string list \<Rightarrow> string list \<Rightarrow> bool" where
  "clause_solved query ts c ss us \<longleftrightarrow> length us = length ss \<and>
     ((\<exists>n. located ts (determineAnchor query (pa_of ss)) ss n us \<and> (createParents c \<or> n = length ss))
      \<or> createParents c \<and> isExplicit (pa_of ss) \<and> us = ss)"

context location_query begin

lemma solve_clause:
  assumes "\<forall>t\<in>set ts. well_named t" "normal ss" "UIC_ELIDED \<notin> set ss" "clause_fits depth c ss"
  shows "(\<exists>us. solve query (c # rule) depth elm = Some (Inr (pa_of (with_element us depth elm)))
      \<and> clause_solved query ts c ss us \<and> isExplicit (pa_of us))
    \<or> solve query (c # rule) depth elm = solve query rule depth elm
      \<and> (\<not> isExplicit (pa_of ss) \<and> \<not> createParents c \<longrightarrow>
           (\<nexists>q. solution (determineAnchor query (pa_of ss)) ss ts q \<and> length q = length ss))"
proof -
  let ?w = "determineAnchor query (pa_of ss)" and ?b = "createParents c"
  let ?r = "preprocess (UICoordResolver_new query (pa_of ss)) c"
  have c: "pattern c = pa_of ss" "depth \<le> length ss" "length ss \<le> depth + 1" using assms(4) by (auto simp: clause_fits_def)
  have r: "?r = (UICoordResolver_new query (pa_of ss))\<lparr>r_uic := pa_of (elide ?b ss)\<rparr>"
    using c by (intro preprocess_pa_of) (simp_all add: new_resolver assms)
  obtain r' where r': "coverPartially query ?r = Some (Inr r')" and cases:
    "r_uic r' = pa_of [] \<and> (isExplicit (pa_of ss) \<or> best ?w (elide ?b ss) ts = None)
       \<or> (\<exists>us. r_uic r' = pa_of us \<and> located ts ?w ss (res_depth (r_res r')) us \<and> isResolved (r_res r')
            \<and> (isExplicit (pa_of ss) \<or> (\<exists>q. best ?w (elide ?b ss) ts = Some q \<and> res_depth (r_res r') = length q)))"
    using clause_covered [OF assms(1-3), of ?b] unfolding r by blast
  from cases show ?thesis
  proof
    assume none: "r_uic r' = pa_of [] \<and> (isExplicit (pa_of ss) \<or> best ?w (elide ?b ss) ts = None)"
    have no_total: "\<nexists>q. solution ?w ss ts q \<and> length q = length ss" if "\<not> isExplicit (pa_of ss)" "\<not> ?b"
      using none that by (cases rule: best_cases [of ?w ss ts]) (auto simp: elide_def)
    show ?thesis
    proof (cases "?b \<and> isExplicit (pa_of ss)")
      case True
      then have "solve query (c # rule) depth elm = Some (Inr (pa_of (with_element ss depth elm)))"
        using none c r' build_with_element [of depth ss elm] with_element_normal [OF assms(2), of depth elm]
        by (cases "depth = length ss") (simp_all add: path_empty_pa_of)
      then show ?thesis using True by (auto simp: clause_solved_def)
    next
      case False
      then show ?thesis using none c r' no_total by (auto simp: path_empty_pa_of)
    qed
  next
    assume "\<exists>us. r_uic r' = pa_of us \<and> located ts ?w ss (res_depth (r_res r')) us \<and> isResolved (r_res r')
        \<and> (isExplicit (pa_of ss) \<or> (\<exists>q. best ?w (elide ?b ss) ts = Some q \<and> res_depth (r_res r') = length q))"
    then obtain us where some: "r_uic r' = pa_of us" "located ts ?w ss (res_depth (r_res r')) us" "isResolved (r_res r')"
      "isExplicit (pa_of ss) \<or> (\<exists>q. best ?w (elide ?b ss) ts = Some q \<and> res_depth (r_res r') = length q)"
      by blast
    have us: "length us = length ss" "isExplicit (pa_of us)" "us \<noteq> []"
      using some(2) located_explicit by (auto simp: located_def)
    have cov: "isCovered r' \<longleftrightarrow> res_depth (r_res r') = length ss" using some(1,3) us(1) by (simp add: isCovered_def)
    show ?thesis
    proof (cases "?b \<or> isCovered r'")
      case True
      then have "clause_solved query ts c ss us" using some(2) us(1) cov by (auto simp: clause_solved_def)
      moreover have "solve query (c # rule) depth elm = Some (Inr (pa_of (with_element us depth elm)))"
        using True some(1) us c r' build_with_element [of depth us elm]
        by (cases "depth = length ss") (simp_all add: path_empty_pa_of)
      ultimately show ?thesis using us(2) by blast
    next
      case False
      then have "\<nexists>q. solution ?w ss ts q \<and> length q = length ss" if "\<not> isExplicit (pa_of ss)"
        using some(2,4) that cov by (cases rule: best_cases [of ?w ss ts]) (auto simp: elide_def located_def, metis le_antisym)
      then show ?thesis using False c r' by auto
    qed
  qed
qed

end

text \<open>C25: The solver finds a location for a view, in terms of what a query of the interface guarantees.
  For any rule with patterns in normal form it returns. A location is found by one of
  the clauses for this depth: it is as long as the pattern, fits it at each level, has no wildcard, and consists of elements that exist,
  all of them or, if the clause may create the rest, at least the first one; or it is the explicit pattern of such a clause. The ID of the new
  element is appended when the pattern describes its parent. If nothing is found, then no clause with wildcards has a match
  in the tree that covers it completely.\<close>

theorem location_solved:
  assumes "location_query query ts" "\<forall>t\<in>set ts. well_named t"
    and "\<forall>c\<in>set rule. \<exists>ss. pattern c = pa_of ss \<and> normal ss \<and> UIC_ELIDED \<notin> set ss"
  shows "(\<exists>c\<in>set rule. \<exists>ss us. clause_fits depth c ss \<and> clause_solved query ts c ss us \<and> isExplicit (pa_of us)
      \<and> solve query rule depth elm = Some (Inr (pa_of (with_element us depth elm))))
    \<or> solve query rule depth elm = Some (Inr (pa_of []))
      \<and> (\<forall>c\<in>set rule. \<forall>ss. clause_fits depth c ss \<and> \<not> isExplicit (pa_of ss) \<and> \<not> createParents c \<longrightarrow>
           (\<nexists>q. solution (determineAnchor query (pa_of ss)) ss ts q \<and> length q = length ss))"
  using assms(3)
proof (induction rule)
  case Nil
  have "PathArray_new [] = pa_of []" by code_simp
  then show ?case by simp
next
  case (Cons c rule)
  then obtain ss where ss: "pattern c = pa_of ss" "normal ss" "UIC_ELIDED \<notin> set ss" by auto
  then have only: "clause_fits depth c ss' \<longleftrightarrow> ss' = ss \<and> clause_fits depth c ss" for ss'
    by (auto simp: clause_fits_def pa_of_inject)
  show ?case
  proof (cases "clause_fits depth c ss")
    case True
    note location_query.solve_clause [OF assms(1,2) ss(2,3) True, of rule elm]
    then show ?thesis
    proof
      assume "solve query (c # rule) depth elm = solve query rule depth elm
        \<and> (\<not> isExplicit (pa_of ss) \<and> \<not> createParents c \<longrightarrow>
           (\<nexists>q. solution (determineAnchor query (pa_of ss)) ss ts q \<and> length q = length ss))"
      moreover have "\<forall>c\<in>set rule. \<exists>ss. pattern c = pa_of ss \<and> normal ss \<and> UIC_ELIDED \<notin> set ss" using Cons.prems by simp
      moreover have "\<forall>ss'. clause_fits depth c ss' \<longrightarrow> ss' = ss" using only by blast
      ultimately show ?thesis using Cons.IH by (simp only: list.set ball_simps bex_simps simp_thms) blast
    qed (use True in \<open>metis list.set_intros(1)\<close>)
  next
    case False
    then have "solve query (c # rule) depth elm = solve query rule depth elm" using ss(1) by (auto simp: clause_fits_def)
    moreover have "\<not> clause_fits depth c ss'" for ss' using only False by blast
    moreover have "\<forall>c\<in>set rule. \<exists>ss. pattern c = pa_of ss \<and> normal ss \<and> UIC_ELIDED \<notin> set ss" using Cons.prems by simp
    ultimately show ?thesis using Cons.IH by (simp only: list.set ball_simps bex_simps simp_thms)
  qed
qed

theorem location_solved_witness:
  "\<exists>us. solve (tree_query [UIElement ''w'' [UIElement ''p'' [], UIElement ''q'' [UIElement ''n'' []]]])
       [\<lparr>pattern = pa_of [''w'', ''*'', ''n''], createParents = False\<rparr>] 2 None
     = Some (Inr (pa_of (with_element us 2 None))) \<and> isExplicit (pa_of us)"
proof -
  let ?ts = "[UIElement ''w'' [UIElement ''p'' [], UIElement ''q'' [UIElement ''n'' []]]]" and ?ss = "[''w'', ''*'', ''n'']"
  let ?c = "\<lparr>pattern = pa_of ?ss, createParents = False\<rparr>"
  have normal: "normal ?ss" unfolding normal_def by (rule exI [of _ 0]) (simp add: EMPTY_def ANY_def)
  then have "\<forall>c\<in>set [?c]. \<exists>ss. pattern c = pa_of ss \<and> normal ss \<and> UIC_ELIDED \<notin> set ss"
    by (auto simp: UIC_ELIDED_def simp del: LocationClause.ext_inject intro!: exI [of _ ?ss])
  moreover have "\<forall>t\<in>set ?ts. well_named t" by (simp add: ANY_def EMPTY_def BOTTOM_def)
  moreover have "solution w ?ss ?ts [''w'', ''q'', ''n'']" for w
    by (simp add: solution_def fits_def is_solution_def wildcard_end_def ANY_def EMPTY_def All_less_Suc numeral_eq_Suc)
  moreover have "clause_fits 2 ?c ?ss" "\<not> isExplicit (pa_of ?ss)" "\<not> createParents ?c" "length [''w'', ''q'', ''n''] = length ?ss"
    by (simp_all add: clause_fits_def isExplicit_pa_of ANY_def)
  moreover have "?c \<in> set [?c]" by simp
  ultimately show ?thesis using location_solved [OF tq.location_query_axioms, of ?ts "[?c]" 2 None] by blast
qed

text \<open>
  With a symbolic name for the window, the cover depth is known beforehand even when the search, which does
  not count the anchor as a solution, finds none: the assertion on the depth does not hold. Likewise
  after a first covering came out empty, a second one takes the path as covered already.
\<close>

lemma cover_symbolic_window:
  "cover (tree_query [UIElement ''w'' []]) (UICoordResolver_new (tree_query [UIElement ''w'' []]) (pa_of [''firstWindow'', ''.'']))
   = Some (Inl (Err Assertion ''res_.depth == 0''))"
proof -
  let ?ts = "[UIElement ''w'' []]" and ?ss = "[''firstWindow'', ''.'']"
  have new: "UICoordResolver_new (tree_query ?ts) (pa_of ?ss)
      = \<lparr>r_uic = pa_of ?ss, r_res = \<lparr>res_anchor = Some ''w'', res_depth = 1, covfefe = None, isResolved = False\<rparr>\<rparr>"
    by code_simp
  have "best (Some ''w'') ?ss ?ts = None" by code_simp
  then show ?thesis
    unfolding new by (simp add: cover_def isCoveredPartially_def canCover_def isCovered_def giveUp_def required_def require_def
        pathResolution_eq [OF _ tq.windows])
qed

lemma cover_twice:
  "bind_partial (cover (tree_query []) (UICoordResolver_new (tree_query []) (pa_of [''w'', ''*'', ''p'']))) (cover (tree_query []))
   = Some (Inl (Err Assertion ''res_.covfefe''))"
proof -
  let ?ss = "[''w'', ''*'', ''p'']"
  have new: "UICoordResolver_new (tree_query []) (pa_of ?ss)
      = \<lparr>r_uic = pa_of ?ss, r_res = \<lparr>res_anchor = Some BOTTOM, res_depth = 0, covfefe = None, isResolved = False\<rparr>\<rparr>"
    by code_simp
  have "best (Some BOTTOM) ?ss [] = None" by code_simp
  then have "cover (tree_query []) (UICoordResolver_new (tree_query []) (pa_of ?ss))
      = Some (Inr \<lparr>r_uic = pa_of [], r_res = \<lparr>res_anchor = Some BOTTOM, res_depth = 0, covfefe = None, isResolved = True\<rparr>\<rparr>)"
    unfolding new by (simp add: cover_def isCoveredPartially_def canCover_def isCovered_def giveUp_def required_def require_def
        pathResolution_eq [OF _ tq.windows] truncateTo_pa_of)
  then show ?thesis
    by (simp add: cover_def isCoveredPartially_def canCover_def isCovered_def takeCoverage_def required_def require_def)
qed

end
