(* ===== verification/Commands.thy ===== *)
theory Commands
  imports Prelude
begin

text \<open>
  Commands on the session and their undo (\<open>steam/control\<close>): the storage of arguments and memento
  (\<open>StorageHolder\<close>, \<open>MementoTie\<close>), the functors wired to it (\<open>Mutation\<close>, \<open>UndoMutation\<close>), the implementation record
  behind the command handles, cloning, the registry of definitions, and invocation by a handling pattern.
  Handles and bound functors share objects, so these live in an explicit store. It is shown that every
  command keeps storage of its own, that the registry is consistent, and that undoing commands in reverse
  order restores the session.
\<close>

subsection \<open>Computations on a state, with exceptions\<close>

text \<open>Unlike a plain result, the state is known also after an exception, since invocation goes on.\<close>

type_synonym ('w, 'x) run = "'w \<Rightarrow> 'x result \<times> 'w"

definition bind_run :: "('w, 'x) run \<Rightarrow> ('x \<Rightarrow> ('w, 'y) run) \<Rightarrow> ('w, 'y) run" where
  "bind_run m f w = (case m w of (Inl e, w') \<Rightarrow> (Inl e, w') | (Inr x, w') \<Rightarrow> f x w')"

definition return_run :: "'x \<Rightarrow> ('w, 'x) run" where
  "return_run x w = (Inr x, w)"

definition throw_run :: "error_class \<Rightarrow> string \<Rightarrow> ('w, 'x) run" where
  "throw_run c msg w = (Inl (Err c msg), w)"

definition result_run :: "('w \<Rightarrow> 'x result) \<Rightarrow> ('w, 'x) run" where
  "result_run f w = (f w, w)"

definition modify_run :: "('w \<Rightarrow> 'w) \<Rightarrow> ('w, unit) run" where
  "modify_run f w = (Inr (), f w)"

named_theorems run_simps

lemma bind_run_simps [run_simps]:
  "bind_run (return_run x) f w = f x w"
  "bind_run (throw_run c msg) f w = (Inl (Err c msg), w)"
  "bind_run (modify_run g) h w = h () (g w)"
  "bind_run (result_run q) f w = (case q w of Inl e \<Rightarrow> (Inl e, w) | Inr x \<Rightarrow> f x w)"
  "return_run x w = (Inr x, w)"
  "throw_run c msg w = (Inl (Err c msg), w)"
  "modify_run g w = (Inr (), g w)"
  "result_run q w = (q w, w)"
  by (simp_all add: bind_run_def return_run_def throw_run_def modify_run_def result_run_def split: sum.split)

lemma bind_run_assoc [run_simps]: "bind_run (bind_run m f) g w = bind_run m (\<lambda>x. bind_run (f x) g) w"
  by (simp add: bind_run_def split: prod.split sum.split)

subsection \<open>Functors and storage\<close>

text \<open>
  The functors of a command come from its definition. They work on the session, may set the error
  flag of the thread, may throw, and may change the arguments, which they get by reference.
\<close>

record 's env =
  session :: 's
  err_flag :: "string option"

type_synonym ('x, 's, 'a) operation = "'a \<Rightarrow> 's env \<Rightarrow> 'x result \<times> 'a \<times> 's env"

text \<open>The memento is there when state has been captured. \<open>None\<close> for a functor is an empty function.\<close>

record ('s, 'a, 'm) MementoTie =
  mt_memento :: "'m option"
  mt_undo :: "('m \<Rightarrow> (unit, 's, 'a) operation) option"
  mt_capture :: "('m, 's, 'a) operation option"

text \<open>The arguments are there when they are bound. \<open>sh_accept\<close> converts parameter data to the argument tuple.\<close>

record ('s, 'a, 'm, 'r) StorageHolder =
  sh_args :: "'a option"
  sh_tie :: "('s, 'a, 'm) MementoTie"
  sh_accept :: "'r \<Rightarrow> 'a result"

text \<open>
  A functor with its type erased: the operation, or a functor bound to the memento in the storage at
  an address.
\<close>

datatype ('s, 'a, 'm) CmdFunctor =
    Operation "(unit, 's, 'a) operation"
  | TiedUndo "('m \<Rightarrow> (unit, 's, 'a) operation) option" nat
  | TiedCapture "('m, 's, 'a) operation option" nat

datatype PattID = SYNC | SYNC_THROW | ASYNC | DUMMY

record ('s, 'a, 'm) CommandImpl =
  im_do :: "('s, 'a, 'm) CmdFunctor"
  im_undo :: "('s, 'a, 'm) CmdFunctor"
  im_capture :: "('s, 'a, 'm) CmdFunctor"
  pClo :: nat
  defaultPatt :: PattID
  cmdID :: string

record ('s, 'a, 'm, 'r) commands =
  env :: "'s env"
  closures :: "('s, 'a, 'm, 'r) StorageHolder list"
  impls :: "('s, 'a, 'm) CommandImpl list"
  index :: "string \<Rightarrow> nat option"
  ridx :: "nat \<Rightarrow> string option"

text \<open>A command is a handle: the address of its implementation, or nothing.\<close>

type_synonym Command = "nat option"

definition clo_of :: "('s, 'a, 'm, 'r, 'z) commands_scheme \<Rightarrow> nat \<Rightarrow> ('s, 'a, 'm, 'r) StorageHolder" where
  "clo_of w i = closures w ! pClo (impls w ! i)"

definition closure_isValid :: "('s, 'a, 'm, 'r) StorageHolder \<Rightarrow> bool" where
  "closure_isValid h \<longleftrightarrow> sh_args h \<noteq> None"

definition isCaptured :: "('s, 'a, 'm, 'r) StorageHolder \<Rightarrow> bool" where
  "isCaptured h \<longleftrightarrow> mt_undo (sh_tie h) \<noteq> None \<and> mt_capture (sh_tie h) \<noteq> None \<and> mt_memento (sh_tie h) \<noteq> None"

definition storeTuple :: "'a \<Rightarrow> ('s, 'a, 'm, 'r) StorageHolder \<Rightarrow> ('s, 'a, 'm, 'r) StorageHolder" where
  "storeTuple a h = h\<lparr>sh_args := Some a\<rparr>"

definition memento_clear :: "('s, 'a, 'm) MementoTie \<Rightarrow> ('s, 'a, 'm) MementoTie" where
  "memento_clear t = t\<lparr>mt_memento := None\<rparr>"

definition memento_capture :: "'m \<Rightarrow> ('s, 'a, 'm) MementoTie \<Rightarrow> ('s, 'a, 'm) MementoTie" where
  "memento_capture m t = t\<lparr>mt_memento := Some m\<rparr>"

definition getState :: "('s, 'a, 'm) MementoTie \<Rightarrow> 'm result" where
  "getState t = (case mt_memento t of None \<Rightarrow> Inl (Err State ''MISSING_MEMENTO'') | Some m \<Rightarrow> Inr m)"

definition clearStorage :: "('s, 'a, 'm, 'r) StorageHolder \<Rightarrow> ('s, 'a, 'm, 'r) StorageHolder" where
  "clearStorage h = h\<lparr>sh_args := None, sh_tie := memento_clear (sh_tie h)\<rparr>"

definition StorageHolder_new :: "('r \<Rightarrow> 'a result) \<Rightarrow> ('s, 'a, 'm, 'r) StorageHolder" where
  "StorageHolder_new build = \<lparr>sh_args = None,
     sh_tie = \<lparr>mt_memento = None, mt_undo = None, mt_capture = None\<rparr>, sh_accept = build\<rparr>"

definition tie :: "('m \<Rightarrow> (unit, 's, 'a) operation) \<Rightarrow> ('m, 's, 'a) operation
    \<Rightarrow> ('s, 'a, 'm, 'r) StorageHolder \<Rightarrow> ('s, 'a, 'm, 'r) StorageHolder" where
  "tie undoFunc captureFunc h = h\<lparr>sh_tie := \<lparr>mt_memento = None, mt_undo = Some undoFunc, mt_capture = Some captureFunc\<rparr>\<rparr>"

definition StorageHolder_copy :: "('s, 'a, 'm, 'r) StorageHolder \<Rightarrow> ('s, 'a, 'm, 'r) StorageHolder" where
  "StorageHolder_copy h = \<lparr>sh_args = (if closure_isValid h then sh_args h else None), sh_tie = sh_tie h, sh_accept = sh_accept h\<rparr>"

subsection \<open>Invocation of functors\<close>

text \<open>
  The functor is applied to the arguments in the closure; when bound to a memento, it reads it as its
  last argument, or stores the result of the capture there.
\<close>

definition apply_operation ::
  "nat \<Rightarrow> ('x, 's, 'a) operation \<Rightarrow> (('s, 'a, 'm, 'r, 'z) commands_scheme, 'x) run" where
  "apply_operation c f w =
     (case sh_args (closures w ! c) of
        None \<Rightarrow> (Inl (Err Assertion ''arguments''), w)
      | Some a \<Rightarrow> (case f a (env w) of (r, a', e') \<Rightarrow>
          (r, w\<lparr>env := e', closures := (closures w)[c := storeTuple a' (closures w ! c)]\<rparr>)))"

fun invoke_functor :: "nat \<Rightarrow> ('s, 'a, 'm) CmdFunctor \<Rightarrow> (('s, 'a, 'm, 'r, 'z) commands_scheme, unit) run" where
  "invoke_functor c (Operation f) = apply_operation c f"
| "invoke_functor c (TiedUndo u t) =
     bind_run (result_run (\<lambda>w. getState (sh_tie (closures w ! t)))) (\<lambda>m.
       case u of None \<Rightarrow> throw_run External ''bad_function_call'' | Some f \<Rightarrow> apply_operation c (f m))"
| "invoke_functor c (TiedCapture g t) =
     (case g of None \<Rightarrow> throw_run External ''bad_function_call''
      | Some f \<Rightarrow> bind_run (apply_operation c f) (\<lambda>m. modify_run (\<lambda>w.
          w\<lparr>closures := (closures w)[t := (closures w ! t)\<lparr>sh_tie := memento_capture m (sh_tie (closures w ! t))\<rparr>]\<rparr>)))"

definition closure_invoke :: "nat \<Rightarrow> ('s, 'a, 'm) CmdFunctor \<Rightarrow> (('s, 'a, 'm, 'r, 'z) commands_scheme, unit) run" where
  "closure_invoke c func w =
     (if \<not> closure_isValid (closures w ! c) then throw_run State ''UNBOUND_ARGUMENTS'' w else invoke_functor c func w)"

definition mutation_apply :: "('s, 'a, 'm) CmdFunctor \<Rightarrow> nat \<Rightarrow> (('s, 'a, 'm, 'r, 'z) commands_scheme, unit) run" where
  "mutation_apply func c w =
     (if \<not> closure_isValid (closures w ! c) then throw_run State ''UNBOUND_ARGUMENTS'' w else closure_invoke c func w)"

definition captureState :: "('s, 'a, 'm) CmdFunctor \<Rightarrow> nat \<Rightarrow> (('s, 'a, 'm, 'r, 'z) commands_scheme, unit) run" where
  "captureState func c w =
     (if \<not> closure_isValid (closures w ! c) then throw_run State ''UNBOUND_ARGUMENTS'' w else mutation_apply func c w)"

definition invokeOperation :: "nat \<Rightarrow> (('s, 'a, 'm, 'r, 'z) commands_scheme, unit) run" where
  "invokeOperation i w = mutation_apply (im_do (impls w ! i)) (pClo (impls w ! i)) w"

definition invokeCapture :: "nat \<Rightarrow> (('s, 'a, 'm, 'r, 'z) commands_scheme, unit) run" where
  "invokeCapture i w = captureState (im_capture (impls w ! i)) (pClo (impls w ! i)) w"

definition invokeUndo :: "nat \<Rightarrow> (('s, 'a, 'm, 'r, 'z) commands_scheme, unit) run" where
  "invokeUndo i w = mutation_apply (im_undo (impls w ! i)) (pClo (impls w ! i)) w"

subsection \<open>Handling patterns\<close>

text \<open>Only the basic pattern is implemented; the others stop with an assertion.\<close>

definition pattern_isValid :: "PattID \<Rightarrow> bool result" where
  "pattern_isValid p = (if p = DUMMY then Inr True else Inl (Err Assertion ''UNIMPLEMENTED''))"

definition impl_isValid :: "('s, 'a, 'm, 'r, 'z) commands_scheme \<Rightarrow> nat \<Rightarrow> bool result" where
  "impl_isValid w i = pattern_isValid (defaultPatt (impls w ! i))"

definition impl_canExec :: "('s, 'a, 'm, 'r, 'z) commands_scheme \<Rightarrow> nat \<Rightarrow> bool result" where
  "impl_canExec w i = bind_result (impl_isValid w i) (\<lambda>v. Inr (v \<and> closure_isValid (clo_of w i)))"

definition impl_canUndo :: "('s, 'a, 'm, 'r, 'z) commands_scheme \<Rightarrow> nat \<Rightarrow> bool result" where
  "impl_canUndo w i = bind_result (impl_isValid w i) (\<lambda>v. Inr (v \<and> isCaptured (clo_of w i)))"

definition require_run :: "('w \<Rightarrow> bool result) \<Rightarrow> string \<Rightarrow> ('w, unit) run" where
  "require_run q msg = bind_run (result_run q) (\<lambda>b. result_run (\<lambda>_. require b msg))"

definition performExec :: "PattID \<Rightarrow> nat \<Rightarrow> (('s, 'a, 'm, 'r, 'z) commands_scheme, unit) run" where
  "performExec p i =
     (if p \<noteq> DUMMY then throw_run Assertion ''UNIMPLEMENTED''
      else bind_run (require_run (\<lambda>w. impl_canExec w i) ''command.canExec()'') (\<lambda>_.
           bind_run (invokeCapture i) (\<lambda>_. invokeOperation i)))"

definition performUndo :: "PattID \<Rightarrow> nat \<Rightarrow> (('s, 'a, 'm, 'r, 'z) commands_scheme, unit) run" where
  "performUndo p i =
     (if p \<noteq> DUMMY then throw_run Assertion ''UNIMPLEMENTED''
      else bind_run (require_run (\<lambda>w. impl_canUndo w i) ''command.canUndo()'') (\<lambda>_. invokeUndo i))"

text \<open>The result of an execution holds the error, if any. Reading the error flag clears it.\<close>

type_synonym ExecResult = "lumiera_error option"

definition clear_flag :: "('s, 'a, 'm, 'r, 'z) commands_scheme \<Rightarrow> ('s, 'a, 'm, 'r, 'z) commands_scheme" where
  "clear_flag w = w\<lparr>env := (env w)\<lparr>err_flag := None\<rparr>\<rparr>"

definition pattern_invoke ::
  "(('s, 'a, 'm, 'r, 'z) commands_scheme, unit) run \<Rightarrow> (('s, 'a, 'm, 'r, 'z) commands_scheme, ExecResult) run" where
  "pattern_invoke action w =
     (case err_flag (env w) of
        Some errID_pre \<Rightarrow> (Inr (Some (Err Logic errID_pre)), clear_flag w)
      | None \<Rightarrow> (case action w of
            (Inl (Err c msg), w') \<Rightarrow> if c = Assertion then (Inl (Err c msg), w') else (Inr (Some (Err c msg)), clear_flag w')
          | (Inr _, w') \<Rightarrow> (case err_flag (env w') of
                Some errID \<Rightarrow> (Inr (Some (Err State errID)), clear_flag w')
              | None \<Rightarrow> (Inr None, w'))))"

definition ExecResult_isValid :: "ExecResult \<Rightarrow> bool" where
  "ExecResult_isValid r \<longleftrightarrow> r = None"

definition maybeThrow :: "ExecResult \<Rightarrow> unit result" where
  "maybeThrow r = (if r \<noteq> None then Inl (Err Logic ''Command execution failed'') else Inr ())"

subsection \<open>Registry\<close>

definition queryIndex :: "('s, 'a, 'm, 'r, 'z) commands_scheme \<Rightarrow> string \<Rightarrow> Command" where
  "queryIndex w key = index w key"

definition findDefinition :: "('s, 'a, 'm, 'r, 'z) commands_scheme \<Rightarrow> Command \<Rightarrow> string option" where
  "findDefinition w h = (case h of None \<Rightarrow> None | Some i \<Rightarrow> ridx w i)"

definition track :: "string \<Rightarrow> Command \<Rightarrow> (('s, 'a, 'm, 'r, 'z) commands_scheme, unit) run" where
  "track key h w =
     (case h of
        None \<Rightarrow> throw_run Assertion ''commandHandle'' w
      | Some i \<Rightarrow>
          if index w key \<noteq> None \<or> ridx w i \<noteq> None then throw_run Logic ''DUPLICATE_COMMAND'' w
          else (Inr (), w\<lparr>index := (index w)(key \<mapsto> i), ridx := (ridx w)(i \<mapsto> key)\<rparr>))"

definition registry_remove :: "string \<Rightarrow> (('s, 'a, 'm, 'r, 'z) commands_scheme, bool) run" where
  "registry_remove key w =
     (case index w key of
        None \<Rightarrow> (Inr False, w)
      | Some i \<Rightarrow> (Inr True, w\<lparr>ridx := (ridx w)(i := None), index := (index w)(key := None)\<rparr>))"

definition newCommandImpl ::
  "(unit, 's, 'a) operation \<Rightarrow> ('m, 's, 'a) operation \<Rightarrow> ('m \<Rightarrow> (unit, 's, 'a) operation) \<Rightarrow> ('r \<Rightarrow> 'a result)
   \<Rightarrow> (('s, 'a, 'm, 'r, 'z) commands_scheme, nat) run" where
  "newCommandImpl operFunctor captFunctor undoFunctor build w =
     (let c = length (closures w);
          pArg = tie undoFunctor captFunctor (StorageHolder_new build)
      in (Inr (length (impls w)), w\<lparr>closures := closures w @ [pArg],
            impls := impls w @ [\<lparr>im_do = Operation operFunctor,
              im_undo = TiedUndo (mt_undo (sh_tie pArg)) c, im_capture = TiedCapture (mt_capture (sh_tie pArg)) c,
              pClo = c, defaultPatt = DUMMY, cmdID = BOTTOM\<rparr>]\<rparr>))"

definition createCloneImpl :: "nat \<Rightarrow> (('s, 'a, 'm, 'r, 'z) commands_scheme, nat) run" where
  "createCloneImpl i w =
     (let orig = impls w ! i;
          c = length (closures w);
          newClosure = StorageHolder_copy (closures w ! pClo orig)
      in (Inr (length (impls w)), w\<lparr>closures := closures w @ [newClosure],
            impls := impls w @ [orig\<lparr>im_undo := TiedUndo (mt_undo (sh_tie newClosure)) c,
              im_capture := TiedCapture (mt_capture (sh_tie newClosure)) c, pClo := c\<rparr>]\<rparr>))"

subsection \<open>Command handles\<close>

definition command_notBottom :: "Command \<Rightarrow> ('w, nat) run" where
  "command_notBottom h = (case h of None \<Rightarrow> throw_run Invalid ''INVALID_COMMAND'' | Some i \<Rightarrow> return_run i)"

definition command_canExec :: "('s, 'a, 'm, 'r, 'z) commands_scheme \<Rightarrow> Command \<Rightarrow> bool result" where
  "command_canExec w h = (case h of None \<Rightarrow> Inr False | Some i \<Rightarrow> impl_canExec w i)"

definition command_canUndo :: "('s, 'a, 'm, 'r, 'z) commands_scheme \<Rightarrow> Command \<Rightarrow> bool result" where
  "command_canUndo w h = (case h of None \<Rightarrow> Inr False | Some i \<Rightarrow> impl_canUndo w i)"

definition check_isBound :: "Command \<Rightarrow> (('s, 'a, 'm, 'r, 'z) commands_scheme, unit) run" where
  "check_isBound h = bind_run (result_run (\<lambda>w. command_canExec w h)) (\<lambda>b.
     if b then return_run () else throw_run State ''UNBOUND_ARGUMENTS'')"

definition check_canUndo :: "Command \<Rightarrow> (('s, 'a, 'm, 'r, 'z) commands_scheme, unit) run" where
  "check_canUndo h = bind_run (result_run (\<lambda>w. command_canUndo w h)) (\<lambda>b.
     if b then return_run () else throw_run State ''UNBOUND_ARGUMENTS'')"

definition Command_get :: "string \<Rightarrow> (('s, 'a, 'm, 'r, 'z) commands_scheme, Command) run" where
  "Command_get key = bind_run (result_run (\<lambda>w. Inr (queryIndex w key))) (\<lambda>cmd.
     if cmd = None then throw_run Invalid ''INVALID_COMMAND''
     else bind_run (require_run (\<lambda>w. Inr (findDefinition w cmd = Some key)) ''cmdID == findDefinition (cmd)'') (\<lambda>_.
       return_run cmd))"

definition symbol_empty :: "string \<Rightarrow> bool" where
  "symbol_empty s \<longleftrightarrow> s = BOTTOM \<or> s = []"

text \<open>Activation connects a handle with an implementation, and registers it when there is an ID.\<close>

definition command_activate :: "Command \<Rightarrow> nat \<Rightarrow> string \<Rightarrow> (('s, 'a, 'm, 'r, 'z) commands_scheme, Command) run" where
  "command_activate this implFrame key =
     (if this \<noteq> None then throw_run Logic ''DUPLICATE_COMMAND''
      else if \<not> symbol_empty key
      then bind_run (track key (Some implFrame)) (\<lambda>_.
           bind_run (modify_run (\<lambda>w. w\<lparr>impls := (impls w)[implFrame := (impls w ! implFrame)\<lparr>cmdID := key\<rparr>]\<rparr>)) (\<lambda>_.
             return_run (Some implFrame)))
      else return_run (Some implFrame))"

definition storeDef :: "Command \<Rightarrow> string \<Rightarrow> (('s, 'a, 'm, 'r, 'z) commands_scheme, Command) run" where
  "storeDef h newCmdID = bind_run (command_notBottom h) (\<lambda>i.
     bind_run (result_run (\<lambda>w. Inr (queryIndex w newCmdID))) (\<lambda>old.
       if old \<noteq> None then throw_run Logic ''DUPLICATE_COMMAND''
       else bind_run (createCloneImpl i) (\<lambda>j. command_activate None j newCmdID)))"

definition newInstance :: "Command \<Rightarrow> (('s, 'a, 'm, 'r, 'z) commands_scheme, Command) run" where
  "newInstance h = bind_run (command_notBottom h) (\<lambda>i.
     bind_run (createCloneImpl i) (\<lambda>j. command_activate None j BOTTOM))"

definition maybeGetNewInstance :: "string \<Rightarrow> (('s, 'a, 'm, 'r, 'z) commands_scheme, Command) run" where
  "maybeGetNewInstance key = bind_run (result_run (\<lambda>w. Inr (queryIndex w key))) (\<lambda>cmd.
     if cmd \<noteq> None then newInstance cmd else return_run None)"

definition setArguments :: "Command \<Rightarrow> 'r \<Rightarrow> (('s, 'a, 'm, 'r, 'z) commands_scheme, unit) run" where
  "setArguments h args = bind_run (command_notBottom h) (\<lambda>i.
     bind_run (result_run (\<lambda>w. sh_accept (clo_of w i) args)) (\<lambda>a.
       modify_run (\<lambda>w. w\<lparr>closures := (closures w)[pClo (impls w ! i) := storeTuple a (clo_of w i)]\<rparr>)))"

definition unbind :: "Command \<Rightarrow> (('s, 'a, 'm, 'r, 'z) commands_scheme, unit) run" where
  "unbind h = bind_run (command_notBottom h) (\<lambda>i.
     modify_run (\<lambda>w. w\<lparr>closures := (closures w)[pClo (impls w ! i) := clearStorage (clo_of w i)]\<rparr>))"

definition exec_pattern :: "PattID \<Rightarrow> Command \<Rightarrow> (('s, 'a, 'm, 'r, 'z) commands_scheme, ExecResult) run" where
  "exec_pattern p h = bind_run (command_notBottom h) (\<lambda>i.
     bind_run (check_isBound h) (\<lambda>_. pattern_invoke (performExec p i)))"

definition undo_pattern :: "PattID \<Rightarrow> Command \<Rightarrow> (('s, 'a, 'm, 'r, 'z) commands_scheme, ExecResult) run" where
  "undo_pattern p h = bind_run (command_notBottom h) (\<lambda>i.
     bind_run (check_canUndo h) (\<lambda>_. pattern_invoke (performUndo p i)))"

definition getDefaultHandlingPattern :: "Command \<Rightarrow> (('s, 'a, 'm, 'r, 'z) commands_scheme, PattID) run" where
  "getDefaultHandlingPattern h = bind_run (command_notBottom h) (\<lambda>i. result_run (\<lambda>w. Inr (defaultPatt (impls w ! i))))"

definition setHandlingPattern :: "Command \<Rightarrow> PattID \<Rightarrow> (('s, 'a, 'm, 'r, 'z) commands_scheme, PattID) run" where
  "setHandlingPattern h p = bind_run (command_notBottom h) (\<lambda>i.
     bind_run (result_run (\<lambda>w. Inr (defaultPatt (impls w ! i)))) (\<lambda>old.
     bind_run (modify_run (\<lambda>w. w\<lparr>impls := (impls w)[i := (impls w ! i)\<lparr>defaultPatt := p\<rparr>]\<rparr>)) (\<lambda>_. return_run old)))"

definition Command_exec :: "Command \<Rightarrow> (('s, 'a, 'm, 'r, 'z) commands_scheme, ExecResult) run" where
  "Command_exec h = bind_run (getDefaultHandlingPattern h) (\<lambda>p. exec_pattern p h)"

definition Command_undo :: "Command \<Rightarrow> (('s, 'a, 'm, 'r, 'z) commands_scheme, ExecResult) run" where
  "Command_undo h = bind_run (getDefaultHandlingPattern h) (\<lambda>p. undo_pattern p h)"

definition execSync :: "Command \<Rightarrow> (('s, 'a, 'm, 'r, 'z) commands_scheme, ExecResult) run" where
  "execSync h = exec_pattern DUMMY h"

definition isAnonymous :: "('s, 'a, 'm, 'r, 'z) commands_scheme \<Rightarrow> Command \<Rightarrow> bool" where
  "isAnonymous w h \<longleftrightarrow> (case findDefinition w h of None \<Rightarrow> True | Some s \<Rightarrow> symbol_empty s)"

subsection \<open>Definition of a command\<close>

text \<open>
  The builder expression with operation, capture and undo functor, as a whole. A command without parameters,
  where \<open>zero\<close> is the empty tuple, is bound at once.
\<close>

definition CommandDef_define ::
  "string \<Rightarrow> (unit, 's, 'a) operation \<Rightarrow> ('m, 's, 'a) operation \<Rightarrow> ('m \<Rightarrow> (unit, 's, 'a) operation) \<Rightarrow> ('r \<Rightarrow> 'a result)
   \<Rightarrow> 'a option \<Rightarrow> (('s, 'a, 'm, 'r, 'z) commands_scheme, Command) run" where
  "CommandDef_define key operFunctor captFunctor undoFunctor build zero w =
     (let prototype = queryIndex w key in
      case bind_run (newCommandImpl operFunctor captFunctor undoFunctor build) (\<lambda>i. command_activate prototype i key) w of
        (Inl e, w') \<Rightarrow> (Inl e, w')
      | (Inr h, w') \<Rightarrow>
          (case h of
             None \<Rightarrow> (Inl (Err Assertion ''prototype_''), w')
           | Some i \<Rightarrow> (Inr h, case zero of None \<Rightarrow> w'
               | Some a \<Rightarrow> w'\<lparr>closures := (closures w')[pClo (impls w' ! i) := storeTuple a (clo_of w' i)]\<rparr>)))"

definition CommandDef_isValid :: "('s, 'a, 'm, 'r, 'z) commands_scheme \<Rightarrow> string \<Rightarrow> Command \<Rightarrow> bool" where
  "CommandDef_isValid w key prototype \<longleftrightarrow> prototype \<noteq> None \<and> prototype = queryIndex w key"

subsection \<open>What an invocation touches\<close>

text \<open>
  Binding and invocation change the session, and the arguments and memento in the closure of the
  command; the functors kept there stay.
\<close>

definition same_functors :: "('s, 'a, 'm, 'r) StorageHolder \<Rightarrow> ('s, 'a, 'm, 'r) StorageHolder \<Rightarrow> bool" where
  "same_functors h h' \<longleftrightarrow> mt_undo (sh_tie h') = mt_undo (sh_tie h) \<and> mt_capture (sh_tie h') = mt_capture (sh_tie h)
     \<and> sh_accept h' = sh_accept h"

definition touches :: "nat \<Rightarrow> ('s, 'a, 'm, 'r, 'z) commands_scheme \<Rightarrow> ('s, 'a, 'm, 'r, 'z) commands_scheme \<Rightarrow> bool" where
  "touches c w w' \<longleftrightarrow> (\<exists>e h. w' = w\<lparr>env := e, closures := (closures w)[c := h]\<rparr> \<and> same_functors (closures w ! c) h)"

lemma same_functors_refl [simp]: "same_functors h h"
  by (simp add: same_functors_def)

lemma same_functors_trans: "same_functors a b \<Longrightarrow> same_functors b c \<Longrightarrow> same_functors a c"
  by (simp add: same_functors_def)

lemma touches_update:
  "same_functors (closures w ! c) h \<Longrightarrow> touches c w (w\<lparr>env := e, closures := (closures w)[c := h]\<rparr>)"
  "same_functors (closures w ! c) h \<Longrightarrow> touches c w (w\<lparr>closures := (closures w)[c := h]\<rparr>)"
proof -
  assume h: "same_functors (closures w ! c) h"
  then show "touches c w (w\<lparr>env := e, closures := (closures w)[c := h]\<rparr>)" for e by (auto simp: touches_def)
  from this [of "env w"] show "touches c w (w\<lparr>closures := (closures w)[c := h]\<rparr>)" by (cases w) simp
qed

lemma touches_refl [simp]: "touches c w w"
  using touches_update(2) [of w c "closures w ! c"] by simp

lemma touches_trans: "touches c w w' \<Longrightarrow> touches c w' w'' \<Longrightarrow> touches c w w''"
proof -
  assume "touches c w w'" "touches c w' w''"
  then obtain e h e' h' where w: "w' = w\<lparr>env := e, closures := (closures w)[c := h]\<rparr>" "same_functors (closures w ! c) h"
    "w'' = w'\<lparr>env := e', closures := (closures w')[c := h']\<rparr>" "same_functors (closures w' ! c) h'"
    by (auto simp: touches_def)
  then have "same_functors (closures w ! c) h'"
    by (cases "c < length (closures w)") (auto simp: list_update_beyond intro: same_functors_trans)
  then have "touches c w (w\<lparr>env := e', closures := (closures w)[c := h']\<rparr>)" by (rule touches_update)
  then show "touches c w w''" using w(1,3) by simp
qed

lemma touches_fields:
  assumes "touches c w w'"
  shows "impls w' = impls w" "index w' = index w" "ridx w' = ridx w" "commands.more w' = commands.more w"
    "length (closures w') = length (closures w)" "d \<noteq> c \<Longrightarrow> closures w' ! d = closures w ! d"
    "same_functors (closures w ! d) (closures w' ! d)"
proof -
  obtain e h where w': "w' = w\<lparr>env := e, closures := (closures w)[c := h]\<rparr>" "same_functors (closures w ! c) h"
    using assms by (auto simp: touches_def)
  then show "impls w' = impls w" "index w' = index w" "ridx w' = ridx w" "commands.more w' = commands.more w"
    "length (closures w') = length (closures w)" "d \<noteq> c \<Longrightarrow> closures w' ! d = closures w ! d"
    by simp_all
  show "same_functors (closures w ! d) (closures w' ! d)"
    using w' by (cases "d = c"; cases "c < length (closures w)") (simp_all add: list_update_beyond)
qed

lemma touches_env [simp]: "touches c w (w\<lparr>env := e\<rparr>)"
  using touches_update(1) [of w c "closures w ! c" e] by simp

lemma touches_bind:
  assumes "touches c w (snd (m w))" "\<And>x. fst (m w) = Inr x \<Longrightarrow> touches c (snd (m w)) (snd (f x (snd (m w))))"
  shows "touches c w (snd (bind_run m f w))"
  using assms by (cases "m w") (auto simp: bind_run_def split: sum.split intro: touches_trans)

lemma touches_apply: "touches c w (snd (apply_operation c f w))"
  by (auto simp: apply_operation_def same_functors_def storeTuple_def split: option.split prod.split intro!: touches_update)

lemma touches_invoke:
  assumes "func = Operation f \<or> func = TiedUndo u c \<or> func = TiedCapture g c"
  shows "touches c w (snd (invoke_functor c func w))"
proof -
  have store: "touches c w' (w'\<lparr>closures := (closures w')[c := (closures w' ! c)\<lparr>sh_tie := memento_capture m (sh_tie (closures w' ! c))\<rparr>]\<rparr>)"
    for w' :: "('a, 'b, 'c, 'd, 'e) commands_scheme" and m
    by (intro touches_update) (simp add: same_functors_def memento_capture_def)
  show ?thesis
    using assms
  proof (elim disjE)
    assume "func = TiedUndo u c"
    then show ?thesis by (auto simp: run_simps touches_apply split: option.split sum.split)
  next
    assume "func = TiedCapture g c"
    then show ?thesis by (cases g) (auto simp: run_simps store intro!: touches_bind touches_apply)
  qed (simp add: touches_apply)
qed

definition tied_at :: "nat \<Rightarrow> ('s, 'a, 'm) CmdFunctor \<Rightarrow> bool" where
  "tied_at c func \<longleftrightarrow> (case func of Operation f \<Rightarrow> True | TiedUndo u t \<Rightarrow> t = c | TiedCapture g t \<Rightarrow> t = c)"

lemma touches_mutation: "tied_at c func \<Longrightarrow> touches c w (snd (mutation_apply func c w))"
  by (cases func) (auto simp: tied_at_def mutation_apply_def closure_invoke_def run_simps intro: touches_invoke
      simp del: invoke_functor.simps)

lemma touches_capture: "tied_at c func \<Longrightarrow> touches c w (snd (captureState func c w))"
  by (auto simp: captureState_def run_simps touches_mutation)

lemma clear_flag_touches [simp]: "touches c w (clear_flag w)"
  by (simp add: clear_flag_def)

lemma touches_pattern_invoke: "touches c w (snd (action w)) \<Longrightarrow> touches c w (snd (pattern_invoke action w))"
  by (auto simp: pattern_invoke_def split: option.split prod.split sum.split lumiera_error.split
      intro: touches_trans clear_flag_touches)

subsection \<open>Wiring\<close>

text \<open>
  Each command has a closure of its own, to which its functors are bound, and the tables of the
  registry are inverse to each other.
\<close>

definition own_wiring :: "('s, 'a, 'm, 'r, 'z) commands_scheme \<Rightarrow> nat \<Rightarrow> bool" where
  "own_wiring w i \<longleftrightarrow> (let impl = impls w ! i; t = sh_tie (clo_of w i) in
     pClo impl < length (closures w) \<and> mt_undo t \<noteq> None \<and> mt_capture t \<noteq> None
     \<and> (\<exists>f. im_do impl = Operation f)
     \<and> im_undo impl = TiedUndo (mt_undo t) (pClo impl) \<and> im_capture impl = TiedCapture (mt_capture t) (pClo impl))"

definition wired :: "('s, 'a, 'm, 'r, 'z) commands_scheme \<Rightarrow> bool" where
  "wired w \<longleftrightarrow> (\<forall>i<length (impls w). own_wiring w i) \<and> distinct (map pClo (impls w))
     \<and> (\<forall>key i. index w key = Some i \<longleftrightarrow> ridx w i = Some key)
     \<and> (\<forall>key i. index w key = Some i \<longrightarrow> i < length (impls w) \<and> cmdID (impls w ! i) = key)"

definition handle_ok :: "('s, 'a, 'm, 'r, 'z) commands_scheme \<Rightarrow> Command \<Rightarrow> bool" where
  "handle_ok w h \<longleftrightarrow> (\<forall>i. h = Some i \<longrightarrow> i < length (impls w))"

lemma wired_own: "wired w \<Longrightarrow> i < length (impls w) \<Longrightarrow> own_wiring w i"
  by (simp add: wired_def)

lemma wired_distinct:
  "wired w \<Longrightarrow> i < length (impls w) \<Longrightarrow> j < length (impls w) \<Longrightarrow> i \<noteq> j \<Longrightarrow> pClo (impls w ! i) \<noteq> pClo (impls w ! j)"
  using nth_eq_iff_index_eq [of "map pClo (impls w)" i j] by (auto simp: wired_def)

lemma touches_own_wiring: "touches c w w' \<Longrightarrow> own_wiring w i \<Longrightarrow> own_wiring w' i"
  using touches_fields(7) [of c w w' "pClo (impls w ! i)"]
  by (simp add: own_wiring_def touches_fields clo_of_def Let_def same_functors_def)

lemma touches_wired: "touches c w w' \<Longrightarrow> wired w \<Longrightarrow> wired w'"
  by (auto simp: wired_def touches_fields touches_own_wiring)

lemma own_tied:
  "own_wiring w i \<Longrightarrow> tied_at (pClo (impls w ! i)) (im_do (impls w ! i)) \<and> tied_at (pClo (impls w ! i)) (im_undo (impls w ! i))
     \<and> tied_at (pClo (impls w ! i)) (im_capture (impls w ! i))"
  by (auto simp: own_wiring_def tied_at_def Let_def)

lemma touches_perform:
  assumes "own_wiring w i"
  shows "touches (pClo (impls w ! i)) w (snd (performExec p i w))" "touches (pClo (impls w ! i)) w (snd (performUndo p i w))"
proof -
  let ?c = "pClo (impls w ! i)"
  have guard: "snd (require_run q msg w) = w" for q msg
    by (simp add: require_run_def run_simps require_def split: sum.split)
  have capture: "touches ?c w (snd (invokeCapture i w))"
    using own_tied [OF assms] by (simp add: invokeCapture_def touches_capture)
  then have impls: "impls (snd (invokeCapture i w)) = impls w" by (rule touches_fields)
  have oper: "touches ?c (snd (invokeCapture i w)) (snd (invokeOperation i (snd (invokeCapture i w))))"
    using own_tied [OF assms] by (simp add: invokeOperation_def impls touches_mutation)
  show "touches ?c w (snd (performExec p i w))"
    unfolding performExec_def
    by (cases "p = DUMMY") (auto simp: guard run_simps capture intro!: touches_bind intro: oper)
  show "touches ?c w (snd (performUndo p i w))"
    using own_tied [OF assms] unfolding performUndo_def
    by (cases "p = DUMMY") (auto simp: guard run_simps invokeUndo_def touches_mutation intro!: touches_bind)
qed

lemma touches_handle:
  assumes "wired w" "i < length (impls w)"
  shows "touches (pClo (impls w ! i)) w (snd (exec_pattern p (Some i) w))"
    "touches (pClo (impls w ! i)) w (snd (undo_pattern p (Some i) w))"
    "touches (pClo (impls w ! i)) w (snd (setArguments (Some i) r w))"
    "touches (pClo (impls w ! i)) w (snd (unbind (Some i) w))"
    "touches (pClo (impls w ! i)) w (snd (Command_exec (Some i) w))"
    "touches (pClo (impls w ! i)) w (snd (Command_undo (Some i) w))"
proof -
  have own: "own_wiring w i" using assms by (rule wired_own)
  have bound: "snd (check_isBound h w) = w" "snd (check_canUndo h w) = w" for h
    by (simp_all add: check_isBound_def check_canUndo_def run_simps split: sum.split)
  show exec: "touches (pClo (impls w ! i)) w (snd (exec_pattern p (Some i) w))" for p
    unfolding exec_pattern_def command_notBottom_def
    by (auto simp: run_simps bound intro!: touches_bind touches_pattern_invoke touches_perform(1) [OF own])
  show undo: "touches (pClo (impls w ! i)) w (snd (undo_pattern p (Some i) w))" for p
    unfolding undo_pattern_def command_notBottom_def
    by (auto simp: run_simps bound intro!: touches_bind touches_pattern_invoke touches_perform(2) [OF own])
  show "touches (pClo (impls w ! i)) w (snd (setArguments (Some i) r w))" "touches (pClo (impls w ! i)) w (snd (unbind (Some i) w))"
    by (auto simp: setArguments_def unbind_def command_notBottom_def run_simps clo_of_def storeTuple_def clearStorage_def
        memento_clear_def same_functors_def split: sum.split intro!: touches_update)
  show "touches (pClo (impls w ! i)) w (snd (Command_exec (Some i) w))" "touches (pClo (impls w ! i)) w (snd (Command_undo (Some i) w))"
    by (simp_all add: Command_exec_def Command_undo_def getDefaultHandlingPattern_def command_notBottom_def run_simps exec undo)
qed

subsection \<open>New commands\<close>

lemma wired_append:
  assumes "wired w" "pClo x = length (closures w)" "mt_undo (sh_tie h) \<noteq> None" "mt_capture (sh_tie h) \<noteq> None"
    "\<exists>f. im_do x = Operation f" "im_undo x = TiedUndo (mt_undo (sh_tie h)) (length (closures w))"
    "im_capture x = TiedCapture (mt_capture (sh_tie h)) (length (closures w))"
  shows "wired (w\<lparr>closures := closures w @ [h], impls := impls w @ [x]\<rparr>)"
proof -
  let ?w = "w\<lparr>closures := closures w @ [h], impls := impls w @ [x]\<rparr>"
  have clo: "pClo (impls w ! i) < length (closures w)" if "i < length (impls w)" for i
    using wired_own [OF assms(1) that] by (simp add: own_wiring_def Let_def)
  have "own_wiring ?w i" if "i < length (impls ?w)" for i
  proof (cases "i < length (impls w)")
    case True
    then show ?thesis using wired_own [OF assms(1) True] clo [OF True]
      by (auto simp: own_wiring_def clo_of_def Let_def nth_append)
  next
    case False
    then have "i = length (impls w)" using that by simp
    then show ?thesis using assms(2-) by (auto simp: own_wiring_def clo_of_def Let_def)
  qed
  moreover have "distinct (map pClo (impls ?w))"
  proof -
    have "length (closures w) \<notin> set (map pClo (impls w))"
    proof
      assume "length (closures w) \<in> set (map pClo (impls w))"
      then obtain i where "i < length (impls w)" "pClo (impls w ! i) = length (closures w)" by (auto simp: in_set_conv_nth)
      then show False using clo [of i] by simp
    qed
    then show ?thesis using assms(1,2) by (simp add: wired_def)
  qed
  ultimately show ?thesis
    using assms(1) unfolding wired_def by (simp add: nth_append) (meson less_SucI)
qed

text \<open>Commands that were there before stay as they are.\<close>

definition keeps_commands :: "('s, 'a, 'm, 'r, 'z) commands_scheme \<Rightarrow> ('s, 'a, 'm, 'r, 'z) commands_scheme \<Rightarrow> bool" where
  "keeps_commands w w' \<longleftrightarrow> length (impls w) \<le> length (impls w') \<and> env w' = env w
     \<and> (\<forall>i<length (impls w). impls w' ! i = impls w ! i \<and> clo_of w' i = clo_of w i)"

lemma keeps_refl [simp]: "keeps_commands w w"
  by (simp add: keeps_commands_def)

lemma keeps_trans: "keeps_commands w w' \<Longrightarrow> keeps_commands w' w'' \<Longrightarrow> keeps_commands w w''"
  by (auto simp: keeps_commands_def)

lemma keeps_append:
  assumes "wired w"
  shows "keeps_commands w (w\<lparr>closures := closures w @ [h], impls := impls w @ [x]\<rparr>)"
proof -
  have "pClo (impls w ! i) < length (closures w)" if "i < length (impls w)" for i
    using wired_own [OF assms that] by (simp add: own_wiring_def Let_def)
  then show ?thesis by (simp add: keeps_commands_def clo_of_def nth_append)
qed

text \<open>The activation of a new implementation, the last one in the store.\<close>

lemma activate_new:
  assumes "wired w" "impls w \<noteq> []" "ridx w (length (impls w) - 1) = None" "command_activate this (length (impls w) - 1) key w = (r, w')"
  shows "wired w' \<and> commands.more w' = commands.more w \<and> closures w' = closures w \<and> env w' = env w
    \<and> length (impls w') = length (impls w) \<and> (\<forall>i<length (impls w) - 1. impls w' ! i = impls w ! i)
    \<and> (case r of Inl e \<Rightarrow> w' = w \<and> e = Err Logic ''DUPLICATE_COMMAND'' \<and> (this \<noteq> None \<or> \<not> symbol_empty key \<and> index w key \<noteq> None)
       | Inr h \<Rightarrow> h = Some (length (impls w) - 1) \<and> this = None
           \<and> (if symbol_empty key then w' = w else index w key = None \<and> index w' = (index w)(key \<mapsto> length (impls w) - 1)))"
proof -
  let ?j = "length (impls w) - 1"
  have j: "?j < length (impls w)" using assms(2) by simp
  consider (fails) "this \<noteq> None \<or> \<not> symbol_empty key \<and> index w key \<noteq> None"
    | (anon) "this = None" "symbol_empty key" | (tracked) "this = None" "\<not> symbol_empty key" "index w key = None" by blast
  then show ?thesis
  proof cases
    case fails
    then show ?thesis using assms(1,4) by (auto simp: command_activate_def track_def run_simps bind_run_def split: if_splits)
  next
    case anon
    then show ?thesis using assms(1,4) by (auto simp: command_activate_def run_simps)
  next
    case tracked
    let ?x = "(impls w ! ?j)\<lparr>cmdID := key\<rparr>"
    have w': "w' = w\<lparr>index := (index w)(key \<mapsto> ?j), ridx := (ridx w)(?j \<mapsto> key), impls := (impls w)[?j := ?x]\<rparr>" "r = Inr (Some ?j)"
      using tracked assms(3,4) by (auto simp: command_activate_def track_def run_simps bind_run_def)
    have pclo: "map pClo (impls w') = map pClo (impls w)"
      unfolding w'(1) by (simp add: map_update) (metis j list_update_id map_update nth_map)
    have clo: "clo_of w' i = clo_of w i" for i
      unfolding w'(1) using j by (cases "i = ?j") (simp_all add: clo_of_def)
    have "own_wiring w' i" if "i < length (impls w')" for i
    proof -
      have "own_wiring w i" using that assms(1) unfolding w'(1) by (intro wired_own) simp_all
      then show ?thesis unfolding own_wiring_def clo Let_def unfolding w'(1) using j by (cases "i = ?j") simp_all
    qed
    moreover have "index w' k = Some i \<longleftrightarrow> ridx w' i = Some k" for k i
    proof -
      have "ridx w i \<noteq> Some key" for i using assms(1) tracked(3) unfolding wired_def by (metis option.distinct(1))
      then show ?thesis using assms(1,3) tracked(3) unfolding w'(1) wired_def by auto
    qed
    moreover have "index w' k = Some i \<longrightarrow> i < length (impls w') \<and> cmdID (impls w' ! i) = k" for k i
      using assms(1,3) j unfolding w'(1) wired_def by (cases "i = ?j") auto
    ultimately have "wired w'" using assms(1) pclo unfolding wired_def by simp
    then show ?thesis using tracked w' by simp
  qed
qed

lemma wired_ridx_new: "wired w \<Longrightarrow> ridx w (length (impls w)) = None"
  unfolding wired_def by (metis less_irrefl option.exhaust)

lemma new_command:
  assumes "wired w" "pClo x = length (closures w)" "mt_undo (sh_tie h) \<noteq> None" "mt_capture (sh_tie h) \<noteq> None"
    "\<exists>f. im_do x = Operation f" "im_undo x = TiedUndo (mt_undo (sh_tie h)) (length (closures w))"
    "im_capture x = TiedCapture (mt_capture (sh_tie h)) (length (closures w))"
    and "command_activate this (length (impls w)) key (w\<lparr>closures := closures w @ [h], impls := impls w @ [x]\<rparr>) = (r, w')"
  shows "wired w' \<and> keeps_commands w w' \<and> commands.more w' = commands.more w \<and> length (impls w') = Suc (length (impls w))
    \<and> clo_of w' (length (impls w)) = h
    \<and> (case r of Inl e \<Rightarrow> e = Err Logic ''DUPLICATE_COMMAND'' \<and> (this \<noteq> None \<or> \<not> symbol_empty key \<and> index w key \<noteq> None) \<and> index w' = index w
       | Inr k \<Rightarrow> k = Some (length (impls w)) \<and> this = None
           \<and> (if symbol_empty key then index w' = index w \<and> ridx w' = ridx w \<and> impls w' ! length (impls w) = x
              else index w key = None \<and> index w' = (index w)(key \<mapsto> length (impls w))))"
proof -
  let ?w = "w\<lparr>closures := closures w @ [h], impls := impls w @ [x]\<rparr>"
  have w1: "wired ?w" using assms(1-7) by (rule wired_append)
  have a: "wired w' \<and> commands.more w' = commands.more ?w \<and> closures w' = closures ?w \<and> env w' = env ?w
    \<and> length (impls w') = length (impls ?w) \<and> (\<forall>i<length (impls ?w) - 1. impls w' ! i = impls ?w ! i)
    \<and> (case r of Inl e \<Rightarrow> w' = ?w \<and> e = Err Logic ''DUPLICATE_COMMAND'' \<and> (this \<noteq> None \<or> \<not> symbol_empty key \<and> index ?w key \<noteq> None)
       | Inr h \<Rightarrow> h = Some (length (impls ?w) - 1) \<and> this = None
           \<and> (if symbol_empty key then w' = ?w else index ?w key = None \<and> index w' = (index ?w)(key \<mapsto> length (impls ?w) - 1)))"
    using assms(8) wired_ridx_new [OF assms(1)] by (intro activate_new [OF w1]) simp_all
  have own: "own_wiring w' (length (impls w))" using a by (intro wired_own) simp_all
  have keep: "keeps_commands w ?w" using keeps_append [OF assms(1)] .
  have same: "impls w' ! i = impls ?w ! i" if "i < length (impls w)" for i using a that by simp
  have "keeps_commands w w'"
    using keep a same unfolding keeps_commands_def by (simp add: clo_of_def nth_append)
  moreover have "pClo (impls w' ! length (impls w)) = length (closures w)"
  proof -
    have "distinct (map pClo (impls w'))" using a by (simp add: wired_def)
    then show ?thesis using a assms(8) assms(2)
      by (cases "this = None"; cases "symbol_empty key")
        (auto simp: command_activate_def track_def run_simps bind_run_def nth_append wired_ridx_new [OF assms(1)] split: if_splits)
  qed
  ultimately show ?thesis using a by (auto simp: clo_of_def split: sum.splits if_splits)
qed

lemma define_command:
  assumes "wired w" "CommandDef_define key f g u build zero w = (r, w')"
  shows "wired w' \<and> keeps_commands w w' \<and> commands.more w' = commands.more w
    \<and> (case r of Inl e \<Rightarrow> e = Err Logic ''DUPLICATE_COMMAND'' \<and> queryIndex w key \<noteq> None
       | Inr h \<Rightarrow> h = Some (length (impls w)) \<and> queryIndex w key = None \<and> sh_args (clo_of w' (length (impls w))) = zero
           \<and> (\<not> symbol_empty key \<longrightarrow> queryIndex w' key = h))
    \<and> (\<forall>k j. index w' k = Some j \<longrightarrow> index w k = Some j \<or> j = length (impls w))"
proof -
  let ?h = "tie u g (StorageHolder_new build) :: ('a, 'b, 'c, 'd) StorageHolder"
  let ?x = "\<lparr>im_do = Operation f, im_undo = TiedUndo (mt_undo (sh_tie ?h)) (length (closures w)),
     im_capture = TiedCapture (mt_capture (sh_tie ?h)) (length (closures w)), pClo = length (closures w),
     defaultPatt = DUMMY, cmdID = BOTTOM\<rparr>"
  obtain r1 w1 where a: "command_activate (queryIndex w key) (length (impls w)) key
      (w\<lparr>closures := closures w @ [?h], impls := impls w @ [?x]\<rparr>) = (r1, w1)" by fastforce
  have n: "wired w1 \<and> keeps_commands w w1 \<and> commands.more w1 = commands.more w \<and> length (impls w1) = Suc (length (impls w))
    \<and> clo_of w1 (length (impls w)) = ?h
    \<and> (case r1 of Inl e \<Rightarrow> e = Err Logic ''DUPLICATE_COMMAND'' \<and> (queryIndex w key \<noteq> None \<or> \<not> symbol_empty key \<and> index w key \<noteq> None) \<and> index w1 = index w
       | Inr k \<Rightarrow> k = Some (length (impls w)) \<and> queryIndex w key = None
           \<and> (if symbol_empty key then index w1 = index w \<and> ridx w1 = ridx w \<and> impls w1 ! length (impls w) = ?x
              else index w key = None \<and> index w1 = (index w)(key \<mapsto> length (impls w))))"
    by (rule new_command [OF assms(1) _ _ _ _ _ _ a]) (simp_all add: tie_def)
  have def: "CommandDef_define key f g u build zero w = (case (r1, w1) of
        (Inl e, w') \<Rightarrow> (Inl e, w')
      | (Inr h, w') \<Rightarrow> (case h of None \<Rightarrow> (Inl (Err Assertion ''prototype_''), w')
           | Some i \<Rightarrow> (Inr h, case zero of None \<Rightarrow> w'
               | Some a \<Rightarrow> w'\<lparr>closures := (closures w')[pClo (impls w' ! i) := storeTuple a (clo_of w' i)]\<rparr>)))"
    unfolding a [symmetric] by (simp add: CommandDef_define_def newCommandImpl_def bind_run_def Let_def)
  show ?thesis
  proof (cases r1)
    case (Inl e)
    then show ?thesis using n assms(2) unfolding def by (auto simp: queryIndex_def)
  next
    case (Inr k)
    have idx: "\<forall>k j. index w1 k = Some j \<longrightarrow> index w k = Some j \<or> j = length (impls w)"
      using n Inr by (auto split: if_splits)
    let ?j = "length (impls w)"
    let ?w2 = "case zero of None \<Rightarrow> w1 | Some a \<Rightarrow> w1\<lparr>closures := (closures w1)[pClo (impls w1 ! ?j) := storeTuple a (clo_of w1 ?j)]\<rparr>"
    have k: "k = Some ?j" "queryIndex w key = None" "\<not> symbol_empty key \<longrightarrow> index w1 key = Some ?j"
      using n Inr by (auto split: if_splits)
    then have res: "r = Inr (Some ?j)" "w' = ?w2" using assms(2) Inr unfolding def by auto
    have touch: "touches (pClo (impls w1 ! ?j)) w1 ?w2"
      by (auto simp: storeTuple_def clo_of_def same_functors_def split: option.split intro!: touches_update)
    have own: "own_wiring w1 ?j" using n by (intro wired_own) simp_all
    have "wired w'" using touches_wired [OF touch] n res by simp
    moreover have "clo_of ?w2 i = clo_of w1 i" if "i < ?j" for i
      using touches_fields(1,6) [OF touch] wired_distinct [of w1 i ?j] that n by (simp add: clo_of_def)
    then have "keeps_commands w w'"
      using n touches_fields(1) [OF touch] unfolding res keeps_commands_def by (simp split: option.split)
    moreover have "commands.more w' = commands.more w" using touches_fields(4) [OF touch] n res by simp
    moreover have "sh_args (clo_of w' ?j) = zero"
      using n own unfolding res
      by (auto simp: clo_of_def own_wiring_def Let_def storeTuple_def tie_def StorageHolder_new_def split: option.split)
    moreover have "index w' = index w1" using touches_fields(2) [OF touch] res by simp
    ultimately show ?thesis using res k idx by (auto simp: queryIndex_def)
  qed
qed

lemma clone_command:
  assumes "wired w" "i < length (impls w)" "bind_run (createCloneImpl i) (\<lambda>j. command_activate None j key) w = (r, w')"
  shows "wired w' \<and> keeps_commands w w' \<and> commands.more w' = commands.more w
    \<and> (case r of Inl e \<Rightarrow> e = Err Logic ''DUPLICATE_COMMAND'' \<and> \<not> symbol_empty key \<and> index w key \<noteq> None \<and> index w' = index w
       | Inr h \<Rightarrow> h = Some (length (impls w)) \<and> length (impls w') = Suc (length (impls w))
           \<and> clo_of w' (length (impls w)) = clo_of w i
           \<and> im_do (impls w' ! length (impls w)) = im_do (impls w ! i) \<and> defaultPatt (impls w' ! length (impls w)) = defaultPatt (impls w ! i)
           \<and> (if symbol_empty key then index w' = index w \<and> ridx w' = ridx w else index w' = (index w)(key \<mapsto> length (impls w))))"
proof -
  let ?h = "StorageHolder_copy (closures w ! pClo (impls w ! i))"
  let ?x = "(impls w ! i)\<lparr>im_undo := TiedUndo (mt_undo (sh_tie ?h)) (length (closures w)),
     im_capture := TiedCapture (mt_capture (sh_tie ?h)) (length (closures w)), pClo := length (closures w)\<rparr>"
  have own: "own_wiring w i" by (rule wired_own [OF assms(1,2)])
  have copy: "?h = clo_of w i" by (simp add: StorageHolder_copy_def clo_of_def closure_isValid_def)
  have a: "command_activate None (length (impls w)) key (w\<lparr>closures := closures w @ [?h], impls := impls w @ [?x]\<rparr>) = (r, w')"
    using assms(3) by (simp add: createCloneImpl_def bind_run_def Let_def)
  have p: "pClo ?x = length (closures w)" "mt_undo (sh_tie ?h) \<noteq> None" "mt_capture (sh_tie ?h) \<noteq> None"
    "\<exists>f. im_do ?x = Operation f" "im_undo ?x = TiedUndo (mt_undo (sh_tie ?h)) (length (closures w))"
    "im_capture ?x = TiedCapture (mt_capture (sh_tie ?h)) (length (closures w))"
    using own by (auto simp: copy own_wiring_def Let_def)
  note n = new_command [OF assms(1) p a]
  have "im_do (impls w' ! length (impls w)) = im_do (impls w ! i)
      \<and> defaultPatt (impls w' ! length (impls w)) = defaultPatt (impls w ! i)" if "r = Inr k" for k
    using a that by (auto simp: command_activate_def track_def run_simps bind_run_def split: if_splits)
  then show ?thesis using n copy by (auto split: sum.splits)
qed

lemma remove_wired: "wired w \<Longrightarrow> wired (snd (registry_remove key w))"
  unfolding registry_remove_def wired_def
  by (auto simp: own_wiring_def clo_of_def Let_def split: option.split) (metis option.inject)+

lemma setHandlingPattern_wired: "wired w \<Longrightarrow> handle_ok w h \<Longrightarrow> wired (snd (setHandlingPattern h p w))"
proof (cases h)
  case (Some i)
  assume w: "wired w" and "handle_ok w h"
  let ?w = "w\<lparr>impls := (impls w)[i := (impls w ! i)\<lparr>defaultPatt := p\<rparr>]\<rparr>"
  have same: "pClo (impls ?w ! j) = pClo (impls w ! j)" "cmdID (impls ?w ! j) = cmdID (impls w ! j)"
    "im_do (impls ?w ! j) = im_do (impls w ! j)" "im_undo (impls ?w ! j) = im_undo (impls w ! j)"
    "im_capture (impls ?w ! j) = im_capture (impls w ! j)" if "j < length (impls w)" for j
    using that by (cases "j = i"; simp)+
  then have "map pClo (impls ?w) = map pClo (impls w)" by (intro nth_equalityI) simp_all
  then have "wired ?w" using w same unfolding wired_def own_wiring_def clo_of_def Let_def by auto
  then show ?thesis by (simp add: Some setHandlingPattern_def command_notBottom_def run_simps)
qed (simp add: setHandlingPattern_def command_notBottom_def run_simps)

subsection \<open>Reachable states\<close>

inductive cmd_step :: "('s, 'a, 'm, 'r, 'z) commands_scheme \<Rightarrow> ('s, 'a, 'm, 'r, 'z) commands_scheme \<Rightarrow> bool" where
  step_define: "cmd_step w (snd (CommandDef_define key f g u build zero w))"
| step_storeDef: "handle_ok w h \<Longrightarrow> cmd_step w (snd (storeDef h key w))"
| step_newInstance: "handle_ok w h \<Longrightarrow> cmd_step w (snd (newInstance h w))"
| step_remove: "cmd_step w (snd (registry_remove key w))"
| step_bind: "handle_ok w h \<Longrightarrow> cmd_step w (snd (setArguments h args w))"
| step_unbind: "handle_ok w h \<Longrightarrow> cmd_step w (snd (unbind h w))"
| step_exec: "handle_ok w h \<Longrightarrow> cmd_step w (snd (Command_exec h w))"
| step_undo: "handle_ok w h \<Longrightarrow> cmd_step w (snd (Command_undo h w))"
| step_pattern: "handle_ok w h \<Longrightarrow> cmd_step w (snd (setHandlingPattern h p w))"

inductive_cases cmd_stepE: "cmd_step w w'"

definition commands_init :: "('s, 'a, 'm, 'r, 'z) commands_scheme \<Rightarrow> bool" where
  "commands_init w \<longleftrightarrow> closures w = [] \<and> impls w = [] \<and> index w = Map.empty \<and> ridx w = Map.empty"

lemma snd_bottom [simp]:
  "snd (storeDef None key w) = w" "snd (newInstance None w) = w" "snd (setArguments None r w) = w" "snd (unbind None w) = w"
  "snd (Command_exec None w) = w" "snd (Command_undo None w) = w"
  by (simp_all add: storeDef_def newInstance_def setArguments_def unbind_def Command_exec_def Command_undo_def
      getDefaultHandlingPattern_def command_notBottom_def run_simps)

lemma symbol_empty_BOTTOM [simp]: "symbol_empty BOTTOM"
  by (simp add: symbol_empty_def)

lemma storeDef_clone:
  assumes "wired w" "i < length (impls w)" "queryIndex w key = None"
  shows "storeDef (Some i) key w = bind_run (createCloneImpl i) (\<lambda>j. command_activate None j key) w"
  using assms by (simp add: storeDef_def command_notBottom_def run_simps)

lemma newInstance_clone: "newInstance (Some i) w = bind_run (createCloneImpl i) (\<lambda>j. command_activate None j BOTTOM) w"
  by (simp add: newInstance_def command_notBottom_def run_simps)

lemma clone_wired:
  assumes "wired w" "handle_ok w h"
  shows "wired (snd (storeDef h key w))" "wired (snd (newInstance h w))"
proof -
  show "wired (snd (newInstance h w))"
  proof (cases h)
    case (Some i)
    then have "wired (snd (bind_run (createCloneImpl i) (\<lambda>j. command_activate None j BOTTOM) w))"
      using clone_command [OF assms(1), of i BOTTOM "fst (bind_run (createCloneImpl i) (\<lambda>j. command_activate None j BOTTOM) w)"] assms(2)
      by (auto simp: handle_ok_def prod_eq_iff)
    then show ?thesis by (simp add: Some newInstance_clone)
  qed (simp add: assms)
  show "wired (snd (storeDef h key w))"
  proof (cases h)
    case (Some i)
    then have "wired (snd (bind_run (createCloneImpl i) (\<lambda>j. command_activate None j key) w))"
      using clone_command [OF assms(1), of i key "fst (bind_run (createCloneImpl i) (\<lambda>j. command_activate None j key) w)"] assms(2)
      by (auto simp: handle_ok_def prod_eq_iff)
    then show ?thesis
      using assms storeDef_clone [OF assms(1), of i key] Some
      by (cases "queryIndex w key") (auto simp: handle_ok_def storeDef_def command_notBottom_def run_simps)
  qed (simp add: assms)
qed

lemma step_wired: "cmd_step w w' \<Longrightarrow> wired w \<Longrightarrow> wired w'"
proof (induction rule: cmd_step.induct)
  case (step_define w key f g u build zero)
  then show ?case using define_command [of w key f g u build zero] by (metis prod.collapse)
next
  case (step_bind w h args)
  then show ?case using touches_handle(3) [of w] touches_wired by (cases h) (fastforce simp: handle_ok_def)+
next
  case (step_unbind w h)
  then show ?case using touches_handle(4) [of w] touches_wired by (cases h) (fastforce simp: handle_ok_def)+
next
  case (step_exec w h)
  then show ?case using touches_handle(5) [of w] touches_wired by (cases h) (fastforce simp: handle_ok_def)+
next
  case (step_undo w h)
  then show ?case using touches_handle(6) [of w] touches_wired by (cases h) (fastforce simp: handle_ok_def)+
qed (simp_all add: clone_wired remove_wired setHandlingPattern_wired)

lemma reachable_wired:
  assumes "commands_init w0" "cmd_step\<^sup>*\<^sup>* w0 w"
  shows "wired w"
proof -
  have init: "wired w0" using assms(1) by (simp add: commands_init_def wired_def)
  from assms(2) show ?thesis by (induction rule: rtranclp_induct) (auto intro: step_wired init)
qed


text \<open>C15: Commands are independent of each other. In any state reached, binding or discarding arguments, executing and
  undoing one command leaves the arguments, the memento and the functors of every other command as they are, a clone and its prototype
  included. A new instance is a command of its own, which starts out with the operation, the arguments and the memento of the prototype,
  is not registered, and leaves all commands before it unchanged.\<close>

theorem commands_independent:
  assumes "commands_init w0" "cmd_step\<^sup>*\<^sup>* w0 w" "i < length (impls w)" "j < length (impls w)" "i \<noteq> j"
    and "w' \<in> {snd (setArguments (Some i) args w), snd (unbind (Some i) w), snd (Command_exec (Some i) w), snd (Command_undo (Some i) w)}"
  shows "clo_of w' j = clo_of w j \<and> impls w' ! j = impls w ! j
    \<and> (\<exists>k w''. newInstance (Some i) w = (Inr (Some k), w'') \<and> k \<ge> length (impls w) \<and> keeps_commands w w''
         \<and> clo_of w'' k = clo_of w i \<and> im_do (impls w'' ! k) = im_do (impls w ! i) \<and> isAnonymous w'' (Some k))"
proof -
  have w: "wired w" using assms(1,2) by (rule reachable_wired)
  have "touches (pClo (impls w ! i)) w w'" using assms(6) touches_handle [OF w assms(3)] by auto
  then have other: "clo_of w' j = clo_of w j" "impls w' ! j = impls w ! j"
    using wired_distinct [OF w assms(3,4,5)] by (simp_all add: clo_of_def touches_fields)
  obtain r w'' where clone: "bind_run (createCloneImpl i) (\<lambda>j. command_activate None j BOTTOM) w = (r, w'')" by fastforce
  note c = clone_command [OF w assms(3) clone]
  then obtain h where "r = Inr h" by (cases r) auto
  then have "newInstance (Some i) w = (Inr (Some (length (impls w))), w'')" "ridx w'' = ridx w"
    using c clone by (auto simp: newInstance_clone)
  then show ?thesis
    using c other \<open>r = Inr h\<close> wired_ridx_new [OF w]
    by (auto simp: isAnonymous_def findDefinition_def intro!: exI [of _ "length (impls w)"])
qed

subsection \<open>Undo\<close>

text \<open>
  A command is reversible when its capture just reads the session, and its undo functor, with the
  memento captured, leads back from what the operation did, even if the operation threw or set the error flag.
\<close>

definition reversible :: "(unit, 's, 'a) operation \<Rightarrow> ('m, 's, 'a) operation \<Rightarrow> ('m \<Rightarrow> (unit, 's, 'a) operation) \<Rightarrow> bool" where
  "reversible f g u \<longleftrightarrow> (\<forall>a e. err_flag e = None \<longrightarrow> (\<exists>m r a' e' a''. g a e = (Inr m, a, e) \<and> f a e = (r, a', e')
     \<and> (\<forall>msg. r \<noteq> Inl (Err Assertion msg)) \<and> u m a' (e'\<lparr>err_flag := None\<rparr>) = (Inr (), a'', e)))"

definition ready :: "('s, 'a, 'm, 'r, 'z) commands_scheme \<Rightarrow> nat \<Rightarrow> bool" where
  "ready w i \<longleftrightarrow> i < length (impls w) \<and> defaultPatt (impls w ! i) = DUMMY \<and> sh_args (clo_of w i) \<noteq> None
     \<and> (\<exists>f g u. im_do (impls w ! i) = Operation f \<and> mt_capture (sh_tie (clo_of w i)) = Some g
          \<and> mt_undo (sh_tie (clo_of w i)) = Some u \<and> reversible f g u)"

lemma exec_effect:
  assumes "wired w" "i < length (impls w)" "defaultPatt (impls w ! i) = DUMMY" "err_flag (env w) = None"
    and "sh_args (clo_of w i) = Some a" "im_do (impls w ! i) = Operation f"
    and "mt_capture (sh_tie (clo_of w i)) = Some g" "g a (env w) = (Inr m, a, env w)"
    and "f a (env w) = (r, a', e')" "\<forall>msg. r \<noteq> Inl (Err Assertion msg)"
  shows "\<exists>res. Command_exec (Some i) w = (Inr res, w\<lparr>env := e'\<lparr>err_flag := None\<rparr>,
    closures := (closures w)[pClo (impls w ! i) := (clo_of w i)\<lparr>sh_args := Some a', sh_tie := memento_capture m (sh_tie (clo_of w i))\<rparr>]\<rparr>)"
proof -
  let ?c = "pClo (impls w ! i)"
  have c: "?c < length (closures w)" "im_capture (impls w ! i) = TiedCapture (Some g) ?c" "closures w ! ?c = clo_of w i"
    using wired_own [OF assms(1,2)] assms(7) by (auto simp: own_wiring_def Let_def clo_of_def)
  have bound: "closure_isValid (clo_of w i)" by (simp add: closure_isValid_def assms)
  have can: "impl_canExec w i = Inr True" using bound by (simp add: impl_canExec_def impl_isValid_def pattern_isValid_def assms)
  let ?h = "(clo_of w i)\<lparr>sh_args := Some a, sh_tie := memento_capture m (sh_tie (clo_of w i))\<rparr>"
  have cap: "invokeCapture i w = (Inr (), w\<lparr>closures := (closures w)[?c := ?h]\<rparr>)"
    using c bound assms(5,8)
    by (cases w) (simp add: invokeCapture_def captureState_def mutation_apply_def closure_invoke_def apply_operation_def run_simps
        bind_run_def storeTuple_def modify_run_def)
  let ?w = "w\<lparr>closures := (closures w)[?c := ?h]\<rparr>" and ?w' = "w\<lparr>env := e', closures := (closures w)[?c := ?h\<lparr>sh_args := Some a'\<rparr>]\<rparr>"
  have oper: "invokeOperation i ?w = (r, ?w')"
    using c(1) assms(6,9) by (simp add: invokeOperation_def mutation_apply_def closure_invoke_def apply_operation_def
        closure_isValid_def storeTuple_def)
  have "performExec DUMMY i w = (r, ?w')"
    by (simp add: performExec_def require_run_def require_def run_simps can cap bind_run_def oper result_run_def)
  then have perform: "\<exists>res. pattern_invoke (performExec DUMMY i) w = (Inr res, clear_flag ?w')"
  proof (cases r)
    case (Inl e)
    then show ?thesis using \<open>performExec DUMMY i w = (r, ?w')\<close> assms(4,10) by (cases e) (auto simp: pattern_invoke_def)
  next
    case (Inr x)
    then show ?thesis using \<open>performExec DUMMY i w = (r, ?w')\<close> assms(4)
      by (cases "err_flag e'"; cases e') (auto simp: pattern_invoke_def clear_flag_def)
  qed
  have "Command_exec (Some i) w = pattern_invoke (performExec DUMMY i) w"
    by (simp add: Command_exec_def getDefaultHandlingPattern_def command_notBottom_def exec_pattern_def check_isBound_def
        command_canExec_def run_simps can assms(3))
  moreover have "clear_flag ?w' = w\<lparr>env := e'\<lparr>err_flag := None\<rparr>,
    closures := (closures w)[?c := (clo_of w i)\<lparr>sh_args := Some a', sh_tie := memento_capture m (sh_tie (clo_of w i))\<rparr>]\<rparr>"
  proof -
    have "?h\<lparr>sh_args := Some a'\<rparr> = (clo_of w i)\<lparr>sh_args := Some a', sh_tie := memento_capture m (sh_tie (clo_of w i))\<rparr>"
      by (cases "clo_of w i") simp
    moreover have "clear_flag (w\<lparr>env := e', closures := cs\<rparr>) = w\<lparr>env := e'\<lparr>err_flag := None\<rparr>, closures := cs\<rparr>" for cs
      by (cases w) (simp add: clear_flag_def)
    ultimately show ?thesis by metis
  qed
  ultimately show ?thesis using perform by simp
qed

lemma undo_effect:
  assumes "wired w" "i < length (impls w)" "defaultPatt (impls w ! i) = DUMMY" "err_flag (env w) = None"
    and "sh_args (clo_of w i) = Some a" "mt_memento (sh_tie (clo_of w i)) = Some m"
    and "mt_undo (sh_tie (clo_of w i)) = Some u" "u m a (env w) = (Inr (), a', e')" "err_flag e' = None"
  shows "Command_undo (Some i) w = (Inr None, w\<lparr>env := e',
    closures := (closures w)[pClo (impls w ! i) := (clo_of w i)\<lparr>sh_args := Some a'\<rparr>]\<rparr>)"
proof -
  let ?c = "pClo (impls w ! i)"
  have c: "im_undo (impls w ! i) = TiedUndo (Some u) ?c" "closures w ! ?c = clo_of w i" "mt_capture (sh_tie (clo_of w i)) \<noteq> None"
    using wired_own [OF assms(1,2)] assms(7) by (auto simp: own_wiring_def Let_def clo_of_def)
  have can: "impl_canUndo w i = Inr True"
    using c(3) by (simp add: impl_canUndo_def impl_isValid_def pattern_isValid_def isCaptured_def assms)
  have "invokeUndo i w = (Inr (), w\<lparr>env := e', closures := (closures w)[?c := (clo_of w i)\<lparr>sh_args := Some a'\<rparr>]\<rparr>)"
    using c(1,2) assms(5,6,8) by (simp add: invokeUndo_def mutation_apply_def closure_invoke_def apply_operation_def
        closure_isValid_def getState_def run_simps storeTuple_def)
  then have "performUndo DUMMY i w = (Inr (), w\<lparr>env := e', closures := (closures w)[?c := (clo_of w i)\<lparr>sh_args := Some a'\<rparr>]\<rparr>)"
    by (simp add: performUndo_def require_run_def require_def run_simps can)
  then show ?thesis using assms(3,4,9)
    by (simp add: Command_undo_def getDefaultHandlingPattern_def command_notBottom_def undo_pattern_def check_canUndo_def
        command_canUndo_def run_simps can pattern_invoke_def)
qed

text \<open>A sequence of invocations, as the session thread does them, with the results collected.\<close>

fun run_all :: "('x \<Rightarrow> ('w, 'y) run) \<Rightarrow> 'x list \<Rightarrow> ('w, 'y list) run" where
  "run_all f [] = return_run []"
| "run_all f (x # xs) = bind_run (f x) (\<lambda>y. bind_run (run_all f xs) (\<lambda>ys. return_run (y # ys)))"

definition exec_all :: "nat list \<Rightarrow> (('s, 'a, 'm, 'r, 'z) commands_scheme, ExecResult list) run" where
  "exec_all is = run_all (\<lambda>i. Command_exec (Some i)) is"

definition undo_all :: "nat list \<Rightarrow> (('s, 'a, 'm, 'r, 'z) commands_scheme, ExecResult list) run" where
  "undo_all is = run_all (\<lambda>i. Command_undo (Some i)) is"

lemma run_all_Inr:
  "f x w = (Inr y, w1) \<Longrightarrow> run_all f xs w1 = (Inr ys, w2) \<Longrightarrow> run_all f (x # xs) w = (Inr (y # ys), w2)"
  by (simp add: bind_run_def return_run_def)

lemma run_all_snoc:
  "run_all f xs w = (Inr ys, w1) \<Longrightarrow> f x w1 = (Inr y, w2) \<Longrightarrow> run_all f (xs @ [x]) w = (Inr (ys @ [y]), w2)"
proof (induction xs arbitrary: w ys)
  case (Cons z xs)
  obtain r w3 where z: "f z w = (r, w3)" by fastforce
  with Cons.prems(1) obtain v where r: "r = Inr v" by (cases r) (auto simp: bind_run_def)
  obtain r' w4 where zs: "run_all f xs w3 = (r', w4)" by fastforce
  with Cons.prems(1) z r obtain vs where "r' = Inr vs" "ys = v # vs" "w4 = w1"
    by (cases r') (auto simp: bind_run_def return_run_def)
  then have "run_all f (xs @ [x]) w3 = (Inr (vs @ [y]), w2)" using Cons.IH [of w3 vs] zs Cons.prems(2) by simp
  then show ?case using run_all_Inr [of f z, OF z [unfolded r]] \<open>ys = v # vs\<close> by simp
qed (simp add: bind_run_def return_run_def)

lemma ready_same: "ready w i \<Longrightarrow> impls w' = impls w \<Longrightarrow> clo_of w' i = clo_of w i \<Longrightarrow> ready w' i"
  by (simp add: ready_def)

lemma exec_undo_all:
  assumes "wired w" "distinct is" "\<forall>i\<in>set is. ready w i" "err_flag (env w) = None"
  shows "\<exists>rs w1 w2. exec_all is w = (Inr rs, w1) \<and> undo_all (rev is) w1 = (Inr (replicate (length is) None), w2)
    \<and> env w2 = env w \<and> impls w2 = impls w \<and> wired w2 \<and> (\<forall>j<length (impls w). j \<notin> set is \<longrightarrow> clo_of w2 j = clo_of w j)"
  using assms
proof (induction "is" arbitrary: w)
  case (Cons i "is")
  have i: "i < length (impls w)" "defaultPatt (impls w ! i) = DUMMY" using Cons.prems(3) by (simp_all add: ready_def)
  obtain a f g u where fgu: "sh_args (clo_of w i) = Some a" "im_do (impls w ! i) = Operation f"
      "mt_capture (sh_tie (clo_of w i)) = Some g" "mt_undo (sh_tie (clo_of w i)) = Some u" "reversible f g u"
    using Cons.prems(3) by (auto simp: ready_def)
  obtain m r a' e' a'' where step: "g a (env w) = (Inr m, a, env w)" "f a (env w) = (r, a', e')"
      "\<forall>msg. r \<noteq> Inl (Err Assertion msg)" "u m a' (e'\<lparr>err_flag := None\<rparr>) = (Inr (), a'', env w)"
    using fgu(5) Cons.prems(4) unfolding reversible_def by blast
  define h where "h = (clo_of w i)\<lparr>sh_args := Some a', sh_tie := memento_capture m (sh_tie (clo_of w i))\<rparr>"
  define v where "v = w\<lparr>env := e'\<lparr>err_flag := None\<rparr>, closures := (closures w)[pClo (impls w ! i) := h]\<rparr>"
  obtain res where exec: "Command_exec (Some i) w = (Inr res, v)"
    using exec_effect [OF Cons.prems(1) i Cons.prems(4) fgu(1,2,3) step(1,2,3)] by (auto simp: v_def h_def)
  have touch: "touches (pClo (impls w ! i)) w v" using touches_handle(5) [OF Cons.prems(1) i(1)] by (simp add: exec)
  have v: "impls v = impls w" "env v = e'\<lparr>err_flag := None\<rparr>" "wired v"
    using touches_wired [OF touch Cons.prems(1)] by (simp_all add: v_def)
  have other: "clo_of v j = clo_of w j" if "j < length (impls w)" "j \<noteq> i" for j
    using touches_fields(1,6) [OF touch] wired_distinct [OF Cons.prems(1) that(1) i(1) that(2)] by (simp add: clo_of_def)
  have own: "clo_of v i = h"
    using wired_own [OF Cons.prems(1) i(1)] by (simp add: v_def clo_of_def own_wiring_def Let_def)
  have "ready v j" if "j \<in> set is" for j
    using Cons.prems(2,3) that other [of j] v(1) by (intro ready_same [of w j v]) (auto simp: ready_def)
  then obtain rs w1 w2 where ih: "exec_all is v = (Inr rs, w1)" "undo_all (rev is) w1 = (Inr (replicate (length is) None), w2)"
      "env w2 = env v" "impls w2 = impls v" "wired w2" "\<forall>j<length (impls v). j \<notin> set is \<longrightarrow> clo_of w2 j = clo_of v j"
    using Cons.IH [of v] Cons.prems(2) v by auto
  have at: "clo_of w2 i = h" "impls w2 = impls w" "env w2 = e'\<lparr>err_flag := None\<rparr>"
    using ih(3,4,6) own v i(1) Cons.prems(2) by auto
  let ?w3 = "w2\<lparr>env := env w, closures := (closures w2)[pClo (impls w2 ! i) := (clo_of w2 i)\<lparr>sh_args := Some a''\<rparr>]\<rparr>"
  have undo: "Command_undo (Some i) w2 = (Inr None, ?w3)"
    using i fgu(4) step(4) Cons.prems(4) at
    by (intro undo_effect [OF ih(5), of i a' m u]) (simp_all add: h_def memento_capture_def)
  have touch': "touches (pClo (impls w2 ! i)) w2 ?w3"
    using touches_handle(6) [OF ih(5), of i] i(1) at(2) by (simp add: undo)
  have "clo_of ?w3 j = clo_of w j" if "j < length (impls w)" "j \<notin> set (i # is)" for j
    using touches_fields(6) [OF touch', of "pClo (impls w2 ! j)"] wired_distinct [OF ih(5), of j i] that i(1) ih(4,6) other [of j] v(1)
    by (simp add: clo_of_def)
  moreover have "exec_all (i # is) w = (Inr (res # rs), w1)"
    using run_all_Inr [of "\<lambda>i. Command_exec (Some i)", OF exec] ih(1) by (simp add: exec_all_def)
  moreover have "undo_all (rev (i # is)) w1 = (Inr (replicate (length (i # is)) None), ?w3)"
    using run_all_snoc [of "\<lambda>i. Command_undo (Some i)" "rev is" w1 _ w2 i, OF ih(2) [unfolded undo_all_def] undo]
    by (simp add: undo_all_def replicate_append_same)
  moreover have "wired ?w3" using touches_wired [OF touch' ih(5)] .
  ultimately show ?case using at(2) by (intro exI [of _ "res # rs"] exI [of _ w1] exI [of _ ?w3]) simp
qed (simp add: exec_all_def undo_all_def return_run_def)

text \<open>C13: Undo leads back to the session before. When commands with reversible operations, ready for invocation, are executed in any order,
  and undone in the reverse order, then no undo fails and the session and the error flag are as they were before the first one,
  even where an operation has thrown or set the error flag; every other command and its arguments are untouched.\<close>

theorem undo_restores:
  assumes "commands_init w0" "cmd_step\<^sup>*\<^sup>* w0 w" "distinct is" "\<forall>i\<in>set is. ready w i" "err_flag (env w) = None"
  shows "\<exists>rs w1 w2. exec_all is w = (Inr rs, w1) \<and> undo_all (rev is) w1 = (Inr (replicate (length is) None), w2)
    \<and> env w2 = env w \<and> impls w2 = impls w \<and> (\<forall>j<length (impls w). j \<notin> set is \<longrightarrow> clo_of w2 j = clo_of w j)"
  using exec_undo_all [OF reachable_wired [OF assms(1,2)] assms(3,4,5)] by blast

text \<open>A session with a counter, and a command to add to it, which fails when the argument is negative.\<close>

definition wit_init :: "(int, int, int, int) commands" where
  "wit_init = \<lparr>env = \<lparr>session = 10, err_flag = None\<rparr>, closures = [], impls = [], index = Map.empty, ridx = Map.empty\<rparr>"

definition wit_add :: "(unit, int, int) operation" where
  "wit_add a e = (if a < 0 then Inl (Err State ''negative'') else Inr (), a, e\<lparr>session := session e + a\<rparr>)"

definition wit_capture :: "(int, int, int) operation" where
  "wit_capture a e = (Inr (session e), a, e)"

definition wit_undo :: "int \<Rightarrow> (unit, int, int) operation" where
  "wit_undo m a e = (Inr (), a, e\<lparr>session := m\<rparr>)"

definition wit_one :: "(int, int, int, int) commands" where
  "wit_one = snd (CommandDef_define ''add'' wit_add wit_capture wit_undo Inr (Some 3) wit_init)"

definition wit_two :: "(int, int, int, int) commands" where
  "wit_two = snd (newInstance (Some 0) wit_one)"

lemmas wit_defs = wit_init_def wit_add_def wit_capture_def wit_undo_def

lemma wit_reversible: "reversible wit_add wit_capture wit_undo"
  by (auto simp: reversible_def wit_defs intro: env.equality)

lemma wit_one_eq: "wit_one = \<lparr>env = \<lparr>session = 10, err_flag = None\<rparr>,
   closures = [\<lparr>sh_args = Some 3, sh_tie = \<lparr>mt_memento = None, mt_undo = Some wit_undo, mt_capture = Some wit_capture\<rparr>, sh_accept = Inr\<rparr>],
   impls = [\<lparr>im_do = Operation wit_add, im_undo = TiedUndo (Some wit_undo) 0, im_capture = TiedCapture (Some wit_capture) 0,
     pClo = 0, defaultPatt = DUMMY, cmdID = ''add''\<rparr>],
   index = [''add'' \<mapsto> 0], ridx = [0 \<mapsto> ''add'']\<rparr>"
  by (simp add: wit_one_def wit_init_def CommandDef_define_def newCommandImpl_def command_activate_def track_def symbol_empty_def BOTTOM_def
      queryIndex_def tie_def StorageHolder_new_def storeTuple_def clo_of_def run_simps bind_run_def modify_run_def return_run_def Let_def)

lemma wit_two_eq: "wit_two = wit_one\<lparr>closures := closures wit_one @ closures wit_one,
   impls := impls wit_one @ [(hd (impls wit_one))\<lparr>im_undo := TiedUndo (Some wit_undo) 1,
     im_capture := TiedCapture (Some wit_capture) 1, pClo := 1\<rparr>]\<rparr>"
  by (simp add: wit_two_def newInstance_clone createCloneImpl_def command_activate_def wit_one_eq StorageHolder_copy_def closure_isValid_def
      run_simps bind_run_def return_run_def Let_def)

lemma wit_reached: "commands_init wit_init" "cmd_step\<^sup>*\<^sup>* wit_init wit_two"
proof -
  show "commands_init wit_init" by (simp add: commands_init_def wit_init_def)
  have "cmd_step wit_init wit_one" unfolding wit_one_def by (rule step_define)
  moreover have "cmd_step wit_one wit_two"
    unfolding wit_two_def by (rule step_newInstance) (simp add: handle_ok_def wit_one_eq)
  ultimately show "cmd_step\<^sup>*\<^sup>* wit_init wit_two" by (meson converse_rtranclp_into_rtranclp r_into_rtranclp)
qed

lemma wit_ready: "ready wit_two 0" "ready wit_two 1" "length (impls wit_two) = 2" "env wit_two = \<lparr>session = 10, err_flag = None\<rparr>"
  by (simp_all add: ready_def wit_two_eq wit_one_eq clo_of_def wit_reversible)


theorem commands_independent_witness:
  "clo_of (snd (unbind (Some 0) wit_two)) 1 = clo_of wit_two 1"
  using commands_independent [OF wit_reached, of 0 1 "snd (unbind (Some 0) wit_two)"] wit_ready(3) by simp

theorem undo_restores_witness:
  "\<exists>rs w1 w2. exec_all [1, 0] wit_two = (Inr rs, w1) \<and> undo_all [0, 1] w1 = (Inr [None, None], w2) \<and> session (env w2) = 10"
  using undo_restores [OF wit_reached, of "[1, 0]"] wit_ready by auto

end
