(* ===== verification/CommandInstances.thy ===== *)
theory CommandInstances
  imports Commands SteamLoop
begin

text \<open>
  Opening, binding and dispatching instances of commands: the \<open>CommandInstanceManager\<close> of
  \<open>steam/control/command-setup.cpp\<close>, its client the \<open>SessionCommandService\<close>, and behind it the queue of the
  session loop. The dispatcher is a parameter of the manager, as in the code; the loop provides it. It is shown
  that the queue holds only commands ready for execution, which nobody else can reach, so that they are executed
  with the arguments they had when dispatched.
\<close>

subsection \<open>State\<close>

text \<open>
  The table of the manager has an entry for each instance ever opened; it is empty when the
  instance was dispatched. The session loop holds the queue.
\<close>

record ('s, 'a, 'm, 'r) session_commands = "('s, 'a, 'm, 'r) commands" +
  cm_table :: "string \<Rightarrow> Command option"
  cm_loop :: "Command DispatcherLoop"

abbreviation waiting :: "('s, 'a, 'm, 'r) session_commands \<Rightarrow> Command list" where
  "waiting w \<equiv> dl_queue (cm_loop w)"

text \<open>The ID shown for an empty handle, in UTF-8.\<close>

definition FAILURE :: string where
  "FAILURE = [CHR 0xE2, CHR 0x86, CHR 0xAF]"

definition command_getID :: "('s, 'a, 'm, 'r, 'z) commands_scheme \<Rightarrow> Command \<Rightarrow> string" where
  "command_getID w h = (case h of None \<Rightarrow> FAILURE | Some i \<Rightarrow> cmdID (impls w ! i))"

definition run_command :: "Command \<Rightarrow> (('s, 'a, 'm, 'r, 'z) commands_scheme, unit) run" where
  "run_command h = bind_run (Command_exec h) (\<lambda>resultState. result_run (\<lambda>_. maybeThrow resultState))"

text \<open>What the session loop needs to know of a command.\<close>

definition handle_ops :: "('s, 'a, 'm, 'r, 'z) commands_scheme \<Rightarrow> Command CommandOps" where
  "handle_ops w = \<lparr>canExec = (\<lambda>h. command_canExec w h = Inr True), getID = command_getID w,
     invoke_cmd = (\<lambda>h. case fst (run_command h w) of Inl (Err c msg) \<Rightarrow> Some msg | Inr x \<Rightarrow> None)\<rparr>"

definition dispatcher_enqueue :: "Command \<Rightarrow> (('s, 'a, 'm, 'r) session_commands, unit) run" where
  "dispatcher_enqueue h = bind_run (result_run (\<lambda>w. command_canExec w h)) (\<lambda>ready.
     bind_run (result_run (\<lambda>w. loop_enqueue (handle_ops w) h (cm_loop w))) (\<lambda>l. modify_run (\<lambda>w. w\<lparr>cm_loop := l\<rparr>)))"

subsection \<open>The instance manager\<close>

text \<open>
  The exception for an instance already open is thrown as a pointer, so no handler for the errors
  of the application catches it; it is an external one here.
\<close>

definition openInstance :: "string \<Rightarrow> string \<Rightarrow> (('s, 'a, 'm, 'r) session_commands, string) run" where
  "openInstance prototypeID invocationID =
     (let instanceID = prototypeID @ ''.'' @ invocationID in
      bind_run (modify_run (\<lambda>w. if cm_table w instanceID = None then w\<lparr>cm_table := (cm_table w)(instanceID \<mapsto> None)\<rparr> else w)) (\<lambda>_.
      bind_run (result_run (\<lambda>w. Inr (cm_table w instanceID))) (\<lambda>entry.
        if entry \<noteq> Some None then throw_run External ''DUPLICATE_COMMAND''
        else bind_run (Command_get prototypeID) (\<lambda>prototype.
             bind_run (newInstance prototype) (\<lambda>h.
             bind_run (modify_run (\<lambda>w. w\<lparr>cm_table := (cm_table w)(instanceID \<mapsto> h)\<rparr>)) (\<lambda>_.
             bind_run (require_run (\<lambda>_. Inr (h \<noteq> None)) ''cloning of command prototype failed'') (\<lambda>_.
               return_run instanceID)))))))"

definition getInstance :: "string \<Rightarrow> (('s, 'a, 'm, 'r) session_commands, Command) run" where
  "getInstance instanceID = bind_run (result_run (\<lambda>w. Inr (cm_table w instanceID))) (\<lambda>entry.
     case entry of
       None \<Rightarrow> Command_get instanceID
     | Some None \<Rightarrow> throw_run Logic ''LIFECYCLE''
     | Some (Some i) \<Rightarrow> return_run (Some i))"

definition canExec_if :: "bool \<Rightarrow> Command \<Rightarrow> (('s, 'a, 'm, 'r) session_commands, bool) run" where
  "canExec_if must_be_bound h = (if must_be_bound then result_run (\<lambda>w. command_canExec w h) else return_run True)"

definition moveInstance :: "string \<Rightarrow> bool \<Rightarrow> (('s, 'a, 'm, 'r) session_commands, Command) run" where
  "moveInstance instanceID must_be_bound = bind_run (result_run (\<lambda>w. Inr (cm_table w instanceID))) (\<lambda>entry.
     case entry of
       None \<Rightarrow> throw_run Invalid ''INVALID_COMMAND''
     | Some None \<Rightarrow> throw_run Logic ''LIFECYCLE''
     | Some (Some i) \<Rightarrow> bind_run (canExec_if must_be_bound (Some i)) (\<lambda>ok.
         if ok then bind_run (modify_run (\<lambda>w. w\<lparr>cm_table := (cm_table w)(instanceID \<mapsto> None)\<rparr>)) (\<lambda>_. return_run (Some i))
         else return_run None))"

definition found_instance :: "string \<Rightarrow> bool \<Rightarrow> (('s, 'a, 'm, 'r) session_commands, Command) run" where
  "found_instance instanceID must_be_bound = bind_run (maybeGetNewInstance instanceID) (\<lambda>clone.
     if clone = None then moveInstance instanceID must_be_bound else return_run clone)"

definition checked_instance :: "bool \<Rightarrow> Command \<Rightarrow> (('s, 'a, 'm, 'r) session_commands, Command) run" where
  "checked_instance must_be_bound h = bind_run (canExec_if must_be_bound h) (\<lambda>ok.
     if \<not> ok then throw_run State ''UNBOUND_ARGUMENTS''
     else bind_run (require_run (\<lambda>w. bind_result (command_canExec w h) (\<lambda>can. Inr (h \<noteq> None \<and> (can \<or> \<not> must_be_bound))))
            ''instance.isValid()'') (\<lambda>_. return_run h))"

definition getCloneOrInstance :: "string \<Rightarrow> bool \<Rightarrow> (('s, 'a, 'm, 'r) session_commands, Command) run" where
  "getCloneOrInstance instanceID must_be_bound =
     bind_run (found_instance instanceID must_be_bound) (checked_instance must_be_bound)"

definition handOver ::
  "(Command \<Rightarrow> (('s, 'a, 'm, 'r) session_commands, unit) run) \<Rightarrow> Command \<Rightarrow> (('s, 'a, 'm, 'r) session_commands, unit) run" where
  "handOver enqueue toDispatch =
     bind_run (require_run (\<lambda>w. command_canExec w toDispatch) ''toDispatch.canExec()'') (\<lambda>_. enqueue toDispatch)"

definition instance_dispatch ::
  "(Command \<Rightarrow> (('s, 'a, 'm, 'r) session_commands, unit) run) \<Rightarrow> string \<Rightarrow> (('s, 'a, 'm, 'r) session_commands, unit) run" where
  "instance_dispatch enqueue instanceID = bind_run (getCloneOrInstance instanceID True) (handOver enqueue)"

definition bindAndDispatch ::
  "(Command \<Rightarrow> (('s, 'a, 'm, 'r) session_commands, unit) run) \<Rightarrow> string \<Rightarrow> 'r \<Rightarrow> (('s, 'a, 'm, 'r) session_commands, unit) run" where
  "bindAndDispatch enqueue instanceID argSeq = bind_run (getCloneOrInstance instanceID False) (\<lambda>h.
     bind_run (require_run (\<lambda>_. Inr (h \<noteq> None)) ''instance'') (\<lambda>_.
     bind_run (setArguments h argSeq) (\<lambda>_.
     bind_run (require_run (\<lambda>w. command_canExec w h) ''instance.canExec()'') (\<lambda>_. handOver enqueue h))))"

definition manager_contains :: "('s, 'a, 'm, 'r) session_commands \<Rightarrow> string \<Rightarrow> bool" where
  "manager_contains w instanceID \<longleftrightarrow> (case cm_table w instanceID of None \<Rightarrow> False | Some h \<Rightarrow> h \<noteq> None)"

subsection \<open>The service\<close>

definition service_cycle :: "string \<Rightarrow> string \<Rightarrow> (('s, 'a, 'm, 'r) session_commands, string) run" where
  "service_cycle cmd invocationID = openInstance cmd invocationID"

definition service_bindArg :: "string \<Rightarrow> 'r \<Rightarrow> (('s, 'a, 'm, 'r) session_commands, unit) run" where
  "service_bindArg cmd argSeq = bind_run (getInstance cmd) (\<lambda>h. setArguments h argSeq)"

definition service_invoke :: "string \<Rightarrow> (('s, 'a, 'm, 'r) session_commands, unit) run" where
  "service_invoke cmd = instance_dispatch dispatcher_enqueue cmd"

definition service_trigger :: "string \<Rightarrow> 'r \<Rightarrow> (('s, 'a, 'm, 'r) session_commands, unit) run" where
  "service_trigger cmd argSeq = bind_run (bind_run (getInstance cmd) (\<lambda>h. setArguments h argSeq)) (\<lambda>_. instance_dispatch dispatcher_enqueue cmd)"

text \<open>The session thread takes the oldest command; an exception of it ends the thread.\<close>

definition process_next :: "(('s, 'a, 'm, 'r) session_commands, unit) run" where
  "process_next w =
     (case queue_pop (waiting w) of
        Inl e \<Rightarrow> (Inr (), w)
      | Inr (cmd, q) \<Rightarrow>
          (let w1 = w\<lparr>cm_loop := (cm_loop w)\<lparr>dl_queue := q\<rparr>\<rparr> in
           if cmd \<noteq> None \<and> take 4 (command_getID w1 cmd) = ''test'' then run_command cmd w1 else (Inr (), w1)))"

definition service_clear :: "('s, 'a, 'm, 'r) session_commands \<Rightarrow> ('s, 'a, 'm, 'r) session_commands" where
  "service_clear w = w\<lparr>cm_loop := loop_clear (cm_loop w)\<rparr>"

subsection \<open>The dispatcher seen by the manager\<close>

locale command_dispatch =
  fixes enqueue :: "Command \<Rightarrow> (('s, 'a, 'm, 'r) session_commands, unit) run"
  assumes enqueue_ready: "command_canExec w h = Inr True
      \<Longrightarrow> enqueue h w = (Inr (), w\<lparr>cm_loop := (cm_loop w)\<lparr>dl_queue := waiting w @ [h]\<rparr>\<rparr>)"
    and enqueue_unready: "command_canExec w h \<noteq> Inr True \<Longrightarrow> snd (enqueue h w) = w"
begin

lemma handOver_ready:
  "command_canExec w h = Inr True \<Longrightarrow> handOver enqueue h w = (Inr (), w\<lparr>cm_loop := (cm_loop w)\<lparr>dl_queue := waiting w @ [h]\<rparr>\<rparr>)"
  by (simp add: handOver_def run_simps require_run_def require_def enqueue_ready)

lemma handOver_unready: "command_canExec w h \<noteq> Inr True \<Longrightarrow> \<exists>e. handOver enqueue h w = (Inl e, w)"
  by (auto simp: handOver_def run_simps require_run_def require_def split: sum.split)

end

interpretation loop_dispatch: command_dispatch dispatcher_enqueue
  by unfold_locales
    (auto simp: dispatcher_enqueue_def run_simps loop_enqueue_def queue_feed_def handle_ops_def split: sum.split)

subsection \<open>Who can reach a command\<close>

text \<open>A command at large is reached neither through the registry, nor through the table or the queue.\<close>

definition at_large :: "('s, 'a, 'm, 'r) session_commands \<Rightarrow> nat \<Rightarrow> bool" where
  "at_large w i \<longleftrightarrow> i < length (impls w) \<and> ridx w i = None \<and> Some i \<notin> set (waiting w) \<and> (\<forall>k. cm_table w k \<noteq> Some (Some i))"

definition svc_ok :: "('s, 'a, 'm, 'r) session_commands \<Rightarrow> bool" where
  "svc_ok w \<longleftrightarrow> wired w \<and> distinct (waiting w)
     \<and> (\<forall>h\<in>set (waiting w). \<exists>i. h = Some i \<and> i < length (impls w) \<and> impl_canExec w i = Inr True \<and> ridx w i = None)
     \<and> (\<forall>k i. cm_table w k = Some (Some i) \<longrightarrow> i < length (impls w) \<and> ridx w i = None \<and> Some i \<notin> set (waiting w))
     \<and> (\<forall>k l i. cm_table w k = Some (Some i) \<and> cm_table w l = Some (Some i) \<longrightarrow> k = l)"

lemma svc_waiting:
  "svc_ok w \<Longrightarrow> h \<in> set (waiting w) \<Longrightarrow> \<exists>i. h = Some i \<and> i < length (impls w) \<and> impl_canExec w i = Inr True \<and> ridx w i = None"
  by (simp add: svc_ok_def)

text \<open>The table and the queue stay as they are.\<close>

definition same_service :: "('s, 'a, 'm, 'r) session_commands \<Rightarrow> ('s, 'a, 'm, 'r) session_commands \<Rightarrow> bool" where
  "same_service w w' \<longleftrightarrow> cm_table w' = cm_table w \<and> cm_loop w' = cm_loop w"

lemma more_same_service: "commands.more w' = commands.more w \<Longrightarrow> same_service w w'"
  for w :: "('s, 'a, 'm, 'r) session_commands"
  by (cases w; cases w') (simp add: same_service_def)

lemma same_clo_canExec:
  "impls w' ! i = impls w ! i \<Longrightarrow> clo_of w' i = clo_of w i \<Longrightarrow> impl_canExec w' i = impl_canExec w i"
  by (simp add: impl_canExec_def impl_isValid_def)

lemma keeps_svc_ok:
  assumes "svc_ok w" "keeps_commands w w'" "wired w'" "same_service w w'"
    "\<forall>k j. index w' k = Some j \<longrightarrow> index w k = Some j \<or> j \<ge> length (impls w)"
  shows "svc_ok w'"
proof -
  have old: "ridx w' i = None" if "i < length (impls w)" "ridx w i = None" for i
  proof (cases "ridx w' i")
    case (Some k)
    then have "index w' k = Some i" using assms(3) by (simp add: wired_def)
    then have "index w k = Some i" using assms(5) that(1) by (meson leD)
    then show ?thesis using assms(1) that(2) by (simp add: svc_ok_def wired_def)
  qed
  have more: "length (impls w) \<le> length (impls w')" and same: "impl_canExec w' i = impl_canExec w i" if "i < length (impls w)" for i
    using assms(2) that by (auto simp: keeps_commands_def intro: same_clo_canExec)
  have "\<exists>i. h = Some i \<and> i < length (impls w') \<and> impl_canExec w' i = Inr True \<and> ridx w' i = None" if h: "h \<in> set (waiting w)" for h
  proof -
    obtain i where "h = Some i" "i < length (impls w)" "impl_canExec w i = Inr True" "ridx w i = None"
      using svc_waiting [OF assms(1) h] by blast
    then show ?thesis using old [of i] same [of i] more [of i] by simp
  qed
  moreover have "i < length (impls w') \<and> ridx w' i = None \<and> Some i \<notin> set (waiting w)" if "cm_table w k = Some (Some i)" for k i
  proof -
    have "i < length (impls w)" "ridx w i = None" "Some i \<notin> set (waiting w)" using assms(1) that by (auto simp: svc_ok_def)
    then show ?thesis using old [of i] more [of i] by simp
  qed
  ultimately show ?thesis using assms(1,3,4) by (auto simp: svc_ok_def same_service_def)
qed

text \<open>Where the closure of one command is touched, and it is not in the queue, all is kept.\<close>

lemma touches_svc_ok:
  assumes "svc_ok w" "touches (pClo (impls w ! i)) w w'" "i < length (impls w)" "Some i \<notin> set (waiting w)"
  shows "svc_ok w'" "same_service w w'"
    "\<forall>h\<in>set (waiting w). \<exists>j. h = Some j \<and> clo_of w' j = clo_of w j \<and> impls w' ! j = impls w ! j"
proof -
  have w: "wired w" using assms(1) by (simp add: svc_ok_def)
  show same: "same_service w w'" using touches_fields(4) [OF assms(2)] by (rule more_same_service)
  have wait: "\<exists>j. h = Some j \<and> j < length (impls w) \<and> clo_of w' j = clo_of w j \<and> impls w' ! j = impls w ! j
      \<and> impl_canExec w' j = Inr True \<and> ridx w j = None" if h: "h \<in> set (waiting w)" for h
  proof -
    obtain j where j: "h = Some j" "j < length (impls w)" "impl_canExec w j = Inr True" "ridx w j = None"
      using svc_waiting [OF assms(1) h] by blast
    then have "j \<noteq> i" using h assms(4) by auto
    then have "clo_of w' j = clo_of w j"
      using touches_fields(1,6) [OF assms(2)] wired_distinct [OF w j(2) assms(3)] by (simp add: clo_of_def)
    then show ?thesis using j touches_fields(1) [OF assms(2)] same_clo_canExec [of w' j w] by simp
  qed
  then show "\<forall>h\<in>set (waiting w). \<exists>j. h = Some j \<and> clo_of w' j = clo_of w j \<and> impls w' ! j = impls w ! j" by blast
  have "\<forall>h\<in>set (waiting w). \<exists>j. h = Some j \<and> j < length (impls w') \<and> impl_canExec w' j = Inr True \<and> ridx w' j = None"
    using wait touches_fields(1,3) [OF assms(2)] by fastforce
  then show "svc_ok w'"
    using assms(1) same touches_wired [OF assms(2) w] touches_fields(1,3) [OF assms(2)]
    by (simp add: svc_ok_def same_service_def)
qed

text \<open>The table changes, for an instance that is at large, or is let go.\<close>

lemma table_svc_ok:
  assumes "svc_ok w" "h = None \<or> (\<exists>i. h = Some i \<and> at_large w i)"
  shows "svc_ok (w\<lparr>cm_table := (cm_table w)(k \<mapsto> h)\<rparr>)"
proof -
  let ?w = "w\<lparr>cm_table := (cm_table w)(k \<mapsto> h)\<rparr>"
  have "wired ?w" using assms(1) by (simp add: svc_ok_def wired_def own_wiring_def clo_of_def)
  moreover have "impl_canExec ?w i = impl_canExec w i" for i by (intro same_clo_canExec) (simp_all add: clo_of_def)
  ultimately show ?thesis using assms by (auto simp: svc_ok_def at_large_def)
qed

lemma enqueue_svc_ok:
  assumes "svc_ok w" "at_large w i" "impl_canExec w i = Inr True"
  shows "svc_ok (w\<lparr>cm_loop := (cm_loop w)\<lparr>dl_queue := waiting w @ [Some i]\<rparr>\<rparr>)"
proof -
  let ?w = "w\<lparr>cm_loop := (cm_loop w)\<lparr>dl_queue := waiting w @ [Some i]\<rparr>\<rparr>"
  have "wired ?w" using assms(1) by (simp add: svc_ok_def wired_def own_wiring_def clo_of_def)
  moreover have "impl_canExec ?w j = impl_canExec w j" for j by (intro same_clo_canExec) (simp_all add: clo_of_def)
  ultimately show ?thesis using assms by (auto simp: svc_ok_def at_large_def)
qed

lemma shorter_svc_ok:
  assumes "svc_ok w" "waiting w = p @ q"
  shows "svc_ok (w\<lparr>cm_loop := (cm_loop w)\<lparr>dl_queue := q\<rparr>\<rparr>)"
proof -
  let ?w = "w\<lparr>cm_loop := (cm_loop w)\<lparr>dl_queue := q\<rparr>\<rparr>"
  have "wired ?w" using assms(1) by (simp add: svc_ok_def wired_def own_wiring_def clo_of_def)
  moreover have "impl_canExec ?w j = impl_canExec w j" for j by (intro same_clo_canExec) (simp_all add: clo_of_def)
  ultimately show ?thesis using assms by (auto simp: svc_ok_def)
qed

text \<open>A clone of a command is at large.\<close>

lemma newInstance_svc:
  assumes "svc_ok w" "i < length (impls w)" "newInstance (Some i) w = (r, w')"
  shows "\<exists>j. r = Inr (Some j) \<and> svc_ok w' \<and> keeps_commands w w' \<and> same_service w w' \<and> at_large w' j
    \<and> clo_of w' j = clo_of w i \<and> im_do (impls w' ! j) = im_do (impls w ! i)
    \<and> defaultPatt (impls w' ! j) = defaultPatt (impls w ! i) \<and> index w' = index w \<and> j = length (impls w)"
proof -
  have w: "wired w" using assms(1) by (simp add: svc_ok_def)
  note c = clone_command [OF w assms(2) assms(3) [unfolded newInstance_clone]]
  from c obtain h where h: "r = Inr h" by (cases r) simp_all
  have same: "same_service w w'" by (rule more_same_service) (use c in simp)
  have "svc_ok w'" using c h by (intro keeps_svc_ok [OF assms(1) _ _ same]) simp_all
  moreover have "at_large w' (length (impls w))"
    using c h same wired_ridx_new [OF w] assms(1) svc_waiting [OF assms(1), of "Some (length (impls w))"]
    by (auto simp: at_large_def same_service_def svc_ok_def)
  ultimately show ?thesis using c h same by simp
qed

text \<open>Within a call that throws, or comes to its end, the waiting commands and all other ones stay as they are.\<close>

definition undisturbed :: "('s, 'a, 'm, 'r) session_commands \<Rightarrow> ('s, 'a, 'm, 'r) session_commands \<Rightarrow> bool" where
  "undisturbed w w' \<longleftrightarrow> svc_ok w' \<and> (\<exists>new. waiting w' = waiting w @ new \<and> length new \<le> 1)
     \<and> (\<forall>h\<in>set (waiting w). \<exists>i. h = Some i \<and> clo_of w' i = clo_of w i \<and> impls w' ! i = impls w ! i)
     \<and> length (impls w) \<le> length (impls w')"

lemma keeps_undisturbed: "svc_ok w' \<Longrightarrow> svc_ok w \<Longrightarrow> keeps_commands w w' \<Longrightarrow> waiting w' = waiting w \<Longrightarrow> undisturbed w w'"
  using svc_waiting [of w] by (fastforce simp: undisturbed_def keeps_commands_def)

lemma undisturbed_trans:
  assumes "undisturbed w w1" "undisturbed w1 w2" "waiting w1 = waiting w"
  shows "undisturbed w w2"
  using assms by (fastforce simp: undisturbed_def)

lemma same_undisturbed [simp]: "svc_ok w \<Longrightarrow> undisturbed w w"
  using svc_waiting [of w] by (force simp: undisturbed_def)

lemma table_undisturbed:
  "svc_ok w \<Longrightarrow> h = None \<or> (\<exists>i. h = Some i \<and> at_large w i) \<Longrightarrow> undisturbed w (w\<lparr>cm_table := (cm_table w)(k \<mapsto> h)\<rparr>)"
  by (intro keeps_undisturbed table_svc_ok) (auto simp: keeps_commands_def clo_of_def)

subsection \<open>What the calls do\<close>

lemma Command_get_svc:
  assumes "svc_ok w"
  shows "case index w key of
      None \<Rightarrow> Command_get key w = (Inl (Err Invalid ''INVALID_COMMAND''), w)
    | Some i \<Rightarrow> Command_get key w = (Inr (Some i), w) \<and> i < length (impls w) \<and> ridx w i = Some key \<and> Some i \<notin> set (waiting w)"
proof (cases "index w key")
  case None
  then show ?thesis by (simp add: Command_get_def queryIndex_def run_simps)
next
  case (Some i)
  then have "ridx w i = Some key" "i < length (impls w)" using assms by (simp_all add: svc_ok_def wired_def)
  moreover from this(1) have "Some i \<notin> set (waiting w)" using svc_waiting [OF assms, of "Some i"] by auto
  ultimately show ?thesis
    using Some by (simp add: Command_get_def queryIndex_def findDefinition_def run_simps require_run_def require_def)
qed

lemma getInstance_svc:
  assumes "svc_ok w"
  shows "snd (getInstance k w) = w"
    "fst (getInstance k w) = Inr h \<Longrightarrow> \<exists>i. h = Some i \<and> i < length (impls w) \<and> Some i \<notin> set (waiting w)"
proof -
  note get = Command_get_svc [OF assms, of k]
  show "snd (getInstance k w) = w"
    using get by (auto simp: getInstance_def run_simps split: option.splits)
  show "\<exists>i. h = Some i \<and> i < length (impls w) \<and> Some i \<notin> set (waiting w)" if "fst (getInstance k w) = Inr h"
  proof (cases "cm_table w k")
    case None
    then show ?thesis using that get by (auto simp: getInstance_def run_simps split: option.splits)
  next
    case (Some entry)
    then show ?thesis using that assms by (cases entry) (auto simp: getInstance_def run_simps svc_ok_def)
  qed
qed

lemma touches_undisturbed:
  assumes "svc_ok w" "touches (pClo (impls w ! i)) w w'" "i < length (impls w)" "Some i \<notin> set (waiting w)"
  shows "undisturbed w w' \<and> waiting w' = waiting w"
  using touches_svc_ok [OF assms] touches_fields(1) [OF assms(2)] by (auto simp: undisturbed_def same_service_def)

lemma setArguments_undisturbed:
  "svc_ok w \<Longrightarrow> i < length (impls w) \<Longrightarrow> Some i \<notin> set (waiting w)
   \<Longrightarrow> undisturbed w (snd (setArguments (Some i) args w)) \<and> waiting (snd (setArguments (Some i) args w)) = waiting w"
  by (rule touches_undisturbed [OF _ touches_handle(3)]) (simp_all add: svc_ok_def)

lemma bindArg_undisturbed:
  assumes "svc_ok w"
  shows "undisturbed w (snd (service_bindArg k args w)) \<and> waiting (snd (service_bindArg k args w)) = waiting w"
proof (cases "fst (getInstance k w)")
  case (Inl e)
  then have "getInstance k w = (Inl e, w)" using getInstance_svc(1) [OF assms, of k] by (simp add: prod_eq_iff)
  then show ?thesis using assms by (simp add: service_bindArg_def bind_run_def)
next
  case (Inr h)
  then obtain i where i: "h = Some i" "i < length (impls w)" "Some i \<notin> set (waiting w)"
    using getInstance_svc(2) [OF assms] by blast
  have "getInstance k w = (Inr (Some i), w)" using getInstance_svc(1) [OF assms, of k] Inr i(1) by (simp add: prod_eq_iff)
  then have "service_bindArg k args w = setArguments (Some i) args w" by (simp add: service_bindArg_def bind_run_def)
  then show ?thesis using setArguments_undisturbed [OF assms i(2,3)] by simp
qed

lemma openInstance_undisturbed:
  assumes "svc_ok w"
  shows "undisturbed w (snd (openInstance p v w)) \<and> waiting (snd (openInstance p v w)) = waiting w"
proof -
  define k where "k = p @ ''.'' @ v"
  define w1 where "w1 = (if cm_table w k = None then w\<lparr>cm_table := (cm_table w)(k \<mapsto> None)\<rparr> else w)"
  define rest where "rest = bind_run (Command_get p) (\<lambda>prototype. bind_run (newInstance prototype) (\<lambda>h.
     bind_run (modify_run (\<lambda>w. w\<lparr>cm_table := (cm_table w)(k \<mapsto> h)\<rparr>)) (\<lambda>_.
     bind_run (require_run (\<lambda>_. Inr (h \<noteq> None)) ''cloning of command prototype failed'') (\<lambda>_. return_run k)))) w1"
  have opened: "openInstance p v w = (if cm_table w1 k \<noteq> Some None then (Inl (Err External ''DUPLICATE_COMMAND''), w1) else rest)"
    unfolding openInstance_def Let_def k_def [symmetric] bind_run_simps w1_def [symmetric] rest_def
    by (simp add: bind_run_simps(6))
  have w1: "undisturbed w w1" "waiting w1 = waiting w"
    using table_undisturbed [OF assms, of None] assms by (auto simp: w1_def)
  have ok1: "svc_ok w1" using w1(1) by (simp add: undisturbed_def)
  show ?thesis
  proof (cases "cm_table w1 k = Some None \<and> index w1 p \<noteq> None")
    case False
    then have "snd (openInstance p v w) = w1"
      using Command_get_svc [OF ok1, of p] by (auto simp: opened rest_def bind_run_def split: option.splits)
    then show ?thesis using w1 by simp
  next
    case True
    then obtain i where i: "Command_get p w1 = (Inr (Some i), w1)" "i < length (impls w1)"
      using Command_get_svc [OF ok1, of p] by auto
    obtain r w2 where new: "newInstance (Some i) w1 = (r, w2)" by fastforce
    then obtain j where j: "r = Inr (Some j)" "svc_ok w2" "keeps_commands w1 w2" "same_service w1 w2" "at_large w2 j"
      using newInstance_svc [OF ok1 i(2) new] by blast
    let ?w3 = "w2\<lparr>cm_table := (cm_table w2)(k \<mapsto> Some j)\<rparr>"
    have "openInstance p v w = (Inr k, ?w3)"
      using True i(1) new j(1)
      by (simp add: opened rest_def bind_run_def require_run_def require_def result_run_def return_run_def modify_run_def)
    moreover have "undisturbed w1 w2" using j ok1 by (intro keeps_undisturbed) (simp_all add: same_service_def)
    moreover have "undisturbed w2 ?w3" using j by (intro table_undisturbed) auto
    ultimately show ?thesis
      using undisturbed_trans [OF undisturbed_trans [OF w1(1), of w2], of ?w3] w1(2) j(4) by (simp add: same_service_def)
  qed
qed

lemma moveInstance_svc:
  assumes "svc_ok w" "moveInstance k must w = (r, w')"
  shows "undisturbed w w' \<and> waiting w' = waiting w \<and> (\<forall>h. r = Inr h \<longrightarrow> h = None \<or> (\<exists>i. h = Some i \<and> at_large w' i))"
proof (cases "cm_table w k")
  case None
  then show ?thesis using assms by (auto simp: moveInstance_def run_simps)
next
  case (Some entry)
  show ?thesis
  proof (cases entry)
    case None
    then show ?thesis using assms Some by (auto simp: moveInstance_def run_simps)
  next
    case (Some i)
    let ?w = "w\<lparr>cm_table := (cm_table w)(k \<mapsto> None)\<rparr>"
    have "undisturbed w ?w" using assms(1) by (intro table_undisturbed) auto
    moreover have "at_large ?w i" using assms(1) \<open>cm_table w k = Some entry\<close> Some by (auto simp: at_large_def svc_ok_def)
    ultimately show ?thesis
      using assms \<open>cm_table w k = Some entry\<close> Some
      by (auto simp: moveInstance_def canExec_if_def run_simps split: sum.splits if_splits)
  qed
qed

lemma canExec_if_svc: "canExec_if must h w = (r, w') \<Longrightarrow> w' = w \<and> (r = Inr True \<and> must \<longrightarrow> command_canExec w h = Inr True)"
  by (auto simp: canExec_if_def run_simps split: if_splits)

lemma getClone_svc:
  assumes "svc_ok w" "getCloneOrInstance k must w = (r, w')"
  shows "undisturbed w w' \<and> waiting w' = waiting w
    \<and> (\<forall>h. r = Inr h \<longrightarrow> (\<exists>i. h = Some i \<and> at_large w' i \<and> (must \<longrightarrow> impl_canExec w' i = Inr True)))"
proof -
  obtain r1 w1 where f: "found_instance k must w = (r1, w1)" by fastforce
  have f1: "undisturbed w w1 \<and> waiting w1 = waiting w \<and> (\<forall>h. r1 = Inr h \<longrightarrow> h = None \<or> (\<exists>i. h = Some i \<and> at_large w1 i))"
  proof (cases "index w k")
    case None
    then have "moveInstance k must w = (r1, w1)" using f by (simp add: found_instance_def maybeGetNewInstance_def queryIndex_def run_simps)
    then show ?thesis by (rule moveInstance_svc [OF assms(1)])
  next
    case (Some i)
    obtain r2 w2 where new: "newInstance (Some i) w = (r2, w2)" by fastforce
    have "i < length (impls w)" using assms(1) Some by (simp add: svc_ok_def wired_def)
    from newInstance_svc [OF assms(1) this new] obtain j where j: "r2 = Inr (Some j)" "svc_ok w2" "keeps_commands w w2"
      "same_service w w2" "at_large w2 j" by blast
    then have "r1 = Inr (Some j)" "w1 = w2"
      using f new Some by (auto simp: found_instance_def maybeGetNewInstance_def queryIndex_def run_simps bind_run_def return_run_def)
    then show ?thesis using j assms(1) keeps_undisturbed [OF j(2) assms(1) j(3)] by (simp add: same_service_def)
  qed
  show ?thesis
  proof (cases r1)
    case (Inl e)
    then show ?thesis using assms(2) f f1 by (auto simp: getCloneOrInstance_def bind_run_def)
  next
    case (Inr h)
    then have t: "checked_instance must h w1 = (r, w')" using assms(2) f by (simp add: getCloneOrInstance_def bind_run_def)
    then have "w' = w1 \<and> (\<forall>g. r = Inr g \<longrightarrow> g = h \<and> h \<noteq> None \<and> (must \<longrightarrow> command_canExec w1 h = Inr True))"
      by (cases "command_canExec w1 h") (auto simp: checked_instance_def canExec_if_def run_simps require_run_def require_def split: sum.splits if_splits)
    then show ?thesis using f1 Inr by (auto simp: command_canExec_def)
  qed
qed

lemma handOver_undisturbed:
  assumes "svc_ok w" "at_large w i"
  shows "undisturbed w (snd (handOver dispatcher_enqueue (Some i) w))"
proof (cases "impl_canExec w i = Inr True")
  case True
  let ?w = "w\<lparr>cm_loop := (cm_loop w)\<lparr>dl_queue := waiting w @ [Some i]\<rparr>\<rparr>"
  have "svc_ok ?w" by (rule enqueue_svc_ok [OF assms True])
  then have "undisturbed w ?w" using svc_waiting [OF assms(1)] by (force simp: undisturbed_def clo_of_def)
  then show ?thesis using loop_dispatch.handOver_ready [of w "Some i"] True by (simp add: command_canExec_def)
next
  case False
  then obtain e where "handOver dispatcher_enqueue (Some i) w = (Inl e, w)"
    using loop_dispatch.handOver_unready [of w "Some i"] by (auto simp: command_canExec_def)
  then show ?thesis using assms(1) by simp
qed

text \<open>A call appends at most one command to the queue, and none when it throws.\<close>

definition orderly :: "('s, 'a, 'm, 'r) session_commands \<Rightarrow> ('x result \<times> ('s, 'a, 'm, 'r) session_commands) \<Rightarrow> bool" where
  "orderly w out \<longleftrightarrow> undisturbed w (snd out) \<and> (isl (fst out) \<longrightarrow> waiting (snd out) = waiting w)"

lemma orderly_bind:
  assumes "undisturbed w (snd (m w)) \<and> waiting (snd (m w)) = waiting w"
    "\<And>x. fst (m w) = Inr x \<Longrightarrow> orderly (snd (m w)) (f x (snd (m w)))"
  shows "orderly w (bind_run m f w)"
proof (cases "fst (m w)")
  case (Inl e)
  then show ?thesis using assms(1) by (cases "m w") (simp add: bind_run_def orderly_def)
next
  case (Inr x)
  then have "bind_run m f w = f x (snd (m w))" by (cases "m w") (simp add: bind_run_def)
  then show ?thesis
    using assms(1) assms(2) [OF Inr] undisturbed_trans [of w "snd (m w)" "snd (f x (snd (m w)))"] by (simp add: orderly_def)
qed

lemma handOver_orderly: "svc_ok w \<Longrightarrow> at_large w i \<Longrightarrow> orderly w (handOver dispatcher_enqueue (Some i) w)"
proof -
  assume "svc_ok w" "at_large w i"
  moreover have "isl (fst (handOver dispatcher_enqueue (Some i) w)) \<longrightarrow> snd (handOver dispatcher_enqueue (Some i) w) = w"
    using loop_dispatch.handOver_ready [of w "Some i"] loop_dispatch.handOver_unready [of w "Some i"]
    by (cases "command_canExec w (Some i) = Inr True") auto
  ultimately show "orderly w (handOver dispatcher_enqueue (Some i) w)"
    using handOver_undisturbed [of w i] by (auto simp: orderly_def)
qed

lemma getClone_at_large:
  assumes "svc_ok w" "fst (getCloneOrInstance k must w) = Inr h"
  shows "\<exists>i. h = Some i \<and> at_large (snd (getCloneOrInstance k must w)) i \<and> svc_ok (snd (getCloneOrInstance k must w))"
  using getClone_svc [OF assms(1), of k must "Inr h" "snd (getCloneOrInstance k must w)"] assms(2)
  by (auto simp: prod_eq_iff undisturbed_def)

lemma getClone_keeps:
  "svc_ok w \<Longrightarrow> undisturbed w (snd (getCloneOrInstance k must w)) \<and> waiting (snd (getCloneOrInstance k must w)) = waiting w"
  using getClone_svc [of w k must "fst (getCloneOrInstance k must w)" "snd (getCloneOrInstance k must w)"] by simp

lemma dispatch_orderly:
  assumes "svc_ok w"
  shows "orderly w (instance_dispatch dispatcher_enqueue k w)"
  unfolding instance_dispatch_def
proof (rule orderly_bind [of w "getCloneOrInstance k True", OF getClone_keeps [OF assms]])
  fix h assume "fst (getCloneOrInstance k True w) = Inr h"
  from getClone_at_large [OF assms this] obtain i where
    "h = Some i" "at_large (snd (getCloneOrInstance k True w)) i" "svc_ok (snd (getCloneOrInstance k True w))" by blast
  then show "orderly (snd (getCloneOrInstance k True w)) (handOver dispatcher_enqueue h (snd (getCloneOrInstance k True w)))"
    by (simp add: handOver_orderly)
qed

lemma touches_at_large:
  "at_large w i \<Longrightarrow> touches c w w' \<Longrightarrow> at_large w' i"
  using more_same_service [OF touches_fields(4), of c w w'] by (simp add: at_large_def touches_fields same_service_def)

lemma require_keeps: "snd (require_run q msg w) = w"
  by (simp add: require_run_def run_simps require_def split: sum.split)

lemma bindAndDispatch_orderly:
  assumes "svc_ok w"
  shows "orderly w (bindAndDispatch dispatcher_enqueue k args w)"
  unfolding bindAndDispatch_def
proof (rule orderly_bind [of w "getCloneOrInstance k False", OF getClone_keeps [OF assms]])
  fix h assume "fst (getCloneOrInstance k False w) = Inr h"
  from getClone_at_large [OF assms this] obtain i where
    i: "h = Some i" "at_large (snd (getCloneOrInstance k False w)) i" "svc_ok (snd (getCloneOrInstance k False w))" by blast
  let ?w = "snd (getCloneOrInstance k False w)" and ?w2 = "snd (setArguments h args (snd (getCloneOrInstance k False w)))"
  have touch: "touches (pClo (impls ?w ! i)) ?w ?w2"
    using i touches_handle(3) [of ?w i] by (simp add: svc_ok_def at_large_def)
  have set: "undisturbed ?w ?w2 \<and> waiting ?w2 = waiting ?w"
    using i setArguments_undisturbed [of ?w i args] by (simp add: at_large_def)
  have ok: "svc_ok ?w2" using set by (simp add: undisturbed_def)
  have ready: "orderly ?w2 (bind_run (require_run (\<lambda>w. command_canExec w h) ''instance.canExec()'')
      (\<lambda>_. handOver dispatcher_enqueue h) ?w2)"
    using ok touches_at_large [OF i(2) touch] i(1)
    by (intro orderly_bind) (simp_all add: require_keeps handOver_orderly)
  have bound: "orderly ?w (bind_run (setArguments h args) (\<lambda>_.
      bind_run (require_run (\<lambda>w. command_canExec w h) ''instance.canExec()'') (\<lambda>_. handOver dispatcher_enqueue h)) ?w)"
    by (rule orderly_bind) (rule set, rule ready)
  show "orderly ?w (bind_run (require_run (\<lambda>_. Inr (h \<noteq> None)) ''instance'') (\<lambda>_. bind_run (setArguments h args) (\<lambda>_.
      bind_run (require_run (\<lambda>w. command_canExec w h) ''instance.canExec()'') (\<lambda>_. handOver dispatcher_enqueue h))) ?w)"
    by (rule orderly_bind) (simp_all only: require_keeps same_undisturbed [OF i(3)] bound simp_thms)
qed

lemma trigger_orderly:
  assumes "svc_ok w"
  shows "orderly w (service_trigger k args w)"
  unfolding service_trigger_def service_bindArg_def [symmetric]
  using bindArg_undisturbed [OF assms, of k args]
  by (intro orderly_bind dispatch_orderly) (simp_all add: undisturbed_def)

lemma service_orderly:
  assumes "svc_ok w"
  shows "orderly w (service_cycle k v w)" "orderly w (service_bindArg k args w)" "orderly w (service_invoke k w)"
  using openInstance_undisturbed [OF assms, of k v] bindArg_undisturbed [OF assms, of k args] dispatch_orderly [OF assms, of k]
  by (simp_all add: orderly_def service_cycle_def service_invoke_def)

subsection \<open>The history of a session\<close>

inductive service_call :: "('s, 'a, 'm, 'r) session_commands \<Rightarrow> bool \<Rightarrow> ('s, 'a, 'm, 'r) session_commands \<Rightarrow> bool" where
  call_cycle: "service_call w (isl (fst (service_cycle k v w))) (snd (service_cycle k v w))"
| call_bindArg: "service_call w (isl (fst (service_bindArg k args w))) (snd (service_bindArg k args w))"
| call_invoke: "service_call w (isl (fst (service_invoke k w))) (snd (service_invoke k w))"
| call_trigger: "service_call w (isl (fst (service_trigger k args w))) (snd (service_trigger k args w))"
| call_bind: "service_call w (isl (fst (bindAndDispatch dispatcher_enqueue k args w))) (snd (bindAndDispatch dispatcher_enqueue k args w))"

inductive session_step :: "('s, 'a, 'm, 'r) session_commands \<Rightarrow> ('s, 'a, 'm, 'r) session_commands \<Rightarrow> bool" where
  st_call: "service_call w threw w' \<Longrightarrow> session_step w w'"
| st_define: "session_step w (snd (CommandDef_define key f g u build zero w))"
| st_remove: "session_step w (snd (registry_remove key w))"
| st_process: "session_step w (snd (process_next w))"
| st_clear: "session_step w (service_clear w)"

inductive_cases service_callE: "service_call w threw w'"
inductive_cases session_stepE: "session_step w w'"

definition session_init :: "('s, 'a, 'm, 'r) session_commands \<Rightarrow> bool" where
  "session_init w \<longleftrightarrow> commands_init w \<and> cm_table w = Map.empty \<and> waiting w = []"

lemma call_orderly:
  "service_call w threw w' \<Longrightarrow> svc_ok w \<Longrightarrow> undisturbed w w' \<and> (threw \<longrightarrow> waiting w' = waiting w)"
  by (erule service_callE)
    (use service_orderly trigger_orderly bindAndDispatch_orderly in \<open>simp_all add: orderly_def\<close>)

lemma remove_svc_ok:
  assumes "svc_ok w"
  shows "svc_ok (snd (registry_remove key w))"
proof -
  have w: "wired w" using assms by (simp add: svc_ok_def)
  have "keeps_commands w (snd (registry_remove key w))"
    by (auto simp: registry_remove_def keeps_commands_def clo_of_def split: option.split)
  moreover have "same_service w (snd (registry_remove key w))"
    by (auto simp: registry_remove_def same_service_def split: option.split)
  ultimately show ?thesis
    using remove_wired [OF w, of key]
    by (intro keeps_svc_ok [OF assms]) (auto simp: registry_remove_def split: option.split)
qed

lemma define_svc_ok:
  assumes "svc_ok w"
  shows "svc_ok (snd (CommandDef_define key f g u build zero w))"
proof -
  obtain r w' where d: "CommandDef_define key f g u build zero w = (r, w')" by fastforce
  have "wired w" using assms by (simp add: svc_ok_def)
  note c = define_command [OF this d]
  have same: "same_service w w'" by (rule more_same_service) (use c in simp)
  have keeps: "keeps_commands w w'" "wired w'" using c by simp_all
  from c have new: "\<forall>k j. index w' k = Some j \<longrightarrow> index w k = Some j \<or> j = length (impls w)" by (elim conjE)
  have "\<forall>k j. index w' k = Some j \<longrightarrow> index w k = Some j \<or> j \<ge> length (impls w)"
  proof (intro allI impI)
    fix k j assume "index w' k = Some j"
    with new show "index w k = Some j \<or> j \<ge> length (impls w)" by (elim allE [of _ k] allE [of _ j]) auto
  qed
  then have "svc_ok w'" by (rule keeps_svc_ok [OF assms keeps same])
  then show ?thesis by (simp add: d)
qed

lemma process_svc_ok:
  assumes "svc_ok w"
  shows "svc_ok (snd (process_next w))"
proof (cases "waiting w")
  case Nil
  then show ?thesis using assms by (simp add: process_next_def queue_pop_def)
next
  case (Cons h q)
  let ?w = "w\<lparr>cm_loop := (cm_loop w)\<lparr>dl_queue := q\<rparr>\<rparr>"
  have ok: "svc_ok ?w" using shorter_svc_ok [OF assms, of "[h]" q] Cons by simp
  obtain i where i: "h = Some i" "i < length (impls w)" using svc_waiting [OF assms, of h] Cons by auto
  have fresh: "Some i \<notin> set q" using assms Cons i by (simp add: svc_ok_def)
  have "wired ?w" using ok by (simp only: svc_ok_def)
  then have touch: "touches (pClo (impls ?w ! i)) ?w (snd (Command_exec (Some i) ?w))" by (rule touches_handle(5)) (simp add: i)
  have "svc_ok (snd (Command_exec (Some i) ?w))" by (rule touches_svc_ok(1) [OF ok touch]) (simp_all add: i fresh)
  moreover have "snd (run_command h ?w) = snd (Command_exec h ?w)"
    by (simp add: run_command_def bind_run_def result_run_def split: prod.split sum.split)
  ultimately show ?thesis using ok i(1) Cons by (simp add: process_next_def queue_pop_def Let_def)
qed

lemma session_reached:
  assumes "session_init w0" "session_step\<^sup>*\<^sup>* w0 w"
  shows "svc_ok w"
proof -
  have init: "svc_ok w0" using assms(1) by (simp add: session_init_def svc_ok_def commands_init_def wired_def)
  from assms(2) show ?thesis
  proof (induction rule: rtranclp_induct)
    case (step v v')
    from step.hyps(2) step.IH show ?case
    proof (cases rule: session_step.cases)
      case (st_call threw)
      then show ?thesis using call_orderly [OF st_call step.IH] by (simp add: undisturbed_def)
    next
      case st_clear
      then show ?thesis using shorter_svc_ok [OF step.IH, of "waiting v" "[]"]
        by (simp add: service_clear_def loop_clear_def queue_clear_def)
    qed (simp_all add: remove_svc_ok define_svc_ok process_svc_ok)
  qed (rule init)
qed

text \<open>C16: Whatever waits in the queue of the session thread is ready for execution and out of reach. After any history
  of calls to the service, definitions, removals and executions, every waiting command can be executed, each one waits
  once, none is registered, and none can be reached through an instance ID any more; and no two instance IDs lead to the same command.\<close>

theorem dispatched_ready:
  assumes "session_init w0" "session_step\<^sup>*\<^sup>* w0 w"
  shows "distinct (waiting w)
    \<and> (\<forall>h\<in>set (waiting w). command_canExec w h = Inr True \<and> isAnonymous w h \<and> (\<forall>k. cm_table w k \<noteq> Some h))
    \<and> (\<forall>k l. manager_contains w k \<and> manager_contains w l \<and> cm_table w k = cm_table w l \<longrightarrow> k = l)"
proof (intro conjI ballI)
  have ok: "svc_ok w" using assms by (rule session_reached)
  then show "distinct (waiting w)" by (simp add: svc_ok_def)
  show "command_canExec w h = Inr True" "isAnonymous w h" "\<forall>k. cm_table w k \<noteq> Some h" if h: "h \<in> set (waiting w)" for h
  proof -
    obtain i where i: "h = Some i" "impl_canExec w i = Inr True" "ridx w i = None" using svc_waiting [OF ok h] by blast
    then show "command_canExec w h = Inr True" "isAnonymous w h"
      by (simp_all add: command_canExec_def isAnonymous_def findDefinition_def)
    show "\<forall>k. cm_table w k \<noteq> Some h" using ok h i(1) by (auto simp: svc_ok_def)
  qed
  show "\<forall>k l. manager_contains w k \<and> manager_contains w l \<and> cm_table w k = cm_table w l \<longrightarrow> k = l"
    using ok by (auto simp: svc_ok_def manager_contains_def split: option.splits)
qed

text \<open>C17: A command is executed with the arguments it had when it was dispatched. In any state reached, a call to the service
  appends at most one command to the queue, and none when it throws; the commands already waiting stay there
  in their order, with the arguments, the memento and the functors they have.\<close>

theorem dispatched_untouched:
  assumes "session_init w0" "session_step\<^sup>*\<^sup>* w0 w" "service_call w threw w'"
  shows "\<exists>new. waiting w' = waiting w @ new \<and> length new \<le> 1 \<and> (threw \<longrightarrow> new = [])
    \<and> (\<forall>h\<in>set (waiting w). \<exists>i. h = Some i \<and> clo_of w' i = clo_of w i \<and> impls w' ! i = impls w ! i)"
  using call_orderly [OF assms(3) session_reached [OF assms(1,2)]] by (auto simp: undisturbed_def)

lemma openInstance_effect:
  assumes "svc_ok w" "k = p @ ''.'' @ v" "cm_table w k = None \<or> cm_table w k = Some None" "index w p = Some i"
  shows "\<exists>w'. openInstance p v w = (Inr k, w') \<and> wired w' \<and> keeps_commands w w'
    \<and> cm_table w' = (cm_table w)(k \<mapsto> Some (length (impls w))) \<and> cm_loop w' = cm_loop w \<and> index w' = index w
    \<and> length (impls w) < length (impls w') \<and> clo_of w' (length (impls w)) = clo_of w i
    \<and> im_do (impls w' ! length (impls w)) = im_do (impls w ! i) \<and> defaultPatt (impls w' ! length (impls w)) = defaultPatt (impls w ! i)"
proof -
  let ?w1 = "w\<lparr>cm_table := (cm_table w)(k \<mapsto> None)\<rparr>"
  have start: "(if cm_table w k = None then ?w1 else w) = ?w1" using assms(3) by (auto simp: fun_upd_idem)
  have ok1: "svc_ok ?w1" using assms(1) by (intro table_svc_ok) simp_all
  have get: "Command_get p ?w1 = (Inr (Some i), ?w1)" "i < length (impls ?w1)"
    using Command_get_svc [OF ok1, of p] assms(4) by simp_all
  obtain r w2 where new: "newInstance (Some i) ?w1 = (r, w2)" by fastforce
  from newInstance_svc [OF ok1 get(2) new] obtain j where j: "r = Inr (Some j)" "svc_ok w2" "keeps_commands ?w1 w2"
    "same_service ?w1 w2" "at_large w2 j" "clo_of w2 j = clo_of ?w1 i" "im_do (impls w2 ! j) = im_do (impls ?w1 ! i)"
    "defaultPatt (impls w2 ! j) = defaultPatt (impls ?w1 ! i)" "index w2 = index ?w1" "j = length (impls ?w1)" by blast
  let ?w' = "w2\<lparr>cm_table := (cm_table w2)(k \<mapsto> Some j)\<rparr>"
  have "openInstance p v w = (Inr k, ?w')"
    unfolding openInstance_def Let_def assms(2) [symmetric] bind_run_simps start
    using get(1) new j(1) by (simp add: bind_run_def require_run_def require_def result_run_def return_run_def modify_run_def)
  moreover have "svc_ok ?w'" by (rule table_svc_ok [OF j(2)]) (simp add: j(5))
  then have "wired ?w'" by (simp only: svc_ok_def)
  moreover have "keeps_commands w ?w1" "keeps_commands w2 ?w'" by (simp_all add: keeps_commands_def clo_of_def)
  then have "keeps_commands w ?w'" using j(3) keeps_trans by blast
  moreover have "j = length (impls w)" using j(10) by simp
  moreover have "cm_table ?w' = (cm_table w)(k \<mapsto> Some j)" "cm_loop ?w' = cm_loop w" using j(4) by (simp_all add: same_service_def)
  moreover have "index ?w' = index w" using j(9) by simp
  moreover have "j < length (impls ?w')" using j(5) by (simp add: at_large_def)
  moreover have "clo_of ?w' j = clo_of w i" using j(6) by (simp add: clo_of_def)
  moreover have "im_do (impls ?w' ! j) = im_do (impls w ! i)" "defaultPatt (impls ?w' ! j) = defaultPatt (impls w ! i)"
    using j(7,8) by simp_all
  ultimately show ?thesis by (intro exI [of _ ?w']) (simp only: simp_thms)
qed

lemma setArguments_effect:
  assumes "wired w" "j < length (impls w)" "sh_accept (clo_of w j) args = Inr a"
  shows "\<exists>w'. setArguments (Some j) args w = (Inr (), w') \<and> touches (pClo (impls w ! j)) w w' \<and> sh_args (clo_of w' j) = Some a"
proof -
  let ?w = "w\<lparr>closures := (closures w)[pClo (impls w ! j) := storeTuple a (clo_of w j)]\<rparr>"
  have set: "setArguments (Some j) args w = (Inr (), ?w)"
    by (simp add: setArguments_def command_notBottom_def run_simps assms(3))
  have "pClo (impls w ! j) < length (closures w)"
    using wired_own [OF assms(1,2)] by (simp add: own_wiring_def Let_def)
  then show ?thesis using set touches_handle(3) [OF assms(1,2), of args] by (simp add: clo_of_def storeTuple_def)
qed

lemma invoke_opened:
  assumes "cm_table w k = Some (Some j)" "index w k = None" "impl_canExec w j = Inr True"
  shows "service_invoke k w = (Inr (), w\<lparr>cm_table := (cm_table w)(k \<mapsto> None),
    cm_loop := (cm_loop w)\<lparr>dl_queue := waiting w @ [Some j]\<rparr>\<rparr>)"
proof -
  let ?w = "w\<lparr>cm_table := (cm_table w)(k \<mapsto> None)\<rparr>"
  have can: "command_canExec ?w (Some j) = Inr True"
    using same_clo_canExec [of ?w j w] assms(3) by (simp add: command_canExec_def clo_of_def)
  have "moveInstance k True w = (Inr (Some j), ?w)"
    using assms by (simp add: moveInstance_def canExec_if_def run_simps command_canExec_def)
  then have "found_instance k True w = (Inr (Some j), ?w)"
    using assms(2) by (simp add: found_instance_def maybeGetNewInstance_def queryIndex_def run_simps)
  then have "getCloneOrInstance k True w = (Inr (Some j), ?w)"
    using can by (simp add: getCloneOrInstance_def checked_instance_def canExec_if_def run_simps require_run_def require_def
        bind_run_def [of "found_instance k True"])
  then show ?thesis
    using loop_dispatch.handOver_ready [OF can] by (simp add: service_invoke_def instance_dispatch_def bind_run_def)
qed

lemma invoke_gone:
  assumes "cm_table w k = Some None" "index w k = None"
  shows "service_invoke k w = (Inl (Err Logic ''LIFECYCLE''), w)" "getInstance k w = (Inl (Err Logic ''LIFECYCLE''), w)"
  using assms by (simp_all add: service_invoke_def instance_dispatch_def getCloneOrInstance_def found_instance_def maybeGetNewInstance_def
      queryIndex_def moveInstance_def getInstance_def run_simps)

text \<open>The life of a command instance. When an instance of a registered prototype is opened, its arguments are
  bound and it is invoked, then exactly this instance waits at the end of the queue, with the operation of the prototype and the arguments bound,
  and the prototype keeps its own. After that the instance is no longer open: to
  access or to invoke it again throws and changes nothing.\<close>

theorem instance_lifecycle:
  assumes "session_init w0" "session_step\<^sup>*\<^sup>* w0 w" "k = p @ ''.'' @ v" "\<not> manager_contains w k" "queryIndex w k = None"
    and "queryIndex w p = Some i" "defaultPatt (impls w ! i) = DUMMY" "sh_accept (clo_of w i) args = Inr a"
  shows "\<exists>j w1 w2 w3. service_cycle p v w = (Inr k, w1) \<and> getInstance k w1 = (Inr (Some j), w1)
    \<and> service_bindArg k args w1 = (Inr (), w2) \<and> service_invoke k w2 = (Inr (), w3)
    \<and> waiting w3 = waiting w @ [Some j] \<and> sh_args (clo_of w3 j) = Some a \<and> im_do (impls w3 ! j) = im_do (impls w ! i)
    \<and> clo_of w3 i = clo_of w i
    \<and> service_invoke k w3 = (Inl (Err Logic ''LIFECYCLE''), w3) \<and> getInstance k w3 = (Inl (Err Logic ''LIFECYCLE''), w3)"
proof -
  let ?j = "length (impls w)"
  have ok: "svc_ok w" using assms(1,2) by (rule session_reached)
  have i: "i < length (impls w)" using ok assms(6) by (simp add: svc_ok_def wired_def queryIndex_def)
  have "cm_table w k = None \<or> cm_table w k = Some None" using assms(4) by (auto simp: manager_contains_def split: option.splits)
  from openInstance_effect [OF ok assms(3) this] obtain w1 where w1: "openInstance p v w = (Inr k, w1)" "wired w1" "keeps_commands w w1"
    "cm_table w1 = (cm_table w)(k \<mapsto> Some ?j)" "cm_loop w1 = cm_loop w" "index w1 = index w" "?j < length (impls w1)"
    "clo_of w1 ?j = clo_of w i" "im_do (impls w1 ! ?j) = im_do (impls w ! i)" "defaultPatt (impls w1 ! ?j) = defaultPatt (impls w ! i)"
    using assms(6) unfolding queryIndex_def by blast
  have get: "getInstance k w1 = (Inr (Some ?j), w1)" using w1(4) by (simp add: getInstance_def run_simps)
  from setArguments_effect [OF w1(2,7), of args a] obtain w2 where w2: "setArguments (Some ?j) args w1 = (Inr (), w2)"
    "touches (pClo (impls w1 ! ?j)) w1 w2" "sh_args (clo_of w2 ?j) = Some a" using w1(8) assms(8) by auto
  have same: "same_service w1 w2" by (rule more_same_service [OF touches_fields(4) [OF w2(2)]])
  have f: "impls w2 = impls w1" "index w2 = index w1" using touches_fields(1,2) [OF w2(2)] .
  have can: "impl_canExec w2 ?j = Inr True"
    using w2(3) w1(10) assms(7) f(1) by (simp add: impl_canExec_def impl_isValid_def pattern_isValid_def closure_isValid_def)
  let ?w3 = "w2\<lparr>cm_table := (cm_table w2)(k \<mapsto> None), cm_loop := (cm_loop w2)\<lparr>dl_queue := waiting w2 @ [Some ?j]\<rparr>\<rparr>"
  have none: "index w2 k = None" using f(2) w1(6) assms(5) by (simp add: queryIndex_def)
  have inv: "service_invoke k w2 = (Inr (), ?w3)"
    using same w1(4) by (intro invoke_opened none can) (simp add: same_service_def)
  have bind: "service_bindArg k args w1 = (Inr (), w2)" using get w2(1) by (simp add: service_bindArg_def bind_run_def)
  have "clo_of w2 i = clo_of w1 i"
    using touches_fields(6) [OF w2(2)] wired_distinct [OF w1(2), of i ?j] w1(7) i f(1) by (simp add: clo_of_def)
  then have proto: "clo_of w2 i = clo_of w i" using w1(3) i by (simp add: keeps_commands_def)
  have after: "waiting ?w3 = waiting w @ [Some ?j]" "sh_args (clo_of ?w3 ?j) = Some a" "im_do (impls ?w3 ! ?j) = im_do (impls w ! i)"
    "clo_of ?w3 i = clo_of w i" "cm_table ?w3 k = Some None" "index ?w3 k = None"
    using same w1(5,9) w2(3) f(1) proto none by (simp_all add: same_service_def clo_of_def)
  show ?thesis
    by (rule exI [of _ ?j], rule exI [of _ w1], rule exI [of _ w2], rule exI [of _ ?w3])
      (use w1(1) get bind inv after(1-4) invoke_gone [OF after(5,6)] in \<open>simp only: service_cycle_def simp_thms\<close>)
qed

text \<open>A session with the counter command, one instance opened, bound and dispatched, and another one open.\<close>

definition ses_init :: "(int, int, int, int) session_commands" where
  "ses_init = commands.extend wit_init \<lparr>cm_table = Map.empty, cm_loop = DispatcherLoop_new\<rparr>"

definition ses_defined :: "(int, int, int, int) session_commands" where
  "ses_defined = snd (CommandDef_define ''add'' wit_add wit_capture wit_undo Inr None ses_init)"

definition ses_dispatched :: "(int, int, int, int) session_commands" where
  "ses_dispatched = snd (bindAndDispatch dispatcher_enqueue ''add'' 3 ses_defined)"

lemma ses_init_reached: "session_init ses_init"
  by (simp add: session_init_def commands_init_def ses_init_def wit_init_def commands.extend_def DispatcherLoop_new_def)

lemma ses_defined_eq: "ses_defined = \<lparr>env = \<lparr>session = 10, err_flag = None\<rparr>,
   closures = [\<lparr>sh_args = None, sh_tie = \<lparr>mt_memento = None, mt_undo = Some wit_undo, mt_capture = Some wit_capture\<rparr>, sh_accept = Inr\<rparr>],
   impls = [\<lparr>im_do = Operation wit_add, im_undo = TiedUndo (Some wit_undo) 0, im_capture = TiedCapture (Some wit_capture) 0,
     pClo = 0, defaultPatt = DUMMY, cmdID = ''add''\<rparr>],
   index = [''add'' \<mapsto> 0], ridx = [0 \<mapsto> ''add''], cm_table = Map.empty, cm_loop = DispatcherLoop_new\<rparr>"
  by (simp add: ses_defined_def ses_init_def wit_init_def commands.extend_def CommandDef_define_def newCommandImpl_def command_activate_def
      track_def symbol_empty_def BOTTOM_def queryIndex_def tie_def StorageHolder_new_def run_simps bind_run_def modify_run_def
      return_run_def Let_def)

lemma ses_defined_reached: "session_step\<^sup>*\<^sup>* ses_init ses_defined"
  unfolding ses_defined_def by (intro r_into_rtranclp st_define)

lemma ses_dispatched_reached: "session_step\<^sup>*\<^sup>* ses_init ses_dispatched"
  unfolding ses_dispatched_def
  by (rule rtranclp.rtrancl_into_rtrancl [OF ses_defined_reached], rule st_call, rule call_bind)

lemma ses_dispatched_waiting: "waiting ses_dispatched = [Some 1]"
  by (simp add: ses_dispatched_def bindAndDispatch_def getCloneOrInstance_def found_instance_def checked_instance_def canExec_if_def
      maybeGetNewInstance_def newInstance_clone createCloneImpl_def command_activate_def ses_defined_eq queryIndex_def
      StorageHolder_copy_def closure_isValid_def run_simps bind_run_def return_run_def modify_run_def result_run_def require_run_def
      require_def command_canExec_def impl_canExec_def impl_isValid_def pattern_isValid_def bind_result_def
      setArguments_def command_notBottom_def storeTuple_def clo_of_def handOver_def dispatcher_enqueue_def
      loop_enqueue_def queue_feed_def handle_ops_def DispatcherLoop_new_def Let_def)

theorem dispatched_ready_witness:
  "waiting ses_dispatched = [Some 1] \<and> command_canExec ses_dispatched (Some 1) = Inr True"
  using dispatched_ready [OF ses_init_reached ses_dispatched_reached] by (simp add: ses_dispatched_waiting)

theorem dispatched_untouched_witness:
  "clo_of (snd (service_bindArg ''add'' 5 ses_dispatched)) 1 = clo_of ses_dispatched 1"
  using dispatched_untouched [OF ses_init_reached ses_dispatched_reached call_bindArg [of _ "''add''" 5]]
  by (auto simp: ses_dispatched_waiting)

theorem instance_lifecycle_witness:
  "\<exists>j w1 w2 w3. service_cycle ''add'' ''ui'' ses_defined = (Inr ''add.ui'', w1) \<and> service_bindArg ''add.ui'' 7 w1 = (Inr (), w2)
    \<and> service_invoke ''add.ui'' w2 = (Inr (), w3) \<and> sh_args (clo_of w3 j) = Some 7"
proof -
  have "\<exists>j w1 w2 w3. service_cycle ''add'' ''ui'' ses_defined = (Inr ''add.ui'', w1) \<and> getInstance ''add.ui'' w1 = (Inr (Some j), w1)
    \<and> service_bindArg ''add.ui'' 7 w1 = (Inr (), w2) \<and> service_invoke ''add.ui'' w2 = (Inr (), w3)
    \<and> waiting w3 = waiting ses_defined @ [Some j] \<and> sh_args (clo_of w3 j) = Some 7
    \<and> im_do (impls w3 ! j) = im_do (impls ses_defined ! 0) \<and> clo_of w3 0 = clo_of ses_defined 0
    \<and> service_invoke ''add.ui'' w3 = (Inl (Err Logic ''LIFECYCLE''), w3) \<and> getInstance ''add.ui'' w3 = (Inl (Err Logic ''LIFECYCLE''), w3)"
    by (rule instance_lifecycle [OF ses_init_reached ses_defined_reached])
      (simp_all add: manager_contains_def queryIndex_def ses_defined_eq clo_of_def)
  then show ?thesis by blast
qed

end
