(* ===== verification/WorkerPool.thy ===== *)
theory WorkerPool
  imports ActivityLang IntUtil
begin

text \<open>
  The pool of worker threads, \<open>vault/gear/work-force.hpp\<close> and \<open>work-force.cpp\<close>: the loop of a worker that
  pulls work, its pauses when idle or in contention, and scaling and shutdown of the pool. What the
  work functor returns in each cycle, and when the emergency flag is read as set, are arguments; a pause is a
  value. The hash of the thread is a parameter.
\<close>

subsection \<open>A worker\<close>

definition MAX_OVERPROVISIONING :: int where "MAX_OVERPROVISIONING = 3"
definition CONTEND_SOFT_LIMIT :: nat where "CONTEND_SOFT_LIMIT = 3"
definition CONTEND_STARK_LIMIT :: nat where "CONTEND_STARK_LIMIT = CONTEND_SOFT_LIMIT + 5"
definition CONTEND_SATURATION :: nat where "CONTEND_SATURATION = CONTEND_STARK_LIMIT + 4"
definition CONTEND_SOFT_FACTOR :: nat where "CONTEND_SOFT_FACTOR = 100"
definition CONTEND_RANDOM_STEP :: nat where "CONTEND_RANDOM_STEP = 11"
definition CONTEND_WAIT :: nat where "CONTEND_WAIT = 100"

lemmas contend_defs = CONTEND_SOFT_LIMIT_def CONTEND_STARK_LIMIT_def CONTEND_SATURATION_def CONTEND_SOFT_FACTOR_def
  CONTEND_RANDOM_STEP_def CONTEND_WAIT_def

text \<open>The settings of the scheduler: a sleep when idle in microseconds, and the idle cycles until a worker is dismissed.\<close>

definition IDLE_WAIT :: nat where "IDLE_WAIT = 20000"
definition DISMISS_CYCLES :: nat where "DISMISS_CYCLES = 100"

record Worker =
  kickLevel :: nat
  idleCycles :: nat
  randFact :: nat
  emergency :: bool
  isDead :: bool

definition Worker_new :: Worker where
  "Worker_new = \<lparr>kickLevel = 0, idleCycles = 0, randFact = 0, emergency = False, isDead = False\<rparr>"

datatype Pause = Spin nat | Yield | Sleep nat

definition idleWait :: "nat \<Rightarrow> nat \<Rightarrow> Worker \<Rightarrow> Proc \<times> Pause list \<times> Worker" where
  "idleWait dismissCycles idleTime w =
     (let w' = w\<lparr>idleCycles := idleCycles w + 1\<rparr>
      in if idleCycles w' < dismissCycles then (PASS, [Sleep idleTime], w') else (HALT, [], w'))"

definition performRandomisedSpin :: "nat \<Rightarrow> nat \<Rightarrow> Pause" where
  "performRandomisedSpin stepping rand = Spin (CONTEND_SOFT_FACTOR * (1 + rand) * stepping)"

definition steppedRandDelay :: "nat \<Rightarrow> nat \<Rightarrow> nat result" where
  "steppedRandDelay stepping rand =
     bind_result (require (stepping > 0) ''stepping > 0'') (\<lambda>_.
       let factor = 2 ^ (stepping - 1) mod 2 ^ 32 in Inr ((CONTEND_WAIT + 10 * rand) * factor))"

definition contentionWait :: "nat \<Rightarrow> Worker \<Rightarrow> (Proc \<times> Pause list \<times> Worker) result" where
  "contentionWait thisThreadHash w =
     (let w1 = (if randFact w = 0 then w\<lparr>randFact := thisThreadHash mod CONTEND_RANDOM_STEP\<rparr> else w)
      in bind_result
           (if kickLevel w1 \<le> CONTEND_SOFT_LIMIT
            then Inr (concat (replicate (kickLevel w1) [performRandomisedSpin (kickLevel w1) (randFact w1), Yield]))
            else let stepping = min (kickLevel w1) CONTEND_STARK_LIMIT - CONTEND_SOFT_LIMIT
                 in bind_result (steppedRandDelay stepping (randFact w1)) (\<lambda>delay. Inr [Sleep delay]))
           (\<lambda>pauses. Inr (PASS, pauses,
              if kickLevel w1 < CONTEND_SATURATION then w1\<lparr>kickLevel := kickLevel w1 + 1\<rparr> else w1)))"

text \<open>
  A cycle of the loop in \<open>pullWork\<close>, from the result of the work functor on: the pauses made, and, when the
  loop is left, whether this is a regular exit.
\<close>

definition worker_cycle ::
  "nat \<Rightarrow> nat \<Rightarrow> nat \<Rightarrow> Proc result \<Rightarrow> bool \<Rightarrow> Worker \<Rightarrow> (Pause list \<times> bool option) \<times> Worker" where
  "worker_cycle dismissCycles idleTime thisThreadHash work emergency_set w =
     (case work of
        Inl e \<Rightarrow> (([], Some False), w)
      | Inr res \<Rightarrow>
          if emergency_set then (([], Some True), w)
          else case (if res = KICK then contentionWait thisThreadHash w
                     else Inr (res, [], if kickLevel w \<noteq> 0 then w\<lparr>kickLevel := kickLevel w div 2\<rparr> else w)) of
              Inl e \<Rightarrow> (([], Some False), w)
            | Inr (res1, p1, w1) \<Rightarrow>
                (case (if res1 = WAIT then idleWait dismissCycles idleTime w1 else (res1, [], w1\<lparr>idleCycles := 0\<rparr>)) of
                   (res2, p2, w2) \<Rightarrow> ((p1 @ p2, if res2 \<noteq> PASS then Some True else None), w2)))"

text \<open>
  The thread function, from the \<open>n\<close>-th cycle on. It returns the cycle in which the loop was left, whether this was
  regular, which is reported to the thread-exit hook, and all pauses.
\<close>

partial_function (option) pullWork ::
  "nat \<Rightarrow> nat \<Rightarrow> nat \<Rightarrow> (nat \<Rightarrow> Proc result) \<Rightarrow> (nat \<Rightarrow> bool) \<Rightarrow> nat \<Rightarrow> Worker \<Rightarrow> (nat \<times> bool \<times> Pause list \<times> Worker) option" where
  "pullWork dismissCycles idleTime thisThreadHash doWork stop n w =
     (case worker_cycle dismissCycles idleTime thisThreadHash (doWork n) (stop n) w of
        ((pauses, exit), w') \<Rightarrow>
          (case exit of
             Some regularExit \<Rightarrow> Some (n, regularExit, pauses, w'\<lparr>isDead := True\<rparr>)
           | None \<Rightarrow> Option.bind (pullWork dismissCycles idleTime thisThreadHash doWork stop (Suc n) w') (\<lambda>r.
               case r of (m, regularExit, later, v) \<Rightarrow> Some (m, regularExit, pauses @ later, v))))"

subsection \<open>The pool\<close>

record WorkForce =
  pl_capacity :: nat
  pl_workers :: "Worker list"

definition getDefaultComputationCapacity :: "nat \<Rightarrow> nat" where
  "getDefaultComputationCapacity hardware_concurrency = max hardware_concurrency 2"

definition WorkForce_new :: "nat \<Rightarrow> WorkForce" where
  "WorkForce_new capacity = \<lparr>pl_capacity = capacity, pl_workers = []\<rparr>"

definition launch_until :: "nat \<Rightarrow> WorkForce \<Rightarrow> WorkForce" where
  "launch_until target pool = pool\<lparr>pl_workers := pl_workers pool @ replicate (target - length (pl_workers pool)) Worker_new\<rparr>"

text \<open>The argument is the product of the degree and the capacity, rounded towards zero, a floating point value in the code.\<close>

definition pool_activate :: "int \<Rightarrow> WorkForce \<Rightarrow> WorkForce" where
  "pool_activate degree_scale pool =
     launch_until (nat (limited 0 degree_scale (int (pl_capacity pool) * MAX_OVERPROVISIONING))) pool"

definition pool_incScale :: "nat \<Rightarrow> WorkForce \<Rightarrow> WorkForce" where
  "pool_incScale step pool = launch_until (min ((length (pl_workers pool) + step) mod 2 ^ 32) (pl_capacity pool)) pool"

definition pool_size :: "WorkForce \<Rightarrow> nat \<times> WorkForce" where
  "pool_size pool = (let alive = filter (\<lambda>w. \<not> isDead w) (pl_workers pool) in (length alive, pool\<lparr>pl_workers := alive\<rparr>))"

text \<open>The shutdown first signals all workers, then checks the size until it is zero.\<close>

definition signal_emergency :: "WorkForce \<Rightarrow> WorkForce" where
  "signal_emergency pool = pool\<lparr>pl_workers := map (\<lambda>w. w\<lparr>emergency := True\<rparr>) (pl_workers pool)\<rparr>"

definition run_cycle :: "nat \<Rightarrow> nat \<Rightarrow> nat \<Rightarrow> Proc result \<Rightarrow> nat \<Rightarrow> WorkForce \<Rightarrow> WorkForce" where
  "run_cycle dismissCycles idleTime thisThreadHash work i pool =
     (let w = pl_workers pool ! i in
      if i < length (pl_workers pool) \<and> \<not> isDead w
      then case worker_cycle dismissCycles idleTime thisThreadHash work (emergency w) w of
             ((pauses, exit), w') \<Rightarrow> pool\<lparr>pl_workers := (pl_workers pool)[i := w'\<lparr>isDead := exit \<noteq> None\<rparr>]\<rparr>
      else pool)"

subsection \<open>A cycle of the worker\<close>

definition worker_ok :: "Worker \<Rightarrow> bool" where
  "worker_ok w \<longleftrightarrow> kickLevel w \<le> CONTEND_SATURATION \<and> randFact w < CONTEND_RANDOM_STEP"

lemma new_worker_ok [simp]: "worker_ok Worker_new"
  by (simp add: worker_ok_def Worker_new_def contend_defs)

text \<open>A pause is a spin of bounded length, a yield, the sleep when idle, or a sleep of 100 to 3200 microseconds.\<close>

definition pause_ok :: "nat \<Rightarrow> Pause \<Rightarrow> bool" where
  "pause_ok idleTime x \<longleftrightarrow> (case x of Spin k \<Rightarrow> k \<le> 3300 | Yield \<Rightarrow> True | Sleep d \<Rightarrow> d = idleTime \<or> 100 \<le> d \<and> d \<le> 3200)"

lemma steppedRandDelay_range:
  assumes "0 < stepping" "stepping \<le> 5" "rand < 11"
  shows "\<exists>d. steppedRandDelay stepping rand = Inr d \<and> 100 \<le> d \<and> d \<le> 3200"
proof -
  have "stepping = 1 \<or> stepping = 2 \<or> stepping = 3 \<or> stepping = 4 \<or> stepping = 5" using assms by auto
  then show ?thesis using assms(3)
    by (elim disjE) (simp_all add: steppedRandDelay_def require_def Let_def CONTEND_WAIT_def)
qed

lemma contentionWait_effect:
  assumes "worker_ok w"
  shows "\<exists>p w'. contentionWait h w = Inr (PASS, p, w') \<and> worker_ok w' \<and> idleCycles w' = idleCycles w
    \<and> kickLevel w' = min CONTEND_SATURATION (kickLevel w + 1) \<and> (\<forall>x\<in>set p. pause_ok idleTime x)"
proof -
  define w1 where "w1 = (if randFact w = 0 then w\<lparr>randFact := h mod CONTEND_RANDOM_STEP\<rparr> else w)"
  have w1: "worker_ok w1" "kickLevel w1 = kickLevel w" "idleCycles w1 = idleCycles w"
    using assms by (auto simp: w1_def worker_ok_def CONTEND_RANDOM_STEP_def)
  define w2 where "w2 = (if kickLevel w1 < CONTEND_SATURATION then w1\<lparr>kickLevel := kickLevel w1 + 1\<rparr> else w1)"
  have w2: "worker_ok w2" "idleCycles w2 = idleCycles w" "kickLevel w2 = min CONTEND_SATURATION (kickLevel w + 1)"
    using w1 by (auto simp: w2_def worker_ok_def)
  have rand: "randFact w1 < 11" using w1(1) by (simp add: worker_ok_def CONTEND_RANDOM_STEP_def)
  show ?thesis
  proof (cases "kickLevel w1 \<le> CONTEND_SOFT_LIMIT")
    case True
    have "(1 + randFact w1) * kickLevel w1 \<le> 11 * 3" using True rand by (intro mult_le_mono) (simp_all add: CONTEND_SOFT_LIMIT_def)
    then have "\<forall>x\<in>set (concat (replicate (kickLevel w1) [performRandomisedSpin (kickLevel w1) (randFact w1), Yield])). pause_ok idleTime x"
      by (auto simp: performRandomisedSpin_def pause_ok_def CONTEND_SOFT_FACTOR_def algebra_simps)
    then show ?thesis
      using True w2 by (simp add: contentionWait_def Let_def w1_def [symmetric] w2_def [symmetric])
  next
    case False
    let ?s = "min (kickLevel w1) CONTEND_STARK_LIMIT - CONTEND_SOFT_LIMIT"
    have "0 < ?s" "?s \<le> 5" using False by (simp_all add: CONTEND_SOFT_LIMIT_def CONTEND_STARK_LIMIT_def)
    from steppedRandDelay_range [OF this rand] obtain d where "steppedRandDelay ?s (randFact w1) = Inr d" "100 \<le> d" "d \<le> 3200" by blast
    then show ?thesis
      using False w2 by (simp add: contentionWait_def Let_def w1_def [symmetric] w2_def [symmetric] pause_ok_def)
  qed
qed

text \<open>When the loop is left after a cycle.\<close>

definition cycle_exit :: "nat \<Rightarrow> Proc result \<Rightarrow> bool \<Rightarrow> nat \<Rightarrow> bool option" where
  "cycle_exit dismissCycles work emergency_set idle =
     (case work of
        Inl e \<Rightarrow> Some False
      | Inr res \<Rightarrow> if emergency_set \<or> res = SKIP \<or> res = HALT \<or> res = WAIT \<and> dismissCycles \<le> idle + 1 then Some True else None)"

lemma worker_cycle_effect:
  assumes "worker_ok w" "worker_cycle d t h work emg w = ((p, exit), w')"
  shows "worker_ok w' \<and> (\<forall>x\<in>set p. pause_ok t x) \<and> exit = cycle_exit d work emg (idleCycles w)
    \<and> (exit = None \<longrightarrow> idleCycles w' = (if work = Inr WAIT then idleCycles w + 1 else 0)
         \<and> kickLevel w' = (if work = Inr KICK then min CONTEND_SATURATION (kickLevel w + 1) else kickLevel w div 2))"
proof (cases work)
  case (Inl e)
  then show ?thesis using assms by (auto simp: worker_cycle_def cycle_exit_def)
next
  case (Inr res)
  show ?thesis
  proof (cases emg)
    case True
    then show ?thesis using assms Inr by (auto simp: worker_cycle_def cycle_exit_def)
  next
    case False
    show ?thesis
    proof (cases "res = KICK")
      case True
      from contentionWait_effect [OF assms(1), of h t] obtain q v where "contentionWait h w = Inr (PASS, q, v)" "worker_ok v"
        "kickLevel v = min CONTEND_SATURATION (kickLevel w + 1)" "\<forall>x\<in>set q. pause_ok t x" by blast
      then show ?thesis
        using assms(2) True Inr False by (auto simp: worker_cycle_def cycle_exit_def worker_ok_def)
    next
      case kick: False
      then show ?thesis
        using assms Inr False
        by (cases res) (auto simp: worker_cycle_def cycle_exit_def worker_ok_def idleWait_def Let_def pause_ok_def split: if_splits)
    qed
  qed
qed

subsection \<open>The loop of the worker\<close>

text \<open>The number of cycles without work that end with the given one.\<close>

fun idle_streak :: "(nat \<Rightarrow> Proc result) \<Rightarrow> nat \<Rightarrow> nat" where
  "idle_streak doWork 0 = 0"
| "idle_streak doWork (Suc n) = (if doWork n = Inr WAIT then idle_streak doWork n + 1 else 0)"

text \<open>
  A worker leaves its loop in a cycle when the work functor throws, or the emergency flag is read as set, or
  the functor returns a verdict to stop, or there was no work for too long.
\<close>

definition leaves :: "nat \<Rightarrow> (nat \<Rightarrow> Proc result) \<Rightarrow> (nat \<Rightarrow> bool) \<Rightarrow> nat \<Rightarrow> bool" where
  "leaves dismissCycles doWork stop n \<longleftrightarrow> isl (doWork n) \<or> stop n \<or> doWork n = Inr SKIP \<or> doWork n = Inr HALT
     \<or> dismissCycles \<le> idle_streak doWork (Suc n)"

text \<open>
  What the pool asks of the settings a worker runs with. The lemmas tell in which cycle a worker comes
  to its end, if at all.
\<close>

locale worker_setup =
  fixes dismiss :: nat and idleTime :: nat
  assumes dismiss_pos: "0 < dismiss"
begin

lemma cycle_exit_leaves: "cycle_exit dismiss (doWork n) (stop n) (idle_streak doWork n) = None \<longleftrightarrow> \<not> leaves dismiss doWork stop n"
  "cycle_exit dismiss (doWork n) (stop n) (idle_streak doWork n) = Some r \<Longrightarrow> leaves dismiss doWork stop n \<and> (r \<longleftrightarrow> \<not> isl (doWork n))"
  using dismiss_pos by (auto simp: cycle_exit_def leaves_def split: sum.splits if_splits)

lemma pullWork_returns:
  assumes "n \<le> m" "worker_ok w" "idleCycles w = idle_streak doWork n"
    and "\<forall>k. n \<le> k \<and> k < m \<longrightarrow> \<not> leaves dismiss doWork stop k" "leaves dismiss doWork stop m"
  shows "\<exists>p v. pullWork dismiss idleTime h doWork stop n w = Some (m, \<not> isl (doWork m), p, v)
    \<and> (\<forall>x\<in>set p. pause_ok idleTime x) \<and> isDead v"
  using assms
proof (induction "m - n" arbitrary: n w)
  case 0
  obtain p exit w' where c: "worker_cycle dismiss idleTime h (doWork n) (stop n) w = ((p, exit), w')" by (metis prod.collapse)
  have "n = m" using 0 by simp
  then have "exit = Some (\<not> isl (doWork m))"
    using worker_cycle_effect [OF 0(3) c] 0(4,6) cycle_exit_leaves [of doWork n stop] by (cases exit) auto
  then show ?case using worker_cycle_effect [OF 0(3) c] c \<open>n = m\<close> by (simp add: pullWork.simps)
next
  case (Suc l)
  obtain p exit w' where c: "worker_cycle dismiss idleTime h (doWork n) (stop n) w = ((p, exit), w')" by (metis prod.collapse)
  have "\<not> leaves dismiss doWork stop n" using Suc by simp
  then have exit: "exit = None" using worker_cycle_effect [OF Suc(4) c] Suc(5) cycle_exit_leaves(1) [of doWork n stop] by simp
  have "idleCycles w' = idle_streak doWork (Suc n)" "worker_ok w'"
    using worker_cycle_effect [OF Suc(4) c] exit Suc(5) by simp_all
  moreover have "l = m - Suc n" "Suc n \<le> m" using Suc(2) by simp_all
  ultimately obtain q v where "pullWork dismiss idleTime h doWork stop (Suc n) w' = Some (m, \<not> isl (doWork m), q, v)"
      "\<forall>x\<in>set q. pause_ok idleTime x" "isDead v"
    using Suc(1) [of "Suc n" w'] Suc(6,7) by auto
  then show ?case using c exit worker_cycle_effect [OF Suc(4) c] by (auto simp: pullWork.simps [of dismiss idleTime h doWork stop n w])
qed

lemma pullWork_leaves:
  assumes "pullWork dismiss idleTime h doWork stop n w = Some r" "worker_ok w" "idleCycles w = idle_streak doWork n"
  shows "leaves dismiss doWork stop (fst r)"
proof -
  have "D = dismiss \<longrightarrow> T = idleTime \<longrightarrow> worker_ok w \<longrightarrow> idleCycles w = idle_streak work n \<longrightarrow> leaves dismiss work st (fst r)"
    if "pullWork D T h work st n w = Some r" for D T h work st n w r
  proof (rule pullWork.raw_induct [OF _ that, where P = "\<lambda>D T h work st n w r.
      D = dismiss \<longrightarrow> T = idleTime \<longrightarrow> worker_ok w \<longrightarrow> idleCycles w = idle_streak work n \<longrightarrow> leaves dismiss work st (fst r)"], intro impI)
    fix rec D T h work st n w r
    assume IH: "\<And>D T h work st n w r. rec D T h work st n w = Some r \<Longrightarrow> D = dismiss \<longrightarrow> T = idleTime \<longrightarrow> worker_ok w
        \<longrightarrow> idleCycles w = idle_streak work n \<longrightarrow> leaves dismiss work st (fst r)"
      and body: "(case worker_cycle D T h (work n) (st n) w of ((pauses, exit), w') \<Rightarrow>
          (case exit of Some regularExit \<Rightarrow> Some (n, regularExit, pauses, w'\<lparr>isDead := True\<rparr>)
           | None \<Rightarrow> Option.bind (rec D T h work st (Suc n) w') (\<lambda>r.
               case r of (m, regularExit, later, v) \<Rightarrow> Some (m, regularExit, pauses @ later, v)))) = Some r"
      and D: "D = dismiss" "T = idleTime" and w: "worker_ok w" "idleCycles w = idle_streak work n"
    obtain p exit w' where c: "worker_cycle D T h (work n) (st n) w = ((p, exit), w')" by (metis prod.collapse)
    note e = worker_cycle_effect [OF w(1) c]
    show "leaves dismiss work st (fst r)"
    proof (cases exit)
      case (Some x)
      then have "leaves dismiss work st n" using e D w(2) cycle_exit_leaves(2) [of work n st x] by simp
      then show ?thesis using body c Some by auto
    next
      case None
      then obtain s where "rec D T h work st (Suc n) w' = Some s" "fst r = fst s"
        using body c by (auto simp: bind_eq_Some_conv split: prod.splits)
      moreover have "idleCycles w' = idle_streak work (Suc n)" "worker_ok w'" using e None w(2) by simp_all
      ultimately show ?thesis using IH D by simp
    qed
  qed
  from this [OF assms(1)] show ?thesis using assms(2,3) by simp
qed

lemma pullWork_exact:
  assumes "worker_ok w" "idleCycles w = 0"
  shows "case pullWork dismiss idleTime h doWork stop 0 w of
      None \<Rightarrow> \<forall>n. \<not> leaves dismiss doWork stop n
    | Some (n, regularExit, p, v) \<Rightarrow> leaves dismiss doWork stop n \<and> (\<forall>k<n. \<not> leaves dismiss doWork stop k)
        \<and> (regularExit \<longleftrightarrow> \<not> isl (doWork n)) \<and> (\<forall>x\<in>set p. pause_ok idleTime x) \<and> isDead v"
proof (cases "\<exists>n. leaves dismiss doWork stop n")
  case True
  define m where "m = (LEAST n. leaves dismiss doWork stop n)"
  have m: "leaves dismiss doWork stop m" unfolding m_def using True by (rule LeastI_ex)
  have before: "\<forall>k<m. \<not> leaves dismiss doWork stop k" unfolding m_def using not_less_Least by blast
  have "\<exists>p v. pullWork dismiss idleTime h doWork stop 0 w = Some (m, \<not> isl (doWork m), p, v)
      \<and> (\<forall>x\<in>set p. pause_ok idleTime x) \<and> isDead v"
    by (rule pullWork_returns) (use assms m before in simp_all)
  then show ?thesis using m before by auto
next
  case False
  then show ?thesis using pullWork_leaves [of h doWork stop 0 w] assms by (auto split: option.split)
qed

end

interpretation scheduler_worker: worker_setup DISMISS_CYCLES IDLE_WAIT
  by unfold_locales (simp add: DISMISS_CYCLES_def)

text \<open>C5: A worker ends when it should, and only then. With the settings of the scheduler, a new worker leaves its loop in the
  first cycle where the work functor throws, the emergency flag is set, the functor returns HALT or SKIP, or 100 cycles in a row found no
  work; if there is no such cycle it runs forever. The exit counts as regular unless the functor has thrown. All pauses on
  the way are bounded: at most 3300 rounds of spinning at a time, a sleep of 100 to 3200 microseconds in contention, 20 ms when idle.\<close>

theorem worker_ends:
  "case pullWork DISMISS_CYCLES IDLE_WAIT thisThreadHash doWork stop 0 Worker_new of
     None \<Rightarrow> \<forall>n. \<not> leaves DISMISS_CYCLES doWork stop n
   | Some (n, regularExit, pauses, w) \<Rightarrow> leaves DISMISS_CYCLES doWork stop n \<and> (\<forall>k<n. \<not> leaves DISMISS_CYCLES doWork stop k)
       \<and> (regularExit \<longleftrightarrow> \<not> isl (doWork n)) \<and> (\<forall>x\<in>set pauses. pause_ok IDLE_WAIT x) \<and> isDead w"
  by (rule scheduler_worker.pullWork_exact) (simp_all add: Worker_new_def worker_ok_def contend_defs)

lemma idle_streak_idle: "idle_streak (\<lambda>_. Inr WAIT) n = n"
  by (induction n) simp_all

theorem worker_ends_witness:
  "\<exists>pauses w. pullWork DISMISS_CYCLES IDLE_WAIT 5 (\<lambda>_. Inr WAIT) (\<lambda>_. False) 0 Worker_new = Some (99, True, pauses, w)"
proof -
  have leaves: "leaves DISMISS_CYCLES (\<lambda>_. Inr WAIT) (\<lambda>_. False) n \<longleftrightarrow> 99 \<le> n" for n
    by (simp add: leaves_def idle_streak_idle DISMISS_CYCLES_def del: idle_streak.simps)
  from worker_ends [of "\<lambda>_. Inr WAIT" "\<lambda>_. False" 5] show ?thesis
    by (auto simp: leaves split: option.splits) (metis le_antisym linorder_not_le order_refl)
qed

subsection \<open>The pool in operation\<close>

inductive pool_step :: "WorkForce \<Rightarrow> WorkForce \<Rightarrow> bool" where
  pool_activates: "pool_step pool (pool_activate degree_scale pool)"
| pool_scales: "pool_step pool (pool_incScale step pool)"
| pool_counts: "pool_step pool (snd (pool_size pool))"
| pool_signals: "pool_step pool (signal_emergency pool)"
| pool_works: "pool_step pool (run_cycle DISMISS_CYCLES IDLE_WAIT thisThreadHash work i pool)"

inductive_cases pool_stepE: "pool_step pool pool'"

definition live :: "WorkForce \<Rightarrow> nat" where
  "live pool = length (filter (\<lambda>w. \<not> isDead w) (pl_workers pool))"

lemma pool_size_live: "fst (pool_size pool) = live pool"
  by (simp add: pool_size_def live_def Let_def)

definition pool_ok :: "nat \<Rightarrow> WorkForce \<Rightarrow> bool" where
  "pool_ok capacity pool \<longleftrightarrow> pl_capacity pool = capacity \<and> length (pl_workers pool) \<le> 3 * capacity
     \<and> (\<forall>w\<in>set (pl_workers pool). worker_ok w)"

lemma launch_until_live: "live (launch_until n pool) = live pool + (n - length (pl_workers pool))"
  by (simp add: live_def launch_until_def Worker_new_def)

lemma launch_until_ok: "pool_ok c pool \<Longrightarrow> n \<le> 3 * c \<Longrightarrow> pool_ok c (launch_until n pool)"
  by (auto simp: pool_ok_def launch_until_def)

lemma activate_target: "nat (limited 0 x (int c * MAX_OVERPROVISIONING)) \<le> 3 * c"
  by (auto simp: limited_def MAX_OVERPROVISIONING_def Let_def)

lemma run_cycle_workers:
  assumes "\<forall>w\<in>set (pl_workers pool). worker_ok w"
  shows "pl_capacity (run_cycle d t h work i pool) = pl_capacity pool"
    "length (pl_workers (run_cycle d t h work i pool)) = length (pl_workers pool)"
    "\<forall>w\<in>set (pl_workers (run_cycle d t h work i pool)). worker_ok w"
proof -
  let ?w = "pl_workers pool ! i"
  obtain p exit w' where c: "worker_cycle d t h work (emergency ?w) ?w = ((p, exit), w')" by (metis prod.collapse)
  show "pl_capacity (run_cycle d t h work i pool) = pl_capacity pool"
    "length (pl_workers (run_cycle d t h work i pool)) = length (pl_workers pool)"
    using c by (simp_all add: run_cycle_def Let_def)
  show "\<forall>w\<in>set (pl_workers (run_cycle d t h work i pool)). worker_ok w"
  proof (cases "i < length (pl_workers pool) \<and> \<not> isDead ?w")
    case True
    then have "worker_ok w'" using worker_cycle_effect [OF _ c] assms by simp
    then show ?thesis
      using True c assms by (auto simp: run_cycle_def Let_def worker_ok_def dest!: set_update_subset_insert [THEN subsetD])
  next
    case False
    then show ?thesis using assms by (auto simp: run_cycle_def Let_def)
  qed
qed

lemma pool_step_ok: "pool_step pool pool' \<Longrightarrow> pool_ok c pool \<Longrightarrow> pool_ok c pool'"
proof (induction rule: pool_step.induct)
  case (pool_activates pool x)
  then have "pl_capacity pool = c" by (simp add: pool_ok_def)
  then show ?case using launch_until_ok [OF pool_activates activate_target [of x c]] by (simp add: pool_activate_def)
next
  case (pool_scales pool step)
  then have "pl_capacity pool = c" by (simp add: pool_ok_def)
  then show ?case using pool_scales unfolding pool_incScale_def by (intro launch_until_ok) auto
next
  case (pool_counts pool)
  then have "length (filter (\<lambda>w. \<not> isDead w) (pl_workers pool)) \<le> 3 * c"
    using length_filter_le [of "\<lambda>w. \<not> isDead w" "pl_workers pool"] by (simp add: pool_ok_def del: length_filter_le)
  then show ?case using pool_counts by (auto simp: pool_ok_def pool_size_def Let_def)
next
  case (pool_works pool h work i)
  then show ?case using run_cycle_workers [of pool] by (simp add: pool_ok_def)
qed (auto simp: pool_ok_def signal_emergency_def worker_ok_def)

lemma pool_reached: "pool_step\<^sup>*\<^sup>* (WorkForce_new c) pool \<Longrightarrow> pool_ok c pool"
proof (induction rule: rtranclp_induct)
  case base
  then show ?case by (simp add: pool_ok_def WorkForce_new_def)
qed (rule pool_step_ok)

text \<open>A sequence of turns: which worker comes to the end of a cycle, and what its work functor returns.\<close>

definition run_turns :: "(nat \<times> Proc result \<times> nat) list \<Rightarrow> WorkForce \<Rightarrow> WorkForce" where
  "run_turns turns pool = fold (\<lambda>(i, work, h). run_cycle DISMISS_CYCLES IDLE_WAIT h work i) turns pool"

lemma emergency_cycle:
  assumes "\<forall>w\<in>set (pl_workers pool). emergency w"
  shows "run_cycle d t h work i pool =
    (if i < length (pl_workers pool) then pool\<lparr>pl_workers := (pl_workers pool)[i := (pl_workers pool ! i)\<lparr>isDead := True\<rparr>]\<rparr> else pool)"
proof (cases "i < length (pl_workers pool)")
  case True
  let ?w = "pl_workers pool ! i"
  have e: "emergency ?w" using assms True by simp
  have dead: "?w\<lparr>isDead := True\<rparr> = ?w" if "isDead ?w" using that by (cases ?w) simp
  have "worker_cycle d t h work True ?w = (([], Some (\<not> isl work)), ?w)" by (cases work) (simp_all add: worker_cycle_def)
  moreover have "pool\<lparr>pl_workers := (pl_workers pool)[i := ?w\<lparr>isDead := True\<rparr>]\<rparr> = pool" if "isDead ?w"
    unfolding dead [OF that] by simp
  ultimately show ?thesis using True e by (cases "isDead ?w") (simp_all add: run_cycle_def Let_def)
qed (simp add: run_cycle_def Let_def)

lemma run_turns_workers:
  assumes "\<forall>w\<in>set (pl_workers pool). emergency w"
  shows "length (pl_workers (run_turns turns pool)) = length (pl_workers pool)
    \<and> (\<forall>i<length (pl_workers pool). isDead (pl_workers (run_turns turns pool) ! i) \<longleftrightarrow> isDead (pl_workers pool ! i) \<or> i \<in> fst ` set turns)"
  using assms
proof (induction turns arbitrary: pool)
  case Nil
  then show ?case by (simp add: run_turns_def)
next
  case (Cons x turns)
  obtain i work h where x: "x = (i, work, h)" by (cases x)
  let ?p = "run_cycle DISMISS_CYCLES IDLE_WAIT h work i pool"
  have p: "?p = (if i < length (pl_workers pool) then pool\<lparr>pl_workers := (pl_workers pool)[i := (pl_workers pool ! i)\<lparr>isDead := True\<rparr>]\<rparr> else pool)"
    by (rule emergency_cycle [OF Cons.prems])
  have "\<forall>w\<in>set (pl_workers ?p). emergency w"
    using Cons.prems unfolding p by (auto dest!: set_update_subset_insert [THEN subsetD])
  from Cons.IH [OF this] have IH: "length (pl_workers (run_turns turns ?p)) = length (pl_workers ?p)
    \<and> (\<forall>j<length (pl_workers ?p). isDead (pl_workers (run_turns turns ?p) ! j) \<longleftrightarrow> isDead (pl_workers ?p ! j) \<or> j \<in> fst ` set turns)" .
  have len: "length (pl_workers ?p) = length (pl_workers pool)" by (simp add: p)
  have dead: "isDead (pl_workers ?p ! j) \<longleftrightarrow> isDead (pl_workers pool ! j) \<or> j = i" if "j < length (pl_workers pool)" for j
    using that by (auto simp: p nth_list_update)
  have run: "run_turns (x # turns) pool = run_turns turns ?p" by (simp add: run_turns_def x)
  show ?case unfolding run using IH len dead by (auto simp: x)
qed

text \<open>C6: The shutdown of the pool waits for the work in progress, and no longer. Once the emergency signal is given, the size
  that the shutdown checks is the number of the workers alive that have not yet come to the end of the cycle they
  are in, whatever their work functors return, and whatever the order; so it becomes zero just when each one has.\<close>

theorem workforce_shutdown:
  "fst (pool_size (run_turns turns (signal_emergency pool)))
   = card {i. i < length (pl_workers pool) \<and> \<not> isDead (pl_workers pool ! i) \<and> i \<notin> fst ` set turns}"
proof -
  let ?s = "signal_emergency pool" let ?r = "run_turns turns ?s"
  have r: "length (pl_workers ?r) = length (pl_workers ?s)
    \<and> (\<forall>i<length (pl_workers ?s). isDead (pl_workers ?r ! i) \<longleftrightarrow> isDead (pl_workers ?s ! i) \<or> i \<in> fst ` set turns)"
    by (rule run_turns_workers) (simp add: signal_emergency_def)
  have "fst (pool_size ?r) = card {i. i < length (pl_workers ?r) \<and> \<not> isDead (pl_workers ?r ! i)}"
    by (simp add: pool_size_def Let_def length_filter_conv_card)
  also have "{i. i < length (pl_workers ?r) \<and> \<not> isDead (pl_workers ?r ! i)}
    = {i. i < length (pl_workers pool) \<and> \<not> isDead (pl_workers pool ! i) \<and> i \<notin> fst ` set turns}"
    using r by (auto simp: signal_emergency_def)
  finally show ?thesis .
qed

text \<open>C7: Scaling is bounded, and exact as long as all workers live. In any state the pool reaches, it has at most three times
  its capacity of workers. Activation and stepping up raise the number of workers alive by what is missing to the target, but count those
  that have ended as long as their remains were not discarded: when a full pool has ended by itself, an activation
  starts no worker, and it starts all of them once the size has been asked for.\<close>

theorem workforce_scaling:
  assumes "pool_step\<^sup>*\<^sup>* (WorkForce_new capacity) pool"
  shows "length (pl_workers pool) \<le> 3 * capacity
    \<and> fst (pool_size (pool_activate degree_scale pool))
        = fst (pool_size pool) + (nat (limited 0 degree_scale (3 * int capacity)) - length (pl_workers pool))
    \<and> fst (pool_size (pool_incScale step pool))
        = fst (pool_size pool) + (min ((length (pl_workers pool) + step) mod 2 ^ 32) capacity - length (pl_workers pool))
    \<and> (length (pl_workers pool) \<ge> capacity \<and> fst (pool_size pool) = 0 \<longrightarrow>
         fst (pool_size (pool_activate (int capacity) pool)) = 0
         \<and> fst (pool_size (pool_activate (int capacity) (snd (pool_size pool)))) = capacity)"
proof -
  have ok: "pool_ok capacity pool" using assms by (rule pool_reached)
  have target: "nat (limited 0 (int capacity) (int capacity * MAX_OVERPROVISIONING)) = capacity"
    by (simp add: limited_def MAX_OVERPROVISIONING_def Let_def)
  have "live (snd (pool_size pool)) = live pool" "length (pl_workers (snd (pool_size pool))) = live pool"
    by (simp_all add: pool_size_def live_def Let_def)
  moreover have "pl_capacity (snd (pool_size pool)) = pl_capacity pool" by (simp add: pool_size_def Let_def)
  ultimately show ?thesis
    using ok target by (simp add: pool_size_live pool_activate_def pool_incScale_def launch_until_live pool_ok_def
        MAX_OVERPROVISIONING_def mult.commute)
qed

theorem workforce_scaling_witness:
  "fst (pool_size (pool_activate 3 (WorkForce_new 4))) = 3 \<and> fst (pool_size (pool_incScale 1 (WorkForce_new 4))) = 1"
  using workforce_scaling [of 4 "WorkForce_new 4" 3 1]
  by (simp add: WorkForce_new_def pool_size_def limited_def Let_def)

end
