(* ===== verification/ParseSyntax.thy ===== *)
theory ParseSyntax
  imports TextTemplate "HOL-Library.Sublist"
begin

text \<open>
  Parser combinators, \<open>lib/parse.hpp\<close>: the parse functions (\<open>Connex\<close>) for terminals, sequence, alternative,
  repetition, option and brackets, the models they build, and the DSL of syntax clauses with recursive
  syntax. A regular expression is a parameter, a function from the input to the groups of a match at its start.
  It is shown that a parser implements the derivations of its clauses as an ordered grammar, and returns where
  the grammar has no left recursion.
\<close>

subsection \<open>Models and results\<close>

text \<open>
  The model type is known statically in the code; whether models are joined into one depends on it.
  A value bound by a functor of the client has the type parameter.
\<close>

datatype 'v Model =
    NullModel
  | MatchModel "string list"
  | StringModel string
  | Bound 'v
  | SeqModel "'v Model list"
  | AltModel nat "'v Model"
  | IterModel "'v Model list"
  | OptModel "'v Model option"

datatype ModelType = TNull | TMatch | TString | TBound | TSeq nat | TAlt nat | TIter | TOpt

record 'v Eval =
  ev_result :: "'v Model option"
  ev_consumed :: nat

type_synonym 'v parse_fun = "string \<Rightarrow> 'v Eval partial_result"

record 'v Connex =
  cx_type :: ModelType
  cx_bound :: bool
  cx_parse :: "'v parse_fun"

type_synonym regex = "string \<Rightarrow> string list option"

definition success :: "'v Model \<Rightarrow> nat \<Rightarrow> 'v Eval partial_result" where
  "success m n = Some (Inr \<lparr>ev_result = Some m, ev_consumed = n\<rparr>)"

definition no_match :: "'v Eval partial_result" where
  "no_match = Some (Inr \<lparr>ev_result = None, ev_consumed = 0\<rparr>)"

definition Connex_of :: "ModelType \<Rightarrow> 'v parse_fun \<Rightarrow> 'v Connex" where
  "Connex_of t f = \<lparr>cx_type = t, cx_bound = True, cx_parse = f\<rparr>"

lemma Connex_of_simps [simp]: "cx_type (Connex_of t f) = t" "cx_parse (Connex_of t f) = f" "cx_bound (Connex_of t f)"
  by (simp_all add: Connex_of_def)

text \<open>Conversion to \<open>uint\<close>, and the string view from a position on.\<close>

definition uint_of :: "nat \<Rightarrow> nat" where
  "uint_of n = n mod 2 ^ 32"

definition substr :: "nat \<Rightarrow> string \<Rightarrow> string partial_result" where
  "substr pos s = (if pos > length s then Some (Inl (Err External ''out_of_range'')) else Some (Inr (drop pos s)))"

definition leadingWhitespace :: "string \<Rightarrow> nat" where
  "leadingWhitespace s = length (takeWhile is_space s)"

subsection \<open>Parse functions\<close>

definition buildConnex_null :: "'v Connex" where
  "buildConnex_null = Connex_of TNull (\<lambda>toParse. success NullModel 0)"

definition buildConnex_regex :: "regex \<Rightarrow> 'v Connex" where
  "buildConnex_regex regEx = Connex_of TMatch (\<lambda>toParse.
     let pre = leadingWhitespace toParse in
     bind_partial (substr pre toParse) (\<lambda>rest.
       case regEx rest of
         None \<Rightarrow> no_match
       | Some groups \<Rightarrow> success (MatchModel groups) (pre + length (hd groups))))"

definition adaptConnex :: "ModelType \<Rightarrow> ('v Model \<Rightarrow> 'v Model) \<Rightarrow> 'v Connex \<Rightarrow> 'v Connex" where
  "adaptConnex adaptedRes binding orig = Connex_of adaptedRes (\<lambda>toParse.
     bind_partial (cx_parse orig toParse) (\<lambda>eval.
       case ev_result eval of
         Some m \<Rightarrow> success (binding m) (ev_consumed eval)
       | None \<Rightarrow> no_match))"

text \<open>The text for a match group; or, for any other model, the input accepted, where the length is a difference of sizes.\<close>

definition match_text :: "ModelType \<Rightarrow> nat \<Rightarrow> 'v Model \<Rightarrow> string \<Rightarrow> nat \<Rightarrow> string" where
  "match_text t part m toParse consumed =
     (case (t, m) of
        (TMatch, MatchModel groups) \<Rightarrow> if part < length groups then groups ! part else []
      | _ \<Rightarrow> let pre = leadingWhitespace toParse
             in take (nat (u64 (int consumed - int pre))) (drop pre toParse))"

definition toStringConnex :: "'v Connex \<Rightarrow> nat \<Rightarrow> 'v Connex" where
  "toStringConnex base part = Connex_of TString (\<lambda>toParse.
     bind_partial (cx_parse base toParse) (\<lambda>eval.
       case ev_result eval of
         Some m \<Rightarrow> success (StringModel (match_text (cx_type base) part m toParse (ev_consumed eval))) (ev_consumed eval)
       | None \<Rightarrow> no_match))"

definition seq_type :: "ModelType \<Rightarrow> ModelType" where
  "seq_type t = (case t of TSeq n \<Rightarrow> TSeq (n + 1) | _ \<Rightarrow> TSeq 2)"

definition seq_model :: "ModelType \<Rightarrow> 'v Model \<Rightarrow> 'v Model \<Rightarrow> 'v Model" where
  "seq_model t m1 m2 = (case (t, m1) of (TSeq n, SeqModel ms) \<Rightarrow> SeqModel (ms @ [m2]) | _ \<Rightarrow> SeqModel [m1, m2])"

definition sequenceConnex :: "'v Connex \<Rightarrow> 'v Connex \<Rightarrow> 'v Connex" where
  "sequenceConnex conL conR = Connex_of (seq_type (cx_type conL)) (\<lambda>toParse.
     bind_partial (cx_parse conL toParse) (\<lambda>eval1.
       case ev_result eval1 of
         None \<Rightarrow> no_match
       | Some m1 \<Rightarrow> bind_partial (substr (ev_consumed eval1) toParse) (\<lambda>restInput.
           bind_partial (cx_parse conR restInput) (\<lambda>eval2.
             case ev_result eval2 of
               None \<Rightarrow> no_match
             | Some m2 \<Rightarrow> success (seq_model (cx_type conL) m1 m2) (uint_of (ev_consumed eval1 + ev_consumed eval2))))))"

text \<open>The branch of a nested alternative is kept; a new one gets the next number.\<close>

definition alt_type :: "ModelType \<Rightarrow> ModelType" where
  "alt_type t = (case t of TAlt n \<Rightarrow> TAlt (n + 1) | _ \<Rightarrow> TAlt 2)"

definition mark_left :: "ModelType \<Rightarrow> 'v Model \<Rightarrow> 'v Model" where
  "mark_left t m = (case t of TAlt n \<Rightarrow> m | _ \<Rightarrow> AltModel 0 m)"

definition mark_right :: "ModelType \<Rightarrow> 'v Model \<Rightarrow> 'v Model" where
  "mark_right t m = AltModel (case t of TAlt n \<Rightarrow> n | _ \<Rightarrow> 1) m"

definition branchedConnex :: "'v Connex \<Rightarrow> 'v Connex \<Rightarrow> 'v Connex" where
  "branchedConnex conL conR = Connex_of (alt_type (cx_type conL)) (\<lambda>toParse.
     bind_partial (cx_parse conL toParse) (\<lambda>eval1.
       case ev_result eval1 of
         Some m \<Rightarrow> success (mark_left (cx_type conL) m) (uint_of (ev_consumed eval1))
       | None \<Rightarrow> bind_partial (cx_parse conR toParse) (\<lambda>eval2.
           case ev_result eval2 of
             Some m \<Rightarrow> success (mark_right (cx_type conL) m) (uint_of (ev_consumed eval2))
           | None \<Rightarrow> no_match)))"

text \<open>The loop of a repetition; it is left when the delimiter or the body does not match, or at the maximum.\<close>

definition rep_offset :: "'v parse_fun \<Rightarrow> 'v Model list \<Rightarrow> string \<Rightarrow> (nat option) partial_result" where
  "rep_offset sep results toParse =
     (if results \<noteq> []
      then bind_partial (sep toParse) (\<lambda>delim. Some (Inr (case ev_result delim of
             None \<Rightarrow> None | Some m \<Rightarrow> Some (uint_of (ev_consumed delim)))))
      else Some (Inr (Some 0)))"

function rep_loop :: "nat \<Rightarrow> 'v parse_fun \<Rightarrow> 'v parse_fun \<Rightarrow> nat \<Rightarrow> 'v Model list \<Rightarrow> string \<Rightarrow> (nat \<times> 'v Model list) partial_result" where
  "rep_loop maxRep sep body consumed results toParse =
     bind_partial (rep_offset sep results toParse) (\<lambda>found.
       case found of
         None \<Rightarrow> Some (Inr (consumed, results))
       | Some offset \<Rightarrow> bind_partial (substr offset toParse) (\<lambda>rest.
           bind_partial (body rest) (\<lambda>eval.
             case ev_result eval of
               None \<Rightarrow> Some (Inr (consumed, results))
             | Some m \<Rightarrow>
                 let offset' = uint_of (offset + ev_consumed eval) in
                 bind_partial (substr offset' toParse) (\<lambda>toParse'.
                   if length (results @ [m]) < maxRep
                   then rep_loop maxRep sep body (consumed + offset') (results @ [m]) toParse'
                   else Some (Inr (consumed + offset', results @ [m]))))))"
  by pat_completeness auto
termination rep_loop
  by (relation "measure (\<lambda>(mx, sep, body, consumed, results, toParse). mx - length results)") auto

declare rep_loop.simps [simp del]

definition repeatedConnex :: "nat \<Rightarrow> nat \<Rightarrow> 'v Connex \<Rightarrow> 'v Connex \<Rightarrow> 'v Connex" where
  "repeatedConnex minRep maxRep sep body = Connex_of TIter (\<lambda>toParse.
     bind_partial (rep_loop maxRep (cx_parse sep) (cx_parse body) 0 [] toParse) (\<lambda>(consumed, results).
       if length results \<ge> minRep then success (IterModel results) consumed else no_match))"

definition optionalConnex :: "'v Connex \<Rightarrow> 'v Connex" where
  "optionalConnex body = Connex_of TOpt (\<lambda>toParse.
     bind_partial (cx_parse body toParse) (\<lambda>eval.
       success (OptModel (ev_result eval)) (if ev_result eval \<noteq> None then ev_consumed eval else 0)))"

definition bracketedConnex :: "'v Connex \<Rightarrow> 'v Connex \<Rightarrow> 'v Connex \<Rightarrow> bool \<Rightarrow> 'v Connex" where
  "bracketedConnex opening closing body isOptional = Connex_of (cx_type body) (\<lambda>toParse.
     bind_partial (cx_parse opening toParse) (\<lambda>bracket.
       if ev_result bracket \<noteq> None \<or> isOptional
       then let expectClose = (ev_result bracket \<noteq> None) in
         bind_partial (substr (ev_consumed bracket) toParse) (\<lambda>rest.
         bind_partial (cx_parse body rest) (\<lambda>eval.
           case ev_result eval of
             None \<Rightarrow> no_match
           | Some m \<Rightarrow>
               let consumed = ev_consumed bracket + ev_consumed eval in
               bind_partial (if expectClose then bind_partial (substr consumed toParse) (cx_parse closing) else Some (Inr bracket)) (\<lambda>bracket'.
                 if ev_result bracket' \<noteq> None \<or> \<not> expectClose
                 then success m (consumed + ev_consumed bracket') else no_match)))
       else no_match))"

subsection \<open>Syntax clauses\<close>

text \<open>
  A clause is represented by its parser; \<open>Syntax_parse\<close> is the evaluation of a finished one. The functions of the DSL
  have names with a prefix: \<open>accept\<close> for those that start a clause, \<open>clause\<close> for those that extend one.
\<close>

definition Syntax_parse :: "'v Connex \<Rightarrow> 'v parse_fun" where
  "Syntax_parse connex toParse = bind_partial (Some (require (cx_bound connex) ''unbound recursive syntax'')) (\<lambda>_. cx_parse connex toParse)"

definition expectResult :: "ModelType \<Rightarrow> 'v Connex" where
  "expectResult res = \<lparr>cx_type = res, cx_bound = False, cx_parse = (\<lambda>_. Some (Inl (Err External ''bad_function_call'')))\<rparr>"

definition accept_opt :: "'v Connex \<Rightarrow> 'v Connex" where
  "accept_opt clauseDef = optionalConnex clauseDef"

definition accept_repeated :: "nat \<Rightarrow> nat \<Rightarrow> 'v Connex \<Rightarrow> 'v Connex \<Rightarrow> 'v Connex result" where
  "accept_repeated minRep maxRep delimDef clauseDef =
     (if maxRep < minRep then Inl (Err Invalid ''Invalid repeated syntax-spec'')
      else if maxRep = 0 then Inl (Err Invalid ''Invalid repeat with max = 0 repetitions'')
      else Inr (repeatedConnex minRep maxRep delimDef clauseDef))"

definition accept_repeated_cnt :: "nat \<Rightarrow> 'v Connex \<Rightarrow> 'v Connex \<Rightarrow> 'v Connex result" where
  "accept_repeated_cnt cnt delimDef clauseDef = accept_repeated cnt cnt delimDef clauseDef"

definition accept_repeated_any :: "'v Connex \<Rightarrow> 'v Connex \<Rightarrow> 'v Connex result" where
  "accept_repeated_any delimDef clauseDef = accept_repeated 1 (2 ^ 32 - 1) delimDef clauseDef"

definition accept_repeated_plain :: "nat \<Rightarrow> nat \<Rightarrow> 'v Connex \<Rightarrow> 'v Connex result" where
  "accept_repeated_plain minRep maxRep clauseDef = accept_repeated minRep maxRep buildConnex_null clauseDef"

definition accept_repeated_cnt_plain :: "nat \<Rightarrow> 'v Connex \<Rightarrow> 'v Connex result" where
  "accept_repeated_cnt_plain cnt clauseDef = accept_repeated_cnt cnt buildConnex_null clauseDef"

definition accept_repeated_any_plain :: "'v Connex \<Rightarrow> 'v Connex result" where
  "accept_repeated_any_plain clauseDef = accept_repeated_any buildConnex_null clauseDef"

definition accept_bracket :: "'v Connex \<Rightarrow> 'v Connex \<Rightarrow> 'v Connex \<Rightarrow> 'v Connex" where
  "accept_bracket openDef closeDef bodyDef = bracketedConnex openDef closeDef bodyDef False"

text \<open>The compilation of a regular expression from its text is a parameter.\<close>

definition bracket_chars :: "(string \<Rightarrow> regex) \<Rightarrow> string \<Rightarrow> 'v Connex \<Rightarrow> bool \<Rightarrow> 'v Connex result" where
  "bracket_chars rex bracketSpec bodyDef isOptional =
     (if length bracketSpec \<noteq> 2 then Inl (Err Invalid ''Bracket spec with opening and closing character expected'')
      else Inr (bracketedConnex (buildConnex_regex (rex (CHR 0x5C # take 1 bracketSpec)))
             (buildConnex_regex (rex (CHR 0x5C # take 1 (drop 1 bracketSpec)))) bodyDef isOptional))"

definition accept_bracket_spec :: "(string \<Rightarrow> regex) \<Rightarrow> string \<Rightarrow> 'v Connex \<Rightarrow> 'v Connex result" where
  "accept_bracket_spec rex bracketSpec bodyDef = bracket_chars rex bracketSpec bodyDef False"

definition accept_bracket_plain :: "(string \<Rightarrow> regex) \<Rightarrow> 'v Connex \<Rightarrow> 'v Connex result" where
  "accept_bracket_plain rex bodyDef = accept_bracket_spec rex ''()'' bodyDef"

definition accept_bracketOpt :: "(string \<Rightarrow> regex) \<Rightarrow> string \<Rightarrow> 'v Connex \<Rightarrow> 'v Connex result" where
  "accept_bracketOpt rex bracketSpec bodyDef = bracket_chars rex bracketSpec bodyDef True"

definition accept_bracketOpt_plain :: "(string \<Rightarrow> regex) \<Rightarrow> 'v Connex \<Rightarrow> 'v Connex result" where
  "accept_bracketOpt_plain rex bodyDef = accept_bracketOpt rex ''()'' bodyDef"

definition clause_seq :: "'v Connex \<Rightarrow> 'v Connex \<Rightarrow> 'v Connex" where
  "clause_seq this clauseDef = sequenceConnex this clauseDef"

definition clause_alt :: "'v Connex \<Rightarrow> 'v Connex \<Rightarrow> 'v Connex" where
  "clause_alt this clauseDef = branchedConnex this clauseDef"

definition clause_opt :: "'v Connex \<Rightarrow> 'v Connex \<Rightarrow> 'v Connex" where
  "clause_opt this clauseDef = clause_seq this (accept_opt clauseDef)"

text \<open>The variants of \<open>repeat\<close> with a delimiter pass on the clause in its place.\<close>

definition clause_repeat :: "'v Connex \<Rightarrow> nat \<Rightarrow> nat \<Rightarrow> 'v Connex \<Rightarrow> 'v Connex \<Rightarrow> 'v Connex result" where
  "clause_repeat this minRep maxRep delimDef clauseDef =
     bind_result (accept_repeated minRep maxRep clauseDef clauseDef) (\<lambda>c. Inr (clause_seq this c))"

definition clause_repeat_cnt :: "'v Connex \<Rightarrow> nat \<Rightarrow> 'v Connex \<Rightarrow> 'v Connex \<Rightarrow> 'v Connex result" where
  "clause_repeat_cnt this cnt delimDef clauseDef =
     bind_result (accept_repeated_cnt cnt clauseDef clauseDef) (\<lambda>c. Inr (clause_seq this c))"

definition clause_repeat_any :: "'v Connex \<Rightarrow> 'v Connex \<Rightarrow> 'v Connex \<Rightarrow> 'v Connex result" where
  "clause_repeat_any this delimDef clauseDef =
     bind_result (accept_repeated_any clauseDef clauseDef) (\<lambda>c. Inr (clause_seq this c))"

definition clause_repeat_plain :: "'v Connex \<Rightarrow> 'v Connex \<Rightarrow> 'v Connex result" where
  "clause_repeat_plain this clauseDef = bind_result (accept_repeated_any_plain clauseDef) (\<lambda>c. Inr (clause_seq this c))"

definition clause_bracket :: "'v Connex \<Rightarrow> 'v Connex \<Rightarrow> 'v Connex \<Rightarrow> 'v Connex \<Rightarrow> 'v Connex" where
  "clause_bracket this openDef closeDef bodyDef = clause_seq this (accept_bracket openDef closeDef bodyDef)"

definition clause_bracket_spec :: "(string \<Rightarrow> regex) \<Rightarrow> 'v Connex \<Rightarrow> string \<Rightarrow> 'v Connex \<Rightarrow> 'v Connex result" where
  "clause_bracket_spec rex this bracketSpec bodyDef =
     bind_result (accept_bracket_spec rex bracketSpec bodyDef) (\<lambda>c. Inr (clause_seq this c))"

definition clause_bracket_plain :: "(string \<Rightarrow> regex) \<Rightarrow> 'v Connex \<Rightarrow> 'v Connex \<Rightarrow> 'v Connex result" where
  "clause_bracket_plain rex this bodyDef = bind_result (accept_bracket_plain rex bodyDef) (\<lambda>c. Inr (clause_seq this c))"

definition clause_bracketOpt :: "(string \<Rightarrow> regex) \<Rightarrow> 'v Connex \<Rightarrow> string \<Rightarrow> 'v Connex \<Rightarrow> 'v Connex result" where
  "clause_bracketOpt rex this bracketSpec bodyDef =
     bind_result (accept_bracketOpt rex bracketSpec bodyDef) (\<lambda>c. Inr (clause_seq this c))"

definition clause_bracketOpt_plain :: "(string \<Rightarrow> regex) \<Rightarrow> 'v Connex \<Rightarrow> 'v Connex \<Rightarrow> 'v Connex result" where
  "clause_bracketOpt_plain rex this bodyDef = bind_result (accept_bracketOpt_plain rex bodyDef) (\<lambda>c. Inr (clause_seq this c))"

definition clause_bind :: "'v Connex \<Rightarrow> ModelType \<Rightarrow> ('v Model \<Rightarrow> 'v Model) \<Rightarrow> 'v Connex" where
  "clause_bind this res modelAdapt = adaptConnex res modelAdapt this"

definition clause_bindMatch :: "'v Connex \<Rightarrow> nat \<Rightarrow> 'v Connex" where
  "clause_bindMatch this grp = toStringConnex this grp"

text \<open>
  An option that does not match consumes nothing, but the text returned for it after white space is the rest of the
  input, since the length wraps. And the delimiter given to \<open>repeat\<close> has no influence.
\<close>

lemma unmatched_option_text:
  "cx_parse (clause_bindMatch (accept_opt (Connex_of TNull (\<lambda>_. no_match))) 0) '' rest'' = success (StringModel ''rest'') 0"
  by (simp add: clause_bindMatch_def accept_opt_def optionalConnex_def toStringConnex_def no_match_def success_def
      match_text_def leadingWhitespace_def is_space_def u64_def)

lemma repeat_without_delimiter: "clause_repeat this minRep maxRep d1 c = clause_repeat this minRep maxRep d2 c"
  by (simp add: clause_repeat_def)

end
