(* ===== verification/ParseGrammar.thy ===== *)
theory ParseGrammar
  imports ParseSyntax
begin

text \<open>
  What the parsers of \<open>lib/parse.hpp\<close> recognise: clauses as data, the parser built from a clause, with rules for
  recursive syntax, and the derivations of an ordered grammar as its specification, which know of rests of the
  input only. The two agree, and a parser returns where no rule calls itself without consuming input.
\<close>

subsection \<open>Clauses\<close>

datatype 'v Clause =
    CNull
  | CTerm regex
  | CSeq "'v Clause" "'v Clause"
  | CAlt "'v Clause" "'v Clause"
  | CRep nat nat "'v Clause" "'v Clause"
  | COpt "'v Clause"
  | CBracket "'v Clause" "'v Clause" "'v Clause" bool
  | CBind ModelType "'v Model \<Rightarrow> 'v Model" "'v Clause"
  | CMatch nat "'v Clause"
  | CRef nat

text \<open>The parser for a clause; a reference to a recursive rule is a reference to the parser for this rule.\<close>

primrec build :: "(nat \<Rightarrow> 'v Connex) \<Rightarrow> 'v Clause \<Rightarrow> 'v Connex" where
  "build env CNull = buildConnex_null"
| "build env (CTerm rex) = buildConnex_regex rex"
| "build env (CSeq a b) = clause_seq (build env a) (build env b)"
| "build env (CAlt a b) = clause_alt (build env a) (build env b)"
| "build env (CRep minRep maxRep d c) = repeatedConnex minRep maxRep (build env d) (build env c)"
| "build env (COpt c) = accept_opt (build env c)"
| "build env (CBracket a z c isOptional) = bracketedConnex (build env a) (build env z) (build env c) isOptional"
| "build env (CBind t f c) = clause_bind (build env c) t f"
| "build env (CMatch part c) = clause_bindMatch (build env c) part"
| "build env (CRef k) = env k"

text \<open>
  Recursive rules, pre-declared with their model type: the parser for rule \<open>k\<close> within \<open>n\<close> levels of
  recursion; beyond, it does not return.
\<close>

primrec rule_env :: "(nat \<Rightarrow> ModelType) \<Rightarrow> (nat \<Rightarrow> 'v Clause) \<Rightarrow> nat \<Rightarrow> nat \<Rightarrow> 'v Connex" where
  "rule_env types rules 0 k = Connex_of (types k) (\<lambda>_. None)"
| "rule_env types rules (Suc n) k = Connex_of (types k) (cx_parse (build (rule_env types rules n) (rules k)))"

definition parse_with :: "(nat \<Rightarrow> ModelType) \<Rightarrow> (nat \<Rightarrow> 'v Clause) \<Rightarrow> nat \<Rightarrow> 'v Clause \<Rightarrow> 'v parse_fun" where
  "parse_with types rules n c = cx_parse (build (rule_env types rules n) c)"

primrec clause_type :: "(nat \<Rightarrow> ModelType) \<Rightarrow> 'v Clause \<Rightarrow> ModelType" where
  "clause_type types CNull = TNull"
| "clause_type types (CTerm rex) = TMatch"
| "clause_type types (CSeq a b) = seq_type (clause_type types a)"
| "clause_type types (CAlt a b) = alt_type (clause_type types a)"
| "clause_type types (CRep minRep maxRep d c) = TIter"
| "clause_type types (COpt c) = TOpt"
| "clause_type types (CBracket a z c isOptional) = clause_type types c"
| "clause_type types (CBind t f c) = t"
| "clause_type types (CMatch part c) = TString"
| "clause_type types (CRef k) = types k"

lemma build_type: "(\<And>k. cx_type (env k) = types k) \<Longrightarrow> cx_type (build env c) = clause_type types c"
  by (induction c) (simp_all add: buildConnex_null_def buildConnex_regex_def clause_seq_def sequenceConnex_def clause_alt_def
      branchedConnex_def repeatedConnex_def accept_opt_def optionalConnex_def bracketedConnex_def clause_bind_def
      adaptConnex_def clause_bindMatch_def toStringConnex_def)

lemma rule_env_type [simp]: "cx_type (rule_env types rules n k) = types k"
  by (cases n) simp_all

lemmas build_rule_type [simp] = build_type [of "rule_env types rules n" types for types rules n, OF rule_env_type]

subsection \<open>Derivations\<close>

text \<open>
  A clause derives a model and the rest of the input, or nothing. The first alternative that
  matches is taken; a repetition goes on as long as it can.
\<close>

inductive peg :: "(nat \<Rightarrow> ModelType) \<Rightarrow> (nat \<Rightarrow> 'v Clause) \<Rightarrow> 'v Clause \<Rightarrow> string \<Rightarrow> ('v Model \<times> string) option \<Rightarrow> bool"
  and peg_rep :: "(nat \<Rightarrow> ModelType) \<Rightarrow> (nat \<Rightarrow> 'v Clause) \<Rightarrow> nat \<Rightarrow> bool \<Rightarrow> 'v Clause \<Rightarrow> 'v Clause \<Rightarrow> string \<Rightarrow> 'v Model list \<Rightarrow> string \<Rightarrow> bool"
  for types rules where
  peg_null: "peg types rules CNull s (Some (NullModel, s))"
| peg_term: "rex (skip_space s) = Some g \<Longrightarrow> peg types rules (CTerm rex) s (Some (MatchModel g, drop (length (hd g)) (skip_space s)))"
| peg_term_fail: "rex (skip_space s) = None \<Longrightarrow> peg types rules (CTerm rex) s None"
| peg_seq: "peg types rules a s (Some (m1, r)) \<Longrightarrow> peg types rules b r (Some (m2, q))
    \<Longrightarrow> peg types rules (CSeq a b) s (Some (seq_model (clause_type types a) m1 m2, q))"
| peg_seq_fail1: "peg types rules a s None \<Longrightarrow> peg types rules (CSeq a b) s None"
| peg_seq_fail2: "peg types rules a s (Some (m1, r)) \<Longrightarrow> peg types rules b r None \<Longrightarrow> peg types rules (CSeq a b) s None"
| peg_left: "peg types rules a s (Some (m, r)) \<Longrightarrow> peg types rules (CAlt a b) s (Some (mark_left (clause_type types a) m, r))"
| peg_right: "peg types rules a s None \<Longrightarrow> peg types rules b s (Some (m, r))
    \<Longrightarrow> peg types rules (CAlt a b) s (Some (mark_right (clause_type types a) m, r))"
| peg_alt_fail: "peg types rules a s None \<Longrightarrow> peg types rules b s None \<Longrightarrow> peg types rules (CAlt a b) s None"
| peg_repeat: "peg_rep types rules (max 1 maxRep) True d c s ms r
    \<Longrightarrow> peg types rules (CRep minRep maxRep d c) s (if minRep \<le> length ms then Some (IterModel ms, r) else None)"
| peg_opt: "peg types rules c s (Some (m, r)) \<Longrightarrow> peg types rules (COpt c) s (Some (OptModel (Some m), r))"
| peg_opt_none: "peg types rules c s None \<Longrightarrow> peg types rules (COpt c) s (Some (OptModel None, s))"
| peg_bracket: "peg types rules a s (Some (m0, r)) \<Longrightarrow> peg types rules c r (Some (m, q)) \<Longrightarrow> peg types rules z q (Some (m1, t))
    \<Longrightarrow> peg types rules (CBracket a z c isOptional) s (Some (m, t))"
| peg_bracket_body: "peg types rules a s (Some (m0, r)) \<Longrightarrow> peg types rules c r None
    \<Longrightarrow> peg types rules (CBracket a z c isOptional) s None"
| peg_bracket_open: "peg types rules a s (Some (m0, r)) \<Longrightarrow> peg types rules c r (Some (m, q)) \<Longrightarrow> peg types rules z q None
    \<Longrightarrow> peg types rules (CBracket a z c isOptional) s None"
| peg_bracket_none: "peg types rules a s None \<Longrightarrow> peg types rules (CBracket a z c False) s None"
| peg_bracket_omit: "peg types rules a s None \<Longrightarrow> peg types rules c s res \<Longrightarrow> peg types rules (CBracket a z c True) s res"
| peg_bind: "peg types rules c s (Some (m, r)) \<Longrightarrow> peg types rules (CBind t f c) s (Some (f m, r))"
| peg_bind_fail: "peg types rules c s None \<Longrightarrow> peg types rules (CBind t f c) s None"
| peg_match: "peg types rules c s (Some (m, r)) \<Longrightarrow> peg types rules (CMatch part c) s
    (Some (StringModel (match_text (clause_type types c) part m s (length s - length r)), r))"
| peg_match_fail: "peg types rules c s None \<Longrightarrow> peg types rules (CMatch part c) s None"
| peg_ref: "peg types rules (rules k) s res \<Longrightarrow> peg types rules (CRef k) s res"
| rep_max: "peg_rep types rules 0 first d c s [] s"
| rep_none: "peg types rules c s None \<Longrightarrow> peg_rep types rules (Suc k) True d c s [] s"
| rep_first: "peg types rules c s (Some (m, r)) \<Longrightarrow> peg_rep types rules k False d c r ms q
    \<Longrightarrow> peg_rep types rules (Suc k) True d c s (m # ms) q"
| rep_end: "peg types rules d s None \<Longrightarrow> peg_rep types rules (Suc k) False d c s [] s"
| rep_trail: "peg types rules d s (Some (m0, t)) \<Longrightarrow> peg types rules c t None \<Longrightarrow> peg_rep types rules (Suc k) False d c s [] s"
| rep_next: "peg types rules d s (Some (m0, t)) \<Longrightarrow> peg types rules c t (Some (m, r)) \<Longrightarrow> peg_rep types rules k False d c r ms q
    \<Longrightarrow> peg_rep types rules (Suc k) False d c s (m # ms) q"

lemmas peg_rep_intros = rep_max rep_none rep_first rep_end rep_trail rep_next

text \<open>A match of a regular expression is what the input starts with.\<close>

primrec clause_ok :: "'v Clause \<Rightarrow> bool" where
  "clause_ok CNull = True"
| "clause_ok (CTerm rex) = (\<forall>s g. rex s = Some g \<longrightarrow> g \<noteq> [] \<and> prefix (hd g) s)"
| "clause_ok (CSeq a b) = (clause_ok a \<and> clause_ok b)"
| "clause_ok (CAlt a b) = (clause_ok a \<and> clause_ok b)"
| "clause_ok (CRep minRep maxRep d c) = (clause_ok d \<and> clause_ok c)"
| "clause_ok (COpt c) = clause_ok c"
| "clause_ok (CBracket a z c isOptional) = (clause_ok a \<and> clause_ok z \<and> clause_ok c)"
| "clause_ok (CBind t f c) = clause_ok c"
| "clause_ok (CMatch part c) = clause_ok c"
| "clause_ok (CRef k) = True"

definition outcome :: "string \<Rightarrow> ('v Model \<times> string) option \<Rightarrow> 'v Eval" where
  "outcome s res = (case res of
     None \<Rightarrow> \<lparr>ev_result = None, ev_consumed = 0\<rparr>
   | Some (m, r) \<Rightarrow> \<lparr>ev_result = Some m, ev_consumed = length s - length r\<rparr>)"

subsection \<open>The combinators on sub-parsers that agree\<close>

definition parses :: "'v Connex \<Rightarrow> string \<Rightarrow> ('v Model \<times> string) option \<Rightarrow> bool" where
  "parses cx s res \<longleftrightarrow> cx_parse cx s = Some (Inr (outcome s res)) \<and> (\<forall>m r. res = Some (m, r) \<longrightarrow> suffix r s)"

named_theorems parses_rules

lemma outcome_simps [simp]:
  "ev_result (outcome s None) = None" "ev_consumed (outcome s None) = 0"
  "ev_result (outcome s (Some (m, r))) = Some m" "ev_consumed (outcome s (Some (m, r))) = length s - length r"
  by (simp_all add: outcome_def)

lemma success_outcome: "success m (length s - length r) = Some (Inr (outcome s (Some (m, r))))"
  by (simp add: success_def outcome_def)

lemma no_match_outcome: "no_match = Some (Inr (outcome s None))"
  by (simp add: no_match_def outcome_def)

lemma substr_suffix: "suffix r s \<Longrightarrow> substr (length s - length r) s = Some (Inr r)"
  by (auto simp: substr_def suffix_def)

lemma suffix_consumed: "suffix r s \<Longrightarrow> suffix q r \<Longrightarrow> length s - length r + (length r - length q) = length s - length q"
  using suffix_length_le [of r s] suffix_length_le [of q r] by simp

lemma uint_of_small: "n \<le> length s \<Longrightarrow> length s < 2 ^ 32 \<Longrightarrow> uint_of n = n"
  by (simp add: uint_of_def)

lemma uint_of_consumed: "length s < 2 ^ 32 \<Longrightarrow> uint_of (length s - length r) = length s - length r"
  by (rule uint_of_small) simp_all

lemma parses_null [parses_rules]: "parses buildConnex_null s (Some (NullModel, s))"
  using success_outcome [of NullModel s s] by (simp add: parses_def buildConnex_null_def)

lemma skip_space_drop: "substr (leadingWhitespace s) s = Some (Inr (skip_space s))" "suffix (skip_space s) s"
  "leadingWhitespace s = length s - length (skip_space s)"
proof -
  have split: "s = takeWhile is_space s @ skip_space s" by (simp add: skip_space_def)
  then show "suffix (skip_space s) s" by (metis suffixI)
  have "length s = leadingWhitespace s + length (skip_space s)" using split unfolding leadingWhitespace_def by (metis length_append)
  then show l: "leadingWhitespace s = length s - length (skip_space s)" by simp
  show "substr (leadingWhitespace s) s = Some (Inr (skip_space s))"
    unfolding l by (rule substr_suffix) (rule \<open>suffix (skip_space s) s\<close>)
qed

lemma parses_term [parses_rules]:
  assumes "clause_ok (CTerm rex)"
  shows "rex (skip_space s) = Some g \<Longrightarrow> parses (buildConnex_regex rex) s (Some (MatchModel g, drop (length (hd g)) (skip_space s)))"
    "rex (skip_space s) = None \<Longrightarrow> parses (buildConnex_regex rex) s None"
proof -
  show "parses (buildConnex_regex rex) s None" if "rex (skip_space s) = None"
    using that by (simp add: parses_def buildConnex_regex_def skip_space_drop(1) Let_def no_match_outcome [of s])
  assume g: "rex (skip_space s) = Some g"
  then have "prefix (hd g) (skip_space s)" using assms by simp
  then have len: "length (hd g) \<le> length (skip_space s)" by (rule prefix_length_le)
  let ?r = "drop (length (hd g)) (skip_space s)"
  have suf: "suffix ?r s" using suffix_drop skip_space_drop(2) suffix_order.trans by blast
  have "leadingWhitespace s + length (hd g) = length s - length ?r"
    using len skip_space_drop(3) [of s] suffix_length_le [OF skip_space_drop(2) [of s]] by simp
  then show "parses (buildConnex_regex rex) s (Some (MatchModel g, ?r))"
    using g suf success_outcome [of "MatchModel g" s ?r]
    by (simp add: parses_def buildConnex_regex_def skip_space_drop(1) Let_def)
qed

lemma parses_seq [parses_rules]:
  assumes "length s < 2 ^ 32"
  shows "parses a s (Some (m1, r)) \<Longrightarrow> parses b r (Some (m2, q)) \<Longrightarrow> parses (sequenceConnex a b) s (Some (seq_model (cx_type a) m1 m2, q))"
    "parses a s None \<Longrightarrow> parses (sequenceConnex a b) s None"
    "parses a s (Some (m1, r)) \<Longrightarrow> parses b r None \<Longrightarrow> parses (sequenceConnex a b) s None"
    "cx_parse a s = None \<Longrightarrow> cx_parse (sequenceConnex a b) s = None"
    "parses a s (Some (m1, r)) \<Longrightarrow> cx_parse b r = None \<Longrightarrow> cx_parse (sequenceConnex a b) s = None"
  using assms
  by (auto simp: parses_def sequenceConnex_def substr_suffix suffix_consumed uint_of_consumed success_outcome no_match_outcome [of s]
      intro: suffix_order.trans)

lemma parses_alt [parses_rules]:
  assumes "length s < 2 ^ 32"
  shows "parses a s (Some (m, r)) \<Longrightarrow> parses (branchedConnex a b) s (Some (mark_left (cx_type a) m, r))"
    "parses a s None \<Longrightarrow> parses b s (Some (m, r)) \<Longrightarrow> parses (branchedConnex a b) s (Some (mark_right (cx_type a) m, r))"
    "parses a s None \<Longrightarrow> parses b s None \<Longrightarrow> parses (branchedConnex a b) s None"
    "cx_parse a s = None \<Longrightarrow> cx_parse (branchedConnex a b) s = None"
    "parses a s None \<Longrightarrow> cx_parse b s = None \<Longrightarrow> cx_parse (branchedConnex a b) s = None"
  using assms
  by (auto simp: parses_def branchedConnex_def uint_of_consumed success_outcome no_match_outcome [of s])

lemma parses_opt [parses_rules]:
  "parses c s (Some (m, r)) \<Longrightarrow> parses (optionalConnex c) s (Some (OptModel (Some m), r))"
  "parses c s None \<Longrightarrow> parses (optionalConnex c) s (Some (OptModel None, s))"
  "cx_parse c s = None \<Longrightarrow> cx_parse (optionalConnex c) s = None"
  using success_outcome [of "OptModel None" s s]
  by (auto simp: parses_def optionalConnex_def success_outcome)

lemma parses_bracket [parses_rules]:
  "parses a s (Some (m0, r)) \<Longrightarrow> parses c r (Some (m, q)) \<Longrightarrow> parses z q (Some (m1, t)) \<Longrightarrow> parses (bracketedConnex a z c opt) s (Some (m, t))"
  "parses a s (Some (m0, r)) \<Longrightarrow> parses c r None \<Longrightarrow> parses (bracketedConnex a z c opt) s None"
  "parses a s (Some (m0, r)) \<Longrightarrow> parses c r (Some (m, q)) \<Longrightarrow> parses z q None \<Longrightarrow> parses (bracketedConnex a z c opt) s None"
  "parses a s None \<Longrightarrow> parses (bracketedConnex a z c False) s None"
  "parses a s None \<Longrightarrow> parses c s res \<Longrightarrow> parses (bracketedConnex a z c True) s res"
  "cx_parse a s = None \<Longrightarrow> cx_parse (bracketedConnex a z c opt) s = None"
  "parses a s (Some (m0, r)) \<Longrightarrow> cx_parse c r = None \<Longrightarrow> cx_parse (bracketedConnex a z c opt) s = None"
  "parses a s (Some (m0, r)) \<Longrightarrow> parses c r (Some (m, q)) \<Longrightarrow> cx_parse z q = None \<Longrightarrow> cx_parse (bracketedConnex a z c opt) s = None"
  "parses a s None \<Longrightarrow> cx_parse c s = None \<Longrightarrow> cx_parse (bracketedConnex a z c True) s = None"
proof -
  assume a: "parses a s (Some (m0, r))"
  then have r: "suffix r s" by (simp add: parses_def)
  show "parses (bracketedConnex a z c opt) s None" if "parses c r None"
    using a that by (simp add: parses_def bracketedConnex_def Let_def substr_suffix no_match_outcome [of s])
  show "cx_parse (bracketedConnex a z c opt) s = None" if "cx_parse c r = None"
    using a that by (simp add: parses_def bracketedConnex_def Let_def substr_suffix)
  assume c: "parses c r (Some (m, q))"
  then have q: "suffix q r" "suffix q s" using r by (auto simp: parses_def intro: suffix_order.trans)
  note sum = suffix_consumed [OF r q(1)] substr_suffix [OF q(2)]
  show "parses (bracketedConnex a z c opt) s None" if "parses z q None"
    using a c that sum by (simp add: parses_def bracketedConnex_def Let_def substr_suffix no_match_outcome [of s])
  show "cx_parse (bracketedConnex a z c opt) s = None" if "cx_parse z q = None"
    using a c that sum by (simp add: parses_def bracketedConnex_def Let_def substr_suffix)
  assume z: "parses z q (Some (m1, t))"
  then have t: "suffix t q" "suffix t s" using q by (auto simp: parses_def intro: suffix_order.trans)
  show "parses (bracketedConnex a z c opt) s (Some (m, t))"
    using a c z t(2) sum suffix_consumed [OF q(2) t(1)]
    by (simp add: parses_def bracketedConnex_def Let_def substr_suffix success_outcome)
next
  assume a: "parses a s None"
  have s: "substr 0 s = Some (Inr s)" by (simp add: substr_def)
  show "parses (bracketedConnex a z c False) s None" using a by (simp add: parses_def bracketedConnex_def no_match_outcome [of s])
  show "cx_parse (bracketedConnex a z c True) s = None" if "cx_parse c s = None"
    using a that s by (simp add: parses_def bracketedConnex_def Let_def)
  show "parses (bracketedConnex a z c True) s res" if "parses c s res"
    using a that s by (cases res) (auto simp: parses_def bracketedConnex_def Let_def success_outcome no_match_outcome [of s])
next
  show "cx_parse (bracketedConnex a z c opt) s = None" if "cx_parse a s = None" using that by (simp add: bracketedConnex_def)
qed

lemma parses_bind [parses_rules]:
  "parses c s (Some (m, r)) \<Longrightarrow> parses (adaptConnex t f c) s (Some (f m, r))"
  "parses c s None \<Longrightarrow> parses (adaptConnex t f c) s None"
  "cx_parse c s = None \<Longrightarrow> cx_parse (adaptConnex t f c) s = None"
  by (simp_all add: parses_def adaptConnex_def success_outcome no_match_outcome [of s])

lemma parses_match [parses_rules]:
  "parses c s (Some (m, r)) \<Longrightarrow> parses (toStringConnex c part) s
     (Some (StringModel (match_text (cx_type c) part m s (length s - length r)), r))"
  "parses c s None \<Longrightarrow> parses (toStringConnex c part) s None"
  "cx_parse c s = None \<Longrightarrow> cx_parse (toStringConnex c part) s = None"
  by (simp_all add: parses_def toStringConnex_def success_outcome no_match_outcome [of s])

text \<open>The loop of a repetition, resumed after an iteration.\<close>

definition rep_cont :: "nat \<Rightarrow> 'v Connex \<Rightarrow> 'v Connex \<Rightarrow> nat \<Rightarrow> 'v Model list \<Rightarrow> string \<Rightarrow> (nat \<times> 'v Model list) partial_result" where
  "rep_cont mx d c n results s =
     (if results = [] \<or> length results < mx then rep_loop mx (cx_parse d) (cx_parse c) n results s else Some (Inr (n, results)))"

lemma rep_stop: "results \<noteq> [] \<Longrightarrow> mx \<le> length results \<Longrightarrow> rep_cont mx d c n results s = Some (Inr (n, results))"
  by (simp add: rep_cont_def)

lemma rep_first_step:
  assumes "length s < 2 ^ 32"
  shows "parses c s None \<Longrightarrow> rep_cont mx d c n [] s = Some (Inr (n, []))"
    "parses c s (Some (m, r)) \<Longrightarrow> rep_cont mx d c n [] s = rep_cont mx d c (n + (length s - length r)) [m] r"
    "cx_parse c s = None \<Longrightarrow> rep_cont mx d c n [] s = None"
proof -
  note unfold = rep_cont_def [of mx d c n "[]" s] rep_loop.simps [of mx "cx_parse d" "cx_parse c" n "[]" s]
  have s: "substr 0 s = Some (Inr s)" by (simp add: substr_def)
  show "rep_cont mx d c n [] s = Some (Inr (n, []))" if "parses c s None"
    using that by (simp add: unfold rep_offset_def s parses_def)
  show "rep_cont mx d c n [] s = None" if "cx_parse c s = None"
    using that by (simp add: unfold rep_offset_def s)
  show "rep_cont mx d c n [] s = rep_cont mx d c (n + (length s - length r)) [m] r" if "parses c s (Some (m, r))"
    using that assms by (simp add: unfold rep_offset_def s parses_def uint_of_consumed substr_suffix Let_def rep_cont_def)
qed

lemma rep_next_step:
  assumes s: "length s < 2 ^ 32" and go: "results \<noteq> []" "length results < mx"
  shows "parses d s None \<Longrightarrow> rep_cont mx d c n results s = Some (Inr (n, results))"
    "parses d s (Some (m0, t)) \<Longrightarrow> parses c t None \<Longrightarrow> rep_cont mx d c n results s = Some (Inr (n, results))"
    "parses d s (Some (m0, t)) \<Longrightarrow> parses c t (Some (m, r)) \<Longrightarrow>
       rep_cont mx d c n results s = rep_cont mx d c (n + (length s - length r)) (results @ [m]) r"
    "cx_parse d s = None \<Longrightarrow> rep_cont mx d c n results s = None"
    "parses d s (Some (m0, t)) \<Longrightarrow> cx_parse c t = None \<Longrightarrow> rep_cont mx d c n results s = None"
proof -
  note unfold = rep_cont_def [of mx d c n results s] rep_loop.simps [of mx "cx_parse d" "cx_parse c" n results s]
  show "rep_cont mx d c n results s = Some (Inr (n, results))" if "parses d s None"
    using go that by (simp add: unfold rep_offset_def parses_def)
  show "rep_cont mx d c n results s = None" if "cx_parse d s = None"
    using go that by (simp add: unfold rep_offset_def)
  assume d: "parses d s (Some (m0, t))"
  then have t: "suffix t s" by (simp add: parses_def)
  have off: "rep_offset (cx_parse d) results s = Some (Inr (Some (length s - length t)))"
    using d go s by (simp add: rep_offset_def parses_def uint_of_consumed)
  show "rep_cont mx d c n results s = Some (Inr (n, results))" if "parses c t None"
    using go off t that by (simp add: unfold parses_def substr_suffix)
  show "rep_cont mx d c n results s = None" if "cx_parse c t = None"
    using go off t that by (simp add: unfold substr_suffix)
  assume c: "parses c t (Some (m, r))"
  then have r: "suffix r t" "suffix r s" using t by (auto simp: parses_def intro: suffix_order.trans)
  show "rep_cont mx d c n results s = rep_cont mx d c (n + (length s - length r)) (results @ [m]) r"
    using go off t c r s suffix_consumed [OF t r(1)]
    by (simp add: unfold parses_def substr_suffix uint_of_consumed Let_def rep_cont_def)
qed

lemma parses_repeat:
  "rep_cont mx d c 0 [] s = Some (Inr (length s - length r, ms)) \<Longrightarrow> suffix r s
     \<Longrightarrow> parses (repeatedConnex mn mx d c) s (if mn \<le> length ms then Some (IterModel ms, r) else None)"
  "rep_cont mx d c 0 [] s = None \<Longrightarrow> cx_parse (repeatedConnex mn mx d c) s = None"
  by (simp_all add: rep_cont_def parses_def repeatedConnex_def success_outcome no_match_outcome [of s])

subsection \<open>The parser derives, and finds every derivation\<close>

definition agrees :: "(nat \<Rightarrow> ModelType) \<Rightarrow> (nat \<Rightarrow> 'v Clause) \<Rightarrow> 'v Connex \<Rightarrow> 'v Clause \<Rightarrow> string \<Rightarrow> bool" where
  "agrees types rules cx c s \<longleftrightarrow> cx_parse cx s = None \<or> (\<exists>res. peg types rules c s res \<and> parses cx s res)"

lemma agreesI: "peg types rules c s res \<Longrightarrow> parses cx s res \<Longrightarrow> agrees types rules cx c s"
  by (auto simp: agrees_def)

lemma agrees_none: "cx_parse cx s = None \<Longrightarrow> agrees types rules cx c s"
  by (simp add: agrees_def)

lemma agreesE:
  assumes "agrees types rules cx c s"
  obtains (stuck) "cx_parse cx s = None"
    | (fail) "peg types rules c s None" "parses cx s None"
    | (match) m r where "peg types rules c s (Some (m, r))" "parses cx s (Some (m, r))" "length r \<le> length s"
proof -
  consider "cx_parse cx s = None" | res where "peg types rules c s res" "parses cx s res"
    using assms by (auto simp: agrees_def)
  then show thesis
  proof cases
    case 1 then show thesis by (rule stuck)
  next
    case (2 res)
    show thesis
    proof (cases res)
      case None then show thesis using 2 fail by simp
    next
      case (Some p)
      then show thesis using 2 by (cases p) (auto simp: parses_def intro: match suffix_length_le)
    qed
  qed
qed

definition rep_yields :: "(nat \<Rightarrow> ModelType) \<Rightarrow> (nat \<Rightarrow> 'v Clause) \<Rightarrow> nat \<Rightarrow> bool \<Rightarrow> 'v Clause \<Rightarrow> 'v Clause \<Rightarrow> string
    \<Rightarrow> nat \<Rightarrow> 'v Model list \<Rightarrow> (nat \<times> 'v Model list) partial_result \<Rightarrow> bool" where
  "rep_yields types rules k first d c s n results res \<longleftrightarrow> res = None \<or>
     (\<exists>ms r. peg_rep types rules k first d c s ms r \<and> suffix r s \<and> res = Some (Inr (n + (length s - length r), results @ ms)))"

lemma rep_yields_stop: "peg_rep types rules k first d c s [] s \<Longrightarrow> rep_yields types rules k first d c s n results (Some (Inr (n, results)))"
  unfolding rep_yields_def by (intro disjI2 exI [of _ "[]"] exI [of _ s]) simp

lemma rep_yields_next:
  assumes "rep_yields types rules k False d c r (n + (length s - length r)) (results @ [m]) res" "suffix r s"
    and "\<And>ms q. peg_rep types rules k False d c r ms q \<Longrightarrow> peg_rep types rules k' first d c s (m # ms) q"
  shows "rep_yields types rules k' first d c s n results res"
proof (cases res)
  case (Some x)
  then obtain ms q where q: "peg_rep types rules k False d c r ms q" "suffix q r"
      "res = Some (Inr (n + (length s - length r) + (length r - length q), (results @ [m]) @ ms))"
    using assms(1) by (auto simp: rep_yields_def)
  have "peg_rep types rules k' first d c s (m # ms) q" "suffix q s"
    using assms q by (auto intro: suffix_order.trans)
  then show ?thesis unfolding rep_yields_def
    using q(3) suffix_consumed [OF assms(2) q(2)] by (intro disjI2 exI [of _ "m # ms"] exI [of _ q]) simp
qed (simp add: rep_yields_def)

lemma rep_agrees:
  assumes d: "\<And>s. length s < 2 ^ 32 \<Longrightarrow> agrees types rules dx d s"
    and c: "\<And>s. length s < 2 ^ 32 \<Longrightarrow> agrees types rules cx c s"
  shows "length s < 2 ^ 32 \<Longrightarrow> results \<noteq> [] \<Longrightarrow> mx - length results = k
    \<Longrightarrow> rep_yields types rules k False d c s n results (rep_cont mx dx cx n results s)"
proof (induction k arbitrary: n results s)
  case 0
  then show ?case by (simp add: rep_stop rep_yields_stop rep_max)
next
  case (Suc k)
  then have go: "length results < mx" by simp
  note step = rep_next_step [OF Suc.prems(1,2) go]
  from d [OF Suc.prems(1)] show ?case
  proof (cases rule: agreesE)
    case stuck then show ?thesis by (simp add: step(4) rep_yields_def)
  next
    case fail then show ?thesis by (simp add: step(1) rep_yields_stop rep_end)
  next
    case (match m0 t)
    note dt = match
    then have t: "length t < 2 ^ 32" using Suc.prems(1) by simp
    from c [OF t] show ?thesis
    proof (cases rule: agreesE)
      case stuck then show ?thesis using step(5) [OF dt(2)] by (simp add: rep_yields_def)
    next
      case fail then show ?thesis using dt by (simp add: step(2) rep_yields_stop rep_trail)
    next
      case (match m r)
      have suf: "suffix r s" using dt(2) match(2) by (auto simp: parses_def intro: suffix_order.trans)
      have "rep_yields types rules k False d c r (n + (length s - length r)) (results @ [m])
          (rep_cont mx dx cx (n + (length s - length r)) (results @ [m]) r)"
        by (rule Suc.IH) (use t match(3) Suc.prems(3) in simp_all)
      then show ?thesis unfolding step(3) [OF dt(2) match(2)]
        by (rule rep_yields_next [OF _ suf]) (rule rep_next [OF dt(1) match(1)])
    qed
  qed
qed

lemma rep_agrees_first:
  assumes d: "\<And>s. length s < 2 ^ 32 \<Longrightarrow> agrees types rules dx d s"
    and c: "\<And>s. length s < 2 ^ 32 \<Longrightarrow> agrees types rules cx c s"
    and s: "length s < 2 ^ 32"
  shows "rep_yields types rules (max 1 mx) True d c s 0 [] (rep_cont mx dx cx 0 [] s)"
proof -
  obtain k where k: "max 1 mx = Suc k" "mx - 1 = k" by (cases mx) simp_all
  note step = rep_first_step [OF s]
  from c [OF s] show ?thesis
  proof (cases rule: agreesE)
    case stuck then show ?thesis by (simp add: step(3) rep_yields_def)
  next
    case fail then show ?thesis unfolding k by (simp add: step(1) rep_yields_stop rep_none)
  next
    case (match m r)
    have "rep_yields types rules k False d c r (0 + (length s - length r)) ([] @ [m]) (rep_cont mx dx cx (0 + (length s - length r)) [m] r)"
      unfolding append_Nil by (rule rep_agrees [OF d c]) (use match(3) s k in simp_all)
    then show ?thesis unfolding step(2) [OF match(2)] k
      by (rule rep_yields_next [where m = m]) (use match(2) in \<open>simp_all add: parses_def rep_first [OF match(1)]\<close>)
  qed
qed

lemma agrees_repeat:
  assumes "rep_yields types rules (max 1 mx) True d c s 0 [] (rep_cont mx dx cx 0 [] s)"
  shows "agrees types rules (repeatedConnex mn mx dx cx) (CRep mn mx d c) s"
proof (cases "rep_cont mx dx cx 0 [] s")
  case None
  then show ?thesis by (intro agrees_none parses_repeat)
next
  case (Some x)
  then obtain ms r where r: "peg_rep types rules (max 1 mx) True d c s ms r" "suffix r s"
      "rep_cont mx dx cx 0 [] s = Some (Inr (length s - length r, ms))"
    using assms by (auto simp: rep_yields_def)
  show ?thesis by (rule agreesI [OF peg_repeat [OF r(1)] parses_repeat(1) [OF r(3,2)]])
qed

lemma agrees_combined:
  assumes s: "length s < 2 ^ 32"
    and a: "\<And>s. length s < 2 ^ 32 \<Longrightarrow> agrees types rules ax a s"
    and b: "\<And>s. length s < 2 ^ 32 \<Longrightarrow> agrees types rules bx b s"
    and ty: "cx_type ax = clause_type types a"
  shows "agrees types rules (sequenceConnex ax bx) (CSeq a b) s"
    and "agrees types rules (branchedConnex ax bx) (CAlt a b) s"
proof -
  note seq = parses_seq [OF s] and alt = parses_alt [OF s]
  show "agrees types rules (sequenceConnex ax bx) (CSeq a b) s"
    using a [OF s]
  proof (cases rule: agreesE)
    case stuck then show ?thesis by (intro agrees_none seq)
  next
    case fail then show ?thesis by (blast intro: agreesI peg_seq_fail1 seq)
  next
    case (match m r)
    note am = match
    have "length r < 2 ^ 32" using am(3) s by simp
    from b [OF this] show ?thesis
    proof (cases rule: agreesE)
      case stuck then show ?thesis using am(2) by (intro agrees_none seq)
    next
      case fail then show ?thesis by (blast intro: agreesI peg_seq_fail2 am seq)
    next
      case (match m' q)
      then show ?thesis using agreesI [OF peg_seq [OF am(1) match(1)] seq(1) [OF am(2) match(2), unfolded ty]] by simp
    qed
  qed
  show "agrees types rules (branchedConnex ax bx) (CAlt a b) s"
    using a [OF s]
  proof (cases rule: agreesE)
    case stuck then show ?thesis by (intro agrees_none alt)
  next
    case (match m r)
    then show ?thesis using agreesI [OF peg_left [OF match(1)] alt(1) [OF match(2), unfolded ty]] by simp
  next
    case fail
    note af = fail
    from b [OF s] show ?thesis
    proof (cases rule: agreesE)
      case stuck then show ?thesis using af(2) by (intro agrees_none alt)
    next
      case fail then show ?thesis by (blast intro: agreesI peg_alt_fail af alt)
    next
      case (match m r)
      then show ?thesis using agreesI [OF peg_right [OF af(1) match(1)] alt(2) [OF af(2) match(2), unfolded ty]] by simp
    qed
  qed
qed

lemma agrees_bracket:
  assumes s: "length s < 2 ^ 32"
    and a: "\<And>s. length s < 2 ^ 32 \<Longrightarrow> agrees types rules ax a s"
    and c: "\<And>s. length s < 2 ^ 32 \<Longrightarrow> agrees types rules cx c s"
    and z: "\<And>s. length s < 2 ^ 32 \<Longrightarrow> agrees types rules zx z s"
  shows "agrees types rules (bracketedConnex ax zx cx isOptional) (CBracket a z c isOptional) s"
  using a [OF s]
proof (cases rule: agreesE)
  case stuck then show ?thesis by (intro agrees_none parses_bracket)
next
  case fail
  show ?thesis
  proof (cases isOptional)
    case True
    have "agrees types rules (bracketedConnex ax zx cx True) (CBracket a z c True) s"
      using c [OF s] unfolding agrees_def [of types rules cx]
      by (blast intro: agrees_none agreesI peg_bracket_omit fail parses_bracket)
    then show ?thesis using True by simp
  next
    case False
    then show ?thesis using agreesI [OF peg_bracket_none [OF fail(1)] parses_bracket(4) [OF fail(2)]] by simp
  qed
next
  case (match m0 r)
  note am = match
  have r: "length r < 2 ^ 32" using am(3) s by simp
  from c [OF r] show ?thesis
  proof (cases rule: agreesE)
    case stuck then show ?thesis using am(2) by (intro agrees_none parses_bracket(7))
  next
    case fail then show ?thesis by (blast intro: agreesI peg_bracket_body am parses_bracket(2))
  next
    case (match m q)
    note cm = match
    have "length q < 2 ^ 32" using cm(3) r by simp
    from z [OF this] show ?thesis
    proof (cases rule: agreesE)
      case stuck then show ?thesis using am(2) cm(2) by (intro agrees_none parses_bracket(8))
    next
      case fail then show ?thesis by (blast intro: agreesI peg_bracket_open am cm parses_bracket(3))
    next
      case (match m1 t) then show ?thesis by (blast intro: agreesI peg_bracket am cm parses_bracket(1))
    qed
  qed
qed

lemmas clause_defs = clause_seq_def clause_alt_def accept_opt_def clause_bind_def clause_bindMatch_def

lemma agrees_adapted:
  assumes "agrees types rules cx c s"
  shows "agrees types rules (optionalConnex cx) (COpt c) s"
    and "agrees types rules (adaptConnex t f cx) (CBind t f c) s"
    and "cx_type cx = clause_type types c \<Longrightarrow> agrees types rules (toStringConnex cx part) (CMatch part c) s"
proof -
  show "agrees types rules (optionalConnex cx) (COpt c) s"
    using assms by (cases rule: agreesE) (blast intro: agrees_none agreesI parses_opt peg_opt peg_opt_none)+
  show "agrees types rules (adaptConnex t f cx) (CBind t f c) s"
    using assms by (cases rule: agreesE) (blast intro: agrees_none agreesI parses_bind peg_bind peg_bind_fail)+
  assume ty: "cx_type cx = clause_type types c"
  show "agrees types rules (toStringConnex cx part) (CMatch part c) s"
    using assms
  proof (cases rule: agreesE)
    case stuck then show ?thesis by (intro agrees_none parses_match)
  next
    case fail then show ?thesis by (blast intro: agreesI peg_match_fail parses_match)
  next
    case (match m r)
    then show ?thesis using agreesI [OF peg_match [OF match(1)] parses_match(1) [OF match(2), unfolded ty]] by simp
  qed
qed

lemma agrees_term:
  assumes "clause_ok (CTerm rex)" shows "agrees types rules (buildConnex_regex rex) (CTerm rex) s"
proof (cases "rex (skip_space s)")
  case None
  show ?thesis by (rule agreesI [OF peg_term_fail [of rex, OF None] parses_term(2) [OF assms None]])
next
  case (Some g)
  show ?thesis by (rule agreesI [OF peg_term [of rex, OF Some] parses_term(1) [OF assms Some]])
qed

lemma build_agrees:
  assumes "\<And>k s. length s < 2 ^ 32 \<Longrightarrow> agrees types rules (env k) (CRef k) s"
    and ty: "\<And>k. cx_type (env k) = types k"
  shows "clause_ok c \<Longrightarrow> length s < 2 ^ 32 \<Longrightarrow> agrees types rules (build env c) c s"
proof (induction c arbitrary: s)
  case CNull show ?case unfolding build.simps by (rule agreesI [OF peg_null parses_null])
next
  case (CTerm rex) then show ?case unfolding build.simps by (intro agrees_term)
next
  case (CRef k) then show ?case by (simp add: assms(1))
next
  case (CSeq a b)
  then show ?case unfolding build.simps clause_defs by (intro agrees_combined build_type [OF ty]) simp_all
next
  case (CAlt a b)
  then show ?case unfolding build.simps clause_defs by (intro agrees_combined build_type [OF ty]) simp_all
next
  case (CRep mn mx d c)
  then show ?case unfolding build.simps by (intro agrees_repeat rep_agrees_first) simp_all
next
  case (COpt c)
  then show ?case unfolding build.simps clause_defs by (intro agrees_adapted) simp_all
next
  case (CBracket a z c isOptional)
  then show ?case unfolding build.simps by (intro agrees_bracket) simp_all
next
  case (CBind t f c)
  then show ?case unfolding build.simps clause_defs by (intro agrees_adapted) simp_all
next
  case (CMatch part c)
  then show ?case unfolding build.simps clause_defs by (intro agrees_adapted build_type [OF ty]) simp_all
qed

lemma rules_agree:
  assumes "\<And>k. clause_ok (rules k)"
  shows "length s < 2 ^ 32 \<Longrightarrow> agrees types rules (rule_env types rules n k) (CRef k) s"
proof (induction n arbitrary: k s)
  case 0 then show ?case by (simp add: agrees_def)
next
  case (Suc n)
  have "agrees types rules (build (rule_env types rules n) (rules k)) (rules k) s"
    by (rule build_agrees [OF Suc.IH _ assms Suc.prems]) simp_all
  then show ?case by (auto simp: agrees_def parses_def intro: peg_ref)
qed

lemmas parser_agrees = build_agrees [OF rules_agree rule_env_type]

subsection \<open>With enough levels of recursion, every derivation is found\<close>

lemma parses_lengthD: "parses cx s (Some (m, r)) \<Longrightarrow> length s < 2 ^ 32 \<Longrightarrow> length r < 2 ^ 32"
  using suffix_length_le by (fastforce simp: parses_def)

lemma peg_suffix:
  shows "peg types rules c s res \<Longrightarrow> (case res of None \<Rightarrow> True | Some (m, r) \<Rightarrow> suffix r s)"
    and "peg_rep types rules k first d c s ms r \<Longrightarrow> suffix r s"
proof (induction rule: peg_peg_rep.inducts)
  case (peg_term rex s g)
  show ?case using suffix_drop skip_space_drop(2) suffix_order.trans by (simp, blast)
qed (auto split: option.splits elim: suffix_order.trans)

definition found :: "(nat \<Rightarrow> ModelType) \<Rightarrow> (nat \<Rightarrow> 'v Clause) \<Rightarrow> 'v Clause \<Rightarrow> string \<Rightarrow> ('v Model \<times> string) option \<Rightarrow> bool" where
  "found types rules c s res \<longleftrightarrow> eventually (\<lambda>n. parses (build (rule_env types rules n) c) s res) sequentially"

definition rep_found :: "(nat \<Rightarrow> ModelType) \<Rightarrow> (nat \<Rightarrow> 'v Clause) \<Rightarrow> nat \<Rightarrow> bool \<Rightarrow> 'v Clause \<Rightarrow> 'v Clause \<Rightarrow> string
    \<Rightarrow> 'v Model list \<Rightarrow> string \<Rightarrow> bool" where
  "rep_found types rules k first d c s ms r \<longleftrightarrow>
     (\<forall>mx results cnt. first = (results = []) \<longrightarrow> k = (if first then max 1 mx else mx - length results) \<longrightarrow>
        eventually (\<lambda>n. rep_cont mx (build (rule_env types rules n) d) (build (rule_env types rules n) c) cnt results s
          = Some (Inr (cnt + (length s - length r), results @ ms))) sequentially)"

lemma found_rest: "found types rules c s (Some (m, r)) \<Longrightarrow> suffix r s \<and> length r \<le> length s"
  by (auto simp: found_def parses_def eventually_sequentially intro: suffix_length_le)

lemma found_1:
  assumes "found types rules c s res" "\<And>n. parses (build (rule_env types rules n) c) s res \<Longrightarrow> Q n"
  shows "eventually Q sequentially"
  using assms by (auto simp: found_def elim: eventually_mono)

lemma found_2:
  assumes "found types rules c s res" "found types rules c' s' res'"
    "\<And>n. parses (build (rule_env types rules n) c) s res \<Longrightarrow> parses (build (rule_env types rules n) c') s' res' \<Longrightarrow> Q n"
  shows "eventually Q sequentially"
  using assms by (auto simp: found_def elim: eventually_elim2)

lemma found_3:
  assumes "found types rules c s res" "found types rules c' s' res'" "found types rules c'' s'' res''"
    "\<And>n. parses (build (rule_env types rules n) c) s res \<Longrightarrow> parses (build (rule_env types rules n) c') s' res'
      \<Longrightarrow> parses (build (rule_env types rules n) c'') s'' res'' \<Longrightarrow> Q n"
  shows "eventually Q sequentially"
proof -
  have "eventually (\<lambda>n. parses (build (rule_env types rules n) c) s res \<and> parses (build (rule_env types rules n) c') s' res'
      \<and> parses (build (rule_env types rules n) c'') s'' res'') sequentially"
    using assms(1-3) unfolding found_def by (intro eventually_conj)
  then show ?thesis by (rule eventually_mono) (auto intro: assms(4))
qed

lemma found_leaf:
  "found types rules CNull s (Some (NullModel, s))"
  "clause_ok (CTerm rex) \<Longrightarrow> rex (skip_space s) = Some g \<Longrightarrow> found types rules (CTerm rex) s (Some (MatchModel g, drop (length (hd g)) (skip_space s)))"
  "clause_ok (CTerm rex) \<Longrightarrow> rex (skip_space s) = None \<Longrightarrow> found types rules (CTerm rex) s None"
  unfolding found_def build.simps using parses_term [of rex s] by (auto simp: parses_null simp del: clause_ok.simps)

lemma found_seq:
  assumes "length s < 2 ^ 32"
  shows "found types rules a s (Some (m1, r)) \<Longrightarrow> found types rules b r (Some (m2, q))
      \<Longrightarrow> found types rules (CSeq a b) s (Some (seq_model (clause_type types a) m1 m2, q))"
    and "found types rules a s None \<Longrightarrow> found types rules (CSeq a b) s None"
    and "found types rules a s (Some (m1, r)) \<Longrightarrow> found types rules b r None \<Longrightarrow> found types rules (CSeq a b) s None"
  unfolding found_def [of types rules "CSeq a b"] build.simps clause_defs
  by (erule (1) found_2, drule (1) parses_seq(1) [OF assms], simp,
      erule found_1, erule parses_seq(2) [OF assms],
      erule (1) found_2, erule (1) parses_seq(3) [OF assms])

lemma found_alt:
  assumes "length s < 2 ^ 32"
  shows "found types rules a s (Some (m, r)) \<Longrightarrow> found types rules (CAlt a b) s (Some (mark_left (clause_type types a) m, r))"
    and "found types rules a s None \<Longrightarrow> found types rules b s (Some (m, r))
      \<Longrightarrow> found types rules (CAlt a b) s (Some (mark_right (clause_type types a) m, r))"
    and "found types rules a s None \<Longrightarrow> found types rules b s None \<Longrightarrow> found types rules (CAlt a b) s None"
  unfolding found_def [of types rules "CAlt a b"] build.simps clause_defs
  by (erule found_1, drule parses_alt(1) [OF assms], simp,
      erule (1) found_2, drule (1) parses_alt(2) [OF assms], simp,
      erule (1) found_2, erule (1) parses_alt(3) [OF assms])

lemma found_bracket:
  "found types rules a s (Some (m0, r)) \<Longrightarrow> found types rules c r (Some (m, q)) \<Longrightarrow> found types rules z q (Some (m1, t))
     \<Longrightarrow> found types rules (CBracket a z c opt) s (Some (m, t))"
  "found types rules a s (Some (m0, r)) \<Longrightarrow> found types rules c r None \<Longrightarrow> found types rules (CBracket a z c opt) s None"
  "found types rules a s (Some (m0, r)) \<Longrightarrow> found types rules c r (Some (m, q)) \<Longrightarrow> found types rules z q None
     \<Longrightarrow> found types rules (CBracket a z c opt) s None"
  "found types rules a s None \<Longrightarrow> found types rules (CBracket a z c False) s None"
  "found types rules a s None \<Longrightarrow> found types rules c s res \<Longrightarrow> found types rules (CBracket a z c True) s res"
  unfolding found_def [of types rules "CBracket a z c b" for b] build.simps
  by (erule (2) found_3, erule (2) parses_bracket(1),
      erule (1) found_2, erule (1) parses_bracket(2),
      erule (2) found_3, erule (2) parses_bracket(3),
      erule found_1, erule parses_bracket(4),
      erule (1) found_2, erule (1) parses_bracket(5))

lemma found_adapted:
  "found types rules c s (Some (m, r)) \<Longrightarrow> found types rules (COpt c) s (Some (OptModel (Some m), r))"
  "found types rules c s None \<Longrightarrow> found types rules (COpt c) s (Some (OptModel None, s))"
  "found types rules c s (Some (m, r)) \<Longrightarrow> found types rules (CBind t f c) s (Some (f m, r))"
  "found types rules c s None \<Longrightarrow> found types rules (CBind t f c) s None"
  "found types rules c s (Some (m, r)) \<Longrightarrow> found types rules (CMatch part c) s
     (Some (StringModel (match_text (clause_type types c) part m s (length s - length r)), r))"
  "found types rules c s None \<Longrightarrow> found types rules (CMatch part c) s None"
  unfolding found_def [of types rules "COpt c"] found_def [of types rules "CBind t f c"] found_def [of types rules "CMatch part c"]
    build.simps clause_defs
  by (erule found_1, erule parses_opt, erule found_1, erule parses_opt, erule found_1, erule parses_bind,
      erule found_1, erule parses_bind, erule found_1, drule parses_match(1), simp, erule found_1, erule parses_match)

lemma rep_found_end:
  assumes s: "length s < 2 ^ 32"
  shows "rep_found types rules 0 first d c s [] s"
    and "found types rules c s None \<Longrightarrow> rep_found types rules (Suc k) True d c s [] s"
    and "found types rules d s None \<Longrightarrow> rep_found types rules (Suc k) False d c s [] s"
    and "found types rules d s (Some (m0, t)) \<Longrightarrow> found types rules c t None \<Longrightarrow> rep_found types rules (Suc k) False d c s [] s"
proof -
  show "rep_found types rules 0 first d c s [] s" by (auto simp: rep_found_def rep_stop)
  show "rep_found types rules (Suc k) True d c s [] s" if "found types rules c s None"
    unfolding rep_found_def by (auto intro!: found_1 [OF that] simp: rep_first_step(1) [OF s])
  show "rep_found types rules (Suc k) False d c s [] s" if "found types rules d s None"
    unfolding rep_found_def by (auto intro!: found_1 [OF that] simp: rep_next_step(1) [OF s])
  show "rep_found types rules (Suc k) False d c s [] s" if "found types rules d s (Some (m0, t))" "found types rules c t None"
    unfolding rep_found_def by (auto intro!: found_2 [OF that] simp: rep_next_step(2) [OF s])
qed

lemma rep_found_step:
  assumes s: "length s < 2 ^ 32" and suf: "suffix r s" "suffix q r" and rest: "rep_found types rules k False d c r ms q"
  shows "found types rules c s (Some (m, r)) \<Longrightarrow> rep_found types rules (Suc k) True d c s (m # ms) q"
    and "found types rules d s (Some (m0, t)) \<Longrightarrow> found types rules c t (Some (m, r)) \<Longrightarrow> rep_found types rules (Suc k) False d c s (m # ms) q"
proof -
  have tail: "eventually (\<lambda>n. rep_cont mx (build (rule_env types rules n) d) (build (rule_env types rules n) c)
        (cnt + (length s - length r)) (results @ [m]) r = Some (Inr (cnt + (length s - length q), results @ m # ms))) sequentially"
    if "k = mx - length (results @ [m])" for mx results cnt
    using rest [unfolded rep_found_def, rule_format, of "results @ [m]" mx "cnt + (length s - length r)"] that
      suffix_consumed [OF suf] by (simp add: add.assoc)
  show "rep_found types rules (Suc k) True d c s (m # ms) q" if c: "found types rules c s (Some (m, r))"
    unfolding rep_found_def
  proof (intro allI impI)
    fix mx cnt :: nat and results :: "'a Model list"
    assume "True = (results = [])" "Suc k = (if True then max 1 mx else mx - length results)"
    then have e: "results = []" and k: "k = mx - length (results @ [m])" by (auto simp: max_def split: if_splits)
    have "eventually (\<lambda>n. rep_cont mx (build (rule_env types rules n) d) (build (rule_env types rules n) c) cnt results s
        = rep_cont mx (build (rule_env types rules n) d) (build (rule_env types rules n) c)
            (cnt + (length s - length r)) (results @ [m]) r) sequentially"
      unfolding e append_Nil by (rule found_1 [OF c]) (erule rep_first_step(2) [OF s])
    then show "eventually (\<lambda>n. rep_cont mx (build (rule_env types rules n) d) (build (rule_env types rules n) c) cnt results s
        = Some (Inr (cnt + (length s - length q), results @ m # ms))) sequentially"
      using tail [OF k, of cnt] by (rule eventually_elim2) simp
  qed
  show "rep_found types rules (Suc k) False d c s (m # ms) q"
    if d: "found types rules d s (Some (m0, t))" and c: "found types rules c t (Some (m, r))"
    unfolding rep_found_def
  proof (intro allI impI)
    fix mx cnt :: nat and results :: "'a Model list"
    assume "False = (results = [])" "Suc k = (if False then max 1 mx else mx - length results)"
    then have go: "results \<noteq> []" "length results < mx" and k: "k = mx - length (results @ [m])" by auto
    have "eventually (\<lambda>n. rep_cont mx (build (rule_env types rules n) d) (build (rule_env types rules n) c) cnt results s
        = rep_cont mx (build (rule_env types rules n) d) (build (rule_env types rules n) c)
            (cnt + (length s - length r)) (results @ [m]) r) sequentially"
      by (rule found_2 [OF d c]) (erule (1) rep_next_step(3) [OF s go])
    then show "eventually (\<lambda>n. rep_cont mx (build (rule_env types rules n) d) (build (rule_env types rules n) c) cnt results s
        = Some (Inr (cnt + (length s - length q), results @ m # ms))) sequentially"
      using tail [OF k, of cnt] by (rule eventually_elim2) simp
  qed
qed

lemma found_repeat:
  assumes "rep_found types rules (max 1 maxRep) True d c s ms r" "suffix r s"
  shows "found types rules (CRep minRep maxRep d c) s (if minRep \<le> length ms then Some (IterModel ms, r) else None)"
proof -
  have "eventually (\<lambda>n. rep_cont maxRep (build (rule_env types rules n) d) (build (rule_env types rules n) c) 0 [] s
      = Some (Inr (length s - length r, ms))) sequentially"
    using assms(1) [unfolded rep_found_def, rule_format, of "[]" maxRep 0] by simp
  then show ?thesis unfolding found_def build.simps
    by (rule eventually_mono) (rule parses_repeat(1) [OF _ assms(2)])
qed

lemma found_ref: "found types rules (rules k) s res \<Longrightarrow> found types rules (CRef k) s res"
  unfolding found_def eventually_sequentially_Suc [of "\<lambda>n. parses (build (rule_env types rules n) (CRef k)) s res", symmetric]
  by (simp add: parses_def)

lemma peg_lengthD:
  "peg types rules c s (Some (m, r)) \<Longrightarrow> length s < 2 ^ 32 \<Longrightarrow> length r < 2 ^ 32"
  using peg_suffix(1) [of types rules c s "Some (m, r)"] suffix_length_le by fastforce

lemma parser_finds:
  fixes rules :: "nat \<Rightarrow> 'v Clause"
  assumes ok: "\<And>k. clause_ok (rules k)"
  shows "peg types rules c s res \<Longrightarrow> clause_ok c \<Longrightarrow> length s < 2 ^ 32 \<Longrightarrow> found types rules c s res"
    and "peg_rep types rules k first d c s ms r \<Longrightarrow> clause_ok c \<Longrightarrow> clause_ok d \<Longrightarrow> length s < 2 ^ 32 \<Longrightarrow> rep_found types rules k first d c s ms r"
proof (induction rule: peg_peg_rep.inducts)
  case (peg_repeat maxRep d c s ms r minRep)
  then show ?case by (intro found_repeat peg_suffix) simp_all
next
  case (peg_ref k s res)
  then show ?case by (simp add: found_ref ok)
next
  case (rep_first c s m r k d ms q)
  note r = peg_lengthD [OF rep_first(1) rep_first.prems(3)]
  show ?case
    by (rule rep_found_step(1)) (use rep_first r peg_suffix(2) [OF rep_first(3)] peg_suffix(1) [OF rep_first(1)] in auto)
next
  case (rep_next d s m0 t c m r k ms q)
  note t = peg_lengthD [OF rep_next(1) rep_next.prems(3)]
  note r = peg_lengthD [OF rep_next(3) t]
  have "suffix r s" using peg_suffix(1) [OF rep_next(1)] peg_suffix(1) [OF rep_next(3)]
    by (auto intro: suffix_order.trans)
  then show ?case
    by (rule rep_found_step(2) [OF rep_next.prems(3)]) (use rep_next t r peg_suffix(2) [OF rep_next(5)] in auto)
qed (auto intro: found_leaf found_seq [simplified] found_alt [simplified] found_bracket found_adapted rep_found_end [simplified] dest: peg_lengthD [simplified] simp del: clause_ok.simps(2))

subsection \<open>Grammars without left recursion\<close>

text \<open>
  A clause that can match without consuming input, given the rules that can, and the rules a clause may call
  before it consumed any input. A ranking of the rules shows that none calls itself that way.
\<close>

primrec nullable :: "(nat \<Rightarrow> bool) \<Rightarrow> 'v Clause \<Rightarrow> bool" where
  "nullable nul CNull = True"
| "nullable nul (CTerm rex) = (\<exists>s g. rex s = Some g \<and> hd g = [])"
| "nullable nul (CSeq a b) = (nullable nul a \<and> nullable nul b)"
| "nullable nul (CAlt a b) = (nullable nul a \<or> nullable nul b)"
| "nullable nul (CRep minRep maxRep d c) = (minRep = 0 \<or> nullable nul c)"
| "nullable nul (COpt c) = True"
| "nullable nul (CBracket a z c isOptional) = (nullable nul c \<and> (isOptional \<or> nullable nul a \<and> nullable nul z))"
| "nullable nul (CBind t f c) = nullable nul c"
| "nullable nul (CMatch part c) = nullable nul c"
| "nullable nul (CRef k) = nul k"

primrec heads :: "(nat \<Rightarrow> bool) \<Rightarrow> 'v Clause \<Rightarrow> nat set" where
  "heads nul CNull = {}"
| "heads nul (CTerm rex) = {}"
| "heads nul (CSeq a b) = heads nul a \<union> (if nullable nul a then heads nul b else {})"
| "heads nul (CAlt a b) = heads nul a \<union> heads nul b"
| "heads nul (CRep minRep maxRep d c) = heads nul c \<union> (if nullable nul c then heads nul d else {})"
| "heads nul (COpt c) = heads nul c"
| "heads nul (CBracket a z c isOptional) = heads nul a \<union> (if isOptional \<or> nullable nul a then heads nul c else {})
     \<union> (if nullable nul a \<and> nullable nul c then heads nul z else {})"
| "heads nul (CBind t f c) = heads nul c"
| "heads nul (CMatch part c) = heads nul c"
| "heads nul (CRef k) = {k}"

definition no_left_recursion :: "(nat \<Rightarrow> 'v Clause) \<Rightarrow> (nat \<Rightarrow> bool) \<Rightarrow> (nat \<Rightarrow> nat) \<Rightarrow> bool" where
  "no_left_recursion rules nul rank \<longleftrightarrow>
     (\<forall>k. (nullable nul (rules k) \<longrightarrow> nul k) \<and> (\<forall>j\<in>heads nul (rules k). rank j < rank k))"

lemma finite_heads: "finite (heads nul c)"
  by (induction c) auto

lemma heads_bounded: "\<exists>b. \<forall>j\<in>heads nul c. rank j < (b::nat)"
  using finite_imageI [OF finite_heads, of rank nul c] unfolding finite_nat_set_iff_bounded by blast

lemma peg_length:
  "peg types rules c s (Some (m, r)) \<Longrightarrow> length r \<le> length s"
  "peg_rep types rules k first d c s ms r \<Longrightarrow> length r \<le> length s"
  using peg_suffix(1) [of types rules c s "Some (m, r)"] peg_suffix(2) [of types rules k first d c s ms r] suffix_length_le by auto

lemma peg_consumes:
  assumes rules: "\<And>k. nullable nul (rules k) \<Longrightarrow> nul k"
  shows "peg types rules c s res \<Longrightarrow> clause_ok c \<Longrightarrow> (\<And>k. clause_ok (rules k)) \<Longrightarrow> \<not> nullable nul c
      \<Longrightarrow> (case res of None \<Rightarrow> True | Some (m, r) \<Rightarrow> length r < length s)"
    and "peg_rep types rules k first d c s ms r \<Longrightarrow> clause_ok c \<Longrightarrow> (\<And>k. clause_ok (rules k)) \<Longrightarrow> first \<Longrightarrow> ms \<noteq> []
      \<Longrightarrow> \<not> nullable nul c \<Longrightarrow> length r < length s"
proof (induction rule: peg_peg_rep.inducts)
  case (peg_term rex s g)
  then have g: "g \<noteq> []" "prefix (hd g) (skip_space s)" "hd g \<noteq> []" by auto
  moreover have "length (skip_space s) \<le> length s" using skip_space_drop(2) by (rule suffix_length_le)
  ultimately show ?case using prefix_length_le [OF g(2)] by (cases "hd g") auto
next
  case (rep_first c s m r k d ms q)
  then show ?case using peg_length(2) [OF rep_first(3)] by simp
next
  case (peg_repeat maxRep d c s ms r minRep)
  then show ?case by (cases ms) auto
next
  case (peg_ref k s res)
  then have "\<not> nullable nul (rules k)" using rules by auto
  then show ?case using peg_ref by simp
qed (auto dest!: peg_length simp: rules split: option.splits if_splits)

lemma rep_derives:
  assumes c: "\<And>s. length s \<le> L \<Longrightarrow> \<exists>res. peg types rules c s res" and d: "\<And>s. length s \<le> L \<Longrightarrow> \<exists>res. peg types rules d s res"
  shows "length s \<le> L \<Longrightarrow> \<exists>ms r. peg_rep types rules k False d c s ms r"
proof (induction k arbitrary: s)
  case 0 show ?case by (blast intro: rep_max)
next
  case (Suc k)
  obtain dr where dr: "peg types rules d s dr" using d [OF Suc.prems] by blast
  show ?case
  proof (cases dr)
    case None then show ?thesis using dr by (blast intro: rep_end)
  next
    case (Some x)
    obtain m0 t where dt: "peg types rules d s (Some (m0, t))" using dr Some by (cases x) simp
    then have t: "length t \<le> L" using peg_length(1) Suc.prems by fastforce
    obtain cr where cr: "peg types rules c t cr" using c [OF t] by blast
    show ?thesis
    proof (cases cr)
      case None then show ?thesis using dt cr by (blast intro: rep_trail)
    next
      case (Some y)
      obtain m r where ct: "peg types rules c t (Some (m, r))" using cr Some by (cases y) simp
      then have "length r \<le> L" using peg_length(1) t by fastforce
      then show ?thesis using Suc.IH dt ct by (blast intro: rep_next)
    qed
  qed
qed

lemma derives_cases:
  assumes "\<exists>res. peg types rules c s res"
  obtains "peg types rules c s None" | m r where "peg types rules c s (Some (m, r))" "length r \<le> length s"
  using assms peg_length(1) by (metis not_None_eq surj_pair)

lemma derives_step:
  fixes rules :: "nat \<Rightarrow> 'v Clause"
  assumes ok: "\<And>k. clause_ok (rules k)" and nul: "\<And>k. nullable nul (rules k) \<Longrightarrow> nul k"
    and shorter: "\<And>c s. clause_ok c \<Longrightarrow> length s < L \<Longrightarrow> \<exists>res. peg types rules c s res"
    and calls: "\<And>k s. rank k < b \<Longrightarrow> length s = L \<Longrightarrow> \<exists>res. peg types rules (CRef k) s res"
  shows "clause_ok c \<Longrightarrow> \<forall>j\<in>heads nul c. rank j < (b::nat) \<Longrightarrow> length s = L \<Longrightarrow> \<exists>res. peg types rules c s res"
proof (induction c arbitrary: s)
  have follow: "\<exists>res. peg types rules d r res"
    if m: "peg types rules c s (Some (m, r))" and "clause_ok c" "clause_ok d" "length s \<le> L"
      and d: "nullable nul c \<Longrightarrow> length r = L \<Longrightarrow> \<exists>res. peg types rules d r res" for c d s m r
  proof (cases "length r < L")
    case True then show ?thesis using shorter that by blast
  next
    case False
    then have "length r = L" "length r = length s" using peg_length(1) [OF m] that by simp_all
    then show ?thesis using d peg_consumes(1) [of nul rules types c s "Some (m, r)"] m that nul ok by auto
  qed
  {
    case CNull show ?case by (blast intro: peg_null)
  next
    case (CTerm rex) show ?case by (cases "rex (skip_space s)") (blast intro: peg_term peg_term_fail)+
  next
    case (CSeq a c)
    have "\<exists>res. peg types rules a s res" using CSeq by simp
    then show ?case
    proof (cases rule: derives_cases)
      case 1 then show ?thesis by (blast intro: peg_seq_fail1)
    next
      case (2 m r)
      have "\<exists>res. peg types rules c r res" by (rule follow [OF 2(1)]) (use CSeq in auto)
      then show ?thesis by (cases rule: derives_cases) (blast intro: peg_seq peg_seq_fail2 2)+
    qed
  next
    case (CAlt a c)
    have "\<exists>res. peg types rules a s res" "\<exists>res. peg types rules c s res" using CAlt by auto
    then show ?case by (elim derives_cases) (blast intro: peg_left peg_right peg_alt_fail)+
  next
    case (COpt c)
    then have "\<exists>res. peg types rules c s res" by auto
    then show ?case by (elim derives_cases) (blast intro: peg_opt peg_opt_none)+
  next
    case (CBind t f c)
    then have "\<exists>res. peg types rules c s res" by auto
    then show ?case by (elim derives_cases) (blast intro: peg_bind peg_bind_fail)+
  next
    case (CMatch part c)
    then have "\<exists>res. peg types rules c s res" by auto
    then show ?case by (elim derives_cases) (blast intro: peg_match peg_match_fail)+
  next
    case (CRef k) then show ?case using calls by simp
  next
    case (CBracket a z c isOptional)
    have "\<exists>res. peg types rules a s res" using CBracket by simp
    then show ?case
    proof (cases rule: derives_cases)
      case 1
      show ?thesis
      proof (cases isOptional)
        case True
        then have "\<exists>res. peg types rules c s res" using CBracket by auto
        then show ?thesis using True 1 by (auto intro: peg_bracket_omit)
      next
        case False then show ?thesis using 1 by (auto intro: peg_bracket_none)
      qed
    next
      case (2 m0 r)
      have "\<exists>res. peg types rules c r res" by (rule follow [OF 2(1)]) (use CBracket in auto)
      then show ?thesis
      proof (cases rule: derives_cases)
        case 1 then show ?thesis using 2 by (blast intro: peg_bracket_body)
      next
        case c: (2 m q)
        have "nullable nul a" if "length r = L"
          using that peg_consumes(1) [of nul rules types a s "Some (m0, r)"] 2(1) CBracket.prems nul ok by auto
        moreover have r: "length r \<le> L" "length q = L \<Longrightarrow> length r = L" using 2(2) c(2) CBracket.prems by auto
        ultimately have zq: "\<exists>res. peg types rules z q res" if "nullable nul c" "length q = L"
          by (intro CBracket.IH(2)) (use that CBracket.prems in simp_all)
        have "\<exists>res. peg types rules z q res"
          by (rule follow [OF c(1) _ _ _ zq]) (use CBracket.prems r in simp_all)
        then show ?thesis by (cases rule: derives_cases) (blast intro: peg_bracket peg_bracket_open 2 c)+
      qed
    qed
  next
    case (CRep minRep maxRep d c)
    obtain k where k: "max 1 maxRep = Suc k" by (cases maxRep) simp_all
    have upto: "\<exists>res. peg types rules c s' res" if "length s' \<le> L" for s'
      using that shorter [of c s'] CRep by (cases "length s' = L") auto
    have "\<exists>ms r. peg_rep types rules (Suc k) True d c s ms r"
      using upto [of s, unfolded CRep.prems(3), OF order_refl]
    proof (cases rule: derives_cases)
      case 1 then show ?thesis by (blast intro: rep_none)
    next
      case (2 m r)
      have d: "\<exists>res. peg types rules d s' res" if s': "length s' \<le> length r" for s'
      proof (cases "length s' < L")
        case True then show ?thesis using shorter CRep.prems by simp
      next
        case False
        then have "nullable nul c" "length s' = L"
          using s' 2 peg_consumes(1) [of nul rules types c s "Some (m, r)"] CRep.prems nul ok by auto
        then show ?thesis using CRep by auto
      qed
      have "\<exists>ms q. peg_rep types rules k False d c r ms q"
        by (rule rep_derives [of "length r"]) (use upto d 2(2) CRep.prems(3) in auto)
      then show ?thesis using 2 by (blast intro: rep_first)
    qed
    then show ?case using peg_repeat [of types rules maxRep d c s _ _ minRep] unfolding k by blast
  }
qed

lemma clause_derives:
  assumes "\<And>k. clause_ok (rules k)" "no_left_recursion rules nul rank"
  shows "clause_ok c \<Longrightarrow> \<exists>res. peg types rules c s res"
proof (induction "length s" arbitrary: c s rule: less_induct)
  case (less s)
  have nul: "\<And>k. nullable nul (rules k) \<Longrightarrow> nul k" using assms(2) by (simp add: no_left_recursion_def)
  have shorter: "\<exists>res. peg types rules c s' res" if "clause_ok c" "length s' < length s" for c s'
    using less.hyps [OF that(2,1)] .
  have calls: "\<exists>res. peg types rules (CRef k) s' res" if "rank k < b" "length s' = length s" for k s' b
    using that
  proof (induction b arbitrary: k s')
    case (Suc b)
    have heads: "\<forall>j\<in>heads nul (rules k). rank j < b"
      using assms(2) Suc.prems(1) by (fastforce simp: no_left_recursion_def)
    have "\<exists>res. peg types rules (rules k) s' res"
      by (rule derives_step [OF assms(1) nul shorter Suc.IH assms(1) heads Suc.prems(2)])
    then show ?case by (blast intro: peg_ref)
  qed simp
  obtain b where b: "\<forall>j\<in>heads nul c. rank j < b" using heads_bounded by blast
  show ?case by (rule derives_step [OF assms(1) nul shorter calls less.prems b refl])
qed

subsection \<open>Results\<close>

lemma outcome_inj: "outcome s res = outcome s res' \<Longrightarrow> (\<And>m r. res = Some (m, r) \<Longrightarrow> suffix r s) \<Longrightarrow> (\<And>m r. res' = Some (m, r) \<Longrightarrow> suffix r s) \<Longrightarrow> res = res'"
proof (cases res; cases res'; clarsimp simp: outcome_def)
  fix r r' assume "suffix r s" "suffix r' s" "length s - length r = length s - length r'"
  then show "r = r'" by (auto simp: suffix_def append_eq_append_conv2)
qed

lemma parses_unique: "parses cx s res \<Longrightarrow> parses cx s res' \<Longrightarrow> res = res'"
  by (rule outcome_inj) (auto simp: parses_def)

lemma parse_always: "found types rules c s res \<longleftrightarrow> (\<exists>N. \<forall>n\<ge>N. parses (build (rule_env types rules n) c) s res)"
  by (simp add: found_def eventually_sequentially)

text \<open>C30: For input shorter than a \<open>uint\<close> counts, the parser built from a clause, with rules for recursive syntax,
  implements the ordered grammar these denote: whatever it returns is derived for the input, it never
  ends with an exception, and it returns exactly the derived result as soon as there are enough levels of recursion.\<close>

theorem parser_implements_grammar:
  assumes "\<And>k. clause_ok (rules k)" "clause_ok c" "length s < 2 ^ 32"
  shows "(parse_with types rules n c s = None \<or>
      (\<exists>res. peg types rules c s res \<and> parse_with types rules n c s = Some (Inr (outcome s res)))) \<and>
    (peg types rules c s res \<longleftrightarrow> (\<exists>N. \<forall>n\<ge>N. parses (build (rule_env types rules n) c) s res))"
proof (intro conjI iffI)
  have agree: "agrees types rules (build (rule_env types rules n) c) c s" for n
    by (rule build_agrees [OF rules_agree [OF assms(1)] rule_env_type assms(2,3)])
  show "parse_with types rules n c s = None \<or> (\<exists>res. peg types rules c s res \<and> parse_with types rules n c s = Some (Inr (outcome s res)))"
    using agree [of n] by (auto simp: agrees_def parses_def parse_with_def)
  show "\<exists>N. \<forall>n\<ge>N. parses (build (rule_env types rules n) c) s res" if "peg types rules c s res"
    using parser_finds(1) [OF assms(1) that assms(2,3)] unfolding parse_always .
  assume "\<exists>N. \<forall>n\<ge>N. parses (build (rule_env types rules n) c) s res"
  then obtain N where p: "parses (build (rule_env types rules N) c) s res" by blast
  then obtain res' where "peg types rules c s res'" "parses (build (rule_env types rules N) c) s res'"
    using agree [of N] by (auto simp: agrees_def parses_def)
  then show "peg types rules c s res" using parses_unique [OF p] by simp
qed

text \<open>C31: A parser returns on every input, without an exception and with no more consumed than there is, provided that
  no rule calls itself before any input was consumed.\<close>

theorem parser_returns:
  assumes "\<And>k. clause_ok (rules k)" "clause_ok c" "no_left_recursion rules nul rank" "length s < 2 ^ 32"
  shows "\<exists>N e. (\<forall>n\<ge>N. parse_with types rules n c s = Some (Inr e)) \<and> ev_consumed e \<le> length s"
proof -
  obtain res where "peg types rules c s res" using clause_derives [OF assms(1,3,2)] by blast
  then have "found types rules c s res" using assms by (intro parser_finds)
  then have "\<exists>N. \<forall>n\<ge>N. parse_with types rules n c s = Some (Inr (outcome s res))"
    by (auto simp: parse_always parses_def parse_with_def)
  moreover have "ev_consumed (outcome s res) \<le> length s" by (simp add: outcome_def split: option.split)
  ultimately show ?thesis by blast
qed

lemma rep_loop_count:
  "rep_loop mx sep body n results s = Some (Inr (n', ms)) \<Longrightarrow> results = [] \<or> length results < mx \<Longrightarrow> length ms \<le> max 1 mx"
proof (induction "mx - length results" arbitrary: n results s rule: less_induct)
  case less
  from less.prems(1) obtain off where off: "rep_offset sep results s = Some (Inr off)"
    by (subst (asm) rep_loop.simps) (auto simp: bind_partial_Inr_iff)
  show ?case
  proof (cases off)
    case None
    then show ?thesis using less.prems off by (subst (asm) rep_loop.simps) auto
  next
    case (Some x)
    from less.prems(1) off Some obtain rest e where e: "substr x s = Some (Inr rest)" "body rest = Some (Inr e)"
      by (subst (asm) rep_loop.simps) (auto simp: bind_partial_Inr_iff)
    show ?thesis
    proof (cases "ev_result e")
      case None
      then show ?thesis using less.prems off Some e by (subst (asm) rep_loop.simps) auto
    next
      case (Some m)
      let ?rs = "results @ [m]"
      from less.prems(1) off \<open>off = Some x\<close> e Some obtain s' where
        "(if length ?rs < mx then rep_loop mx sep body (n + uint_of (x + ev_consumed e)) ?rs s'
          else Some (Inr (n + uint_of (x + ev_consumed e), ?rs))) = Some (Inr (n', ms))"
        by (subst (asm) rep_loop.simps) (auto simp: bind_partial_Inr_iff Let_def)
      then show ?thesis
        using less.hyps [of ?rs "n + uint_of (x + ev_consumed e)" s'] less.prems(2) by (auto split: if_splits)
    qed
  qed
qed

text \<open>C32: A repetition with limits that make no sense is refused; any other accepts only as many repetitions as
  the limits allow, whatever the parsers for the clause and the delimiter do.\<close>

theorem repetition_limits:
  shows "case accept_repeated minRep maxRep delimDef clauseDef of
      Inl e \<Rightarrow> (maxRep < minRep \<or> maxRep = 0) \<and> (\<exists>msg. e = Err Invalid msg)
    | Inr cx \<Rightarrow> minRep \<le> maxRep \<and> 0 < maxRep \<and>
        (\<forall>s. case cx_parse cx s of
           Some (Inr e) \<Rightarrow> (case ev_result e of
               None \<Rightarrow> ev_consumed e = 0
             | Some (IterModel ms) \<Rightarrow> minRep \<le> length ms \<and> length ms \<le> maxRep
             | Some _ \<Rightarrow> False)
         | _ \<Rightarrow> True)"
proof -
  have "case cx_parse (repeatedConnex minRep maxRep delimDef clauseDef) s of
      Some (Inr e) \<Rightarrow> (case ev_result e of None \<Rightarrow> ev_consumed e = 0
        | Some (IterModel ms) \<Rightarrow> minRep \<le> length ms \<and> length ms \<le> maxRep | Some _ \<Rightarrow> False) | _ \<Rightarrow> True" if "0 < maxRep" for s
    using rep_loop_count [of maxRep "cx_parse delimDef" "cx_parse clauseDef" 0 "[]" s] that
    by (auto simp: repeatedConnex_def success_def no_match_def bind_partial_def split: option.splits sum.splits)
  then show ?thesis by (auto simp: accept_repeated_def)
qed

subsection \<open>Witnesses\<close>

text \<open>A literal as a terminal, and the recursive syntax \<open>great ! great\<close> of the unit test, which counts.\<close>

definition literal_regex :: "string \<Rightarrow> regex" where
  "literal_regex w s = (if take (length w) s = w then Some [w] else None)"

lemma literal_ok [simp]: "clause_ok (CTerm (literal_regex w))"
  by (auto simp: literal_regex_def split: if_splits) (metis take_is_prefix)

fun count_great :: "nat Model \<Rightarrow> nat Model" where
  "count_great (SeqModel [m, OptModel (Some (SeqModel [m', Bound n]))]) = Bound (n + 1)"
| "count_great m = Bound 1"

definition great_rules :: "nat \<Rightarrow> nat Clause" where
  "great_rules k = (if k = 0 then CBind TBound count_great
     (CSeq (CTerm (literal_regex ''great'')) (COpt (CSeq (CTerm (literal_regex ''!'')) (CRef 0)))) else CNull)"

lemma great_ok: "clause_ok (great_rules k)" "clause_ok (CRef 0 :: nat Clause)"
  by (simp_all add: great_rules_def del: clause_ok.simps(2))

lemma great_no_left_recursion: "no_left_recursion great_rules (\<lambda>k. k \<noteq> 0) (\<lambda>_. 0)"
  by (auto simp: no_left_recursion_def great_rules_def literal_regex_def split: if_splits)

abbreviation great_peg :: "nat Clause \<Rightarrow> string \<Rightarrow> (nat Model \<times> string) option \<Rightarrow> bool" where
  "great_peg \<equiv> peg (\<lambda>_. TBound) great_rules"

lemma literal_derived:
  "skip_space s = w @ r \<Longrightarrow> peg types rules (CTerm (literal_regex w)) s (Some (MatchModel [w], r))"
  "take (length w) (skip_space s) \<noteq> w \<Longrightarrow> peg types rules (CTerm (literal_regex w)) s None"
  using peg_term [of "literal_regex w" s "[w]" types rules] peg_term_fail [of "literal_regex w" s types rules]
  by (simp_all add: literal_regex_def)

lemma great_ref:
  "great_peg (CBind TBound count_great (CSeq (CTerm (literal_regex ''great'')) (COpt (CSeq (CTerm (literal_regex ''!'')) (CRef 0))))) s res
    \<Longrightarrow> great_peg (CRef 0) s res"
  by (rule peg_ref) (simp add: great_rules_def)

lemma great_fail: "take 5 (skip_space s) \<noteq> ''great'' \<Longrightarrow> great_peg (CRef 0) s None"
  by (intro great_ref peg_bind_fail peg_seq_fail1 literal_derived) (simp add: eval_nat_numeral)

lemma great_last:
  assumes "skip_space s = ''great'' @ r" "skip_space r = ''!'' @ q" "great_peg (CRef 0) q None"
  shows "great_peg (CRef 0) s (Some (Bound 1, r))"
  using great_ref [OF peg_bind [OF peg_seq [OF literal_derived(1) [OF assms(1)]
    peg_opt_none [OF peg_seq_fail2 [OF literal_derived(1) [OF assms(2)] assms(3)]]]]]
  by (simp add: seq_model_def)

lemma great_more:
  assumes "skip_space s = ''great'' @ r" "skip_space r = ''!'' @ q" "great_peg (CRef 0) q (Some (Bound n, t))"
  shows "great_peg (CRef 0) s (Some (Bound (n + 1), t))"
  using great_ref [OF peg_bind [OF peg_seq [OF literal_derived(1) [OF assms(1)]
    peg_opt [OF peg_seq [OF literal_derived(1) [OF assms(2)] assms(3)]]]]]
  by (simp add: seq_model_def)

lemma great_derived: "great_peg (CRef 0) ''great ! great !'' (Some (Bound 2, '' !''))"
  using great_more [of "''great ! great !''" "'' ! great !''" "'' great !''" 1 "'' !''"]
    great_last [of "'' great !''" "'' !''" "[]"] great_fail [of "[]"]
  by (simp add: skip_space_def is_space_def numeral_2_eq_2)

text \<open>The parser for the recursive syntax accepts it up to the last word, and returns the count.\<close>

lemma parser_implements_grammar_witness:
  "\<exists>N. \<forall>n\<ge>N. parses (build (rule_env (\<lambda>_. TBound) great_rules n) (CRef 0)) ''great ! great !'' (Some (Bound 2, '' !''))"
  using parser_implements_grammar [where rules = great_rules and c = "CRef 0" and s = "''great ! great !''"
      and types = "\<lambda>_. TBound" and res = "Some (Bound 2, '' !'')", OF great_ok] great_derived
  by simp

lemma parser_returns_witness:
  "\<exists>N e. (\<forall>n\<ge>N. parse_with (\<lambda>_. TBound) great_rules n (CRef 0) ''great ! great !'' = Some (Inr e))
     \<and> ev_consumed e \<le> length ''great ! great !''"
  by (rule parser_returns [where rules = great_rules, OF great_ok great_no_left_recursion]) simp

end
