(* ===== verification/Spec2Isabelle.thy ===== *)
theory Spec2Isabelle
  imports IntUtil TimeValue Quantiser TimeFields Timecode ActivityLang ActivityTerm
    SchedulerInvocation LoadController SchedulerCommutator Scheduler
    ExtentFamily BlockFlow ListDiff SplitSplice JobTicket Segmentation
    IterExplorer Planning SteamLoop
    PlacementIndex ScopePath SubsystemRunner
    TextTemplate TemplateInstance
    UICoord UICoordResolver Commands CommandInstances WorkerPool
    ParseSyntax ParseGrammar
begin

text \<open>
  A verification library for the Lumiera application, C++ sources under \<open>src/src\<close>. Lumiera is a
  video editor in three layers: \<open>stage\<close> (user interface), \<open>steam\<close> (session and model) and
  \<open>vault\<close> (render engine), on a common library \<open>lib\<close>. The theories model the parts with logic
  of their own, bottom up.

  Time (\<open>lib/time\<close>). \<open>IntUtil\<close>: integer division and binary logarithm of \<open>util-quant.hpp\<close>.
  \<open>TimeValue\<close>: time points, offsets, durations, spans and frame rates of \<open>timevalue.hpp\<close>; a time
  is the raw number of micro-ticks, and every constructor or operator of the code is one
  definition that limits its result as the code does. \<open>Quantiser\<close>: frame grids of \<open>time.cpp\<close>
  and \<open>quantiser.cpp\<close>, with the locale \<open>time_grid\<close> for what a grid promises. \<open>TimeFields\<close>:
  clock fields and NTSC drop-frame labels. \<open>Timecode\<close>: the SMPTE timecode, whose fields
  normalise each other on assignment; these mutual calls get fuel 8, and six levels are shown
  to be enough.

  Engine (\<open>vault/gear\<close>). \<open>ActivityLang\<close>: activities are records in an explicit store, an address
  being a position in it; activation, dispatch and chain execution take an execution context
  (record \<open>exe\<close>). A chain need not end in general, so its execution is a partial function;
  finite chains are shown to return. \<open>ActivityTerm\<close>: the builder that wires chains and
  links terms by notifications. \<open>SchedulerInvocation\<close>: the queues of Layer-1, with the locale
  \<open>prio_queue\<close>. \<open>LoadController\<close>: classes of capacity and delays. \<open>SchedulerCommutator\<close>: the
  grooming token, retrieval of work and the worker's round (Layer-2), and a step relation for
  the interleaved operations of any number of threads. \<open>Scheduler\<close>: the service with its duty
  cycle; it provides the execution context, which interprets the locale \<open>exec_context\<close>.
  \<open>WorkerPool\<close>: the loop of a worker thread with its pauses, a partial function since it need not end, and the pool; the
  locale \<open>worker_setup\<close> is what it asks of its settings.
  \<open>ExtentFamily\<close> (\<open>vault/mem\<close>): the cyclic pool of memory extents, with the locale
  \<open>extent_pool\<close>; \<open>BlockFlow\<close>: allocation of activities in epochs with a common deadline; the
  search for a free slot gets fuel for every epoch and one more, which is shown to be enough.

  Model and changes (\<open>steam/fixture\<close>, \<open>steam/engine\<close>, \<open>lib/diff\<close>). \<open>SplitSplice\<close>: the
  algorithm of \<open>split-splice.hpp\<close> in its four stages, over a record of the client's functions;
  the locale \<open>seg_binding\<close> states what these must do. \<open>JobTicket\<close>: exit nodes and the tickets
  built from them, a ticket being a tree with its prerequisites. \<open>Segmentation\<close>: segments with
  their port tables and the segmentation as a list of them; its \<open>splitSplice\<close> interprets
  \<open>seg_binding\<close>. \<open>ListDiff\<close>: the list diff of \<open>lib/diff\<close>, snapshots with an index, generation
  of the verbs by \<open>DiffFrame\<close> and application by \<open>DiffApplicationStrategy\<close>; the locale
  \<open>change_feed\<close> is the contract between an observed and an observing sequence.

  Pipelines and dispatch (\<open>lib/iter-explorer.hpp\<close>, \<open>lib/iter-adapter.hpp\<close>, \<open>lib/iter-stack.hpp\<close>,
  \<open>steam/engine\<close>, \<open>steam/control\<close>). \<open>IterExplorer\<close>: a state core is a record of the functions
  \<open>checkPoint\<close>, \<open>yield\<close> and \<open>iterNext\<close> over its state, a layer a function from cores to cores;
  the locale \<open>presents\<close> states that a core yields exactly the elements of a list, its extension
  \<open>presents_with\<close> adds a functor of the client applied to the position, and \<open>expansion\<close> adds the
  functors that expand an element to a sequence of children. A loop over a core need not end, so
  it is a partial function; over a core with this contract it is shown to return. \<open>Planning\<close>: timings of a play process, the chain of plans with their
  deadlines, and the planning pipeline, built from those layers; the lookup of tickets and the product of rational
  numbers are parameters. \<open>SteamLoop\<close>: the loop control \<open>Looper\<close>, the command queue and the
  session thread, a step relation of the thread interleaved with calls of clients; the effect of
  a command is a parameter.

  Commands (\<open>steam/control\<close>). \<open>Commands\<close>: storage of arguments and memento, the functors bound to it,
  cloning, the registry, and invocation and undo by a handling pattern. Handles and functors share objects, so
  closures and implementation records are in lists and an address is a position. Each operation is a
  function from the state to a result and a state, since execution goes on after an exception. The functors
  of a command are given with its definition; the lemmas on \<open>touches\<close> say that an operation reaches one
  closure only. \<open>CommandInstances\<close>: the instance manager (\<open>command-setup.cpp\<close>), the session command service and the
  hand-over to the session thread; the dispatcher is a parameter of the manager, with the locale
  \<open>command_dispatch\<close>, interpreted by the queue of \<open>SteamLoop\<close>.

  Session storage (\<open>steam/mobject/session\<close>). \<open>PlacementIndex\<close>: the index of placements with its
  tables of entries and scopes, its operations and its self test \<open>Validator\<close>; the tables of the
  code are maps here, and the refinement is to a tree of IDs. \<open>ScopePath\<close>: queries that explore
  the contents of scopes, paths of scopes, and the stack of focus frames with counted handles.

  Services (\<open>common\<close>, \<open>lib/text-template.hpp\<close>). \<open>SubsystemRunner\<close>: start of the subsystems with
  their dependencies, termination callbacks, shutdown, and the main program with its exit codes;
  what a subsystem does on start is a parameter. \<open>TextTemplate\<close>: tags of a template, found by a matcher
  in place of the regular expression, and the compiler to actions with jumps. \<open>TemplateInstance\<close>:
  the interpreter of the actions over a data source, with the locale \<open>data_source\<close>, and the nested
  templates it refines.

  Parser combinators (\<open>lib/parse.hpp\<close>). \<open>ParseSyntax\<close>: the parse functions, the models they yield, and the
  DSL of syntax clauses. \<open>ParseGrammar\<close>: clauses as data, with rules for recursive syntax in levels, of which
  a finite number is enough where no rule is left recursive, and the ordered grammar they denote.

  Interface coordinates (\<open>lib/path-array.hpp\<close>, \<open>stage/interact\<close>). \<open>UICoord\<close>: the storage of a path, inline
  and extended, its normalisation and the builder, against the sequence of names. \<open>UICoordResolver\<close>:
  the search for a pattern in the tree of the interface, built from the iterators of
  \<open>IterExplorer\<close>, the operations of the resolver, and the solver for locations; what these need of the
  interface is the locale \<open>location_query\<close>, interpreted on trees of elements as the unit tests use them.

  Conventions. A machine integer is a HOL \<open>int\<close> with the reduction to its width written out
  (\<open>i64\<close>, \<open>u32\<close> and so on, theory \<open>Prelude\<close>); theorems state the range in which no reduction
  happens. Exceptions and failed assertions are left values of \<open>'a result\<close>; where a loop or a
  wait need not end the result type is \<open>'a partial_result\<close>, with \<open>None\<close> for not returning.

  The lemmas show, per component: saturation and exactness of time arithmetic; that quantising
  rounds down onto the grid and is inverse to the time of a grid point; round trips of time
  fields, drop-frame labels and SMPTE codes; the exact wiring of the activity chains; that a gate
  passes once; order and exactness of delivery from the queues; that work found is due and in
  time; that a splice changes a segmentation exactly in the given range; that a diff turns the
  old into the new sequence, and any other sequence into the new one or an error; that a
  pipeline of layers yields what the list functions give and expansion visits a tree depth
  first; that every frame of the planned interval is planned once, with deadlines that leave
  time for what depends on it; that commands run once and in order, the builder follows them and
  a stop ends the thread; that rounds return, give back the token, and that the duty cycle
  re-arms itself; in which cycle a worker ends, and how the pool scales and shuts down; that storage lives until the deadline it was requested for; that the index of
  placements always passes its self test, queries on it are complete and focus handles safe; that
  subsystems start after what they depend on and a shutdown completes; that templates compile
  exactly when they are nested and render what they mean; that a parser returns what
  its grammar derives, and returns at all without left recursion; that coordinates are kept in normal
  form, resolved to the deepest match, and locations found exist or may be created; that undo in
  reverse order restores the session, commands share no storage, and what waits for the session thread is
  ready, and keeps the arguments it was dispatched with.

  Not modelled: floating point (the lag average is a parameter of the load controller's state,
  the load indicator is left out, the regulation of the epoch step is a pair of functions), concurrent access to the list of
  workers, what a particular command does to the session, reference counts of commands and the
  closures that define them at startup, the mutation of trees by a diff, the state
  left behind by an exception (but for commands), text formatting (the string forms of coordinates among it), the binding of
  templates to generic nodes, hooks of the application life cycle and loading of plugins, the
  navigation of actual widgets (unimplemented in the code), the window of the time line (rational
  numbers re-quantised through floating point), regular expressions; and the other parts
  of the application, listed in the manifest with the reason.
\<close>

end
